(* ===== verification/Prelude.thy ===== *)
theory Prelude
  imports Main "HOL-Library.Word" "HOL-Library.Monad_Syntax"
begin

text \<open>
  Shared vocabulary of the development: the machine types of the C++ sources as words, memory
  as lists of cells, the two byte orders of an object representation, and the generic lemmas on
  lists, options and words that the component theories use.

  Conventions.
  \<^item> \<open>uint8_t\<close>, \<open>uint16_t\<close>, \<open>uint32_t\<close> and \<open>uint64_t\<close> are \<open>8 word\<close> to \<open>64 word\<close>.
  \<^item> \<open>size_t\<close> values that count elements of an existing object are \<open>nat\<close>: an object is smaller
    than the address space, so these counts do not wrap.
  \<^item> A result of type \<open>'a option\<close> of a memory operation is \<open>None\<close> where the C++ access is out
    of the bounds of the object (undefined behaviour).
  \<^item> A cell of freshly allocated, uninitialised memory is \<open>None\<close> in an \<open>'a option list\<close>.
\<close>

unbundle bit_operations_syntax

type_synonym byte = "8 word"
type_synonym u16 = "16 word"
type_synonym u32 = "32 word"
type_synonym u64 = "64 word"

named_theorems wire_simps "object representations and their inverses"
named_theorems mem_simps "reads and writes of lists of cells"

section \<open>Memory blocks as lists\<close>

text \<open>
  \<open>mem_read\<close> and \<open>mem_write\<close> are the block copies (\<open>memcpy\<close>, \<open>memmove\<close>) between an object and
  a list of values; both fail outside the object.
\<close>

definition mem_read :: "'a list \<Rightarrow> nat \<Rightarrow> nat \<Rightarrow> 'a list option" where
  "mem_read mem off n = (if off + n \<le> length mem then Some (take n (drop off mem)) else None)"

definition mem_write :: "'a list \<Rightarrow> nat \<Rightarrow> 'a list \<Rightarrow> 'a list option" where
  "mem_write mem off xs =
     (if off + length xs \<le> length mem
      then Some (take off mem @ xs @ drop (off + length xs) mem) else None)"

lemma mem_write_length [mem_simps]:
  "mem_write mem off xs = Some mem' \<Longrightarrow> length mem' = length mem"
  by (auto simp: mem_write_def split: if_splits)

lemma mem_read_write_same [mem_simps]:
  assumes "mem_write mem off xs = Some mem'"
  shows "mem_read mem' off (length xs) = Some xs"
  using assms by (auto simp: mem_write_def mem_read_def split: if_splits)

lemma mem_write_before [mem_simps]:
  assumes "mem_write mem off xs = Some mem'" and "k \<le> off"
  shows "take k mem' = take k mem"
  using assms by (auto simp: mem_write_def min_def split: if_splits)

lemma mem_write_after [mem_simps]:
  assumes "mem_write mem off xs = Some mem'" and "off + length xs \<le> k"
  shows "drop k mem' = drop k mem"
  using assms by (auto simp: mem_write_def drop_append split: if_splits)

lemma mem_write_prefix [mem_simps]:
  assumes "mem_write mem off xs = Some mem'"
  shows "take (off + length xs) mem' = take off mem @ xs"
  using assms by (auto simp: mem_write_def take_append split: if_splits)

lemma mem_write_defined:
  "off + length xs \<le> length mem \<Longrightarrow> \<exists>mem'. mem_write mem off xs = Some mem'"
  by (simp add: mem_write_def)

text \<open>An assignment to one element.\<close>

definition put_char :: "'a list \<Rightarrow> nat \<Rightarrow> 'a \<Rightarrow> 'a list option" where
  "put_char result i ch = mem_write result i [ch]"

lemma put_char_run:
  assumes "length pre = n"
  shows "put_char (pre @ x # post) n ch = Some (pre @ ch # post)"
    and "put_char (pre @ a # x # post) (Suc n) ch = Some (pre @ a # ch # post)"
    and "put_char (pre @ a # b # x # post) (Suc (Suc n)) ch = Some (pre @ a # b # ch # post)"
    and "put_char (pre @ a # b # c # x # post) (n + 3) ch = Some (pre @ a # b # c # ch # post)"
  using assms by (simp_all add: put_char_def mem_write_def)

lemma those_map_Some [simp]: "those (map Some xs) = Some xs"
  by (induction xs) simp_all

section \<open>Object representations\<close>

text \<open>
  The object representation of an unsigned integer: \<open>bytes_le n v\<close> lists the \<open>n\<close> bytes of \<open>v\<close>
  from the least significant one, \<open>word_of_le\<close> reads such a list back.
\<close>

definition bytes_le :: "nat \<Rightarrow> 'a::len word \<Rightarrow> byte list" where
  "bytes_le n v = map (\<lambda>i. ucast (drop_bit (8 * i) v)) [0..<n]"

fun word_of_le :: "byte list \<Rightarrow> 'a::len word" where
  "word_of_le [] = 0"
| "word_of_le (b # bs) = ucast b OR push_bit 8 (word_of_le bs)"

datatype endian = LittleEndian | BigEndian

definition word_to_mem :: "endian \<Rightarrow> nat \<Rightarrow> 'a::len word \<Rightarrow> byte list" where
  "word_to_mem he n v = (case he of LittleEndian \<Rightarrow> bytes_le n v | BigEndian \<Rightarrow> rev (bytes_le n v))"

definition mem_to_word :: "endian \<Rightarrow> byte list \<Rightarrow> 'a::len word" where
  "mem_to_word he bs = (case he of LittleEndian \<Rightarrow> word_of_le bs | BigEndian \<Rightarrow> word_of_le (rev bs))"

lemma length_bytes_le [simp]: "length (bytes_le n v) = n"
  by (simp add: bytes_le_def)

lemma bytes_le_nth: "i < n \<Longrightarrow> bytes_le n v ! i = ucast (drop_bit (8 * i) v)"
  by (simp add: bytes_le_def)

lemma length_word_to_mem [simp]: "length (word_to_mem he n v) = n"
  by (cases he) (simp_all add: word_to_mem_def)

lemma bit_word_of_le:
  fixes bs :: "byte list"
  shows "bit (word_of_le bs :: 'a::len word) k \<longleftrightarrow>
    k < LENGTH('a) \<and> k < 8 * length bs \<and> bit (bs ! (k div 8)) (k mod 8)"
proof (induction bs arbitrary: k)
  case Nil
  then show ?case by simp
next
  case (Cons b bs)
  show ?case
  proof (cases "k < 8")
    case True
    then show ?thesis by (auto simp: bit_simps)
  next
    case False
    then have "k div 8 = Suc ((k - 8) div 8)" and "k mod 8 = (k - 8) mod 8"
      by (simp_all add: le_div_geq le_mod_geq)
    moreover have "\<not> bit b k"
      using False by (auto dest: bit_imp_le_length)
    ultimately show ?thesis
      using False Cons.IH [of "k - 8"] by (auto simp: bit_simps)
  qed
qed


lemma word_of_bytes_le [wire_simps]:
  assumes "LENGTH('a) \<le> 8 * n"
  shows "word_of_le (bytes_le n (v :: 'a::len word)) = v"
proof (rule bit_word_eqI)
  fix k assume k: "k < LENGTH('a)"
  with assms have "k div 8 < n" by auto
  moreover have "8 * (k div 8) + k mod 8 = k" by simp
  ultimately show "bit (word_of_le (bytes_le n v) :: 'a word) k \<longleftrightarrow> bit v k"
    using k assms by (simp add: bit_word_of_le bytes_le_nth bit_simps)
qed

lemma bytes_le_word_of_le [wire_simps]:
  assumes "8 * length bs \<le> LENGTH('a)" and "n = length bs"
  shows "bytes_le n (word_of_le bs :: 'a::len word) = bs"
proof (rule nth_equalityI)
  show "length (bytes_le n (word_of_le bs :: 'a word)) = length bs"
    using assms by simp
  fix i assume "i < length (bytes_le n (word_of_le bs :: 'a word))"
  then have i: "i < n" by simp
  show "bytes_le n (word_of_le bs :: 'a word) ! i = bs ! i"
  proof (rule bit_word_eqI)
    fix k assume k: "k < LENGTH(8)"
    then have "(8 * i + k) div 8 = i" and "(8 * i + k) mod 8 = k" by simp_all
    then show "bit (bytes_le n (word_of_le bs :: 'a word) ! i) k = bit (bs ! i) k"
      using i k assms by (auto simp: bytes_le_nth bit_simps bit_word_of_le)
  qed
qed

lemma mem_to_word_to_mem [wire_simps]:
  "LENGTH('a) \<le> 8 * n \<Longrightarrow> mem_to_word he (word_to_mem he n (v :: 'a::len word)) = v"
  by (cases he) (simp_all add: mem_to_word_def word_to_mem_def word_of_bytes_le)

lemma word_to_mem_to_word [wire_simps]:
  "8 * length bs \<le> LENGTH('a) \<Longrightarrow> n = length bs \<Longrightarrow>
    word_to_mem he n (mem_to_word he bs :: 'a::len word) = bs"
  by (cases he) (simp_all add: mem_to_word_def word_to_mem_def bytes_le_word_of_le)

text \<open>Lists of a fixed length, one equation per element.\<close>

lemma bytes_le_2: "bytes_le 2 v = [ucast v, ucast (drop_bit 8 v)]"
  by (simp add: bytes_le_def upt_rec)

lemma bytes_le_4:
  "bytes_le 4 v = [ucast v, ucast (drop_bit 8 v), ucast (drop_bit 16 v), ucast (drop_bit 24 v)]"
  by (simp add: bytes_le_def upt_rec)

lemma bytes_le_8:
  "bytes_le 8 v =
    [ucast v, ucast (drop_bit 8 v), ucast (drop_bit 16 v), ucast (drop_bit 24 v),
     ucast (drop_bit 32 v), ucast (drop_bit 40 v), ucast (drop_bit 48 v), ucast (drop_bit 56 v)]"
  by (simp add: bytes_le_def upt_rec)

lemma list_eq_take_nth:
  "n \<le> length xs \<Longrightarrow> take n xs = map (\<lambda>i. xs ! i) [0..<n]"
  by (rule nth_equalityI) auto

section \<open>Bits and bounds\<close>

lemma unat_exp:
  assumes "n < LENGTH('a)"
  shows "unat (2 ^ n :: 'a::len word) = 2 ^ n"
proof -
  have "unat (of_nat (2 ^ n) :: 'a word) = 2 ^ n"
    using assms by (simp only: unat_of_nat) simp
  then show ?thesis by simp
qed

lemma bit_byte_7: "bit b k \<Longrightarrow> 7 \<le> k \<Longrightarrow> k = 7" for b :: byte
  using bit_imp_le_length [of b k] by simp

lemma byte_eqI:
  fixes x y :: byte
  assumes "bit x 0 = bit y 0" "bit x 1 = bit y 1" "bit x 2 = bit y 2" "bit x 3 = bit y 3"
    "bit x 4 = bit y 4" "bit x 5 = bit y 5" "bit x 6 = bit y 6" "bit x 7 = bit y 7"
  shows "x = y"
proof (rule bit_word_eqI)
  fix k assume "k < LENGTH(8)"
  then consider "k = 0" | "k = 1" | "k = 2" | "k = 3" | "k = 4" | "k = 5" | "k = 6" | "k = 7" by fastforce
  then show "bit x k = bit y k" using assms by cases simp_all
qed

lemma bit_128: "bit (0x80 :: 'a::semiring_bits) k \<longleftrightarrow> possible_bit TYPE('a) 7 \<and> k = 7"
  using bit_exp_iff [where 'a = 'a, of 7 k] by auto

lemma word_less_exp_iff_bits:
  fixes x :: "'a::len word"
  assumes "n < LENGTH('a)"
  shows "x < 2 ^ n \<longleftrightarrow> (\<forall>k\<ge>n. \<not> bit x k)"
proof -
  have "x < 2 ^ n \<longleftrightarrow> unat x < 2 ^ n"
    using assms by (simp add: word_less_nat_alt unat_exp)
  also have "\<dots> \<longleftrightarrow> take_bit n (unat x) = unat x"
    by (simp add: take_bit_nat_eq_self_iff)
  also have "\<dots> \<longleftrightarrow> take_bit n x = x"
    by (metis unsigned_take_bit_eq word_unat_eq_iff)
  also have "\<dots> \<longleftrightarrow> (\<forall>k\<ge>n. \<not> bit x k)"
    by (auto simp: bit_eq_iff bit_simps not_less) (meson bit_imp_le_length leD leI)+
  finally show ?thesis .
qed

section \<open>An interface: stores that grow at the end\<close>

text \<open>
  What the clients of a growing byte store rely on: appending never fails on a well-formed store,
  keeps it well-formed and adds the elements after those already there.
\<close>

locale append_store =
  fixes store_inv :: "'s \<Rightarrow> bool"
    and contents :: "'s \<Rightarrow> 'a list"
    and store_append :: "'s \<Rightarrow> 'b list \<Rightarrow> 's option"
    and inj :: "'b \<Rightarrow> 'a"
  assumes append_ok: "store_inv s \<Longrightarrow>
    \<exists>s'. store_append s xs = Some s' \<and> store_inv s' \<and> contents s' = contents s @ map inj xs"
begin

fun append_all :: "'s \<Rightarrow> 'b list list \<Rightarrow> 's option" where
  "append_all s [] = Some s"
| "append_all s (xs # xss) = store_append s xs \<bind> (\<lambda>s'. append_all s' xss)"

lemma append_all_ok:
  assumes "store_inv s"
  shows "\<exists>s'. append_all s xss = Some s' \<and> store_inv s' \<and> contents s' = contents s @ map inj (concat xss)"
  using assms
proof (induction xss arbitrary: s)
  case Nil
  then show ?case by simp
next
  case (Cons xs xss)
  from append_ok [OF Cons.prems, of xs] obtain s1 where s1:
    "store_append s xs = Some s1" "store_inv s1" "contents s1 = contents s @ map inj xs" by blast
  from Cons.IH [OF s1(2)] show ?case using s1 by auto
qed

end

end
