(* ===== verification/ByteOrder.thy ===== *)
theory ByteOrder
  imports Prelude
begin

text \<open>
  \<open>src/byte_order.h\<close>: reading and writing of little- and big-endian integers in memory, and the
  conversions between host and network order.  The memory behind a \<open>void*\<close> is a list of bytes;
  an access outside it is \<open>None\<close>.  The representation of integers on the host is the parameter
  \<open>he\<close>, so every statement holds for both kinds of host.
\<close>

section \<open>Accessors\<close>

definition set8 :: "byte list \<Rightarrow> nat \<Rightarrow> byte \<Rightarrow> byte list option" where
  "set8 memory offset v = (if offset < length memory then Some (memory[offset := v]) else None)"

definition get8 :: "byte list \<Rightarrow> nat \<Rightarrow> byte option" where
  "get8 memory offset = (if offset < length memory then Some (memory ! offset) else None)"

definition set_be16 :: "byte list \<Rightarrow> u16 \<Rightarrow> byte list option" where
  "set_be16 memory v = do {
     memory <- set8 memory 0 (ucast (drop_bit 8 v));
     set8 memory 1 (ucast (drop_bit 0 v))
   }"

definition set_be32 :: "byte list \<Rightarrow> u32 \<Rightarrow> byte list option" where
  "set_be32 memory v = do {
     memory <- set8 memory 0 (ucast (drop_bit 24 v));
     memory <- set8 memory 1 (ucast (drop_bit 16 v));
     memory <- set8 memory 2 (ucast (drop_bit 8 v));
     set8 memory 3 (ucast (drop_bit 0 v))
   }"

definition set_be64 :: "byte list \<Rightarrow> u64 \<Rightarrow> byte list option" where
  "set_be64 memory v = do {
     memory <- set8 memory 0 (ucast (drop_bit 56 v));
     memory <- set8 memory 1 (ucast (drop_bit 48 v));
     memory <- set8 memory 2 (ucast (drop_bit 40 v));
     memory <- set8 memory 3 (ucast (drop_bit 32 v));
     memory <- set8 memory 4 (ucast (drop_bit 24 v));
     memory <- set8 memory 5 (ucast (drop_bit 16 v));
     memory <- set8 memory 6 (ucast (drop_bit 8 v));
     set8 memory 7 (ucast (drop_bit 0 v))
   }"

text \<open>
  In \<open>get_be16\<close> the shifted bytes are promoted to \<open>int\<close>; the result is cast back to 16 bits.
\<close>

definition get_be16 :: "byte list \<Rightarrow> u16 option" where
  "get_be16 memory = do {
     b0 <- get8 memory 0;
     b1 <- get8 memory 1;
     Some (ucast (push_bit 8 (ucast b0 :: u32) OR push_bit 0 (ucast b1)))
   }"

definition get_be32 :: "byte list \<Rightarrow> u32 option" where
  "get_be32 memory = do {
     b0 <- get8 memory 0;
     b1 <- get8 memory 1;
     b2 <- get8 memory 2;
     b3 <- get8 memory 3;
     Some (push_bit 24 (ucast b0) OR push_bit 16 (ucast b1) OR
           push_bit 8 (ucast b2) OR push_bit 0 (ucast b3))
   }"

definition get_be64 :: "byte list \<Rightarrow> u64 option" where
  "get_be64 memory = do {
     b0 <- get8 memory 0;
     b1 <- get8 memory 1;
     b2 <- get8 memory 2;
     b3 <- get8 memory 3;
     b4 <- get8 memory 4;
     b5 <- get8 memory 5;
     b6 <- get8 memory 6;
     b7 <- get8 memory 7;
     Some (push_bit 56 (ucast b0) OR push_bit 48 (ucast b1) OR
           push_bit 40 (ucast b2) OR push_bit 32 (ucast b3) OR
           push_bit 24 (ucast b4) OR push_bit 16 (ucast b5) OR
           push_bit 8 (ucast b6) OR push_bit 0 (ucast b7))
   }"

definition set_le16 :: "byte list \<Rightarrow> u16 \<Rightarrow> byte list option" where
  "set_le16 memory v = do {
     memory <- set8 memory 0 (ucast (drop_bit 0 v));
     set8 memory 1 (ucast (drop_bit 8 v))
   }"

definition set_le32 :: "byte list \<Rightarrow> u32 \<Rightarrow> byte list option" where
  "set_le32 memory v = do {
     memory <- set8 memory 0 (ucast (drop_bit 0 v));
     memory <- set8 memory 1 (ucast (drop_bit 8 v));
     memory <- set8 memory 2 (ucast (drop_bit 16 v));
     set8 memory 3 (ucast (drop_bit 24 v))
   }"

definition set_le64 :: "byte list \<Rightarrow> u64 \<Rightarrow> byte list option" where
  "set_le64 memory v = do {
     memory <- set8 memory 0 (ucast (drop_bit 0 v));
     memory <- set8 memory 1 (ucast (drop_bit 8 v));
     memory <- set8 memory 2 (ucast (drop_bit 16 v));
     memory <- set8 memory 3 (ucast (drop_bit 24 v));
     memory <- set8 memory 4 (ucast (drop_bit 32 v));
     memory <- set8 memory 5 (ucast (drop_bit 40 v));
     memory <- set8 memory 6 (ucast (drop_bit 48 v));
     set8 memory 7 (ucast (drop_bit 56 v))
   }"

definition get_le16 :: "byte list \<Rightarrow> u16 option" where
  "get_le16 memory = do {
     b0 <- get8 memory 0;
     b1 <- get8 memory 1;
     Some (ucast (push_bit 0 (ucast b0 :: u32) OR push_bit 8 (ucast b1)))
   }"

definition get_le32 :: "byte list \<Rightarrow> u32 option" where
  "get_le32 memory = do {
     b0 <- get8 memory 0;
     b1 <- get8 memory 1;
     b2 <- get8 memory 2;
     b3 <- get8 memory 3;
     Some (push_bit 0 (ucast b0) OR push_bit 8 (ucast b1) OR
           push_bit 16 (ucast b2) OR push_bit 24 (ucast b3))
   }"

definition get_le64 :: "byte list \<Rightarrow> u64 option" where
  "get_le64 memory = do {
     b0 <- get8 memory 0;
     b1 <- get8 memory 1;
     b2 <- get8 memory 2;
     b3 <- get8 memory 3;
     b4 <- get8 memory 4;
     b5 <- get8 memory 5;
     b6 <- get8 memory 6;
     b7 <- get8 memory 7;
     Some (push_bit 0 (ucast b0) OR push_bit 8 (ucast b1) OR
           push_bit 16 (ucast b2) OR push_bit 24 (ucast b3) OR
           push_bit 32 (ucast b4) OR push_bit 40 (ucast b5) OR
           push_bit 48 (ucast b6) OR push_bit 56 (ucast b7))
   }"

section \<open>Host and network order\<close>

text \<open>
  \<open>*reinterpret_cast<const char*>(&number)\<close> is the first byte of the representation of the
  \<open>int\<close> 1.  The \<open>host_to_network\<close> functions fill an uninitialised local (\<open>result\<close>) with
  \<open>set_be\<close> and read it as a host integer.  What the local held before is irrelevant
  (\<open>put_fresh\<close> below): the model starts from zero bytes.
\<close>

definition is_host_big_endian :: "endian \<Rightarrow> bool" where
  "is_host_big_endian he \<longleftrightarrow> hd (word_to_mem he 4 (1 :: u32)) = 0"

definition host_to_network16 :: "endian \<Rightarrow> u16 \<Rightarrow> u16 option" where
  "host_to_network16 he n = map_option (mem_to_word he) (set_be16 (replicate 2 0) n)"

definition host_to_network32 :: "endian \<Rightarrow> u32 \<Rightarrow> u32 option" where
  "host_to_network32 he n = map_option (mem_to_word he) (set_be32 (replicate 4 0) n)"

definition host_to_network64 :: "endian \<Rightarrow> u64 \<Rightarrow> u64 option" where
  "host_to_network64 he n = map_option (mem_to_word he) (set_be64 (replicate 8 0) n)"

definition network_to_host16 :: "endian \<Rightarrow> u16 \<Rightarrow> u16 option" where
  "network_to_host16 he n = get_be16 (word_to_mem he 2 n)"

definition network_to_host32 :: "endian \<Rightarrow> u32 \<Rightarrow> u32 option" where
  "network_to_host32 he n = get_be32 (word_to_mem he 4 n)"

definition network_to_host64 :: "endian \<Rightarrow> u64 \<Rightarrow> u64 option" where
  "network_to_host64 he n = get_be64 (word_to_mem he 8 n)"

section \<open>The contract of a pair of accessors\<close>

text \<open>
  Each pair of accessors promises the same: \<open>put\<close> overwrites the first bytes of the memory with
  an encoding of fixed length and leaves the others alone, \<open>get\<close> decodes these bytes, both fail
  exactly when the memory is too short, and the encoding is a bijection.
\<close>

locale wire_int =
  fixes n_bytes :: nat
    and enc :: "'w::len word \<Rightarrow> byte list"
    and dec :: "byte list \<Rightarrow> 'w word"
    and put :: "byte list \<Rightarrow> 'w word \<Rightarrow> byte list option"
    and get :: "byte list \<Rightarrow> 'w word option"
  assumes enc_length [simp]: "length (enc v) = n_bytes"
    and dec_enc [simp]: "dec (enc v) = v"
    and enc_dec: "length bs = n_bytes \<Longrightarrow> enc (dec bs) = bs"
    and put_write: "put mem v = mem_write mem 0 (enc v)"
    and get_read: "get mem = map_option dec (mem_read mem 0 n_bytes)"
begin

lemma get_put:
  assumes "put mem v = Some mem'"
  shows "get mem' = Some v"
  using mem_read_write_same [of mem 0 "enc v" mem'] assms by (simp add: put_write get_read)

lemma put_defined_iff: "(\<exists>mem'. put mem v = Some mem') \<longleftrightarrow> n_bytes \<le> length mem"
  by (simp add: put_write mem_write_def)

lemma get_defined_iff: "(\<exists>v. get mem = Some v) \<longleftrightarrow> n_bytes \<le> length mem"
  by (auto simp: get_read mem_read_def)

lemma put_frame:
  assumes "put mem v = Some mem'"
  shows "drop n_bytes mem' = drop n_bytes mem" and "length mem' = length mem"
  using assms by (auto simp: put_write mem_write_def drop_append split: if_splits)

lemma put_get:
  assumes "get mem = Some v"
  shows "put mem v = Some mem"
proof -
  from assms have n: "n_bytes \<le> length mem" and v: "v = dec (take n_bytes mem)"
    by (auto simp: get_read mem_read_def split: if_splits)
  with enc_dec [of "take n_bytes mem"] show ?thesis
    by (simp add: put_write mem_write_def)
qed

lemma put_fresh:
  assumes "length junk = n_bytes"
  shows "put junk v = Some (enc v)"
  using assms by (simp add: put_write mem_write_def)

lemma get_exact:
  assumes "length bs = n_bytes"
  shows "get bs = Some (dec bs)"
  using assms by (simp add: get_read mem_read_def)

end

section \<open>The six pairs keep the contract\<close>

text \<open>
  The first \<open>n\<close> cells of a memory that is long enough, by name: with these the accessor chains
  evaluate; on a shorter memory the guard of one of the accesses fails.
\<close>

lemma length_ge_Suc_iff: "Suc n \<le> length xs \<longleftrightarrow> (\<exists>y ys. xs = y # ys \<and> n \<le> length ys)"
  by (cases xs) auto

lemma cells2:
  assumes "2 \<le> length xs"
  obtains a b r where "xs = a # b # r"
  using assms by (auto simp: numeral_2_eq_2 length_ge_Suc_iff)

lemma cells4:
  assumes "4 \<le> length xs"
  obtains a b c d r where "xs = a # b # c # d # r"
  using assms by (auto simp: numeral_eq_Suc length_ge_Suc_iff)

lemma cells8:
  assumes "8 \<le> length xs"
  obtains a b c d e f g h r where "xs = a # b # c # d # e # f # g # h # r"
  using assms by (auto simp: numeral_eq_Suc length_ge_Suc_iff)

lemmas accessor_defs = set8_def get8_def mem_write_def mem_read_def

lemmas or_push_simps = push_bit_or push_bit_push_bit or.assoc or.commute or.left_commute

lemma ucast_or_16: "(ucast (a OR b :: u32) :: u16) = ucast a OR ucast b"
  by (rule bit_word_eqI) (auto simp: bit_simps)

lemma ucast_push_byte_16:
  "(ucast (push_bit 8 (ucast (b :: byte) :: u32)) :: u16) = push_bit 8 (ucast b)"
  by (rule bit_word_eqI) (auto simp: bit_simps)

lemma ucast_byte_16: "(ucast (ucast (b :: byte) :: u32) :: u16) = ucast b"
  by (rule bit_word_eqI) (auto simp: bit_simps)

lemmas promote_16 = ucast_or_16 ucast_push_byte_16 ucast_byte_16

interpretation be16: wire_int 2 "\<lambda>v. rev (bytes_le 2 v)" "\<lambda>bs. word_of_le (rev bs)" set_be16 get_be16
proof unfold_locales
  fix mem :: "byte list" and v :: u16
  show "set_be16 mem v = mem_write mem 0 (rev (bytes_le 2 v))"
    by (cases "2 \<le> length mem")
      (auto elim!: cells2 simp: set_be16_def bytes_le_2 accessor_defs split: Option.bind_splits)
  show "get_be16 mem = map_option (\<lambda>bs. word_of_le (rev bs)) (mem_read mem 0 2)"
    by (cases "2 \<le> length mem")
      (auto elim!: cells2 simp: get_be16_def accessor_defs or_push_simps promote_16 split: Option.bind_splits)
qed (simp_all add: wire_simps)

interpretation be32: wire_int 4 "\<lambda>v. rev (bytes_le 4 v)" "\<lambda>bs. word_of_le (rev bs)" set_be32 get_be32
proof unfold_locales
  fix mem :: "byte list" and v :: u32
  show "set_be32 mem v = mem_write mem 0 (rev (bytes_le 4 v))"
    by (cases "4 \<le> length mem")
      (auto elim!: cells4 simp: set_be32_def bytes_le_4 accessor_defs split: Option.bind_splits)
  show "get_be32 mem = map_option (\<lambda>bs. word_of_le (rev bs)) (mem_read mem 0 4)"
    by (cases "4 \<le> length mem")
      (auto elim!: cells4 simp: get_be32_def accessor_defs or_push_simps split: Option.bind_splits)
qed (simp_all add: wire_simps)

interpretation be64: wire_int 8 "\<lambda>v. rev (bytes_le 8 v)" "\<lambda>bs. word_of_le (rev bs)" set_be64 get_be64
proof unfold_locales
  fix mem :: "byte list" and v :: u64
  show "set_be64 mem v = mem_write mem 0 (rev (bytes_le 8 v))"
    by (cases "8 \<le> length mem")
      (auto elim!: cells8 simp: set_be64_def bytes_le_8 accessor_defs split: Option.bind_splits)
  show "get_be64 mem = map_option (\<lambda>bs. word_of_le (rev bs)) (mem_read mem 0 8)"
    by (cases "8 \<le> length mem")
      (auto elim!: cells8 simp: get_be64_def accessor_defs or_push_simps split: Option.bind_splits)
qed (simp_all add: wire_simps)

interpretation le16: wire_int 2 "bytes_le 2" "word_of_le" set_le16 get_le16
proof unfold_locales
  fix mem :: "byte list" and v :: u16
  show "set_le16 mem v = mem_write mem 0 (bytes_le 2 v)"
    by (cases "2 \<le> length mem")
      (auto elim!: cells2 simp: set_le16_def bytes_le_2 accessor_defs split: Option.bind_splits)
  show "get_le16 mem = map_option (word_of_le) (mem_read mem 0 2)"
    by (cases "2 \<le> length mem")
      (auto elim!: cells2 simp: get_le16_def accessor_defs or_push_simps promote_16 split: Option.bind_splits)
qed (simp_all add: wire_simps)

interpretation le32: wire_int 4 "bytes_le 4" "word_of_le" set_le32 get_le32
proof unfold_locales
  fix mem :: "byte list" and v :: u32
  show "set_le32 mem v = mem_write mem 0 (bytes_le 4 v)"
    by (cases "4 \<le> length mem")
      (auto elim!: cells4 simp: set_le32_def bytes_le_4 accessor_defs split: Option.bind_splits)
  show "get_le32 mem = map_option (word_of_le) (mem_read mem 0 4)"
    by (cases "4 \<le> length mem")
      (auto elim!: cells4 simp: get_le32_def accessor_defs or_push_simps split: Option.bind_splits)
qed (simp_all add: wire_simps)

interpretation le64: wire_int 8 "bytes_le 8" "word_of_le" set_le64 get_le64
proof unfold_locales
  fix mem :: "byte list" and v :: u64
  show "set_le64 mem v = mem_write mem 0 (bytes_le 8 v)"
    by (cases "8 \<le> length mem")
      (auto elim!: cells8 simp: set_le64_def bytes_le_8 accessor_defs split: Option.bind_splits)
  show "get_le64 mem = map_option (word_of_le) (mem_read mem 0 8)"
    by (cases "8 \<le> length mem")
      (auto elim!: cells8 simp: get_le64_def accessor_defs or_push_simps split: Option.bind_splits)
qed (simp_all add: wire_simps)

lemma host_to_network16_eq [wire_simps]:
  "host_to_network16 he n = Some (mem_to_word he (rev (bytes_le 2 n)))"
  by (simp add: host_to_network16_def be16.put_fresh)

lemma network_to_host16_eq [wire_simps]:
  "network_to_host16 he n = Some (word_of_le (rev (word_to_mem he 2 n)))"
  by (simp add: network_to_host16_def be16.get_exact)

lemma host_to_network32_eq [wire_simps]:
  "host_to_network32 he n = Some (mem_to_word he (rev (bytes_le 4 n)))"
  by (simp add: host_to_network32_def be32.put_fresh)

lemma network_to_host32_eq [wire_simps]:
  "network_to_host32 he n = Some (word_of_le (rev (word_to_mem he 4 n)))"
  by (simp add: network_to_host32_def be32.get_exact)

lemma host_to_network64_eq [wire_simps]:
  "host_to_network64 he n = Some (mem_to_word he (rev (bytes_le 8 n)))"
  by (simp add: host_to_network64_def be64.put_fresh)

lemma network_to_host64_eq [wire_simps]:
  "network_to_host64 he n = Some (word_of_le (rev (word_to_mem he 8 n)))"
  by (simp add: network_to_host64_def be64.get_exact)

lemma is_host_big_endian_iff [simp]: "is_host_big_endian he \<longleftrightarrow> he = BigEndian"
  by (cases he) (simp_all add: is_host_big_endian_def word_to_mem_def bytes_le_4)

section \<open>Properties\<close>

text \<open>
  Conversion to network order and back is the identity on every 64-, 32- and 16-bit value,
  on little- and on big-endian hosts, neither conversion touches memory outside its local, and
  the converted value is stored most significant byte first whatever the host is.
\<close>

theorem host_network_roundtrip:
  "host_to_network64 he x \<bind> network_to_host64 he = Some x \<and>
   host_to_network32 he y \<bind> network_to_host32 he = Some y \<and>
   host_to_network16 he z \<bind> network_to_host16 he = Some z \<and>
   map_option (word_to_mem he 8) (host_to_network64 he x) = Some (rev (bytes_le 8 x)) \<and>
   map_option (word_to_mem he 4) (host_to_network32 he y) = Some (rev (bytes_le 4 y)) \<and>
   map_option (word_to_mem he 2) (host_to_network16 he z) = Some (rev (bytes_le 2 z))"
  by (simp add: wire_simps)

end
