(* ===== verification/ByteBuffer.thy ===== *)
theory ByteBuffer
  imports ByteOrder
begin

text \<open>
  \<open>src/byte_buffer.h\<close> and \<open>src/byte_buffer.cpp\<close>: \<open>ByteBufferWriter\<close>, a growing byte buffer with
  typed writes, and \<open>ByteBufferReader\<close>, a cursor with typed reads.  Cells the writer has
  allocated and not written are \<open>None\<close>.  A writer operation returns \<open>None\<close> where the code would
  copy outside one of its objects; the invariant \<open>bw_inv\<close> excludes that.
\<close>

datatype byte_order = ORDER_NETWORK | ORDER_HOST

section \<open>ByteBufferWriter\<close>

record byte_buffer_writer =
  bw_order :: byte_order
  bw_bytes :: "byte option list"
  bw_size :: nat
  bw_start :: nat
  bw_end :: nat

definition DEFAULT_SIZE :: nat where
  "DEFAULT_SIZE = 4096"

definition bw_construct :: "byte_order \<Rightarrow> byte list option \<Rightarrow> nat \<Rightarrow> byte_buffer_writer option" where
  "bw_construct byte_order bytes len =
     (let fresh = replicate len None in
      case bytes of
        Some bs \<Rightarrow> do {
          src <- mem_read bs 0 len;
          mem <- mem_write fresh 0 (map Some src);
          Some \<lparr>bw_order = byte_order, bw_bytes = mem, bw_size = len, bw_start = 0, bw_end = len\<rparr>
        }
      | None \<Rightarrow>
          Some \<lparr>bw_order = byte_order, bw_bytes = fresh, bw_size = len, bw_start = 0, bw_end = 0\<rparr>)"

text \<open>The four constructors.\<close>

definition bw_new :: "byte_buffer_writer option" where
  "bw_new = bw_construct ORDER_NETWORK None DEFAULT_SIZE"

definition bw_new_order :: "byte_order \<Rightarrow> byte_buffer_writer option" where
  "bw_new_order byte_order = bw_construct byte_order None DEFAULT_SIZE"

definition bw_new_bytes :: "byte list option \<Rightarrow> nat \<Rightarrow> byte_buffer_writer option" where
  "bw_new_bytes bytes len = bw_construct ORDER_NETWORK bytes len"

definition bw_new_bytes_order :: "byte list option \<Rightarrow> nat \<Rightarrow> byte_order \<Rightarrow> byte_buffer_writer option" where
  "bw_new_bytes_order bytes len byte_order = bw_construct byte_order bytes len"

definition bw_length :: "byte_buffer_writer \<Rightarrow> nat" where
  "bw_length w = bw_end w - bw_start w"

definition bw_capacity :: "byte_buffer_writer \<Rightarrow> nat" where
  "bw_capacity w = bw_size w - bw_start w"

text \<open>\<open>data()\<close>, together with \<open>length()\<close>: the cells the client may read.\<close>

definition bw_data :: "byte_buffer_writer \<Rightarrow> byte option list" where
  "bw_data w = take (bw_length w) (drop (bw_start w) (bw_bytes w))"

definition resize :: "byte_buffer_writer \<Rightarrow> nat \<Rightarrow> byte_buffer_writer option" where
  "resize w sz =
     (let len = min (bw_end w - bw_start w) sz in
      if sz \<le> bw_size w then do {
        moved <- mem_read (bw_bytes w) (bw_start w) len;
        mem <- mem_write (bw_bytes w) 0 moved;
        Some (w\<lparr>bw_bytes := mem, bw_start := 0, bw_end := len\<rparr>)
      }
      else do {
        let new_size = max sz (3 * bw_size w div 2);
        kept <- mem_read (bw_bytes w) (bw_start w) len;
        mem <- mem_write (replicate new_size None) 0 kept;
        Some (w\<lparr>bw_bytes := mem, bw_size := new_size, bw_start := 0, bw_end := len\<rparr>)
      })"

text \<open>\<open>reserve_write_buffer\<close> returns the address \<open>_bytes + _end\<close>: here the offset.\<close>

definition reserve_write_buffer ::
  "byte_buffer_writer \<Rightarrow> nat \<Rightarrow> (nat \<times> byte_buffer_writer) option" where
  "reserve_write_buffer w len = do {
     w <- (if bw_length w + len > bw_capacity w then resize w (bw_length w + len) else Some w);
     let start = bw_end w;
     Some (start, w\<lparr>bw_end := bw_end w + len\<rparr>)
   }"

definition write_bytes :: "byte_buffer_writer \<Rightarrow> byte list \<Rightarrow> nat \<Rightarrow> byte_buffer_writer option" where
  "write_bytes w val len = do {
     (start, w) <- reserve_write_buffer w len;
     src <- mem_read val 0 len;
     mem <- mem_write (bw_bytes w) start (map Some src);
     Some (w\<lparr>bw_bytes := mem\<rparr>)
   }"

definition write_uint8 :: "endian \<Rightarrow> byte_buffer_writer \<Rightarrow> byte \<Rightarrow> byte_buffer_writer option" where
  "write_uint8 he w val = write_bytes w (word_to_mem he 1 val) 1"

definition write_uint16 :: "endian \<Rightarrow> byte_buffer_writer \<Rightarrow> u16 \<Rightarrow> byte_buffer_writer option" where
  "write_uint16 he w val = do {
     v <- (if bw_order w = ORDER_NETWORK then host_to_network16 he val else Some val);
     write_bytes w (word_to_mem he 2 v) 2
   }"

definition write_uint24 :: "endian \<Rightarrow> byte_buffer_writer \<Rightarrow> u32 \<Rightarrow> byte_buffer_writer option" where
  "write_uint24 he w val = do {
     v <- (if bw_order w = ORDER_NETWORK then host_to_network32 he val else Some val);
     let start = (if bw_order w = ORDER_NETWORK \<or> is_host_big_endian he then 1 else 0);
     write_bytes w (drop start (word_to_mem he 4 v)) 3
   }"

definition write_uint32 :: "endian \<Rightarrow> byte_buffer_writer \<Rightarrow> u32 \<Rightarrow> byte_buffer_writer option" where
  "write_uint32 he w val = do {
     v <- (if bw_order w = ORDER_NETWORK then host_to_network32 he val else Some val);
     write_bytes w (word_to_mem he 4 v) 4
   }"

definition write_uint64 :: "endian \<Rightarrow> byte_buffer_writer \<Rightarrow> u64 \<Rightarrow> byte_buffer_writer option" where
  "write_uint64 he w val = do {
     v <- (if bw_order w = ORDER_NETWORK then host_to_network64 he val else Some val);
     write_bytes w (word_to_mem he 8 v) 8
   }"

lemma drop_bit_7_less:
  fixes val :: u64
  assumes "0x80 \<le> val"
  shows "unat (drop_bit 7 val) < unat val"
proof -
  have "128 \<le> unat val" using assms by (simp add: word_le_nat_alt)
  moreover have "unat (drop_bit 7 val) = unat val div 128"
    by (subst unat_drop_bit_eq) (simp add: drop_bit_eq_div)
  ultimately show ?thesis by simp
qed

function write_uvarint :: "byte_buffer_writer \<Rightarrow> u64 \<Rightarrow> byte_buffer_writer option" where
  "write_uvarint w val =
     (if 0x80 \<le> val then do {
        w <- write_bytes w [ucast val OR 0x80] 1;
        write_uvarint w (drop_bit 7 val)
      }
      else write_bytes w [ucast val] 1)"
  by pat_completeness auto
termination
  by (relation "measure (\<lambda>(w, val). unat val)") (auto simp: drop_bit_7_less)

declare write_uvarint.simps [simp del]

definition write_string :: "byte_buffer_writer \<Rightarrow> byte list \<Rightarrow> byte_buffer_writer option" where
  "write_string w val = write_bytes w val (length val)"

definition bw_clear :: "byte_buffer_writer \<Rightarrow> byte_buffer_writer option" where
  "bw_clear w = do {
     mem <- mem_write (bw_bytes w) 0 (replicate (bw_size w) (Some 0));
     Some (w\<lparr>bw_bytes := mem, bw_start := 0, bw_end := 0\<rparr>)
   }"

section \<open>ByteBufferReader\<close>

record byte_buffer_reader =
  br_order :: byte_order
  br_bytes :: "byte list"
  br_size :: nat
  br_start :: nat
  br_end :: nat

definition br_construct :: "byte_order \<Rightarrow> byte list \<Rightarrow> nat \<Rightarrow> byte_buffer_reader" where
  "br_construct byte_order bytes len =
     \<lparr>br_order = byte_order, br_bytes = bytes, br_size = len, br_start = 0, br_end = len\<rparr>"

definition br_new :: "byte list \<Rightarrow> nat \<Rightarrow> byte_buffer_reader" where
  "br_new bytes len = br_construct ORDER_NETWORK bytes len"

definition br_new_order :: "byte list \<Rightarrow> nat \<Rightarrow> byte_order \<Rightarrow> byte_buffer_reader" where
  "br_new_order bytes len byte_order = br_construct byte_order bytes len"

text \<open>
  From a zero-terminated string: \<open>strlen\<close> needs the terminator inside the object.
\<close>

definition br_new_cstring :: "byte list \<Rightarrow> byte_buffer_reader option" where
  "br_new_cstring bytes =
     (if 0 \<in> set bytes
      then Some (br_construct ORDER_NETWORK bytes (length (takeWhile (\<lambda>b. b \<noteq> 0) bytes)))
      else None)"

text \<open>
  From a writer: the reader refers to the writer's data.  A cell the writer has not written has
  no value to read, so the model wants all of them written.
\<close>

definition br_of_writer :: "byte_buffer_writer \<Rightarrow> byte_buffer_reader option" where
  "br_of_writer buf =
     map_option (\<lambda>bs. br_construct (bw_order buf) bs (bw_length buf)) (those (bw_data buf))"

definition br_length :: "byte_buffer_reader \<Rightarrow> nat" where
  "br_length r = br_end r - br_start r"

definition br_data :: "byte_buffer_reader \<Rightarrow> byte list" where
  "br_data r = take (br_length r) (drop (br_start r) (br_bytes r))"

text \<open>
  The result of a read is the pair of the value stored through the output pointer (\<open>None\<close> when
  the function returns \<open>false\<close>) and the new reader; \<open>val\<close> says whether the pointer is not null.
\<close>

definition read_bytes :: "byte_buffer_reader \<Rightarrow> nat \<Rightarrow> byte list option \<times> byte_buffer_reader" where
  "read_bytes r len =
     (if len > br_length r then (None, r)
      else (Some (take len (drop (br_start r) (br_bytes r))), r\<lparr>br_start := br_start r + len\<rparr>))"

definition read_uint8 :: "endian \<Rightarrow> bool \<Rightarrow> byte_buffer_reader \<Rightarrow> byte option \<times> byte_buffer_reader" where
  "read_uint8 he val r =
     (if \<not> val then (None, r)
      else case read_bytes r 1 of
        (None, r) \<Rightarrow> (None, r)
      | (Some v, r) \<Rightarrow> (Some (mem_to_word he v), r))"

definition read_uint16 :: "endian \<Rightarrow> bool \<Rightarrow> byte_buffer_reader \<Rightarrow> u16 option \<times> byte_buffer_reader" where
  "read_uint16 he val r =
     (if \<not> val then (None, r)
      else case read_bytes r 2 of
        (None, r) \<Rightarrow> (None, r)
      | (Some bs, r) \<Rightarrow>
          let v = mem_to_word he bs in
          (if br_order r = ORDER_NETWORK then network_to_host16 he v else Some v, r))"

definition read_uint24 :: "endian \<Rightarrow> bool \<Rightarrow> byte_buffer_reader \<Rightarrow> u32 option \<times> byte_buffer_reader" where
  "read_uint24 he val r =
     (if \<not> val then (None, r)
      else
        let at = (if br_order r = ORDER_NETWORK \<or> is_host_big_endian he then 1 else 0) in
        case read_bytes r 3 of
          (None, r) \<Rightarrow> (None, r)
        | (Some bs, r) \<Rightarrow>
            (mem_write (word_to_mem he 4 (0 :: u32)) at bs \<bind>
               (\<lambda>mem. let v = mem_to_word he mem in
                  if br_order r = ORDER_NETWORK then network_to_host32 he v else Some v), r))"

definition read_uint32 :: "endian \<Rightarrow> bool \<Rightarrow> byte_buffer_reader \<Rightarrow> u32 option \<times> byte_buffer_reader" where
  "read_uint32 he val r =
     (if \<not> val then (None, r)
      else case read_bytes r 4 of
        (None, r) \<Rightarrow> (None, r)
      | (Some bs, r) \<Rightarrow>
          let v = mem_to_word he bs in
          (if br_order r = ORDER_NETWORK then network_to_host32 he v else Some v, r))"

definition read_uint64 :: "endian \<Rightarrow> bool \<Rightarrow> byte_buffer_reader \<Rightarrow> u64 option \<times> byte_buffer_reader" where
  "read_uint64 he val r =
     (if \<not> val then (None, r)
      else case read_bytes r 8 of
        (None, r) \<Rightarrow> (None, r)
      | (Some bs, r) \<Rightarrow>
          let v = mem_to_word he bs in
          (if br_order r = ORDER_NETWORK then network_to_host64 he v else Some v, r))"

text \<open>
  The loop of \<open>read_uvarint\<close>: \<open>i\<close> counts bits.  \<open>byte\<close> is a (signed) \<open>char\<close>, so the casts to
  \<open>uint64_t\<close> extend its sign.
\<close>

function read_uvarint_loop ::
  "nat \<Rightarrow> u64 \<Rightarrow> byte_buffer_reader \<Rightarrow> u64 option \<times> byte_buffer_reader" where
  "read_uvarint_loop i v r =
     (if i < 64 then
        (case read_bytes r 1 of
           (None, r) \<Rightarrow> (None, r)
         | (Some bs, r) \<Rightarrow>
             let b = (scast (hd bs) :: u64);
                 v = v OR push_bit i (b AND 0x7F)
             in if b < 0x80 then (Some v, r) else read_uvarint_loop (i + 7) v r)
      else (None, r))"
  by pat_completeness auto
termination
  by (relation "measure (\<lambda>(i, v, r). 64 - i)") auto

declare read_uvarint_loop.simps [simp del]

definition read_uvarint :: "bool \<Rightarrow> byte_buffer_reader \<Rightarrow> u64 option \<times> byte_buffer_reader" where
  "read_uvarint val r = (if \<not> val then (None, r) else read_uvarint_loop 0 0 r)"

text \<open>\<open>read_string\<close> appends to the string behind the pointer (\<open>None\<close>: null).\<close>

definition read_string ::
  "byte_buffer_reader \<Rightarrow> byte list option \<Rightarrow> nat \<Rightarrow> bool \<times> byte list option \<times> byte_buffer_reader" where
  "read_string r val len =
     (case val of
        None \<Rightarrow> (False, None, r)
      | Some s \<Rightarrow>
          if len > br_length r then (False, Some s, r)
          else (True, Some (s @ take len (drop (br_start r) (br_bytes r))),
                r\<lparr>br_start := br_start r + len\<rparr>))"

definition consume :: "byte_buffer_reader \<Rightarrow> nat \<Rightarrow> bool \<times> byte_buffer_reader" where
  "consume r sz =
     (if sz > br_length r then (False, r) else (True, r\<lparr>br_start := br_start r + sz\<rparr>))"

section \<open>The writer appends\<close>

definition bw_inv :: "byte_buffer_writer \<Rightarrow> bool" where
  "bw_inv w \<longleftrightarrow> length (bw_bytes w) = bw_size w \<and> bw_start w \<le> bw_end w \<and> bw_end w \<le> bw_size w"

text \<open>What a write promises: it succeeds, keeps the invariant and the order, and appends.\<close>

definition bw_appends ::
  "byte_buffer_writer \<Rightarrow> byte_buffer_writer option \<Rightarrow> byte list \<Rightarrow> bool" where
  "bw_appends w res bs \<longleftrightarrow>
     (\<exists>w'. res = Some w' \<and> bw_inv w' \<and> bw_order w' = bw_order w \<and>
           bw_data w' = bw_data w @ map Some bs)"

lemma bw_appends_bind:
  assumes "bw_appends w res bs"
    and "\<And>w'. bw_inv w' \<Longrightarrow> bw_order w' = bw_order w \<Longrightarrow> bw_appends w' (f w') cs"
  shows "bw_appends w (res \<bind> f) (bs @ cs)"
  using assms by (fastforce simp: bw_appends_def)

lemma bw_data_length: "bw_inv w \<Longrightarrow> length (bw_data w) = bw_length w"
  by (auto simp: bw_inv_def bw_data_def bw_length_def)

lemma bw_construct_inv:
  assumes "bw_construct ord bytes len = Some w"
  shows "bw_inv w"
  using assms
  by (auto simp: bw_construct_def bw_inv_def Let_def mem_simps split: option.splits Option.bind_splits)

lemma resize_spec:
  assumes "bw_inv w"
  shows "\<exists>w'. resize w sz = Some w' \<and> bw_inv w' \<and> bw_order w' = bw_order w \<and> bw_start w' = 0 \<and>
    bw_end w' = min (bw_length w) sz \<and> sz \<le> bw_size w' \<and> bw_data w' = take sz (bw_data w)"
proof (cases "sz \<le> bw_size w")
  case True
  then show ?thesis
    using assms
    by (auto simp: resize_def bw_inv_def bw_data_def bw_length_def mem_read_def mem_write_def Let_def min.commute)
next
  case False
  then show ?thesis
    using assms
    by (auto simp: resize_def bw_inv_def bw_data_def bw_length_def mem_read_def mem_write_def Let_def min.commute)
qed

lemma reserve_write_buffer_spec:
  assumes "bw_inv w"
  shows "\<exists>start w'. reserve_write_buffer w len = Some (start, w') \<and> bw_inv w' \<and>
    bw_order w' = bw_order w \<and> bw_end w' = start + len \<and> bw_start w' \<le> start \<and>
    take (start - bw_start w') (drop (bw_start w') (bw_bytes w')) = bw_data w"
proof (cases "bw_length w + len > bw_capacity w")
  case True
  from resize_spec [OF assms, of "bw_length w + len"] obtain w' where w':
    "resize w (bw_length w + len) = Some w'" "bw_inv w'" "bw_order w' = bw_order w"
    "bw_start w' = 0" "bw_end w' = bw_length w" "bw_length w + len \<le> bw_size w'"
    "bw_data w' = bw_data w"
    using assms by (auto simp: bw_data_length)
  then show ?thesis
    using True by (auto simp: reserve_write_buffer_def bw_inv_def bw_data_def bw_length_def)
next
  case False
  then show ?thesis
    using assms
    by (auto simp: reserve_write_buffer_def bw_inv_def bw_data_def bw_length_def bw_capacity_def)
qed

lemma write_bytes_appends:
  assumes "bw_inv w" and "len \<le> length val"
  shows "bw_appends w (write_bytes w val len) (take len val)"
proof -
  from reserve_write_buffer_spec [OF assms(1), of len] obtain start w' where w':
    "reserve_write_buffer w len = Some (start, w')" "bw_inv w'" "bw_order w' = bw_order w"
    "bw_end w' = start + len" "bw_start w' \<le> start"
    "take (start - bw_start w') (drop (bw_start w') (bw_bytes w')) = bw_data w"
    by blast
  let ?src = "map Some (take len val)"
  have "start + length ?src \<le> length (bw_bytes w')"
    using w' assms(2) by (auto simp: bw_inv_def)
  then obtain mem where mem: "mem_write (bw_bytes w') start ?src = Some mem"
    using mem_write_defined by blast
  then have "length mem = length (bw_bytes w')" by (rule mem_write_length)
  moreover have "take (start + len) mem = take start (bw_bytes w') @ ?src"
    using mem_write_prefix [OF mem] assms(2) by (simp add: min_absorb2)
  then have "drop (bw_start w') (take (start + len) mem) = bw_data w @ ?src"
    using w' \<open>start + length ?src \<le> length (bw_bytes w')\<close> by (auto simp: drop_take)
  ultimately show ?thesis
    using w' mem assms(2)
    by (auto simp: bw_appends_def write_bytes_def mem_read_def bw_inv_def bw_data_def bw_length_def drop_take)
qed

lemmas write_bytes_all = write_bytes_appends [OF _ order_refl, simplified]

lemma bw_clear_spec:
  assumes "bw_inv w"
  shows "\<exists>w'. bw_clear w = Some w' \<and> bw_inv w' \<and> bw_data w' = [] \<and> bw_size w' = bw_size w"
  using assms by (auto simp: bw_clear_def bw_inv_def mem_write_def bw_data_def bw_length_def)

section \<open>The reader consumes\<close>

definition br_inv :: "byte_buffer_reader \<Rightarrow> bool" where
  "br_inv r \<longleftrightarrow> br_start r \<le> br_end r \<and> br_end r \<le> br_size r \<and> br_size r \<le> length (br_bytes r)"

text \<open>What a successful read promises.\<close>

definition br_yields ::
  "byte_buffer_reader \<Rightarrow> 'v option \<times> byte_buffer_reader \<Rightarrow> 'v \<Rightarrow> byte list \<Rightarrow> bool" where
  "br_yields r res v rest \<longleftrightarrow>
     (\<exists>r'. res = (Some v, r') \<and> br_inv r' \<and> br_order r' = br_order r \<and> br_data r' = rest)"

lemma br_data_length: "br_inv r \<Longrightarrow> length (br_data r) = br_length r"
  by (auto simp: br_inv_def br_data_def br_length_def)

lemma read_bytes_yields:
  assumes "br_inv r" and "br_data r = bs @ rest" and "n = length bs"
  shows "br_yields r (read_bytes r n) bs rest"
proof -
  have len: "br_length r = length bs + length rest"
    using br_data_length [OF assms(1)] assms(2) by simp
  have bs: "take n (drop (br_start r) (br_bytes r)) = bs"
    using assms(2,3) len by (auto simp: br_data_def dest: arg_cong [of _ _ "take n"])
  have "take (length rest) (drop (br_start r + n) (br_bytes r)) = rest"
    using assms(2,3) len by (auto simp: br_data_def drop_take add.commute dest: arg_cong [of _ _ "drop n"])
  moreover have "br_end r - (br_start r + n) = length rest"
    using len assms(3) by (simp add: br_length_def)
  ultimately show ?thesis
    using assms len bs
    by (auto simp: br_yields_def read_bytes_def br_inv_def br_data_def br_length_def)
qed

lemma read_bytes_short: "br_length r < n \<Longrightarrow> read_bytes r n = (None, r)"
  by (simp add: read_bytes_def)

section \<open>Typed fields\<close>

text \<open>
  The contract of a typed field: a write appends the encoding of the value in the writer's byte
  order, a read of a buffer that starts with the encoding yields the value and the rest.
\<close>

locale field_codec =
  fixes ok :: "'v \<Rightarrow> bool"
    and enc :: "byte_order \<Rightarrow> 'v \<Rightarrow> byte list"
    and wr :: "byte_buffer_writer \<Rightarrow> 'v \<Rightarrow> byte_buffer_writer option"
    and rd :: "byte_buffer_reader \<Rightarrow> 'v option \<times> byte_buffer_reader"
  assumes wr_appends: "bw_inv w \<Longrightarrow> bw_appends w (wr w v) (enc (bw_order w) v)"
    and rd_yields: "br_inv r \<Longrightarrow> ok v \<Longrightarrow> br_data r = enc (br_order r) v @ rest \<Longrightarrow>
      br_yields r (rd r) v rest"
begin

lemma written_then_read:
  assumes "bw_inv w" and "bw_data w = map Some pre" and "ok v"
    and "wr w v = Some w'" and "br_of_writer w' = Some r" and "consume r (length pre) = (True, r')"
  shows "br_yields r' (rd r') v []"
proof -
  from wr_appends [OF assms(1), of v] assms(2,4)
  have w': "bw_inv w'" "bw_order w' = bw_order w" "bw_data w' = map Some (pre @ enc (bw_order w) v)"
    by (auto simp: bw_appends_def)
  then have r: "r = br_construct (bw_order w) (pre @ enc (bw_order w) v) (bw_length w')"
    using assms(5) by (auto simp: br_of_writer_def simp del: map_append)
  have len: "bw_length w' = length pre + length (enc (bw_order w) v)"
    using bw_data_length [OF w'(1)] w'(3) by simp
  show ?thesis
  proof (rule rd_yields)
    show "br_inv r'" and "ok v" and "br_data r' = enc (br_order r') v @ []"
      using assms(3,6) r len
      by (auto simp: consume_def br_construct_def br_inv_def br_data_def br_length_def split: if_splits)
  qed
qed

end


text \<open>The encodings.\<close>

definition enc_uint :: "endian \<Rightarrow> nat \<Rightarrow> byte_order \<Rightarrow> 'w::len word \<Rightarrow> byte list" where
  "enc_uint he n ord v = (case ord of ORDER_NETWORK \<Rightarrow> rev (bytes_le n v) | ORDER_HOST \<Rightarrow> word_to_mem he n v)"

function enc_uvarint :: "u64 \<Rightarrow> byte list" where
  "enc_uvarint val =
     (if 0x80 \<le> val then (ucast val OR 0x80) # enc_uvarint (drop_bit 7 val) else [ucast val])"
  by pat_completeness auto
termination
  by (relation "measure unat") (auto simp: drop_bit_7_less)

declare enc_uvarint.simps [simp del]

lemma length_enc_uint [simp]: "length (enc_uint he n ord v) = n"
  by (cases ord) (simp_all add: enc_uint_def)

lemma read_bytes_enc:
  assumes "br_inv r" and "br_data r = enc_uint he n (br_order r) v @ rest"
  obtains r' where "read_bytes r n = (Some (enc_uint he n (br_order r) v), r')"
    and "br_inv r'" and "br_order r' = br_order r" and "br_data r' = rest"
  using read_bytes_yields [OF assms, of n] by (auto simp: br_yields_def)

lemmas enc_wire_simps = enc_uint_def Let_def br_yields_def wire_simps

interpretation u8: field_codec "\<lambda>_. True" "enc_uint he 1" "write_uint8 he" "read_uint8 he True" for he
proof unfold_locales
  fix w and v :: byte
  assume "bw_inv w"
  then show "bw_appends w (write_uint8 he w v) (enc_uint he 1 (bw_order w) v)"
    using write_bytes_all [of w "word_to_mem he 1 v"]
    by (cases "bw_order w"; cases he) (simp_all add: write_uint8_def enc_uint_def word_to_mem_def bytes_le_def)
next
  fix r rest and v :: byte
  assume r: "br_inv r" "br_data r = enc_uint he 1 (br_order r) v @ rest"
  have "mem_to_word he (enc_uint he 1 (br_order r) v) = v"
    by (cases "br_order r"; cases he)
      (simp_all add: enc_uint_def mem_to_word_def word_to_mem_def bytes_le_def)
  moreover from r obtain r' where "read_bytes r 1 = (Some (enc_uint he 1 (br_order r) v), r')"
    "br_inv r'" "br_order r' = br_order r" "br_data r' = rest"
    by (rule read_bytes_enc)
  ultimately show "br_yields r (read_uint8 he True r) v rest"
    by (simp add: read_uint8_def br_yields_def)
qed

interpretation u16: field_codec "\<lambda>_. True" "enc_uint he 2" "write_uint16 he" "read_uint16 he True" for he
proof unfold_locales
  fix w and v :: u16
  assume "bw_inv w"
  then show "bw_appends w (write_uint16 he w v) (enc_uint he 2 (bw_order w) v)"
    using write_bytes_all [of w "enc_uint he 2 (bw_order w) v"]
    by (cases "bw_order w") (simp_all add: write_uint16_def enc_uint_def wire_simps)
next
  fix r rest and v :: u16
  assume r: "br_inv r" "br_data r = enc_uint he 2 (br_order r) v @ rest"
  from r obtain r' where "read_bytes r 2 = (Some (enc_uint he 2 (br_order r) v), r')"
    "br_inv r'" "br_order r' = br_order r" "br_data r' = rest"
    by (rule read_bytes_enc)
  then show "br_yields r (read_uint16 he True r) v rest"
    by (cases "br_order r") (simp_all add: read_uint16_def enc_wire_simps)
qed

interpretation u32: field_codec "\<lambda>_. True" "enc_uint he 4" "write_uint32 he" "read_uint32 he True" for he
proof unfold_locales
  fix w and v :: u32
  assume "bw_inv w"
  then show "bw_appends w (write_uint32 he w v) (enc_uint he 4 (bw_order w) v)"
    using write_bytes_all [of w "enc_uint he 4 (bw_order w) v"]
    by (cases "bw_order w") (simp_all add: write_uint32_def enc_uint_def wire_simps)
next
  fix r rest and v :: u32
  assume r: "br_inv r" "br_data r = enc_uint he 4 (br_order r) v @ rest"
  from r obtain r' where "read_bytes r 4 = (Some (enc_uint he 4 (br_order r) v), r')"
    "br_inv r'" "br_order r' = br_order r" "br_data r' = rest"
    by (rule read_bytes_enc)
  then show "br_yields r (read_uint32 he True r) v rest"
    by (cases "br_order r") (simp_all add: read_uint32_def enc_wire_simps)
qed

interpretation u64: field_codec "\<lambda>_. True" "enc_uint he 8" "write_uint64 he" "read_uint64 he True" for he
proof unfold_locales
  fix w and v :: u64
  assume "bw_inv w"
  then show "bw_appends w (write_uint64 he w v) (enc_uint he 8 (bw_order w) v)"
    using write_bytes_all [of w "enc_uint he 8 (bw_order w) v"]
    by (cases "bw_order w") (simp_all add: write_uint64_def enc_uint_def wire_simps)
next
  fix r rest and v :: u64
  assume r: "br_inv r" "br_data r = enc_uint he 8 (br_order r) v @ rest"
  from r obtain r' where "read_bytes r 8 = (Some (enc_uint he 8 (br_order r) v), r')"
    "br_inv r'" "br_order r' = br_order r" "br_data r' = rest"
    by (rule read_bytes_enc)
  then show "br_yields r (read_uint64 he True r) v rest"
    by (cases "br_order r") (simp_all add: read_uint64_def enc_wire_simps)
qed

lemma bytes_le_3: "bytes_le 3 v = take 3 (bytes_le 4 v)"
  by (simp add: bytes_le_def take_map)

lemma bytes_le_4_small:
  fixes v :: u32
  assumes "v < 0x1000000"
  shows "bytes_le 4 v = bytes_le 3 v @ [0]"
proof -
  have "drop_bit 24 v = 0"
  proof -
    have "unat v < 2 ^ 24" using assms by (simp add: word_less_nat_alt)
    then have "unat (drop_bit 24 v) = 0"
      by (subst unat_drop_bit_eq) (simp add: drop_bit_eq_div)
    then show ?thesis by (simp only: unat_eq_0)
  qed
  then show ?thesis by (simp add: bytes_le_3 bytes_le_4)
qed

lemma length_3_cases:
  assumes "length xs = 3"
  obtains a b c where "xs = [a, b, c]"
  using assms by (auto simp: length_Suc_conv numeral_3_eq_3)

text \<open>The three bytes written at offset \<open>at\<close> of a zeroed \<open>uint32_t\<close> extend them to four.\<close>

lemma write3_into_zero:
  assumes "length bs = 3"
  shows "mem_write (word_to_mem he 4 (0 :: u32)) (Suc 0) bs = Some (0 # bs)"
    and "mem_write (word_to_mem he 4 (0 :: u32)) 0 bs = Some (bs @ [0])"
  using assms by (cases he; auto elim!: length_3_cases simp: word_to_mem_def bytes_le_4 mem_write_def)+

lemma rev_bytes_le_3: "drop (Suc 0) (rev (bytes_le 4 v)) = rev (bytes_le 3 v)"
  by (simp add: bytes_le_3 bytes_le_4)

interpretation u24: field_codec "\<lambda>v. v < 0x1000000" "enc_uint he 3" "write_uint24 he" "read_uint24 he True" for he
proof unfold_locales
  fix w and v :: u32
  assume w: "bw_inv w"
  show "bw_appends w (write_uint24 he w v) (enc_uint he 3 (bw_order w) v)"
  proof (cases "bw_order w")
    case ORDER_NETWORK
    then show ?thesis
      using write_bytes_all [OF w, of "rev (bytes_le 3 v)"]
      by (simp add: write_uint24_def enc_uint_def wire_simps rev_bytes_le_3)
  next
    case ORDER_HOST
    then show ?thesis
      using write_bytes_appends [OF w, of 3 "bytes_le 4 v"] write_bytes_all [OF w, of "rev (bytes_le 3 v)"]
      by (cases he) (simp_all add: write_uint24_def enc_uint_def word_to_mem_def rev_bytes_le_3 bytes_le_3)
  qed
next
  fix r rest and v :: u32
  assume v: "v < 0x1000000" and r: "br_inv r" "br_data r = enc_uint he 3 (br_order r) v @ rest"
  have rep: "word_of_le (bytes_le 3 v @ [0]) = v"
    using word_of_bytes_le [of 4 v] bytes_le_4_small [OF v] by simp
  from r obtain r' where r': "read_bytes r 3 = (Some (enc_uint he 3 (br_order r) v), r')"
    "br_inv r'" "br_order r' = br_order r" "br_data r' = rest"
    by (rule read_bytes_enc)
  show "br_yields r (read_uint24 he True r) v rest"
    using r' rep
    by (cases "br_order r"; cases he)
      (simp_all add: read_uint24_def enc_uint_def br_yields_def write3_into_zero network_to_host32_eq
         word_to_mem_to_word, simp_all add: mem_to_word_def word_to_mem_def)
qed

section \<open>Variable-length integers\<close>

lemma scast_byte_less_80:
  fixes b :: byte
  shows "(scast b :: u64) < 0x80 \<longleftrightarrow> b < 0x80"
proof -
  have "(scast b :: u64) < 2 ^ 7 \<longleftrightarrow> \<not> bit b 7"
    by (subst word_less_exp_iff_bits) (auto simp: bit_simps min_def)
  moreover have "b < 2 ^ 7 \<longleftrightarrow> \<not> bit b 7"
    by (subst word_less_exp_iff_bits) (auto dest: bit_byte_7)
  ultimately show ?thesis by simp
qed

lemma scast_byte_and_7F:
  fixes b :: byte
  shows "(scast b :: u64) AND 0x7F = ucast b AND 0x7F"
proof -
  have m: "(0x7F :: u64) = mask 7" by (simp add: mask_eq_exp_minus_1)
  show ?thesis unfolding m
    by (rule bit_word_eqI) (auto simp: bit_simps min_def)
qed

lemma low_7_bits:
  fixes val :: u64
  shows "ucast (ucast val OR 0x80 :: byte) AND 0x7F = val AND (0x7F :: u64)"
    and "val < 0x80 \<Longrightarrow> ucast (ucast val :: byte) AND 0x7F = val"
    and "val AND 0x7F = take_bit 7 val"
proof -
  have m: "(0x7F :: u64) = mask 7" by (simp add: mask_eq_exp_minus_1)
  show "ucast (ucast val OR 0x80 :: byte) AND 0x7F = val AND (0x7F :: u64)"
    unfolding m by (rule bit_word_eqI) (auto simp: bit_simps bit_128)
  show "val AND 0x7F = take_bit 7 val"
    unfolding m by (simp add: take_bit_eq_mask)
  assume "val < 0x80"
  then have "val < 2 ^ 7" by simp
  then have "k < 7" if "bit val k" for k
    using that by (subst (asm) word_less_exp_iff_bits) (auto simp: not_le)
  then show "ucast (ucast val :: byte) AND 0x7F = val"
    unfolding m by (intro bit_word_eqI) (auto simp: bit_simps intro: less_trans)
qed


lemma push_split_7: "push_bit i (take_bit 7 val) OR push_bit (i + 7) (drop_bit 7 val) = push_bit i (val :: u64)"
proof (rule bit_word_eqI)
  fix n assume "n < LENGTH(64)"
  then show "bit (push_bit i (take_bit 7 val) OR push_bit (i + 7) (drop_bit 7 val)) n = bit (push_bit i val) n"
    by (cases "n < i + 7") (auto simp: bit_simps not_less)
qed

lemma write_uvarint_appends:
  "bw_inv w \<Longrightarrow> bw_appends w (write_uvarint w val) (enc_uvarint val)"
proof (induction val arbitrary: w rule: enc_uvarint.induct)
  case (1 val)
  show ?case
  proof (cases "0x80 \<le> val")
    case True
    have "bw_appends w (write_bytes w [ucast val OR 0x80] 1 \<bind> (\<lambda>w. write_uvarint w (drop_bit 7 val)))
      ([ucast val OR 0x80] @ enc_uvarint (drop_bit 7 val))"
      using "1.IH" [OF True] write_bytes_all [OF "1.prems", of "[ucast val OR 0x80]"]
      by (intro bw_appends_bind) simp_all
    then show ?thesis
      using True by (simp add: write_uvarint.simps [of w val] enc_uvarint.simps [of val])
  next
    case False
    then show ?thesis
      using write_bytes_all [OF "1.prems", of "[ucast val]"]
      by (simp add: write_uvarint.simps [of w val] enc_uvarint.simps [of val])
  qed
qed

lemma read_uvarint_loop_yields:
  assumes "br_inv r" and "br_data r = enc_uvarint val @ rest" and "unat val < 2 ^ (64 - i)" and "i < 64"
  shows "br_yields r (read_uvarint_loop i v r) (v OR push_bit i val) rest"
  using assms
proof (induction val arbitrary: r v i rule: enc_uvarint.induct)
  case (1 val)
  let ?b = "hd (enc_uvarint val)"
  from read_bytes_yields [OF "1.prems"(1), of "[?b]" "tl (enc_uvarint val) @ rest" 1] "1.prems"(2)
  obtain r' where r': "read_bytes r 1 = (Some [?b], r')" "br_inv r'" "br_order r' = br_order r"
    "br_data r' = tl (enc_uvarint val) @ rest"
    by (auto simp: br_yields_def enc_uvarint.simps [of val] split: if_splits)
  show ?case
  proof (cases "0x80 \<le> val")
    case True
    then have "128 \<le> unat val" by (simp add: word_le_nat_alt)
    then have "(2::nat) ^ 7 < 2 ^ (64 - i)" using "1.prems"(3) by simp
    then have "7 < 64 - i" by (rule power_less_imp_less_exp [rotated]) simp
    then have i: "i + 7 < 64" by simp
    have b: "?b = ucast val OR 0x80" "tl (enc_uvarint val) = enc_uvarint (drop_bit 7 val)"
      using True by (simp_all add: enc_uvarint.simps [of val])
    have "unat (drop_bit 7 val) = unat val div 2 ^ 7"
      by (subst unat_drop_bit_eq) (simp add: drop_bit_eq_div)
    also have "\<dots> < 2 ^ (64 - (i + 7))"
    proof (rule less_mult_imp_div_less)
      have "64 - i = (64 - (i + 7)) + 7" using i by simp
      then show "unat val < 2 ^ (64 - (i + 7)) * 2 ^ 7"
        using "1.prems"(3) by (simp only: power_add)
    qed
    finally have "br_yields r' (read_uvarint_loop (i + 7) (v OR push_bit i (take_bit 7 val)) r')
      ((v OR push_bit i (take_bit 7 val)) OR push_bit (i + 7) (drop_bit 7 val)) rest"
      using "1.IH" [OF True r'(2), of "i + 7"] r'(4) b i by simp
    moreover have "\<not> (scast ?b :: u64) < 0x80"
      unfolding scast_byte_less_80 b using bit_128 [where 'a = byte, of 7]
      by (subst word_less_exp_iff_bits [of 7, simplified]) (auto simp: bit_simps intro!: exI [of _ 7])
    moreover have "(scast ?b :: u64) AND 0x7F = take_bit 7 val"
      by (metis b(1) scast_byte_and_7F low_7_bits(1,3))
    ultimately show ?thesis
      using r' "1.prems"(4)
      by (simp add: read_uvarint_loop.simps [of i v r] or.assoc push_split_7 br_yields_def
          del: push_bit_and)
  next
    case False
    then have b: "?b = ucast val" "tl (enc_uvarint val) = []"
      by (simp_all add: enc_uvarint.simps [of val])
    have "\<forall>k\<ge>7. \<not> bit val k"
      using False by (subst word_less_exp_iff_bits [symmetric]) (simp_all add: not_le)
    then have "(ucast val :: byte) < 2 ^ 7"
      by (subst word_less_exp_iff_bits) (auto simp: bit_simps)
    then have "(ucast val :: byte) < 0x80" by simp
    moreover have "(scast ?b :: u64) AND 0x7F = val"
      using False by (metis b(1) scast_byte_and_7F low_7_bits(2) not_le)
    ultimately show ?thesis
      using r' "1.prems"(4)
      by (simp add: read_uvarint_loop.simps [of i v r] scast_byte_less_80 b br_yields_def
          del: push_bit_and)
  qed
qed

interpretation uvarint: field_codec "\<lambda>_. True" "\<lambda>_. enc_uvarint" write_uvarint "read_uvarint True"
proof unfold_locales
  fix w val
  assume "bw_inv w"
  then show "bw_appends w (write_uvarint w val) (enc_uvarint val)"
    by (rule write_uvarint_appends)
next
  fix r val rest
  assume "br_inv r" and "br_data r = enc_uvarint val @ rest"
  then show "br_yields r (read_uvarint True r) val rest"
    using read_uvarint_loop_yields [of r val rest 0 0] unsigned_less [of val]
    by (simp add: read_uvarint_def)
qed


section \<open>Sequences of fields\<close>

text \<open>
  A message is a sequence of typed fields.  \<open>write_items\<close> is a client that writes them with the
  typed writes, \<open>read_items\<close> one that reads fields of the same types in the same order.
\<close>

datatype wire_item =
  U8 byte | U16 u16 | U24 u32 | U32 u32 | U64 u64 | UVarint u64 | Str "byte list"

fun item_ok :: "wire_item \<Rightarrow> bool" where
  "item_ok (U24 v) \<longleftrightarrow> v < 0x1000000"
| "item_ok _ \<longleftrightarrow> True"

fun enc_item :: "endian \<Rightarrow> byte_order \<Rightarrow> wire_item \<Rightarrow> byte list" where
  "enc_item he ord (U8 v) = enc_uint he 1 ord v"
| "enc_item he ord (U16 v) = enc_uint he 2 ord v"
| "enc_item he ord (U24 v) = enc_uint he 3 ord v"
| "enc_item he ord (U32 v) = enc_uint he 4 ord v"
| "enc_item he ord (U64 v) = enc_uint he 8 ord v"
| "enc_item he ord (UVarint v) = enc_uvarint v"
| "enc_item he ord (Str s) = s"

fun write_item :: "endian \<Rightarrow> byte_buffer_writer \<Rightarrow> wire_item \<Rightarrow> byte_buffer_writer option" where
  "write_item he w (U8 v) = write_uint8 he w v"
| "write_item he w (U16 v) = write_uint16 he w v"
| "write_item he w (U24 v) = write_uint24 he w v"
| "write_item he w (U32 v) = write_uint32 he w v"
| "write_item he w (U64 v) = write_uint64 he w v"
| "write_item he w (UVarint v) = write_uvarint w v"
| "write_item he w (Str s) = write_string w s"

fun write_items :: "endian \<Rightarrow> byte_buffer_writer \<Rightarrow> wire_item list \<Rightarrow> byte_buffer_writer option" where
  "write_items he w [] = Some w"
| "write_items he w (x # xs) = do { w <- write_item he w x; write_items he w xs }"

text \<open>\<open>read_like\<close> reads a field of the type of its second argument, ignoring the value in it.\<close>

fun read_like :: "endian \<Rightarrow> wire_item \<Rightarrow> byte_buffer_reader \<Rightarrow> wire_item option \<times> byte_buffer_reader" where
  "read_like he (U8 _) r = map_prod (map_option U8) id (read_uint8 he True r)"
| "read_like he (U16 _) r = map_prod (map_option U16) id (read_uint16 he True r)"
| "read_like he (U24 _) r = map_prod (map_option U24) id (read_uint24 he True r)"
| "read_like he (U32 _) r = map_prod (map_option U32) id (read_uint32 he True r)"
| "read_like he (U64 _) r = map_prod (map_option U64) id (read_uint64 he True r)"
| "read_like he (UVarint _) r = map_prod (map_option UVarint) id (read_uvarint True r)"
| "read_like he (Str s) r =
     (case read_string r (Some []) (length s) of
        (True, Some t, r) \<Rightarrow> (Some (Str t), r)
      | (_, _, r) \<Rightarrow> (None, r))"

fun read_items :: "endian \<Rightarrow> wire_item list \<Rightarrow> byte_buffer_reader \<Rightarrow> wire_item list option" where
  "read_items he [] r = Some []"
| "read_items he (x # xs) r =
     (case read_like he x r of
        (None, _) \<Rightarrow> None
      | (Some y, r) \<Rightarrow> map_option ((#) y) (read_items he xs r))"

lemma br_yields_map:
  "br_yields r res v rest \<Longrightarrow> br_yields r (map_prod (map_option f) id res) (f v) rest"
  by (auto simp: br_yields_def)

lemma write_item_appends:
  "bw_inv w \<Longrightarrow> bw_appends w (write_item he w x) (enc_item he (bw_order w) x)"
  by (cases x)
    (simp_all add: u8.wr_appends [simplified] u16.wr_appends u24.wr_appends u32.wr_appends u64.wr_appends
      uvarint.wr_appends write_string_def write_bytes_all)

lemma read_string_yields:
  assumes "br_inv r" and "br_data r = s @ rest"
  shows "\<exists>r'. read_string r (Some t) (length s) = (True, Some (t @ s), r') \<and> br_inv r' \<and>
    br_order r' = br_order r \<and> br_data r' = rest"
proof -
  from read_bytes_yields [OF assms refl] have "br_yields r (read_bytes r (length s)) s rest" .
  then show ?thesis
    by (auto simp: br_yields_def read_bytes_def read_string_def split: if_splits)
qed

lemma read_like_yields:
  assumes "br_inv r" and "item_ok x" and "br_data r = enc_item he (br_order r) x @ rest"
  shows "br_yields r (read_like he x r) x rest"
proof (cases x)
  case (Str s)
  then show ?thesis
    using read_string_yields [of r s rest "[]"] assms by (auto simp: br_yields_def)
qed (use assms in \<open>auto intro!: br_yields_map u8.rd_yields u16.rd_yields u24.rd_yields u32.rd_yields
      u64.rd_yields uvarint.rd_yields\<close>)

lemma write_items_appends:
  "bw_inv w \<Longrightarrow> bw_appends w (write_items he w xs) (concat (map (enc_item he (bw_order w)) xs))"
proof (induction xs arbitrary: w)
  case Nil
  then show ?case by (simp add: bw_appends_def)
next
  case (Cons x xs)
  then show ?case
    using bw_appends_bind [OF write_item_appends [OF Cons.prems, of he x], of "\<lambda>w. write_items he w xs"
        "concat (map (enc_item he (bw_order w)) xs)"]
    by fastforce
qed

lemma read_items_yields:
  assumes "br_inv r" and "list_all item_ok xs"
    and "br_data r = concat (map (enc_item he (br_order r)) xs) @ rest"
  shows "read_items he xs r = Some xs"
  using assms
proof (induction xs arbitrary: r)
  case Nil
  then show ?case by simp
next
  case (Cons x xs)
  then obtain r' where "read_like he x r = (Some x, r')" "br_inv r'" "br_order r' = br_order r"
    "br_data r' = concat (map (enc_item he (br_order r)) xs) @ rest"
    using read_like_yields [of r x he "concat (map (enc_item he (br_order r)) xs) @ rest"]
    by (auto simp: br_yields_def)
  then show ?case
    using Cons.IH [of r'] Cons.prems(2) by simp
qed

lemma bw_new_order_inv:
  "\<exists>w. bw_new_order ord = Some w \<and> bw_inv w \<and> bw_order w = ord \<and> bw_data w = []"
  by (simp add: bw_new_order_def bw_construct_def bw_inv_def bw_data_def bw_length_def)

lemma br_of_writer_spec:
  assumes "bw_inv w" and "bw_data w = map Some bs"
  shows "\<exists>r. br_of_writer w = Some r \<and> br_inv r \<and> br_order r = bw_order w \<and> br_data r = bs"
  using assms bw_data_length [OF assms(1)]
  by (simp add: br_of_writer_def br_construct_def br_inv_def br_data_def br_length_def)

text \<open>\<open>write_string\<close> makes the writer a growing store.\<close>

interpretation bw: append_store bw_inv bw_data write_string Some
proof
  fix w :: byte_buffer_writer and xs
  assume "bw_inv w"
  from write_bytes_all [OF this, of xs]
  show "\<exists>s'. write_string w xs = Some s' \<and> bw_inv s' \<and> bw_data s' = bw_data w @ map Some xs"
    by (auto simp: write_string_def bw_appends_def)
qed

section \<open>Properties\<close>

text \<open>
  C1. Any sequence of fields of any types written to a new writer, in either byte order and on
  either kind of host, is read back unchanged by a reader of that writer: every write succeeds,
  whatever reallocation it causes, and every read returns the value written.
\<close>

theorem byte_buffer_roundtrip:
  assumes "list_all item_ok xs"
  shows "bw_new_order ord \<bind> (\<lambda>w. write_items he w xs) \<bind> br_of_writer \<bind> read_items he xs = Some xs"
proof -
  obtain w where w: "bw_new_order ord = Some w" "bw_inv w" "bw_order w = ord" "bw_data w = []"
    using bw_new_order_inv by blast
  then obtain w' where w': "write_items he w xs = Some w'" "bw_inv w'" "bw_order w' = ord"
    "bw_data w' = map Some (concat (map (enc_item he ord) xs))"
    using write_items_appends [of w he xs] by (auto simp: bw_appends_def)
  then obtain r where r: "br_of_writer w' = Some r" "br_inv r" "br_order r = ord"
    "br_data r = concat (map (enc_item he ord) xs)"
    using br_of_writer_spec by blast
  then have "read_items he xs r = Some xs"
    using read_items_yields [of r xs he "[]"] assms by simp
  then show ?thesis using w w' r by simp
qed

theorem byte_buffer_roundtrip_witness:
  "list_all item_ok [U24 0xABCDEF, UVarint 300, Str [1, 2], U64 7] \<and>
   bw_new_order ORDER_HOST \<bind> (\<lambda>w. write_items BigEndian w [U24 0xABCDEF, UVarint 300, Str [1, 2], U64 7])
     \<bind> br_of_writer \<bind> read_items BigEndian [U24 0xABCDEF, UVarint 300, Str [1, 2], U64 7] =
   Some [U24 0xABCDEF, UVarint 300, Str [1, 2], U64 7]"
proof -
  have ok: "list_all item_ok [U24 0xABCDEF, UVarint 300, Str [1, 2], U64 7]" by simp
  show ?thesis using ok byte_buffer_roundtrip [OF ok, of ORDER_HOST BigEndian] by blast
qed

text \<open>
  C10. The memory discipline of the writer: \<open>resize\<close>, \<open>clear\<close> and a write of \<open>len\<close> bytes from an
  object of at least \<open>len\<close> bytes stay inside the buffer (they return a writer), keep the
  invariant \<open>_start <= _end <= _size\<close>, and act on the data as truncation, emptying and
  appending; a write that must reallocate grows the buffer by half at least.
\<close>

theorem byte_buffer_writer_safe:
  assumes "bw_inv w" and "len \<le> length val"
  shows "(\<exists>w'. write_bytes w val len = Some w' \<and> bw_inv w' \<and>
            bw_data w' = bw_data w @ map Some (take len val)) \<and>
         (\<exists>w'. resize w sz = Some w' \<and> bw_inv w' \<and> bw_data w' = take sz (bw_data w) \<and>
            (bw_size w < sz \<longrightarrow> sz \<le> bw_size w' \<and> 3 * bw_size w div 2 \<le> bw_size w')) \<and>
         (\<exists>w'. bw_clear w = Some w' \<and> bw_inv w' \<and> bw_data w' = [] \<and> bw_size w' = bw_size w)"
proof (intro conjI)
  show "\<exists>w'. write_bytes w val len = Some w' \<and> bw_inv w' \<and>
            bw_data w' = bw_data w @ map Some (take len val)"
    using write_bytes_appends [OF assms] by (auto simp: bw_appends_def)
  from resize_spec [OF assms(1), of sz] obtain w' where w': "resize w sz = Some w'" "bw_inv w'"
    "sz \<le> bw_size w'" "bw_data w' = take sz (bw_data w)" by blast
  moreover have "bw_size w < sz \<longrightarrow> 3 * bw_size w div 2 \<le> bw_size w'"
    using w'(1) by (auto simp: resize_def Let_def split: Option.bind_splits)
  ultimately show "\<exists>w'. resize w sz = Some w' \<and> bw_inv w' \<and> bw_data w' = take sz (bw_data w) \<and>
            (bw_size w < sz \<longrightarrow> sz \<le> bw_size w' \<and> 3 * bw_size w div 2 \<le> bw_size w')"
    by blast
  show "\<exists>w'. bw_clear w = Some w' \<and> bw_inv w' \<and> bw_data w' = [] \<and> bw_size w' = bw_size w"
    using bw_clear_spec [OF assms(1)] .
qed

theorem byte_buffer_writer_safe_witness:
  "let w = \<lparr>bw_order = ORDER_NETWORK, bw_bytes = [Some 1, None], bw_size = 2, bw_start = 0, bw_end = 1\<rparr> in
   bw_inv w \<and> (\<exists>w'. write_bytes w [5, 6, 7] 3 = Some w' \<and> bw_data w' = [Some 1, Some 5, Some 6, Some 7])"
proof -
  let ?w = "\<lparr>bw_order = ORDER_NETWORK, bw_bytes = [Some 1, None], bw_size = 2, bw_start = 0, bw_end = 1\<rparr>"
  have inv: "bw_inv ?w" by (simp add: bw_inv_def)
  have len: "3 \<le> length [5, 6, 7 :: byte]" by simp
  show ?thesis
    using inv byte_buffer_writer_safe [OF inv len] by (auto simp: Let_def bw_data_def bw_length_def)
qed


text \<open>
  C13. Fixed-size reads are atomic: with a non-null output pointer they fail exactly when fewer
  bytes are left than they need, a failed read leaves the reader as it was, and every read keeps
  the cursor inside the data; with a null pointer nothing is read.
\<close>

theorem byte_buffer_reader_atomic:
  assumes "br_inv r"
  shows "(fst (read_uint64 he val r) = None \<longleftrightarrow> \<not> val \<or> br_length r < 8) \<and>
         (fst (read_uint32 he val r) = None \<longleftrightarrow> \<not> val \<or> br_length r < 4) \<and>
         (fst (read_uint24 he val r) = None \<longleftrightarrow> \<not> val \<or> br_length r < 3) \<and>
         (fst (read_uint16 he val r) = None \<longleftrightarrow> \<not> val \<or> br_length r < 2) \<and>
         (fst (read_uint8 he val r) = None \<longleftrightarrow> \<not> val \<or> br_length r < 1) \<and>
         snd (read_uint64 he val r) = (if val \<and> 8 \<le> br_length r then r\<lparr>br_start := br_start r + 8\<rparr> else r) \<and>
         snd (read_uint32 he val r) = (if val \<and> 4 \<le> br_length r then r\<lparr>br_start := br_start r + 4\<rparr> else r) \<and>
         snd (read_uint24 he val r) = (if val \<and> 3 \<le> br_length r then r\<lparr>br_start := br_start r + 3\<rparr> else r) \<and>
         snd (read_uint16 he val r) = (if val \<and> 2 \<le> br_length r then r\<lparr>br_start := br_start r + 2\<rparr> else r) \<and>
         snd (read_uint8 he val r) = (if val \<and> 1 \<le> br_length r then r\<lparr>br_start := br_start r + 1\<rparr> else r) \<and>
         br_inv (snd (consume r n))"
proof -
  have w3: "mem_write (word_to_mem he 4 (0 :: u32)) (if ord = ORDER_NETWORK \<or> he = BigEndian then 1 else 0)
      (take 3 (drop (br_start r) (br_bytes r))) \<noteq> None" if "3 \<le> br_length r" for ord
    using that assms by (auto simp: mem_write_def br_inv_def br_length_def)
  have "br_inv (snd (consume r n))"
    using assms by (auto simp: consume_def br_inv_def br_length_def)
  moreover have "fst (read_uint24 he val r) = None \<longleftrightarrow> \<not> val \<or> br_length r < 3"
    using w3 [of "br_order r"]
    by (auto simp: read_uint24_def read_bytes_def Let_def network_to_host32_eq split: Option.bind_splits if_splits)
  ultimately show ?thesis
    by (simp add: read_uint64_def read_uint32_def read_uint24_def read_uint16_def read_uint8_def
        read_bytes_def Let_def network_to_host64_eq network_to_host32_eq network_to_host16_eq)
qed

theorem byte_buffer_reader_atomic_witness:
  "let r = br_new [1, 2, 3] 3 in
   br_inv r \<and> fst (read_uint32 LittleEndian True r) = None \<and> snd (read_uint32 LittleEndian True r) = r"
proof -
  have inv: "br_inv (br_new [1, 2, 3] 3)" by (simp add: br_new_def br_construct_def br_inv_def)
  show ?thesis
    using inv byte_buffer_reader_atomic [OF inv, of LittleEndian True]
    by (simp add: Let_def br_new_def br_construct_def br_length_def)
qed

end
