(* ===== verification/ArrayView.thy ===== *)
theory ArrayView
  imports Prelude
begin

text \<open>
  \<open>src/array_view.h\<close>: a pointer to an array that the view does not own, and a count.  A pointer
  is an index into the array it points into, \<open>None\<close> the null pointer.  The three base classes
  (fixed nonzero size, fixed zero size, variable size) are the three constructors below.
\<close>

datatype array_view =
    FixedView (fv_data: "nat option") (fv_size: nat)
  | FixedEmptyView
  | VarView (vv_data: "nat option") (vv_size: nat)

text \<open>
  \<open>ArrayViewBase<T, Size>(data, size)\<close> for the three specialisations: the fixed ones ignore the
  run-time size, the variable one nulls the pointer of an empty view.
\<close>

definition view_fixed :: "nat \<Rightarrow> nat option \<Rightarrow> nat \<Rightarrow> array_view" where
  "view_fixed static_size data sz = FixedView data static_size"

definition view_fixed_zero :: "nat option \<Rightarrow> nat \<Rightarrow> array_view" where
  "view_fixed_zero data sz = FixedEmptyView"

definition view_var :: "nat option \<Rightarrow> nat \<Rightarrow> array_view" where
  "view_var data sz = VarView (if sz = 0 then None else data) sz"

definition view_empty :: array_view where
  "view_empty = view_var None 0"

fun view_size :: "array_view \<Rightarrow> nat" where
  "view_size (FixedView d n) = n"
| "view_size FixedEmptyView = 0"
| "view_size (VarView d n) = n"

fun view_is_empty :: "array_view \<Rightarrow> bool" where
  "view_is_empty (FixedView d n) \<longleftrightarrow> False"
| "view_is_empty FixedEmptyView \<longleftrightarrow> True"
| "view_is_empty (VarView d n) \<longleftrightarrow> n = 0"

fun view_data :: "array_view \<Rightarrow> nat option" where
  "view_data (FixedView d n) = d"
| "view_data FixedEmptyView = None"
| "view_data (VarView d n) = d"

text \<open>Indexing reads through the pointer: defined when pointer and index denote an element.\<close>

definition view_index :: "'a list \<Rightarrow> array_view \<Rightarrow> nat \<Rightarrow> 'a option" where
  "view_index mem v idx =
     (case view_data v of None \<Rightarrow> None
      | Some p \<Rightarrow> if p + idx < length mem then Some (mem ! (p + idx)) else None)"

text \<open>\<open>begin()\<close> and \<open>end()\<close>: the half-open range of addresses.\<close>

definition view_begin :: "array_view \<Rightarrow> nat option" where
  "view_begin v = view_data v"

definition view_end :: "array_view \<Rightarrow> nat option" where
  "view_end v = map_option (\<lambda>p. p + view_size v) (view_data v)"

definition subview :: "array_view \<Rightarrow> nat \<Rightarrow> nat \<Rightarrow> array_view" where
  "subview v offset sz =
     (if offset < view_size v
      then view_var (map_option (\<lambda>p. p + offset) (view_data v)) (min sz (view_size v - offset))
      else view_empty)"

definition subview_from :: "array_view \<Rightarrow> nat \<Rightarrow> array_view" where
  "subview_from v offset = subview v offset (view_size v)"

definition view_eq :: "array_view \<Rightarrow> array_view \<Rightarrow> bool" where
  "view_eq a b \<longleftrightarrow> view_data a = view_data b \<and> view_size a = view_size b"

definition make_array_view :: "nat option \<Rightarrow> nat \<Rightarrow> array_view" where
  "make_array_view data sz = view_var data sz"

text \<open>
  A view is valid for an array when its range lies inside the array; the elements it denotes are
  those of the range.  A class invariant of the fixed views is that their size is positive.
\<close>

definition view_valid :: "'a list \<Rightarrow> array_view \<Rightarrow> bool" where
  "view_valid mem v \<longleftrightarrow>
     (case view_data v of None \<Rightarrow> view_size v = 0 | Some p \<Rightarrow> p + view_size v \<le> length mem)"

definition view_elems :: "'a list \<Rightarrow> array_view \<Rightarrow> 'a list" where
  "view_elems mem v = (case view_data v of None \<Rightarrow> [] | Some p \<Rightarrow> take (view_size v) (drop p mem))"

lemma view_elems_length: "view_valid mem v \<Longrightarrow> length (view_elems mem v) = view_size v"
  by (auto simp: view_valid_def view_elems_def split: option.splits)

lemma view_index_elems:
  "view_valid mem v \<Longrightarrow> idx < view_size v \<Longrightarrow> view_index mem v idx = Some (view_elems mem v ! idx)"
  by (auto simp: view_valid_def view_elems_def view_index_def split: option.splits)

lemma subview_valid: "view_valid mem v \<Longrightarrow> view_valid mem (subview v offset sz)"
  by (auto simp: view_valid_def subview_def view_var_def view_empty_def split: option.splits)

lemma subview_elems:
  "view_valid mem v \<Longrightarrow> view_elems mem (subview v offset sz) = take sz (drop offset (view_elems mem v))"
  by (auto simp: view_valid_def subview_def view_var_def view_empty_def view_elems_def drop_take min_def
      add.commute split: option.splits)

section \<open>Properties\<close>

text \<open>
  A subview of a valid view is valid for the same array whatever offset and size are asked
  for, and denotes exactly the elements \<open>[offset, offset + size)\<close> of the view that exist; every
  index below its size can be read and gives that element; a subview of a subview is a subview.
\<close>

theorem subview_correct:
  assumes "view_valid mem v"
  shows "view_valid mem (subview v offset sz) \<and>
    view_elems mem (subview v offset sz) = take sz (drop offset (view_elems mem v)) \<and>
    (\<forall>i < view_size (subview v offset sz).
       view_index mem (subview v offset sz) i = Some (view_elems mem v ! (offset + i))) \<and>
    view_elems mem (subview (subview v offset sz) offset' sz') =
      view_elems mem (subview v (offset + offset') (min sz' (sz - offset')))"
proof -
  note valid = subview_valid [OF assms, of offset sz]
  have "view_index mem (subview v offset sz) i = Some (view_elems mem v ! (offset + i))"
    if i: "i < view_size (subview v offset sz)" for i
  proof -
    have "i < length (take sz (drop offset (view_elems mem v)))"
      using i view_elems_length [OF valid] subview_elems [OF assms, of offset sz] by simp
    moreover from this have "offset \<le> length (view_elems mem v)" by auto
    ultimately show ?thesis
      using view_index_elems [OF valid i] subview_elems [OF assms, of offset sz] by simp
  qed
  then show ?thesis
    using valid assms by (simp add: subview_elems drop_take add.commute)
qed

theorem subview_correct_witness:
  "view_valid [10, 20, 30, 40 :: nat] (view_var (Some 0) 4) \<and>
   view_elems [10, 20, 30, 40 :: nat] (subview (view_var (Some 0) 4) 2 9) = [30, 40]"
proof -
  have v: "view_valid [10, 20, 30, 40 :: nat] (view_var (Some 0) 4)"
    by (simp add: view_valid_def view_var_def)
  show ?thesis
    using v subview_correct [OF v, of 2 9] by (simp add: view_elems_def view_var_def)
qed

end
