(* ===== verification/BufferT.thy ===== *)
theory BufferT
  imports ArrayView
begin

text \<open>
  \<open>src/buffer.h\<close>: \<open>BufferT<T>\<close>, an array that grows and shrinks.  \<open>_data\<close> is \<open>None\<close> for the null
  pointer and otherwise the allocated cells, of which those never written are \<open>None\<close>.  An
  operation that would copy outside an object returns \<open>None\<close>.  The flag \<open>ndebug\<close> of the move
  operations is the macro \<open>NDEBUG\<close>.
\<close>

record 'a buffer =
  buf_size :: nat
  buf_capacity :: nat
  buf_data :: "'a option list option"

definition is_consistent :: "'a buffer \<Rightarrow> bool" where
  "is_consistent b \<longleftrightarrow> (buf_data b \<noteq> None \<or> buf_capacity b = 0) \<and> buf_size b \<le> buf_capacity b"

section \<open>Construction and moves\<close>

definition buffer_new :: "'a buffer" where
  "buffer_new = \<lparr>buf_size = 0, buf_capacity = 0, buf_data = None\<rparr>"

definition buffer_new_capacity :: "nat \<Rightarrow> nat \<Rightarrow> 'a buffer" where
  "buffer_new_capacity sz capacity =
     \<lparr>buf_size = sz, buf_capacity = max sz capacity,
      buf_data = Some (replicate (max sz capacity) None)\<rparr>"

definition buffer_new_size :: "nat \<Rightarrow> 'a buffer" where
  "buffer_new_size sz = buffer_new_capacity sz sz"

text \<open>Copies between a list of values and the cells; a null pointer has no cells.\<close>

definition buf_cells :: "'a buffer \<Rightarrow> 'a option list" where
  "buf_cells b = (case buf_data b of None \<Rightarrow> [] | Some cells \<Rightarrow> cells)"

definition buf_copy_in :: "'a buffer \<Rightarrow> nat \<Rightarrow> 'a option list \<Rightarrow> 'a buffer option" where
  "buf_copy_in b off xs =
     (case buf_data b of
        None \<Rightarrow> (if off = 0 \<and> xs = [] then Some b else None)
      | Some cells \<Rightarrow> map_option (\<lambda>cells. b\<lparr>buf_data := Some cells\<rparr>) (mem_write cells off xs))"

definition buffer_new_data_capacity :: "'a list \<Rightarrow> nat \<Rightarrow> nat \<Rightarrow> 'a buffer option" where
  "buffer_new_data_capacity data sz capacity = do {
     src <- mem_read data 0 sz;
     buf_copy_in (buffer_new_capacity sz capacity) 0 (map Some src)
   }"

definition buffer_new_data :: "'a list \<Rightarrow> nat \<Rightarrow> 'a buffer option" where
  "buffer_new_data data sz = buffer_new_data_capacity data sz sz"

definition buffer_new_array :: "'a list \<Rightarrow> 'a buffer option" where
  "buffer_new_array arr = buffer_new_data arr (length arr)"

definition on_moved_from :: "bool \<Rightarrow> 'a buffer \<Rightarrow> 'a buffer" where
  "on_moved_from ndebug b =
     (if ndebug then b\<lparr>buf_size := 0, buf_capacity := 0\<rparr> else b\<lparr>buf_size := 1, buf_capacity := 0\<rparr>)"

text \<open>Move construction and move assignment return the new object and the moved-from one.\<close>

definition buffer_move :: "bool \<Rightarrow> 'a buffer \<Rightarrow> 'a buffer \<times> 'a buffer" where
  "buffer_move ndebug buf =
     (\<lparr>buf_size = buf_size buf, buf_capacity = buf_capacity buf, buf_data = buf_data buf\<rparr>,
      on_moved_from ndebug (buf\<lparr>buf_data := None\<rparr>))"

definition buffer_move_assign :: "bool \<Rightarrow> 'a buffer \<Rightarrow> 'a buffer \<Rightarrow> 'a buffer \<times> 'a buffer" where
  "buffer_move_assign ndebug this buf =
     (this\<lparr>buf_size := buf_size buf, buf_capacity := buf_capacity buf, buf_data := buf_data buf\<rparr>,
      on_moved_from ndebug (buf\<lparr>buf_data := None\<rparr>))"

definition buffer_swap :: "'a buffer \<Rightarrow> 'a buffer \<Rightarrow> 'a buffer \<times> 'a buffer" where
  "buffer_swap a b =
     (a\<lparr>buf_size := buf_size b, buf_capacity := buf_capacity b, buf_data := buf_data b\<rparr>,
      b\<lparr>buf_size := buf_size a, buf_capacity := buf_capacity a, buf_data := buf_data a\<rparr>)"

section \<open>Access\<close>

definition buffer_empty :: "'a buffer \<Rightarrow> bool" where
  "buffer_empty b \<longleftrightarrow> buf_size b = 0"

text \<open>
  Equality of buffers of integers: sizes first, then \<open>memcmp\<close> of the elements, which needs their
  values.
\<close>

definition buffer_eq :: "'a buffer \<Rightarrow> 'a buffer \<Rightarrow> bool option" where
  "buffer_eq a b =
     (if buf_size a \<noteq> buf_size b then Some False
      else do {
        xs <- mem_read (buf_cells a) 0 (buf_size a) \<bind> those;
        ys <- mem_read (buf_cells b) 0 (buf_size a) \<bind> those;
        Some (xs = ys)
      })"

definition buffer_neq :: "'a buffer \<Rightarrow> 'a buffer \<Rightarrow> bool option" where
  "buffer_neq a b = map_option Not (buffer_eq a b)"

definition buffer_get :: "'a buffer \<Rightarrow> nat \<Rightarrow> 'a option" where
  "buffer_get b index = (if index < length (buf_cells b) then buf_cells b ! index else None)"

definition buffer_set :: "'a buffer \<Rightarrow> nat \<Rightarrow> 'a \<Rightarrow> 'a buffer option" where
  "buffer_set b index x = buf_copy_in b index [Some x]"

section \<open>Capacity and contents\<close>

definition ensure_capacity_with_headroom :: "'a buffer \<Rightarrow> nat \<Rightarrow> bool \<Rightarrow> 'a buffer option" where
  "ensure_capacity_with_headroom b capacity extra_headroom =
     (if capacity \<le> buf_capacity b then Some b
      else do {
        let new_capacity =
          (if extra_headroom then max capacity (buf_capacity b + buf_capacity b div 2) else capacity);
        kept <- mem_read (buf_cells b) 0 (buf_size b);
        new_data <- mem_write (replicate new_capacity None) 0 kept;
        Some (b\<lparr>buf_data := Some new_data, buf_capacity := new_capacity\<rparr>)
      })"

definition set_size :: "'a buffer \<Rightarrow> nat \<Rightarrow> 'a buffer option" where
  "set_size b sz = do {
     b <- ensure_capacity_with_headroom b sz True;
     Some (b\<lparr>buf_size := sz\<rparr>)
   }"

definition ensure_capacity :: "'a buffer \<Rightarrow> nat \<Rightarrow> 'a buffer option" where
  "ensure_capacity b capacity = ensure_capacity_with_headroom b capacity False"

definition buffer_clear :: "'a buffer \<Rightarrow> 'a buffer" where
  "buffer_clear b = b\<lparr>buf_size := 0\<rparr>"

definition append_data :: "'a buffer \<Rightarrow> 'a list \<Rightarrow> nat \<Rightarrow> 'a buffer option" where
  "append_data b data sz = do {
     let new_size = buf_size b + sz;
     b <- ensure_capacity_with_headroom b new_size True;
     src <- mem_read data 0 sz;
     b <- buf_copy_in b (buf_size b) (map Some src);
     Some (b\<lparr>buf_size := new_size\<rparr>)
   }"

definition append_array :: "'a buffer \<Rightarrow> 'a list \<Rightarrow> 'a buffer option" where
  "append_array b arr = append_data b arr (length arr)"

definition append_item :: "'a buffer \<Rightarrow> 'a \<Rightarrow> 'a buffer option" where
  "append_item b item = append_data b [item] 1"

text \<open>Appending another buffer (a different object) copies its elements.\<close>

definition append_buffer :: "'a buffer \<Rightarrow> 'a buffer \<Rightarrow> 'a buffer option" where
  "append_buffer b buf = do {
     data <- mem_read (buf_cells buf) 0 (buf_size buf) \<bind> those;
     append_data b data (buf_size buf)
   }"

definition set_data :: "'a buffer \<Rightarrow> 'a list \<Rightarrow> nat \<Rightarrow> 'a buffer option" where
  "set_data b data sz = append_data (b\<lparr>buf_size := 0\<rparr>) data sz"

definition set_data_array :: "'a buffer \<Rightarrow> 'a list \<Rightarrow> 'a buffer option" where
  "set_data_array b arr = set_data b arr (length arr)"

definition set_data_buffer :: "'a buffer \<Rightarrow> 'a buffer \<Rightarrow> 'a buffer option" where
  "set_data_buffer b buf = do {
     data <- mem_read (buf_cells buf) 0 (buf_size buf) \<bind> those;
     set_data b data (buf_size buf)
   }"

text \<open>
  The variants with a setter: it is given a view of the new area, writes some of its cells and
  returns how many.  The model passes it the cells of the view and takes back the new cells.
\<close>

definition append_with_setter ::
  "'a buffer \<Rightarrow> nat \<Rightarrow> ('a option list \<Rightarrow> 'a option list \<times> nat) \<Rightarrow> ('a buffer \<times> nat) option" where
  "append_with_setter b max_elements setter = do {
     let old_size = buf_size b;
     b <- set_size b (old_size + max_elements);
     view <- mem_read (buf_cells b) old_size max_elements;
     let (written, written_elements) = setter view;
     b <- buf_copy_in b old_size written;
     Some (b\<lparr>buf_size := old_size + written_elements\<rparr>, written_elements)
   }"

definition set_data_with_setter ::
  "'a buffer \<Rightarrow> nat \<Rightarrow> ('a option list \<Rightarrow> 'a option list \<times> nat) \<Rightarrow> ('a buffer \<times> nat) option" where
  "set_data_with_setter b max_elements setter =
     append_with_setter (b\<lparr>buf_size := 0\<rparr>) max_elements setter"

section \<open>Invariant and contents\<close>

text \<open>
  \<open>buf_inv\<close> is \<open>is_consistent\<close> together with what it stands for: the allocation has \<open>_capacity\<close>
  cells.  \<open>buf_elems\<close> is what a client sees.
\<close>

definition buf_inv :: "'a buffer \<Rightarrow> bool" where
  "buf_inv b \<longleftrightarrow> is_consistent b \<and> length (buf_cells b) = buf_capacity b"

definition buf_elems :: "'a buffer \<Rightarrow> 'a option list" where
  "buf_elems b = take (buf_size b) (buf_cells b)"

lemmas buf_defs = buf_inv_def buf_elems_def is_consistent_def buf_cells_def

lemma buf_elems_length: "buf_inv b \<Longrightarrow> length (buf_elems b) = buf_size b"
  by (simp add: buf_inv_def buf_elems_def is_consistent_def)

lemma buf_new_inv [simp]: "buf_inv buffer_new" "buf_elems buffer_new = []"
  by (simp_all add: buf_defs buffer_new_def)

lemma buf_new_capacity_inv [simp]:
  "buf_inv (buffer_new_capacity sz cap)" "buf_elems (buffer_new_capacity sz cap) = replicate sz None"
  by (simp_all add: buf_defs buffer_new_capacity_def)

lemma ensure_capacity_with_headroom_spec:
  assumes "buf_inv b"
  shows "\<exists>b'. ensure_capacity_with_headroom b cap hr = Some b' \<and> buf_inv b' \<and>
    buf_size b' = buf_size b \<and> buf_elems b' = buf_elems b \<and>
    buf_capacity b' = (if cap \<le> buf_capacity b then buf_capacity b
      else if hr then max cap (buf_capacity b + buf_capacity b div 2) else cap)"
  using assms
  by (auto simp: ensure_capacity_with_headroom_def buf_defs mem_read_def mem_write_def Let_def
      split: option.splits)

lemma buf_copy_in_spec:
  assumes "buf_inv b" and "off + length xs \<le> buf_capacity b"
  shows "\<exists>b'. buf_copy_in b off xs = Some b' \<and> buf_inv b' \<and> buf_size b' = buf_size b \<and>
    buf_capacity b' = buf_capacity b \<and> take (off + length xs) (buf_cells b') = take off (buf_cells b) @ xs"
proof (cases "buf_data b")
  case None
  then show ?thesis using assms by (auto simp: buf_copy_in_def buf_defs)
next
  case (Some cells)
  then obtain cells' where w: "mem_write cells off xs = Some cells'"
    using assms mem_write_defined [of off xs cells] by (auto simp: buf_defs)
  then show ?thesis
    using Some assms mem_write_length [OF w] mem_write_prefix [OF w] by (auto simp: buf_copy_in_def buf_defs)
qed

lemma set_size_spec:
  assumes "buf_inv b"
  shows "\<exists>b'. set_size b sz = Some b' \<and> buf_inv b' \<and> buf_size b' = sz \<and> buf_capacity b \<le> buf_capacity b' \<and>
    take (min sz (buf_size b)) (buf_elems b') = take sz (buf_elems b)"
proof -
  from ensure_capacity_with_headroom_spec [OF assms, of sz True] obtain b' where b':
    "ensure_capacity_with_headroom b sz True = Some b'" "buf_inv b'" "buf_size b' = buf_size b"
    "buf_elems b' = buf_elems b" "sz \<le> buf_capacity b'" "buf_capacity b \<le> buf_capacity b'"
    by (auto split: if_splits)
  then have "take sz (take (buf_size b) (buf_cells b')) = take sz (take (buf_size b) (buf_cells b))"
    by (simp add: buf_elems_def del: take_take)
  then show ?thesis
    using b' by (auto simp: set_size_def buf_inv_def buf_elems_def is_consistent_def buf_cells_def min.commute)
qed

lemma append_data_spec:
  assumes "buf_inv b" and "sz \<le> length data"
  shows "\<exists>b'. append_data b data sz = Some b' \<and> buf_inv b' \<and>
    buf_elems b' = buf_elems b @ map Some (take sz data)"
proof -
  from ensure_capacity_with_headroom_spec [OF assms(1), of "buf_size b + sz" True] obtain b1 where b1:
    "ensure_capacity_with_headroom b (buf_size b + sz) True = Some b1" "buf_inv b1"
    "buf_size b1 = buf_size b" "buf_elems b1 = buf_elems b" "buf_size b + sz \<le> buf_capacity b1"
    by (auto split: if_splits)
  let ?xs = "map Some (take sz data)"
  have "length ?xs = sz" using assms(2) by simp
  with b1 buf_copy_in_spec [of b1 "buf_size b" ?xs] obtain b2 where b2:
    "buf_copy_in b1 (buf_size b) ?xs = Some b2" "buf_inv b2" "buf_capacity b2 = buf_capacity b1"
    "take (buf_size b + sz) (buf_cells b2) = take (buf_size b) (buf_cells b1) @ ?xs"
    by auto
  then show ?thesis
    using b1 assms(2)
    by (auto simp: append_data_def mem_read_def buf_inv_def buf_elems_def is_consistent_def buf_cells_def)
qed

lemma set_data_spec:
  assumes "buf_inv b" and "sz \<le> length data"
  shows "\<exists>b'. set_data b data sz = Some b' \<and> buf_inv b' \<and> buf_elems b' = map Some (take sz data)"
proof -
  have "buf_inv (b\<lparr>buf_size := 0\<rparr>)" and "buf_elems (b\<lparr>buf_size := 0\<rparr>) = []"
    using assms(1) by (auto simp: buf_defs)
  with append_data_spec [OF _ assms(2), of "b\<lparr>buf_size := 0\<rparr>"] show ?thesis
    by (simp add: set_data_def)
qed

lemma buf_set_size_0 [simp]:
  "buf_inv b \<Longrightarrow> buf_inv (b\<lparr>buf_size := 0\<rparr>)" "buf_elems (b\<lparr>buf_size := 0\<rparr>) = []"
  by (auto simp: buf_defs)

lemma buf_inv_is_consistent: "buf_inv b \<Longrightarrow> is_consistent b"
  by (simp add: buf_inv_def)

lemma append_with_setter_spec:
  assumes "buf_inv b"
    and setter: "\<And>view. length view = max_elements \<Longrightarrow>
      length (fst (setter view)) = max_elements \<and> snd (setter view) \<le> max_elements"
  shows "\<exists>view b' n. length view = max_elements \<and> append_with_setter b max_elements setter = Some (b', n) \<and>
    n = snd (setter view) \<and> buf_inv b' \<and> buf_elems b' = buf_elems b @ take n (fst (setter view))"
proof -
  from set_size_spec [OF assms(1), of "buf_size b + max_elements"] obtain b1 where b1:
    "set_size b (buf_size b + max_elements) = Some b1" "buf_inv b1" "buf_size b1 = buf_size b + max_elements"
    "take (buf_size b) (buf_elems b1) = buf_elems b"
    using buf_elems_length [OF assms(1)] by auto
  define view where "view = take max_elements (drop (buf_size b) (buf_cells b1))"
  have fits: "buf_size b + max_elements \<le> length (buf_cells b1)"
    using b1 by (simp add: buf_inv_def is_consistent_def)
  then have len: "length view = max_elements" and
    rd: "mem_read (buf_cells b1) (buf_size b) max_elements = Some view"
    by (simp_all add: view_def mem_read_def)
  obtain written n where sv: "setter view = (written, n)" by (cases "setter view")
  with setter [OF len] have w: "length written = max_elements" "n \<le> max_elements" by auto
  with buf_copy_in_spec [OF b1(2), of "buf_size b" written] fits obtain b2 where b2:
    "buf_copy_in b1 (buf_size b) written = Some b2" "buf_inv b2" "buf_capacity b2 = buf_capacity b1"
    "buf_size b2 = buf_size b1"
    "take (buf_size b + max_elements) (buf_cells b2) = take (buf_size b) (buf_cells b1) @ written"
    using b1(2) by (auto simp: buf_inv_def)
  have old: "take (buf_size b) (buf_cells b1) = buf_elems b"
    using b1(3,4) by (simp add: buf_elems_def)
  have "take (buf_size b + n) (take (buf_size b + max_elements) (buf_cells b2)) =
      take (buf_size b + n) (buf_elems b @ written)"
    by (simp only: b2(5) old)
  then have "take (buf_size b + n) (buf_cells b2) = buf_elems b @ take n written"
    using w buf_elems_length [OF assms(1)] by (simp add: min_absorb1)
  then have "buf_inv (b2\<lparr>buf_size := buf_size b + n\<rparr>)"
    "buf_elems (b2\<lparr>buf_size := buf_size b + n\<rparr>) = buf_elems b @ take n written"
    using b2 b1(3) w by (auto simp: buf_defs)
  then show ?thesis
    using b1(1) rd sv b2(1) len by (intro exI [of _ view]) (auto simp: append_with_setter_def)
qed

text \<open>\<open>append_data\<close> of whole arrays is a growing store.\<close>

interpretation buft: append_store buf_inv buf_elems append_array Some
proof
  fix b :: "'a buffer" and xs
  assume "buf_inv b"
  from append_data_spec [OF this order_refl, of xs]
  show "\<exists>s'. append_array b xs = Some s' \<and> buf_inv s' \<and> buf_elems s' = buf_elems b @ map Some xs"
    by (simp add: append_array_def)
qed

section \<open>Properties\<close>

lemma append_data_capacity:
  assumes "buf_inv b" and "append_data b data sz = Some b'"
  shows "buf_capacity b' = buf_capacity b \<or> buf_capacity b + buf_capacity b div 2 \<le> buf_capacity b'"
proof -
  from ensure_capacity_with_headroom_spec [OF assms(1), of "buf_size b + sz" True]
  have "\<exists>b1. ensure_capacity_with_headroom b (buf_size b + sz) True = Some b1 \<and>
      (buf_capacity b1 = buf_capacity b \<or> buf_capacity b + buf_capacity b div 2 \<le> buf_capacity b1)"
    by (auto split: if_splits)
  moreover have "buf_capacity b2 = buf_capacity b1" if "buf_copy_in b1 off xs = Some b2" for b1 b2 :: "'a buffer" and off xs
    using that by (auto simp: buf_copy_in_def split: option.splits if_splits)
  ultimately show ?thesis using assms(2) by (fastforce simp: append_data_def split: Option.bind_splits)
qed

lemma read_elems: "buf_inv b \<Longrightarrow> mem_read (buf_cells b) 0 (buf_size b) = Some (buf_elems b)"
  by (simp add: mem_read_def buf_elems_def buf_inv_def is_consistent_def)

lemma append_buffer_spec:
  assumes "buf_inv b" and "buf_inv other" and "buf_elems other = map Some ys"
  shows "\<exists>b'. append_buffer b other = Some b' \<and> buf_inv b' \<and> buf_elems b' = buf_elems b @ map Some ys"
    "\<exists>b'. set_data_buffer b other = Some b' \<and> buf_inv b' \<and> buf_elems b' = map Some ys"
proof -
  have l: "buf_size other = length ys" using buf_elems_length [OF assms(2)] assms(3) by simp
  show "\<exists>b'. append_buffer b other = Some b' \<and> buf_inv b' \<and> buf_elems b' = buf_elems b @ map Some ys"
    using append_data_spec [OF assms(1), of "length ys" ys] read_elems [OF assms(2)] assms(3) l by (auto simp: append_buffer_def)
  show "\<exists>b'. set_data_buffer b other = Some b' \<and> buf_inv b' \<and> buf_elems b' = map Some ys"
    using set_data_spec [OF assms(1), of "length ys" ys] read_elems [OF assms(2)] assms(3) l by (auto simp: set_data_buffer_def)
qed

lemma buffer_set_spec:
  assumes "buf_inv b" and "i < buf_size b"
  shows "\<exists>b'. buffer_set b i x = Some b' \<and> buf_inv b' \<and> buf_capacity b' = buf_capacity b \<and> buf_elems b' = (buf_elems b)[i := Some x]"
proof -
  obtain cells where d: "buf_data b = Some cells" "length cells = buf_capacity b" "buf_size b \<le> buf_capacity b"
    using assms by (cases "buf_data b") (auto simp: buf_defs)
  then have "mem_write cells i [Some x] = Some (cells[i := Some x])"
    using assms(2) by (simp add: mem_write_def upd_conv_take_nth_drop)
  then show ?thesis using d assms(2) by (auto simp: buffer_set_def buf_copy_in_def buf_defs take_update_swap)
qed

text \<open>A setter that keeps to the view it is given and reports no more elements than that has.\<close>

definition setter_ok :: "nat \<Rightarrow> ('a option list \<Rightarrow> 'a option list \<times> nat) \<Rightarrow> bool" where
  "setter_ok m setter \<longleftrightarrow> (\<forall>view. length view = m \<longrightarrow> length (fst (setter view)) = m \<and> snd (setter view) \<le> m)"



text \<open>
  Appending with a setter that keeps to its view and reports at most \<open>max_elements\<close> leaves a
  consistent buffer holding the old contents and the reported number of the cells it wrote.
\<close>

theorem buffer_setter_contract:
  assumes "buf_inv b"
    and "\<And>view. length view = max_elements \<Longrightarrow>
      length (fst (setter view)) = max_elements \<and> snd (setter view) \<le> max_elements"
  shows "\<exists>view b' n. length view = max_elements \<and> append_with_setter b max_elements setter = Some (b', n) \<and>
    n = snd (setter view) \<and> buf_inv b' \<and> buf_elems b' = buf_elems b @ take n (fst (setter view))"
  using assms by (rule append_with_setter_spec)

theorem buffer_setter_contract_witness:
  "\<exists>b' n. append_with_setter (buffer_new :: nat buffer) 2 (\<lambda>v. (v[0 := Some 5], 1)) = Some (b', n) \<and>
     n = 1 \<and> buf_inv b' \<and> buf_elems b' = [Some 5]"
  using buffer_setter_contract [of buffer_new 2 "\<lambda>v. (v[0 := Some (5 :: nat)], 1)"]
  by (auto simp: length_Suc_conv numeral_2_eq_2)

text \<open>
  The bound on the setter's result is not checked (the \<open>RTC_CHECK_LE\<close> is commented out): a setter
  that reports more than \<open>max_elements\<close> leaves a buffer whose size exceeds its allocation.
\<close>

lemma setter_overrun_inconsistent:
  "\<exists>b' n. append_with_setter (buffer_new :: nat buffer) 1 (\<lambda>v. (v, 2)) = Some (b', n) \<and> \<not> is_consistent b'"
  by (simp add: append_with_setter_def set_size_def ensure_capacity_with_headroom_def buffer_new_def
      buf_copy_in_def buf_cells_def mem_read_def mem_write_def is_consistent_def)

lemma moved_from_consistent_iff: "is_consistent (snd (buffer_move ndebug b)) \<longleftrightarrow> ndebug"
  by (simp add: buffer_move_def on_moved_from_def is_consistent_def)

lemma moved_from_reusable: "buf_inv (buffer_clear (snd (buffer_move ndebug b)))"
  by (simp add: buffer_move_def on_moved_from_def buf_defs buffer_clear_def)

lemma buffer_eq_iff_contents:
  assumes "buf_inv a" "buf_inv b" "buf_elems a = map Some xs" "buf_elems b = map Some ys"
  shows "buffer_eq a b = Some (xs = ys)"
proof -
  have len: "length xs = buf_size a" "length ys = buf_size b"
    using assms buf_elems_length [of a] buf_elems_length [of b] by simp_all
  show ?thesis
  proof (cases "buf_size a = buf_size b")
    case True
    with assms show ?thesis
      by (auto simp: buffer_eq_def mem_read_def buf_inv_def is_consistent_def buf_elems_def)
  next
    case False
    with len show ?thesis by (auto simp: buffer_eq_def)
  qed
qed

end
