(* ===== verification/BufferQueue.thy ===== *)
theory BufferQueue
  imports BufferT
begin

text \<open>
  \<open>src/buffer_queue.{h,cpp}\<close>: a bounded FIFO of byte buffers that recycles the buffers it has
  handed out.  Every operation runs under the queue's lock, so each one is a single step.  The
  two \<open>notify\<close> hooks (virtual, for tests) append to \<open>bq_events\<close>.
\<close>

datatype bq_event = NotifyReadable | NotifyWritable

record buffer_queue =
  bq_capacity :: nat
  bq_default_size :: nat
  bq_queue :: "byte buffer list"
  bq_free_list :: "byte buffer list"
  bq_events :: "bq_event list"

definition bq_new :: "nat \<Rightarrow> nat \<Rightarrow> buffer_queue" where
  "bq_new capacity default_size =
     \<lparr>bq_capacity = capacity, bq_default_size = default_size, bq_queue = [], bq_free_list = [], bq_events = []\<rparr>"

definition bq_size :: "buffer_queue \<Rightarrow> nat" where
  "bq_size q = length (bq_queue q)"

text \<open>The loop of \<open>clear\<close>, front of the queue first.\<close>

fun bq_clear_loop :: "byte buffer list \<Rightarrow> byte buffer list \<Rightarrow> byte buffer list" where
  "bq_clear_loop [] free_list = free_list"
| "bq_clear_loop (b # queue) free_list = bq_clear_loop queue (free_list @ [b])"

definition bq_clear :: "buffer_queue \<Rightarrow> buffer_queue" where
  "bq_clear q = q\<lparr>bq_free_list := bq_clear_loop (bq_queue q) (bq_free_list q), bq_queue := []\<rparr>"

text \<open>
  \<open>read_front\<close> takes the destination object as a list of cells and returns it updated, with the
  return value and \<open>*bytes_read\<close> (\<open>None\<close> when it is not set).  The whole result is \<open>None\<close> when the
  copy leaves the destination.
\<close>

definition read_front ::
  "buffer_queue \<Rightarrow> byte option list \<Rightarrow> nat \<Rightarrow> (bool \<times> byte option list \<times> nat option \<times> buffer_queue) option" where
  "read_front q dst bytes =
     (case bq_queue q of
        [] \<Rightarrow> Some (False, dst, None, q)
      | packet # rest \<Rightarrow> do {
          let was_writable = length (bq_queue q) < bq_capacity q;
          let bytes = min bytes (buf_size packet);
          src <- mem_read (buf_cells packet) 0 bytes;
          dst <- mem_write dst 0 src;
          let q = q\<lparr>bq_queue := rest, bq_free_list := bq_free_list q @ [packet]\<rparr>;
          let q = (if was_writable then q else q\<lparr>bq_events := bq_events q @ [NotifyWritable]\<rparr>);
          Some (True, dst, Some bytes, q)
        })"

definition bq_take_free :: "buffer_queue \<Rightarrow> nat \<Rightarrow> byte buffer \<times> buffer_queue" where
  "bq_take_free q bytes =
     (if bq_free_list q \<noteq> [] then (last (bq_free_list q), q\<lparr>bq_free_list := butlast (bq_free_list q)\<rparr>)
      else (buffer_new_capacity bytes (bq_default_size q), q))"

definition write_back ::
  "buffer_queue \<Rightarrow> byte list \<Rightarrow> nat \<Rightarrow> (bool \<times> nat option \<times> buffer_queue) option" where
  "write_back q data bytes =
     (if length (bq_queue q) = bq_capacity q then Some (False, None, q)
      else do {
        let was_readable = bq_queue q \<noteq> [];
        let (packet, q) = bq_take_free q bytes;
        packet <- set_data packet data bytes;
        let q = q\<lparr>bq_queue := bq_queue q @ [packet]\<rparr>;
        let q = (if was_readable then q else q\<lparr>bq_events := bq_events q @ [NotifyReadable]\<rparr>);
        Some (True, Some bytes, q)
      })"

section \<open>The interface: a bounded FIFO of byte strings\<close>

datatype fifo_op = Put "byte list" | Get nat | Reset
datatype fifo_out = PutDone bool | GetDone "byte list option" | ResetDone

text \<open>The abstract queue: a list of byte strings and a bound.\<close>

fun fifo_spec :: "nat \<Rightarrow> byte list list \<Rightarrow> fifo_op \<Rightarrow> fifo_out \<times> byte list list" where
  "fifo_spec cap xs (Put d) = (if length xs = cap then (PutDone False, xs) else (PutDone True, xs @ [d]))"
| "fifo_spec cap [] (Get n) = (GetDone None, [])"
| "fifo_spec cap (x # xs) (Get n) = (GetDone (Some (take n x)), xs)"
| "fifo_spec cap xs Reset = (ResetDone, [])"

fun fifo_spec_run :: "nat \<Rightarrow> byte list list \<Rightarrow> fifo_op list \<Rightarrow> fifo_out list \<times> byte list list" where
  "fifo_spec_run cap xs [] = ([], xs)"
| "fifo_spec_run cap xs (c # cs) =
     (let (out, xs') = fifo_spec cap xs c; (outs, xs'') = fifo_spec_run cap xs' cs in (out # outs, xs''))"

locale bounded_fifo =
  fixes inv :: "'q \<Rightarrow> bool"
    and abs :: "'q \<Rightarrow> byte list list"
    and cap :: "'q \<Rightarrow> nat"
    and exec :: "'q \<Rightarrow> fifo_op \<Rightarrow> (fifo_out \<times> 'q) option"
  assumes exec_refines: "inv q \<Longrightarrow>
      \<exists>out q'. exec q c = Some (out, q') \<and> inv q' \<and> cap q' = cap q \<and> fifo_spec (cap q) (abs q) c = (out, abs q')"
    and bounded: "inv q \<Longrightarrow> length (abs q) \<le> cap q"
begin

fun run :: "'q \<Rightarrow> fifo_op list \<Rightarrow> (fifo_out list \<times> 'q) option" where
  "run q [] = Some ([], q)"
| "run q (c # cs) = do {
     (out, q) <- exec q c;
     (outs, q) <- run q cs;
     Some (out # outs, q)
   }"

lemma run_refines:
  assumes "inv q"
  shows "\<exists>outs q'. run q cs = Some (outs, q') \<and> inv q' \<and> cap q' = cap q \<and>
    fifo_spec_run (cap q) (abs q) cs = (outs, abs q')"
  using assms
proof (induction cs arbitrary: q)
  case Nil
  then show ?case by simp
next
  case (Cons c cs)
  from exec_refines [OF Cons.prems, of c] obtain out q1 where q1:
    "exec q c = Some (out, q1)" "inv q1" "cap q1 = cap q" "fifo_spec (cap q) (abs q) c = (out, abs q1)"
    by blast
  from Cons.IH [OF q1(2)] q1 show ?case by fastforce
qed

end

section \<open>The queue implements the interface\<close>

text \<open>The byte strings queued; the free list and the buffers' capacities are invisible.\<close>

definition buf_bytes :: "byte buffer \<Rightarrow> byte list" where
  "buf_bytes b = map the (buf_elems b)"

definition bq_abs :: "buffer_queue \<Rightarrow> byte list list" where
  "bq_abs q = map buf_bytes (bq_queue q)"

definition buf_full :: "byte buffer \<Rightarrow> bool" where
  "buf_full b \<longleftrightarrow> buf_inv b \<and> None \<notin> set (buf_elems b)"

definition bq_inv :: "buffer_queue \<Rightarrow> bool" where
  "bq_inv q \<longleftrightarrow> list_all buf_full (bq_queue q) \<and> list_all buf_inv (bq_free_list q) \<and>
     length (bq_queue q) + length (bq_free_list q) \<le> bq_capacity q"

fun bq_exec :: "buffer_queue \<Rightarrow> fifo_op \<Rightarrow> (fifo_out \<times> buffer_queue) option" where
  "bq_exec q (Put d) = map_option (\<lambda>(ok, n, q). (PutDone ok, q)) (write_back q d (length d))"
| "bq_exec q (Get n) = map_option
     (\<lambda>(ok, dst, got, q). (GetDone (map_option (\<lambda>k. map the (take k dst)) got), q))
     (read_front q (replicate n None) n)"
| "bq_exec q Reset = Some (ResetDone, bq_clear q)"

lemma bq_clear_loop_eq [simp]: "bq_clear_loop q f = f @ q"
  by (induction q f rule: bq_clear_loop.induct) simp_all

lemma buf_full_elems: "buf_full b \<Longrightarrow> buf_elems b = map Some (buf_bytes b)"
  by (auto simp: buf_full_def buf_bytes_def intro!: map_idI [symmetric]) (metis option.exhaust_sel)

lemma buf_full_bytes_length: "buf_full b \<Longrightarrow> length (buf_bytes b) = buf_size b"
  by (simp add: buf_full_def buf_bytes_def buf_elems_length)

lemma set_data_full:
  assumes "buf_inv b"
  shows "\<exists>b'. set_data b d (length d) = Some b' \<and> buf_full b' \<and> buf_bytes b' = d"
  using set_data_spec [OF assms order_refl, of d] by (auto simp: buf_full_def buf_bytes_def)

lemma bq_take_free_spec:
  assumes "bq_inv q"
  shows "\<exists>b q'. bq_take_free q n = (b, q') \<and> buf_inv b \<and> bq_queue q' = bq_queue q \<and>
    bq_capacity q' = bq_capacity q \<and> list_all buf_inv (bq_free_list q') \<and>
    length (bq_free_list q') = length (bq_free_list q) - 1 \<and> bq_events q' = bq_events q"
  using assms by (auto simp: bq_take_free_def bq_inv_def list_all_iff dest: in_set_butlastD)

lemma write_back_spec:
  assumes "bq_inv q"
  shows "length (bq_queue q) = bq_capacity q \<Longrightarrow> write_back q d (length d) = Some (False, None, q)"
    and "length (bq_queue q) < bq_capacity q \<Longrightarrow>
      \<exists>q'. write_back q d (length d) = Some (True, Some (length d), q') \<and> bq_inv q' \<and>
        bq_capacity q' = bq_capacity q \<and> bq_abs q' = bq_abs q @ [d] \<and>
        bq_events q' = bq_events q @ (if bq_queue q = [] then [NotifyReadable] else [])"
proof -
  show "length (bq_queue q) = bq_capacity q \<Longrightarrow> write_back q d (length d) = Some (False, None, q)"
    by (simp add: write_back_def)
  assume lt: "length (bq_queue q) < bq_capacity q"
  from bq_take_free_spec [OF assms, of "length d"] obtain b q1 where q1:
    "bq_take_free q (length d) = (b, q1)" "buf_inv b" "bq_queue q1 = bq_queue q"
    "bq_capacity q1 = bq_capacity q" "list_all buf_inv (bq_free_list q1)"
    "length (bq_free_list q1) = length (bq_free_list q) - 1" "bq_events q1 = bq_events q" by blast
  from set_data_full [OF q1(2), of d] obtain b' where
    "set_data b d (length d) = Some b'" "buf_full b'" "buf_bytes b' = d" by blast
  then show "\<exists>q'. write_back q d (length d) = Some (True, Some (length d), q') \<and> bq_inv q' \<and>
        bq_capacity q' = bq_capacity q \<and> bq_abs q' = bq_abs q @ [d] \<and>
        bq_events q' = bq_events q @ (if bq_queue q = [] then [NotifyReadable] else [])"
    using assms lt q1 by (auto simp: write_back_def bq_inv_def bq_abs_def)
qed

lemma read_front_spec:
  assumes "bq_inv q" and "bq_queue q = b # rest" and "bytes \<le> length dst"
  shows "\<exists>dst' q'. read_front q dst bytes = Some (True, dst', Some (min bytes (buf_size b)), q') \<and>
    dst' = map Some (take bytes (buf_bytes b)) @ drop (min bytes (buf_size b)) dst \<and> bq_inv q' \<and>
    bq_capacity q' = bq_capacity q \<and> bq_abs q' = tl (bq_abs q) \<and>
    bq_events q' = bq_events q @ (if length (bq_queue q) < bq_capacity q then [] else [NotifyWritable])"
proof -
  let ?n = "min bytes (buf_size b)"
  have full: "buf_full b" and inv: "buf_inv b"
    using assms by (auto simp: bq_inv_def buf_full_def)
  have "take ?n (buf_cells b) = take ?n (buf_elems b)"
    by (simp add: buf_elems_def)
  also have "\<dots> = map Some (take bytes (buf_bytes b))"
    using buf_full_elems [OF full] buf_full_bytes_length [OF full] by (simp add: take_map min_def)
  finally have cells: "take ?n (buf_cells b) = map Some (take bytes (buf_bytes b))" .
  have "mem_read (buf_cells b) 0 ?n = Some (map Some (take bytes (buf_bytes b)))"
    using inv cells by (auto simp: mem_read_def buf_inv_def is_consistent_def)
  moreover have "mem_write dst 0 (map Some (take bytes (buf_bytes b))) =
      Some (map Some (take bytes (buf_bytes b)) @ drop ?n dst)"
    using assms(3) buf_full_bytes_length [OF full] by (auto simp: mem_write_def min_def)
  ultimately show ?thesis
    using assms(1,2) inv by (auto simp: read_front_def bq_inv_def bq_abs_def Let_def)
qed

lemma bq_exec_refines:
  assumes "bq_inv q"
  shows "\<exists>out q'. bq_exec q c = Some (out, q') \<and> bq_inv q' \<and> bq_capacity q' = bq_capacity q \<and>
    fifo_spec (bq_capacity q) (bq_abs q) c = (out, bq_abs q')"
proof (cases c)
  case (Put d)
  then show ?thesis
    using write_back_spec [OF assms, of d] assms
    by (cases "length (bq_queue q) = bq_capacity q") (fastforce simp: bq_inv_def bq_abs_def)+
next
  case (Get n)
  show ?thesis
  proof (cases "bq_queue q")
    case Nil
    then show ?thesis using Get assms by (auto simp: read_front_def bq_abs_def)
  next
    case (Cons b rest)
    then have "length (buf_bytes b) = buf_size b"
      using assms by (auto simp: bq_inv_def buf_full_bytes_length)
    then show ?thesis
      using Get Cons read_front_spec [OF assms Cons, of n "replicate n None"]
      by (fastforce simp: bq_abs_def min_def)
  qed
next
  case Reset
  then show ?thesis
    using assms by (auto simp: bq_clear_def bq_inv_def bq_abs_def buf_full_def list_all_iff)
qed

interpretation bq: bounded_fifo bq_inv bq_abs bq_capacity bq_exec
  by unfold_locales (simp_all add: bq_exec_refines, simp add: bq_inv_def bq_abs_def)

section \<open>Properties\<close>

lemma bq_new_inv: "bq_inv (bq_new capacity default_size)" "bq_abs (bq_new capacity default_size) = []"
  by (simp_all add: bq_new_def bq_inv_def bq_abs_def)

fun bq_run :: "buffer_queue \<Rightarrow> fifo_op list \<Rightarrow> (fifo_out list \<times> buffer_queue) option" where
  "bq_run q [] = Some ([], q)"
| "bq_run q (c # cs) = do {
     (out, q) <- bq_exec q c;
     (outs, q) <- bq_run q cs;
     Some (out # outs, q)
   }"

lemma bq_run_eq: "bq_run q cs = bq.run q cs"
  by (induction cs arbitrary: q) simp_all


text \<open>
  The notifications: a successful write notifies readers exactly when the queue was empty, a
  successful read notifies writers exactly when it was full, and refused operations change nothing.
\<close>

theorem buffer_queue_notifications:
  assumes "bq_inv q"
  shows "(\<exists>ok n q'. write_back q d (length d) = Some (ok, n, q') \<and>
      (ok \<longleftrightarrow> bq_size q < bq_capacity q) \<and> (\<not> ok \<longrightarrow> q' = q) \<and>
      bq_events q' = bq_events q @ (if ok \<and> bq_size q = 0 then [NotifyReadable] else [])) \<and>
    (\<exists>ok dst n q'. read_front q (replicate k None) k = Some (ok, dst, n, q') \<and>
      (ok \<longleftrightarrow> 0 < bq_size q) \<and> (\<not> ok \<longrightarrow> q' = q) \<and>
      bq_events q' = bq_events q @ (if ok \<and> bq_size q = bq_capacity q then [NotifyWritable] else []))"
proof
  show "\<exists>ok n q'. write_back q d (length d) = Some (ok, n, q') \<and>
      (ok \<longleftrightarrow> bq_size q < bq_capacity q) \<and> (\<not> ok \<longrightarrow> q' = q) \<and>
      bq_events q' = bq_events q @ (if ok \<and> bq_size q = 0 then [NotifyReadable] else [])"
    using write_back_spec [OF assms, of d] assms
    by (cases "length (bq_queue q) = bq_capacity q") (fastforce simp: bq_inv_def bq_size_def)+
  have le: "length (bq_queue q) \<le> bq_capacity q" using assms by (simp add: bq_inv_def)
  show "\<exists>ok dst n q'. read_front q (replicate k None) k = Some (ok, dst, n, q') \<and>
      (ok \<longleftrightarrow> 0 < bq_size q) \<and> (\<not> ok \<longrightarrow> q' = q) \<and>
      bq_events q' = bq_events q @ (if ok \<and> bq_size q = bq_capacity q then [NotifyWritable] else [])"
  proof (cases "bq_queue q")
    case Nil
    then have "read_front q (replicate k None) k = Some (False, replicate k None, None, q)"
      by (simp add: read_front_def)
    with Nil show ?thesis by (intro exI [of _ False]) (simp add: bq_size_def)
  next
    case (Cons b rest)
    then show ?thesis
      using read_front_spec [OF assms Cons, of k "replicate k None"] le by (auto simp: bq_size_def)
  qed
qed

theorem buffer_queue_notifications_witness:
  "bq_inv (bq_new 1 8) \<and>
   (\<exists>n q'. write_back (bq_new 1 8) [1, 2] (length [1, 2 :: byte]) = Some (True, n, q') \<and>
      bq_events q' = [NotifyReadable])"
  using buffer_queue_notifications [OF bq_new_inv(1), of 1 8 "[1, 2]" 0] bq_new_inv(1) [of 1 8]
  by (auto simp: bq_new_def bq_size_def simp del: list.size)

end
