(* ===== verification/Base64.thy ===== *)
theory Base64
  imports Prelude
begin

text \<open>
  \<open>src/base64.{h,cpp}\<close>.  Characters are bytes, a string is a list of bytes.  The encoder writes
  by index into a result of a size computed up front; a write outside it would be \<open>None\<close>.
\<close>

section \<open>Tables\<close>

definition k_pad :: byte where "k_pad = of_char CHR ''=''"
definition pd :: byte where "pd = 0xFD"
definition sp :: byte where "sp = 0xFE"
definition il :: byte where "il = 0xFF"

definition base64_table :: "byte list" where
  "base64_table = map of_char ''ABCDEFGHIJKLMNOPQRSTUVWXYZabcdefghijklmnopqrstuvwxyz0123456789+/''"

definition decode_table :: "byte list" where
  "decode_table =
     [il,il,il,il,il,il,il,il,il,sp,
      sp,sp,sp,sp,il,il,il,il,il,il,
      il,il,il,il,il,il,il,il,il,il,
      il,il,sp,il,il,il,il,il,il,il,
      il,il,il,62,il,il,il,63,52,53,
      54,55,56,57,58,59,60,61,il,il,
      il,pd,il,il,il,0,1,2,3,4,
      5,6,7,8,9,10,11,12,13,14,
      15,16,17,18,19,20,21,22,23,24,
      25,il,il,il,il,il,il,26,27,28,
      29,30,31,32,33,34,35,36,37,38,
      39,40,41,42,43,44,45,46,47,48,
      49,50,51,il,il,il,il,il,il,il,
      il,il,il,il,il,il,il,il,il,il,
      il,il,il,il,il,il,il,il,il,il,
      il,il,il,il,il,il,il,il,il,il,
      il,il,il,il,il,il,il,il,il,il,
      il,il,il,il,il,il,il,il,il,il,
      il,il,il,il,il,il,il,il,il,il,
      il,il,il,il,il,il,il,il,il,il,
      il,il,il,il,il,il,il,il,il,il,
      il,il,il,il,il,il,il,il,il,il,
      il,il,il,il,il,il,il,il,il,il,
      il,il,il,il,il,il,il,il,il,il,
      il,il,il,il,il,il,il,il,il,il,
      il,il,il,il,il,il]"

text \<open>\<open>DecodeOption\<close>; the flags are an \<open>int\<close>.\<close>

definition DO_PARSE_STRICT :: int where "DO_PARSE_STRICT = 1"
definition DO_PARSE_WHITE :: int where "DO_PARSE_WHITE = 2"
definition DO_PARSE_ANY :: int where "DO_PARSE_ANY = 3"
definition DO_PARSE_MASK :: int where "DO_PARSE_MASK = 3"
definition DO_PAD_YES :: int where "DO_PAD_YES = 4"
definition DO_PAD_ANY :: int where "DO_PAD_ANY = 8"
definition DO_PAD_NO :: int where "DO_PAD_NO = 12"
definition DO_PAD_MASK :: int where "DO_PAD_MASK = 12"
definition DO_TERM_BUFFER :: int where "DO_TERM_BUFFER = 16"
definition DO_TERM_CHAR :: int where "DO_TERM_CHAR = 32"
definition DO_TERM_ANY :: int where "DO_TERM_ANY = 48"
definition DO_TERM_MASK :: int where "DO_TERM_MASK = 48"
definition DO_STRICT :: int where "DO_STRICT = (DO_PARSE_STRICT OR DO_PAD_YES OR DO_TERM_BUFFER)"
definition DO_LAX :: int where "DO_LAX = (DO_PARSE_ANY OR DO_PAD_ANY OR DO_TERM_CHAR)"

lemmas do_defs = DO_PARSE_STRICT_def DO_PARSE_WHITE_def DO_PARSE_ANY_def DO_PARSE_MASK_def DO_PAD_YES_def
  DO_PAD_ANY_def DO_PAD_NO_def DO_PAD_MASK_def DO_TERM_BUFFER_def DO_TERM_CHAR_def DO_TERM_ANY_def
  DO_TERM_MASK_def DO_STRICT_def DO_LAX_def

definition is_base64_char :: "byte \<Rightarrow> bool" where
  "is_base64_char ch \<longleftrightarrow>
     (of_char CHR ''A'' \<le> ch \<and> ch \<le> of_char CHR ''Z'') \<or>
     (of_char CHR ''a'' \<le> ch \<and> ch \<le> of_char CHR ''z'') \<or>
     (of_char CHR ''0'' \<le> ch \<and> ch \<le> of_char CHR ''9'') \<or>
     ch = of_char CHR ''+'' \<or> ch = of_char CHR ''/''"

definition is_base64_encoded :: "byte list \<Rightarrow> bool" where
  "is_base64_encoded str \<longleftrightarrow> list_all is_base64_char str"

text \<open>
  \<open>get_next_base64_char\<close>: \<open>strchr\<close> searches the table with its terminating zero; the character
  after the one found is read, which is outside the table when the terminator itself was found.
  The result is the return value and \<open>*next_ch\<close> when it is set; \<open>nonnull\<close> says that \<open>next_ch\<close> is
  not null.
\<close>

fun strchr :: "byte list \<Rightarrow> byte \<Rightarrow> nat \<Rightarrow> nat option" where
  "strchr [] ch i = None"
| "strchr (c # cs) ch i = (if c = ch then Some i else strchr cs ch (i + 1))"

definition get_next_base64_char :: "byte \<Rightarrow> bool \<Rightarrow> (bool \<times> byte option) option" where
  "get_next_base64_char ch nonnull =
     (if \<not> nonnull then Some (False, None)
      else
        let cstr = base64_table @ [0] in
        case strchr cstr ch 0 of
          None \<Rightarrow> Some (False, None)
        | Some p \<Rightarrow>
            if p + 1 < length cstr
            then Some (True, Some (if cstr ! (p + 1) \<noteq> 0 then cstr ! (p + 1) else base64_table ! 0))
            else None)"

section \<open>Encoding\<close>

text \<open>One iteration of the loop: up to three bytes from position \<open>i\<close>, four characters.\<close>

definition encode_quantum :: "byte list \<Rightarrow> nat \<Rightarrow> byte list \<Rightarrow> nat \<Rightarrow> (byte list \<times> nat) option" where
  "encode_quantum byte_data i result dest_ix = do {
     let len = length byte_data;
     let c = drop_bit 2 (byte_data ! i) AND 0x3f;
     result <- put_char result dest_ix (base64_table ! unat c);
     let c = push_bit 4 (byte_data ! i) AND 0x3f;
     let i = i + 1;
     let c = (if i < len then c OR (drop_bit 4 (byte_data ! i) AND 0x0f) else c);
     result <- put_char result (dest_ix + 1) (base64_table ! unat c);
     (result, i) <-
       (if i < len then do {
          let c = push_bit 2 (byte_data ! i) AND 0x3f;
          let i = i + 1;
          let c = (if i < len then c OR (drop_bit 6 (byte_data ! i) AND 0x03) else c);
          result <- put_char result (dest_ix + 2) (base64_table ! unat c);
          Some (result, i)
        } else do {
          result <- put_char result (dest_ix + 2) k_pad;
          Some (result, i)
        });
     (if i < len then do {
        let c = (byte_data ! i) AND 0x3f;
        result <- put_char result (dest_ix + 3) (base64_table ! unat c);
        Some (result, i + 1)
      } else do {
        result <- put_char result (dest_ix + 3) k_pad;
        Some (result, i)
      })
   }"

lemma encode_quantum_progress: "encode_quantum byte_data i result dest_ix = Some (result', i') \<Longrightarrow> i < i'"
  by (auto simp: encode_quantum_def Let_def split: if_splits Option.bind_splits)

function encode_loop :: "byte list \<Rightarrow> nat \<Rightarrow> byte list \<Rightarrow> nat \<Rightarrow> byte list option" where
  "encode_loop byte_data i result dest_ix =
     (if i < length byte_data then
        case encode_quantum byte_data i result dest_ix of
          None \<Rightarrow> None
        | Some (result', i') \<Rightarrow> encode_loop byte_data i' result' (dest_ix + 4)
      else Some result)"
  by pat_completeness auto
termination
  by (relation "measure (\<lambda>(byte_data, i, _). length byte_data - i)") (auto dest: encode_quantum_progress)

declare encode_loop.simps [simp del]

definition encode_from_array :: "byte list \<Rightarrow> byte list option" where
  "encode_from_array data = encode_loop data 0 (replicate ((length data + 2) div 3 * 4) 0) 0"

definition base64_encode :: "byte list \<Rightarrow> byte list option" where
  "base64_encode data = encode_from_array data"

section \<open>Decoding\<close>

text \<open>
  The scanning loop of \<open>get_next_quantum\<close>: position, quantum buffer, \<open>byte_len\<close>, \<open>pad_len\<close> and
  \<open>pad_start\<close>; a \<open>break\<close> returns them as they are.
\<close>

type_synonym quantum_state = "nat \<times> byte list \<times> nat \<times> nat \<times> nat"

function quantum_loop ::
  "int \<Rightarrow> bool \<Rightarrow> byte list \<Rightarrow> nat \<Rightarrow> byte list \<Rightarrow> nat \<Rightarrow> nat \<Rightarrow> nat \<Rightarrow> quantum_state" where
  "quantum_loop parse_flags illegal_pads data dpos qbuf byte_len pad_len pad_start =
     (if byte_len < 4 \<and> dpos < length data then
        let d = decode_table ! unat (data ! dpos);
            qbuf = qbuf[byte_len := d];
            break = (dpos, qbuf, byte_len, pad_len, pad_start);
            continue = quantum_loop parse_flags illegal_pads data (dpos + 1) qbuf
        in
        if d = il \<or> (illegal_pads \<and> d = pd) then
          (if parse_flags \<noteq> DO_PARSE_ANY then break else continue byte_len pad_len pad_start)
        else if d = sp then
          (if parse_flags = DO_PARSE_STRICT then break else continue byte_len pad_len pad_start)
        else if d = pd then
          (if byte_len < 2 then
             (if parse_flags \<noteq> DO_PARSE_ANY then break else continue byte_len pad_len pad_start)
           else if byte_len + pad_len \<ge> 4 then
             (if parse_flags \<noteq> DO_PARSE_ANY then break else continue byte_len pad_len pad_start)
           else continue byte_len (pad_len + 1) (if pad_len + 1 = 1 then dpos else pad_start))
        else if pad_len > 0 then
          (if parse_flags \<noteq> DO_PARSE_ANY then break else continue (byte_len + 1) 0 pad_start)
        else continue (byte_len + 1) pad_len pad_start
      else (dpos, qbuf, byte_len, pad_len, pad_start))"
  by pat_completeness auto
termination
  by (relation "measure (\<lambda>(_, _, data, dpos, _). length data - dpos)") auto

declare quantum_loop.simps [simp del]

text \<open>Returns \<open>byte_len\<close>, the new \<open>*dpos\<close>, the quantum and \<open>*padded\<close>.\<close>

definition get_next_quantum ::
  "int \<Rightarrow> bool \<Rightarrow> byte list \<Rightarrow> nat \<Rightarrow> byte list \<Rightarrow> nat \<times> nat \<times> byte list \<times> bool" where
  "get_next_quantum parse_flags illegal_pads data dpos qbuf =
     (let (dpos, qbuf, byte_len, pad_len, pad_start) =
            quantum_loop parse_flags illegal_pads data dpos qbuf 0 0 0;
          qbuf = take byte_len qbuf @ replicate (4 - byte_len) 0
      in if 4 = byte_len + pad_len then (byte_len, dpos, qbuf, True)
         else (byte_len, if pad_len \<noteq> 0 then pad_start else dpos, qbuf, False))"

text \<open>
  The body of the decoding loop after a quantum: the bytes pushed to the result and the value left
  in \<open>c\<close>.
\<close>

definition quantum_output :: "nat \<Rightarrow> byte list \<Rightarrow> byte list \<times> byte" where
  "quantum_output qlen qbuf =
     (let c = push_bit 2 (qbuf ! 0) OR (drop_bit 4 (qbuf ! 1) AND 0x3) in
      if qlen \<ge> 2 then
        let out = [c];
            c = (push_bit 4 (qbuf ! 1) AND 0xf0) OR (drop_bit 2 (qbuf ! 2) AND 0xf) in
        if qlen \<ge> 3 then
          let out = out @ [c];
              c = (push_bit 6 (qbuf ! 2) AND 0xc0) OR qbuf ! 3 in
          if qlen \<ge> 4 then (out @ [c], 0) else (out, c)
        else (out, c)
      else ([], c))"

lemma quantum_loop_progress:
  "quantum_loop pf ip data dpos qbuf byte_len pad_len pad_start = (dpos', qbuf', byte_len', pad_len', pad_start') \<Longrightarrow>
     dpos + (byte_len' - byte_len) \<le> dpos' \<and> (dpos \<le> length data \<longrightarrow> dpos' \<le> length data) \<and>
     (byte_len + pad_len \<le> 4 \<longrightarrow> byte_len' + pad_len' \<le> 4)"
proof (induction pf ip data dpos qbuf byte_len pad_len pad_start rule: quantum_loop.induct)
  case (1 pf ip data dpos qbuf byte_len pad_len pad_start)
  note IH = "1.IH" [OF _ refl refl refl]
  show ?case
  proof (cases "byte_len < 4 \<and> dpos < length data")
    case False
    then show ?thesis using "1.prems" by (auto simp: quantum_loop.simps)
  next
    case True
    show ?thesis
      using "1.prems" IH [OF True] True
      by (subst (asm) quantum_loop.simps) (fastforce simp: Let_def split: if_splits)
  qed
qed

lemma get_next_quantum_progress:
  assumes "get_next_quantum pf ip data dpos qbuf = (qlen, dpos', qbuf', padded)"
  shows "qlen \<le> 4" and "qlen = 4 \<Longrightarrow> dpos + 4 \<le> dpos'"
proof -
  obtain dpos1 qbuf1 pad_len pad_start where
    q: "quantum_loop pf ip data dpos qbuf 0 0 0 = (dpos1, qbuf1, qlen, pad_len, pad_start)"
    using assms by (auto simp: get_next_quantum_def Let_def split: prod.splits if_splits)
  from quantum_loop_progress [OF q] show "qlen \<le> 4" by simp
  from quantum_loop_progress [OF q] q assms show "qlen = 4 \<Longrightarrow> dpos + 4 \<le> dpos'"
    by (auto simp: get_next_quantum_def)
qed

function decode_loop ::
  "int \<Rightarrow> int \<Rightarrow> int \<Rightarrow> byte list \<Rightarrow> nat \<Rightarrow> byte list \<Rightarrow> byte list \<Rightarrow> byte list \<times> bool \<times> nat" where
  "decode_loop parse_flags pad_flags term_flags data dpos qbuf result =
     (if dpos < length data then
        (case get_next_quantum parse_flags (DO_PAD_NO = pad_flags) data dpos qbuf of
          (qlen, dpos', qbuf', padded) \<Rightarrow>
            (case quantum_output qlen qbuf' of
               (out, c) \<Rightarrow>
                 if qlen < 4 then
                   (result @ out,
                    \<not> (DO_TERM_ANY \<noteq> term_flags \<and> 0 \<noteq> c) \<and> \<not> (DO_PAD_YES = pad_flags \<and> \<not> padded),
                    dpos')
                 else decode_loop parse_flags pad_flags term_flags data dpos' qbuf' (result @ out)))
      else (result, True, dpos))"
  by pat_completeness auto
termination
proof (relation "measure (\<lambda>(_, _, _, data, dpos, _). length data - dpos)", goal_cases)
  case (2 parse_flags pad_flags term_flags data dpos qbuf result qlen y dpos' z qbuf' padded)
  then have "get_next_quantum parse_flags (DO_PAD_NO = pad_flags) data dpos qbuf = (qlen, dpos', qbuf', padded)"
    by simp
  from get_next_quantum_progress [OF this] 2 show ?case by auto
qed simp

declare decode_loop.simps [simp del]

text \<open>
  \<open>decode_from_array\<close>, for both result types: the return value, the result when it is touched and
  \<open>*data_used\<close> when it is set.  The quantum buffer starts uninitialised; its first contents \<open>qbuf0\<close>
  are a parameter.
\<close>

definition decode_from_array ::
  "byte list \<Rightarrow> byte list \<Rightarrow> int \<Rightarrow> bool \<Rightarrow> bool \<times> byte list option \<times> nat option" where
  "decode_from_array qbuf0 data flags nonnull =
     (if \<not> nonnull then (False, None, None)
      else if flags > (DO_PARSE_MASK OR DO_PAD_MASK OR DO_TERM_MASK) then (False, None, None)
      else
        let parse_flags = flags AND DO_PARSE_MASK;
            pad_flags = flags AND DO_PAD_MASK;
            term_flags = flags AND DO_TERM_MASK
        in
        if 0 = parse_flags \<or> 0 = pad_flags \<or> 0 = term_flags then (False, None, None)
        else
          let (result, success, dpos) = decode_loop parse_flags pad_flags term_flags data 0 qbuf0 [] in
          (success \<and> \<not> (DO_TERM_BUFFER = term_flags \<and> dpos \<noteq> length data), Some result, Some dpos))"

text \<open>\<open>decode(data, flags)\<close> returns the result whether or not decoding succeeded.\<close>

definition base64_decode :: "byte list \<Rightarrow> byte list \<Rightarrow> int \<Rightarrow> byte list" where
  "base64_decode qbuf0 data flags =
     (case decode_from_array qbuf0 data flags True of (ok, result, used) \<Rightarrow> case result of None \<Rightarrow> [] | Some r \<Rightarrow> r)"

section \<open>The encoder against RFC 4648\<close>

definition b64c :: "byte \<Rightarrow> byte" where
  "b64c v = base64_table ! unat v"

text \<open>The reference: groups of three bytes, padding at the end.\<close>

fun encode_spec :: "byte list \<Rightarrow> byte list" where
  "encode_spec [] = []"
| "encode_spec [a] = [b64c (drop_bit 2 a AND 0x3f), b64c (push_bit 4 a AND 0x3f), k_pad, k_pad]"
| "encode_spec [a, b] =
     [b64c (drop_bit 2 a AND 0x3f), b64c (push_bit 4 a AND 0x3f OR (drop_bit 4 b AND 0x0f)),
      b64c (push_bit 2 b AND 0x3f), k_pad]"
| "encode_spec (a # b # c # rest) =
     [b64c (drop_bit 2 a AND 0x3f), b64c (push_bit 4 a AND 0x3f OR (drop_bit 4 b AND 0x0f)),
      b64c (push_bit 2 b AND 0x3f OR (drop_bit 6 c AND 0x03)), b64c (c AND 0x3f)] @ encode_spec rest"

lemma div3_step: "(5 + n) div 3 = Suc (Suc (Suc n) div 3)" for n :: nat
  by simp

lemma length_encode_spec: "length (encode_spec data) = (length data + 2) div 3 * 4"
  by (induction data rule: encode_spec.induct) (simp_all add: div3_step)

lemma nth_suffix:
  "(pre @ a # xs) ! length pre = a"
  "(pre @ a # b # xs) ! Suc (length pre) = b"
  "(pre @ a # b # c # xs) ! Suc (Suc (length pre)) = c"
  by (simp_all add: nth_append)

lemma encode_quantum_spec:
  assumes "data \<noteq> []" and "length pre = dest_ix"
  shows "encode_quantum (xs @ data) (length xs) (pre @ x0 # x1 # x2 # x3 # post) dest_ix =
    Some (pre @ encode_spec (take 3 data) @ post, length xs + min 3 (length data))"
  using assms
  by (cases data rule: encode_spec.cases)
    (simp_all add: encode_quantum_def b64c_def put_char_run nth_suffix Let_def)

lemma encode_spec_take3:
  "data \<noteq> [] \<Longrightarrow> encode_spec data = encode_spec (take 3 data) @ encode_spec (drop 3 data)"
  by (cases data rule: encode_spec.cases) simp_all

lemma length_encode_spec_take3: "data \<noteq> [] \<Longrightarrow> length (encode_spec (take 3 data)) = 4"
  by (cases data rule: encode_spec.cases) simp_all

lemma encode_loop_spec:
  assumes "length pre = dest_ix"
  shows "encode_loop (xs @ data) (length xs) (pre @ replicate ((length data + 2) div 3 * 4) 0) dest_ix =
    Some (pre @ encode_spec data)"
  using assms
proof (induction data arbitrary: xs pre dest_ix rule: length_induct)
  case (1 data)
  show ?case
  proof (cases "data = []")
    case True
    then show ?thesis by (simp add: encode_loop.simps [of xs])
  next
    case False
    define n where "n = min 3 (length data)"
    define k where "k = (length (drop 3 data) + 2) div 3 * 4"
    have "(length data + 2) div 3 * 4 = Suc (Suc (Suc (Suc k)))"
      using False by (cases data rule: encode_spec.cases) (simp_all add: k_def div3_step)
    then have "encode_loop (xs @ data) (length xs) (pre @ replicate ((length data + 2) div 3 * 4) 0) dest_ix =
        encode_loop (xs @ data) (length xs + n) (pre @ encode_spec (take 3 data) @ replicate k 0) (dest_ix + 4)"
      using False 1 by (subst encode_loop.simps) (simp add: encode_quantum_spec n_def)
    also have "\<dots> = encode_loop ((xs @ take 3 data) @ drop 3 data) (length (xs @ take 3 data))
        ((pre @ encode_spec (take 3 data)) @ replicate k 0) (dest_ix + 4)"
      by (simp add: n_def min.commute)
    also have "\<dots> = Some ((pre @ encode_spec (take 3 data)) @ encode_spec (drop 3 data))"
      unfolding k_def using False 1
      by (intro "1.IH" [rule_format]) (auto simp: length_encode_spec_take3)
    finally show ?thesis using False by (simp add: encode_spec_take3 [of data])
  qed
qed

lemma encode_from_array_spec: "encode_from_array data = Some (encode_spec data)"
  using encode_loop_spec [of "[]" 0 "[]" data] by (simp add: encode_from_array_def)

section \<open>Decoding what was encoded\<close>

lemma base64_table_eq:
  "base64_table =
    [65, 66, 67, 68, 69, 70, 71, 72, 73, 74, 75, 76, 77, 78, 79, 80, 81, 82, 83, 84, 85, 86,
     87, 88, 89, 90, 97, 98, 99, 100, 101, 102, 103, 104, 105, 106, 107, 108, 109, 110, 111,
     112, 113, 114, 115, 116, 117, 118, 119, 120, 121, 122, 48, 49, 50, 51, 52, 53, 54, 55, 56,
     57, 43, 47]"
  by (simp add: base64_table_def)

lemma tables_inverse:
  "list_all (\<lambda>(n, ch). decode_table ! unat ch = of_nat n) (enumerate 0 base64_table)"
  by (simp add: decode_table_def base64_table_eq)

lemma length_base64_table: "length base64_table = 64"
  by (simp add: base64_table_eq)

lemma decode_base64_table:
  assumes "n < 64"
  shows "decode_table ! unat (base64_table ! n) = of_nat n"
proof -
  have "(n, base64_table ! n) \<in> set (enumerate 0 base64_table)"
    using assms by (simp add: in_set_enumerate_eq length_base64_table)
  then show ?thesis using tables_inverse by (fastforce simp only: list_all_iff split: prod.splits)
qed

lemma tables_inverse2:
  "list_all (\<lambda>(n, d). if d = pd then n = 61 else if d = il \<or> d = sp then True
      else unat d < 64 \<and> unat (base64_table ! unat d) = n) (enumerate 0 decode_table)"
  by (simp add: decode_table_def base64_table_eq il_def sp_def pd_def)

lemma length_decode_table: "length decode_table = 256"
  by (simp add: decode_table_def)

lemma decode_b64c [simp]: "v < 64 \<Longrightarrow> decode_table ! unat (b64c v) = v"
  using decode_base64_table [of "unat v"] by (simp add: b64c_def word_less_nat_alt)

lemma k_pad_eq: "k_pad = 61"
  by (simp add: k_pad_def)

lemma decode_k_pad [simp]: "decode_table ! unat k_pad = pd"
  by (simp add: k_pad_eq decode_table_def)

lemma decode_table_cases:
  obtains "decode_table ! unat ch = il" | "decode_table ! unat ch = sp"
  | "decode_table ! unat ch = pd" "ch = k_pad"
  | "decode_table ! unat ch < 64" "b64c (decode_table ! unat ch) = ch"
proof -
  have "(unat ch, decode_table ! unat ch) \<in> set (enumerate 0 decode_table)"
    using unsigned_less [of ch] by (simp add: in_set_enumerate_eq length_decode_table)
  then have *: "if decode_table ! unat ch = pd then unat ch = 61
      else if decode_table ! unat ch = il \<or> decode_table ! unat ch = sp then True
      else unat (decode_table ! unat ch) < 64 \<and> unat (base64_table ! unat (decode_table ! unat ch)) = unat ch"
    using tables_inverse2 by (fastforce simp only: list_all_iff split: prod.splits)
  consider "decode_table ! unat ch = il" | "decode_table ! unat ch = sp" | "decode_table ! unat ch = pd"
    | "decode_table ! unat ch \<noteq> il" "decode_table ! unat ch \<noteq> sp" "decode_table ! unat ch \<noteq> pd" by blast
  then show thesis
  proof cases
    case 3
    with * have "unat ch = unat (61 :: byte)" by simp
    then have "ch = k_pad" by (simp add: word_unat_eq_iff k_pad_eq)
    with 3 that show ?thesis by blast
  next
    case 4
    with * have "decode_table ! unat ch < 64" "b64c (decode_table ! unat ch) = ch"
      by (simp_all add: word_less_nat_alt word_unat_eq_iff b64c_def)
    with that show ?thesis by blast
  qed (use that in blast)+
qed

lemma sextet_not_special: "v < 64 \<Longrightarrow> v \<noteq> il \<and> v \<noteq> sp \<and> v \<noteq> pd" for v :: byte
  by (auto simp: il_def sp_def pd_def)

lemma specials_distinct [simp]: "pd \<noteq> il" "pd \<noteq> sp" "sp \<noteq> il" "sp \<noteq> pd" "il \<noteq> pd" "il \<noteq> sp"
  by (simp_all add: il_def sp_def pd_def)

text \<open>The steps of the scanning loop, on the text that starts at the current position.\<close>

lemma drop_Cons_nth:
  assumes "drop dpos data = c # rest"
  shows "dpos < length data" "data ! dpos = c" "drop (Suc dpos) data = rest"
proof -
  show *: "dpos < length data" using assms by (metis drop_all list.distinct(1) not_le)
  from * assms show "data ! dpos = c" "drop (Suc dpos) data = rest"
    by (simp_all add: Cons_nth_drop_Suc [symmetric])
qed

lemma quantum_step_char:
  assumes "drop dpos data = b64c v # rest" and "v < 64" and "byte_len < 4"
  shows "quantum_loop pf ip data dpos qbuf byte_len 0 ps =
    quantum_loop pf ip data (Suc dpos) (qbuf[byte_len := v]) (Suc byte_len) 0 ps"
  using drop_Cons_nth [OF assms(1)] assms(2,3) sextet_not_special [OF assms(2)]
  by (subst quantum_loop.simps) (simp add: Let_def)

lemma quantum_step_pad:
  assumes "drop dpos data = k_pad # rest" and "2 \<le> byte_len" and "byte_len + pad_len < 4"
  shows "quantum_loop pf False data dpos qbuf byte_len pad_len ps =
    quantum_loop pf False data (Suc dpos) (qbuf[byte_len := pd]) byte_len (Suc pad_len) (if pad_len = 0 then dpos else ps)"
  using drop_Cons_nth [OF assms(1)] assms(2,3)
  by (subst quantum_loop.simps) (simp add: Let_def)

lemma quantum_stop:
  assumes "byte_len = 4 \<or> length data \<le> dpos"
  shows "quantum_loop pf ip data dpos qbuf byte_len pad_len ps = (dpos, qbuf, byte_len, pad_len, ps)"
  using assms by (subst quantum_loop.simps) auto

lemma length_4_cases:
  assumes "length qbuf = 4" obtains a b c d where "qbuf = [a, b, c, d]"
  using assms by (auto simp: length_Suc_conv eval_nat_numeral)

lemma get_next_quantum_full:
  assumes "drop dpos data = b64c v0 # b64c v1 # b64c v2 # b64c v3 # rest"
    and "v0 < 64" "v1 < 64" "v2 < 64" "v3 < 64" and "length qbuf = 4"
  shows "get_next_quantum pf ip data dpos qbuf = (4, dpos + 4, [v0, v1, v2, v3], True)"
proof -
  note d1 = drop_Cons_nth(3) [OF assms(1)]
  note d2 = drop_Cons_nth(3) [OF d1]
  note d3 = drop_Cons_nth(3) [OF d2]
  obtain a b c d where q: "qbuf = [a, b, c, d]" using length_4_cases [OF assms(6)] .
  show ?thesis
    by (simp add: get_next_quantum_def q quantum_step_char [OF assms(1)] quantum_step_char [OF d1]
        quantum_step_char [OF d2] quantum_step_char [OF d3] assms(2-5) quantum_stop eval_nat_numeral)
qed

lemma get_next_quantum_pad1:
  assumes "drop dpos data = [b64c v0, b64c v1, b64c v2, k_pad]"
    and "v0 < 64" "v1 < 64" "v2 < 64" and "length qbuf = 4"
  shows "get_next_quantum pf False data dpos qbuf = (3, dpos + 4, [v0, v1, v2, 0], True)"
proof -
  note d1 = drop_Cons_nth(3) [OF assms(1)]
  note d2 = drop_Cons_nth(3) [OF d1]
  note d3 = drop_Cons_nth(3) [OF d2]
  have d4: "length data \<le> Suc (Suc (Suc (Suc dpos)))" using drop_Cons_nth(3) [OF d3] by simp
  obtain a b c d where q: "qbuf = [a, b, c, d]" using length_4_cases [OF assms(5)] .
  show ?thesis
    by (simp add: get_next_quantum_def q quantum_step_char [OF assms(1)] quantum_step_char [OF d1]
        quantum_step_char [OF d2] quantum_step_pad [OF d3] assms(2-4) quantum_stop d4 eval_nat_numeral)
qed

lemma get_next_quantum_pad2:
  assumes "drop dpos data = [b64c v0, b64c v1, k_pad, k_pad]"
    and "v0 < 64" "v1 < 64" and "length qbuf = 4"
  shows "get_next_quantum pf False data dpos qbuf = (2, dpos + 4, [v0, v1, 0, 0], True)"
proof -
  note d1 = drop_Cons_nth(3) [OF assms(1)]
  note d2 = drop_Cons_nth(3) [OF d1]
  note d3 = drop_Cons_nth(3) [OF d2]
  have d4: "length data \<le> Suc (Suc (Suc (Suc dpos)))" using drop_Cons_nth(3) [OF d3] by simp
  obtain a b c d where q: "qbuf = [a, b, c, d]" using length_4_cases [OF assms(4)] .
  show ?thesis
    by (simp add: get_next_quantum_def q quantum_step_char [OF assms(1)] quantum_step_char [OF d1]
        quantum_step_pad [OF d2] quantum_step_pad [OF d3] assms(2-3) quantum_stop d4 eval_nat_numeral)
qed

lemma get_next_quantum_4: "get_next_quantum pf ip data dpos qbuf = (4, dpos', qbuf', padded) \<Longrightarrow> padded"
  using quantum_loop_progress [of pf ip data dpos qbuf 0 0 0]
  by (fastforce simp: get_next_quantum_def Let_def split: prod.splits if_splits)

text \<open>Sextets and bytes.\<close>

lemma byte_masks: "(0x3f :: byte) = mask 6" "(0x0f :: byte) = mask 4" "(0x03 :: byte) = mask 2"
  "(0xf0 :: byte) = push_bit 4 (mask 4)" "(0xc0 :: byte) = push_bit 6 (mask 2)"
  by (simp_all add: mask_eq_exp_minus_1)

lemma byte_below_64: "x < 64 \<longleftrightarrow> (\<forall>k\<ge>6. \<not> bit x k)" for x :: byte
  using word_less_exp_iff_bits [of 6 x] by simp

lemma sextet_bounds [simp]:
  fixes a b c :: byte
  shows "drop_bit 2 a AND 0x3f < 64" "push_bit 4 a AND 0x3f < 64" "a AND 0x3f < 64"
    "push_bit 2 a AND 0x3f < 64"
    "(push_bit 4 a AND 0x3f) OR (drop_bit 4 b AND 0x0f) < 64"
    "(push_bit 2 b AND 0x3f) OR (drop_bit 6 c AND 0x03) < 64"
  by (auto simp: byte_below_64 byte_masks bit_simps)

lemma bit_byte_bound: "bit x k \<Longrightarrow> k < 8" for x :: byte
  using bit_imp_le_length [of x k] by simp

lemma quantum_bytes:
  fixes a b c :: byte
  shows "push_bit 2 (drop_bit 2 a AND 0x3f) OR (drop_bit 4 (push_bit 4 a AND 0x3f) AND 0x3) = a"
    "push_bit 2 (drop_bit 2 a AND 0x3f) OR
       (drop_bit 4 ((push_bit 4 a AND 0x3f) OR (drop_bit 4 b AND 0x0f)) AND 0x3) = a"
    "(push_bit 4 ((push_bit 4 a AND 0x3f) OR (drop_bit 4 b AND 0x0f)) AND 0xf0) OR
       (drop_bit 2 (push_bit 2 b AND 0x3f) AND 0xf) = b"
    "(push_bit 4 ((push_bit 4 a AND 0x3f) OR (drop_bit 4 b AND 0x0f)) AND 0xf0) OR
       (drop_bit 2 ((push_bit 2 b AND 0x3f) OR (drop_bit 6 c AND 0x03)) AND 0xf) = b"
    "(push_bit 6 ((push_bit 2 b AND 0x3f) OR (drop_bit 6 c AND 0x03)) AND 0xc0) OR (c AND 0x3f) = c"
    "(push_bit 4 (push_bit 4 a AND 0x3f) AND 0xf0) = 0"
    "(push_bit 6 (push_bit 2 b AND 0x3f) AND 0xc0) = 0"
  by (rule byte_eqI; simp add: byte_masks bit_simps)+

text \<open>One quantum of an encoded text, decoded.\<close>

lemma quantum_output_full:
  "quantum_output 4 [drop_bit 2 a AND 0x3f, push_bit 4 a AND 0x3f OR (drop_bit 4 b AND 0x0f),
      push_bit 2 b AND 0x3f OR (drop_bit 6 c AND 0x03), c AND 0x3f] = ([a, b, c], 0)"
  by (simp add: quantum_output_def Let_def quantum_bytes del: push_bit_and drop_bit_and push_bit_or drop_bit_or)

lemma quantum_output_pad1:
  "quantum_output 3 [drop_bit 2 a AND 0x3f, push_bit 4 a AND 0x3f OR (drop_bit 4 b AND 0x0f),
      push_bit 2 b AND 0x3f, 0] = ([a, b], 0)"
  by (simp add: quantum_output_def Let_def quantum_bytes del: push_bit_and drop_bit_and push_bit_or drop_bit_or)

lemma quantum_output_pad2:
  "quantum_output 2 [drop_bit 2 a AND 0x3f, push_bit 4 a AND 0x3f, 0, 0] = ([a], 0)"
  by (simp add: quantum_output_def Let_def quantum_bytes del: push_bit_and drop_bit_and push_bit_or drop_bit_or)

lemma decode_loop_encode:
  assumes "drop dpos data = encode_spec bytes" and "length qbuf = 4" and "dpos \<le> length data"
    and "pad_flags \<noteq> DO_PAD_NO"
  shows "decode_loop pf pad_flags tf data dpos qbuf result = (result @ bytes, True, length data)"
  using assms(1-3)
proof (induction bytes arbitrary: dpos qbuf result rule: encode_spec.induct)
  case 1
  then show ?case by (subst decode_loop.simps) simp
next
  case (2 a)
  have l: "length data = dpos + 4" using arg_cong [OF "2.prems"(1), of length] by simp
  show ?case
    using get_next_quantum_pad2 [OF "2.prems"(1) [simplified] _ _ "2.prems"(2)] assms(4) l
    by (subst decode_loop.simps) (simp add: quantum_output_pad2 del: push_bit_and drop_bit_and push_bit_or drop_bit_or)
next
  case (3 a b)
  have l: "length data = dpos + 4" using arg_cong [OF "3.prems"(1), of length] by simp
  show ?case
    using get_next_quantum_pad1 [OF "3.prems"(1) [simplified] _ _ _ "3.prems"(2)] assms(4) l
    by (subst decode_loop.simps) (simp add: quantum_output_pad1 del: push_bit_and drop_bit_and push_bit_or drop_bit_or)
next
  case (4 a b c rest)
  have l: "dpos + 4 \<le> length data" using arg_cong [OF "4.prems"(1), of length] by simp
  have r: "drop (dpos + 4) data = encode_spec rest"
    using arg_cong [OF "4.prems"(1), of "drop 4"] by (simp add: add.commute)
  have "get_next_quantum pf (DO_PAD_NO = pad_flags) data dpos qbuf =
      (4, dpos + 4, [drop_bit 2 a AND 0x3f, push_bit 4 a AND 0x3f OR (drop_bit 4 b AND 0x0f),
        push_bit 2 b AND 0x3f OR (drop_bit 6 c AND 0x03), c AND 0x3f], True)"
    using "4.prems"(1,2) by (intro get_next_quantum_full) (simp_all del: push_bit_and drop_bit_and push_bit_or drop_bit_or)
  then have "decode_loop pf pad_flags tf data dpos qbuf result =
      decode_loop pf pad_flags tf data (dpos + 4) [drop_bit 2 a AND 0x3f, push_bit 4 a AND 0x3f OR (drop_bit 4 b AND 0x0f),
        push_bit 2 b AND 0x3f OR (drop_bit 6 c AND 0x03), c AND 0x3f] (result @ [a, b, c])"
    using l by (subst decode_loop.simps) (simp add: quantum_output_full del: push_bit_and drop_bit_and push_bit_or drop_bit_or)
  then show ?case using "4.IH" [OF r _ l] by simp
qed

text \<open>The flags that name one option of each group.\<close>

definition valid_flags :: "int \<Rightarrow> bool" where
  "valid_flags flags \<longleftrightarrow> flags \<le> 63 \<and> flags AND DO_PARSE_MASK \<noteq> 0 \<and> flags AND DO_PAD_MASK \<noteq> 0 \<and>
     flags AND DO_TERM_MASK \<noteq> 0"

lemma mask_union: "DO_PARSE_MASK OR DO_PAD_MASK OR DO_TERM_MASK = 63"
  by (simp add: do_defs)

lemma decode_encode:
  assumes "valid_flags flags" and "flags AND DO_PAD_MASK \<noteq> DO_PAD_NO" and "length qbuf0 = 4"
  shows "decode_from_array qbuf0 (encode_spec data) flags True = (True, Some data, Some (length (encode_spec data)))"
  using assms decode_loop_encode [of 0 "encode_spec data" data qbuf0 "flags AND DO_PAD_MASK"]
  by (simp add: decode_from_array_def valid_flags_def mask_union)

section \<open>Strict decoding accepts nothing else\<close>

text \<open>What one run of the scanning loop has consumed when parsing is strict.\<close>

lemma quantum_strict:
  assumes "quantum_loop DO_PARSE_STRICT False data dpos qbuf bl pl ps = (dpos', qbuf', bl', pl', ps')"
    and "length qbuf = 4" and "bl + pl \<le> 4" and "bl < 2 \<Longrightarrow> pl = 0"
  shows "\<exists>vs. list_all (\<lambda>v. v < 64) vs \<and> drop dpos data = map b64c vs @ replicate (pl' - pl) k_pad @ drop dpos' data \<and>
    (0 < pl \<longrightarrow> vs = []) \<and> bl' = bl + length vs \<and> pl \<le> pl' \<and> take bl' qbuf' = take bl qbuf @ vs \<and>
    length qbuf' = 4 \<and> (bl' < 2 \<longrightarrow> pl' = 0)"
  using assms
proof (induction "length data - dpos" arbitrary: dpos qbuf bl pl ps rule: less_induct)
  case (less dpos qbuf bl pl ps)
  let ?d = "decode_table ! unat (data ! dpos)"
  let ?q = "qbuf[bl := ?d]"
  have strict: "DO_PARSE_STRICT \<noteq> DO_PARSE_ANY" by (simp add: do_defs)
  show ?case
  proof (cases "bl < 4 \<and> dpos < length data")
    case False
    then have "(dpos', qbuf', bl', pl', ps') = (dpos, qbuf, bl, pl, ps)"
      using less.prems(1) by (subst (asm) quantum_loop.simps) auto
    then show ?thesis using less.prems by (intro exI [of _ "[]"]) auto
  next
    case True
    have suf: "drop dpos data = data ! dpos # drop (Suc dpos) data"
      using True by (simp add: Cons_nth_drop_Suc)
    have smaller: "length data - Suc dpos < length data - dpos" using True by auto
    have stop: ?thesis if "(dpos', qbuf', bl', pl', ps') = (dpos, ?q, bl, pl, ps)"
      using that less.prems by (intro exI [of _ "[]"]) auto
    show ?thesis
    proof (cases rule: decode_table_cases [of "data ! dpos"])
      case 1
      with less.prems(1) True strict show ?thesis
        by (intro stop) (subst (asm) quantum_loop.simps, auto simp: Let_def)
    next
      case 2
      with less.prems(1) True strict show ?thesis
        by (intro stop) (subst (asm) quantum_loop.simps, auto simp: Let_def)
    next
      case 3
      show ?thesis
      proof (cases "bl < 2 \<or> 4 \<le> bl + pl")
        case True': True
        with 3 less.prems(1) True strict show ?thesis
          by (intro stop) (subst (asm) quantum_loop.simps, auto simp: Let_def split: if_splits)
      next
        case False
        then have eq: "quantum_loop DO_PARSE_STRICT False data (Suc dpos) ?q bl (Suc pl)
            (if pl = 0 then dpos else ps) = (dpos', qbuf', bl', pl', ps')"
          using 3 less.prems(1) True by (subst (asm) quantum_loop.simps) (auto simp: Let_def)
        have "\<exists>vs. list_all (\<lambda>v. v < 64) vs \<and>
            drop (Suc dpos) data = map b64c vs @ replicate (pl' - Suc pl) k_pad @ drop dpos' data \<and>
            (0 < Suc pl \<longrightarrow> vs = []) \<and> bl' = bl + length vs \<and> Suc pl \<le> pl' \<and> take bl' qbuf' = take bl ?q @ vs \<and>
            length qbuf' = 4 \<and> (bl' < 2 \<longrightarrow> pl' = 0)"
          using less.hyps [OF smaller eq] False less.prems(2) by auto
        then obtain "drop (Suc dpos) data = replicate (pl' - Suc pl) k_pad @ drop dpos' data"
            "bl' = bl" "Suc pl \<le> pl'" "take bl' qbuf' = take bl ?q" "length qbuf' = 4" "bl' < 2 \<longrightarrow> pl' = 0"
          by auto
        moreover from this have "replicate (pl' - pl) k_pad = k_pad # replicate (pl' - Suc pl) k_pad"
          by (simp add: Suc_diff_Suc [symmetric] Suc_le_eq)
        ultimately show ?thesis using suf 3 by (intro exI [of _ "[]"]) auto
      qed
    next
      case 4
      note sx = sextet_not_special [OF 4(1)]
      show ?thesis
      proof (cases "0 < pl")
        case True': True
        with 4 sx less.prems(1) True strict show ?thesis
          by (intro stop) (subst (asm) quantum_loop.simps, auto simp: Let_def)
      next
        case False
        then have eq: "quantum_loop DO_PARSE_STRICT False data (Suc dpos) ?q (Suc bl) 0 ps = (dpos', qbuf', bl', pl', ps')"
          using sx less.prems(1) True by (subst (asm) quantum_loop.simps) (auto simp: Let_def)
        have "\<exists>vs. list_all (\<lambda>v. v < 64) vs \<and>
            drop (Suc dpos) data = map b64c vs @ replicate (pl' - 0) k_pad @ drop dpos' data \<and>
            (0 < (0::nat) \<longrightarrow> vs = []) \<and> bl' = Suc bl + length vs \<and> 0 \<le> pl' \<and> take bl' qbuf' = take (Suc bl) ?q @ vs \<and>
            length qbuf' = 4 \<and> (bl' < 2 \<longrightarrow> pl' = 0)"
          using less.hyps [OF smaller eq] less.prems(2) True by simp
        then obtain vs where vs: "list_all (\<lambda>v. v < 64) vs"
            "drop (Suc dpos) data = map b64c vs @ replicate pl' k_pad @ drop dpos' data"
            "bl' = Suc bl + length vs" "take bl' qbuf' = take (Suc bl) ?q @ vs" "length qbuf' = 4" "bl' < 2 \<longrightarrow> pl' = 0"
          by auto
        have "take (Suc bl) ?q = take bl qbuf @ [?d]"
          using less.prems(2) True by (simp add: take_Suc_conv_app_nth)
        then show ?thesis using suf 4 vs False by (intro exI [of _ "?d # vs"]) auto
      qed
    qed
  qed
qed

text \<open>The sextets of a quantum are recovered from the bytes it yields.\<close>

lemma sextet_high_bits: "v < 64 \<Longrightarrow> \<not> bit v 6 \<and> \<not> bit v 7" for v :: byte
  by (simp add: byte_below_64)

lemma sextets_of_bytes:
  fixes v0 v1 v2 v3 :: byte
  assumes "v0 < 64" "v1 < 64" "v2 < 64" "v3 < 64"
  defines "a \<equiv> push_bit 2 v0 OR (drop_bit 4 v1 AND 0x3)"
    and "b \<equiv> (push_bit 4 v1 AND 0xf0) OR (drop_bit 2 v2 AND 0xf)"
    and "c \<equiv> (push_bit 6 v2 AND 0xc0) OR v3"
  shows "drop_bit 2 a AND 0x3f = v0" "push_bit 4 a AND 0x3f OR (drop_bit 4 b AND 0x0f) = v1"
    "push_bit 2 b AND 0x3f OR (drop_bit 6 c AND 0x03) = v2" "c AND 0x3f = v3"
  unfolding a_def b_def c_def
  using assms(1-4) [THEN sextet_high_bits] by (rule_tac [!] byte_eqI; simp add: byte_masks bit_simps)+

lemma quantum_strict_shape:
  assumes "get_next_quantum DO_PARSE_STRICT False data dpos qbuf = (qlen, dpos', qbuf', padded)" and "length qbuf = 4"
  shows "length qbuf' = 4"
    and "padded \<Longrightarrow> \<exists>vs. list_all (\<lambda>v. v < 64) vs \<and> length vs = qlen \<and> 2 \<le> qlen \<and> qlen \<le> 4 \<and>
      drop dpos data = map b64c vs @ replicate (4 - qlen) k_pad @ drop dpos' data \<and> qbuf' = vs @ replicate (4 - qlen) 0"
proof -
  obtain dpos1 qbuf1 pl ps where
    q: "quantum_loop DO_PARSE_STRICT False data dpos qbuf 0 0 0 = (dpos1, qbuf1, qlen, pl, ps)"
    using assms by (auto simp: get_next_quantum_def Let_def split: prod.splits if_splits)
  from quantum_strict [OF q assms(2)] obtain vs where vs: "list_all (\<lambda>v. v < 64) vs"
    "drop dpos data = map b64c vs @ replicate pl k_pad @ drop dpos1 data" "qlen = length vs"
    "take qlen qbuf1 = vs" "length qbuf1 = 4" "qlen < 2 \<longrightarrow> pl = 0" by auto
  have le: "qlen \<le> 4" using get_next_quantum_progress [OF assms(1)] by simp
  show "length qbuf' = 4"
    using q assms(1) vs le by (auto simp: get_next_quantum_def Let_def split: if_splits)
  assume padded
  with q assms(1) have "qlen + pl = 4" "dpos' = dpos1" "qbuf' = take qlen qbuf1 @ replicate (4 - qlen) 0"
    by (auto simp: get_next_quantum_def Let_def split: if_splits)
  with vs le show "\<exists>vs. list_all (\<lambda>v. v < 64) vs \<and> length vs = qlen \<and> 2 \<le> qlen \<and> qlen \<le> 4 \<and>
      drop dpos data = map b64c vs @ replicate (4 - qlen) k_pad @ drop dpos' data \<and> qbuf' = vs @ replicate (4 - qlen) 0"
    by (intro exI [of _ vs]) (auto simp: not_less [symmetric])
qed

lemma replicate_2: "replicate 2 x = [x, x]"
  by (simp add: numeral_2_eq_2)

lemma quantum_strict_bytes:
  assumes "list_all (\<lambda>v. v < 64) vs" and "2 \<le> length vs" "length vs \<le> 4"
    and "quantum_output (length vs) (vs @ replicate (4 - length vs) 0) = (out, 0)"
  shows "map b64c vs @ replicate (4 - length vs) k_pad = encode_spec out"
    and "length vs = 4 \<Longrightarrow> length out = 3"
proof -
  consider v0 v1 where "vs = [v0, v1]" | v0 v1 v2 where "vs = [v0, v1, v2]"
    | v0 v1 v2 v3 where "vs = [v0, v1, v2, v3]"
    using assms(2,3) by (cases vs rule: encode_spec.cases)
      (auto simp: length_Suc_conv le_Suc_eq eval_nat_numeral)
  then have "map b64c vs @ replicate (4 - length vs) k_pad = encode_spec out \<and> (length vs = 4 \<longrightarrow> length out = 3)"
  proof cases
    case 1
    then have v: "v0 < 64" "v1 < 64" "push_bit 4 v1 AND 0xf0 = 0" and out: "out = [push_bit 2 v0 OR (drop_bit 4 v1 AND 0x3)]"
      using assms(1,4) by (auto simp: quantum_output_def Let_def)
    show ?thesis
      using sextets_of_bytes [of v0 v1 0 0] v 1 out by (simp add: replicate_2)
  next
    case 2
    then have v: "v0 < 64" "v1 < 64" "v2 < 64" "push_bit 6 v2 AND 0xc0 = 0"
      and out: "out = [push_bit 2 v0 OR (drop_bit 4 v1 AND 0x3), (push_bit 4 v1 AND 0xf0) OR (drop_bit 2 v2 AND 0xf)]"
      using assms(1,4) by (auto simp: quantum_output_def Let_def)
    show ?thesis
      using sextets_of_bytes [of v0 v1 v2 0] v 2 out by simp
  next
    case 3
    then have v: "v0 < 64" "v1 < 64" "v2 < 64" "v3 < 64"
      and out: "out = [push_bit 2 v0 OR (drop_bit 4 v1 AND 0x3), (push_bit 4 v1 AND 0xf0) OR (drop_bit 2 v2 AND 0xf),
        (push_bit 6 v2 AND 0xc0) OR v3]"
      using assms(1,4) by (auto simp: quantum_output_def Let_def)
    show ?thesis
      using sextets_of_bytes [OF v] 3 out by simp
  qed
  then show "map b64c vs @ replicate (4 - length vs) k_pad = encode_spec out" "length vs = 4 \<Longrightarrow> length out = 3"
    by auto
qed

lemma encode_spec_append3: "length xs = 3 \<Longrightarrow> encode_spec (xs @ ys) = encode_spec xs @ encode_spec ys"
  by (auto simp: length_Suc_conv eval_nat_numeral)

lemma decode_loop_strict:
  assumes "decode_loop DO_PARSE_STRICT DO_PAD_YES DO_TERM_BUFFER data dpos qbuf result = (r, True, length data)"
    and "length qbuf = 4"
  shows "\<exists>bytes. r = result @ bytes \<and> drop dpos data = encode_spec bytes"
  using assms
proof (induction DO_PARSE_STRICT DO_PAD_YES DO_TERM_BUFFER data dpos qbuf result rule: decode_loop.induct)
  case (1 data dpos qbuf result)
  show ?case
  proof (cases "dpos < length data")
    case False
    with "1.prems" show ?thesis by (subst (asm) decode_loop.simps) simp
  next
    case True
    obtain qlen dpos' qbuf' padded where
      q: "get_next_quantum DO_PARSE_STRICT False data dpos qbuf = (qlen, dpos', qbuf', padded)"
      by (cases "get_next_quantum DO_PARSE_STRICT False data dpos qbuf")
    obtain out c where o: "quantum_output qlen qbuf' = (out, c)" by (cases "quantum_output qlen qbuf'")
    have flags: "DO_PAD_NO \<noteq> DO_PAD_YES" "DO_TERM_ANY \<noteq> DO_TERM_BUFFER" by (simp_all add: do_defs)
    note shape = quantum_strict_shape [OF q "1.prems"(2)]
    have four: "padded" "c = 0" if "qlen = 4"
      using that o get_next_quantum_4 q by (auto simp: quantum_output_def Let_def)
    show ?thesis
    proof (cases "qlen < 4")
      case short: True
      then have "c = 0" "padded" "r = result @ out" "dpos' = length data"
        using "1.prems"(1) True q o flags by (subst (asm) decode_loop.simps, simp)+
      moreover from this shape(2) obtain vs where vs: "list_all (\<lambda>v. v < 64) vs" "length vs = qlen" "2 \<le> qlen" "qlen \<le> 4"
        "drop dpos data = map b64c vs @ replicate (4 - qlen) k_pad @ drop dpos' data" "qbuf' = vs @ replicate (4 - qlen) 0"
        by auto
      ultimately show ?thesis
        using quantum_strict_bytes(1) [of vs out] o by auto
    next
      case False
      then have qlen: "qlen = 4" using get_next_quantum_progress(1) [OF q] by simp
      with shape(2) four obtain vs where vs: "list_all (\<lambda>v. v < 64) vs" "length vs = 4"
        "drop dpos data = map b64c vs @ drop dpos' data" "qbuf' = vs" by auto
      have rec: "decode_loop DO_PARSE_STRICT DO_PAD_YES DO_TERM_BUFFER data dpos' qbuf' (result @ out) = (r, True, length data)"
        using "1.prems"(1) True q o flags qlen by (subst (asm) decode_loop.simps) simp
      then obtain bytes where b: "r = (result @ out) @ bytes" "drop dpos' data = encode_spec bytes"
        using "1.hyps" [OF True, of qlen "(dpos', qbuf', padded)" dpos' "(qbuf', padded)" qbuf' padded out c]
          q o qlen flags shape(1) by auto
      have "map b64c vs = encode_spec out" "length out = 3"
        using quantum_strict_bytes [of vs out] vs o qlen four by auto
      then show ?thesis
        using b vs by (intro exI [of _ "out @ bytes"]) (simp add: encode_spec_append3)
    qed
  qed
qed

lemma decode_strict_sound:
  assumes "decode_from_array qbuf0 text DO_STRICT True = (True, Some data, used)" and "length qbuf0 = 4"
  shows "text = encode_spec data"
proof -
  have flags: "DO_STRICT AND DO_PARSE_MASK = DO_PARSE_STRICT" "DO_STRICT AND DO_PAD_MASK = DO_PAD_YES"
    "DO_STRICT AND DO_TERM_MASK = DO_TERM_BUFFER" "DO_STRICT \<le> 63"
    "DO_PARSE_STRICT \<noteq> 0" "DO_PAD_YES \<noteq> 0" "DO_TERM_BUFFER \<noteq> 0"
    by (simp_all add: do_defs)
  then have "decode_loop DO_PARSE_STRICT DO_PAD_YES DO_TERM_BUFFER text 0 qbuf0 [] = (data, True, length text)"
    using assms(1) by (auto simp: decode_from_array_def mask_union split: prod.splits)
  from decode_loop_strict [OF this assms(2)] show ?thesis by simp
qed

section \<open>The alphabet\<close>

lemma is_base64_char_table:
  "list_all (\<lambda>(n, d). ((65 \<le> n \<and> n \<le> 90) \<or> (97 \<le> n \<and> n \<le> 122) \<or> (48 \<le> n \<and> n \<le> 57) \<or> n = 43 \<or> n = 47) \<longleftrightarrow> d < 64)
    (enumerate 0 decode_table)"
  by (simp add: decode_table_def is_base64_char_def il_def sp_def pd_def)

lemma is_base64_char_decode: "is_base64_char ch \<longleftrightarrow> decode_table ! unat ch < 64"
proof -
  have "(unat ch, decode_table ! unat ch) \<in> set (enumerate 0 decode_table)"
    using unsigned_less [of ch] by (simp add: in_set_enumerate_eq length_decode_table)
  with is_base64_char_table have "((65 \<le> unat ch \<and> unat ch \<le> 90) \<or> (97 \<le> unat ch \<and> unat ch \<le> 122) \<or>
      (48 \<le> unat ch \<and> unat ch \<le> 57) \<or> unat ch = 43 \<or> unat ch = 47) \<longleftrightarrow> decode_table ! unat ch < 64"
    by (fastforce simp only: list_all_iff split: prod.splits)
  then show ?thesis
    by (simp add: is_base64_char_def word_le_nat_alt word_unat_eq_iff)
qed

lemma is_base64_char_alphabet: "is_base64_char ch \<longleftrightarrow> ch \<in> set base64_table"
proof
  assume "is_base64_char ch"
  then have d: "decode_table ! unat ch < 64" by (simp add: is_base64_char_decode)
  with sextet_not_special [OF d] have "b64c (decode_table ! unat ch) = ch"
    by (cases rule: decode_table_cases [of ch]) auto
  moreover have "unat (decode_table ! unat ch) < length base64_table"
    using d by (simp add: length_base64_table word_less_nat_alt)
  ultimately show "ch \<in> set base64_table" by (metis b64c_def nth_mem)
next
  assume "ch \<in> set base64_table"
  then obtain n where n: "n < 64" "ch = base64_table ! n" by (auto simp: in_set_conv_nth length_base64_table)
  moreover have "(of_nat n :: byte) < 64"
    using n(1) by (simp add: word_less_nat_alt unat_of_nat)
  ultimately show "is_base64_char ch" by (simp add: is_base64_char_decode decode_base64_table)
qed

lemma strchr_found:
  assumes "n < length cs" and "\<And>m. m < n \<Longrightarrow> cs ! m \<noteq> cs ! n"
  shows "strchr cs (cs ! n) i = Some (i + n)"
  using assms
proof (induction cs arbitrary: n i)
  case Nil
  then show ?case by simp
next
  case (Cons c cs)
  show ?case
  proof (cases n)
    case 0
    then show ?thesis by simp
  next
    case (Suc m)
    have "c \<noteq> cs ! m" using Cons.prems(2) [of 0] Suc by simp
    moreover have "strchr cs (cs ! m) (i + 1) = Some (i + 1 + m)"
      using Cons.prems(1) Cons.prems(2) [of "Suc _"] Suc by (intro Cons.IH) auto
    ultimately show ?thesis using Suc by auto
  qed
qed

lemma base64_table_inj: "m < 64 \<Longrightarrow> n < 64 \<Longrightarrow> base64_table ! m = base64_table ! n \<Longrightarrow> m = n"
proof -
  assume mn: "m < 64" "n < 64" and "base64_table ! m = base64_table ! n"
  then have "(of_nat m :: byte) = of_nat n" by (metis decode_base64_table)
  then have "unat (of_nat m :: byte) = unat (of_nat n :: byte)" by simp
  then show "m = n" using mn by (simp add: unat_of_nat)
qed

lemma zero_not_in_alphabet: "n < 64 \<Longrightarrow> base64_table ! n \<noteq> 0"
proof
  assume n: "n < 64" and "base64_table ! n = 0"
  then have "is_base64_char 0" by (metis is_base64_char_alphabet length_base64_table nth_mem)
  then show False by (simp add: is_base64_char_def)
qed

text \<open>On the terminator \<open>strchr\<close> succeeds too, and the character behind the table is read.\<close>

lemma get_next_base64_char_nul_overreads: "get_next_base64_char 0 True = None"
proof -
  have "strchr (base64_table @ [0]) ((base64_table @ [0]) ! 64) 0 = Some (0 + 64)"
    using zero_not_in_alphabet by (intro strchr_found) (auto simp: length_base64_table nth_append)
  then show ?thesis
    by (simp add: get_next_base64_char_def length_base64_table nth_append)
qed

section \<open>Properties\<close>

text \<open>
  Encoding never writes outside the result it sized, and decoding the encoded text gives the
  data back and uses the whole text, under every valid combination of decoding flags except those
  that forbid padding.
\<close>

theorem base64_roundtrip:
  assumes "valid_flags flags" and "flags AND DO_PAD_MASK \<noteq> DO_PAD_NO" and "length qbuf0 = 4"
  shows "\<exists>text. base64_encode data = Some text \<and> length text = (length data + 2) div 3 * 4 \<and>
    decode_from_array qbuf0 text flags True = (True, Some data, Some (length text)) \<and>
    base64_decode qbuf0 text flags = data"
  using decode_encode [OF assms, of data]
  by (simp add: base64_encode_def encode_from_array_spec base64_decode_def length_encode_spec)

theorem base64_roundtrip_witness:
  "valid_flags DO_STRICT \<and>
   (\<exists>text. base64_encode [1, 2, 3, 255] = Some text \<and> base64_decode [0, 0, 0, 0] text DO_STRICT = [1, 2, 3, 255])"
  using base64_roundtrip [of DO_STRICT "[0, 0, 0, 0]" "[1, 2, 3, 255]"]
  by (auto simp: valid_flags_def do_defs)

text \<open>
  C4. Strict decoding is exact: with \<open>DO_STRICT\<close> a text is accepted precisely when it is the
  encoding of the result, so stray characters, wrong padding and non-zero unused bits are all
  rejected and no two texts decode to the same data.
\<close>

theorem base64_strict_exact:
  assumes "length qbuf0 = 4"
  shows "(\<exists>used. decode_from_array qbuf0 text DO_STRICT True = (True, Some data, used)) \<longleftrightarrow>
    base64_encode data = Some text"
proof
  assume "\<exists>used. decode_from_array qbuf0 text DO_STRICT True = (True, Some data, used)"
  then show "base64_encode data = Some text"
    using decode_strict_sound assms by (auto simp: base64_encode_def encode_from_array_spec)
next
  assume "base64_encode data = Some text"
  moreover have "valid_flags DO_STRICT" "DO_STRICT AND DO_PAD_MASK \<noteq> DO_PAD_NO"
    by (simp_all add: valid_flags_def do_defs)
  ultimately show "\<exists>used. decode_from_array qbuf0 text DO_STRICT True = (True, Some data, used)"
    using decode_encode assms by (auto simp: base64_encode_def encode_from_array_spec)
qed

theorem base64_strict_exact_witness:
  "\<nexists>used. decode_from_array [0, 0, 0, 0] [b64c 0, b64c 1, k_pad, k_pad] DO_STRICT True = (True, Some [0], used)"
  using base64_strict_exact [of "[0, 0, 0, 0]" "[b64c 0, b64c 1, k_pad, k_pad]" "[0]"]
  by (simp add: base64_encode_def encode_from_array_spec b64c_def base64_table_eq)

text \<open>
  \<open>get_next_base64_char\<close> steps cyclically through the alphabet: from the \<open>n\<close>-th character to the
  next one and from the last to the first; \<open>is_base64_char\<close> holds exactly of the characters of the
  alphabet, which are the ones the decoding table gives a value to.
\<close>

theorem base64_alphabet:
  assumes "n < 64"
  shows "get_next_base64_char (base64_table ! n) True = Some (True, Some (base64_table ! ((n + 1) mod 64))) \<and>
    (is_base64_char ch \<longleftrightarrow> ch \<in> set base64_table) \<and> (is_base64_char ch \<longleftrightarrow> decode_table ! unat ch < 64)"
proof (intro conjI)
  let ?s = "base64_table @ [0]"
  have nth: "m < 64 \<Longrightarrow> ?s ! m = base64_table ! m" for m by (simp add: nth_append length_base64_table)
  have "strchr ?s (?s ! n) 0 = Some (0 + n)"
  proof (rule strchr_found)
    show "n < length ?s" using assms by (simp add: length_base64_table)
    show "?s ! m \<noteq> ?s ! n" if "m < n" for m
      using that assms base64_table_inj [of m n] nth [of m] nth [of n] by auto
  qed
  then have p: "strchr ?s (base64_table ! n) 0 = Some n" using nth [OF assms] by simp
  show "get_next_base64_char (base64_table ! n) True = Some (True, Some (base64_table ! ((n + 1) mod 64)))"
  proof (cases "n = 63")
    case True
    with p show ?thesis by (simp add: get_next_base64_char_def length_base64_table nth_append)
  next
    case False
    with p assms zero_not_in_alphabet [of "n + 1"] nth [of "n + 1"] show ?thesis
      by (simp add: get_next_base64_char_def length_base64_table)
  qed
qed (simp_all add: is_base64_char_decode [symmetric] is_base64_char_alphabet)

theorem base64_alphabet_witness:
  "get_next_base64_char (base64_table ! 63) True = Some (True, Some (base64_table ! 0)) \<and>
   (is_base64_char 64 \<longleftrightarrow> 64 \<in> set base64_table)"
  using base64_alphabet [of 63 64] by simp

end
