(* ===== verification/StringEncode.thy ===== *)
theory StringEncode
  imports Prelude
begin

text \<open>
  \<open>src/string_encode.{h,cpp}\<close> and \<open>src/string_utils.{h,cpp}\<close>: hexadecimal encoding into and out of
  caller-supplied buffers, splitting, tokenising and trimming.  Characters are bytes; a comparison
  of a \<open>char\<close> with an ASCII range gives the same result for signed and unsigned \<open>char\<close>.  A buffer
  is the list of its elements (\<open>None\<close> for a null pointer); an access outside it makes the whole
  result \<open>None\<close>.
\<close>

section \<open>Hexadecimal\<close>

definition HEX :: "byte list" where
  "HEX = map of_char ''0123456789abcdef''"

definition hex_encode_char :: "byte \<Rightarrow> byte" where
  "hex_encode_char val = (if val < 16 then HEX ! unat val else of_char CHR ''!'')"

definition hex_decode_char :: "byte \<Rightarrow> byte option" where
  "hex_decode_char ch =
     (if of_char CHR ''0'' \<le> ch \<and> ch \<le> of_char CHR ''9'' then Some (ch - of_char CHR ''0'')
      else if of_char CHR ''A'' \<le> ch \<and> ch \<le> of_char CHR ''Z'' then Some (ch - of_char CHR ''A'' + 10)
      else if of_char CHR ''a'' \<le> ch \<and> ch \<le> of_char CHR ''z'' then Some (ch - of_char CHR ''a'' + 10)
      else None)"

fun hex_encode_loop :: "byte \<Rightarrow> byte list \<Rightarrow> byte list \<Rightarrow> nat \<Rightarrow> (byte list \<times> nat) option" where
  "hex_encode_loop delimiter [] buffer bufpos = Some (buffer, bufpos)"
| "hex_encode_loop delimiter (ch # source) buffer bufpos = do {
     buffer <- put_char buffer bufpos (hex_encode_char (drop_bit 4 ch AND 0xF));
     buffer <- put_char buffer (bufpos + 1) (hex_encode_char (ch AND 0xF));
     if delimiter \<noteq> 0 \<and> source \<noteq> [] then do {
       buffer <- put_char buffer (bufpos + 2) delimiter;
       hex_encode_loop delimiter source buffer (bufpos + 3)
     } else hex_encode_loop delimiter source buffer (bufpos + 2)
   }"

text \<open>The result is the length returned and the buffer.\<close>

definition hex_encode_with_delimiter ::
  "byte list option \<Rightarrow> nat \<Rightarrow> byte list \<Rightarrow> byte \<Rightarrow> (nat \<times> byte list option) option" where
  "hex_encode_with_delimiter buffer buflen csource delimiter =
     (case buffer of
        None \<Rightarrow> Some (0, None)
      | Some buf \<Rightarrow>
          if buflen = 0 then Some (0, Some buf)
          else
            let srclen = length csource;
                needed = (if delimiter \<noteq> 0 then srclen * 3 else srclen * 2 + 1)
            in
            if buflen < needed then Some (0, Some buf)
            else do {
              (buf, bufpos) <- hex_encode_loop delimiter csource buf 0;
              buf <- put_char buf bufpos 0;
              Some (bufpos, Some buf)
            })"

definition hex_encode :: "byte list option \<Rightarrow> nat \<Rightarrow> byte list \<Rightarrow> (nat \<times> byte list option) option" where
  "hex_encode buffer buflen csource = hex_encode_with_delimiter buffer buflen csource 0"

text \<open>The overloads that return a string encode into a stack array of \<open>srclen * 3\<close> characters.\<close>

definition hex_encode_with_delimiter_string :: "byte list \<Rightarrow> byte \<Rightarrow> byte list option" where
  "hex_encode_with_delimiter_string source delimiter = do {
     let k_buffer_size = length source * 3;
     (len, buffer) <- hex_encode_with_delimiter (Some (replicate k_buffer_size 0)) k_buffer_size source delimiter;
     if length source \<noteq> 0 \<and> len = 0 then Some []
     else case buffer of None \<Rightarrow> None | Some buf \<Rightarrow> mem_read buf 0 len
   }"

definition hex_encode_string :: "byte list \<Rightarrow> byte list option" where
  "hex_encode_string source = hex_encode_with_delimiter_string source 0"

fun hex_decode_loop :: "byte \<Rightarrow> byte list \<Rightarrow> byte list \<Rightarrow> nat \<Rightarrow> (nat \<times> byte list) option" where
  "hex_decode_loop delimiter [] buffer bufpos = Some (bufpos, buffer)"
| "hex_decode_loop delimiter [c] buffer bufpos = Some (0, buffer)"
| "hex_decode_loop delimiter (c1 # c2 # rest) buffer bufpos =
     (case (hex_decode_char c1, hex_decode_char c2) of
        (Some h1, Some h2) \<Rightarrow> do {
          buffer <- put_char buffer bufpos (push_bit 4 h1 OR h2);
          if delimiter \<noteq> 0 \<and> length rest > 1 then
            (if hd rest \<noteq> delimiter then Some (0, buffer)
             else hex_decode_loop delimiter (tl rest) buffer (bufpos + 1))
          else hex_decode_loop delimiter rest buffer (bufpos + 1)
        }
      | _ \<Rightarrow> Some (0, buffer))"

definition hex_decode_with_delimiter ::
  "byte list option \<Rightarrow> nat \<Rightarrow> byte list \<Rightarrow> byte \<Rightarrow> (nat \<times> byte list option) option" where
  "hex_decode_with_delimiter cbuffer buflen source delimiter =
     (case cbuffer of
        None \<Rightarrow> Some (0, None)
      | Some buf \<Rightarrow>
          if buflen = 0 then Some (0, Some buf)
          else
            let srclen = length source;
                needed = (if delimiter \<noteq> 0 then (srclen + 1) div 3 else srclen div 2)
            in
            if buflen < needed then Some (0, Some buf)
            else map_option (\<lambda>(n, buf). (n, Some buf)) (hex_decode_loop delimiter source buf 0))"

section \<open>Fields\<close>

definition substr :: "'a list \<Rightarrow> nat \<Rightarrow> nat \<Rightarrow> 'a list" where
  "substr s pos n = take n (drop pos s)"

function split_loop :: "byte list \<Rightarrow> byte \<Rightarrow> nat \<Rightarrow> nat \<Rightarrow> byte list list \<Rightarrow> byte list list" where
  "split_loop source delimiter i last_pos fields =
     (if i < length source then
        if source ! i = delimiter
        then split_loop source delimiter (i + 1) (i + 1) (fields @ [substr source last_pos (i - last_pos)])
        else split_loop source delimiter (i + 1) last_pos fields
      else fields @ [substr source last_pos (length source - last_pos)])"
  by pat_completeness auto
termination by (relation "measure (\<lambda>(source, _, i, _). length source - i)") auto

text \<open>\<open>split\<close> and \<open>tokenize\<close> return the number of fields and the fields; \<open>split\<close> accepts a null pointer.\<close>

definition split_fields :: "byte list \<Rightarrow> byte \<Rightarrow> bool \<Rightarrow> nat \<times> byte list list option" where
  "split_fields source delimiter nonnull =
     (if \<not> nonnull then (0, None)
      else let fields = split_loop source delimiter 0 0 [] in (length fields, Some fields))"

function tokenize_loop :: "byte list \<Rightarrow> byte \<Rightarrow> nat \<Rightarrow> nat \<Rightarrow> byte list list \<Rightarrow> byte list list" where
  "tokenize_loop source delimiter i last_pos fields =
     (if i < length source then
        if source ! i = delimiter
        then tokenize_loop source delimiter (i + 1) (i + 1)
               (if i \<noteq> last_pos then fields @ [substr source last_pos (i - last_pos)] else fields)
        else tokenize_loop source delimiter (i + 1) last_pos fields
      else if last_pos \<noteq> length source then fields @ [substr source last_pos (length source - last_pos)]
      else fields)"
  by pat_completeness auto
termination by (relation "measure (\<lambda>(source, _, i, _). length source - i)") auto

definition tokenize :: "byte list \<Rightarrow> byte \<Rightarrow> nat \<times> byte list list" where
  "tokenize source delimiter = (let fields = tokenize_loop source delimiter 0 0 [] in (length fields, fields))"

declare split_loop.simps [simp del] and tokenize_loop.simps [simp del]

text \<open>
  \<open>tokenize_first\<close>: \<open>source[source.size()]\<close> is the terminating zero, an access beyond it is outside
  the string.  The outer \<open>None\<close> is such an access, the inner one the result \<open>false\<close>.
\<close>

function skip_delimiters :: "byte list \<Rightarrow> byte \<Rightarrow> nat \<Rightarrow> nat option" where
  "skip_delimiters source delimiter right_pos =
     (if length source < right_pos then None
      else if (source @ [0]) ! right_pos = delimiter then skip_delimiters source delimiter (right_pos + 1)
      else Some right_pos)"
  by pat_completeness auto
termination by (relation "measure (\<lambda>(source, _, right_pos). Suc (length source) - right_pos)") auto

declare skip_delimiters.simps [simp del]

fun find_char :: "byte list \<Rightarrow> byte \<Rightarrow> nat option" where
  "find_char [] delimiter = None"
| "find_char (c # cs) delimiter = (if c = delimiter then Some 0 else map_option Suc (find_char cs delimiter))"

definition tokenize_first :: "byte list \<Rightarrow> byte \<Rightarrow> (byte list \<times> byte list) option option" where
  "tokenize_first source delimiter =
     (case find_char source delimiter of
        None \<Rightarrow> Some None
      | Some left_pos \<Rightarrow>
          (case skip_delimiters source delimiter (left_pos + 1) of
             None \<Rightarrow> None
           | Some right_pos \<Rightarrow> Some (Some (substr source 0 left_pos, drop right_pos source))))"

section \<open>Trimming\<close>

definition k_whitespace :: "byte list" where
  "k_whitespace = map of_char '' '' @ [10, 13, 9]"

fun find_first_not_of :: "byte list \<Rightarrow> byte list \<Rightarrow> nat option" where
  "find_first_not_of [] chars = None"
| "find_first_not_of (c # cs) chars =
     (if c \<notin> set chars then Some 0 else map_option Suc (find_first_not_of cs chars))"

fun find_last_not_of :: "byte list \<Rightarrow> byte list \<Rightarrow> nat option" where
  "find_last_not_of [] chars = None"
| "find_last_not_of (c # cs) chars =
     (case find_last_not_of cs chars of
        Some i \<Rightarrow> Some (Suc i)
      | None \<Rightarrow> if c \<notin> set chars then Some 0 else None)"

definition string_trim :: "byte list \<Rightarrow> byte list" where
  "string_trim s =
     (case (find_first_not_of s k_whitespace, find_last_not_of s k_whitespace) of
        (Some first, Some last_pos) \<Rightarrow> substr s first (last_pos - first + 1)
      | _ \<Rightarrow> [])"

text \<open>Letters beyond \<open>f\<close> are accepted as digits.\<close>

lemma hex_decode_char_accepts_non_hex: "hex_decode_char (of_char CHR ''Z'') = Some 35"
  by (simp add: hex_decode_char_def)

section \<open>The encoder\<close>

text \<open>The text of a list of bytes.\<close>

fun hex_text :: "byte \<Rightarrow> byte list \<Rightarrow> byte list" where
  "hex_text d [] = []"
| "hex_text d (c # cs) = [hex_encode_char (drop_bit 4 c AND 0xF), hex_encode_char (c AND 0xF)] @
     (if d \<noteq> 0 \<and> cs \<noteq> [] then [d] else []) @ hex_text d cs"

lemma length_hex_text: "length (hex_text d cs) = (if d \<noteq> 0 then 3 * length cs - 1 else 2 * length cs)"
proof (induction cs)
  case (Cons c cs)
  then show ?case by (cases cs) auto
qed simp

lemma hex_encode_loop_spec:
  assumes "length pre = bufpos" and "length (hex_text d source) \<le> length post"
  shows "hex_encode_loop d source (pre @ post) bufpos =
    Some (pre @ hex_text d source @ drop (length (hex_text d source)) post, bufpos + length (hex_text d source))"
  using assms
proof (induction source arbitrary: pre post bufpos)
  case Nil
  then show ?case by simp
next
  case (Cons c cs)
  then obtain x y post' where post: "post = x # y # post'"
    by (cases post; cases "tl post") auto
  let ?h = "hex_encode_char (drop_bit 4 c AND 0xF)" and ?l = "hex_encode_char (c AND 0xF)"
  have step: "put_char (pre @ post) bufpos ?h = Some (pre @ ?h # y # post')"
    "put_char (pre @ ?h # y # post') (Suc bufpos) ?l = Some (pre @ ?h # ?l # post')"
    using Cons.prems(1) post by (simp_all add: put_char_run)
  show ?case
  proof (cases "d \<noteq> 0 \<and> cs \<noteq> []")
    case True
    with Cons.prems(2) post obtain z post'' where post': "post' = z # post''" by (cases post') auto
    have "hex_encode_loop d cs ((pre @ [?h, ?l, d]) @ post'') (bufpos + 3) =
        Some ((pre @ [?h, ?l, d]) @ hex_text d cs @ drop (length (hex_text d cs)) post'', bufpos + 3 + length (hex_text d cs))"
      using Cons.prems True post post' by (intro Cons.IH) auto
    then show ?thesis
      using step True post post' Cons.prems(1) by (simp add: put_char_run)
  next
    case False
    have "hex_encode_loop d cs ((pre @ [?h, ?l]) @ post') (bufpos + 2) =
        Some ((pre @ [?h, ?l]) @ hex_text d cs @ drop (length (hex_text d cs)) post', bufpos + 2 + length (hex_text d cs))"
      using Cons.prems False post by (intro Cons.IH) auto
    then show ?thesis
      using step False post by auto
  qed
qed

lemma hex_encode_with_delimiter_spec:
  assumes "buflen \<le> length buf" and "0 < buflen"
    and "(if d \<noteq> 0 then length source * 3 else length source * 2 + 1) \<le> buflen"
  shows "hex_encode_with_delimiter (Some buf) buflen source d =
    Some (length (hex_text d source),
      Some (hex_text d source @ [0] @ drop (length (hex_text d source) + 1) buf))"
proof -
  have len: "length (hex_text d source) < length buf"
    using assms by (auto simp: length_hex_text split: if_splits)
  then have "hex_encode_loop d source buf 0 =
      Some (hex_text d source @ drop (length (hex_text d source)) buf, length (hex_text d source))"
    using hex_encode_loop_spec [of "[]" 0 d source buf] by simp
  moreover obtain x where "drop (length (hex_text d source)) buf = x # drop (Suc (length (hex_text d source))) buf"
    using len by (metis Cons_nth_drop_Suc)
  ultimately show ?thesis
    using assms by (simp add: hex_encode_with_delimiter_def put_char_run Let_def not_less)
qed

section \<open>The decoder\<close>

lemma nibble_table:
  "list_all (\<lambda>n. hex_decode_char (hex_encode_char (of_nat n)) = Some (of_nat n)) [0..<16]"
  by (simp add: hex_decode_char_def hex_encode_char_def HEX_def upt_rec)

lemma hex_decode_encode_char:
  assumes "v < 16"
  shows "hex_decode_char (hex_encode_char v) = Some v"
proof -
  have "unat v < 16" using assms by (simp add: word_less_nat_alt)
  then have "unat v \<in> set [0..<16]" by simp
  with nibble_table have "hex_decode_char (hex_encode_char (of_nat (unat v))) = Some (of_nat (unat v))"
    unfolding list_all_iff by blast
  then show ?thesis by simp
qed

lemma nibbles:
  fixes c :: byte
  shows "drop_bit 4 c AND 0xF < 16" "c AND 0xF < 16" "push_bit 4 (drop_bit 4 c AND 0xF) OR (c AND 0xF) = c"
proof -
  have m: "(0xF :: byte) = mask 4" by (simp add: mask_eq_exp_minus_1)
  have b: "x < 16 \<longleftrightarrow> (\<forall>k\<ge>4. \<not> bit x k)" for x :: byte
    using word_less_exp_iff_bits [of 4 x] by simp
  show "drop_bit 4 c AND 0xF < 16" "c AND 0xF < 16" by (auto simp: b m bit_simps)
  show "push_bit 4 (drop_bit 4 c AND 0xF) OR (c AND 0xF) = c"
    by (rule byte_eqI; simp add: m bit_simps)
qed

lemma hex_decode_loop_text:
  assumes "length pre = bufpos" and "length source \<le> length post"
  shows "hex_decode_loop d (hex_text d source) (pre @ post) bufpos =
    Some (bufpos + length source, pre @ source @ drop (length source) post)"
  using assms
proof (induction source arbitrary: pre post bufpos)
  case Nil
  then show ?case by simp
next
  case (Cons c cs)
  then obtain x post' where post: "post = x # post'" by (cases post) auto
  have IH: "hex_decode_loop d (hex_text d cs) (pre @ c # post') (Suc bufpos) =
      Some (Suc bufpos + length cs, pre @ c # cs @ drop (length cs) post')"
    using Cons.IH [of "pre @ [c]" "Suc bufpos" post'] Cons.prems post by simp
  have "put_char (pre @ post) bufpos c = Some (pre @ c # post')"
    using post Cons.prems by (simp add: put_char_run)
  moreover have "1 < length (d # hex_text d cs)" if "cs \<noteq> []"
    using that by (cases cs) auto
  ultimately show ?case
    using IH post Cons.prems nibbles [of c]
    by (auto simp: hex_decode_encode_char simp del: push_bit_and drop_bit_and)
qed

text \<open>The bound computed before the loop covers every write of the loop.\<close>

lemma hex_decode_loop_safe:
  assumes "bufpos + (if d \<noteq> 0 then (length source + 1) div 3 else length source div 2) \<le> length buf"
  shows "\<exists>n buf'. hex_decode_loop d source buf bufpos = Some (n, buf') \<and> length buf' = length buf \<and>
    (n = 0 \<or> n \<le> length buf)"
  using assms
proof (induction d source buf bufpos rule: hex_decode_loop.induct)
  case (3 d c1 c2 rest buf bufpos)
  have lt: "bufpos < length buf" using "3.prems" by (auto split: if_splits)
  show ?case
  proof (cases "\<exists>h1 h2. hex_decode_char c1 = Some h1 \<and> hex_decode_char c2 = Some h2")
    case False
    then show ?thesis by (auto split: option.splits)
  next
    case True
    then obtain h1 h2 where h: "hex_decode_char c1 = Some h1" "hex_decode_char c2 = Some h2" by blast
    let ?b = "push_bit 4 h1 OR h2"
    obtain buf1 where w: "put_char buf bufpos ?b = Some buf1" and l: "length buf1 = length buf"
      using lt mem_write_defined [of bufpos "[?b]" buf] mem_write_length by (fastforce simp: put_char_def)
    note IH = "3.IH" [OF refl h(1) h(2)]
    show ?thesis
    proof (cases "d \<noteq> 0 \<and> 1 < length rest")
      case delim: True
      show ?thesis
      proof (cases "hd rest = d")
        case True
        have "Suc bufpos + (length (tl rest) + 1) div 3 \<le> length buf1"
          using "3.prems" delim l by (cases rest) auto
        then show ?thesis
          using IH(1) [of buf1] delim True h w l by auto
      qed (use h w l delim in auto)
    next
      case False
      have "Suc bufpos + (if d \<noteq> 0 then (length rest + 1) div 3 else length rest div 2) \<le> length buf1"
        using "3.prems" False l by (auto split: if_splits)
      then show ?thesis
        using IH(2) [of buf1] False h w l by auto
    qed
  qed
qed auto

section \<open>Fields\<close>

fun split_spec :: "byte \<Rightarrow> byte list \<Rightarrow> byte list \<Rightarrow> byte list list" where
  "split_spec d cur [] = [cur]"
| "split_spec d cur (c # cs) = (if c = d then cur # split_spec d [] cs else split_spec d (cur @ [c]) cs)"

lemma substr_extend:
  assumes "last_pos \<le> i" and "i < length source"
  shows "substr source last_pos (i - last_pos) @ [source ! i] = substr source last_pos (Suc i - last_pos)"
  using assms by (simp add: substr_def Suc_diff_le take_Suc_conv_app_nth)

lemma split_loop_spec:
  assumes "last_pos \<le> i" and "i \<le> length source"
  shows "split_loop source d i last_pos fields =
    fields @ split_spec d (substr source last_pos (i - last_pos)) (drop i source)"
  using assms
proof (induction source d i last_pos fields rule: split_loop.induct)
  case (1 source d i last_pos fields)
  show ?case
  proof (cases "i < length source")
    case True
    then have "drop i source = source ! i # drop (Suc i) source" by (simp add: Cons_nth_drop_Suc)
    then show ?thesis
      using 1 True substr_extend [of last_pos i source]
      by (subst split_loop.simps) (simp add: substr_def)
  next
    case False
    then show ?thesis using 1 by (subst split_loop.simps) simp
  qed
qed

lemma tokenize_loop_spec:
  assumes "last_pos \<le> i" and "i \<le> length source"
  shows "tokenize_loop source d i last_pos fields =
    fields @ filter (\<lambda>f. f \<noteq> []) (split_spec d (substr source last_pos (i - last_pos)) (drop i source))"
  using assms
proof (induction source d i last_pos fields rule: tokenize_loop.induct)
  case (1 source d i last_pos fields)
  have empty: "substr source last_pos (i - last_pos) = [] \<longleftrightarrow> i = last_pos"
    using "1.prems" by (auto simp: substr_def)
  show ?case
  proof (cases "i < length source")
    case True
    then have "drop i source = source ! i # drop (Suc i) source" by (simp add: Cons_nth_drop_Suc)
    then show ?thesis
      using 1 True substr_extend [of last_pos i source] empty
      by (subst tokenize_loop.simps) (simp add: substr_def)
  next
    case False
    then show ?thesis using 1 empty by (subst tokenize_loop.simps) auto
  qed
qed

fun join :: "byte \<Rightarrow> byte list list \<Rightarrow> byte list" where
  "join d [] = []"
| "join d [f] = f"
| "join d (f # fs) = f @ d # join d fs"

lemma split_spec_nonempty: "split_spec d cur cs \<noteq> []"
  by (induction d cur cs rule: split_spec.induct) simp_all

lemma join_split_spec: "join d (split_spec d cur cs) = cur @ cs"
proof (induction d cur cs rule: split_spec.induct)
  case (2 d cur c cs)
  then show ?case
    using split_spec_nonempty [of d "[]" cs] by (cases "split_spec d [] cs") auto
qed simp

lemma split_spec_fields: "d \<notin> set cur \<Longrightarrow> \<forall>f \<in> set (split_spec d cur cs). d \<notin> set f"
  by (induction d cur cs rule: split_spec.induct) auto

lemma length_split_spec: "length (split_spec d cur cs) = count_list cs d + 1"
  by (induction d cur cs rule: split_spec.induct) auto

lemma split_fields_spec: "split_fields source d True = (length (split_spec d [] source), Some (split_spec d [] source))"
  by (simp add: split_fields_def split_loop_spec substr_def Let_def)

lemma tokenize_spec: "tokenize source d = (length (filter (\<lambda>f. f \<noteq> []) (split_spec d [] source)),
    filter (\<lambda>f. f \<noteq> []) (split_spec d [] source))"
  by (simp add: tokenize_def tokenize_loop_spec substr_def Let_def)

lemma find_char_spec: "find_char s d = (if d \<in> set s then Some (length (takeWhile (\<lambda>c. c \<noteq> d) s)) else None)"
  by (induction s) auto

lemma skip_delimiters_spec:
  assumes "d \<noteq> 0" and "p \<le> length source"
  shows "skip_delimiters source d p = Some (p + length (takeWhile (\<lambda>c. c = d) (drop p source)))"
  using assms
proof (induction source d p rule: skip_delimiters.induct)
  case (1 source d p)
  show ?case
  proof (cases "p < length source")
    case True
    then have "drop p source = source ! p # drop (Suc p) source" by (simp add: Cons_nth_drop_Suc)
    then show ?thesis using 1 True by (subst skip_delimiters.simps) (simp add: nth_append)
  next
    case False
    then show ?thesis using 1 by (subst skip_delimiters.simps) (simp add: nth_append)
  qed
qed

lemma tokenize_first_spec:
  assumes "d \<noteq> 0"
  shows "tokenize_first source d = Some (if d \<in> set source
    then Some (takeWhile (\<lambda>c. c \<noteq> d) source, dropWhile (\<lambda>c. c = d) (dropWhile (\<lambda>c. c \<noteq> d) source)) else None)"
proof (cases "d \<in> set source")
  case False
  then show ?thesis by (simp add: tokenize_first_def find_char_spec)
next
  case True
  define l where "l = length (takeWhile (\<lambda>c. c \<noteq> d) source)"
  have tw: "take l source = takeWhile (\<lambda>c. c \<noteq> d) source" and dw: "drop l source = dropWhile (\<lambda>c. c \<noteq> d) source"
    by (simp_all only: l_def takeWhile_eq_take [symmetric] dropWhile_eq_drop [symmetric])
  have l: "l < length source"
    unfolding l_def using True by (induction source) auto
  then have hd: "source ! l = d" using nth_length_takeWhile [of "\<lambda>c. c \<noteq> d" source] by (simp add: l_def)
  let ?k = "length (takeWhile (\<lambda>c. c = d) (drop (Suc l) source))"
  have "drop (Suc l + ?k) source = dropWhile (\<lambda>c. c = d) (drop (Suc l) source)"
    by (simp only: dropWhile_eq_drop drop_drop add.commute)
  also have "\<dots> = dropWhile (\<lambda>c. c = d) (drop l source)"
    using l hd by (simp add: Cons_nth_drop_Suc [symmetric])
  finally have "drop (Suc l + ?k) source = dropWhile (\<lambda>c. c = d) (dropWhile (\<lambda>c. c \<noteq> d) source)"
    by (simp add: dw)
  then show ?thesis
    using True l tw skip_delimiters_spec [OF assms, of "Suc l" source]
    by (simp add: tokenize_first_def find_char_spec substr_def l_def [symmetric])
qed

text \<open>With the zero character as delimiter the loop can run over the terminating zero.\<close>

lemma tokenize_first_nul_overreads: "tokenize_first [1, 0] 0 = None"
proof -
  have "skip_delimiters [1, 0] 0 3 = None" by (subst skip_delimiters.simps) simp
  then have "skip_delimiters [1, 0] 0 2 = None" by (subst skip_delimiters.simps) simp
  then show ?thesis by (simp add: tokenize_first_def numeral_2_eq_2 [symmetric])
qed

lemma find_first_not_of_Some:
  "find_first_not_of s chars = Some i \<Longrightarrow> i < length s \<and> s ! i \<notin> set chars \<and> set (take i s) \<subseteq> set chars"
  by (induction s chars arbitrary: i rule: find_first_not_of.induct) (auto split: if_splits)

lemma find_first_not_of_None: "find_first_not_of s chars = None \<longleftrightarrow> set s \<subseteq> set chars"
  by (induction s chars rule: find_first_not_of.induct) auto

lemma find_last_not_of_None: "find_last_not_of s chars = None \<longleftrightarrow> set s \<subseteq> set chars"
  by (induction s chars rule: find_last_not_of.induct) (auto split: option.splits)

lemma find_last_not_of_Some:
  "find_last_not_of s chars = Some i \<Longrightarrow> i < length s \<and> s ! i \<notin> set chars \<and> set (drop (Suc i) s) \<subseteq> set chars"
  by (induction s chars arbitrary: i rule: find_last_not_of.induct)
    (auto simp: find_last_not_of_None split: if_splits option.splits)

section \<open>Properties\<close>

text \<open>
  Hexadecimal round trip, with and without a delimiter: encoding into a buffer that passes the
  length check writes the digits and a terminating zero inside the buffer, and decoding the digits
  into a buffer at least as long as the source restores the source and returns its length.
\<close>

theorem hex_roundtrip:
  assumes "0 < length buf" and "(if d \<noteq> 0 then length source * 3 else length source * 2 + 1) \<le> length buf"
    and "0 < length out" and "length source \<le> length out"
  shows "\<exists>n buf'. hex_encode_with_delimiter (Some buf) (length buf) source d = Some (n, Some buf') \<and>
    length buf' = length buf \<and> n < length buf \<and> buf' ! n = 0 \<and>
    hex_decode_with_delimiter (Some out) (length out) (take n buf') d =
      Some (length source, Some (source @ drop (length source) out))"
proof -
  let ?t = "hex_text d source"
  have enc: "hex_encode_with_delimiter (Some buf) (length buf) source d =
      Some (length ?t, Some (?t @ [0] @ drop (length ?t + 1) buf))"
    using assms(1,2) by (intro hex_encode_with_delimiter_spec) auto
  have len: "length ?t < length buf"
    using assms(1,2) by (auto simp: length_hex_text simp del: length_greater_0_conv split: if_splits)
  have needed: "(if d \<noteq> 0 then (length ?t + 1) div 3 else length ?t div 2) \<le> length out"
    using assms(4) by (auto simp: length_hex_text)
  have "hex_decode_with_delimiter (Some out) (length out) ?t d =
      Some (length source, Some (source @ drop (length source) out))"
    using needed assms(3) hex_decode_loop_text [of "[]" 0 source out d] assms(4)
    by (simp add: hex_decode_with_delimiter_def Let_def not_less)
  then show ?thesis
    using enc len by (simp add: nth_append)
qed

theorem hex_roundtrip_witness:
  "\<exists>n buf'. hex_encode_with_delimiter (Some (replicate 6 0)) 6 [0xAB, 0x01] 58 = Some (n, Some buf') \<and>
     hex_decode_with_delimiter (Some [9, 9]) 2 (take n buf') 58 = Some (2, Some [0xAB, 0x01])"
  using hex_roundtrip [of "replicate 6 0" 58 "[0xAB, 0x01]" "[9, 9]"] by (auto simp: numeral_2_eq_2 [symmetric])

text \<open>
  Decoding never writes outside its buffer, whatever the text and the delimiter, and returns
  zero or a number of bytes that fit; a text with an odd digit or a wrong delimiter makes it return
  zero, as does a buffer that is too short.
\<close>

theorem hex_decode_safe:
  assumes "buflen \<le> length buf"
  shows "\<exists>n buf'. hex_decode_with_delimiter (Some buf) buflen source d = Some (n, Some buf') \<and>
    length buf' = length buf \<and> n \<le> length buf"
proof (cases "buflen = 0 \<or> buflen < (if d \<noteq> 0 then (length source + 1) div 3 else length source div 2)")
  case True
  then show ?thesis by (auto simp: hex_decode_with_delimiter_def Let_def)
next
  case False
  then have "0 + (if d \<noteq> 0 then (length source + 1) div 3 else length source div 2) \<le> length buf"
    using assms by (auto split: if_splits)
  from hex_decode_loop_safe [OF this] show ?thesis
    using False by (auto simp: hex_decode_with_delimiter_def Let_def)
qed

theorem hex_decode_safe_witness:
  "\<exists>n buf'. hex_decode_with_delimiter (Some [7 :: byte]) 1 [48, 48, 48, 48] 0 = Some (n, Some buf') \<and> length buf' = 1"
  using hex_decode_safe [of 1 "[7]" "[48, 48, 48, 48]" 0] by auto

text \<open>
  \<open>split\<close> is the inverse of joining with the delimiter: its fields contain no delimiter, there
  is one more of them than delimiters in the source, and joining them restores the source;
  \<open>tokenize\<close> returns the same fields without the empty ones.
\<close>

theorem split_tokenize_correct:
  "\<exists>fields. split_fields source d True = (count_list source d + 1, Some fields) \<and>
     length fields = count_list source d + 1 \<and> join d fields = source \<and> (\<forall>f \<in> set fields. d \<notin> set f) \<and>
     tokenize source d = (length (filter (\<lambda>f. f \<noteq> []) fields), filter (\<lambda>f. f \<noteq> []) fields)"
  using split_spec_fields [of d "[]" source]
  by (simp add: split_fields_spec tokenize_spec length_split_spec join_split_spec)

theorem split_tokenize_correct_witness:
  "\<exists>fields. split_fields [44, 1, 44] 44 True = (3, Some fields) \<and> join 44 fields = [44, 1, 44]"
  using split_tokenize_correct [of "[44, 1, 44]" 44] by auto

text \<open>
  \<open>tokenize_first\<close> with a non-zero delimiter stays inside the string, fails exactly when there
  is no delimiter, and otherwise cuts the source into the token before the first delimiter, one or
  more delimiters, and a rest that does not start with one.
\<close>

theorem tokenize_first_correct:
  assumes "d \<noteq> 0"
  shows "(tokenize_first source d = Some None \<longleftrightarrow> d \<notin> set source) \<and>
    (d \<in> set source \<longrightarrow> (\<exists>token rest k. tokenize_first source d = Some (Some (token, rest)) \<and>
       source = token @ replicate (Suc k) d @ rest \<and> d \<notin> set token \<and> (rest \<noteq> [] \<longrightarrow> hd rest \<noteq> d)))"
proof (intro conjI impI)
  show "tokenize_first source d = Some None \<longleftrightarrow> d \<notin> set source"
    by (simp add: tokenize_first_spec [OF assms])
  assume d: "d \<in> set source"
  define token where "token = takeWhile (\<lambda>c. c \<noteq> d) source"
  define mid where "mid = dropWhile (\<lambda>c. c \<noteq> d) source"
  define rest where "rest = dropWhile (\<lambda>c. c = d) mid"
  define n where "n = length (takeWhile (\<lambda>c. c = d) mid)"
  have "mid \<noteq> []" using d by (auto simp: mid_def dropWhile_eq_Nil_conv)
  moreover have "hd mid = d" using calculation hd_dropWhile [of "\<lambda>c. c \<noteq> d" source] by (simp add: mid_def)
  ultimately have "0 < n" by (cases mid) (auto simp: n_def)
  moreover have "takeWhile (\<lambda>c. c = d) mid = replicate n d"
    unfolding n_def by (rule replicate_eqI [symmetric, THEN sym]) (auto dest: set_takeWhileD)
  ultimately have "source = token @ replicate (Suc (n - 1)) d @ rest"
    using takeWhile_dropWhile_id [of "\<lambda>c. c = d" mid] by (simp add: token_def rest_def mid_def)
  moreover have "rest \<noteq> [] \<longrightarrow> hd rest \<noteq> d"
    unfolding rest_def by (rule impI) (erule hd_dropWhile)
  moreover have "d \<notin> set token" by (auto simp: token_def dest: set_takeWhileD)
  ultimately show "\<exists>token rest k. tokenize_first source d = Some (Some (token, rest)) \<and>
       source = token @ replicate (Suc k) d @ rest \<and> d \<notin> set token \<and> (rest \<noteq> [] \<longrightarrow> hd rest \<noteq> d)"
    using d by (auto simp: tokenize_first_spec [OF assms] token_def rest_def mid_def)
qed

theorem tokenize_first_correct_witness:
  "tokenize_first [1, 2] 58 = Some None"
  using tokenize_first_correct [of 58 "[1, 2]"] by simp

text \<open>
  \<open>string_trim\<close> removes exactly the leading and trailing whitespace.
\<close>

theorem string_trim_correct:
  "\<exists>pre post. s = pre @ string_trim s @ post \<and> set pre \<subseteq> set k_whitespace \<and> set post \<subseteq> set k_whitespace \<and>
     (string_trim s \<noteq> [] \<longrightarrow> hd (string_trim s) \<notin> set k_whitespace \<and> last (string_trim s) \<notin> set k_whitespace)"
proof (cases "set s \<subseteq> set k_whitespace")
  case True
  then have "string_trim s = []"
    by (simp add: string_trim_def find_first_not_of_None [symmetric])
  with True show ?thesis by (intro exI [of _ s] exI [of _ "[]"]) simp
next
  case False
  then obtain i j where ij: "find_first_not_of s k_whitespace = Some i" "find_last_not_of s k_whitespace = Some j"
    using find_first_not_of_None find_last_not_of_None by (metis option.exhaust)
  note i = find_first_not_of_Some [OF ij(1)] and j = find_last_not_of_Some [OF ij(2)]
  have le: "i \<le> j"
  proof (rule ccontr)
    assume "\<not> i \<le> j"
    then have "s ! j \<in> set (take i s)" using j by (auto simp: in_set_conv_nth)
    with i j show False by auto
  qed
  have trim: "string_trim s = take (j - i + 1) (drop i s)"
    using ij by (simp add: string_trim_def substr_def)
  have "s = take i s @ string_trim s @ drop (Suc j) s"
    using le j by (simp add: trim) (metis Suc_diff_le add_diff_inverse_nat append_take_drop_id drop_drop le_SucI not_less plus_1_eq_Suc add.commute)
  moreover have "hd (string_trim s) = s ! i" "last (string_trim s) = s ! j"
    using i j le by (auto simp: trim hd_drop_conv_nth last_conv_nth hd_take)
  ultimately show ?thesis using i j by metis
qed

end
