(* ===== verification/StringToNumber.thy ===== *)
theory StringToNumber
  imports Prelude
begin

text \<open>
  \<open>src/string_to_number.{h,cpp}\<close>: integers from strings.  A C string is the list of its characters
  before the terminating zero.  \<open>std::strtoll\<close> and \<open>std::strtoull\<close> are modelled as the C standard
  describes them: white space, an optional sign, an optional base prefix, the longest run of
  digits; the end pointer is the remaining text.
\<close>

section \<open>The standard library's conversion\<close>

definition is_space :: "byte \<Rightarrow> bool" where
  "is_space c \<longleftrightarrow> c = 32 \<or> (9 \<le> c \<and> c \<le> 13)"

definition is_digit :: "byte \<Rightarrow> bool" where
  "is_digit c \<longleftrightarrow> 48 \<le> c \<and> c \<le> 57"

definition digit_value :: "byte \<Rightarrow> nat option" where
  "digit_value c =
     (if is_digit c then Some (unat c - 48)
      else if 65 \<le> c \<and> c \<le> 90 then Some (unat c - 65 + 10)
      else if 97 \<le> c \<and> c \<le> 122 then Some (unat c - 97 + 10)
      else None)"

definition digit_in :: "nat \<Rightarrow> byte \<Rightarrow> bool" where
  "digit_in base c \<longleftrightarrow> (case digit_value c of None \<Rightarrow> False | Some d \<Rightarrow> d < base)"

definition digits_value :: "nat \<Rightarrow> byte list \<Rightarrow> nat" where
  "digits_value base ds = foldl (\<lambda>a c. a * base + the (digit_value c)) 0 ds"

definition take_sign :: "byte list \<Rightarrow> bool \<times> byte list" where
  "take_sign s = (case s of [] \<Rightarrow> (False, [])
     | c # cs \<Rightarrow> if c = of_char CHR ''-'' then (True, cs) else if c = of_char CHR ''+'' then (False, cs) else (False, s))"

definition hex_prefix :: "byte list \<Rightarrow> bool" where
  "hex_prefix s \<longleftrightarrow> (case s of c0 # x # d # _ \<Rightarrow> c0 = 48 \<and> (x = 120 \<or> x = 88) \<and> digit_in 16 d | _ \<Rightarrow> False)"

definition take_base :: "nat \<Rightarrow> byte list \<Rightarrow> nat \<times> byte list" where
  "take_base base s =
     (if (base = 0 \<or> base = 16) \<and> hex_prefix s then (16, drop 2 s)
      else if base = 0 then (if s \<noteq> [] \<and> hd s = 48 then (8, s) else (10, s))
      else (base, s))"

text \<open>Sign, magnitude and rest; \<open>None\<close> when no conversion is possible.\<close>

definition scan_number :: "nat \<Rightarrow> byte list \<Rightarrow> (bool \<times> nat \<times> byte list) option" where
  "scan_number base str =
     (let (neg, s) = take_sign (dropWhile is_space str);
          (b, s) = take_base base s;
          ds = takeWhile (digit_in b) s
      in if ds = [] then None else Some (neg, digits_value b ds, dropWhile (digit_in b) s))"

definition base_ok :: "int \<Rightarrow> bool" where
  "base_ok base \<longleftrightarrow> base = 0 \<or> (2 \<le> base \<and> base \<le> 36)"

text \<open>Value, \<open>*endptr\<close> (\<open>None\<close> when it is left alone) and whether \<open>errno\<close> was set.\<close>

definition LLONG_MIN :: int where "LLONG_MIN = - (2 ^ 63)"
definition LLONG_MAX :: int where "LLONG_MAX = 2 ^ 63 - 1"
definition ULLONG_MAX :: int where "ULLONG_MAX = 2 ^ 64 - 1"

definition strtoll :: "byte list \<Rightarrow> int \<Rightarrow> int \<times> byte list option \<times> bool" where
  "strtoll str base =
     (if \<not> base_ok base then (0, None, True)
      else case scan_number (nat base) str of
        None \<Rightarrow> (0, Some str, False)
      | Some (neg, n, rest) \<Rightarrow>
          let v = (if neg then - int n else int n) in
          if v < LLONG_MIN then (LLONG_MIN, Some rest, True)
          else if LLONG_MAX < v then (LLONG_MAX, Some rest, True)
          else (v, Some rest, False))"

definition strtoull :: "byte list \<Rightarrow> int \<Rightarrow> int \<times> byte list option \<times> bool" where
  "strtoull str base =
     (if \<not> base_ok base then (0, None, True)
      else case scan_number (nat base) str of
        None \<Rightarrow> (0, Some str, False)
      | Some (neg, n, rest) \<Rightarrow>
          if ULLONG_MAX < int n then (ULLONG_MAX, Some rest, True)
          else ((if neg then - int n else int n) mod 2 ^ 64, Some rest, False))"

section \<open>The parsers\<close>

definition starts_number :: "byte list \<Rightarrow> bool" where
  "starts_number str \<longleftrightarrow> str \<noteq> [] \<and> (is_digit (hd str) \<or> hd str = of_char CHR ''-'')"

definition parse_signed :: "byte list option \<Rightarrow> int \<Rightarrow> int option" where
  "parse_signed str base =
     (case str of
        None \<Rightarrow> None
      | Some str \<Rightarrow>
          if starts_number str then
            (case strtoll str base of
               (v, end_ptr, errno) \<Rightarrow> if end_ptr = Some [] \<and> \<not> errno then Some v else None)
          else None)"

definition parse_unsigned :: "byte list option \<Rightarrow> int \<Rightarrow> int option" where
  "parse_unsigned str base =
     (case str of
        None \<Rightarrow> None
      | Some str \<Rightarrow>
          if starts_number str then
            let is_negative = (hd str = of_char CHR ''-'') in
            (case strtoull str base of
               (v, end_ptr, errno) \<Rightarrow>
                 if end_ptr = Some [] \<and> \<not> errno \<and> (v = 0 \<or> \<not> is_negative) then Some v else None)
          else None)"

text \<open>The limits of the result type \<open>T\<close> are parameters.\<close>

definition string_to_number_signed :: "int \<Rightarrow> int \<Rightarrow> byte list option \<Rightarrow> int \<Rightarrow> int option" where
  "string_to_number_signed t_lowest t_max str base =
     (case parse_signed str base of
        None \<Rightarrow> None
      | Some v \<Rightarrow> if t_lowest \<le> v \<and> v \<le> t_max then Some v else None)"

definition string_to_number_unsigned :: "int \<Rightarrow> byte list option \<Rightarrow> int \<Rightarrow> int option" where
  "string_to_number_unsigned t_max str base =
     (case parse_unsigned str base of
        None \<Rightarrow> None
      | Some v \<Rightarrow> if v \<le> t_max then Some v else None)"

text \<open>The overloads for \<open>std::string\<close> see the characters before the first zero.\<close>

definition c_str :: "byte list \<Rightarrow> byte list" where
  "c_str s = takeWhile (\<lambda>c. c \<noteq> 0) s"

definition string_to_number_signed_str :: "int \<Rightarrow> int \<Rightarrow> byte list \<Rightarrow> int \<Rightarrow> int option" where
  "string_to_number_signed_str t_lowest t_max str base = string_to_number_signed t_lowest t_max (Some (c_str str)) base"

definition string_to_number_unsigned_str :: "int \<Rightarrow> byte list \<Rightarrow> int \<Rightarrow> int option" where
  "string_to_number_unsigned_str t_max str base = string_to_number_unsigned t_max (Some (c_str str)) base"

section \<open>Decimal numerals\<close>

lemma digit_in_10: "digit_in 10 c \<longleftrightarrow> is_digit c"
proof -
  have "unat c - 48 < 10" if "is_digit c"
    using that by (auto simp: is_digit_def word_le_nat_alt)
  then show ?thesis by (auto simp: digit_in_def digit_value_def)
qed

lemma is_digit_not_space_sign: "is_digit c \<Longrightarrow> \<not> is_space c \<and> c \<noteq> of_char CHR ''-'' \<and> c \<noteq> of_char CHR ''+''"
  by (auto simp: is_digit_def is_space_def word_le_nat_alt word_unat_eq_iff)

lemma minus_not_space: "\<not> is_space (of_char CHR ''-'')" "\<not> is_digit (of_char CHR ''-'')"
  by (simp_all add: is_space_def is_digit_def)

text \<open>A decimal numeral: an optional minus sign and at least one digit, nothing else.\<close>

definition numeral_of :: "bool \<Rightarrow> byte list \<Rightarrow> byte list" where
  "numeral_of neg ds = (if neg then of_char CHR ''-'' # ds else ds)"

definition is_numeral :: "byte list \<Rightarrow> bool" where
  "is_numeral ds \<longleftrightarrow> ds \<noteq> [] \<and> list_all is_digit ds"

definition signed_value :: "bool \<Rightarrow> byte list \<Rightarrow> int" where
  "signed_value neg ds = (if neg then - int (digits_value 10 ds) else int (digits_value 10 ds))"

lemma scan_number_decimal:
  assumes "starts_number str"
  shows "scan_number 10 str = Some (neg, n, []) \<longleftrightarrow>
    (\<exists>ds. is_numeral ds \<and> str = numeral_of neg ds \<and> n = digits_value 10 ds)"
proof -
  obtain c cs where str: "str = c # cs" and c: "is_digit c \<or> c = of_char CHR ''-''"
    using assms by (cases str) (auto simp: starts_number_def)
  have nosp: "dropWhile is_space str = str"
    using c is_digit_not_space_sign minus_not_space by (auto simp: str)
  define s where "s = (if c = of_char CHR ''-'' then cs else str)"
  have sign: "take_sign str = (c = of_char CHR ''-'', s)"
    using c is_digit_not_space_sign [of c] by (auto simp: take_sign_def str s_def)
  have scan: "scan_number 10 str = (if takeWhile is_digit s = [] then None
      else Some (c = of_char CHR ''-'', digits_value 10 (takeWhile is_digit s), dropWhile is_digit s))"
    by (simp add: scan_number_def nosp sign take_base_def digit_in_10 [abs_def])
  have all: "dropWhile is_digit s = [] \<longleftrightarrow> takeWhile is_digit s = s"
    by (metis append.right_neutral same_append_eq takeWhile_dropWhile_id)
  have shape: "str = numeral_of neg ds \<longleftrightarrow> neg = (c = of_char CHR ''-'') \<and> s = ds" if "is_numeral ds" for ds
    using that minus_not_space by (auto simp: numeral_of_def s_def str is_numeral_def)
  show ?thesis
  proof
    assume "scan_number 10 str = Some (neg, n, [])"
    then have "takeWhile is_digit s \<noteq> []" "neg = (c = of_char CHR ''-'')" "n = digits_value 10 (takeWhile is_digit s)"
      "dropWhile is_digit s = []"
      unfolding scan by (auto split: if_splits)
    moreover from this have "is_numeral s"
      using all by (auto simp: is_numeral_def list_all_iff takeWhile_eq_all_conv)
    ultimately show "\<exists>ds. is_numeral ds \<and> str = numeral_of neg ds \<and> n = digits_value 10 ds"
      using shape [of s] all by (intro exI [of _ s]) (simp only: simp_thms)
  next
    assume "\<exists>ds. is_numeral ds \<and> str = numeral_of neg ds \<and> n = digits_value 10 ds"
    then obtain ds where ds: "is_numeral ds" "str = numeral_of neg ds" "n = digits_value 10 ds" by blast
    with shape have "s = ds" "neg = (c = of_char CHR ''-'')" by auto
    moreover have "takeWhile is_digit ds = ds"
      using ds(1) by (simp add: is_numeral_def list_all_iff takeWhile_eq_all_conv)
    ultimately show "scan_number 10 str = Some (neg, n, [])"
      unfolding scan using ds(1,3) all by (simp add: is_numeral_def del: takeWhile_eq_all_conv)
  qed
qed

lemma starts_number_numeral: "is_numeral ds \<Longrightarrow> starts_number (numeral_of neg ds)"
  by (cases ds) (auto simp: is_numeral_def starts_number_def numeral_of_def)

lemma parse_signed_decimal:
  "parse_signed (Some str) 10 = Some v \<longleftrightarrow>
    (\<exists>neg ds. is_numeral ds \<and> str = numeral_of neg ds \<and> v = signed_value neg ds \<and> LLONG_MIN \<le> v \<and> v \<le> LLONG_MAX)"
proof (cases "starts_number str")
  case False
  then show ?thesis using starts_number_numeral by (auto simp: parse_signed_def)
next
  case True
  have "parse_signed (Some str) 10 = Some v \<longleftrightarrow>
      (\<exists>neg n. scan_number 10 str = Some (neg, n, []) \<and> v = (if neg then - int n else int n) \<and> LLONG_MIN \<le> v \<and> v \<le> LLONG_MAX)"
  proof (cases "scan_number 10 str")
    case None
    then show ?thesis using True by (auto simp: parse_signed_def strtoll_def base_ok_def starts_number_def)
  next
    case (Some r)
    obtain neg n rest where "r = (neg, n, rest)" by (cases r)
    with Some True show ?thesis
      by (auto simp: parse_signed_def strtoll_def base_ok_def Let_def not_less)
  qed
  then show ?thesis
    unfolding scan_number_decimal [OF True] signed_value_def by fastforce
qed

lemma parse_unsigned_decimal:
  "parse_unsigned (Some str) 10 = Some v \<longleftrightarrow>
    (\<exists>neg ds. is_numeral ds \<and> str = numeral_of neg ds \<and> v = signed_value neg ds \<and> 0 \<le> v \<and> v \<le> ULLONG_MAX)"
proof (cases "starts_number str")
  case False
  then show ?thesis using starts_number_numeral by (auto simp: parse_unsigned_def)
next
  case True
  have neg: "hd str = of_char CHR ''-'' \<longleftrightarrow> neg" if "scan_number 10 str = Some (neg, n, [])" for neg n
    using that minus_not_space unfolding scan_number_decimal [OF True]
    by (cases neg) (auto simp: numeral_of_def is_numeral_def neq_Nil_conv)
  have wrap: "(- int n) mod 2 ^ 64 = 0 \<longleftrightarrow> n = 0" if "int n \<le> ULLONG_MAX" for n
  proof
    assume "(- int n) mod 2 ^ 64 = 0"
    then have "int n mod 2 ^ 64 = 0" by (metis add.inverse_inverse mod_0 mod_minus_eq neg_equal_0_iff_equal)
    then show "n = 0" using that by (simp add: ULLONG_MAX_def)
  qed simp
  have "parse_unsigned (Some str) 10 = Some v \<longleftrightarrow>
      (\<exists>neg n. scan_number 10 str = Some (neg, n, []) \<and> v = (if neg then - int n else int n) \<and> 0 \<le> v \<and> v \<le> ULLONG_MAX)"
    (is "?l \<longleftrightarrow> ?r")
  proof
    assume ?l
    then obtain neg n where sc: "scan_number 10 str = Some (neg, n, [])" and le: "int n \<le> ULLONG_MAX"
      and v: "v = (if neg then - int n else int n) mod 2 ^ 64" "v = 0 \<or> \<not> neg"
      using True neg
      by (cases "str = []") (auto simp: parse_unsigned_def strtoull_def base_ok_def starts_number_def Let_def
          split: option.splits prod.splits if_splits)
    show ?r
    proof (cases neg)
      case False
      with v le sc show ?thesis by (auto simp: ULLONG_MAX_def)
    next
      case n: True
      with v wrap [OF le] have "n = 0" by auto
      with v n sc show ?thesis by (auto simp: ULLONG_MAX_def)
    qed
  next
    assume ?r
    then obtain neg n where sc: "scan_number 10 str = Some (neg, n, [])"
      and v: "v = (if neg then - int n else int n)" "0 \<le> v" "v \<le> ULLONG_MAX" by blast
    from v have "neg \<longrightarrow> n = 0" by auto
    with v sc True neg [OF sc] show ?l
      by (auto simp: parse_unsigned_def strtoull_def base_ok_def ULLONG_MAX_def)
  qed
  then show ?thesis
    unfolding scan_number_decimal [OF True] signed_value_def by fastforce
qed

text \<open>Printing a number in decimal.\<close>

fun dec_nat :: "nat \<Rightarrow> byte list" where
  "dec_nat n = (if n < 10 then [of_nat (48 + n)] else dec_nat (n div 10) @ [of_nat (48 + n mod 10)])"

declare dec_nat.simps [simp del]

definition dec_int :: "int \<Rightarrow> byte list" where
  "dec_int v = numeral_of (v < 0) (dec_nat (nat \<bar>v\<bar>))"

lemma digit_char: "d < 10 \<Longrightarrow> is_digit (of_nat (48 + d)) \<and> digit_value (of_nat (48 + d)) = Some d"
proof -
  assume "d < 10"
  then have "unat (of_nat (48 + d) :: byte) = 48 + d" by (simp add: unat_of_nat del: of_nat_add)
  with \<open>d < 10\<close> show ?thesis
    by (simp add: is_digit_def digit_value_def word_le_nat_alt del: of_nat_add)
qed

lemma dec_nat_numeral: "is_numeral (dec_nat n) \<and> digits_value 10 (dec_nat n) = n"
proof (induction n rule: dec_nat.induct)
  case (1 n)
  show ?case
  proof (cases "n < 10")
    case True
    then show ?thesis
      using digit_char [OF True] by (subst (1 2) dec_nat.simps) (simp add: is_numeral_def digits_value_def del: of_nat_add)
  next
    case False
    then show ?thesis
      using 1 digit_char [of "n mod 10"]
      by (subst (1 2) dec_nat.simps) (simp add: is_numeral_def digits_value_def del: of_nat_add)
  qed
qed

lemma dec_int_value: "dec_int v = numeral_of (v < 0) (dec_nat (nat \<bar>v\<bar>)) \<and> is_numeral (dec_nat (nat \<bar>v\<bar>)) \<and>
    signed_value (v < 0) (dec_nat (nat \<bar>v\<bar>)) = v"
  by (simp add: dec_int_def signed_value_def dec_nat_numeral)

section \<open>Properties\<close>

text \<open>
  In base ten a signed parse succeeds exactly on an optional minus sign followed by one or more
  digits, with no blank and nothing after them, whose value lies in the range of the result type,
  and returns that value; every other string, and a null pointer, gives an empty result.
\<close>

theorem string_to_number_signed_exact:
  assumes "LLONG_MIN \<le> t_lowest" and "t_max \<le> LLONG_MAX"
  shows "(string_to_number_signed t_lowest t_max (Some str) 10 = Some v \<longleftrightarrow>
      (\<exists>neg ds. is_numeral ds \<and> str = numeral_of neg ds \<and> v = signed_value neg ds \<and> t_lowest \<le> v \<and> v \<le> t_max)) \<and>
    string_to_number_signed t_lowest t_max None base = None \<and>
    (t_lowest \<le> w \<and> w \<le> t_max \<longrightarrow> string_to_number_signed t_lowest t_max (Some (dec_int w)) 10 = Some w)"
proof -
  have ex: "string_to_number_signed t_lowest t_max (Some str) 10 = Some v \<longleftrightarrow>
      (\<exists>neg ds. is_numeral ds \<and> str = numeral_of neg ds \<and> v = signed_value neg ds \<and> t_lowest \<le> v \<and> v \<le> t_max)" for str v
  proof -
    have "string_to_number_signed t_lowest t_max (Some str) 10 = Some v \<longleftrightarrow>
        parse_signed (Some str) 10 = Some v \<and> t_lowest \<le> v \<and> v \<le> t_max"
      by (auto simp: string_to_number_signed_def split: option.splits)
    then show ?thesis using assms unfolding parse_signed_decimal by (blast intro: order_trans)
  qed
  have "string_to_number_signed t_lowest t_max (Some (dec_int w)) 10 = Some w" if "t_lowest \<le> w \<and> w \<le> t_max"
    unfolding ex using dec_int_value [of w] that by metis
  then show ?thesis
    using ex by (simp add: string_to_number_signed_def parse_signed_def)
qed

theorem string_to_number_signed_exact_witness:
  "string_to_number_signed (- 128) 127 (Some (dec_int (- 77))) 10 = Some (- 77)"
  using string_to_number_signed_exact [of "- 128" 127 "[]" 0 0 "- 77"] by (simp add: LLONG_MIN_def LLONG_MAX_def)

text \<open>
  In base ten an unsigned parse succeeds exactly on the numerals whose value is not negative and
  fits the result type, so a minus sign is accepted only in front of zero; the wrap-around of
  \<open>strtoull\<close> on negative numerals is never visible.
\<close>

theorem string_to_number_unsigned_exact:
  assumes "t_max \<le> ULLONG_MAX"
  shows "string_to_number_unsigned t_max (Some str) 10 = Some v \<longleftrightarrow>
    (\<exists>neg ds. is_numeral ds \<and> str = numeral_of neg ds \<and> v = signed_value neg ds \<and> 0 \<le> v \<and> v \<le> t_max)"
proof -
  have "string_to_number_unsigned t_max (Some str) 10 = Some v \<longleftrightarrow>
      parse_unsigned (Some str) 10 = Some v \<and> v \<le> t_max"
    by (auto simp: string_to_number_unsigned_def split: option.splits)
  then show ?thesis using assms unfolding parse_unsigned_decimal by (blast intro: order_trans)
qed

theorem string_to_number_unsigned_exact_witness:
  "string_to_number_unsigned 255 (Some (dec_int (- 1))) 10 \<noteq> Some 255"
proof
  assume "string_to_number_unsigned 255 (Some (dec_int (- 1))) 10 = Some 255"
  then obtain neg ds where "is_numeral ds" "dec_int (- 1) = numeral_of neg ds" "255 = signed_value neg ds"
    using string_to_number_unsigned_exact [of 255 "dec_int (- 1)" 255] by (auto simp: ULLONG_MAX_def)
  then show False
    by (cases neg) (auto simp: dec_int_def numeral_of_def signed_value_def is_numeral_def minus_not_space [simplified])
qed

end
