(* ===== verification/Crc32.thy ===== *)
theory Crc32
  imports Prelude
begin

text \<open>
  \<open>src/crc32.{h,cpp}\<close>: table-driven CRC-32.  The table is a global array that the first call fills
  in; every operation takes and returns it.
\<close>

definition k_crc32_polynomial :: u32 where
  "k_crc32_polynomial = 0xEDB88320"

definition k_crc32_table_initial :: "u32 list" where
  "k_crc32_table_initial = replicate 256 0"

text \<open>The inner loop of the table construction.\<close>

definition crc_shift :: "u32 \<Rightarrow> u32" where
  "crc_shift c = (if c AND 1 \<noteq> 0 then k_crc32_polynomial XOR drop_bit 1 c else drop_bit 1 c)"

fun crc_shifts :: "nat \<Rightarrow> u32 \<Rightarrow> u32" where
  "crc_shifts 0 c = c"
| "crc_shifts (Suc j) c = crc_shifts j (crc_shift c)"

text \<open>The outer loop, storing entry \<open>i\<close>.\<close>

fun fill_table :: "nat \<Rightarrow> nat \<Rightarrow> u32 list \<Rightarrow> u32 list" where
  "fill_table i 0 table = table"
| "fill_table i (Suc n) table = fill_table (Suc i) n (table[i := crc_shifts 8 (of_nat i)])"

definition ensure_crc32_table_inited :: "u32 list \<Rightarrow> u32 list" where
  "ensure_crc32_table_inited table =
     (if table ! (length table - 1) \<noteq> 0 then table else fill_table 0 (length table) table)"

fun update_loop :: "u32 list \<Rightarrow> u32 \<Rightarrow> byte list \<Rightarrow> u32" where
  "update_loop table c [] = c"
| "update_loop table c (b # bs) =
     update_loop table (table ! unat ((c XOR ucast b) AND 0xFF) XOR drop_bit 8 c) bs"

definition update_crc32 :: "u32 list \<Rightarrow> u32 \<Rightarrow> byte list \<Rightarrow> u32 \<times> u32 list" where
  "update_crc32 table start buf =
     (let table = ensure_crc32_table_inited table;
          c = update_loop table (start XOR 0xFFFFFFFF) buf
      in (c XOR 0xFFFFFFFF, table))"

definition compute_crc32 :: "u32 list \<Rightarrow> byte list \<Rightarrow> u32 \<times> u32 list" where
  "compute_crc32 table buf = update_crc32 table 0 buf"

definition compute_crc32_string :: "u32 list \<Rightarrow> byte list \<Rightarrow> u32 \<times> u32 list" where
  "compute_crc32_string table str = compute_crc32 table str"

section \<open>The table\<close>

definition crc_table :: "u32 list" where
  "crc_table = map (\<lambda>i. crc_shifts 8 (of_nat i)) [0..<256]"

lemma fill_table_spec:
  "i + n = length table \<Longrightarrow> fill_table i n table = take i table @ map (\<lambda>k. crc_shifts 8 (of_nat k)) [i..<i + n]"
proof (induction n arbitrary: i table)
  case (Suc n)
  then have "fill_table (Suc i) n (table[i := crc_shifts 8 (of_nat i)]) =
      take (Suc i) (table[i := crc_shifts 8 (of_nat i)]) @ map (\<lambda>k. crc_shifts 8 (of_nat k)) [Suc i..<Suc i + n]"
    by (intro Suc.IH) simp
  moreover have "take (Suc i) (table[i := x]) = take i table @ [x]" for x
    using Suc.prems by (simp add: take_Suc_conv_app_nth)
  ultimately show ?case by (simp add: upt_conv_Cons del: upt_Suc)
qed simp

lemma crc_and_1: "c AND 1 \<noteq> 0 \<longleftrightarrow> bit c 0" for c :: u32
  by (simp add: and_one_eq odd_iff_mod_2_eq_one bit_0)

lemma crc_table_last: "crc_table ! 255 \<noteq> 0"
proof -
  have "crc_shifts 8 255 \<noteq> 0"
    by code_simp
  then show ?thesis by (simp add: crc_table_def)
qed

lemma ensure_initial: "ensure_crc32_table_inited k_crc32_table_initial = crc_table"
  using fill_table_spec [of 0 256 "replicate 256 0"]
  by (simp add: ensure_crc32_table_inited_def k_crc32_table_initial_def crc_table_def)

lemma length_crc_table [simp]: "length crc_table = 256"
  by (simp add: crc_table_def)

lemma ensure_again: "ensure_crc32_table_inited crc_table = crc_table"
  by (simp add: ensure_crc32_table_inited_def crc_table_last)

definition crc_table_ok :: "u32 list \<Rightarrow> bool" where
  "crc_table_ok table \<longleftrightarrow> table = k_crc32_table_initial \<or> table = crc_table"

lemma ensure_ok: "crc_table_ok table \<Longrightarrow> ensure_crc32_table_inited table = crc_table"
  by (auto simp: crc_table_ok_def ensure_initial ensure_again)

section \<open>Bit at a time\<close>

text \<open>The register with the bits of the message fed in one after the other, and the whole bytes of the table at once.\<close>

fun crc_bitwise :: "u32 \<Rightarrow> byte list \<Rightarrow> u32" where
  "crc_bitwise c [] = c"
| "crc_bitwise c (b # bs) = crc_bitwise (crc_shifts 8 (c XOR ucast b)) bs"

lemma bit_crc_shift: "bit (crc_shift c) k \<longleftrightarrow> (bit c (Suc k) \<noteq> (bit c 0 \<and> bit k_crc32_polynomial k))"
  by (auto simp: crc_shift_def crc_and_1 bit_simps)

lemma crc_shift_xor: "crc_shift (a XOR b) = crc_shift a XOR crc_shift b"
  by (rule bit_eqI) (auto simp: bit_crc_shift bit_xor_iff)

lemma crc_shifts_xor: "crc_shifts n (a XOR b) = crc_shifts n a XOR crc_shifts n b"
  by (induction n arbitrary: a b) (simp_all add: crc_shift_xor)

lemma crc_shift_even: "\<not> bit c 0 \<Longrightarrow> crc_shift c = drop_bit 1 c"
  by (simp add: crc_shift_def crc_and_1)

lemma crc_shifts_high: "(\<And>k. k < n \<Longrightarrow> \<not> bit c k) \<Longrightarrow> crc_shifts n c = drop_bit n c"
proof (induction n arbitrary: c)
  case (Suc n)
  have "crc_shifts n (drop_bit 1 c) = drop_bit n (drop_bit 1 c)"
    using Suc.prems by (intro Suc.IH) (auto simp: bit_simps)
  then show ?case
    using Suc.prems [of 0] by (simp add: crc_shift_even drop_bit_drop_bit)
qed simp

lemma table_step:
  "crc_table ! unat ((c XOR ucast b) AND 0xFF) XOR drop_bit 8 c = crc_shifts 8 (c XOR ucast (b :: byte))"
proof -
  have m: "(0xFF :: u32) = mask 8" by (simp add: mask_eq_exp_minus_1)
  let ?x = "c XOR ucast b"
  let ?low = "?x AND 0xFF" and ?high = "?x AND NOT 0xFF"
  have split: "?x = ?low XOR ?high" by (rule bit_eqI) (auto simp: bit_simps)
  have "?low < 2 ^ 8"
    by (subst word_less_exp_iff_bits) (auto simp: m bit_simps)
  then have "unat ?low < 256" by (simp add: word_less_nat_alt)
  then have low: "crc_table ! unat ?low = crc_shifts 8 ?low" by (simp add: crc_table_def)
  have "crc_shifts 8 ?high = drop_bit 8 ?high"
    by (rule crc_shifts_high) (auto simp: m bit_simps)
  also have "\<dots> = drop_bit 8 c"
    by (rule bit_eqI) (auto simp: m bit_simps dest: bit_imp_le_length)
  finally show ?thesis
    using low crc_shifts_xor [of 8 ?low ?high] split by simp
qed

lemma update_loop_bitwise: "update_loop crc_table c bs = crc_bitwise c bs"
  by (induction bs arbitrary: c) (simp_all add: table_step)

lemma update_crc32_bitwise:
  "crc_table_ok table \<Longrightarrow>
    update_crc32 table start buf = (crc_bitwise (start XOR 0xFFFFFFFF) buf XOR 0xFFFFFFFF, crc_table)"
  by (simp add: update_crc32_def ensure_ok update_loop_bitwise Let_def)

lemma crc_bitwise_append: "crc_bitwise c (xs @ ys) = crc_bitwise (crc_bitwise c xs) ys"
  by (induction xs arbitrary: c) simp_all

section \<open>The standard\<close>

text \<open>
  CRC-32 as ISO 3309 and RFC 1952 define it, independently of the code: the remainder of the message, its bits taken from the least
  significant one of each byte on, on division by \<open>x\<^sup>3\<^sup>2 + x\<^sup>2\<^sup>6 + x\<^sup>2\<^sup>3 + x\<^sup>2\<^sup>2 + x\<^sup>1\<^sup>6 + x\<^sup>1\<^sup>2 + x\<^sup>1\<^sup>1 + x\<^sup>1\<^sup>0 + x\<^sup>8 + x\<^sup>7 + x\<^sup>5 + x\<^sup>4 + x\<^sup>2 + x + 1\<close>, computed with a register
  whose bit \<open>k\<close> is the coefficient of \<open>x\<^sup>k\<close>.  The register starts with ones; the result is its complement with the bits in reverse order.
\<close>

definition crc32_generator :: u32 where
  "crc32_generator = foldr (\<lambda>e w. push_bit e 1 OR w) [26, 23, 22, 16, 12, 11, 10, 8, 7, 5, 4, 2, 1, 0] 0"

definition message_bits :: "byte list \<Rightarrow> bool list" where
  "message_bits bs = concat (map (\<lambda>b. map (bit b) [0..<8]) bs)"

definition division_step :: "bool \<Rightarrow> u32 \<Rightarrow> u32" where
  "division_step b r = (if bit r 31 \<noteq> b then push_bit 1 r XOR crc32_generator else push_bit 1 r)"

definition reflect :: "u32 \<Rightarrow> u32" where
  "reflect w = horner_sum of_bool 2 (rev (map (bit w) [0..<32]))"

definition crc32_standard :: "u32 \<Rightarrow> byte list \<Rightarrow> u32" where
  "crc32_standard start bs = NOT (reflect (fold division_step (message_bits bs) (reflect (NOT start))))"

lemma bit_reflect: "bit (reflect w) k \<longleftrightarrow> k < 32 \<and> bit w (31 - k)"
  by (auto simp: reflect_def bit_horner_sum_bit_iff rev_nth)

lemma reflect_reflect [simp]: "reflect (reflect w) = w"
  by (rule bit_word_eqI) (auto simp: bit_reflect)

lemma reflect_polynomial: "reflect k_crc32_polynomial = crc32_generator"
  by code_simp

lemma bit_generator: "k < 32 \<Longrightarrow> bit crc32_generator k \<longleftrightarrow> bit k_crc32_polynomial (31 - k)"
  by (simp add: bit_reflect flip: reflect_polynomial)

lemma bit_division_step:
  assumes "k < 32"
  shows "bit (division_step b r) k \<longleftrightarrow> ((0 < k \<and> bit r (k - 1)) \<noteq> (bit r 31 \<noteq> b \<and> bit crc32_generator k))"
proof -
  have "bit (push_bit 1 r) k \<longleftrightarrow> 0 < k \<and> bit r (k - 1)"
    unfolding bit_push_bit_iff using assms by auto
  then show ?thesis by (simp add: division_step_def bit_xor_iff del: push_bit_Suc One_nat_def)
qed

lemma reflect_crc_shift: "reflect (crc_shift (c XOR of_bool b)) = division_step b (reflect c)"
proof (rule bit_word_eqI)
  fix k assume "k < LENGTH(32)"
  then have k: "k < 32" by simp
  have top: "\<not> bit c 32" by (simp add: bit_word.rep_eq)
  have next_bit: "bit c (Suc (31 - k)) \<longleftrightarrow> 0 < k \<and> bit c (31 - (k - 1))"
    using k top by (cases k) (simp_all flip: Suc_diff_le)
  show "bit (reflect (crc_shift (c XOR of_bool b))) k = bit (division_step b (reflect c)) k"
    using k next_bit
    by (auto simp: bit_reflect bit_crc_shift bit_division_step bit_generator bit_xor_iff bit_of_bool_iff)
qed

lemma crc_shift_low:
  "crc_shift (c XOR x) = crc_shift (c XOR of_bool (bit x 0)) XOR drop_bit 1 x"
proof -
  let ?low = "of_bool (bit x 0) :: u32"
  have "crc_shift (c XOR x) = crc_shift (c XOR ?low) XOR crc_shift (x XOR ?low)"
    by (simp only: crc_shift_xor [symmetric]) (simp add: xor.assoc xor.left_commute xor.commute)
  also have "crc_shift (x XOR ?low) = drop_bit 1 (x XOR ?low)"
    by (rule crc_shift_even) (simp add: bit_xor_iff bit_of_bool_iff)
  also have "\<dots> = drop_bit 1 x"
    by (rule bit_word_eqI) (simp add: bit_drop_bit_eq bit_xor_iff bit_of_bool_iff)
  finally show ?thesis .
qed

lemma crc_shifts_bits:
  "(\<And>k. n \<le> k \<Longrightarrow> \<not> bit x k) \<Longrightarrow>
    crc_shifts n (c XOR x) = fold (\<lambda>b c. crc_shift (c XOR of_bool b)) (map (bit x) [0..<n]) c"
proof (induction n arbitrary: c x)
  case 0
  then have "x = 0" by (intro bit_word_eqI) simp
  then show ?case by simp
next
  case (Suc n)
  have "crc_shifts n (crc_shift (c XOR of_bool (bit x 0)) XOR drop_bit 1 x) =
      fold (\<lambda>b c. crc_shift (c XOR of_bool b)) (map (bit (drop_bit 1 x)) [0..<n]) (crc_shift (c XOR of_bool (bit x 0)))"
    using Suc.prems by (intro Suc.IH) (simp add: bit_simps)
  moreover have "map (bit x) [0..<Suc n] = bit x 0 # map (bit (drop_bit 1 x)) [0..<n]"
    by (simp add: map_upt_Suc bit_simps del: upt_Suc)
  ultimately show ?case by (simp add: crc_shift_low [of c x])
qed

lemma reflect_fold: "reflect (fold (\<lambda>b c. crc_shift (c XOR of_bool b)) bs c) = fold division_step bs (reflect c)"
  by (induction bs arbitrary: c) (simp_all add: reflect_crc_shift)

lemma crc_bitwise_fold: "crc_bitwise c bs = fold (\<lambda>b c. crc_shift (c XOR of_bool b)) (message_bits bs) c"
proof (induction bs arbitrary: c)
  case (Cons b bs)
  have "crc_shifts 8 (c XOR ucast b) = fold (\<lambda>b c. crc_shift (c XOR of_bool b)) (map (bit (ucast b :: u32)) [0..<8]) c"
    by (rule crc_shifts_bits) (auto simp: bit_simps dest: bit_imp_le_length)
  moreover have "map (bit (ucast b :: u32)) [0..<8] = map (bit b) [0..<8]" by (simp add: bit_simps)
  ultimately show ?case using Cons.IH by (simp add: message_bits_def)
qed (simp add: message_bits_def)

lemma crc_bitwise_standard: "crc_bitwise (start XOR 0xFFFFFFFF) bs XOR 0xFFFFFFFF = crc32_standard start bs"
proof -
  have n: "w XOR 0xFFFFFFFF = NOT w" for w :: u32
  proof -
    have "(0xFFFFFFFF :: u32) = - 1" by code_simp
    then show ?thesis by (simp only: bit.xor_one_right)
  qed
  show ?thesis
    using reflect_fold [of "message_bits bs" "NOT start"] by (simp add: n crc32_standard_def crc_bitwise_fold flip: reflect_fold)
qed

section \<open>Properties\<close>



text \<open>
  Incremental use: feeding the result of one update into the next gives the checksum of the
  concatenated data.
\<close>

theorem crc32_incremental:
  assumes "crc_table_ok table"
  shows "fst (update_crc32 table (fst (compute_crc32 table xs)) ys) = fst (compute_crc32 table (xs @ ys))"
  using assms by (simp add: compute_crc32_def update_crc32_bitwise crc_bitwise_append xor.assoc)

theorem crc32_incremental_witness:
  "fst (update_crc32 crc_table (fst (compute_crc32 crc_table [1, 2])) [3]) = fst (compute_crc32 crc_table [1, 2, 3])"
  using crc32_incremental [of crc_table "[1, 2]" "[3]"] by (simp add: crc_table_ok_def)

end
