(* ===== verification/SafeNum.thy ===== *)
theory SafeNum
  imports Prelude
begin

text \<open>
  \<open>src/safe_compare.h\<close>, \<open>src/safe_conversions.h\<close>, \<open>src/safe_conversions_impl.h\<close> and
  \<open>src/safe_minmax.h\<close> for the integer types: comparison, conversion, minimum, maximum and clamping
  without the surprises of the usual arithmetic conversions.  A C++ value is a type and an integer
  in the range of that type; overload resolution and template selection are functions of the
  types, a failing \<open>static_assert\<close> is \<open>None\<close>.  The floating-point branches (\<open>is_iec559\<close>) are not
  modelled.
\<close>

section \<open>Integer types\<close>

datatype cint = I8 | I16 | I32 | I64 | U8 | U16 | U32 | U64

fun is_signed :: "cint \<Rightarrow> bool" where
  "is_signed I8 = True" | "is_signed I16 = True" | "is_signed I32 = True" | "is_signed I64 = True"
| "is_signed U8 = False" | "is_signed U16 = False" | "is_signed U32 = False" | "is_signed U64 = False"

fun sizeof :: "cint \<Rightarrow> nat" where
  "sizeof I8 = 1" | "sizeof I16 = 2" | "sizeof I32 = 4" | "sizeof I64 = 8"
| "sizeof U8 = 1" | "sizeof U16 = 2" | "sizeof U32 = 4" | "sizeof U64 = 8"

definition lim_lowest :: "cint \<Rightarrow> int" where
  "lim_lowest t = (if is_signed t then - (2 ^ (sizeof t * 8 - 1)) else 0)"

definition lim_max :: "cint \<Rightarrow> int" where
  "lim_max t = (if is_signed t then 2 ^ (sizeof t * 8 - 1) - 1 else 2 ^ (sizeof t * 8) - 1)"

definition in_range :: "cint \<Rightarrow> int \<Rightarrow> bool" where
  "in_range t v \<longleftrightarrow> lim_lowest t \<le> v \<and> v \<le> lim_max t"

text \<open>\<open>static_cast\<close> between integer types: modulo \<open>2 ^ w\<close>.\<close>

definition cast :: "cint \<Rightarrow> int \<Rightarrow> int" where
  "cast t v = (v - lim_lowest t) mod 2 ^ (sizeof t * 8) + lim_lowest t"

text \<open>Integral promotion and the usual arithmetic conversions.\<close>

definition promote :: "cint \<Rightarrow> cint" where
  "promote t = (if sizeof t < 4 then I32 else t)"

definition common_type :: "cint \<Rightarrow> cint \<Rightarrow> cint" where
  "common_type t1 t2 =
     (let p1 = promote t1; p2 = promote t2 in
      if is_signed p1 = is_signed p2 then (if sizeof p1 < sizeof p2 then p2 else p1)
      else if is_signed p1 then (if sizeof p2 < sizeof p1 then p1 else p2)
      else (if sizeof p1 < sizeof p2 then p2 else p1))"

datatype cmp_op = EqOp | NeOp | LtOp | LeOp | GtOp | GeOp

fun rel :: "cmp_op \<Rightarrow> int \<Rightarrow> int \<Rightarrow> bool" where
  "rel EqOp a b \<longleftrightarrow> a = b"
| "rel NeOp a b \<longleftrightarrow> a \<noteq> b"
| "rel LtOp a b \<longleftrightarrow> a < b"
| "rel LeOp a b \<longleftrightarrow> a \<le> b"
| "rel GtOp a b \<longleftrightarrow> b < a"
| "rel GeOp a b \<longleftrightarrow> b \<le> a"

text \<open>\<open>Op::Op(a, b)\<close>: the built-in operator.\<close>

definition op_op :: "cmp_op \<Rightarrow> cint \<Rightarrow> int \<Rightarrow> cint \<Rightarrow> int \<Rightarrow> bool" where
  "op_op oper t1 a t2 b = rel oper (cast (common_type t1 t2) a) (cast (common_type t1 t2) b)"

section \<open>\<open>safe_compare.h\<close>\<close>

fun larger_int_impl :: "nat \<Rightarrow> cint option" where
  "larger_int_impl n = (if n = 1 then Some I16 else if n = 2 then Some I32 else if n = 4 then Some I64 else None)"

text \<open>A pointer has eight bytes.\<close>

definition larger_int :: "cint \<Rightarrow> cint \<Rightarrow> cint option" where
  "larger_int t1 t2 = larger_int_impl (if sizeof t1 < sizeof t2 \<or> sizeof t1 < 8 then sizeof t1 else 0)"

fun unsigned_of :: "cint \<Rightarrow> cint" where
  "unsigned_of I8 = U8" | "unsigned_of I16 = U16" | "unsigned_of I32 = U32" | "unsigned_of I64 = U64"
| "unsigned_of t = t"

definition make_unsigned :: "cint \<Rightarrow> int \<Rightarrow> int" where
  "make_unsigned t a = cast (unsigned_of t) a"

text \<open>The five overloads of \<open>Cmp\<close>.\<close>

definition safe_cmp_impl :: "cmp_op \<Rightarrow> cint \<Rightarrow> int \<Rightarrow> cint \<Rightarrow> int \<Rightarrow> bool" where
  "safe_cmp_impl oper t1 a t2 b =
     (if is_signed t1 = is_signed t2 then op_op oper t1 a t2 b
      else if is_signed t1 then
        (case larger_int t2 t1 of
           Some t \<Rightarrow> op_op oper t1 a t (cast t b)
         | None \<Rightarrow> if a < 0 then op_op oper I32 (- 1) I32 0
                  else op_op oper (unsigned_of t1) (make_unsigned t1 a) t2 b)
      else
        (case larger_int t1 t2 of
           Some t \<Rightarrow> op_op oper t (cast t a) t2 b
         | None \<Rightarrow> if b < 0 then op_op oper I32 0 I32 (- 1)
                  else op_op oper t1 a (unsigned_of t2) (make_unsigned t2 b)))"

text \<open>\<open>SafeEq\<close> to \<open>SafeGe\<close>; the unary plus promotes.\<close>

definition safe_cmp :: "cmp_op \<Rightarrow> cint \<times> int \<Rightarrow> cint \<times> int \<Rightarrow> bool" where
  "safe_cmp oper x y = safe_cmp_impl oper (promote (fst x)) (snd x) (promote (fst y)) (snd y)"

section \<open>\<open>safe_conversions_impl.h\<close>\<close>

datatype dst_range = OVERLAPS_RANGE | CONTAINS_RANGE

definition static_range_check :: "cint \<Rightarrow> cint \<Rightarrow> dst_range" where
  "static_range_check dst src =
     (case (is_signed dst, is_signed src) of
        (True, True) \<Rightarrow> if sizeof dst * 8 - 1 \<ge> sizeof src * 8 - 1 then CONTAINS_RANGE else OVERLAPS_RANGE
      | (False, False) \<Rightarrow> if sizeof dst \<ge> sizeof src then CONTAINS_RANGE else OVERLAPS_RANGE
      | (True, False) \<Rightarrow> if sizeof dst * 8 - 1 \<ge> sizeof src * 8 then CONTAINS_RANGE else OVERLAPS_RANGE
      | (False, True) \<Rightarrow> OVERLAPS_RANGE)"

datatype range_check_result = TYPE_VALID | TYPE_UNDERFLOW | TYPE_OVERFLOW | TYPE_INVALID

definition numeric_range_check_result :: "bool \<Rightarrow> bool \<Rightarrow> range_check_result" where
  "numeric_range_check_result is_in_upper_bound is_in_lower_bound =
     (if is_in_upper_bound then (if is_in_lower_bound then TYPE_VALID else TYPE_UNDERFLOW)
      else (if is_in_lower_bound then TYPE_OVERFLOW else TYPE_INVALID))"

text \<open>The run-time checks compare two values of the source type.\<close>

definition range_check :: "cint \<Rightarrow> cint \<Rightarrow> int \<Rightarrow> range_check_result" where
  "range_check dst src v =
     (if static_range_check dst src = CONTAINS_RANGE then TYPE_VALID
      else case (is_signed dst, is_signed src) of
        (True, True) \<Rightarrow> numeric_range_check_result
           (v \<le> cast src (lim_max dst)) (v \<ge> cast src (lim_lowest dst))
      | (False, False) \<Rightarrow> numeric_range_check_result (v \<le> cast src (lim_max dst)) True
      | (True, False) \<Rightarrow>
          if sizeof dst > sizeof src then TYPE_VALID
          else numeric_range_check_result (v \<le> cast src (lim_max dst)) True
      | (False, True) \<Rightarrow>
          if sizeof dst * 8 \<ge> sizeof src * 8 - 1 then numeric_range_check_result True (v \<ge> cast src 0)
          else numeric_range_check_result (v \<le> cast src (lim_max dst)) (v \<ge> cast src 0))"

section \<open>\<open>safe_conversions.h\<close>\<close>

definition is_value_in_range_for_numeric_type :: "cint \<Rightarrow> cint \<Rightarrow> int \<Rightarrow> bool" where
  "is_value_in_range_for_numeric_type dst src v \<longleftrightarrow> range_check dst src v = TYPE_VALID"

text \<open>The checks of both casts are commented out.\<close>

definition checked_cast :: "cint \<Rightarrow> cint \<Rightarrow> int \<Rightarrow> int" where
  "checked_cast dst src v = cast dst v"

definition dchecked_cast :: "cint \<Rightarrow> cint \<Rightarrow> int \<Rightarrow> int" where
  "dchecked_cast dst src v = cast dst v"

definition saturated_cast :: "cint \<Rightarrow> cint \<Rightarrow> int \<Rightarrow> int" where
  "saturated_cast dst src v =
     (case range_check dst src v of
        TYPE_VALID \<Rightarrow> cast dst v
      | TYPE_UNDERFLOW \<Rightarrow> lim_lowest dst
      | TYPE_OVERFLOW \<Rightarrow> lim_max dst
      | TYPE_INVALID \<Rightarrow> lim_max dst)"

section \<open>\<open>safe_minmax.h\<close>\<close>

definition mtype_min :: "cint \<Rightarrow> cint \<Rightarrow> cint" where
  "mtype_min t1 t2 =
     (if safe_cmp LtOp (t1, lim_lowest t1) (t2, lim_lowest t2) then t1
      else if safe_cmp GtOp (t1, lim_lowest t1) (t2, lim_lowest t2) then t2
      else if safe_cmp LeOp (t1, lim_max t1) (t2, lim_max t2) then t1 else t2)"

definition mtype_max :: "cint \<Rightarrow> cint \<Rightarrow> cint" where
  "mtype_max t1 t2 = (if safe_cmp GeOp (t1, lim_max t1) (t2, lim_max t2) then t1 else t2)"

definition mtype_assert :: "cint \<Rightarrow> cint \<Rightarrow> bool" where
  "mtype_assert t1 t2 \<longleftrightarrow> safe_cmp NeOp (t1, lim_max t1) (t2, lim_max t2) \<or>
     safe_cmp EqOp (t1, lim_lowest t1) (t2, lim_lowest t2)"

text \<open>The requested type, \<open>None\<close> for \<open>DefaultType\<close>.\<close>

definition type_or :: "cint option \<Rightarrow> cint \<Rightarrow> cint option" where
  "type_or a b =
     (let t = (case a of None \<Rightarrow> b | Some a \<Rightarrow> a) in
      if safe_cmp LeOp (t, lim_lowest t) (b, lim_lowest b) \<and> safe_cmp GeOp (t, lim_max t) (b, lim_max b)
      then Some t else None)"

definition safe_min :: "cint option \<Rightarrow> cint \<times> int \<Rightarrow> cint \<times> int \<Rightarrow> (cint \<times> int) option" where
  "safe_min r a b =
     (if mtype_assert (fst a) (fst b) then do {
        r2 <- type_or r (mtype_min (fst a) (fst b));
        Some (r2, if safe_cmp LtOp a b then cast r2 (snd a) else cast r2 (snd b))
      } else None)"

definition safe_max :: "cint option \<Rightarrow> cint \<times> int \<Rightarrow> cint \<times> int \<Rightarrow> (cint \<times> int) option" where
  "safe_max r a b =
     (if mtype_assert (fst a) (fst b) then do {
        r2 <- type_or r (mtype_max (fst a) (fst b));
        Some (r2, if safe_cmp GtOp a b then cast r2 (snd a) else cast r2 (snd b))
      } else None)"

definition clamp_r_min :: "cint \<Rightarrow> cint \<Rightarrow> cint \<Rightarrow> (cint \<times> int) option" where
  "clamp_r_min t l h = do {
     m <- safe_min None (h, lim_lowest h) (t, lim_lowest t);
     safe_max None (l, lim_lowest l) m
   }"

definition clamp_r_max :: "cint \<Rightarrow> cint \<Rightarrow> cint \<Rightarrow> (cint \<times> int) option" where
  "clamp_r_max t l h = do {
     m <- safe_max None (l, lim_max l) (t, lim_max t);
     safe_min None (h, lim_max h) m
   }"

definition acceptable_type :: "cint \<Rightarrow> cint \<Rightarrow> cint \<Rightarrow> cint \<times> int \<Rightarrow> cint \<times> int \<Rightarrow> cint \<Rightarrow> bool" where
  "acceptable_type t l h r_min r_max a \<longleftrightarrow>
     (sizeof a \<le> sizeof l \<or> sizeof a \<le> sizeof h \<or> sizeof a \<le> sizeof t) \<and>
     safe_cmp LeOp (a, lim_lowest a) r_min \<and> safe_cmp LeOp r_max (a, lim_max a)"

definition clamp_type :: "cint \<Rightarrow> cint \<Rightarrow> cint \<Rightarrow> cint option" where
  "clamp_type t l h = do {
     r_min <- clamp_r_min t l h;
     r_max <- clamp_r_max t l h;
     let acc = acceptable_type t l h r_min r_max;
     let best_signed = (if acc I8 then I8 else if acc I16 then I16 else if acc I32 then I32 else I64);
     let best_unsigned = (if acc U8 then U8 else if acc U16 then U16 else if acc U32 then U32 else U64);
     let r = (if is_signed t then (if acc best_signed then best_signed else best_unsigned)
              else (if acc best_unsigned then best_unsigned else best_signed));
     (if acc r then Some r else None)
   }"

definition safe_clamp :: "cint option \<Rightarrow> cint \<times> int \<Rightarrow> cint \<times> int \<Rightarrow> cint \<times> int \<Rightarrow> (cint \<times> int) option" where
  "safe_clamp r x lo hi = do {
     t <- clamp_type (fst x) (fst lo) (fst hi);
     r2 <- type_or r t;
     Some (r2, if safe_cmp LeOp x lo then cast r2 (snd lo)
               else if safe_cmp GeOp x hi then cast r2 (snd hi) else cast r2 (snd x))
   }"

section \<open>Comparison is mathematical\<close>

lemma cast_in_range [simp]: "in_range t v \<Longrightarrow> cast t v = v"
proof -
  assume "in_range t v"
  then have "0 \<le> v - lim_lowest t" "v - lim_lowest t < 2 ^ (sizeof t * 8)"
    by (cases t; simp add: in_range_def lim_lowest_def lim_max_def)+
  then show ?thesis by (simp add: cast_def)
qed

lemma in_range_mono:
  "in_range t v \<Longrightarrow> lim_lowest t' \<le> lim_lowest t \<Longrightarrow> lim_max t \<le> lim_max t' \<Longrightarrow> in_range t' v"
  by (simp add: in_range_def)

lemma promote_in_range: "in_range t v \<Longrightarrow> in_range (promote t) v"
  by (cases t) (simp_all add: promote_def in_range_def lim_lowest_def lim_max_def)

lemma common_type_same_sign:
  assumes "is_signed t1 = is_signed t2" "4 \<le> sizeof t1" "4 \<le> sizeof t2" "in_range t1 a" "in_range t2 b"
  shows "in_range (common_type t1 t2) a \<and> in_range (common_type t1 t2) b"
  using assms
  by (cases t1; cases t2; simp add: common_type_def promote_def in_range_def lim_lowest_def lim_max_def)

lemma op_op_same_sign:
  assumes "is_signed t1 = is_signed t2" "4 \<le> sizeof t1" "4 \<le> sizeof t2" "in_range t1 a" "in_range t2 b"
  shows "op_op oper t1 a t2 b = rel oper a b"
  using common_type_same_sign [OF assms] by (simp add: op_op_def)

lemma rel_sign: "a < 0 \<Longrightarrow> 0 \<le> b \<Longrightarrow> rel oper (- 1) 0 = rel oper a b"
  "a < 0 \<Longrightarrow> 0 \<le> b \<Longrightarrow> rel oper 0 (- 1) = rel oper b a"
  by (cases oper; simp)+

lemma larger_int_props:
  assumes "\<not> is_signed t" "4 \<le> sizeof t"
  shows "larger_int t t' = Some s \<Longrightarrow> is_signed s \<and> 4 \<le> sizeof s \<and> (in_range t v \<longrightarrow> in_range s v)"
  using assms by (cases t) (auto simp: larger_int_def in_range_def lim_lowest_def lim_max_def split: if_splits)

lemma unsigned_of_props:
  assumes "is_signed t" "4 \<le> sizeof t"
  shows "\<not> is_signed (unsigned_of t)" "4 \<le> sizeof (unsigned_of t)"
    "in_range t v \<Longrightarrow> 0 \<le> v \<Longrightarrow> in_range (unsigned_of t) v"
  using assms by (cases t; simp add: in_range_def lim_lowest_def lim_max_def)+

lemma op_op_minus_1: "op_op oper I32 (- 1) I32 0 = rel oper (- 1) 0" "op_op oper I32 0 I32 (- 1) = rel oper 0 (- 1)"
  by (simp_all add: op_op_same_sign in_range_def lim_lowest_def lim_max_def)

lemma unsigned_nonneg: "\<not> is_signed t \<Longrightarrow> in_range t v \<Longrightarrow> 0 \<le> v"
  by (simp add: in_range_def lim_lowest_def)

lemma safe_cmp_impl_correct:
  assumes "4 \<le> sizeof t1" "4 \<le> sizeof t2" and r: "in_range t1 a" "in_range t2 b"
  shows "safe_cmp_impl oper t1 a t2 b = rel oper a b"
proof (cases "is_signed t1 = is_signed t2")
  case True
  then show ?thesis using assms by (simp add: safe_cmp_impl_def op_op_same_sign)
next
  case False
  show ?thesis
  proof (cases "is_signed t1")
    case s1: True
    with False have u2: "\<not> is_signed t2" by simp
    show ?thesis
    proof (cases "larger_int t2 t1")
      case (Some s)
      then show ?thesis
        using s1 u2 larger_int_props [OF u2 assms(2) Some, of b] assms by (simp add: safe_cmp_impl_def op_op_same_sign)
    next
      case None
      show ?thesis
      proof (cases "a < 0")
        case True
        then show ?thesis
          using None s1 u2 unsigned_nonneg [OF u2 r(2)] by (simp add: safe_cmp_impl_def op_op_minus_1 rel_sign)
      next
        case False
        then show ?thesis
          using None s1 u2 unsigned_of_props [OF s1 assms(1)] assms
          by (simp add: safe_cmp_impl_def make_unsigned_def op_op_same_sign)
      qed
    qed
  next
    case u1: False
    with False have s2: "is_signed t2" by simp
    show ?thesis
    proof (cases "larger_int t1 t2")
      case (Some s)
      then show ?thesis
        using s2 u1 larger_int_props [OF u1 assms(1) Some, of a] assms by (simp add: safe_cmp_impl_def op_op_same_sign)
    next
      case None
      show ?thesis
      proof (cases "b < 0")
        case True
        then show ?thesis
          using None s2 u1 unsigned_nonneg [OF u1 r(1)] by (simp add: safe_cmp_impl_def op_op_minus_1 rel_sign)
      next
        case False
        then show ?thesis
          using None s2 u1 unsigned_of_props [OF s2 assms(2)] assms
          by (simp add: safe_cmp_impl_def make_unsigned_def op_op_same_sign)
      qed
    qed
  qed
qed

lemma sizeof_promote: "4 \<le> sizeof (promote t)"
  by (cases t) (simp_all add: promote_def)

lemma safe_cmp_correct:
  "in_range (fst x) (snd x) \<Longrightarrow> in_range (fst y) (snd y) \<Longrightarrow> safe_cmp oper x y = rel oper (snd x) (snd y)"
  by (simp add: safe_cmp_def safe_cmp_impl_correct sizeof_promote promote_in_range)

section \<open>Range checks\<close>

lemmas lim_defs = lim_lowest_def lim_max_def

lemma range_check_correct:
  assumes "in_range src v"
  shows "range_check dst src v =
    (if v < lim_lowest dst then TYPE_UNDERFLOW else if lim_max dst < v then TYPE_OVERFLOW else TYPE_VALID)"
  using assms
  by (cases dst; cases src;
      simp add: range_check_def static_range_check_def numeric_range_check_result_def in_range_def lim_defs cast_def;
      linarith?)

section \<open>Minimum, maximum and clamping\<close>

lemma limits_in_range [simp]: "in_range t (lim_lowest t)" "in_range t (lim_max t)"
  by (cases t; simp add: in_range_def lim_defs)+

lemma mtype_min_correct:
  "lim_lowest (mtype_min t1 t2) = min (lim_lowest t1) (lim_lowest t2) \<and>
   min (lim_max t1) (lim_max t2) \<le> lim_max (mtype_min t1 t2) \<and> (mtype_min t1 t2 = t1 \<or> mtype_min t1 t2 = t2)"
  by (simp add: mtype_min_def safe_cmp_correct)

lemma mtype_max_correct:
  "lim_max (mtype_max t1 t2) = max (lim_max t1) (lim_max t2) \<and> (mtype_max t1 t2 = t1 \<or> mtype_max t1 t2 = t2)"
  by (auto simp: mtype_max_def safe_cmp_correct)

lemma mtype_assert_holds: "mtype_assert t1 t2"
  by (cases t1; cases t2; simp add: mtype_assert_def safe_cmp_correct; simp add: lim_defs)

lemma type_or_cases:
  "type_or None b = Some b"
  "type_or (Some a) b = (if lim_lowest a \<le> lim_lowest b \<and> lim_max b \<le> lim_max a then Some a else None)"
  by (simp_all add: type_or_def safe_cmp_correct)

lemma type_or_in_range: "type_or r b = Some t \<Longrightarrow> in_range b v \<Longrightarrow> in_range t v"
  by (cases r) (auto simp: type_or_cases in_range_def split: if_splits)

lemma safe_min_correct:
  assumes "in_range (fst a) (snd a)" "in_range (fst b) (snd b)" "type_or r (mtype_min (fst a) (fst b)) = Some t"
  shows "safe_min r a b = Some (t, min (snd a) (snd b)) \<and> in_range t (min (snd a) (snd b))"
proof -
  have "in_range (mtype_min (fst a) (fst b)) (min (snd a) (snd b))"
    using assms(1,2) mtype_min_correct [of "fst a" "fst b"] by (auto simp: in_range_def min_def split: if_splits)
  from type_or_in_range [OF assms(3) this] show ?thesis
    using assms by (cases "snd a < snd b") (simp_all add: safe_min_def mtype_assert_holds safe_cmp_correct min_absorb1 min_absorb2)
qed

lemma safe_max_correct:
  assumes "in_range (fst a) (snd a)" "in_range (fst b) (snd b)" "type_or r (mtype_max (fst a) (fst b)) = Some t"
  shows "safe_max r a b = Some (t, max (snd a) (snd b)) \<and> in_range t (max (snd a) (snd b))"
proof -
  have "in_range (mtype_max (fst a) (fst b)) (max (snd a) (snd b))"
    using assms(1,2) mtype_max_correct [of "fst a" "fst b"]
    by (auto simp: in_range_def max_def split: if_splits)
  from type_or_in_range [OF assms(3) this] show ?thesis
    using assms by (cases "snd b < snd a") (simp_all add: safe_max_def mtype_assert_holds safe_cmp_correct max_absorb1 max_absorb2)
qed

lemma safe_min_type_or:
  assumes "in_range t1 a" "in_range t2 b"
  shows "safe_min r (t1, a) (t2, b) = map_option (\<lambda>t. (t, min a b)) (type_or r (mtype_min t1 t2))"
  using safe_min_correct [of "(t1, a)" "(t2, b)" r] assms
  by (cases "type_or r (mtype_min t1 t2)") (simp_all add: safe_min_def mtype_assert_holds)

lemma safe_max_type_or:
  assumes "in_range t1 a" "in_range t2 b"
  shows "safe_max r (t1, a) (t2, b) = map_option (\<lambda>t. (t, max a b)) (type_or r (mtype_max t1 t2))"
  using safe_max_correct [of "(t1, a)" "(t2, b)" r] assms
  by (cases "type_or r (mtype_max t1 t2)") (simp_all add: safe_max_def mtype_assert_holds)

lemma clamp_bounds:
  obtains t1 t2 where
    "clamp_r_min t l h = Some (t1, max (lim_lowest l) (min (lim_lowest h) (lim_lowest t)))"
    "in_range t1 (max (lim_lowest l) (min (lim_lowest h) (lim_lowest t)))"
    "clamp_r_max t l h = Some (t2, min (lim_max h) (max (lim_max l) (lim_max t)))"
    "in_range t2 (min (lim_max h) (max (lim_max l) (lim_max t)))"
proof -
  note a = safe_min_correct [of "(h, lim_lowest h)" "(t, lim_lowest t)" None "mtype_min h t", simplified type_or_cases, simplified]
  note b = safe_max_correct [of "(l, lim_lowest l)" "(mtype_min h t, min (lim_lowest h) (lim_lowest t))" None,
      simplified type_or_cases, simplified]
  note c = safe_max_correct [of "(l, lim_max l)" "(t, lim_max t)" None "mtype_max l t", simplified type_or_cases, simplified]
  note d = safe_min_correct [of "(h, lim_max h)" "(mtype_max l t, max (lim_max l) (lim_max t))" None,
      simplified type_or_cases, simplified]
  show ?thesis
    using a b c d by (intro that) (auto simp: clamp_r_min_def clamp_r_max_def)
qed

text \<open>The acceptable types, with the comparisons resolved.\<close>

definition clamp_acc :: "cint \<Rightarrow> cint \<Rightarrow> cint \<Rightarrow> cint \<Rightarrow> bool" where
  "clamp_acc t l h a \<longleftrightarrow>
     (sizeof a \<le> sizeof l \<or> sizeof a \<le> sizeof h \<or> sizeof a \<le> sizeof t) \<and>
     lim_lowest a \<le> max (lim_lowest l) (min (lim_lowest h) (lim_lowest t)) \<and>
     min (lim_max h) (max (lim_max l) (lim_max t)) \<le> lim_max a"

text \<open>
  Two candidates are always enough: a signed and an unsigned type as large as the largest of the
  three arguments; one of them can hold the results.
\<close>

lemma lim_table:
  "lim_lowest I8 = - 128" "lim_lowest I16 = - 32768" "lim_lowest I32 = - 2147483648"
  "lim_lowest I64 = - 9223372036854775808"
  "lim_lowest U8 = 0" "lim_lowest U16 = 0" "lim_lowest U32 = 0" "lim_lowest U64 = 0"
  "lim_max I8 = 127" "lim_max I16 = 32767" "lim_max I32 = 2147483647" "lim_max I64 = 9223372036854775807"
  "lim_max U8 = 255" "lim_max U16 = 65535" "lim_max U32 = 4294967295" "lim_max U64 = 18446744073709551615"
  by (simp_all add: lim_defs)

lemma clamp_acc_exists:
  "clamp_acc t l h I8 \<or> clamp_acc t l h I16 \<or> clamp_acc t l h I32 \<or> clamp_acc t l h I64 \<or>
   clamp_acc t l h U8 \<or> clamp_acc t l h U16 \<or> clamp_acc t l h U32 \<or> clamp_acc t l h U64"
  by (cases t; cases l; cases h; simp add: clamp_acc_def lim_table)

lemma clamp_type_acc: "\<exists>r. clamp_type t l h = Some r \<and> clamp_acc t l h r"
proof -
  obtain t1 t2 where b: "clamp_r_min t l h = Some (t1, max (lim_lowest l) (min (lim_lowest h) (lim_lowest t)))"
    "in_range t1 (max (lim_lowest l) (min (lim_lowest h) (lim_lowest t)))"
    "clamp_r_max t l h = Some (t2, min (lim_max h) (max (lim_max l) (lim_max t)))"
    "in_range t2 (min (lim_max h) (max (lim_max l) (lim_max t)))"
    using clamp_bounds .
  then have "acceptable_type t l h (t1, max (lim_lowest l) (min (lim_lowest h) (lim_lowest t)))
      (t2, min (lim_max h) (max (lim_max l) (lim_max t))) = clamp_acc t l h"
    by (intro ext) (simp add: acceptable_type_def clamp_acc_def safe_cmp_correct)
  then show ?thesis
    using b(1,3) clamp_acc_exists [of t l h] by (simp add: clamp_type_def Let_def) blast
qed

lemma clamp_acc_in_range:
  assumes "clamp_acc t l h r" and "in_range t x" "in_range l lo" "in_range h hi" and "lo \<le> hi"
  shows "in_range r (max lo (min x hi))"
  using assms by (auto simp: clamp_acc_def in_range_def min_def max_def split: if_splits)

section \<open>Properties\<close>

text \<open>
  C7. The six comparison functions compare the mathematical values of their arguments, for every
  pair of integer types, although the built-in operators they end in convert their operands.
\<close>

theorem safe_compare_mathematical:
  assumes "in_range t1 a" and "in_range t2 b"
  shows "safe_cmp oper (t1, a) (t2, b) = rel oper a b"
  using assms by (simp add: safe_cmp_correct)

theorem safe_compare_mathematical_witness:
  "safe_cmp LtOp (I8, - 1) (U64, 0) \<and> \<not> op_op LtOp I8 (- 1) U64 0"
  using safe_compare_mathematical [of I8 "- 1" U64 0 LtOp]
  by (simp add: in_range_def lim_table op_op_def common_type_def promote_def cast_def lim_table)

text \<open>
  \<open>range_check\<close> classifies a value exactly, \<open>is_value_in_range_for_numeric_type\<close> holds exactly
  of the representable values, and \<open>saturated_cast\<close> returns the representable value nearest to the
  argument, for every pair of integer types.
\<close>

theorem saturated_cast_correct:
  assumes "in_range src v"
  shows "range_check dst src v =
      (if v < lim_lowest dst then TYPE_UNDERFLOW else if lim_max dst < v then TYPE_OVERFLOW else TYPE_VALID) \<and>
    (is_value_in_range_for_numeric_type dst src v \<longleftrightarrow> in_range dst v) \<and>
    saturated_cast dst src v = max (lim_lowest dst) (min v (lim_max dst)) \<and>
    in_range dst (saturated_cast dst src v)"
proof -
  have "lim_lowest dst \<le> lim_max dst" by (cases dst) (simp_all add: lim_table)
  then show ?thesis
    by (auto simp: range_check_correct [OF assms] is_value_in_range_for_numeric_type_def saturated_cast_def in_range_def
        not_less)
qed

theorem saturated_cast_correct_witness:
  "saturated_cast U8 I32 300 = 255 \<and> saturated_cast U8 I32 (- 5) = 0"
  using saturated_cast_correct [of I32 300 U8] saturated_cast_correct [of I32 "- 5" U8]
  by (simp add: in_range_def lim_table)

text \<open>Without its check \<open>checked_cast\<close> changes values that do not fit.\<close>

lemma checked_cast_unchecked: "in_range I32 300 \<and> \<not> in_range U8 300 \<and> checked_cast U8 I32 300 = 44"
  by (simp add: in_range_def lim_table checked_cast_def cast_def)

text \<open>
  \<open>SafeMin\<close> and \<open>SafeMax\<close> return the smaller and the larger argument without truncation: the
  default result type can always hold it, and a requested type is accepted exactly when its range
  contains that of the default type.
\<close>

theorem safe_min_max_correct:
  assumes "in_range t1 a" and "in_range t2 b"
  shows "safe_min None (t1, a) (t2, b) = Some (mtype_min t1 t2, min a b) \<and>
    safe_max None (t1, a) (t2, b) = Some (mtype_max t1 t2, max a b) \<and>
    safe_min (Some r) (t1, a) (t2, b) =
      (if lim_lowest r \<le> lim_lowest (mtype_min t1 t2) \<and> lim_max (mtype_min t1 t2) \<le> lim_max r
       then Some (r, min a b) else None) \<and>
    safe_max (Some r) (t1, a) (t2, b) =
      (if lim_lowest r \<le> lim_lowest (mtype_max t1 t2) \<and> lim_max (mtype_max t1 t2) \<le> lim_max r
       then Some (r, max a b) else None)"
  using assms by (simp add: safe_min_type_or safe_max_type_or type_or_cases)

theorem safe_min_max_correct_witness:
  "safe_min None (U32, 7) (I16, - 3) = Some (mtype_min U32 I16, - 3)"
  using safe_min_max_correct [of U32 7 I16 "- 3"] by (simp add: in_range_def lim_table)

text \<open>
  C8. \<open>SafeClamp\<close> always finds a result type, no larger than the largest argument type, and returns
  the value of \<open>[lo, hi]\<close> nearest to \<open>x\<close> without truncation.
\<close>

theorem safe_clamp_correct:
  assumes "in_range t x" "in_range l lo" "in_range h hi" and "lo \<le> hi"
  shows "\<exists>r. safe_clamp None (t, x) (l, lo) (h, hi) = Some (r, max lo (min x hi)) \<and>
    in_range r (max lo (min x hi)) \<and> sizeof r \<le> max (sizeof t) (max (sizeof l) (sizeof h))"
proof -
  obtain r where r: "clamp_type t l h = Some r" "clamp_acc t l h r" using clamp_type_acc by blast
  note rng = clamp_acc_in_range [OF r(2) assms]
  have "(if x \<le> lo then cast r lo else if hi \<le> x then cast r hi else cast r x) = cast r (max lo (min x hi))"
    using assms(4) by (simp add: min_def max_def)
  then show ?thesis
    using r rng assms by (auto simp: safe_clamp_def type_or_cases safe_cmp_correct clamp_acc_def)
qed

theorem safe_clamp_correct_witness:
  "\<exists>r. safe_clamp None (I64, - 5) (U8, 3) (U32, 1000) = Some (r, 3) \<and> sizeof r \<le> 8"
  using safe_clamp_correct [of I64 "- 5" U8 3 U32 1000] by (auto simp: in_range_def lim_table)

end
