(* ===== verification/OptionalT.thy ===== *)
theory OptionalT
  imports Prelude
begin

text \<open>
  \<open>src/optional.h\<close>: \<open>Optional<T>\<close> with the manual lifetime management of its union.  The slot is
  \<open>Live\<close> while a \<open>T\<close> object exists in it.  An operation is \<open>None\<close> when it violates lifetimes:
  constructing over a live object (which would leak it), destroying, reading or assigning where
  there is none, or touching memory that is poisoned for the sanitizers.  \<open>moved\<close> gives the state
  an object is left in when it has been moved from.
\<close>

datatype 'a slot = Dead | Live 'a

record 'a optional =
  has_value :: bool
  opt_slot :: "'a slot"
  opt_poisoned :: bool

section \<open>The union\<close>

definition poison_value :: "'a optional \<Rightarrow> 'a optional" where
  "poison_value m = m\<lparr>opt_poisoned := True\<rparr>"

definition unpoison_value :: "'a optional \<Rightarrow> 'a optional" where
  "unpoison_value m = m\<lparr>opt_poisoned := False\<rparr>"

definition slot_construct :: "'a optional \<Rightarrow> 'a \<Rightarrow> 'a optional option" where
  "slot_construct m v =
     (if opt_poisoned m then None
      else case opt_slot m of Dead \<Rightarrow> Some (m\<lparr>opt_slot := Live v\<rparr>) | Live _ \<Rightarrow> None)"

definition slot_destroy :: "'a optional \<Rightarrow> 'a optional option" where
  "slot_destroy m =
     (if opt_poisoned m then None
      else case opt_slot m of Dead \<Rightarrow> None | Live _ \<Rightarrow> Some (m\<lparr>opt_slot := Dead\<rparr>))"

definition slot_read :: "'a optional \<Rightarrow> 'a option" where
  "slot_read m = (if opt_poisoned m then None else case opt_slot m of Dead \<Rightarrow> None | Live v \<Rightarrow> Some v)"

definition slot_assign :: "'a optional \<Rightarrow> 'a \<Rightarrow> 'a optional option" where
  "slot_assign m v =
     (if opt_poisoned m then None
      else case opt_slot m of Dead \<Rightarrow> None | Live _ \<Rightarrow> Some (m\<lparr>opt_slot := Live v\<rparr>))"

section \<open>Construction and destruction\<close>

definition raw_optional :: "bool \<Rightarrow> 'a optional" where
  "raw_optional hv = \<lparr>has_value = hv, opt_slot = Dead, opt_poisoned = False\<rparr>"

definition optional_new :: "'a optional" where
  "optional_new = poison_value (raw_optional False)"

definition optional_of :: "'a \<Rightarrow> 'a optional option" where
  "optional_of v = slot_construct (raw_optional True) v"

definition optional_copy :: "'a optional \<Rightarrow> 'a optional option" where
  "optional_copy m =
     (if has_value m then do { v <- slot_read m; slot_construct (raw_optional True) v }
      else Some (poison_value (raw_optional False)))"

text \<open>Moves return the new object and the source.\<close>

definition optional_move :: "('a \<Rightarrow> 'a) \<Rightarrow> 'a optional \<Rightarrow> ('a optional \<times> 'a optional) option" where
  "optional_move moved m =
     (if has_value m then do {
        v <- slot_read m;
        m' <- slot_construct (raw_optional True) v;
        m <- slot_assign m (moved v);
        Some (m', m)
      } else Some (poison_value (raw_optional False), m))"

definition optional_destroy :: "'a optional \<Rightarrow> 'a optional option" where
  "optional_destroy m = (if has_value m then slot_destroy m else Some (unpoison_value m))"

section \<open>Modification\<close>

definition optional_reset :: "'a optional \<Rightarrow> 'a optional option" where
  "optional_reset m =
     (if \<not> has_value m then Some m
      else do { m <- slot_destroy m; Some (poison_value (m\<lparr>has_value := False\<rparr>)) })"

definition optional_assign_nullopt :: "'a optional \<Rightarrow> 'a optional option" where
  "optional_assign_nullopt m = optional_reset m"

definition optional_assign :: "'a optional \<Rightarrow> 'a optional \<Rightarrow> 'a optional option" where
  "optional_assign this m =
     (if has_value m then do {
        v <- slot_read m;
        (if has_value this then slot_assign this v
         else do {
           this <- slot_construct (unpoison_value this) v;
           Some (this\<lparr>has_value := True\<rparr>)
         })
      } else optional_reset this)"

definition optional_move_assign ::
  "('a \<Rightarrow> 'a) \<Rightarrow> 'a optional \<Rightarrow> 'a optional \<Rightarrow> ('a optional \<times> 'a optional) option" where
  "optional_move_assign moved this m =
     (if has_value m then do {
        v <- slot_read m;
        this <- (if has_value this then slot_assign this v
          else do {
            this <- slot_construct (unpoison_value this) v;
            Some (this\<lparr>has_value := True\<rparr>)
          });
        m <- slot_assign m (moved v);
        Some (this, m)
      } else do { this <- optional_reset this; Some (this, m) })"

text \<open>The moved-from object of \<open>swap\<close> is destroyed at once, so its state does not matter.\<close>

definition optional_swap :: "('a \<Rightarrow> 'a) \<Rightarrow> 'a optional \<Rightarrow> 'a optional \<Rightarrow> ('a optional \<times> 'a optional) option" where
  "optional_swap moved m1 m2 =
     (if has_value m1 then
        (if has_value m2 then do {
           v1 <- slot_read m1;
           v2 <- slot_read m2;
           m1 <- slot_assign m1 v2;
           m2 <- slot_assign m2 v1;
           Some (m1, m2)
         } else do {
           let m2 = unpoison_value m2;
           v1 <- slot_read m1;
           m2 <- slot_construct m2 v1;
           m1 <- slot_assign m1 (moved v1);
           m1 <- slot_destroy m1;
           Some (poison_value (m1\<lparr>has_value := False\<rparr>), m2\<lparr>has_value := True\<rparr>)
         })
      else if has_value m2 then do {
        let m1 = unpoison_value m1;
        v2 <- slot_read m2;
        m1 <- slot_construct m1 v2;
        m2 <- slot_assign m2 (moved v2);
        m2 <- slot_destroy m2;
        Some (m1\<lparr>has_value := True\<rparr>, poison_value (m2\<lparr>has_value := False\<rparr>))
      } else Some (m1, m2))"

definition optional_emplace :: "'a optional \<Rightarrow> 'a \<Rightarrow> 'a optional option" where
  "optional_emplace m v = do {
     m <- (if has_value m then slot_destroy m else Some (unpoison_value m));
     m <- slot_construct m v;
     Some (m\<lparr>has_value := True\<rparr>)
   }"

section \<open>Access\<close>

text \<open>\<open>operator->\<close> gives a null pointer without a value; \<open>operator*\<close> and \<open>value\<close> do not check.\<close>

definition optional_arrow :: "'a optional \<Rightarrow> 'a option option" where
  "optional_arrow m = (if \<not> has_value m then Some None else map_option Some (slot_read m))"

definition optional_deref :: "'a optional \<Rightarrow> 'a option" where
  "optional_deref m = slot_read m"

definition optional_value_or :: "'a optional \<Rightarrow> 'a \<Rightarrow> 'a option" where
  "optional_value_or m default_val = (if has_value m then slot_read m else Some default_val)"

definition optional_move_value :: "('a \<Rightarrow> 'a) \<Rightarrow> 'a optional \<Rightarrow> ('a \<times> 'a optional) option" where
  "optional_move_value moved m = do {
     v <- slot_read m;
     m <- slot_assign m (moved v);
     Some (v, m)
   }"

definition optional_eq :: "'a optional \<Rightarrow> 'a optional \<Rightarrow> bool option" where
  "optional_eq m1 m2 =
     (if has_value m1 \<and> has_value m2 then do { a <- slot_read m1; b <- slot_read m2; Some (a = b) }
      else Some (has_value m1 = has_value m2))"

definition optional_eq_value :: "'a optional \<Rightarrow> 'a \<Rightarrow> bool option" where
  "optional_eq_value m v = (if has_value m then map_option (\<lambda>a. a = v) (slot_read m) else Some False)"

definition optional_eq_nullopt :: "'a optional \<Rightarrow> bool" where
  "optional_eq_nullopt m \<longleftrightarrow> \<not> has_value m"

definition optional_neq :: "'a optional \<Rightarrow> 'a optional \<Rightarrow> bool option" where
  "optional_neq m1 m2 =
     (if has_value m1 \<and> has_value m2 then do { a <- slot_read m1; b <- slot_read m2; Some (a \<noteq> b) }
      else Some (has_value m1 \<noteq> has_value m2))"

definition optional_neq_value :: "'a optional \<Rightarrow> 'a \<Rightarrow> bool option" where
  "optional_neq_value m v = (if \<not> has_value m then Some True else map_option (\<lambda>a. a \<noteq> v) (slot_read m))"

definition optional_neq_nullopt :: "'a optional \<Rightarrow> bool" where
  "optional_neq_nullopt m \<longleftrightarrow> has_value m"

section \<open>Refinement to the option type\<close>

text \<open>The slot is live exactly when there is a value, and poisoned exactly when there is none.\<close>

definition optional_inv :: "'a optional \<Rightarrow> bool" where
  "optional_inv m \<longleftrightarrow> (has_value m \<longleftrightarrow> opt_slot m \<noteq> Dead) \<and> (opt_poisoned m \<longleftrightarrow> \<not> has_value m)"

definition optional_abs :: "'a optional \<Rightarrow> 'a option" where
  "optional_abs m = (case opt_slot m of Dead \<Rightarrow> None | Live v \<Rightarrow> Some v)"

text \<open>An operation implements an option: it violates no lifetime and keeps the invariant.\<close>

definition yields :: "'a optional option \<Rightarrow> 'a option \<Rightarrow> bool" where
  "yields r x \<longleftrightarrow> (\<exists>m. r = Some m \<and> optional_inv m \<and> optional_abs m = x)"

lemmas optional_defs = optional_inv_def optional_abs_def yields_def slot_construct_def slot_destroy_def
  slot_read_def slot_assign_def poison_value_def unpoison_value_def raw_optional_def

lemma slot_exhaust_inv:
  assumes "optional_inv m"
  obtains "m = \<lparr>has_value = False, opt_slot = Dead, opt_poisoned = True\<rparr>" "optional_abs m = None"
  | v where "m = \<lparr>has_value = True, opt_slot = Live v, opt_poisoned = False\<rparr>" "optional_abs m = Some v"
  using assms that by (cases m; cases "opt_slot m") (auto simp: optional_inv_def optional_abs_def)

lemma has_value_iff: "optional_inv m \<Longrightarrow> has_value m \<longleftrightarrow> optional_abs m \<noteq> None"
  by (auto simp: optional_inv_def optional_abs_def split: slot.splits)

section \<open>Properties\<close>

text \<open>
  C12. Every constructor, assignment, \<open>reset\<close> and \<open>emplace\<close> of an \<open>Optional\<close> respects object lifetimes
  (nothing is leaked, destroyed twice or read after destruction), keeps the invariant, and has the
  effect of the operation on an option; destruction leaves no live object behind.
\<close>

theorem optional_lifetimes:
  assumes "optional_inv m" and "optional_inv n"
  shows "yields (Some optional_new) None \<and> yields (optional_of v) (Some v) \<and>
    yields (optional_copy m) (optional_abs m) \<and> yields (optional_assign n m) (optional_abs m) \<and>
    yields (optional_reset m) None \<and> yields (optional_emplace m v) (Some v) \<and>
    (\<exists>d. optional_destroy m = Some d \<and> opt_slot d = Dead \<and> \<not> opt_poisoned d) \<and>
    (\<exists>n' m'. optional_move_assign moved n m = Some (n', m') \<and> optional_inv n' \<and> optional_inv m' \<and>
       optional_abs n' = optional_abs m \<and> optional_abs m' = map_option moved (optional_abs m)) \<and>
    (\<exists>n' m'. optional_move moved m = Some (n', m') \<and> optional_inv n' \<and> optional_inv m' \<and>
       optional_abs n' = optional_abs m \<and> optional_abs m' = map_option moved (optional_abs m))"
  using assms(1)
proof (cases rule: slot_exhaust_inv)
  case 1
  note m = this
  show ?thesis
    using assms(2) by (cases rule: slot_exhaust_inv)
      (simp_all add: m optional_defs optional_new_def optional_of_def optional_copy_def optional_assign_def
        optional_reset_def optional_emplace_def optional_destroy_def optional_move_assign_def optional_move_def)
next
  case (2 x)
  note m = this
  show ?thesis
    using assms(2) by (cases rule: slot_exhaust_inv)
      (simp_all add: m optional_defs optional_new_def optional_of_def optional_copy_def optional_assign_def
        optional_reset_def optional_emplace_def optional_destroy_def optional_move_assign_def optional_move_def)
qed

theorem optional_lifetimes_witness:
  "yields (optional_emplace (optional_new :: nat optional) 3) (Some 3)"
proof -
  have "optional_inv (optional_new :: nat optional)"
    by (simp add: optional_inv_def optional_new_def poison_value_def raw_optional_def)
  from optional_lifetimes [OF this this, of 3 id] show ?thesis by blast
qed

text \<open>
  \<open>swap\<close> exchanges the two contents in all four cases, keeps both invariants, and leaves the
  same number of live objects.
\<close>

theorem optional_swap_correct:
  assumes "optional_inv m1" and "optional_inv m2"
  shows "\<exists>m1' m2'. optional_swap moved m1 m2 = Some (m1', m2') \<and> optional_inv m1' \<and> optional_inv m2' \<and>
    optional_abs m1' = optional_abs m2 \<and> optional_abs m2' = optional_abs m1"
  using assms(1)
proof (cases rule: slot_exhaust_inv)
  case 1
  note m = this
  show ?thesis
    using assms(2) by (cases rule: slot_exhaust_inv) (simp_all add: m optional_defs optional_swap_def)
next
  case (2 x)
  note m = this
  show ?thesis
    using assms(2) by (cases rule: slot_exhaust_inv) (simp_all add: m optional_defs optional_swap_def)
qed

theorem optional_swap_correct_witness:
  "\<exists>m1' m2'. optional_swap id (the (optional_of (5 :: nat))) optional_new = Some (m1', m2') \<and>
     optional_abs m1' = None \<and> optional_abs m2' = Some 5"
  using optional_swap_correct [of "the (optional_of (5 :: nat))" optional_new id]
  by (auto simp: optional_defs optional_of_def optional_new_def)

text \<open>
  Observers agree with the option: emptiness, \<open>value_or\<close>, equality and inequality are those of
  the contents and never read a dead slot; \<open>operator*\<close> is defined exactly when there is a value.
\<close>

theorem optional_observers:
  assumes "optional_inv m" and "optional_inv n"
  shows "(has_value m \<longleftrightarrow> optional_abs m \<noteq> None) \<and> optional_deref m = optional_abs m \<and>
    optional_arrow m = Some (optional_abs m) \<and>
    optional_value_or m d = Some (case optional_abs m of None \<Rightarrow> d | Some v \<Rightarrow> v) \<and>
    optional_eq m n = Some (optional_abs m = optional_abs n) \<and>
    optional_neq m n = Some (optional_abs m \<noteq> optional_abs n) \<and>
    optional_eq_value m d = Some (optional_abs m = Some d) \<and>
    optional_neq_value m d = Some (optional_abs m \<noteq> Some d) \<and>
    (optional_eq_nullopt m \<longleftrightarrow> optional_abs m = None) \<and> (optional_neq_nullopt m \<longleftrightarrow> optional_abs m \<noteq> None)"
  using assms(1)
proof (cases rule: slot_exhaust_inv)
  case 1
  note m = this
  show ?thesis
    using assms(2) by (cases rule: slot_exhaust_inv)
      (simp_all add: m optional_defs optional_deref_def optional_arrow_def optional_value_or_def optional_eq_def
        optional_neq_def optional_eq_value_def optional_neq_value_def optional_eq_nullopt_def optional_neq_nullopt_def)
next
  case (2 x)
  note m = this
  show ?thesis
    using assms(2) by (cases rule: slot_exhaust_inv)
      (simp_all add: m optional_defs optional_deref_def optional_arrow_def optional_value_or_def optional_eq_def
        optional_neq_def optional_eq_value_def optional_neq_value_def optional_eq_nullopt_def optional_neq_nullopt_def)
qed

theorem optional_observers_witness:
  "optional_value_or (optional_new :: nat optional) 9 = Some 9"
  using optional_observers [of "optional_new :: nat optional" optional_new 9]
  by (simp add: optional_defs optional_new_def)

end
