(* ===== verification/IPAddress.thy ===== *)
theory IPAddress
  imports ByteOrder
begin

text \<open>
  \<open>src/ipaddress.{h,cpp}\<close>.  An address is its family and the sixteen bytes of the union; the IPv4
  member \<open>s_addr\<close> is the word the host reads from the first four, so every operation that uses it
  takes the byte order \<open>he\<close> of the host.  \<open>inet_ntop\<close> and \<open>inet_pton\<close> are parameters.
\<close>

datatype address_family = AF_UNSPEC | AF_INET | AF_INET6

record ip_address =
  ip_family :: address_family
  ip_u :: "byte list"

section \<open>Construction\<close>

definition ip_nil :: ip_address where
  "ip_nil = \<lparr>ip_family = AF_UNSPEC, ip_u = replicate 16 0\<rparr>"

definition ip_of_in_addr :: "endian \<Rightarrow> u32 \<Rightarrow> ip_address" where
  "ip_of_in_addr he s_addr = \<lparr>ip_family = AF_INET, ip_u = word_to_mem he 4 s_addr @ replicate 12 0\<rparr>"

definition ip_of_in6_addr :: "byte list \<Rightarrow> ip_address" where
  "ip_of_in6_addr ip6 = \<lparr>ip_family = AF_INET6, ip_u = ip6\<rparr>"

definition ip_of_host_order :: "endian \<Rightarrow> u32 \<Rightarrow> ip_address" where
  "ip_of_host_order he ip = ip_of_in_addr he (the (host_to_network32 he ip))"

text \<open>The constants of the categorising prefixes and of \<open>netinet/in.h\<close>.\<close>

definition k_v4_mapped_prefix :: "byte list" where
  "k_v4_mapped_prefix = [0, 0, 0, 0, 0, 0, 0, 0, 0, 0, 0xFF, 0xFF, 0, 0, 0, 0]"
definition k_6to4_prefix :: "byte list" where
  "k_6to4_prefix = [0x20, 0x02, 0, 0, 0, 0, 0, 0, 0, 0, 0, 0, 0, 0, 0, 0]"
definition k_teredo_prefix :: "byte list" where
  "k_teredo_prefix = [0x20, 0x01, 0, 0, 0, 0, 0, 0, 0, 0, 0, 0, 0, 0, 0, 0]"
definition k_v4_compatibility_prefix :: "byte list" where
  "k_v4_compatibility_prefix = replicate 16 0"
definition k_6bone_prefix :: "byte list" where
  "k_6bone_prefix = [0x3f, 0xfe, 0, 0, 0, 0, 0, 0, 0, 0, 0, 0, 0, 0, 0, 0]"
definition INADDR_ANY :: u32 where "INADDR_ANY = 0"
definition INADDR_LOOPBACK :: u32 where "INADDR_LOOPBACK = 0x7f000001"
definition in6addr_any :: "byte list" where "in6addr_any = replicate 16 0"
definition in6addr_loopback :: "byte list" where "in6addr_loopback = replicate 15 0 @ [1]"

section \<open>Access and comparison\<close>

definition ipv4_address :: "endian \<Rightarrow> ip_address \<Rightarrow> u32" where
  "ipv4_address he ip = mem_to_word he (take 4 (ip_u ip))"

definition ipv6_address :: "ip_address \<Rightarrow> byte list" where
  "ipv6_address ip = ip_u ip"

definition ip_size :: "ip_address \<Rightarrow> nat" where
  "ip_size ip = (case ip_family ip of AF_INET \<Rightarrow> 4 | AF_INET6 \<Rightarrow> 16 | AF_UNSPEC \<Rightarrow> 0)"

definition ip_eq :: "ip_address \<Rightarrow> ip_address \<Rightarrow> bool" where
  "ip_eq ip other \<longleftrightarrow>
     (if ip_family ip \<noteq> ip_family other then False
      else if ip_family ip = AF_INET then take 4 (ip_u ip) = take 4 (ip_u other)
      else if ip_family ip = AF_INET6 then take 16 (ip_u ip) = take 16 (ip_u other)
      else ip_family ip = AF_UNSPEC)"

definition ip_neq :: "ip_address \<Rightarrow> ip_address \<Rightarrow> bool" where
  "ip_neq ip other \<longleftrightarrow> \<not> ip_eq ip other"

text \<open>The sign of \<open>memcmp\<close>: the first difference decides, bytes compared as unsigned.\<close>

fun memcmp_less :: "byte list \<Rightarrow> byte list \<Rightarrow> bool" where
  "memcmp_less (a # as) (b # bs) \<longleftrightarrow> (if a = b then memcmp_less as bs else a < b)"
| "memcmp_less _ _ \<longleftrightarrow> False"

definition ip_less :: "endian \<Rightarrow> ip_address \<Rightarrow> ip_address \<Rightarrow> bool" where
  "ip_less he ip other \<longleftrightarrow>
     (if ip_family ip \<noteq> ip_family other then
        (if ip_family ip = AF_UNSPEC then True
         else if ip_family ip = AF_INET \<and> ip_family other = AF_INET6 then True
         else False)
      else case ip_family ip of
        AF_INET \<Rightarrow> the (network_to_host32 he (ipv4_address he ip)) < the (network_to_host32 he (ipv4_address he other))
      | AF_INET6 \<Rightarrow> memcmp_less (take 16 (ip_u ip)) (take 16 (ip_u other))
      | AF_UNSPEC \<Rightarrow> False)"

definition ip_greater :: "endian \<Rightarrow> ip_address \<Rightarrow> ip_address \<Rightarrow> bool" where
  "ip_greater he ip other \<longleftrightarrow> ip_neq ip other \<and> \<not> ip_less he ip other"

definition v4_address_as_host_order_integer :: "endian \<Rightarrow> ip_address \<Rightarrow> u32" where
  "v4_address_as_host_order_integer he ip =
     (if ip_family ip = AF_INET then the (network_to_host32 he (ipv4_address he ip)) else 0)"

section \<open>Text\<close>

text \<open>\<open>inet_ntop\<close> of a family and the raw bytes, \<open>None\<close> on failure.\<close>

definition ip_to_string :: "(address_family \<Rightarrow> byte list \<Rightarrow> byte list option) \<Rightarrow> ip_address \<Rightarrow> byte list" where
  "ip_to_string inet_ntop ip =
     (if ip_family ip \<noteq> AF_INET \<and> ip_family ip \<noteq> AF_INET6 then []
      else
        let src = (if ip_family ip = AF_INET6 then take 16 (ip_u ip) else take 4 (ip_u ip)) in
        case inet_ntop (ip_family ip) src of None \<Rightarrow> [] | Some buf \<Rightarrow> buf)"

text \<open>\<open>inet_pton\<close> gives the raw bytes, \<open>None\<close> for the return value 0.\<close>

definition IP_from_string ::
  "(address_family \<Rightarrow> byte list \<Rightarrow> byte list option) \<Rightarrow> endian \<Rightarrow> byte list \<Rightarrow> bool \<times> ip_address" where
  "IP_from_string inet_pton he str =
     (case inet_pton AF_INET str of
        None \<Rightarrow>
          (case inet_pton AF_INET6 str of
             None \<Rightarrow> (False, ip_nil)
           | Some addr6 \<Rightarrow> (True, ip_of_in6_addr addr6))
      | Some addr \<Rightarrow> (True, ip_of_in_addr he (mem_to_word he addr)))"

section \<open>Classification\<close>

definition IP_is_unspec :: "ip_address \<Rightarrow> bool" where
  "IP_is_unspec ip \<longleftrightarrow> ip_family ip = AF_UNSPEC"

definition ip_is_nil :: "ip_address \<Rightarrow> bool" where
  "ip_is_nil ip \<longleftrightarrow> IP_is_unspec ip"

definition IP_is_any :: "endian \<Rightarrow> ip_address \<Rightarrow> bool" where
  "IP_is_any he ip =
     (case ip_family ip of
        AF_INET \<Rightarrow> ip_eq ip (ip_of_host_order he INADDR_ANY)
      | AF_INET6 \<Rightarrow> ip_eq ip (ip_of_in6_addr in6addr_any) \<or> ip_eq ip (ip_of_in6_addr k_v4_mapped_prefix)
      | AF_UNSPEC \<Rightarrow> False)"

definition IP_is_loopback :: "endian \<Rightarrow> ip_address \<Rightarrow> bool" where
  "IP_is_loopback he ip =
     (case ip_family ip of
        AF_INET \<Rightarrow> ip_eq ip (ip_of_host_order he INADDR_LOOPBACK)
      | AF_INET6 \<Rightarrow> ip_eq ip (ip_of_in6_addr in6addr_loopback)
      | AF_UNSPEC \<Rightarrow> False)"

definition is_private_v4 :: "u32 \<Rightarrow> bool" where
  "is_private_v4 ip \<longleftrightarrow>
     drop_bit 24 ip = 127 \<or> drop_bit 24 ip = 10 \<or> drop_bit 20 ip = (push_bit 4 172 OR 1) \<or>
     drop_bit 16 ip = (push_bit 8 192 OR 168) \<or> drop_bit 16 ip = (push_bit 8 169 OR 254)"

definition IP_is_link_local :: "ip_address \<Rightarrow> bool" where
  "IP_is_link_local ip \<longleftrightarrow> ip_u ip ! 0 = 0xFE \<and> ip_u ip ! 1 = 0x80"

definition IP_is_private :: "endian \<Rightarrow> ip_address \<Rightarrow> bool" where
  "IP_is_private he ip =
     (case ip_family ip of
        AF_INET \<Rightarrow> is_private_v4 (v4_address_as_host_order_integer he ip)
      | AF_INET6 \<Rightarrow> IP_is_link_local ip \<or> IP_is_loopback he ip
      | AF_UNSPEC \<Rightarrow> False)"

definition IP_is_helper :: "ip_address \<Rightarrow> byte list \<Rightarrow> nat \<Rightarrow> bool" where
  "IP_is_helper ip tomatch len \<longleftrightarrow> take (len div 8) (ipv6_address ip) = take (len div 8) tomatch"

definition IP_is_6bone :: "ip_address \<Rightarrow> bool" where
  "IP_is_6bone ip \<longleftrightarrow> IP_is_helper ip k_6bone_prefix 16"
definition IP_is_6to4 :: "ip_address \<Rightarrow> bool" where
  "IP_is_6to4 ip \<longleftrightarrow> IP_is_helper ip k_6to4_prefix 16"
definition IP_is_mac_based :: "ip_address \<Rightarrow> bool" where
  "IP_is_mac_based ip \<longleftrightarrow> ip_u ip ! 8 AND 0x02 \<noteq> 0 \<and> ip_u ip ! 11 = 0xFF \<and> ip_u ip ! 12 = 0xFE"
definition IP_is_site_local :: "ip_address \<Rightarrow> bool" where
  "IP_is_site_local ip \<longleftrightarrow> ip_u ip ! 0 = 0xFE \<and> ip_u ip ! 1 AND 0xC0 = 0xC0"
definition IP_is_ULA :: "ip_address \<Rightarrow> bool" where
  "IP_is_ULA ip \<longleftrightarrow> ip_u ip ! 0 AND 0xFE = 0xFC"
definition IP_is_teredo :: "ip_address \<Rightarrow> bool" where
  "IP_is_teredo ip \<longleftrightarrow> IP_is_helper ip k_teredo_prefix 32"
definition IP_is_v4_compatibility :: "ip_address \<Rightarrow> bool" where
  "IP_is_v4_compatibility ip \<longleftrightarrow> IP_is_helper ip k_v4_compatibility_prefix 96"
definition IP_is_v4_mapped :: "ip_address \<Rightarrow> bool" where
  "IP_is_v4_mapped ip \<longleftrightarrow> IP_is_helper ip k_v4_mapped_prefix 96"

definition IP_address_precedence :: "endian \<Rightarrow> ip_address \<Rightarrow> int" where
  "IP_address_precedence he ip =
     (if ip_family ip = AF_INET then 30
      else if ip_family ip = AF_INET6 then
        (if IP_is_loopback he ip then 60
         else if IP_is_ULA ip then 50
         else if IP_is_v4_mapped ip then 30
         else if IP_is_6to4 ip then 20
         else if IP_is_teredo ip then 10
         else if IP_is_v4_compatibility ip \<or> IP_is_site_local ip \<or> IP_is_6bone ip then 1
         else 40)
      else 0)"

section \<open>Conversion\<close>

definition extract_mapped_address :: "endian \<Rightarrow> byte list \<Rightarrow> u32" where
  "extract_mapped_address he in6 = mem_to_word he (take 4 (drop 12 in6))"

definition normalized :: "endian \<Rightarrow> ip_address \<Rightarrow> ip_address" where
  "normalized he ip =
     (if ip_family ip \<noteq> AF_INET6 then ip
      else if \<not> IP_is_v4_mapped ip then ip
      else ip_of_in_addr he (extract_mapped_address he (ip_u ip)))"

definition as_IPv6_address :: "ip_address \<Rightarrow> ip_address" where
  "as_IPv6_address ip =
     (if ip_family ip \<noteq> AF_INET then ip
      else ip_of_in6_addr (take 12 k_v4_mapped_prefix @ take 4 (ip_u ip)))"

text \<open>\<open>reinterpret_cast<uint32_t*>\<close> of the sixteen bytes.\<close>

definition v6_word :: "endian \<Rightarrow> byte list \<Rightarrow> nat \<Rightarrow> u32" where
  "v6_word he bs i = mem_to_word he (take 4 (drop (4 * i) bs))"

definition truncate_IP :: "endian \<Rightarrow> ip_address \<Rightarrow> int \<Rightarrow> ip_address" where
  "truncate_IP he ip len =
     (if len < 0 then ip_nil
      else if ip_family ip = AF_INET then
        (if len > 31 then ip
         else if len = 0 then ip_of_host_order he INADDR_ANY
         else
           let v4_mask = push_bit (32 - nat len) (0xFFFFFFFF :: u32);
               host_order_ip = the (network_to_host32 he (ipv4_address he ip))
           in ip_of_in_addr he (the (host_to_network32 he (host_order_ip AND v4_mask))))
      else if ip_family ip = AF_INET6 then
        (if len > 127 then ip
         else if len = 0 then ip_of_in6_addr in6addr_any
         else
           let position = nat len div 32;
               inner_length = 32 - (nat len - position * 32);
               inner_mask = ucast (push_bit inner_length (0xFFFFFFFF :: u64)) :: u32;
               v6_as_ints = (\<lambda>i.
                 if i = position
                 then the (host_to_network32 he (the (network_to_host32 he (v6_word he (ip_u ip) i)) AND inner_mask))
                 else if i > position then 0
                 else v6_word he (ip_u ip) i)
           in ip_of_in6_addr (concat (map (\<lambda>i. word_to_mem he 4 (v6_as_ints i)) [0..<4])))
      else ip_nil)"

text \<open>The bit-twiddling count of trailing zeros.\<close>

definition count_trailing_zeroes :: "u32 \<Rightarrow> nat" where
  "count_trailing_zeroes word_to_count =
     (let w = word_to_count AND (NOT word_to_count + 1);
          z = 32;
          z = (if w \<noteq> 0 then z - 1 else z);
          z = (if w AND 0x0000FFFF \<noteq> 0 then z - 16 else z);
          z = (if w AND 0x00FF00FF \<noteq> 0 then z - 8 else z);
          z = (if w AND 0x0F0F0F0F \<noteq> 0 then z - 4 else z);
          z = (if w AND 0x33333333 \<noteq> 0 then z - 2 else z);
          z = (if w AND 0x55555555 \<noteq> 0 then z - 1 else z)
      in z)"

text \<open>The loop over the four words stops at the first that is not all ones.\<close>

fun first_partial_word :: "endian \<Rightarrow> byte list \<Rightarrow> nat \<Rightarrow> nat \<Rightarrow> nat" where
  "first_partial_word he bs i 0 = i"
| "first_partial_word he bs i (Suc n) =
     (if v6_word he bs i \<noteq> 0xFFFFFFFF then i else first_partial_word he bs (Suc i) n)"

definition count_mask_word :: "nat \<Rightarrow> u32 \<Rightarrow> nat" where
  "count_mask_word bits w = (if w = 0 then bits else bits + (32 - count_trailing_zeroes w))"

definition count_IP_mask_bits :: "endian \<Rightarrow> ip_address \<Rightarrow> nat" where
  "count_IP_mask_bits he ip_mask =
     (case ip_family ip_mask of
        AF_INET \<Rightarrow> count_mask_word 0 (the (network_to_host32 he (ipv4_address he ip_mask)))
      | AF_INET6 \<Rightarrow>
          (let i = first_partial_word he (ip_u ip_mask) 0 4;
               w = (if i < 4 then the (network_to_host32 he (v6_word he (ip_u ip_mask) i)) else 0)
           in count_mask_word (i * 32) w)
      | AF_UNSPEC \<Rightarrow> 0)"

section \<open>Interface addresses\<close>

record interface_address = ip_address +
  ipv6_flags :: int

definition IPV6_ADDRESS_FLAG_NONE :: int where "IPV6_ADDRESS_FLAG_NONE = 0"
definition IPV6_ADDRESS_FLAG_TEMPORARY :: int where "IPV6_ADDRESS_FLAG_TEMPORARY = 1"
definition IPV6_ADDRESS_FLAG_DEPRECATED :: int where "IPV6_ADDRESS_FLAG_DEPRECATED = 2"

definition interface_address_of :: "ip_address \<Rightarrow> int \<Rightarrow> interface_address" where
  "interface_address_of ip flags = \<lparr>ip_family = ip_family ip, ip_u = ip_u ip, ipv6_flags = flags\<rparr>"

definition interface_address_ip :: "interface_address \<Rightarrow> ip_address" where
  "interface_address_ip a = \<lparr>ip_family = ip_family a, ip_u = ip_u a\<rparr>"

definition interface_address_eq :: "interface_address \<Rightarrow> interface_address \<Rightarrow> bool" where
  "interface_address_eq a b \<longleftrightarrow>
     ipv6_flags a = ipv6_flags b \<and> ip_eq (interface_address_ip a) (interface_address_ip b)"

section \<open>Validity and bits\<close>

text \<open>The objects the constructors build: sixteen bytes, zero beyond an IPv4 address.\<close>

definition ip_valid :: "ip_address \<Rightarrow> bool" where
  "ip_valid ip \<longleftrightarrow> length (ip_u ip) = 16 \<and>
     (ip_family ip = AF_INET \<longrightarrow> drop 4 (ip_u ip) = replicate 12 0) \<and>
     (ip_family ip = AF_UNSPEC \<longrightarrow> ip_u ip = replicate 16 0)"

text \<open>Bit \<open>i\<close> of a byte string, counted from the most significant bit in network order.\<close>

definition net_bit :: "byte list \<Rightarrow> nat \<Rightarrow> bool" where
  "net_bit bs i = bit (bs ! (i div 8)) (7 - i mod 8)"

definition be_word :: "byte list \<Rightarrow> u32" where
  "be_word bs = word_of_le (rev bs)"

lemma ntoh_mem: "length bs = 4 \<Longrightarrow> the (network_to_host32 he (mem_to_word he bs)) = be_word bs"
  by (simp add: network_to_host32_eq word_to_mem_to_word be_word_def)

lemma mem_hton: "word_to_mem he 4 (the (host_to_network32 he w)) = rev (bytes_le 4 w)"
  by (simp add: host_to_network32_eq word_to_mem_to_word)

lemma be_word_inverse [simp]: "be_word (rev (bytes_le 4 w)) = w"
  by (simp add: be_word_def word_of_bytes_le)

lemma bytes_be_word [simp]: "length bs = 4 \<Longrightarrow> rev (bytes_le 4 (be_word bs)) = bs"
  by (simp add: be_word_def bytes_le_word_of_le)

lemma be_word_inject: "length as = 4 \<Longrightarrow> length bs = 4 \<Longrightarrow> be_word as = be_word bs \<longleftrightarrow> as = bs"
  by (metis bytes_be_word)

lemma bit_be_word:
  assumes "length bs = 4" "i < 32"
  shows "bit (be_word bs) (31 - i) = net_bit bs i"
proof -
  have q: "i div 8 \<le> 3" using assms(2) by simp
  define r where "r = 7 - i mod 8"
  have "31 - i = 8 * (3 - i div 8) + r"
    using q mult_div_mod_eq [of 8 i] mod_less_divisor [of 8 i] unfolding r_def by linarith
  moreover have "r < 8" by (simp add: r_def)
  ultimately have "(31 - i) div 8 = 3 - i div 8" "(31 - i) mod 8 = 7 - i mod 8"
    by (simp_all add: r_def [symmetric])
  moreover have "rev bs ! (3 - i div 8) = bs ! (i div 8)"
    using rev_nth [of "3 - i div 8" bs] assms q by simp
  moreover have "31 - i < 32" by linarith
  ultimately show ?thesis
    using assms(1) by (simp add: be_word_def bit_word_of_le net_bit_def)
qed

lemma net_bit_bytes: "i < 32 \<Longrightarrow> net_bit (rev (bytes_le 4 w)) i = bit (w :: u32) (31 - i)"
  using bit_be_word [of "rev (bytes_le 4 w)" i] by simp

lemma valid_lengths [simp]: "ip_valid ip \<Longrightarrow> length (ip_u ip) = 16"
  by (simp add: ip_valid_def)

lemma valid_constructors:
  "ip_valid ip_nil" "ip_valid (ip_of_in_addr he w)" "length bs = 16 \<Longrightarrow> ip_valid (ip_of_in6_addr bs)"
  "ip_valid (ip_of_host_order he w)"
  by (simp_all add: ip_valid_def ip_nil_def ip_of_in_addr_def ip_of_in6_addr_def ip_of_host_order_def)

lemma family_constructors [simp]:
  "ip_family ip_nil = AF_UNSPEC" "ip_family (ip_of_in_addr he w) = AF_INET" "ip_family (ip_of_in6_addr bs) = AF_INET6"
  "ip_family (ip_of_host_order he w) = AF_INET"
  by (simp_all add: ip_nil_def ip_of_in_addr_def ip_of_in6_addr_def ip_of_host_order_def)

lemma host_order_valid:
  "ip_valid ip \<Longrightarrow> the (network_to_host32 he (ipv4_address he ip)) = be_word (take 4 (ip_u ip))"
  by (simp add: ipv4_address_def ntoh_mem)

lemma valid_v4_bytes: "ip_valid ip \<Longrightarrow> ip_family ip = AF_INET \<Longrightarrow> take 4 (ip_u ip) @ replicate 12 0 = ip_u ip"
  by (metis append_take_drop_id ip_valid_def)

lemma ip_of_in_addr_valid:
  assumes "ip_valid ip" "ip_family ip = AF_INET"
  shows "ip_of_in_addr he (mem_to_word he (take 4 (ip_u ip))) = ip"
proof -
  have "word_to_mem he 4 (mem_to_word he (take 4 (ip_u ip)) :: u32) = take 4 (ip_u ip)"
    using assms by (simp add: word_to_mem_to_word)
  then have "ip_of_in_addr he (mem_to_word he (take 4 (ip_u ip))) = \<lparr>ip_family = AF_INET, ip_u = ip_u ip\<rparr>"
    using valid_v4_bytes [OF assms] by (simp add: ip_of_in_addr_def)
  then show ?thesis using assms(2) by (cases ip) simp
qed

lemma ip_eq_valid:
  assumes v: "ip_valid a" "ip_valid b"
  shows "ip_eq a b \<longleftrightarrow> a = b"
proof
  assume eq: "ip_eq a b"
  then have f: "ip_family a = ip_family b" by (meson ip_eq_def)
  have "ip_u a = ip_u b"
  proof (cases "ip_family a")
    case AF_UNSPEC
    then show ?thesis using v f by (metis ip_valid_def)
  next
    case AF_INET
    then have "take 4 (ip_u a) = take 4 (ip_u b)" using eq f by (simp add: ip_eq_def)
    then show ?thesis using valid_v4_bytes v AF_INET f by metis
  next
    case AF_INET6
    then show ?thesis using eq f v by (simp add: ip_eq_def)
  qed
  with f show "a = b" by (cases a; cases b) simp
next
  assume "a = b"
  then show "ip_eq a b" by (cases "ip_family a") (simp_all add: ip_eq_def)
qed

section \<open>The order\<close>

lemma memcmp_less_irrefl: "\<not> memcmp_less xs xs"
  by (induction xs) simp_all

lemma memcmp_less_trans: "memcmp_less xs ys \<Longrightarrow> memcmp_less ys zs \<Longrightarrow> memcmp_less xs zs"
proof (induction xs ys arbitrary: zs rule: memcmp_less.induct)
  case (1 a as b bs)
  then show ?case by (cases zs) (auto split: if_splits)
qed simp_all

lemma memcmp_less_total: "length xs = length ys \<Longrightarrow> xs \<noteq> ys \<Longrightarrow> memcmp_less xs ys \<or> memcmp_less ys xs"
  by (induction xs ys rule: list_induct2) auto

lemma ip_less_irrefl: "\<not> ip_less he a a"
  by (cases "ip_family a") (simp_all add: ip_less_def memcmp_less_irrefl)

lemma ip_less_trans: "ip_less he a b \<Longrightarrow> ip_less he b c \<Longrightarrow> ip_less he a c"
  by (cases "ip_family a"; cases "ip_family b"; cases "ip_family c")
    (auto simp: ip_less_def intro: memcmp_less_trans)

lemma ip_less_asym: "ip_less he a b \<Longrightarrow> \<not> ip_less he b a"
  using ip_less_trans ip_less_irrefl by blast

lemma ip_less_total:
  assumes "ip_valid a" "ip_valid b" "a \<noteq> b"
  shows "ip_less he a b \<or> ip_less he b a"
proof -
  have ne: "\<not> ip_eq a b" using assms by (simp add: ip_eq_valid)
  show ?thesis
  proof (cases "ip_family a = ip_family b")
    case False
    then show ?thesis by (cases "ip_family a"; cases "ip_family b") (auto simp: ip_less_def)
  next
    case True
    have "take 4 (ip_u a) \<noteq> take 4 (ip_u b)" if "ip_family a = AF_INET"
      using that ne True by (simp add: ip_eq_def)
    then have "be_word (take 4 (ip_u a)) \<noteq> be_word (take 4 (ip_u b))" if "ip_family a = AF_INET"
      using that assms by (simp add: be_word_inject)
    moreover have "memcmp_less (take 16 (ip_u a)) (take 16 (ip_u b)) \<or> memcmp_less (take 16 (ip_u b)) (take 16 (ip_u a))"
      if "ip_family a = AF_INET6"
      using that ne True assms by (intro memcmp_less_total) (simp_all add: ip_eq_def)
    ultimately show ?thesis
      using ne True assms by (cases "ip_family a") (auto simp: ip_less_def ip_eq_def host_order_valid)
  qed
qed

section \<open>Mapped addresses\<close>

lemma mapped_as_v6: "ip_valid ip \<Longrightarrow> ip_family ip = AF_INET \<Longrightarrow> IP_is_v4_mapped (as_IPv6_address ip)"
  by (simp add: IP_is_v4_mapped_def IP_is_helper_def as_IPv6_address_def ip_of_in6_addr_def ipv6_address_def
      k_v4_mapped_prefix_def)

lemma normalized_as_v6:
  assumes "ip_valid ip" "ip_family ip = AF_INET"
  shows "normalized he (as_IPv6_address ip) = ip"
proof -
  note u = valid_v4_bytes [OF assms]
  have "ip_family (as_IPv6_address ip) = AF_INET6" "drop 12 (ip_u (as_IPv6_address ip)) = take 4 (ip_u ip)"
    using assms by (simp_all add: as_IPv6_address_def ip_of_in6_addr_def k_v4_mapped_prefix_def)
  then have "normalized he (as_IPv6_address ip) = \<lparr>ip_family = AF_INET, ip_u = take 4 (ip_u ip) @ replicate 12 0\<rparr>"
    using mapped_as_v6 [OF assms] assms
    by (simp add: normalized_def extract_mapped_address_def ip_of_in_addr_def word_to_mem_to_word)
  then show ?thesis using assms(2) u by (cases ip) simp
qed

lemma as_v6_normalized:
  assumes "ip_valid ip" "ip_family ip = AF_INET6"
  shows "as_IPv6_address (normalized he ip) = ip"
proof (cases "IP_is_v4_mapped ip")
  case False
  then show ?thesis using assms by (simp add: normalized_def as_IPv6_address_def)
next
  case True
  then have pre: "take 12 (ip_u ip) = take 12 k_v4_mapped_prefix"
    by (simp add: IP_is_v4_mapped_def IP_is_helper_def ipv6_address_def)
  have "as_IPv6_address (normalized he ip) = ip_of_in6_addr (take 12 k_v4_mapped_prefix @ drop 12 (ip_u ip))"
    using True assms
    by (simp add: normalized_def as_IPv6_address_def ip_of_in_addr_def extract_mapped_address_def word_to_mem_to_word)
  also have "take 12 k_v4_mapped_prefix @ drop 12 (ip_u ip) = ip_u ip"
    by (simp only: pre [symmetric] append_take_drop_id)
  finally show ?thesis using assms(2) by (cases ip) (simp add: ip_of_in6_addr_def)
qed

section \<open>Truncation\<close>

lemma net_bit_append: "i < 8 * length xs \<Longrightarrow> net_bit (xs @ ys) i = net_bit xs i"
  by (simp add: net_bit_def nth_append div_less_iff_less_mult mult.commute)

lemma net_bit_take: "i < 8 * n \<Longrightarrow> n \<le> length xs \<Longrightarrow> net_bit (take n xs) i = net_bit xs i"
  by (simp add: net_bit_def div_less_iff_less_mult mult.commute)

lemma ones_u32: "(0xFFFFFFFF :: u32) = mask 32" "(0xFFFFFFFF :: u64) = mask 32"
  by (simp_all add: mask_eq_exp_minus_1)

lemma bit_high_mask:
  assumes "i < 32" "n \<le> 32"
  shows "bit (push_bit (32 - n) (0xFFFFFFFF :: u32)) (31 - i) \<longleftrightarrow> i < n"
  using assms by (auto simp: ones_u32 bit_simps)

lemma inner_mask_eq:
  assumes "n \<le> 32"
  shows "(ucast (push_bit n (0xFFFFFFFF :: u64)) :: u32) = push_bit n 0xFFFFFFFF"
  by (rule bit_word_eqI) (use assms in \<open>auto simp: ones_u32 bit_simps\<close>)

lemma length_concat4: "(\<And>i. i < n \<Longrightarrow> length (f i) = 4) \<Longrightarrow> length (concat (map f [0..<n])) = 4 * n"
  by (induction n) simp_all

lemma nth_concat4:
  assumes "\<And>i. i < n \<Longrightarrow> length (f i) = 4" and "j < 4 * n"
  shows "concat (map f [0..<n]) ! j = f (j div 4) ! (j mod 4)"
  using assms
proof (induction n)
  case (Suc n)
  have len: "length (concat (map f [0..<n])) = 4 * n"
    using Suc.prems(1) by (intro length_concat4) simp
  show ?case
  proof (cases "j < 4 * n")
    case True
    then show ?thesis using Suc len by (simp add: nth_append)
  next
    case False
    define r where "r = j - 4 * n"
    have "j = 4 * n + r" "r < 4" using False Suc.prems(2) by (auto simp: r_def)
    then show ?thesis using len by (simp add: nth_append)
  qed
qed simp

lemma net_bit_concat4:
  assumes "\<And>i. i < 4 \<Longrightarrow> length (f i) = 4" and "i < 128"
  shows "net_bit (concat (map f [0..<4])) i = net_bit (f (i div 32)) (i mod 32)"
proof -
  have j: "i div 8 < 4 * 4" using assms(2) by simp
  have "i div 8 div 4 = i div 32" by (simp add: div_mult2_eq [symmetric])
  moreover have "i div 8 mod 4 = i mod 32 div 8"
    using mod_mult2_eq [of i 8 4] by simp
  moreover have "i mod 32 mod 8 = i mod 8" by (simp add: mod_mod_cancel)
  ultimately show ?thesis
    using nth_concat4 [OF assms(1) j, of "\<lambda>i. i"] assms(1) nth_concat4 [of 4 f "i div 8", OF assms(1) j]
    by (simp add: net_bit_def)
qed

lemma net_bit_chunk:
  assumes "length bs = 16" "i < 128"
  shows "net_bit (take 4 (drop (4 * (i div 32)) bs)) (i mod 32) = net_bit bs i"
proof -
  have "i mod 32 div 8 < 4" by (simp add: less_mult_imp_div_less)
  moreover have "4 * (i div 32) + i mod 32 div 8 = i div 8"
    using mult_div_mod_eq [of 32 i] div_mult2_eq [of i 8 4] mod_mult2_eq [of i 8 4] mult_div_mod_eq [of 4 "i div 8"] by simp
  moreover have "i mod 32 mod 8 = i mod 8" by (simp add: mod_mod_cancel)
  moreover have "4 * (i div 32) + 4 \<le> length bs" using assms by simp
  ultimately show ?thesis by (simp add: net_bit_def)
qed

lemma v6_word_be:
  assumes "length bs = 16" "i < 4"
  shows "the (network_to_host32 he (v6_word he bs i)) = be_word (take 4 (drop (4 * i) bs))"
    and "word_to_mem he 4 (v6_word he bs i) = take 4 (drop (4 * i) bs)"
  using assms by (simp_all add: v6_word_def ntoh_mem word_to_mem_to_word)

lemma word_to_mem_zero: "word_to_mem he 4 (0 :: u32) = replicate 4 0"
  by (cases he) (simp_all add: word_to_mem_def bytes_le_def map_replicate_const)

lemma truncate_v4:
  assumes v: "ip_valid ip" "ip_family ip = AF_INET" and n: "0 \<le> len" and i: "i < 32"
  shows "net_bit (ip_u (truncate_IP he ip len)) i \<longleftrightarrow> int i < len \<and> net_bit (ip_u ip) i"
proof -
  consider "len > 31" | "len = 0" | "0 < len" "len \<le> 31" using n by linarith
  then show ?thesis
  proof cases
    case 1
    then show ?thesis using assms by (simp add: truncate_IP_def)
  next
    case 2
    have "net_bit (rev (bytes_le 4 (0 :: u32))) i = False" using i by (simp add: net_bit_bytes)
    then show ?thesis
      using 2 v i by (simp add: truncate_IP_def ip_of_host_order_def ip_of_in_addr_def mem_hton INADDR_ANY_def net_bit_append)
  next
    case 3
    define n where "n = nat len"
    then have n: "n \<le> 32" "int i < len \<longleftrightarrow> i < n" using 3 by auto
    have "net_bit (ip_u (truncate_IP he ip len)) i =
        bit (be_word (take 4 (ip_u ip)) AND push_bit (32 - n) 0xFFFFFFFF) (31 - i)"
      using 3 v i
      by (simp add: truncate_IP_def host_order_valid ip_of_in_addr_def mem_hton net_bit_append net_bit_bytes n_def Let_def)
    also have "\<dots> \<longleftrightarrow> net_bit (take 4 (ip_u ip)) i \<and> i < n"
      using bit_high_mask [OF i n(1)] bit_be_word [of "take 4 (ip_u ip)" i] i v by (simp add: bit_and_iff)
    finally show ?thesis using n(2) i v by (auto simp: net_bit_take)
  qed
qed

lemma truncate_v6_words:
  fixes f :: "nat \<Rightarrow> byte list" and n :: nat
  assumes "length u = 16" "i < 128" "n < 128"
    and f: "\<And>k. k < 4 \<Longrightarrow> f k =
      (if k = n div 32 then rev (bytes_le 4 (be_word (take 4 (drop (4 * k) u)) AND push_bit (32 - n mod 32) 0xFFFFFFFF))
       else if k > n div 32 then replicate 4 0 else take 4 (drop (4 * k) u))"
  shows "net_bit (concat (map f [0..<4])) i \<longleftrightarrow> i < n \<and> net_bit u i"
proof -
  let ?k = "i div 32" and ?j = "i mod 32"
  have k: "?k < 4" and j: "?j < 32" using assms(2) by simp_all
  have i: "i = 32 * ?k + ?j" and n: "n = 32 * (n div 32) + n mod 32" by simp_all
  have len: "length (f k) = 4" if "k < 4" for k using f [OF that] that assms(1) by simp
  have nb: "net_bit (concat (map f [0..<4])) i = net_bit (f ?k) ?j"
    using net_bit_concat4 [OF len assms(2)] .
  have chunk: "net_bit (take 4 (drop (4 * ?k) u)) ?j = net_bit u i"
    using net_bit_chunk [OF assms(1,2)] .
  have lc: "length (take 4 (drop (4 * ?k) u)) = 4" using k assms(1) by simp
  consider "?k = n div 32" | "n div 32 < ?k" | "?k < n div 32" by linarith
  then show ?thesis
  proof cases
    case 1
    have "i < n \<longleftrightarrow> ?j < n mod 32" using 1 i n by linarith
    then show ?thesis
      using 1 nb f [OF k] chunk bit_be_word [OF lc j] bit_high_mask [OF j, of "n mod 32"]
      by (auto simp: net_bit_bytes j bit_and_iff)
  next
    case 2
    then have "32 * (n div 32) + 32 \<le> 32 * ?k" by linarith
    then have "\<not> i < n" using i n mod_less_divisor [of 32 n] by linarith
    moreover have "?j div 8 < 4" using j by simp
    ultimately show ?thesis using 2 nb f [OF k] by (simp add: net_bit_def)
  next
    case 3
    then have "32 * ?k + 32 \<le> 32 * (n div 32)" by linarith
    then have "i < n" using i n j by linarith
    then show ?thesis using 3 nb f [OF k] chunk by simp
  qed
qed

lemma truncate_v6:
  assumes v: "ip_valid ip" "ip_family ip = AF_INET6" and n: "0 \<le> len" and i: "i < 128"
  shows "net_bit (ip_u (truncate_IP he ip len)) i \<longleftrightarrow> int i < len \<and> net_bit (ip_u ip) i"
proof -
  consider "len > 127" | "len = 0" | "0 < len" "len \<le> 127" using n by linarith
  then show ?thesis
  proof cases
    case 1
    then show ?thesis using assms by (simp add: truncate_IP_def)
  next
    case 2
    have "i div 8 < 16" using i by simp
    then show ?thesis
      using 2 v by (simp add: truncate_IP_def ip_of_in6_addr_def in6addr_any_def net_bit_def)
  next
    case 3
    define n where "n = nat len"
    then have n: "n < 128" "int i < len \<longleftrightarrow> i < n" using 3 by auto
    have mod: "n - n div 32 * 32 = n mod 32" by (simp add: minus_div_mult_eq_mod)
    define g where "g = (\<lambda>k. if k = n div 32
        then the (host_to_network32 he (the (network_to_host32 he (v6_word he (ip_u ip) k)) AND
          ucast (push_bit (32 - n mod 32) (0xFFFFFFFF :: u64))))
        else if k > n div 32 then 0 else v6_word he (ip_u ip) k)"
    have "ip_u (truncate_IP he ip len) = concat (map (\<lambda>k. word_to_mem he 4 (g k)) [0..<4])"
      using 3 v by (simp only: truncate_IP_def ip_of_in6_addr_def g_def n_def [symmetric] Let_def mod) simp
    moreover have "word_to_mem he 4 (g k) =
        (if k = n div 32 then rev (bytes_le 4 (be_word (take 4 (drop (4 * k) (ip_u ip))) AND push_bit (32 - n mod 32) 0xFFFFFFFF))
         else if k > n div 32 then replicate 4 0 else take 4 (drop (4 * k) (ip_u ip)))" if "k < 4" for k
      using that v v6_word_be [of "ip_u ip" k he] word_to_mem_zero [of he]
      by (cases "k = n div 32") (simp_all add: g_def mem_hton inner_mask_eq)
    ultimately show ?thesis
      using truncate_v6_words [of "ip_u ip" i n "\<lambda>k. word_to_mem he 4 (g k)"] v i n by simp
  qed
qed

section \<open>Counting mask bits\<close>

text \<open>\<open>w AND (NOT w + 1)\<close> isolates the lowest set bit.\<close>

lemma isolate_lowest_odd: "bit y 0 \<Longrightarrow> y AND (NOT y + 1) = 1" for y :: u32
proof -
  assume y: "bit y 0"
  have "NOT y + 1 = NOT y OR 1"
    by (rule disjunctive_add) (use y in \<open>auto simp: bit_simps\<close>)
  then show ?thesis using y by (intro bit_word_eqI) (auto simp: bit_simps)
qed

lemma isolate_lowest:
  fixes w :: u32
  assumes "bit w k" and "\<And>j. j < k \<Longrightarrow> \<not> bit w j"
  shows "w AND (NOT w + 1) = push_bit k 1"
proof -
  define y where "y = drop_bit k w"
  have w: "w = push_bit k y"
  proof (rule bit_word_eqI)
    fix n assume "n < LENGTH(32)"
    show "bit w n = bit (push_bit k y) n"
      using assms(2) [of n] \<open>n < LENGTH(32)\<close> by (cases "n < k") (auto simp: y_def bit_simps)
  qed
  have "bit y 0" using assms(1) by (simp add: y_def bit_simps)
  have "NOT w + 1 = - w" by (simp add: not_eq_complement)
  also have "\<dots> = push_bit k (- y)" by (simp add: w push_bit_eq_mult)
  also have "- y = NOT y + 1" by (simp add: not_eq_complement)
  finally have "w AND (NOT w + 1) = push_bit k (y AND (NOT y + 1))"
    by (simp add: w push_bit_and)
  then show ?thesis using isolate_lowest_odd [OF \<open>bit y 0\<close>] by simp
qed

definition zeroes_of_power :: "u32 \<Rightarrow> nat" where
  "zeroes_of_power w =
     (let z = (if w \<noteq> 0 then 31 else 32);
          z = (if w AND 0x0000FFFF \<noteq> 0 then z - 16 else z);
          z = (if w AND 0x00FF00FF \<noteq> 0 then z - 8 else z);
          z = (if w AND 0x0F0F0F0F \<noteq> 0 then z - 4 else z);
          z = (if w AND 0x33333333 \<noteq> 0 then z - 2 else z);
          z = (if w AND 0x55555555 \<noteq> 0 then z - 1 else z)
      in z)"

lemma zeroes_of_powers: "list_all (\<lambda>k. zeroes_of_power (push_bit k 1) = k) [0..<32]"
  by code_simp

lemma count_trailing_zeroes_correct:
  fixes w :: u32
  assumes "bit w k" and "\<And>j. j < k \<Longrightarrow> \<not> bit w j"
  shows "count_trailing_zeroes w = k"
proof -
  have "k < 32" using assms(1) bit_imp_le_length [of w k] by simp
  then have "k \<in> set [0..<32]" by simp
  with zeroes_of_powers have "zeroes_of_power (push_bit k 1) = k"
    unfolding list_all_iff by blast
  moreover have "count_trailing_zeroes w = zeroes_of_power (w AND (NOT w + 1))"
    unfolding count_trailing_zeroes_def zeroes_of_power_def Let_def by simp
  ultimately show ?thesis using isolate_lowest [OF assms] by simp
qed

text \<open>A word whose first \<open>n\<close> bits are set and the others clear.\<close>

lemma count_mask_word_prefix:
  assumes "n \<le> 32" and "\<And>i. i < 32 \<Longrightarrow> bit w (31 - i) \<longleftrightarrow> i < n"
  shows "count_mask_word bits w = bits + n"
proof (cases "n = 0")
  case True
  have "w = 0"
  proof (rule bit_word_eqI)
    fix k assume "k < LENGTH(32)"
    then show "bit w k = bit 0 k" using assms(2) [of "31 - k"] True by simp
  qed
  then show ?thesis using True by (simp add: count_mask_word_def)
next
  case False
  have b: "bit w (32 - n)" using assms(1) assms(2) [of "n - 1"] False by (simp add: Suc_diff_Suc)
  have "\<not> bit w j" if "j < 32 - n" for j
    using assms(2) [of "31 - j"] that by auto
  with b have "count_trailing_zeroes w = 32 - n" by (intro count_trailing_zeroes_correct)
  moreover have "w \<noteq> 0" using b by auto
  ultimately show ?thesis using assms(1) by (simp add: count_mask_word_def)
qed

lemma ones_word: "length bs = 4 \<Longrightarrow> mem_to_word he bs = (0xFFFFFFFF :: u32) \<longleftrightarrow> (\<forall>i<32. net_bit bs i)"
proof -
  assume l: "length bs = 4"
  have "mem_to_word he bs = (0xFFFFFFFF :: u32) \<longleftrightarrow> bs = word_to_mem he 4 (0xFFFFFFFF :: u32)"
  proof -
    have "word_to_mem he 4 (mem_to_word he bs :: u32) = bs" using l by (simp add: word_to_mem_to_word)
    moreover have "mem_to_word he (word_to_mem he 4 (0xFFFFFFFF :: u32)) = (0xFFFFFFFF :: u32)"
      by (simp add: mem_to_word_to_mem)
    ultimately show ?thesis by metis
  qed
  also have "word_to_mem he 4 (0xFFFFFFFF :: u32) = rev (bytes_le 4 (0xFFFFFFFF :: u32))"
    by (cases he) (simp_all add: word_to_mem_def bytes_le_4)
  also have "bs = rev (bytes_le 4 (0xFFFFFFFF :: u32)) \<longleftrightarrow> be_word bs = 0xFFFFFFFF"
    using l by (metis be_word_inverse bytes_be_word)
  also have "\<dots> \<longleftrightarrow> (\<forall>k<32. bit (be_word bs) k)"
    by (auto simp: bit_eq_iff ones_u32 bit_mask_iff dest: bit_imp_le_length)
  also have "\<dots> \<longleftrightarrow> (\<forall>i<32. net_bit bs i)"
  proof
    assume "\<forall>k<32. bit (be_word bs) k"
    then show "\<forall>i<32. net_bit bs i" using bit_be_word [OF l] by (metis diff_less_Suc numeral_eq_Suc pred_numeral_simps(2) semiring_norm(26) semiring_norm(27) semiring_norm(28))
  next
    assume a: "\<forall>i<32. net_bit bs i"
    show "\<forall>k<32. bit (be_word bs) k"
    proof (intro allI impI)
      fix k :: nat assume "k < 32"
      then show "bit (be_word bs) k" using a bit_be_word [OF l, of "31 - k"] by simp
    qed
  qed
  finally show ?thesis .
qed

lemma first_partial_word_prefix:
  assumes "length bs = 16" "n \<le> 128" and b: "\<And>i. i < 128 \<Longrightarrow> net_bit bs i \<longleftrightarrow> i < n"
  shows "i + m = 4 \<Longrightarrow> i \<le> n div 32 \<Longrightarrow> first_partial_word he bs i m = n div 32"
proof (induction m arbitrary: i)
  case 0
  then show ?case using assms(2) by simp
next
  case (Suc m)
  then have i: "i < 4" by simp
  have "net_bit (take 4 (drop (4 * i) bs)) j = net_bit bs (32 * i + j)" if "j < 32" for j
    using net_bit_chunk [OF assms(1), of "32 * i + j"] that i by simp
  then have "net_bit (take 4 (drop (4 * i) bs)) j \<longleftrightarrow> 32 * i + j < n" if "j < 32" for j
    using that b [of "32 * i + j"] i by simp
  then have ones: "v6_word he bs i = 0xFFFFFFFF \<longleftrightarrow> (\<forall>j<32. 32 * i + j < n)"
    using ones_word [of "take 4 (drop (4 * i) bs)" he] i assms(1) by (simp add: v6_word_def)
  show ?case
  proof (cases "i = n div 32")
    case True
    then have "\<not> 32 * i + n mod 32 < n" by simp
    moreover have "n mod 32 < 32" by simp
    ultimately have "v6_word he bs i \<noteq> 0xFFFFFFFF" using ones by blast
    then show ?thesis using True by simp
  next
    case False
    then have "i < n div 32" using Suc.prems(2) by simp
    then have "32 * i + 32 \<le> n" by (simp add: less_eq_div_iff_mult_less_eq Suc_le_eq [symmetric] del: div_mult_self1)
    then have "v6_word he bs i = 0xFFFFFFFF" using ones by auto
    then show ?thesis using Suc.IH [of "Suc i"] Suc.prems False by simp
  qed
qed

lemma count_mask_contiguous_v4:
  assumes "ip_valid ip" "ip_family ip = AF_INET" "n \<le> 32" "\<And>i. i < 32 \<Longrightarrow> net_bit (ip_u ip) i \<longleftrightarrow> i < n"
  shows "count_IP_mask_bits he ip = n"
proof -
  have "count_mask_word 0 (be_word (take 4 (ip_u ip))) = 0 + n"
    using assms bit_be_word [of "take 4 (ip_u ip)"]
    by (intro count_mask_word_prefix) (simp_all add: net_bit_take)
  then show ?thesis using assms(1,2) by (simp add: count_IP_mask_bits_def host_order_valid)
qed

lemma count_mask_contiguous_v6:
  assumes v: "ip_valid ip" "ip_family ip = AF_INET6" and n: "n \<le> 128"
    and b: "\<And>i. i < 128 \<Longrightarrow> net_bit (ip_u ip) i \<longleftrightarrow> i < n"
  shows "count_IP_mask_bits he ip = n"
proof -
  let ?k = "n div 32"
  have fp: "first_partial_word he (ip_u ip) 0 4 = ?k"
    using first_partial_word_prefix [of "ip_u ip" n 0 4 he] v n b by simp
  show ?thesis
  proof (cases "?k < 4")
    case True
    let ?w = "take 4 (drop (4 * ?k) (ip_u ip))"
    have l: "length ?w = 4" using True v by simp
    have "count_mask_word (?k * 32) (be_word ?w) = ?k * 32 + n mod 32"
    proof (rule count_mask_word_prefix)
      fix i :: nat assume i: "i < 32"
      have "net_bit ?w i = net_bit (ip_u ip) (32 * ?k + i)"
        using net_bit_chunk [of "ip_u ip" "32 * ?k + i"] v True i by simp
      also have "\<dots> \<longleftrightarrow> 32 * ?k + i < n" using b [of "32 * ?k + i"] True i by simp
      also have "\<dots> \<longleftrightarrow> i < n mod 32" using mult_div_mod_eq [of 32 n] by linarith
      finally show "bit (be_word ?w) (31 - i) \<longleftrightarrow> i < n mod 32" using bit_be_word [OF l i] by simp
    qed simp
    then show ?thesis
      using fp v True by (simp add: count_IP_mask_bits_def v6_word_be Let_def)
  next
    case False
    then have "n = 128" using n by simp
    then show ?thesis using fp v by (simp add: count_IP_mask_bits_def count_mask_word_def)
  qed
qed

section \<open>Properties\<close>

text \<open>
  C6. On valid addresses \<open>==\<close> is equality, and \<open><\<close> is a strict total order compatible with it
  (irreflexive, transitive, exactly one of \<open>a < b\<close>, \<open>a == b\<close>, \<open>b < a\<close>), with \<open>>\<close> its converse: an
  address can be the key of an ordered container, on hosts of either byte order.
\<close>

theorem ip_address_order:
  assumes "ip_valid a" and "ip_valid b" and "ip_valid c"
  shows "(ip_eq a b \<longleftrightarrow> a = b) \<and> \<not> ip_less he a a \<and>
    (ip_less he a b \<and> ip_less he b c \<longrightarrow> ip_less he a c) \<and>
    (ip_less he a b \<or> ip_eq a b \<or> ip_less he b a) \<and> \<not> (ip_less he a b \<and> ip_less he b a) \<and>
    (ip_greater he a b \<longleftrightarrow> ip_less he b a)"
  using assms ip_less_irrefl [of he a] ip_less_trans [of he a b c] ip_less_asym [of he a b] ip_less_total [of a b he]
  by (auto simp: ip_eq_valid ip_greater_def ip_neq_def)

theorem ip_address_order_witness:
  "ip_greater LittleEndian (ip_of_in6_addr in6addr_any) (ip_of_host_order LittleEndian INADDR_LOOPBACK)"
  using ip_address_order [of "ip_of_in6_addr in6addr_any" "ip_of_host_order LittleEndian INADDR_LOOPBACK" ip_nil LittleEndian]
  by (simp add: valid_constructors in6addr_any_def ip_less_def)

text \<open>
  \<open>as_IPv6_address\<close> and \<open>normalized\<close> are inverse: an IPv4 address survives being mapped into IPv6
  and back, an IPv6 address survives being normalised and mapped back, the mapped form is
  recognised as such, and both results are valid addresses.
\<close>

theorem mapped_address_roundtrip:
  assumes "ip_valid ip"
  shows "(ip_family ip = AF_INET \<longrightarrow> normalized he (as_IPv6_address ip) = ip \<and>
      IP_is_v4_mapped (as_IPv6_address ip) \<and> ip_valid (as_IPv6_address ip)) \<and>
    (ip_family ip = AF_INET6 \<longrightarrow> as_IPv6_address (normalized he ip) = ip) \<and> ip_valid (normalized he ip)"
  using assms normalized_as_v6 mapped_as_v6 as_v6_normalized
  by (auto simp: normalized_def valid_constructors as_IPv6_address_def k_v4_mapped_prefix_def intro!: valid_constructors)

theorem mapped_address_roundtrip_witness:
  "normalized BigEndian (as_IPv6_address (ip_of_in_addr BigEndian 7)) = ip_of_in_addr BigEndian 7"
  using mapped_address_roundtrip [of "ip_of_in_addr BigEndian 7" BigEndian]
  by (simp add: valid_constructors)

text \<open>
  C5. \<open>truncate_IP\<close> keeps exactly the first \<open>len\<close> bits in network order and clears the others, for
  IPv4 and IPv6 and on hosts of either byte order; a negative length gives the nil address.
\<close>

theorem truncate_IP_correct:
  assumes "ip_valid ip" and "0 \<le> len"
    and "(ip_family ip = AF_INET \<and> i < 32) \<or> (ip_family ip = AF_INET6 \<and> i < 128)"
  shows "(net_bit (ip_u (truncate_IP he ip len)) i \<longleftrightarrow> int i < len \<and> net_bit (ip_u ip) i) \<and>
    truncate_IP he ip (- 1) = ip_nil"
  using assms truncate_v4 [of ip len i he] truncate_v6 [of ip len i he] by (auto simp: truncate_IP_def)

theorem truncate_IP_correct_witness:
  "\<not> net_bit (ip_u (truncate_IP LittleEndian (ip_of_in6_addr (replicate 16 0xFF)) 33)) 33"
  using truncate_IP_correct [of "ip_of_in6_addr (replicate 16 0xFF)" 33 33 LittleEndian]
  by (simp add: valid_constructors)

text \<open>
  For a network mask, that is an address whose first \<open>n\<close> bits are set and all others clear,
  \<open>count_IP_mask_bits\<close> returns \<open>n\<close>: the bit-twiddling trailing-zero count and the scan over the four
  IPv6 words are right for every \<open>n\<close>.
\<close>

theorem count_IP_mask_bits_correct:
  assumes "ip_valid ip"
    and "(ip_family ip = AF_INET \<and> n \<le> 32 \<and> (\<forall>i<32. net_bit (ip_u ip) i \<longleftrightarrow> i < n)) \<or>
      (ip_family ip = AF_INET6 \<and> n \<le> 128 \<and> (\<forall>i<128. net_bit (ip_u ip) i \<longleftrightarrow> i < n))"
  shows "count_IP_mask_bits he ip = n"
  using assms count_mask_contiguous_v4 [of ip n he] count_mask_contiguous_v6 [of ip n he] by blast

theorem count_IP_mask_bits_correct_witness:
  "count_IP_mask_bits LittleEndian (ip_of_in6_addr (replicate 16 0xFF)) = 128"
proof (rule count_IP_mask_bits_correct)
  show "ip_valid (ip_of_in6_addr (replicate 16 0xFF))" by (simp add: valid_constructors)
  have "net_bit (replicate 16 0xFF) i" if "i < 128" for i
  proof -
    have m: "(0xFF :: byte) = mask 8" by (simp add: mask_eq_exp_minus_1)
    have "i div 8 < 16" "7 - i mod 8 < 8" using that by auto
    then show ?thesis by (simp add: net_bit_def m bit_mask_iff)
  qed
  then show "(ip_family (ip_of_in6_addr (replicate 16 0xFF)) = AF_INET \<and> 128 \<le> (32 :: nat) \<and>
      (\<forall>i<32. net_bit (ip_u (ip_of_in6_addr (replicate 16 0xFF))) i \<longleftrightarrow> i < 128)) \<or>
      (ip_family (ip_of_in6_addr (replicate 16 0xFF)) = AF_INET6 \<and> 128 \<le> (128 :: nat) \<and>
      (\<forall>i<128. net_bit (ip_u (ip_of_in6_addr (replicate 16 0xFF))) i \<longleftrightarrow> i < 128))"
    by (simp add: ip_of_in6_addr_def)
qed

text \<open>
  On a mask with a hole the bits after the first zero are counted: 255.0.255.0 gives 24, where the
  header promises the eight leading ones.
\<close>

lemma count_IP_mask_bits_hole: "count_IP_mask_bits he (ip_of_host_order he 0xFF00FF00) = 24"
proof -
  have "count_trailing_zeroes 0xFF00FF00 = 8"
    by (simp add: count_trailing_zeroes_def)
  then have "count_mask_word 0 0xFF00FF00 = 24" by (simp add: count_mask_word_def)
  then show ?thesis
    using host_order_valid [OF valid_constructors(4), of he he "0xFF00FF00"]
    by (simp add: count_IP_mask_bits_def ip_of_host_order_def ip_of_in_addr_def mem_hton)
qed

text \<open>Only fe80::/16 is recognised as link-local, although the prefix has ten bits.\<close>

lemma link_local_misses_fe90: "\<not> IP_is_link_local (ip_of_in6_addr (0xFE # 0x90 # replicate 14 0))"
  by (simp add: IP_is_link_local_def ip_of_in6_addr_def)

end
