(* ===== verification/SocketAddress.thy ===== *)
theory SocketAddress
  imports IPAddress StringToNumber
begin

text \<open>
  \<open>src/socket_address.{h,cpp}\<close>: a host (name or literal), an IP address and a port.  Constructors
  start from \<open>raw\<close>, the indeterminate contents of the members that have no default
  initialisation.  A text is a list of bytes; \<open>inet_ntop\<close> and \<open>inet_pton\<close> are parameters.
\<close>

record socket_address =
  sa_hostname :: "byte list"
  sa_ip :: ip_address
  sa_port :: u16
  sa_scope_id :: int
  sa_literal :: bool

type_synonym ntop = "address_family \<Rightarrow> byte list \<Rightarrow> byte list option"
type_synonym pton = "address_family \<Rightarrow> byte list \<Rightarrow> byte list option"

section \<open>Construction and modification\<close>

definition sa_clear :: "socket_address \<Rightarrow> socket_address" where
  "sa_clear a = a\<lparr>sa_hostname := [], sa_literal := False, sa_ip := ip_nil, sa_port := 0, sa_scope_id := 0\<rparr>"

definition sa_new :: "socket_address \<Rightarrow> socket_address" where
  "sa_new raw = sa_clear raw"

definition sa_set_IP :: "socket_address \<Rightarrow> ip_address \<Rightarrow> socket_address" where
  "sa_set_IP a ip = a\<lparr>sa_hostname := [], sa_literal := False, sa_ip := ip, sa_scope_id := 0\<rparr>"

definition sa_set_IP_host_order :: "endian \<Rightarrow> socket_address \<Rightarrow> u32 \<Rightarrow> socket_address" where
  "sa_set_IP_host_order he a ip =
     a\<lparr>sa_hostname := [], sa_literal := False, sa_ip := ip_of_host_order he ip, sa_scope_id := 0\<rparr>"

definition sa_set_IP_hostname :: "pton \<Rightarrow> endian \<Rightarrow> socket_address \<Rightarrow> byte list \<Rightarrow> socket_address" where
  "sa_set_IP_hostname inet_pton he a hostname =
     (let (literal, ip) = IP_from_string inet_pton he hostname;
          a = a\<lparr>sa_hostname := hostname, sa_literal := literal, sa_ip := ip\<rparr>;
          a = (if \<not> literal then a\<lparr>sa_ip := ip_nil\<rparr> else a)
      in a\<lparr>sa_scope_id := 0\<rparr>)"

definition sa_set_port :: "socket_address \<Rightarrow> int \<Rightarrow> socket_address" where
  "sa_set_port a port = (if port < 0 \<or> port \<ge> 65536 then a else a\<lparr>sa_port := word_of_int port\<rparr>)"

definition sa_set_scope_ID :: "socket_address \<Rightarrow> int \<Rightarrow> socket_address" where
  "sa_set_scope_ID a i = a\<lparr>sa_scope_id := i\<rparr>"

definition sa_of_hostname :: "pton \<Rightarrow> endian \<Rightarrow> socket_address \<Rightarrow> byte list \<Rightarrow> int \<Rightarrow> socket_address" where
  "sa_of_hostname inet_pton he raw hostname port = sa_set_port (sa_set_IP_hostname inet_pton he raw hostname) port"

definition sa_of_host_order :: "endian \<Rightarrow> socket_address \<Rightarrow> u32 \<Rightarrow> int \<Rightarrow> socket_address" where
  "sa_of_host_order he raw ip port = sa_set_port (sa_set_IP raw (ip_of_host_order he ip)) port"

definition sa_of_ip :: "socket_address \<Rightarrow> ip_address \<Rightarrow> int \<Rightarrow> socket_address" where
  "sa_of_ip raw ip port = sa_set_port (sa_set_IP raw ip) port"

definition sa_assign :: "socket_address \<Rightarrow> socket_address \<Rightarrow> socket_address" where
  "sa_assign a addr = a\<lparr>sa_hostname := sa_hostname addr, sa_ip := sa_ip addr, sa_port := sa_port addr,
     sa_literal := sa_literal addr, sa_scope_id := sa_scope_id addr\<rparr>"

section \<open>Queries\<close>

definition sa_is_nil :: "socket_address \<Rightarrow> bool" where
  "sa_is_nil a \<longleftrightarrow> sa_hostname a = [] \<and> IP_is_unspec (sa_ip a) \<and> sa_port a = 0"

definition sa_is_any_IP :: "endian \<Rightarrow> socket_address \<Rightarrow> bool" where
  "sa_is_any_IP he a \<longleftrightarrow> IP_is_any he (sa_ip a)"

definition sa_is_private_IP :: "endian \<Rightarrow> socket_address \<Rightarrow> bool" where
  "sa_is_private_IP he a \<longleftrightarrow> IP_is_private he (sa_ip a)"

definition sa_is_unresolved_IP :: "socket_address \<Rightarrow> bool" where
  "sa_is_unresolved_IP a \<longleftrightarrow> IP_is_unspec (sa_ip a) \<and> \<not> sa_literal a \<and> sa_hostname a \<noteq> []"

definition sa_equal_IPs :: "endian \<Rightarrow> socket_address \<Rightarrow> socket_address \<Rightarrow> bool" where
  "sa_equal_IPs he a addr \<longleftrightarrow> ip_eq (sa_ip a) (sa_ip addr) \<and>
     ((\<not> IP_is_any he (sa_ip a) \<and> \<not> IP_is_unspec (sa_ip a)) \<or> sa_hostname a = sa_hostname addr)"

definition sa_equal_ports :: "socket_address \<Rightarrow> socket_address \<Rightarrow> bool" where
  "sa_equal_ports a addr \<longleftrightarrow> sa_port a = sa_port addr"

definition sa_eq :: "endian \<Rightarrow> socket_address \<Rightarrow> socket_address \<Rightarrow> bool" where
  "sa_eq he a addr \<longleftrightarrow> sa_equal_IPs he a addr \<and> sa_equal_ports a addr"

text \<open>\<open>std::string\<close> compares as unsigned characters, a proper prefix is smaller.\<close>

fun str_less :: "byte list \<Rightarrow> byte list \<Rightarrow> bool" where
  "str_less [] [] \<longleftrightarrow> False"
| "str_less [] (b # bs) \<longleftrightarrow> True"
| "str_less (a # as) [] \<longleftrightarrow> False"
| "str_less (a # as) (b # bs) \<longleftrightarrow> (if a = b then str_less as bs else a < b)"

definition sa_less :: "endian \<Rightarrow> socket_address \<Rightarrow> socket_address \<Rightarrow> bool" where
  "sa_less he a addr \<longleftrightarrow>
     (if ip_neq (sa_ip a) (sa_ip addr) then ip_less he (sa_ip a) (sa_ip addr)
      else if (IP_is_any he (sa_ip a) \<or> IP_is_unspec (sa_ip a)) \<and> sa_hostname a \<noteq> sa_hostname addr
      then str_less (sa_hostname a) (sa_hostname addr)
      else sa_port a < sa_port addr)"

section \<open>Text\<close>

definition colon :: byte where "colon = of_char CHR '':''"
definition lbracket :: byte where "lbracket = of_char CHR ''[''"
definition rbracket :: byte where "rbracket = of_char CHR '']''"

definition sa_host_as_URI_string :: "ntop \<Rightarrow> socket_address \<Rightarrow> byte list" where
  "sa_host_as_URI_string inet_ntop a =
     (if \<not> sa_literal a \<and> sa_hostname a \<noteq> [] then sa_hostname a
      else if ip_family (sa_ip a) = AF_INET6 then [lbracket] @ ip_to_string inet_ntop (sa_ip a) @ [rbracket]
      else ip_to_string inet_ntop (sa_ip a))"

definition sa_port_as_string :: "socket_address \<Rightarrow> byte list" where
  "sa_port_as_string a = dec_nat (unat (sa_port a))"

definition sa_to_string :: "ntop \<Rightarrow> socket_address \<Rightarrow> byte list" where
  "sa_to_string inet_ntop a = sa_host_as_URI_string inet_ntop a @ [colon] @ dec_nat (unat (sa_port a))"

text \<open>\<open>std::string::find\<close> from a position and \<open>rfind\<close>.\<close>

fun find_from :: "byte list \<Rightarrow> byte \<Rightarrow> nat \<Rightarrow> nat option" where
  "find_from [] c pos = None"
| "find_from (x # xs) c (Suc pos) = map_option Suc (find_from xs c pos)"
| "find_from (x # xs) c 0 = (if x = c then Some 0 else map_option Suc (find_from xs c 0))"

fun rfind :: "byte list \<Rightarrow> byte \<Rightarrow> nat option" where
  "rfind [] c = None"
| "rfind (x # xs) c =
     (case rfind xs c of Some i \<Rightarrow> Some (Suc i) | None \<Rightarrow> if x = c then Some 0 else None)"

text \<open>
  \<open>strtoul\<close> with a null end pointer, its result converted to the \<open>int\<close> parameter of \<open>set_port\<close>
  (\<open>unsigned long\<close> has 64 bits).
\<close>

definition strtoul_int :: "byte list \<Rightarrow> int" where
  "strtoul_int str = sint (word_of_int (fst (strtoull (c_str str) 10)) :: 32 word)"

datatype 'a outcome = Returned bool 'a | Throws_out_of_range

definition sa_from_string :: "pton \<Rightarrow> endian \<Rightarrow> socket_address \<Rightarrow> byte list \<Rightarrow> socket_address outcome" where
  "sa_from_string inet_pton he a str =
     (if str = [] then Throws_out_of_range
      else if str ! 0 = lbracket then
        (case rfind str rbracket of
           None \<Rightarrow> Returned True a
         | Some closebracket \<Rightarrow>
             (case find_from str colon closebracket of
                None \<Rightarrow> Returned False a
              | Some p \<Rightarrow>
                  if p > closebracket then
                    let a = sa_set_port a (strtoul_int (drop (p + 1) str));
                        a = sa_set_IP_hostname inet_pton he a (take (closebracket - 1) (drop 1 str))
                    in Returned True a
                  else Returned False a))
      else
        (case find_from str colon 0 of
           None \<Rightarrow> Returned False a
         | Some pos \<Rightarrow>
             let a = sa_set_port a (strtoul_int (drop (pos + 1) str));
                 a = sa_set_IP_hostname inet_pton he a (take pos str)
             in Returned True a))"

section \<open>Socket address structures\<close>

text \<open>\<open>sockaddr_storage\<close> by its family; ports are in network byte order.\<close>

datatype sockaddr_storage =
    Sockaddr_other
  | Sockaddr_in (sin_port: u16) (sin_addr: u32)
  | Sockaddr_in6 (sin6_port: u16) (sin6_addr: "byte list") (sin6_scope_id: int)

definition to_sockaddr_storage_helper :: "endian \<Rightarrow> ip_address \<Rightarrow> u16 \<Rightarrow> int \<Rightarrow> nat \<times> sockaddr_storage" where
  "to_sockaddr_storage_helper he ip port scope_id =
     (if ip_family ip = AF_INET6
      then (28, Sockaddr_in6 (the (host_to_network16 he port)) (ipv6_address ip) scope_id)
      else if ip_family ip = AF_INET
      then (16, Sockaddr_in (the (host_to_network16 he port)) (ipv4_address he ip))
      else (0, Sockaddr_other))"

definition to_sockaddr_storage :: "endian \<Rightarrow> socket_address \<Rightarrow> nat \<times> sockaddr_storage" where
  "to_sockaddr_storage he a = to_sockaddr_storage_helper he (sa_ip a) (sa_port a) (sa_scope_id a)"

definition socket_address_from_sockaddr_storage ::
  "endian \<Rightarrow> socket_address \<Rightarrow> sockaddr_storage \<Rightarrow> socket_address option" where
  "socket_address_from_sockaddr_storage he raw addr =
     (case addr of
        Sockaddr_in port a \<Rightarrow> Some (sa_of_ip raw (ip_of_in_addr he a) (uint (the (network_to_host16 he port))))
      | Sockaddr_in6 port a scope_id \<Rightarrow>
          Some (sa_set_scope_ID (sa_of_ip raw (ip_of_in6_addr a) (uint (the (network_to_host16 he port)))) scope_id)
      | Sockaddr_other \<Rightarrow> None)"

section \<open>The order\<close>

lemma str_less_irrefl: "\<not> str_less s s"
  by (induction s) simp_all

lemma str_less_trans: "str_less r s \<Longrightarrow> str_less s t \<Longrightarrow> str_less r t"
proof (induction r s arbitrary: t rule: str_less.induct)
  case (4 a as b bs)
  then show ?case by (cases t) (auto split: if_splits)
next
  case (2 b bs)
  then show ?case by (cases t) auto
qed simp_all

lemma str_less_total: "s \<noteq> t \<Longrightarrow> str_less s t \<or> str_less t s"
proof (induction s t rule: str_less.induct)
  case (4 a as b bs)
  then show ?case by (cases "a = b") auto
qed simp_all

text \<open>The keys that \<open>operator<\<close> compares lexicographically.\<close>

definition host_key :: "endian \<Rightarrow> socket_address \<Rightarrow> byte list" where
  "host_key he a = (if IP_is_any he (sa_ip a) \<or> IP_is_unspec (sa_ip a) then sa_hostname a else [])"

lemma sa_eq_keys:
  "ip_valid (sa_ip a) \<Longrightarrow> ip_valid (sa_ip b) \<Longrightarrow>
    sa_eq he a b \<longleftrightarrow> sa_ip a = sa_ip b \<and> host_key he a = host_key he b \<and> sa_port a = sa_port b"
  by (auto simp: sa_eq_def sa_equal_IPs_def sa_equal_ports_def host_key_def ip_eq_valid)

lemma sa_less_keys:
  assumes "ip_valid (sa_ip a)" "ip_valid (sa_ip b)"
  shows "sa_less he a b \<longleftrightarrow> ip_less he (sa_ip a) (sa_ip b) \<or>
    (sa_ip a = sa_ip b \<and> (str_less (host_key he a) (host_key he b) \<or>
      (host_key he a = host_key he b \<and> sa_port a < sa_port b)))"
  using assms
  by (auto simp: sa_less_def ip_neq_def ip_eq_valid host_key_def str_less_irrefl ip_less_irrefl)

lemma sa_less_trans:
  assumes v: "ip_valid (sa_ip a)" "ip_valid (sa_ip b)" "ip_valid (sa_ip c)"
    and "sa_less he a b" "sa_less he b c"
  shows "sa_less he a c"
proof -
  note k = sa_less_keys [OF v(1,2)] sa_less_keys [OF v(2,3)] sa_less_keys [OF v(1,3)]
  show ?thesis
    using assms(4,5) ip_less_trans [of he "sa_ip a" "sa_ip b" "sa_ip c"]
      str_less_trans [of "host_key he a" "host_key he b" "host_key he c"]
    unfolding k by (elim disjE conjE) auto
qed

lemma sa_less_irrefl: "\<not> sa_less he a a"
  by (simp add: sa_less_def ip_less_irrefl ip_neq_def str_less_irrefl)

lemma sa_less_total:
  assumes v: "ip_valid (sa_ip a)" "ip_valid (sa_ip b)" and "\<not> sa_eq he a b"
  shows "sa_less he a b \<or> sa_less he b a"
  using assms(3) ip_less_total [OF v, of he] str_less_total [of "host_key he a" "host_key he b"]
  unfolding sa_eq_keys [OF v] sa_less_keys [OF v] sa_less_keys [OF v(2,1)]
  by (metis neq_iff)

lemma ip_u_of_in6: "ip_u (ip_of_in6_addr bs) = bs"
  by (simp add: ip_of_in6_addr_def)

section \<open>Parsing what was printed\<close>

lemma dec_nat_digits: "list_all is_digit (dec_nat n)" "dec_nat n \<noteq> []"
  using dec_nat_numeral [of n] by (simp_all add: is_numeral_def)

lemma dec_nat_not_in: "\<not> is_digit c \<Longrightarrow> c \<notin> set (dec_nat n)"
  using dec_nat_digits [of n] by (auto simp: list_all_iff)

lemma c_str_dec_nat: "c_str (dec_nat n) = dec_nat n"
proof -
  have "\<not> is_digit 0" by (simp add: is_digit_def)
  then show ?thesis using dec_nat_not_in [of 0 n] by (auto simp: c_str_def takeWhile_eq_all_conv)
qed

lemma strtoul_dec_nat:
  assumes "n < 65536"
  shows "strtoul_int (dec_nat n) = int n"
proof -
  have st: "starts_number (dec_nat n)"
    using starts_number_numeral [of "dec_nat n" False] dec_nat_numeral [of n] by (simp add: numeral_of_def)
  have "scan_number 10 (dec_nat n) = Some (False, n, [])"
    unfolding scan_number_decimal [OF st] using dec_nat_numeral [of n] by (auto simp: numeral_of_def)
  then have "fst (strtoull (dec_nat n) 10) = int n"
    using assms by (simp add: strtoull_def base_ok_def ULLONG_MAX_def)
  then show ?thesis
    using assms by (simp add: strtoul_int_def c_str_dec_nat signed_of_nat signed_take_bit_int_eq_self)
qed

lemma find_from_first: "c \<notin> set xs \<Longrightarrow> find_from (xs @ c # ys) c 0 = Some (length xs)"
  by (induction xs) auto

lemma find_from_offset: "find_from (pre @ rest) c (length pre) = map_option (\<lambda>k. length pre + k) (find_from rest c 0)"
  by (induction pre) (auto simp: option.map_comp comp_def option.map_ident)

lemma rfind_None: "c \<notin> set xs \<Longrightarrow> rfind xs c = None"
  by (induction xs) auto

lemma rfind_last: "c \<notin> set ys \<Longrightarrow> rfind (xs @ c # ys) c = Some (length xs)"
  by (induction xs) (auto simp: rfind_None)

lemma text_chars: "\<not> is_digit colon" "\<not> is_digit rbracket" "colon \<noteq> rbracket"
  by (simp_all add: colon_def rbracket_def is_digit_def)

lemma from_string_plain:
  assumes "t \<noteq> []" "hd t \<noteq> lbracket" "colon \<notin> set t" "n < 65536"
  shows "sa_from_string inet_pton he a (t @ [colon] @ dec_nat n) =
    Returned True (sa_set_IP_hostname inet_pton he (sa_set_port a (int n)) t)"
proof -
  obtain c cs where t: "t = c # cs" "c \<noteq> lbracket" using assms(1,2) by (cases t) auto
  have "find_from (t @ colon # dec_nat n) colon 0 = Some (length t)" using assms(3) by (rule find_from_first)
  then show ?thesis
    using t strtoul_dec_nat [OF assms(4)] by (simp add: sa_from_string_def Let_def)
qed

lemma from_string_bracketed:
  assumes "n < 65536"
  shows "sa_from_string inet_pton he a ([lbracket] @ t @ [rbracket] @ [colon] @ dec_nat n) =
    Returned True (sa_set_IP_hostname inet_pton he (sa_set_port a (int n)) t)"
proof -
  let ?str = "(lbracket # t) @ rbracket # colon # dec_nat n"
  have "rbracket \<notin> set (colon # dec_nat n)" using dec_nat_not_in [of rbracket n] text_chars by auto
  then have r: "rfind ?str rbracket = Some (length (lbracket # t))" by (rule rfind_last)
  have "find_from (rbracket # colon # dec_nat n) colon 0 = Some 1"
    using find_from_first [of colon "[rbracket]" "dec_nat n"] text_chars(3) by simp
  then have f: "find_from ?str colon (length (lbracket # t)) = Some (length (lbracket # t) + 1)"
    using find_from_offset [of "lbracket # t" "rbracket # colon # dec_nat n" colon] by simp
  have "drop (length (lbracket # t) + 1 + 1) ?str = dec_nat n"
    "take (length (lbracket # t) - 1) (drop 1 ?str) = t" by simp_all
  moreover have "?str \<noteq> []" "?str ! 0 = lbracket" by simp_all
  ultimately have "sa_from_string inet_pton he a ?str =
      Returned True (sa_set_IP_hostname inet_pton he (sa_set_port a (int n)) t)"
    using r f strtoul_dec_nat [OF assms] unfolding sa_from_string_def by (simp only: if_False if_True option.case Let_def) simp
  then show ?thesis by simp
qed

section \<open>Properties\<close>

text \<open>
  \<open>operator<\<close> is a strict weak order whose equivalence is \<open>operator==\<close>, so socket addresses can
  key ordered containers although \<open>==\<close> looks at the host name only for unspecified and any
  addresses.
\<close>

theorem socket_address_order:
  assumes "ip_valid (sa_ip a)" and "ip_valid (sa_ip b)" and "ip_valid (sa_ip c)"
  shows "\<not> sa_less he a a \<and> (sa_less he a b \<and> sa_less he b c \<longrightarrow> sa_less he a c) \<and>
    (sa_eq he a b \<longleftrightarrow> \<not> sa_less he a b \<and> \<not> sa_less he b a)"
proof (intro conjI impI)
  show "\<not> sa_less he a a" by (rule sa_less_irrefl)
  show "sa_less he a c" if "sa_less he a b \<and> sa_less he b c"
    using that sa_less_trans [OF assms] by blast
  have "sa_eq he a b \<Longrightarrow> \<not> sa_less he a b \<and> \<not> sa_less he b a"
    unfolding sa_eq_keys [OF assms(1,2)] sa_less_keys [OF assms(1,2)] sa_less_keys [OF assms(2,1)]
    by (auto simp: ip_less_irrefl str_less_irrefl)
  then show "sa_eq he a b \<longleftrightarrow> \<not> sa_less he a b \<and> \<not> sa_less he b a"
    using sa_less_total [OF assms(1,2)] by blast
qed

theorem socket_address_order_witness:
  "\<exists>a b. ip_valid (sa_ip a) \<and> ip_valid (sa_ip b) \<and> sa_eq LittleEndian a b \<and> \<not> sa_less LittleEndian a b"
proof (intro exI conjI)
  let ?a = "sa_new \<lparr>sa_hostname = [], sa_ip = ip_nil, sa_port = 7, sa_scope_id = 7, sa_literal = True\<rparr>"
  show v: "ip_valid (sa_ip ?a)" "ip_valid (sa_ip ?a)" by (simp_all add: sa_new_def sa_clear_def valid_constructors)
  show "sa_eq LittleEndian ?a ?a" "\<not> sa_less LittleEndian ?a ?a"
    using socket_address_order [OF v(1) v(1) v(1), of LittleEndian] by blast+
qed

text \<open>
  Writing an address to a \<open>sockaddr_storage\<close> and reading it back keeps the IP address, the port
  and, for IPv6, the scope, on hosts of either byte order; an unspecified address is refused.
\<close>

theorem sockaddr_storage_roundtrip:
  assumes "ip_valid (sa_ip a)"
  shows "(IP_is_unspec (sa_ip a) \<longrightarrow> fst (to_sockaddr_storage he a) = 0 \<and>
      socket_address_from_sockaddr_storage he raw (snd (to_sockaddr_storage he a)) = None) \<and>
    (\<not> IP_is_unspec (sa_ip a) \<longrightarrow> (\<exists>b. socket_address_from_sockaddr_storage he raw (snd (to_sockaddr_storage he a)) = Some b \<and>
      sa_ip b = sa_ip a \<and> sa_port b = sa_port a \<and> sa_hostname b = [] \<and>
      sa_scope_id b = (if ip_family (sa_ip a) = AF_INET6 then sa_scope_id a else 0)))"
proof -
  have port: "uint (the (network_to_host16 he (the (host_to_network16 he (sa_port a))))) = uint (sa_port a)"
    by (simp add: host_to_network16_eq network_to_host16_eq word_to_mem_to_word word_of_bytes_le)
  have rng: "\<not> (uint (sa_port a) < 0 \<or> uint (sa_port a) \<ge> 65536)"
    using unsigned_less [of "sa_port a", where 'a = int] by simp
  have v4: "ip_of_in_addr he (ipv4_address he (sa_ip a)) = sa_ip a" if "ip_family (sa_ip a) = AF_INET"
    using ip_of_in_addr_valid [OF assms that] by (simp add: ipv4_address_def)
  have v6: "ip_of_in6_addr (ipv6_address (sa_ip a)) = sa_ip a" if "ip_family (sa_ip a) = AF_INET6"
    using that by (cases "sa_ip a") (simp add: ip_of_in6_addr_def ipv6_address_def)
  show ?thesis
    using v4 v6 rng
    by (cases "ip_family (sa_ip a)")
      (auto simp: to_sockaddr_storage_def to_sockaddr_storage_helper_def socket_address_from_sockaddr_storage_def
        IP_is_unspec_def sa_of_ip_def sa_set_IP_def sa_set_port_def sa_set_scope_ID_def port)
qed

theorem sockaddr_storage_roundtrip_witness:
  "\<exists>b. socket_address_from_sockaddr_storage BigEndian
      \<lparr>sa_hostname = [], sa_ip = ip_nil, sa_port = 0, sa_scope_id = 0, sa_literal = False\<rparr>
      (snd (to_sockaddr_storage BigEndian
        \<lparr>sa_hostname = [], sa_ip = ip_of_in_addr BigEndian 7, sa_port = 80, sa_scope_id = 0, sa_literal = False\<rparr>)) = Some b \<and>
     sa_port b = 80"
  using sockaddr_storage_roundtrip [of "\<lparr>sa_hostname = [], sa_ip = ip_of_in_addr BigEndian 7, sa_port = 80,
      sa_scope_id = 0, sa_literal = False\<rparr>" BigEndian
      "\<lparr>sa_hostname = [], sa_ip = ip_nil, sa_port = 0, sa_scope_id = 0, sa_literal = False\<rparr>"]
  by (auto simp: valid_constructors IP_is_unspec_def)

text \<open>
  C14. Parsing the printed form of an address that has an IP address and no host name of its own (none at all, or the literal form of the
  IP address) restores the IP address and the port; an address that is printed with a host name is not covered.  The hypotheses are the documented behaviour of \<open>inet_ntop\<close> and \<open>inet_pton\<close> on this address:
  the text converts back, dotted text contains neither a colon nor a bracket at the start, and
  IPv6 text is not accepted as IPv4.
\<close>

theorem socket_address_text_roundtrip:
  assumes "ip_valid (sa_ip a)" and "sa_literal a \<or> sa_hostname a = []"
    and "ip_family (sa_ip a) = AF_INET \<and> inet_ntop AF_INET (take 4 (ip_u (sa_ip a))) = Some t \<and>
        inet_pton AF_INET t = Some (take 4 (ip_u (sa_ip a))) \<and> t \<noteq> [] \<and> hd t \<noteq> lbracket \<and> colon \<notin> set t \<or>
      ip_family (sa_ip a) = AF_INET6 \<and> inet_ntop AF_INET6 (take 16 (ip_u (sa_ip a))) = Some t \<and>
        inet_pton AF_INET t = None \<and> inet_pton AF_INET6 t = Some (take 16 (ip_u (sa_ip a)))"
  shows "\<exists>b. sa_from_string inet_pton he raw (sa_to_string inet_ntop a) = Returned True b \<and>
    sa_ip b = sa_ip a \<and> sa_port b = sa_port a \<and> sa_hostname b = t \<and> sa_literal b"
proof -
  have p: "unat (sa_port a) < 65536" using unsigned_less [of "sa_port a", where 'a = nat] by simp
  have port: "sa_set_port raw (int (unat (sa_port a))) = raw\<lparr>sa_port := sa_port a\<rparr>"
    using unsigned_less [of "sa_port a", where 'a = int] by (simp add: sa_set_port_def)
  from assms(3) show ?thesis
  proof (elim disjE conjE)
    assume v4: "ip_family (sa_ip a) = AF_INET" "inet_ntop AF_INET (take 4 (ip_u (sa_ip a))) = Some t"
      "inet_pton AF_INET t = Some (take 4 (ip_u (sa_ip a)))" "t \<noteq> []" "hd t \<noteq> lbracket" "colon \<notin> set t"
    have "sa_to_string inet_ntop a = t @ [colon] @ dec_nat (unat (sa_port a))"
      using v4 assms(2) by (auto simp: sa_to_string_def sa_host_as_URI_string_def ip_to_string_def)
    moreover have "ip_of_in_addr he (mem_to_word he (take 4 (ip_u (sa_ip a)))) = sa_ip a"
      by (rule ip_of_in_addr_valid [OF assms(1) v4(1)])
    ultimately show ?thesis
      using from_string_plain [OF v4(4,5,6) p, of inet_pton he raw] v4(3) port
      by (simp add: sa_set_IP_hostname_def IP_from_string_def)
  next
    assume v6: "ip_family (sa_ip a) = AF_INET6" "inet_ntop AF_INET6 (take 16 (ip_u (sa_ip a))) = Some t"
      "inet_pton AF_INET t = None" "inet_pton AF_INET6 t = Some (take 16 (ip_u (sa_ip a)))"
    have "sa_to_string inet_ntop a = [lbracket] @ t @ [rbracket] @ [colon] @ dec_nat (unat (sa_port a))"
      using v6 assms(2) by (auto simp: sa_to_string_def sa_host_as_URI_string_def ip_to_string_def)
    moreover have "ip_of_in6_addr (take 16 (ip_u (sa_ip a))) = sa_ip a"
      using v6(1) assms(1) by (cases "sa_ip a") (simp add: ip_of_in6_addr_def ip_valid_def)
    ultimately show ?thesis
      using from_string_bracketed [OF p, of inet_pton he raw t] v6(3,4) port
      by (simp add: sa_set_IP_hostname_def IP_from_string_def)
  qed
qed

theorem socket_address_text_roundtrip_witness:
  "\<exists>b. sa_from_string (\<lambda>f t. if f = AF_INET6 \<and> t = [58, 58] then Some (replicate 16 0) else None) LittleEndian
      (sa_new \<lparr>sa_hostname = [], sa_ip = ip_nil, sa_port = 0, sa_scope_id = 0, sa_literal = False\<rparr>)
      (sa_to_string (\<lambda>f u. Some [58, 58])
        \<lparr>sa_hostname = [], sa_ip = ip_of_in6_addr in6addr_any, sa_port = 5, sa_scope_id = 0, sa_literal = False\<rparr>) =
      Returned True b \<and> sa_port b = 5"
  using socket_address_text_roundtrip [of "\<lparr>sa_hostname = [], sa_ip = ip_of_in6_addr in6addr_any, sa_port = 5,
      sa_scope_id = 0, sa_literal = False\<rparr>" "\<lambda>f u. Some [58, 58]" "[58, 58]"
      "\<lambda>f t. if f = AF_INET6 \<and> t = [58, 58] then Some (replicate 16 0) else None" LittleEndian
      "sa_new \<lparr>sa_hostname = [], sa_ip = ip_nil, sa_port = 0, sa_scope_id = 0, sa_literal = False\<rparr>"]
  by (auto simp: valid_constructors in6addr_any_def ip_u_of_in6)

section \<open>Deviations\<close>

text \<open>A bracket that is never closed is accepted and changes nothing.\<close>

lemma from_string_unclosed_bracket:
  "sa_from_string inet_pton he a [lbracket, of_char CHR ''x''] = Returned True a"
  by (simp add: sa_from_string_def lbracket_def rbracket_def)

text \<open>A port outside the range is ignored without an error: the member keeps what it had.\<close>

lemma port_out_of_range_ignored: "sa_port (sa_of_ip raw ip 65536) = sa_port raw"
  by (simp add: sa_of_ip_def sa_set_port_def sa_set_IP_def)

text \<open>The text of the port is reduced modulo \<open>2 ^ 32\<close> before the range check.\<close>

lemma port_text_wraps: "strtoul_int (dec_nat 4294967376) = 80"
proof -
  have st: "starts_number (dec_nat 4294967376)"
    using starts_number_numeral [of "dec_nat 4294967376" False] dec_nat_numeral [of 4294967376] by (simp add: numeral_of_def)
  have "scan_number 10 (dec_nat 4294967376) = Some (False, 4294967376, [])"
    unfolding scan_number_decimal [OF st] using dec_nat_numeral [of 4294967376] by (auto simp: numeral_of_def)
  then show ?thesis
    by (simp add: strtoul_int_def c_str_dec_nat strtoull_def base_ok_def ULLONG_MAX_def)
qed

text \<open>A mapped IPv4 address is written as an IPv6 structure.\<close>

lemma mapped_address_written_as_v6:
  "snd (to_sockaddr_storage he (a\<lparr>sa_ip := ip_of_in6_addr k_v4_mapped_prefix\<rparr>)) =
     Sockaddr_in6 (the (host_to_network16 he (sa_port a))) k_v4_mapped_prefix (sa_scope_id a)"
  by (simp add: to_sockaddr_storage_def to_sockaddr_storage_helper_def ipv6_address_def ip_of_in6_addr_def)

end
