(* ===== verification/Float32.thy ===== *)
theory Float32
  imports Prelude
begin

text \<open>
  The part of IEEE binary32 the statistics components use: non-negative values \<open>m \<cdot> 2\<^sup>e\<close>, rounded to
  24 significant bits, ties to even.  Exponents are unbounded: none of the computed values reaches
  the overflow threshold, and a subnormal one is below every integer the code truncates to.
\<close>

record f32 =
  mant :: nat
  expo :: int

fun nbits :: "nat \<Rightarrow> nat" where
  "nbits n = (if n = 0 then 0 else Suc (nbits (n div 2)))"

declare nbits.simps [simp del]

definition round_half_even :: "nat \<Rightarrow> nat \<Rightarrow> nat" where
  "round_half_even m k =
     (let q = m div 2 ^ k; r = 2 * (m mod 2 ^ k)
      in if r > 2 ^ k \<or> r = 2 ^ k \<and> odd q then q + 1 else q)"

definition f32_round :: "nat \<Rightarrow> int \<Rightarrow> f32" where
  "f32_round m e =
     (if nbits m \<le> 24 then \<lparr>mant = m, expo = e\<rparr>
      else let k = nbits m - 24 in \<lparr>mant = round_half_even m k, expo = e + int k\<rparr>)"

definition f32_of_nat :: "nat \<Rightarrow> f32" where
  "f32_of_nat n = f32_round n 0"

definition f32_mul :: "f32 \<Rightarrow> f32 \<Rightarrow> f32" where
  "f32_mul a b = f32_round (mant a * mant b) (expo a + expo b)"

definition f32_add :: "f32 \<Rightarrow> f32 \<Rightarrow> f32" where
  "f32_add a b =
     (let e = min (expo a) (expo b)
      in f32_round (mant a * 2 ^ nat (expo a - e) + mant b * 2 ^ nat (expo b - e)) e)"

text \<open>The quotient to more than 24 bits, the remainder kept as a last sticky bit.\<close>

definition f32_div :: "f32 \<Rightarrow> f32 \<Rightarrow> f32" where
  "f32_div a b =
     (let s = 26 + nbits (mant b); n = mant a * 2 ^ s
      in f32_round (2 * (n div mant b) + (if n mod mant b = 0 then 0 else 1)) (expo a - expo b - int s - 1))"

text \<open>Conversion to an integer type truncates.\<close>

definition f32_trunc :: "f32 \<Rightarrow> nat" where
  "f32_trunc a = (if expo a \<ge> 0 then mant a * 2 ^ nat (expo a) else mant a div 2 ^ nat (- expo a))"

section \<open>Rounding\<close>

lemma nbits_upper: "n < 2 ^ nbits n"
proof (induction n rule: nbits.induct)
  case (1 n)
  show ?case
  proof (cases "n = 0")
    case False
    then have "n div 2 < 2 ^ nbits (n div 2)" using 1 by blast
    then have "n < 2 * 2 ^ nbits (n div 2)" by linarith
    then show ?thesis using False by (simp add: nbits.simps [of n])
  qed (simp add: nbits.simps)
qed

lemma nbits_lower: "0 < n \<Longrightarrow> 2 ^ (nbits n - 1) \<le> n"
proof (induction n rule: nbits.induct)
  case (1 n)
  show ?case
  proof (cases "n div 2 = 0")
    case True
    then show ?thesis using 1(2) by (simp add: nbits.simps [of n] nbits.simps [of 0])
  next
    case False
    then have "2 ^ (nbits (n div 2) - 1) \<le> n div 2" using 1 by auto
    moreover have "nbits (n div 2) = Suc (nbits (n div 2) - 1)" using False by (simp add: nbits.simps [of "n div 2"])
    ultimately have "2 ^ nbits (n div 2) \<le> 2 * (n div 2)"
      by (metis power_Suc mult_le_mono2)
    also have "\<dots> \<le> n" by simp
    finally show ?thesis using 1(2) by (simp add: nbits.simps [of n])
  qed
qed

lemma nbits_le: "n < 2 ^ k \<Longrightarrow> nbits n \<le> k"
proof (rule ccontr)
  assume n: "n < 2 ^ k" and "\<not> nbits n \<le> k"
  then have k: "k \<le> nbits n - 1" and "0 < n" by (auto simp: nbits.simps [of 0] intro: gr0I)
  have "(2::nat) ^ k \<le> 2 ^ (nbits n - 1)" using k by (rule power_increasing) simp
  with nbits_lower [OF \<open>0 < n\<close>] n show False by linarith
qed

lemma f32_of_nat_exact: "n < 2 ^ 24 \<Longrightarrow> f32_of_nat n = \<lparr>mant = n, expo = 0\<rparr>"
  using nbits_le [of n 24] by (simp add: f32_of_nat_def f32_round_def)

text \<open>Rounding never crosses an integer bound.\<close>

lemma round_half_even_le:
  assumes "m \<le> N * 2 ^ k"
  shows "round_half_even m k \<le> N"
proof -
  have m: "m = m div 2 ^ k * 2 ^ k + m mod 2 ^ k" by (rule div_mult_mod_eq [symmetric])
  show ?thesis
  proof (cases "m mod 2 ^ k = 0")
    case True
    then have "m div 2 ^ k * 2 ^ k \<le> N * 2 ^ k" using m assms by linarith
    then have "m div 2 ^ k \<le> N" by simp
    then show ?thesis using True by (simp add: round_half_even_def)
  next
    case False
    then have "m div 2 ^ k * 2 ^ k < N * 2 ^ k" using m assms by linarith
    then have "m div 2 ^ k < N" by simp
    then show ?thesis by (simp add: round_half_even_def Let_def)
  qed
qed

text \<open>Rounding to 24 bits does not exceed a bound that has 24 bits itself.\<close>

lemma round_24_le:
  assumes "m \<le> a * 2 ^ j" and "a \<le> 2 ^ 24" and "nbits m > 24"
  shows "round_half_even m (nbits m - 24) * 2 ^ (nbits m - 24) \<le> a * 2 ^ j"
proof -
  define k where "k = nbits m - 24"
  have "2 ^ k dvd a * 2 ^ j"
  proof (cases "k \<le> j")
    case True
    then show ?thesis by (simp add: dvd_mult le_imp_power_dvd)
  next
    case False
    have "0 < m" using assms(3) by (cases m) (simp_all add: nbits.simps [of 0])
    have nb: "nbits m - 1 = 23 + k" using assms(3) k_def by simp
    have "a * 2 ^ j \<le> 2 ^ 24 * 2 ^ j" using assms(2) by (rule mult_le_mono1)
    also have "\<dots> = (2::nat) ^ (24 + j)" by (simp add: power_add)
    also have "\<dots> \<le> 2 ^ (23 + k)" using False by (intro power_increasing) simp_all
    finally have "a * 2 ^ j = 2 ^ (23 + k)"
      using nbits_lower [OF \<open>0 < m\<close>] assms(1) unfolding nb by linarith
    then show ?thesis by (simp add: power_add)
  qed
  then obtain N where N: "a * 2 ^ j = N * 2 ^ k" by (metis dvd_def mult.commute)
  then have "round_half_even m k \<le> N" using assms(1) round_half_even_le by metis
  then show ?thesis unfolding k_def [symmetric] N by simp
qed

text \<open>The index \<open>(int64_t)(p \<cdot> n)\<close> for a factor \<open>p \<le> 1\<close> stays within \<open>n\<close>.\<close>

lemma f32_scaled_le:
  assumes "n < 2 ^ 24" and "mant p \<le> 2 ^ k" and "expo p = - int k"
  shows "f32_trunc (f32_mul p (f32_of_nat n)) \<le> n"
proof -
  have le: "mant p * n \<le> n * 2 ^ k" using assms(2) by simp
  show ?thesis
  proof (cases "nbits (mant p * n) \<le> 24")
    case True
    have "mant p * n div 2 ^ k \<le> n * 2 ^ k div 2 ^ k" by (rule div_le_mono [OF le])
    then show ?thesis using True assms(1,3)
      by (cases "k = 0") (simp_all add: f32_mul_def f32_of_nat_exact f32_round_def f32_trunc_def)
  next
    case False
    let ?j = "nbits (mant p * n) - 24" let ?r = "round_half_even (mant p * n) ?j"
    have r: "?r * 2 ^ ?j \<le> n * 2 ^ k" using round_24_le [OF le] assms(1) False by simp
    have t: "f32_trunc (f32_mul p (f32_of_nat n)) =
        (if k \<le> ?j then ?r * 2 ^ (?j - k) else ?r div 2 ^ (k - ?j))"
      using False assms(1,3) by (auto simp: f32_mul_def f32_of_nat_exact f32_round_def f32_trunc_def Let_def
          nat_diff_distrib simp flip: of_nat_diff)
    show ?thesis
    proof (cases "k \<le> ?j")
      case True
      then have "2 ^ ?j = 2 ^ (?j - k) * (2 ^ k :: nat)" by (simp flip: power_add)
      then have "(?r * 2 ^ (?j - k)) * 2 ^ k \<le> n * 2 ^ k" using r by (simp add: mult.assoc)
      then show ?thesis using True t by simp
    next
      case k: False
      then have "2 ^ k = 2 ^ (k - ?j) * (2 ^ ?j :: nat)" by (simp flip: power_add)
      then have "?r * 2 ^ ?j \<le> (n * 2 ^ (k - ?j)) * 2 ^ ?j" using r by (simp add: mult.assoc)
      then have "?r \<le> n * 2 ^ (k - ?j)" by simp
      then have "?r div 2 ^ (k - ?j) \<le> n * 2 ^ (k - ?j) div 2 ^ (k - ?j)" by (rule div_le_mono)
      then show ?thesis using k t by simp
    qed
  qed
qed

definition f32_half :: f32 where
  "f32_half = \<lparr>mant = 1, expo = -1\<rparr>"

lemma f32_half_scaled: "n < 2 ^ 24 \<Longrightarrow> f32_trunc (f32_mul f32_half (f32_of_nat n)) = n div 2"
  using nbits_le [of n 24] by (simp add: f32_half_def f32_mul_def f32_of_nat_exact f32_round_def f32_trunc_def)

lemma f32_half_le_one: "mant f32_half \<le> 2 ^ 1" "expo f32_half = - int 1"
  by (simp_all add: f32_half_def)

end
