(* ===== verification/NodeList.thy ===== *)
theory NodeList
  imports Prelude
begin

text \<open>
  Node-based standard containers (\<open>std::list\<close>, \<open>std::multiset\<close>) in iteration order.  A node is a
  pair of its identity and its value, so that an iterator (the identity of a node, or \<open>None\<close> for
  \<open>end()\<close>) survives insertions and erasures elsewhere.
\<close>

type_synonym 'a node = "nat \<times> 'a"
type_synonym iter = "nat option"

definition deref :: "'a node list \<Rightarrow> iter \<Rightarrow> 'a option" where
  "deref xs it = (case it of None \<Rightarrow> None | Some i \<Rightarrow> map_of xs i)"

definition iter_pos :: "'a node list \<Rightarrow> iter \<Rightarrow> nat" where
  "iter_pos xs it = (case it of None \<Rightarrow> length xs | Some i \<Rightarrow> length (takeWhile (\<lambda>n. fst n \<noteq> i) xs))"

definition iter_at :: "'a node list \<Rightarrow> nat \<Rightarrow> iter" where
  "iter_at xs p = (if p < length xs then Some (fst (xs ! p)) else None)"

definition iter_advance :: "'a node list \<Rightarrow> iter \<Rightarrow> int \<Rightarrow> iter option" where
  "iter_advance xs it d =
     (let p = int (iter_pos xs it) + d
      in if 0 \<le> p \<and> p \<le> int (length xs) then Some (iter_at xs (nat p)) else None)"

text \<open>\<open>erase(it)\<close>: the container without the node, and the iterator to the following one.\<close>

definition node_erase :: "'a node list \<Rightarrow> nat \<Rightarrow> 'a node list \<times> iter" where
  "node_erase xs i =
     (filter (\<lambda>n. fst n \<noteq> i) xs, iter_at xs (iter_pos xs (Some i) + 1))"

lemma iter_pos_at:
  assumes "distinct (map fst xs)" and "p \<le> length xs"
  shows "iter_pos xs (iter_at xs p) = p"
proof (cases "p < length xs")
  case True
  have "takeWhile (\<lambda>n. fst n \<noteq> fst (xs ! p)) xs = take p xs"
    using True nth_eq_iff_index_eq [OF assms(1)] by (intro takeWhile_eq_take_P_nth) fastforce+
  then show ?thesis using True by (simp add: iter_pos_def iter_at_def)
qed (use assms(2) in \<open>simp add: iter_pos_def iter_at_def\<close>)

lemma deref_at: "distinct (map fst xs) \<Longrightarrow> p < length xs \<Longrightarrow> deref xs (iter_at xs p) = Some (snd (xs ! p))"
  by (simp add: deref_def iter_at_def)

text \<open>Erasing the node at position \<open>l\<close>.\<close>

lemma node_erase_at:
  assumes "distinct (map fst xs)" and "l < length xs"
  shows "node_erase xs (fst (xs ! l)) = (take l xs @ drop (Suc l) xs, iter_at xs (l + 1))"
proof -
  have pos: "iter_pos xs (Some (fst (xs ! l))) = l"
    using iter_pos_at [OF assms(1), of l] assms(2) by (simp add: iter_at_def)
  have xs: "xs = take l xs @ xs ! l # drop (Suc l) xs" by (rule id_take_nth_drop [OF assms(2)])
  then have "distinct (map fst (take l xs @ xs ! l # drop (Suc l) xs))" using assms(1) by simp
  then have "\<forall>n \<in> set (take l xs) \<union> set (drop (Suc l) xs). fst n \<noteq> fst (xs ! l)" by (force simp: image_iff)
  then have "filter (\<lambda>n. fst n \<noteq> fst (xs ! l)) (take l xs) = take l xs"
    "filter (\<lambda>n. fst n \<noteq> fst (xs ! l)) (drop (Suc l) xs) = drop (Suc l) xs"
    by (auto intro!: filter_True)
  then have "filter (\<lambda>n. fst n \<noteq> fst (xs ! l)) (take l xs @ xs ! l # drop (Suc l) xs) = take l xs @ drop (Suc l) xs"
    by simp
  then show ?thesis using pos xs unfolding node_erase_def by metis
qed

text \<open>Removing the node at \<open>l\<close> moves the iterators behind it one position down.\<close>

lemma iter_at_remove:
  assumes "l < length xs" and "p \<le> length xs" and "p \<noteq> l"
  shows "iter_at xs p = iter_at (take l xs @ drop (Suc l) xs) (if l < p then p - 1 else p)"
  using assms by (auto simp: iter_at_def nth_append min_def)

end
