(* ===== verification/PercentileFilter.thy ===== *)
theory PercentileFilter
  imports Float32 NodeList "HOL-Library.Multiset"
begin

text \<open>
  \<open>src/percentile_filter.h\<close> and \<open>src/moving_median_filter.h\<close>.  The \<open>std::multiset\<close> is the list of
  its nodes in iteration order.  \<open>None\<close> as the result of an operation is undefined behaviour: a dereferenced end iterator or an
  advance out of the container.
\<close>

section \<open>The multiset\<close>

fun ms_insert :: "'a::linorder node \<Rightarrow> 'a node list \<Rightarrow> 'a node list" where
  "ms_insert n [] = [n]"
| "ms_insert n (x # xs) = (if snd n < snd x then n # x # xs else x # ms_insert n xs)"

definition ms_lower_bound :: "'a::linorder node list \<Rightarrow> 'a \<Rightarrow> iter" where
  "ms_lower_bound xs v = map_option fst (find (\<lambda>n. \<not> snd n < v) xs)"

section \<open>The percentile filter\<close>

text \<open>\<open>pf_fresh\<close> is the identity of the next node the allocator hands out.\<close>

record 'a percentile_filter =
  pf_percentile :: f32
  pf_set :: "'a node list"
  pf_it :: iter
  pf_index :: int
  pf_fresh :: nat

definition pf_new :: "f32 \<Rightarrow> 'a percentile_filter" where
  "pf_new percentile = \<lparr>pf_percentile = percentile, pf_set = [], pf_it = None, pf_index = 0, pf_fresh = 0\<rparr>"

definition update_percentile_iterator :: "'a percentile_filter \<Rightarrow> 'a percentile_filter option" where
  "update_percentile_iterator f =
     (if pf_set f = [] then Some f
      else let index = int (f32_trunc (f32_mul (pf_percentile f) (f32_of_nat (length (pf_set f) - 1))))
           in case iter_advance (pf_set f) (pf_it f) (index - pf_index f) of
                None \<Rightarrow> None
              | Some it \<Rightarrow> Some (f\<lparr>pf_it := it, pf_index := index\<rparr>))"

definition pf_insert :: "'a::linorder \<Rightarrow> 'a percentile_filter \<Rightarrow> 'a percentile_filter option" where
  "pf_insert value f =
     (let f = f\<lparr>pf_set := ms_insert (pf_fresh f, value) (pf_set f), pf_fresh := pf_fresh f + 1\<rparr>
      in if length (pf_set f) = 1
         then update_percentile_iterator (f\<lparr>pf_it := iter_at (pf_set f) 0, pf_index := 0\<rparr>)
         else case deref (pf_set f) (pf_it f) of
                None \<Rightarrow> None
              | Some x \<Rightarrow> update_percentile_iterator (if value < x then f\<lparr>pf_index := pf_index f + 1\<rparr> else f))"

definition pf_erase :: "'a::linorder \<Rightarrow> 'a percentile_filter \<Rightarrow> (bool \<times> 'a percentile_filter) option" where
  "pf_erase value f =
     (case ms_lower_bound (pf_set f) value of
        None \<Rightarrow> Some (False, f)
      | Some i \<Rightarrow>
          if deref (pf_set f) (Some i) \<noteq> Some value then Some (False, f)
          else map_option (Pair True)
            (if pf_it f = Some i
             then let (xs, it) = node_erase (pf_set f) i in update_percentile_iterator (f\<lparr>pf_set := xs, pf_it := it\<rparr>)
             else let f = f\<lparr>pf_set := fst (node_erase (pf_set f) i)\<rparr>
                  in case deref (pf_set f) (pf_it f) of
                       None \<Rightarrow> None
                     | Some x \<Rightarrow> update_percentile_iterator (if value \<le> x then f\<lparr>pf_index := pf_index f - 1\<rparr> else f)))"

definition get_percentile_value :: "'a::zero percentile_filter \<Rightarrow> 'a option" where
  "get_percentile_value f = (if pf_set f = [] then Some 0 else deref (pf_set f) (pf_it f))"

definition pf_reset :: "'a percentile_filter \<Rightarrow> 'a percentile_filter" where
  "pf_reset f = f\<lparr>pf_set := [], pf_it := iter_at ([] :: 'a node list) 0, pf_index := 0\<rparr>"

section \<open>The moving median filter\<close>

record 'a moving_median_filter =
  mm_percentile_filter :: "'a percentile_filter"
  mm_samples :: "'a list"
  mm_samples_stored :: nat
  mm_window_size :: nat

definition mm_new :: "nat \<Rightarrow> 'a moving_median_filter" where
  "mm_new window_size =
     \<lparr>mm_percentile_filter = pf_new f32_half, mm_samples = [], mm_samples_stored = 0, mm_window_size = window_size\<rparr>"

definition mm_insert :: "'a::linorder \<Rightarrow> 'a moving_median_filter \<Rightarrow> 'a moving_median_filter option" where
  "mm_insert value f =
     (case pf_insert value (mm_percentile_filter f) of
        None \<Rightarrow> None
      | Some pf \<Rightarrow>
          let f = f\<lparr>mm_percentile_filter := pf, mm_samples := mm_samples f @ [value],
                    mm_samples_stored := mm_samples_stored f + 1\<rparr>
          in if mm_samples_stored f > mm_window_size f
             then case mm_samples f of
                    [] \<Rightarrow> None
                  | x # xs \<Rightarrow>
                      (case pf_erase x (mm_percentile_filter f) of
                         None \<Rightarrow> None
                       | Some (_, pf) \<Rightarrow>
                           Some (f\<lparr>mm_percentile_filter := pf, mm_samples := xs,
                                   mm_samples_stored := mm_samples_stored f - 1\<rparr>))
             else Some f)"

definition get_filtered_value :: "'a::zero moving_median_filter \<Rightarrow> 'a option" where
  "get_filtered_value f = get_percentile_value (mm_percentile_filter f)"

definition mm_reset :: "'a moving_median_filter \<Rightarrow> 'a moving_median_filter" where
  "mm_reset f = f\<lparr>mm_percentile_filter := pf_reset (mm_percentile_filter f), mm_samples := [], mm_samples_stored := 0\<rparr>"

section \<open>Nodes\<close>

lemma ms_insert_split:
  "\<exists>u \<le> length xs. ms_insert n xs = take u xs @ n # drop u xs \<and>
     (\<forall>q < u. \<not> snd n < snd (xs ! q)) \<and> (u < length xs \<longrightarrow> snd n < snd (xs ! u))"
proof (induction xs)
  case (Cons x xs)
  show ?case
  proof (cases "snd n < snd x")
    case True
    then show ?thesis by (intro exI [of _ 0]) simp
  next
    case False
    from Cons.IH obtain u where "u \<le> length xs" "ms_insert n xs = take u xs @ n # drop u xs"
      "\<forall>q < u. \<not> snd n < snd (xs ! q)" "u < length xs \<longrightarrow> snd n < snd (xs ! u)" by blast
    then show ?thesis using False by (intro exI [of _ "Suc u"]) (auto simp: nth_Cons split: nat.splits)
  qed
qed simp

lemma ms_insert_mset: "mset (ms_insert n xs) = add_mset n (mset xs)"
  by (induction xs) auto

lemma set_ms_insert [simp]: "set (ms_insert n xs) = insert n (set xs)"
  by (induction xs) auto

lemma ms_insert_distinct:
  "distinct (map fst xs) \<Longrightarrow> fst n \<notin> fst ` set xs \<Longrightarrow> distinct (map fst (ms_insert n xs))"
  by (induction xs) auto

lemma ms_insert_sorted: "sorted (map snd xs) \<Longrightarrow> sorted (map snd (ms_insert n xs))"
  by (induction xs) auto

lemma length_ms_insert [simp]: "length (ms_insert n xs) = Suc (length xs)"
  using arg_cong [OF ms_insert_mset [of n xs], of size] by simp

text \<open>After an insertion an iterator moves exactly when the new node went in before it.\<close>

lemma ms_insert_iter:
  assumes "sorted (map snd xs)" and "p < length xs"
  shows "iter_at xs p = iter_at (ms_insert n xs) (if snd n < snd (xs ! p) then p + 1 else p)"
proof -
  obtain u where u: "u \<le> length xs" "ms_insert n xs = take u xs @ n # drop u xs"
    "\<forall>q < u. \<not> snd n < snd (xs ! q)" "u < length xs \<longrightarrow> snd n < snd (xs ! u)"
    using ms_insert_split by metis
  have "snd n < snd (xs ! p) \<longleftrightarrow> u \<le> p"
    using u assms sorted_nth_mono [OF assms(1), of u p] by (auto simp: not_le [symmetric] dest: leD)
  then show ?thesis using u(1,2) assms(2) by (auto simp: iter_at_def nth_append)
qed

lemma lower_bound_split:
  "\<exists>l \<le> length xs. ms_lower_bound xs v = iter_at xs l \<and> (\<forall>q < l. snd (xs ! q) < v) \<and>
     (l < length xs \<longrightarrow> \<not> snd (xs ! l) < v)"
proof (induction xs)
  case (Cons x xs)
  show ?case
  proof (cases "snd x < v")
    case True
    from Cons.IH obtain l where "l \<le> length xs" "ms_lower_bound xs v = iter_at xs l"
      "\<forall>q < l. snd (xs ! q) < v" "l < length xs \<longrightarrow> \<not> snd (xs ! l) < v" by blast
    then show ?thesis using True
      by (intro exI [of _ "Suc l"]) (auto simp: ms_lower_bound_def iter_at_def nth_Cons split: nat.splits)
  qed (intro exI [of _ 0], simp add: ms_lower_bound_def iter_at_def)
qed (simp add: ms_lower_bound_def iter_at_def)

section \<open>Invariant\<close>

definition unit_interval :: "f32 \<Rightarrow> bool" where
  "unit_interval p \<longleftrightarrow> expo p \<le> 0 \<and> mant p \<le> 2 ^ nat (- expo p)"

text \<open>The position of the percentile among \<open>n\<close> observations.\<close>

definition pct_rank :: "f32 \<Rightarrow> nat \<Rightarrow> nat" where
  "pct_rank p n = f32_trunc (f32_mul p (f32_of_nat (n - 1)))"

definition pf_values :: "'a percentile_filter \<Rightarrow> 'a multiset" where
  "pf_values f = mset (map snd (pf_set f))"

definition pf_inv :: "f32 \<Rightarrow> 'a::linorder percentile_filter \<Rightarrow> bool" where
  "pf_inv p f \<longleftrightarrow> pf_percentile f = p \<and> unit_interval p \<and>
     distinct (map fst (pf_set f)) \<and> (\<forall>n \<in> set (pf_set f). fst n < pf_fresh f) \<and> sorted (map snd (pf_set f)) \<and>
     (pf_set f \<noteq> [] \<longrightarrow> pf_index f = int (pct_rank p (length (pf_set f))) \<and>
        pf_it f = iter_at (pf_set f) (pct_rank p (length (pf_set f))))"

lemma pct_rank_less: "unit_interval p \<Longrightarrow> 0 < n \<Longrightarrow> n \<le> 2 ^ 24 \<Longrightarrow> pct_rank p n < n"
  using f32_scaled_le [of "n - 1" p "nat (- expo p)"] by (force simp: pct_rank_def unit_interval_def)

lemma update_percentile_iterator_correct:
  assumes "unit_interval (pf_percentile f)" and "distinct (map fst (pf_set f))" and "length (pf_set f) \<le> 2 ^ 24"
    and "pf_set f \<noteq> [] \<Longrightarrow> p \<le> length (pf_set f) \<and> pf_it f = iter_at (pf_set f) p \<and> pf_index f = int p"
    and "\<forall>n \<in> set (pf_set f). fst n < pf_fresh f" and "sorted (map snd (pf_set f))"
  shows "\<exists>g. update_percentile_iterator f = Some g \<and> pf_inv (pf_percentile f) g \<and> pf_values g = pf_values f"
proof (cases "pf_set f = []")
  case True
  then show ?thesis using assms by (simp add: update_percentile_iterator_def pf_inv_def)
next
  case False
  let ?r = "pct_rank (pf_percentile f) (length (pf_set f))"
  have r: "?r < length (pf_set f)" using pct_rank_less [OF assms(1)] assms(3) False by simp
  have "iter_pos (pf_set f) (pf_it f) = p" using assms(2,4) False iter_pos_at by metis
  then have "update_percentile_iterator f = Some (f\<lparr>pf_it := iter_at (pf_set f) ?r, pf_index := int ?r\<rparr>)"
    using False assms(4) r by (simp add: update_percentile_iterator_def iter_advance_def pct_rank_def)
  then show ?thesis using assms by (simp add: pf_inv_def pf_values_def)
qed

lemma pf_insert_correct:
  assumes "pf_inv p f" and "size (pf_values f) < 2 ^ 24"
  shows "\<exists>g. pf_insert v f = Some g \<and> pf_inv p g \<and> pf_values g = add_mset v (pf_values f)"
proof -
  note inv = assms(1) [unfolded pf_inv_def]
  let ?xs = "ms_insert (pf_fresh f, v) (pf_set f)"
  let ?r = "pct_rank p (length (pf_set f))"
  have fresh: "fst (pf_fresh f, v) \<notin> fst ` set (pf_set f)" using inv by fastforce
  then have wf: "distinct (map fst ?xs)" "sorted (map snd ?xs)" "\<forall>n \<in> set ?xs. fst n < pf_fresh f + 1"
    using inv by (auto simp: ms_insert_distinct ms_insert_sorted)
  have vals: "mset (map snd ?xs) = add_mset v (pf_values f)" by (simp add: pf_values_def ms_insert_mset)
  have len: "length (pf_set f) < 2 ^ 24" using assms(2) by (simp add: pf_values_def)
  have upd: "\<exists>g'. update_percentile_iterator g = Some g' \<and> pf_inv p g' \<and> pf_values g' = add_mset v (pf_values f)"
    if "pf_percentile g = p" "pf_set g = ?xs" "pf_fresh g = pf_fresh f + 1"
      "q \<le> length ?xs \<and> pf_it g = iter_at ?xs q \<and> pf_index g = int q" for g q
    using update_percentile_iterator_correct [of g q] that wf vals inv len by (simp add: pf_values_def)
  show ?thesis
  proof (cases "pf_set f = []")
    case True
    show ?thesis unfolding pf_insert_def Let_def using True inv by (simp, intro upd [where q = 0]) simp_all
  next
    case False
    then have r: "?r < length (pf_set f)" using inv len pct_rank_less by simp
    let ?q = "if v < snd (pf_set f ! ?r) then ?r + 1 else ?r"
    have it: "pf_it f = iter_at ?xs ?q" using ms_insert_iter [of "pf_set f" ?r "(pf_fresh f, v)"] inv r False by simp
    have "deref ?xs (pf_it f) = Some (snd (pf_set f ! ?r))"
    proof -
      have "(fst (pf_set f ! ?r), snd (pf_set f ! ?r)) \<in> set ?xs" using r by simp
      then have "map_of ?xs (fst (pf_set f ! ?r)) = Some (snd (pf_set f ! ?r))" using wf(1) by simp
      then show ?thesis using inv False r by (simp add: deref_def iter_at_def)
    qed
    then show ?thesis unfolding pf_insert_def Let_def using False inv it r
      by (simp, intro conjI impI upd [where q = ?q]) auto
  qed
qed

lemma take_drop_mset: "l < length xs \<Longrightarrow> mset (take l xs @ drop (Suc l) xs) = mset xs - {#xs ! l#}"
  using arg_cong [OF id_take_nth_drop [of l xs], of mset] by simp

lemma removed_wf:
  assumes "l < length xs" and "distinct (map fst xs)" and "sorted (map snd xs)" and "\<forall>n \<in> set xs. fst n < k"
  shows "distinct (map fst (take l xs @ drop (Suc l) xs))" "sorted (map snd (take l xs @ drop (Suc l) xs))"
    "\<forall>n \<in> set (take l xs @ drop (Suc l) xs). fst n < k"
proof -
  have "xs = take l xs @ xs ! l # drop (Suc l) xs" by (rule id_take_nth_drop [OF assms(1)])
  then have d: "distinct (map fst (take l xs @ xs ! l # drop (Suc l) xs))"
    and o: "sorted (map snd (take l xs @ xs ! l # drop (Suc l) xs))" using assms(2,3) by simp_all
  show "distinct (map fst (take l xs @ drop (Suc l) xs))" using d by auto
  show "sorted (map snd (take l xs @ drop (Suc l) xs))"
    using o by (simp only: map_append list.map sorted_append sorted_simps) auto
  show "\<forall>n \<in> set (take l xs @ drop (Suc l) xs). fst n < k" using assms(4) by (auto dest: in_set_takeD in_set_dropD)
qed

text \<open>In an ordered container the lower bound finds a value exactly when it is present.\<close>

lemma lower_bound_found:
  assumes "sorted (map snd xs)" and "\<forall>q < l. snd (xs ! q) < v" and "l < length xs \<longrightarrow> \<not> snd (xs ! l) < v"
  shows "v \<in> snd ` set xs \<longleftrightarrow> l < length xs \<and> snd (xs ! l) = v"
proof
  assume "v \<in> snd ` set xs"
  then obtain q where q: "q < length xs" "snd (xs ! q) = v" by (auto simp: in_set_conv_nth)
  have ql: "l \<le> q" using assms(2) q(2) by (metis leI less_irrefl)
  then have "l < length xs" using q(1) by linarith
  moreover have "snd (xs ! l) \<le> v" using sorted_nth_mono [OF assms(1) ql] q ql by simp
  ultimately show "l < length xs \<and> snd (xs ! l) = v" using assms(3) by auto
next
  assume "l < length xs \<and> snd (xs ! l) = v"
  then show "v \<in> snd ` set xs" by (metis nth_mem image_eqI)
qed

text \<open>The update that follows the removal of the node at \<open>l\<close>.\<close>

lemma update_after_removal:
  assumes "pf_inv p f" and "length (pf_set f) \<le> 2 ^ 24" and "l < length (pf_set f)" and "snd (pf_set f ! l) = v"
    and "pf_percentile g = p" and "pf_set g = take l (pf_set f) @ drop (Suc l) (pf_set f)" and "pf_fresh g = pf_fresh f"
    and "q \<le> length (pf_set g) \<and> pf_it g = iter_at (pf_set g) q \<and> pf_index g = int q"
  shows "\<exists>g'. update_percentile_iterator g = Some g' \<and> pf_inv p g' \<and> pf_values g' = pf_values f - {#v#}"
proof -
  note inv = assms(1) [unfolded pf_inv_def]
  have "mset (map snd (pf_set g)) = pf_values f - {#v#}"
    using take_drop_mset [of l "map snd (pf_set f)"] assms(3,4,6) by (simp add: pf_values_def take_map drop_map)
  moreover have "distinct (map fst (pf_set g))" "sorted (map snd (pf_set g))" "\<forall>n \<in> set (pf_set g). fst n < pf_fresh g"
    unfolding assms(6,7) using removed_wf [OF assms(3)] inv by blast+
  moreover have "length (pf_set g) \<le> 2 ^ 24" using assms(2,6) by simp
  ultimately show ?thesis
    using update_percentile_iterator_correct [of g q] assms(5,8) inv by (simp add: pf_values_def)
qed

lemma pf_erase_present:
  assumes "pf_inv p f" and "length (pf_set f) \<le> 2 ^ 24" and l: "l < length (pf_set f)" "\<forall>q < l. snd (pf_set f ! q) < v"
    and lv: "snd (pf_set f ! l) = v" and lb: "ms_lower_bound (pf_set f) v = iter_at (pf_set f) l"
  shows "\<exists>g. pf_erase v f = Some (True, g) \<and> pf_inv p g \<and> pf_values g = pf_values f - {#v#}"
proof -
  note inv = assms(1) [unfolded pf_inv_def] and upd = update_after_removal [OF assms(1,2) l(1) lv]
  let ?r = "pct_rank p (length (pf_set f))" and ?xs = "take l (pf_set f) @ drop (Suc l) (pf_set f)"
  let ?q = "if l < ?r then ?r - 1 else ?r"
  have r: "?r < length (pf_set f)" by (rule pct_rank_less) (use inv assms(2) l(1) in auto)
  have it: "pf_it f = iter_at (pf_set f) ?r" "pf_index f = int ?r" using inv l(1) by auto
  have er: "node_erase (pf_set f) (fst (pf_set f ! l)) = (?xs, iter_at (pf_set f) (l + 1))"
    using node_erase_at [OF _ l(1)] inv by blast
  have at: "ms_lower_bound (pf_set f) v = Some (fst (pf_set f ! l))" "deref (pf_set f) (Some (fst (pf_set f ! l))) = Some v"
    using lb l lv deref_at [of "pf_set f" l] inv by (simp_all add: iter_at_def)
  show ?thesis
  proof (cases "?r = l")
    case eq: True
    have "iter_at (pf_set f) (l + 1) = iter_at ?xs l" using iter_at_remove [OF l(1), of "l + 1"] l(1) by simp
    then have "\<exists>g'. update_percentile_iterator (f\<lparr>pf_set := ?xs, pf_it := iter_at (pf_set f) (l + 1)\<rparr>) = Some g' \<and>
        pf_inv p g' \<and> pf_values g' = pf_values f - {#v#}"
      using inv it l(1) eq by (intro upd [where q = l]) simp_all
    moreover have "pf_it f = Some (fst (pf_set f ! l))" using it l(1) eq by (simp add: iter_at_def)
    ultimately show ?thesis using at er by (auto simp: pf_erase_def)
  next
    case neq: False
    have q: "iter_at (pf_set f) ?r = iter_at ?xs ?q" using iter_at_remove [OF l(1), of ?r] r neq by simp
    have "?q < length ?xs" using r l(1) neq by auto
    moreover have "snd (?xs ! ?q) = snd (pf_set f ! ?r)" using r l(1) neq by (auto simp: nth_append min_def)
    ultimately have dr: "deref ?xs (pf_it f) = Some (snd (pf_set f ! ?r))"
      using deref_at [OF removed_wf(1) [OF l(1)]] inv it q by metis
    have dec: "v \<le> snd (pf_set f ! ?r) \<longleftrightarrow> l < ?r"
      using l(2) neq lv r inv sorted_nth_mono [of "map snd (pf_set f)" l ?r]
      by (cases "l < ?r") (auto simp: not_le [symmetric] dest: leD)
    have "pf_it f \<noteq> Some (fst (pf_set f ! l))"
      using it r l(1) neq inv nth_eq_iff_index_eq [of "map fst (pf_set f)" ?r l] by (simp add: iter_at_def)
    moreover have "\<exists>g'. update_percentile_iterator
          (if l < ?r then f\<lparr>pf_set := ?xs, pf_index := pf_index f - 1\<rparr> else f\<lparr>pf_set := ?xs\<rparr>) = Some g' \<and>
        pf_inv p g' \<and> pf_values g' = pf_values f - {#v#}"
      using inv it l(1) q neq r by (intro upd [where q = ?q]) auto
    ultimately show ?thesis using at er dr dec by (auto simp: pf_erase_def)
  qed
qed

lemma pf_erase_correct:
  assumes "pf_inv p f" and "size (pf_values f) \<le> 2 ^ 24"
  shows "\<exists>g. pf_erase v f = Some (v \<in># pf_values f, g) \<and> pf_inv p g \<and> pf_values g = pf_values f - {#v#}"
proof -
  note inv = assms(1) [unfolded pf_inv_def]
  obtain l where l: "l \<le> length (pf_set f)" "ms_lower_bound (pf_set f) v = iter_at (pf_set f) l"
    "\<forall>q < l. snd (pf_set f ! q) < v" "l < length (pf_set f) \<longrightarrow> \<not> snd (pf_set f ! l) < v"
    using lower_bound_split by metis
  have mem: "v \<in># pf_values f \<longleftrightarrow> l < length (pf_set f) \<and> snd (pf_set f ! l) = v"
    using lower_bound_found [OF _ l(3,4)] inv by (simp add: pf_values_def)
  show ?thesis
  proof (cases "v \<in># pf_values f")
    case False
    have "pf_erase v f = Some (False, f)"
      using False mem l(2) inv deref_at [of "pf_set f" l] by (auto simp: pf_erase_def iter_at_def)
    then show ?thesis using False assms(1) by (simp add: diff_single_trivial)
  next
    case True
    then show ?thesis using pf_erase_present [OF assms(1) _ _ l(3) _ l(2)] assms(2) mem by (simp add: pf_values_def)
  qed
qed

lemma pf_value_correct:
  assumes "pf_inv p f" and "size (pf_values f) \<le> 2 ^ 24"
  shows "get_percentile_value f = Some (if pf_values f = {#} then 0
    else sorted_list_of_multiset (pf_values f) ! pct_rank p (size (pf_values f)))"
proof (cases "pf_set f = []")
  case True
  then show ?thesis by (simp add: get_percentile_value_def pf_values_def)
next
  case False
  note inv = assms(1) [unfolded pf_inv_def]
  have "pct_rank p (length (pf_set f)) < length (pf_set f)"
    using False assms(2) inv pct_rank_less by (simp add: pf_values_def)
  moreover have "sorted_list_of_multiset (pf_values f) = map snd (pf_set f)"
    using inv unfolding pf_values_def sorted_list_of_multiset_mset by (simp add: sorted_sort_id)
  ultimately show ?thesis using False inv
    by (simp add: get_percentile_value_def deref_at) (simp add: pf_values_def)
qed

section \<open>The interface\<close>

text \<open>
  What a client relies on: a store of observations that can insert and erase, whose value is the
  observation of a given rank.
\<close>

locale percentile_store =
  fixes inv :: "'s \<Rightarrow> bool" and contents :: "'s \<Rightarrow> 'a::{linorder,zero} multiset"
    and ins :: "'a \<Rightarrow> 's \<Rightarrow> 's option" and del :: "'a \<Rightarrow> 's \<Rightarrow> (bool \<times> 's) option" and val :: "'s \<Rightarrow> 'a option"
    and rank :: "nat \<Rightarrow> nat" and cap :: nat
  assumes ins_law: "inv s \<Longrightarrow> size (contents s) < cap \<Longrightarrow>
      \<exists>s'. ins v s = Some s' \<and> inv s' \<and> contents s' = add_mset v (contents s)"
    and del_law: "inv s \<Longrightarrow> size (contents s) \<le> cap \<Longrightarrow>
      \<exists>s'. del v s = Some (v \<in># contents s, s') \<and> inv s' \<and> contents s' = contents s - {#v#}"
    and val_law: "inv s \<Longrightarrow> size (contents s) \<le> cap \<Longrightarrow>
      val s = Some (if contents s = {#} then 0 else sorted_list_of_multiset (contents s) ! rank (size (contents s)))"
begin

text \<open>A window slides by inserting the new observation and erasing the oldest.\<close>

lemma slide:
  assumes "inv s" and "contents s = mset w" and "length w < cap" and "w @ [v] = u # w'"
  obtains s' s'' where "ins v s = Some s'" "del u s' = Some (True, s'')" "inv s''" "contents s'' = mset w'"
proof -
  obtain s' where s': "ins v s = Some s'" "inv s'" "contents s' = add_mset v (mset w)"
    using ins_law [OF assms(1)] assms(2,3) by auto
  have m: "add_mset v (mset w) = mset (u # w')" using arg_cong [OF assms(4), of mset] by simp
  then have sz: "size (contents s') \<le> cap" using s'(3) assms(3,4) by (metis size_mset size_add_mset Suc_leI)
  obtain s'' where "del u s' = Some (True, s'')" "inv s''" "contents s'' = mset w'"
    using del_law [OF s'(2) sz, of u] s'(3) m by auto
  with s' that show thesis by blast
qed

lemma val_sorted:
  "inv s \<Longrightarrow> contents s = mset w \<Longrightarrow> length w \<le> cap \<Longrightarrow> val s = Some (if w = [] then 0 else sort w ! rank (length w))"
  using val_law [of s] by simp

end

interpretation pf: percentile_store "pf_inv p" pf_values pf_insert pf_erase get_percentile_value "pct_rank p" "2 ^ 24"
  for p :: f32
  by unfold_locales (use pf_insert_correct pf_erase_correct pf_value_correct in blast)+

lemma pf_new_inv: "unit_interval p \<Longrightarrow> pf_inv p (pf_new p)" "pf_values (pf_new p) = {#}"
  by (simp_all add: pf_inv_def pf_new_def pf_values_def)

lemma pf_reset_inv: "pf_inv p f \<Longrightarrow> pf_inv p (pf_reset f)" "pf_values (pf_reset f) = {#}"
  by (simp_all add: pf_inv_def pf_reset_def pf_values_def)

section \<open>Operation sequences\<close>

datatype 'a pf_op = Pf_insert 'a | Pf_erase 'a | Pf_reset

fun pf_run :: "'a::linorder pf_op list \<Rightarrow> 'a percentile_filter \<Rightarrow> (bool list \<times> 'a percentile_filter) option" where
  "pf_run [] f = Some ([], f)"
| "pf_run (Pf_insert v # ops) f = (case pf_insert v f of None \<Rightarrow> None | Some f \<Rightarrow> pf_run ops f)"
| "pf_run (Pf_erase v # ops) f =
     (case pf_erase v f of None \<Rightarrow> None | Some (b, f) \<Rightarrow> map_option (apfst (Cons b)) (pf_run ops f))"
| "pf_run (Pf_reset # ops) f = pf_run ops (pf_reset f)"

text \<open>The specification: a multiset of observations.\<close>

fun pf_spec :: "'a pf_op list \<Rightarrow> 'a multiset \<Rightarrow> bool list \<times> 'a multiset" where
  "pf_spec [] m = ([], m)"
| "pf_spec (Pf_insert v # ops) m = pf_spec ops (add_mset v m)"
| "pf_spec (Pf_erase v # ops) m = apfst (Cons (v \<in># m)) (pf_spec ops (m - {#v#}))"
| "pf_spec (Pf_reset # ops) m = pf_spec ops {#}"

lemma pf_run_spec:
  fixes f :: "'a::{linorder,zero} percentile_filter"
  assumes "pf_inv p f" and "size (pf_values f) + length ops \<le> 2 ^ 24"
  shows "\<exists>g. pf_run ops f = Some (fst (pf_spec ops (pf_values f)), g) \<and> pf_inv p g \<and>
    pf_values g = snd (pf_spec ops (pf_values f)) \<and> size (pf_values g) \<le> 2 ^ 24"
  using assms
proof (induction ops arbitrary: f)
  case (Cons op ops)
  note room = Cons.prems(2)
  show ?case
  proof (cases op)
    case (Pf_insert v)
    obtain g where "pf_insert v f = Some g" "pf_inv p g" "pf_values g = add_mset v (pf_values f)"
      using pf.ins_law [OF Cons.prems(1), of v] room by auto
    then show ?thesis using Cons.IH [of g] room Pf_insert by simp
  next
    case (Pf_erase v)
    obtain g where "pf_erase v f = Some (v \<in># pf_values f, g)" "pf_inv p g" "pf_values g = pf_values f - {#v#}"
      using pf.del_law [OF Cons.prems(1), of v] room by auto
    moreover have "size (pf_values f - {#v#}) \<le> size (pf_values f)" by (rule size_mset_mono) simp
    ultimately show ?thesis using Cons.IH [of g] room Pf_erase by auto
  next
    case Pf_reset
    then show ?thesis using Cons.IH [of "pf_reset f"] room Cons.prems(1) by (simp add: pf_reset_inv)
  qed
qed simp

section \<open>Properties\<close>

text \<open>
  C16. For a percentile between 0 and 1, after any sequence of at most \<open>2\<^sup>2\<^sup>4\<close> insertions, erasures and
  resets, no iterator has left the container, erasures have reported exactly whether the value was
  present, and \<open>get_percentile_value\<close> is the observation whose rank is the truncated percentile of
  the largest rank (0 when there is none).
\<close>

theorem percentile_filter_correct:
  assumes "unit_interval p" and "length ops \<le> 2 ^ 24"
  shows "\<exists>f. pf_run ops (pf_new p) = Some (fst (pf_spec ops {#}), f) \<and>
    get_percentile_value f = Some (let m = snd (pf_spec ops {#}) in
      if m = {#} then 0 else sorted_list_of_multiset m ! f32_trunc (f32_mul p (f32_of_nat (size m - 1))))"
proof -
  obtain f where "pf_run ops (pf_new p) = Some (fst (pf_spec ops {#}), f)" "pf_inv p f"
    "pf_values f = snd (pf_spec ops {#})" "size (pf_values f) \<le> 2 ^ 24"
    using pf_run_spec [OF pf_new_inv(1) [OF assms(1)], of ops] assms(2) by (auto simp: pf_new_inv)
  then show ?thesis using pf.val_law [of p f] by (simp add: pct_rank_def Let_def)
qed

theorem percentile_filter_correct_witness:
  "\<exists>f. pf_run [Pf_insert 5, Pf_insert 3, Pf_erase 4, Pf_insert 9] (pf_new f32_half) = Some ([False], f) \<and>
    get_percentile_value f = Some (5 :: int)"
  using percentile_filter_correct [of f32_half "[Pf_insert 5, Pf_insert 3, Pf_erase 4, Pf_insert (9 :: int)]"]
  by (simp add: f32_half_scaled sorted_list_of_multiset_insert) (simp add: unit_interval_def f32_half_def)

section \<open>The moving median\<close>

definition mm_inv :: "'a list \<Rightarrow> nat \<Rightarrow> 'a::linorder moving_median_filter \<Rightarrow> bool" where
  "mm_inv w n f \<longleftrightarrow> pf_inv f32_half (mm_percentile_filter f) \<and> pf_values (mm_percentile_filter f) = mset w \<and>
     mm_samples f = w \<and> mm_samples_stored f = length w \<and> mm_window_size f = n \<and> length w \<le> n"

text \<open>The last \<open>n\<close> elements of a list.\<close>

definition latest :: "nat \<Rightarrow> 'a list \<Rightarrow> 'a list" where
  "latest n xs = drop (length xs - n) xs"

lemma latest_snoc: "latest n (xs @ [v]) = (if length (latest n xs @ [v]) > n then tl (latest n xs @ [v]) else latest n xs @ [v])"
proof -
  have snoc: "latest n xs @ [v] = drop (length xs - n) (xs @ [v])" by (simp add: latest_def)
  have "latest n (xs @ [v]) = tl (drop (length xs - n) (xs @ [v]))" if "n \<le> length xs"
    unfolding latest_def using that by (simp only: length_append_singleton Suc_diff_le tl_drop drop_Suc)
  then show ?thesis unfolding snoc by (auto simp: latest_def)
qed

lemma length_latest: "length (latest n xs) \<le> n"
  by (simp add: latest_def)

lemma mm_insert_correct:
  fixes f :: "'a::{linorder,zero} moving_median_filter"
  assumes "mm_inv w n f" and "n < 2 ^ 24"
  shows "\<exists>g. mm_insert v f = Some g \<and> mm_inv (if length (w @ [v]) > n then tl (w @ [v]) else w @ [v]) n g"
proof -
  note inv = assms(1) [unfolded mm_inv_def]
  let ?pf = "mm_percentile_filter f"
  show ?thesis
  proof (cases "length w < n")
    case True
    obtain pf' where "pf_insert v ?pf = Some pf'" "pf_inv f32_half pf'" "pf_values pf' = add_mset v (mset w)"
      using pf_insert_correct [of f32_half ?pf v] inv assms(2) by auto
    then show ?thesis using True inv by (simp add: mm_insert_def mm_inv_def)
  next
    case False
    obtain u w' where uw: "w @ [v] = u # w'" by (cases "w @ [v]") auto
    obtain pf' pf'' where "pf_insert v ?pf = Some pf'" "pf_erase u pf' = Some (True, pf'')"
      "pf_inv f32_half pf''" "pf_values pf'' = mset w'"
      using pf.slide [of f32_half ?pf w v u w'] inv assms(2) uw by auto
    moreover have "length w' = length w" using arg_cong [OF uw, of length] by simp
    ultimately show ?thesis using False inv uw by (simp add: mm_insert_def mm_inv_def)
  qed
qed

lemma unit_interval_half: "unit_interval f32_half"
  by (simp add: unit_interval_def f32_half_def)

lemma mm_inv_new: "mm_inv [] n (mm_new n)"
  by (simp add: mm_inv_def mm_new_def pf_new_inv unit_interval_half)

lemma mm_inv_reset: "mm_inv w n f \<Longrightarrow> mm_inv [] n (mm_reset f)"
  by (simp add: mm_inv_def mm_reset_def pf_reset_inv)

fun mm_insert_all :: "'a::linorder list \<Rightarrow> 'a moving_median_filter \<Rightarrow> 'a moving_median_filter option" where
  "mm_insert_all [] f = Some f"
| "mm_insert_all (v # vs) f = (case mm_insert v f of None \<Rightarrow> None | Some f \<Rightarrow> mm_insert_all vs f)"

lemma mm_insert_all_correct:
  fixes f :: "'a::{linorder,zero} moving_median_filter"
  assumes "mm_inv (latest n xs) n f" and "n < 2 ^ 24"
  shows "\<exists>g. mm_insert_all vs f = Some g \<and> mm_inv (latest n (xs @ vs)) n g"
  using assms
proof (induction vs arbitrary: xs f)
  case (Cons v vs)
  obtain g where g: "mm_insert v f = Some g" "mm_inv (latest n (xs @ [v])) n g"
    using mm_insert_correct [OF Cons.prems, of v] unfolding latest_snoc by blast
  then show ?case using Cons.IH [OF g(2) Cons.prems(2)] by simp
qed simp

text \<open>
  With a window of fewer than \<open>2\<^sup>2\<^sup>4\<close> samples, whatever was inserted before (and whether or not the
  filter was then reset), \<open>get_filtered_value\<close> is the lower median of the latest \<open>n\<close> samples since.
\<close>

theorem moving_median_correct:
  assumes "n < 2 ^ 24"
  shows "\<exists>f g. mm_insert_all xs (mm_new n) = Some f \<and> mm_insert_all ys (mm_reset f) = Some g \<and>
    get_filtered_value f = Some (let w = latest n xs in if w = [] then 0 else sort w ! ((length w - 1) div 2)) \<and>
    get_filtered_value g = Some (let w = latest n ys in if w = [] then 0 else sort w ! ((length w - 1) div 2))"
proof -
  have val: "get_filtered_value f = Some (if w = [] then 0 else sort w ! ((length w - 1) div 2))"
    if "mm_inv w n f" for w and f :: "'a::{linorder,zero} moving_median_filter"
  proof -
    have "length w - 1 < 2 ^ 24" using that assms by (auto simp: mm_inv_def)
    then show ?thesis using that assms pf.val_sorted [of f32_half "mm_percentile_filter f" w]
      by (simp add: get_filtered_value_def mm_inv_def pct_rank_def f32_half_scaled)
  qed
  have nil: "latest n [] = []" by (simp add: latest_def)
  obtain f where f: "mm_insert_all xs (mm_new n) = Some f" "mm_inv (latest n xs) n f"
    using mm_insert_all_correct [of n "[]" "mm_new n" xs] assms by (auto simp: nil mm_inv_new)
  obtain g where "mm_insert_all ys (mm_reset f) = Some g" "mm_inv (latest n ys) n g"
    using mm_insert_all_correct [of n "[]" "mm_reset f" ys] assms mm_inv_reset [OF f(2)] by (auto simp: nil)
  with f val show ?thesis unfolding Let_def by blast
qed

theorem moving_median_correct_witness:
  "\<exists>f. mm_insert_all [7, 1, 5, 9] (mm_new 3) = Some f \<and> get_filtered_value f = Some (5 :: int)"
  using moving_median_correct [of 3 "[7, 1, 5, 9 :: int]" "[]"] by (auto simp: latest_def)

section \<open>Deviations\<close>

text \<open>
  Beyond \<open>2\<^sup>2\<^sup>4\<close> observations the conversion of the count to \<open>float\<close> may round up: with percentile 1 and
  16777220 observations (largest rank 16777219) the target index is 16777220, the end iterator, and
  \<open>get_percentile_value\<close> dereferences it.
\<close>

lemma percentile_index_beyond_end: "pct_rank \<lparr>mant = 1, expo = 0\<rparr> 16777220 = 16777220"
  by (simp add: pct_rank_def f32_mul_def f32_of_nat_def f32_round_def f32_trunc_def round_half_even_def nbits.simps)

end
