(* ===== verification/RateStatistics.thy ===== *)
theory RateStatistics
  imports Float32
begin

text \<open>
  \<open>src/rate_statistics.{h,cpp}\<close>: a rate over a moving window, kept in a circular buffer with one
  bucket per millisecond.  Counters are \<open>size_t\<close> words and wrap; indices are 32-bit words; times are
  \<open>int64_t\<close> values whose arithmetic the code assumes not to overflow, here integers.  \<open>None\<close> as the
  result of an operation is an access outside the bucket array.
\<close>

section \<open>The class\<close>

record bucket =
  b_sum :: u64
  b_samples :: u64

definition bucket_zero :: bucket where
  "bucket_zero = \<lparr>b_sum = 0, b_samples = 0\<rparr>"

record rate_statistics =
  rs_buckets :: "bucket list"
  rs_accumulated_count :: u64
  rs_num_samples :: u64
  rs_oldest_time :: int
  rs_oldest_index :: u32
  rs_scale :: f32
  rs_max_window_size_ms :: int
  rs_current_window_size_ms :: int

definition rs_new :: "int \<Rightarrow> f32 \<Rightarrow> rate_statistics" where
  "rs_new window_size_ms scale =
     \<lparr>rs_buckets = replicate (nat window_size_ms) bucket_zero, rs_accumulated_count = 0, rs_num_samples = 0,
      rs_oldest_time = - window_size_ms, rs_oldest_index = 0, rs_scale = scale,
      rs_max_window_size_ms = window_size_ms, rs_current_window_size_ms = window_size_ms\<rparr>"

definition rs_is_initialized :: "rate_statistics \<Rightarrow> bool" where
  "rs_is_initialized s \<longleftrightarrow> rs_oldest_time s \<noteq> - rs_max_window_size_ms s"

definition bucket_at :: "rate_statistics \<Rightarrow> u32 \<Rightarrow> bucket option" where
  "bucket_at s i = (if unat i < length (rs_buckets s) then Some (rs_buckets s ! unat i) else None)"

definition set_bucket :: "rate_statistics \<Rightarrow> u32 \<Rightarrow> bucket \<Rightarrow> rate_statistics" where
  "set_bucket s i b = s\<lparr>rs_buckets := (rs_buckets s)[unat i := b]\<rparr>"

definition erase_oldest :: "bucket \<Rightarrow> rate_statistics \<Rightarrow> rate_statistics" where
  "erase_oldest oldest_bucket s =
     (let s = s\<lparr>rs_accumulated_count := rs_accumulated_count s - b_sum oldest_bucket,
                rs_num_samples := rs_num_samples s - b_samples oldest_bucket\<rparr>;
          s = set_bucket s (rs_oldest_index s) bucket_zero;
          s = s\<lparr>rs_oldest_index := rs_oldest_index s + 1\<rparr>;
          s = (if uint (rs_oldest_index s) \<ge> rs_max_window_size_ms s then s\<lparr>rs_oldest_index := 0\<rparr> else s)
      in s\<lparr>rs_oldest_time := rs_oldest_time s + 1\<rparr>)"

lemma erase_oldest_time [simp]: "rs_oldest_time (erase_oldest b s) = rs_oldest_time s + 1"
  by (simp add: erase_oldest_def Let_def set_bucket_def)

function erase_loop :: "int \<Rightarrow> rate_statistics \<Rightarrow> rate_statistics option" where
  "erase_loop new_oldest_time s =
     (if rs_num_samples s > 0 \<and> rs_oldest_time s < new_oldest_time
      then case bucket_at s (rs_oldest_index s) of
             None \<Rightarrow> None
           | Some oldest_bucket \<Rightarrow> erase_loop new_oldest_time (erase_oldest oldest_bucket s)
      else Some s)"
  by pat_completeness auto
termination
  by (relation "measure (\<lambda>(t, s). nat (t - rs_oldest_time s))") auto

declare erase_loop.simps [simp del]

definition erase_old :: "int \<Rightarrow> rate_statistics \<Rightarrow> rate_statistics option" where
  "erase_old now_ms s =
     (if \<not> rs_is_initialized s then Some s
      else let new_oldest_time = now_ms - rs_current_window_size_ms s + 1
           in if new_oldest_time \<le> rs_oldest_time s then Some s
              else map_option (\<lambda>s. s\<lparr>rs_oldest_time := new_oldest_time\<rparr>) (erase_loop new_oldest_time s))"

definition rs_reset :: "rate_statistics \<Rightarrow> rate_statistics" where
  "rs_reset s = s\<lparr>rs_accumulated_count := 0, rs_num_samples := 0, rs_oldest_time := - rs_max_window_size_ms s,
     rs_oldest_index := 0, rs_current_window_size_ms := rs_max_window_size_ms s,
     rs_buckets := map (\<lambda>b. bucket_zero) (rs_buckets s)\<rparr>"

definition now_index :: "int \<Rightarrow> rate_statistics \<Rightarrow> u32" where
  "now_index now_ms s =
     (let now_offset = word_of_int (now_ms - rs_oldest_time s);
          index = rs_oldest_index s + now_offset
      in if uint index \<ge> rs_max_window_size_ms s then word_of_int (uint index - rs_max_window_size_ms s) else index)"

definition rs_add :: "u64 \<Rightarrow> u32 \<Rightarrow> bucket \<Rightarrow> rate_statistics \<Rightarrow> rate_statistics" where
  "rs_add count index b s =
     (set_bucket s index \<lparr>b_sum = b_sum b + count, b_samples = b_samples b + 1\<rparr>)
       \<lparr>rs_accumulated_count := rs_accumulated_count s + count, rs_num_samples := rs_num_samples s + 1\<rparr>"

definition rs_update :: "u64 \<Rightarrow> int \<Rightarrow> rate_statistics \<Rightarrow> rate_statistics option" where
  "rs_update count now_ms s =
     (if now_ms < rs_oldest_time s then Some s
      else case erase_old now_ms s of
        None \<Rightarrow> None
      | Some s \<Rightarrow>
          let s = (if \<not> rs_is_initialized s then s\<lparr>rs_oldest_time := now_ms\<rparr> else s)
          in case bucket_at s (now_index now_ms s) of
               None \<Rightarrow> None
             | Some b \<Rightarrow> Some (rs_add count (now_index now_ms s) b s))"

text \<open>
  The result of \<open>rate\<close>: unavailable, a value, or undefined when the value does not fit 32 bits.
\<close>

datatype rate_result = Rate_nullopt | Rate u32 | Rate_undefined

definition rate_value :: "u64 \<Rightarrow> int \<Rightarrow> f32 \<Rightarrow> rate_result" where
  "rate_value accumulated_count active_window_size scale =
     (let scale = f32_div scale (f32_of_nat (nat active_window_size));
          v = f32_trunc (f32_add (f32_mul (f32_of_nat (unat accumulated_count)) scale) f32_half)
      in if v < 2 ^ 32 then Rate (of_nat v) else Rate_undefined)"

definition rs_rate :: "int \<Rightarrow> rate_statistics \<Rightarrow> (rate_result \<times> rate_statistics) option" where
  "rs_rate now_ms s =
     (case erase_old now_ms s of
        None \<Rightarrow> None
      | Some s \<Rightarrow>
          let active_window_size = now_ms - rs_oldest_time s + 1
          in Some (if rs_num_samples s = 0 \<or> active_window_size \<le> 1 \<or>
                      (rs_num_samples s \<le> 1 \<and> active_window_size < rs_current_window_size_ms s)
                   then Rate_nullopt
                   else rate_value (rs_accumulated_count s) active_window_size (rs_scale s), s))"

definition rs_set_window_size :: "int \<Rightarrow> int \<Rightarrow> rate_statistics \<Rightarrow> (bool \<times> rate_statistics) option" where
  "rs_set_window_size window_size_ms now_ms s =
     (if window_size_ms \<le> 0 \<or> window_size_ms > rs_max_window_size_ms s then Some (False, s)
      else map_option (Pair True) (erase_old now_ms (s\<lparr>rs_current_window_size_ms := window_size_ms\<rparr>)))"

section \<open>The specification\<close>

text \<open>A list of timed samples, the start of the window once there is one, and the window size.\<close>

type_synonym samples = "(int \<times> u64) list"

record window =
  w_samples :: samples
  w_oldest :: "int option"
  w_size :: int

definition w_new :: "int \<Rightarrow> window" where
  "w_new n = \<lparr>w_samples = [], w_oldest = None, w_size = n\<rparr>"

text \<open>Moving the window forward drops what has become too old; it never moves back.\<close>

definition w_move :: "int \<Rightarrow> window \<Rightarrow> window" where
  "w_move now w =
     (case w_oldest w of
        None \<Rightarrow> w
      | Some t \<Rightarrow>
          if now - w_size w + 1 \<le> t then w
          else w\<lparr>w_oldest := Some (now - w_size w + 1), w_samples := filter (\<lambda>x. now - w_size w + 1 \<le> fst x) (w_samples w)\<rparr>)"

definition w_update :: "u64 \<Rightarrow> int \<Rightarrow> window \<Rightarrow> window" where
  "w_update count now w =
     (if case w_oldest w of None \<Rightarrow> False | Some t \<Rightarrow> now < t then w
      else let w = w_move now w
           in w\<lparr>w_oldest := Some (case w_oldest w of None \<Rightarrow> now | Some t \<Rightarrow> t), w_samples := (now, count) # w_samples w\<rparr>)"

definition w_rate :: "f32 \<Rightarrow> int \<Rightarrow> window \<Rightarrow> rate_result" where
  "w_rate scale now w =
     (let w = w_move now w; n = length (w_samples w); active = now - the (w_oldest w) + 1
      in if n = 0 \<or> active \<le> 1 \<or> n \<le> 1 \<and> active < w_size w then Rate_nullopt
         else rate_value (sum_list (map snd (w_samples w))) active scale)"

section \<open>Refinement\<close>

text \<open>The bucket of a millisecond holds the samples of that time.\<close>

definition bucket_of :: "samples \<Rightarrow> int \<Rightarrow> bucket" where
  "bucket_of h t = \<lparr>b_sum = sum_list (map snd (filter (\<lambda>x. fst x = t) h)),
     b_samples = of_nat (length (filter (\<lambda>x. fst x = t) h))\<rparr>"

text \<open>\<open>h\<close> is what the circular buffer holds.\<close>

definition rs_holds :: "samples \<Rightarrow> rate_statistics \<Rightarrow> bool" where
  "rs_holds h s \<longleftrightarrow>
     0 < rs_max_window_size_ms s \<and> rs_max_window_size_ms s \<le> 2 ^ 31 \<and>
     int (length (rs_buckets s)) = rs_max_window_size_ms s \<and>
     unat (rs_oldest_index s) < length (rs_buckets s) \<and>
     rs_accumulated_count s = sum_list (map snd h) \<and> rs_num_samples s = of_nat (length h) \<and> length h < 2 ^ 64 \<and>
     (\<forall>x \<in> set h. rs_oldest_time s \<le> fst x \<and> fst x < rs_oldest_time s + rs_max_window_size_ms s) \<and>
     (\<forall>k < length (rs_buckets s). rs_buckets s ! ((unat (rs_oldest_index s) + k) mod length (rs_buckets s)) =
        bucket_of h (rs_oldest_time s + int k))"

lemma bucket_of_Nil [simp]: "bucket_of [] t = bucket_zero"
  by (simp add: bucket_of_def bucket_zero_def)

lemma bucket_of_Cons:
  "bucket_of ((t', c) # h) t =
     (if t = t' then \<lparr>b_sum = b_sum (bucket_of h t) + c, b_samples = b_samples (bucket_of h t) + 1\<rparr> else bucket_of h t)"
  by (simp add: bucket_of_def add.commute)

lemma bucket_of_out: "\<forall>x \<in> set h. fst x \<noteq> t \<Longrightarrow> bucket_of h t = bucket_zero"
  by (simp add: bucket_of_def bucket_zero_def filter_False)

lemma bucket_of_filter: "P t \<Longrightarrow> bucket_of (filter (\<lambda>x. P (fst x)) h) t = bucket_of h t"
  unfolding bucket_of_def filter_filter by (metis (mono_tags, lifting) filter_cong)

lemma sum_split: "sum_list (map snd (h :: samples)) = b_sum (bucket_of h t) + sum_list (map snd (filter (\<lambda>x. fst x \<noteq> t) h))"
  by (induction h) (auto simp: bucket_of_def)

lemma length_split:
  "(of_nat (length h) :: u64) = b_samples (bucket_of h t) + of_nat (length (filter (\<lambda>x. fst x \<noteq> t) h))"
  by (induction h) (auto simp: bucket_of_def)

lemma ring_index: "i < N \<Longrightarrow> k < N \<Longrightarrow> (i + k) mod N = (if i + k < N then i + k else i + k - N)" for N :: nat
  by (simp add: le_mod_geq not_less)

lemma ring_index_inj: "i < N \<Longrightarrow> k < N \<Longrightarrow> k' < N \<Longrightarrow> (i + k) mod N = (i + k') mod N \<longleftrightarrow> k = k'" for N :: nat
  by (auto simp: ring_index split: if_splits)

lemma of_nat_64_gt_0: "n < 2 ^ 64 \<Longrightarrow> (of_nat n :: u64) > 0 \<longleftrightarrow> 0 < n"
  by (simp add: word_less_nat_alt unsigned_of_nat take_bit_nat_eq_self)

lemma of_nat_64_le_1: "n < 2 ^ 64 \<Longrightarrow> (of_nat n :: u64) \<le> 1 \<longleftrightarrow> n \<le> 1"
  by (simp add: word_le_nat_alt unsigned_of_nat take_bit_nat_eq_self)

lemma rs_holds_num: "rs_holds h s \<Longrightarrow> rs_num_samples s > 0 \<longleftrightarrow> h \<noteq> []"
  using of_nat_64_gt_0 [of "length h"] by (simp add: rs_holds_def)

text \<open>An empty buffer may be relabelled with any start.\<close>

lemma rs_holds_empty: "rs_holds [] s \<Longrightarrow> rs_holds [] (s\<lparr>rs_oldest_time := t\<rparr>)"
  by (simp add: rs_holds_def)

lemma erase_oldest_fields [simp]:
  "rs_buckets (erase_oldest b s) = (rs_buckets s)[unat (rs_oldest_index s) := bucket_zero]"
  "rs_accumulated_count (erase_oldest b s) = rs_accumulated_count s - b_sum b"
  "rs_num_samples (erase_oldest b s) = rs_num_samples s - b_samples b"
  "rs_max_window_size_ms (erase_oldest b s) = rs_max_window_size_ms s"
  "rs_current_window_size_ms (erase_oldest b s) = rs_current_window_size_ms s"
  "rs_scale (erase_oldest b s) = rs_scale s"
  by (simp_all add: erase_oldest_def Let_def set_bucket_def)

lemma erase_oldest_index:
  assumes "int (length (rs_buckets s)) = rs_max_window_size_ms s" and "rs_max_window_size_ms s \<le> 2 ^ 31"
    and "unat (rs_oldest_index s) < length (rs_buckets s)"
  shows "unat (rs_oldest_index (erase_oldest b s)) = (unat (rs_oldest_index s) + 1) mod length (rs_buckets s)"
proof -
  have "unat (rs_oldest_index s + 1) = unat (rs_oldest_index s) + 1"
    using assms by (subst unat_add_lem [THEN iffD1]) auto
  moreover have "(unat (rs_oldest_index s) + 1) mod length (rs_buckets s) =
      (if unat (rs_oldest_index s) + 1 = length (rs_buckets s) then 0 else unat (rs_oldest_index s) + 1)"
    using assms(3) by simp
  moreover have "uint (rs_oldest_index s + 1) \<ge> rs_max_window_size_ms s \<longleftrightarrow>
      unat (rs_oldest_index s + 1) \<ge> length (rs_buckets s)"
    unfolding assms(1) [symmetric] uint_nat by (rule of_nat_le_iff)
  ultimately show ?thesis using assms(3)
    by (simp add: erase_oldest_def Let_def set_bucket_def not_le)
qed

lemma erase_oldest_holds:
  assumes "rs_holds h s"
  shows "rs_holds (filter (\<lambda>x. rs_oldest_time s + 1 \<le> fst x) h) (erase_oldest (bucket_of h (rs_oldest_time s)) s)"
proof -
  note inv = assms [unfolded rs_holds_def]
  let ?t = "rs_oldest_time s" and ?i = "unat (rs_oldest_index s)" and ?N = "length (rs_buckets s)"
  let ?h = "filter (\<lambda>x. ?t + 1 \<le> fst x) h" and ?s = "erase_oldest (bucket_of h ?t) s"
  have h: "?h = filter (\<lambda>x. fst x \<noteq> ?t) h" using inv by (auto intro!: filter_cong)
  have i: "unat (rs_oldest_index ?s) = (?i + 1) mod ?N" using erase_oldest_index inv by blast
  have "rs_buckets ?s ! (((?i + 1) mod ?N + k) mod ?N) = bucket_of ?h (?t + 1 + int k)" if k: "k < ?N" for k
  proof (cases "k = ?N - 1")
    case True
    have "?i + 1 + k = ?i + ?N" using True k by linarith
    then have "((?i + 1) mod ?N + k) mod ?N = (?i + ?N) mod ?N" using mod_add_left_eq [of "?i + 1" ?N k] by (simp only:)
    then have "((?i + 1) mod ?N + k) mod ?N = ?i" using inv by simp
    moreover have "bucket_of ?h (?t + 1 + int k) = bucket_zero"
      using inv True by (intro bucket_of_out) (auto simp: of_nat_diff)
    ultimately show ?thesis using inv by simp
  next
    case False
    then have k1: "k + 1 < ?N" using k by simp
    have ix: "((?i + 1) mod ?N + k) mod ?N = (?i + (k + 1)) mod ?N" using mod_add_left_eq [of "?i + 1" ?N k] by (simp only: add.assoc add.commute [of 1])
    have "(?i + (k + 1)) mod ?N \<noteq> ?i" using ring_index_inj [of ?i ?N "k + 1" 0] inv k1 by force
    moreover have "rs_buckets s ! ((?i + (k + 1)) mod ?N) = bucket_of h (?t + int (k + 1))" using inv k1 by blast
    ultimately show ?thesis using bucket_of_filter [of "\<lambda>u. ?t + 1 \<le> u"] unfolding ix by (simp add: add.assoc)
  qed
  moreover have "\<forall>x \<in> set ?h. ?t + 1 \<le> fst x \<and> fst x < ?t + 1 + rs_max_window_size_ms s" using inv by auto
  moreover have "length ?h < 2 ^ 64" by (rule le_less_trans [OF length_filter_le]) (use inv in blast)
  moreover have "rs_accumulated_count ?s = sum_list (map snd ?h)" "rs_num_samples ?s = of_nat (length ?h)"
    using inv sum_split [of h ?t] length_split [of h ?t] unfolding h by simp_all
  moreover have "(?i + 1) mod ?N < ?N" by (rule mod_less_divisor) (use inv in linarith)
  moreover have "0 < rs_max_window_size_ms s" "rs_max_window_size_ms s \<le> 2 ^ 31" "int ?N = rs_max_window_size_ms s"
    using inv by blast+
  ultimately show ?thesis unfolding rs_holds_def erase_oldest_fields erase_oldest_time length_list_update i by blast
qed

text \<open>The loop drops exactly the samples before the new start.\<close>

lemma erase_loop_correct:
  "rs_holds h s \<Longrightarrow> rs_oldest_time s \<le> t \<Longrightarrow>
   \<exists>s'. erase_loop t s = Some s' \<and> rs_holds (filter (\<lambda>x. t \<le> fst x) h) (s'\<lparr>rs_oldest_time := t\<rparr>) \<and>
     rs_max_window_size_ms s' = rs_max_window_size_ms s \<and> rs_current_window_size_ms s' = rs_current_window_size_ms s \<and>
     rs_scale s' = rs_scale s"
proof (induction "nat (t - rs_oldest_time s)" arbitrary: h s)
  case 0
  then have t: "t = rs_oldest_time s" by simp
  have "filter (\<lambda>x. t \<le> fst x) h = h" unfolding t using "0.prems"(1) by (intro filter_True) (auto simp: rs_holds_def)
  then show ?case using "0.prems" t by (subst erase_loop.simps) simp
next
  case (Suc n)
  show ?case
  proof (cases "h = []")
    case True
    then show ?thesis using Suc.prems rs_holds_num [OF Suc.prems(1)] rs_holds_empty
      by (subst erase_loop.simps) simp
  next
    case False
    let ?b = "bucket_of h (rs_oldest_time s)" and ?h = "filter (\<lambda>x. rs_oldest_time s + 1 \<le> fst x) h"
    note inv = Suc.prems(1) [unfolded rs_holds_def]
    have lt: "rs_oldest_time s < t" using Suc.hyps(2) by linarith
    have "rs_buckets s ! ((unat (rs_oldest_index s) + 0) mod length (rs_buckets s)) = bucket_of h (rs_oldest_time s + int 0)"
      using inv by (metis length_greater_0_conv list.size(3) less_nat_zero_code)
    then have b: "bucket_at s (rs_oldest_index s) = Some ?b" using inv by (simp add: bucket_at_def)
    have step: "erase_loop t s = erase_loop t (erase_oldest ?b s)"
      using False rs_holds_num [OF Suc.prems(1)] lt b by (subst erase_loop.simps) simp
    have "filter (\<lambda>x. t \<le> fst x) ?h = filter (\<lambda>x. t \<le> fst x) h" using lt by (auto intro!: filter_cong)
    moreover have "n = nat (t - rs_oldest_time (erase_oldest ?b s))" using Suc.hyps(2) by simp
    ultimately show ?thesis
      using Suc.hyps(1) [of "erase_oldest ?b s" ?h] erase_oldest_holds [OF Suc.prems(1)] lt unfolding step by simp
  qed
qed

text \<open>The relation between the class and the window of the specification.\<close>

definition rs_rel :: "window \<Rightarrow> rate_statistics \<Rightarrow> bool" where
  "rs_rel w s \<longleftrightarrow> rs_holds (w_samples w) s \<and> w_size w = rs_current_window_size_ms s \<and>
     0 < w_size w \<and> w_size w \<le> rs_max_window_size_ms s \<and>
     (case w_oldest w of
        None \<Rightarrow> w_samples w = [] \<and> rs_oldest_time s = - rs_max_window_size_ms s
      | Some t \<Rightarrow> rs_oldest_time s = t \<and> - rs_max_window_size_ms s < t)"

lemma erase_old_correct:
  assumes "rs_rel w s" and "0 \<le> now"
  shows "\<exists>s'. erase_old now s = Some s' \<and> rs_rel (w_move now w) s' \<and> rs_scale s' = rs_scale s \<and>
    rs_max_window_size_ms s' = rs_max_window_size_ms s"
proof (cases "w_oldest w")
  case None
  then show ?thesis using assms(1) by (auto simp: erase_old_def rs_is_initialized_def rs_rel_def w_move_def)
next
  case (Some t)
  note rel = assms(1) [unfolded rs_rel_def Some]
  let ?t = "now - w_size w + 1"
  show ?thesis
  proof (cases "?t \<le> t")
    case True
    then show ?thesis using assms(1) Some rel by (simp add: erase_old_def rs_is_initialized_def w_move_def)
  next
    case False
    obtain s' where "erase_loop ?t s = Some s'" "rs_holds (filter (\<lambda>x. ?t \<le> fst x) (w_samples w)) (s'\<lparr>rs_oldest_time := ?t\<rparr>)"
      "rs_max_window_size_ms s' = rs_max_window_size_ms s" "rs_current_window_size_ms s' = rs_current_window_size_ms s"
      "rs_scale s' = rs_scale s"
      using erase_loop_correct [of "w_samples w" s ?t] rel False by auto
    then show ?thesis using Some rel False assms(2)
      by (simp add: erase_old_def rs_is_initialized_def w_move_def rs_rel_def Let_def)
  qed
qed

text \<open>Adding a sample at a time inside the window.\<close>

lemma rs_add_holds:
  assumes "rs_holds h s" and "rs_oldest_time s \<le> now" and "now < rs_oldest_time s + rs_max_window_size_ms s"
    and "length h + 1 < 2 ^ 64"
    and "unat index = (unat (rs_oldest_index s) + nat (now - rs_oldest_time s)) mod length (rs_buckets s)"
  shows "bucket_at s index = Some (bucket_of h now)" "rs_holds ((now, count) # h) (rs_add count index (bucket_of h now) s)"
proof -
  note inv = assms(1) [unfolded rs_holds_def]
  let ?i = "unat (rs_oldest_index s)" and ?N = "length (rs_buckets s)" and ?t = "rs_oldest_time s"
  let ?d = "nat (now - ?t)"
  have d: "?d < ?N" "?t + int ?d = now" using assms(2,3) inv by linarith+
  have ix: "unat index < ?N" unfolding assms(5) by (rule mod_less_divisor) (use d in linarith)
  have "rs_buckets s ! ((?i + ?d) mod ?N) = bucket_of h (?t + int ?d)" using inv d(1) by blast
  then show "bucket_at s index = Some (bucket_of h now)" using ix assms(5) d(2) by (simp add: bucket_at_def)
  have "(rs_buckets s)[(?i + ?d) mod ?N := \<lparr>b_sum = b_sum (bucket_of h now) + count, b_samples = b_samples (bucket_of h now) + 1\<rparr>]
      ! ((?i + k) mod ?N) = bucket_of ((now, count) # h) (?t + int k)" if k: "k < ?N" for k
  proof (cases "k = ?d")
    case True
    then show ?thesis using ix assms(5) d(2) by (simp add: bucket_of_Cons)
  next
    case False
    then have "(?i + ?d) mod ?N \<noteq> (?i + k) mod ?N" using ring_index_inj [of ?i ?N ?d k] inv d(1) k by blast
    moreover have "?t + int k \<noteq> now" using False d(2) by linarith
    moreover have "rs_buckets s ! ((?i + k) mod ?N) = bucket_of h (?t + int k)" using inv k by blast
    ultimately show ?thesis by (simp add: bucket_of_Cons)
  qed
  then show "rs_holds ((now, count) # h) (rs_add count index (bucket_of h now) s)"
    using inv assms(2-5) by (simp add: rs_holds_def rs_add_def set_bucket_def add.commute)
qed

lemma unat_of_nat_32: "n < 2 ^ 32 \<Longrightarrow> unat (of_nat n :: u32) = n"
  by (simp add: unsigned_of_nat take_bit_nat_eq_self)

text \<open>The index computation in 32-bit arithmetic is addition modulo the number of buckets.\<close>

lemma update_index:
  assumes "rs_holds h s" and "rs_oldest_time s \<le> now" and "now < rs_oldest_time s + rs_max_window_size_ms s"
  shows "unat (now_index now s) =
    (unat (rs_oldest_index s) + nat (now - rs_oldest_time s)) mod length (rs_buckets s)"
proof -
  note inv = assms(1) [unfolded rs_holds_def]
  let ?i = "unat (rs_oldest_index s)" and ?N = "length (rs_buckets s)" 
  obtain d where dd: "now - rs_oldest_time s = int d" using assms(2) nonneg_int_cases [of "now - rs_oldest_time s"] by auto
  then have dn: "nat (now - rs_oldest_time s) = d" by simp
  have d: "d < ?N" using assms(3) inv dd by linarith
  have "int ?N \<le> 2 ^ 31" using inv by simp
  then have N: "?N \<le> 2 ^ 31" by simp
  have iN: "?i < ?N" using inv by blast
  define index where "index = rs_oldest_index s + word_of_int (now - rs_oldest_time s)"
  have ixw: "index = of_nat (?i + d)" unfolding index_def dd by simp
  have small: "?i + d < 2 ^ 32" using iN d N by simp
  have ix: "unat index = ?i + d"
    unfolding ixw by (rule unat_of_nat_32 [OF small])
  have ui: "uint index = int (?i + d)" unfolding uint_nat ix by simp
  have M: "rs_max_window_size_ms s = int ?N" using inv by simp
  have eq: "now_index now s = (if uint index \<ge> int ?N then word_of_int (uint index - int ?N) else index)"
    unfolding now_index_def Let_def index_def [symmetric] M ..
  show ?thesis
  proof (cases "?i + d < ?N")
    case True
    then have "now_index now s = index" unfolding eq ui by (simp only: of_nat_le_iff) simp
    then show ?thesis using ix True unfolding dn by simp
  next
    case False
    have r: "(?i + d) mod ?N = ?i + d - ?N" using ring_index [OF iN d] False by simp
    have "uint index - int ?N = int (?i + d - ?N)" unfolding ui using False by (simp only: of_nat_diff not_less)
    then have "now_index now s = of_nat (?i + d - ?N)" unfolding eq ui using False by (simp only: of_nat_le_iff) simp
    moreover have "?i + d - ?N < 2 ^ 32" using small by linarith
    ultimately have "unat (now_index now s) = ?i + d - ?N" by (simp only: unat_of_nat_32)
    then show ?thesis unfolding dn r .
  qed
qed

lemma w_move_fields:
  "w_oldest (w_move now w) = None \<longleftrightarrow> w_oldest w = None" "w_size (w_move now w) = w_size w"
  "length (w_samples (w_move now w)) \<le> length (w_samples w)"
  "w_oldest (w_move now w) = Some t \<Longrightarrow> now - w_size w + 1 \<le> t"
  by (auto simp: w_move_def split: option.splits if_splits)

lemma w_move_le: "w_oldest w = Some t \<Longrightarrow> t \<le> now \<Longrightarrow> 0 < w_size w \<Longrightarrow> \<exists>t'. w_oldest (w_move now w) = Some t' \<and> t' \<le> now"
  by (simp add: w_move_def)

lemma rs_update_correct:
  assumes "rs_rel w s" and "0 \<le> now" and "length (w_samples w) + 1 < 2 ^ 64"
  shows "\<exists>s'. rs_update count now s = Some s' \<and> rs_rel (w_update count now w) s' \<and> rs_scale s' = rs_scale s \<and>
    rs_max_window_size_ms s' = rs_max_window_size_ms s"
proof (cases "\<exists>t. w_oldest w = Some t \<and> now < t")
  case True
  then show ?thesis using assms(1) by (auto simp: rs_update_def w_update_def rs_rel_def)
next
  case False
  let ?w = "w_move now w"
  obtain s' where s': "erase_old now s = Some s'" "rs_rel ?w s'" "rs_scale s' = rs_scale s"
    "rs_max_window_size_ms s' = rs_max_window_size_ms s"
    using erase_old_correct [OF assms(1,2)] by blast
  define t where "t = (case w_oldest ?w of None \<Rightarrow> now | Some t \<Rightarrow> t)"
  define s2 where "s2 = (if \<not> rs_is_initialized s' then s'\<lparr>rs_oldest_time := now\<rparr> else s')"
  have upd: "w_update count now w = ?w\<lparr>w_oldest := Some t, w_samples := (now, count) # w_samples ?w\<rparr>"
    using False by (auto simp: w_update_def t_def Let_def split: option.splits)
  have now: "\<not> now < rs_oldest_time s"
    using False assms(1,2) by (cases "w_oldest w") (auto simp: rs_rel_def)
  have s2: "rs_holds (w_samples ?w) s2" "rs_oldest_time s2 = t" "- rs_max_window_size_ms s < t"
    "rs_max_window_size_ms s2 = rs_max_window_size_ms s" "rs_scale s2 = rs_scale s"
    "rs_current_window_size_ms s2 = w_size w" "w_size w \<le> rs_max_window_size_ms s"
    using s' assms(2) rs_holds_empty w_move_fields(2) [of now w]
    by (cases "w_oldest ?w"; auto simp: s2_def t_def rs_rel_def rs_is_initialized_def)+
  have t: "t \<le> now" "now < t + rs_max_window_size_ms s"
  proof -
    have "0 < w_size w" "w_size w \<le> rs_max_window_size_ms s" using assms(1) by (simp_all add: rs_rel_def)
    then show "t \<le> now" "now < t + rs_max_window_size_ms s"
      using False w_move_fields(1,4) [of now w] w_move_le [of w _ now]
      by (cases "w_oldest w"; auto simp: t_def split: option.splits; force)+
  qed
  let ?ix = "now_index now s2"
  have "length (w_samples ?w) + 1 < 2 ^ 64" using w_move_fields(3) [of now w] assms(3) by linarith
  then have b: "bucket_at s2 ?ix = Some (bucket_of (w_samples ?w) now)"
    "rs_holds ((now, count) # w_samples ?w) (rs_add count ?ix (bucket_of (w_samples ?w) now) s2)"
    using rs_add_holds [OF s2(1), of now ?ix] update_index [OF s2(1), of now] t s2(2,4) by simp_all
  have "rs_update count now s = Some (rs_add count ?ix (bucket_of (w_samples ?w) now) s2)"
    using now s'(1) b(1) unfolding rs_update_def Let_def s2_def by simp
  then show ?thesis unfolding upd using b(2) s2 assms(1) w_move_fields(2) [of now w]
    by (auto simp: rs_rel_def rs_add_def set_bucket_def)
qed

lemma rs_rate_correct:
  assumes "rs_rel w s" and "0 \<le> now"
  shows "\<exists>s'. rs_rate now s = Some (w_rate (rs_scale s) now w, s') \<and> rs_rel (w_move now w) s' \<and> rs_scale s' = rs_scale s \<and>
    rs_max_window_size_ms s' = rs_max_window_size_ms s"
proof -
  obtain s' where s': "erase_old now s = Some s'" "rs_rel (w_move now w) s'" "rs_scale s' = rs_scale s"
    "rs_max_window_size_ms s' = rs_max_window_size_ms s"
    using erase_old_correct [OF assms] by blast
  let ?h = "w_samples (w_move now w)"
  have h: "length ?h < 2 ^ 64" "rs_num_samples s' = of_nat (length ?h)" "rs_accumulated_count s' = sum_list (map snd ?h)"
    "rs_current_window_size_ms s' = w_size w"
    using s'(2) w_move_fields(2) [of now w] by (auto simp: rs_rel_def rs_holds_def)
  have "rs_num_samples s' = 0 \<longleftrightarrow> length ?h = 0"
    using of_nat_64_gt_0 [OF h(1)] unfolding h(2) by (metis gr0I less_irrefl word_gt_0)
  moreover have "rs_num_samples s' \<le> 1 \<longleftrightarrow> length ?h \<le> 1" using of_nat_64_le_1 [OF h(1)] unfolding h(2) .
  moreover have "rs_oldest_time s' = the (w_oldest (w_move now w))" if "length ?h \<noteq> 0"
    using s'(2) that by (auto simp: rs_rel_def split: option.splits)
  ultimately have "rs_rate now s = Some (w_rate (rs_scale s) now w, s')"
    using s'(1,3) h(3,4) w_move_fields(2) [of now w] by (auto simp: rs_rate_def w_rate_def Let_def)
  then show ?thesis using s' by blast
qed

definition w_set_size :: "int \<Rightarrow> int \<Rightarrow> int \<Rightarrow> window \<Rightarrow> bool \<times> window" where
  "w_set_size limit n now w = (if n \<le> 0 \<or> n > limit then (False, w) else (True, w_move now (w\<lparr>w_size := n\<rparr>)))"

lemma rs_set_window_size_correct:
  assumes "rs_rel w s" and "0 \<le> now"
  shows "\<exists>s'. rs_set_window_size n now s = Some (fst (w_set_size (rs_max_window_size_ms s) n now w), s') \<and>
    rs_rel (snd (w_set_size (rs_max_window_size_ms s) n now w)) s' \<and> rs_scale s' = rs_scale s \<and>
    rs_max_window_size_ms s' = rs_max_window_size_ms s"
proof (cases "n \<le> 0 \<or> n > rs_max_window_size_ms s")
  case True
  then show ?thesis using assms(1) by (simp add: rs_set_window_size_def w_set_size_def)
next
  case False
  then have "rs_rel (w\<lparr>w_size := n\<rparr>) (s\<lparr>rs_current_window_size_ms := n\<rparr>)"
    using assms(1) by (auto simp: rs_rel_def rs_holds_def split: option.splits)
  then show ?thesis using erase_old_correct [OF _ assms(2)] False by (fastforce simp: rs_set_window_size_def w_set_size_def)
qed

lemma rs_new_rel: "0 < n \<Longrightarrow> n \<le> 2 ^ 31 \<Longrightarrow> rs_rel (w_new n) (rs_new n scale)"
  by (simp add: rs_rel_def rs_holds_def rs_new_def w_new_def)

lemma rs_reset_rel: "rs_rel w s \<Longrightarrow> rs_rel (w_new (rs_max_window_size_ms s)) (rs_reset s)"
  by (auto simp: rs_rel_def rs_holds_def rs_reset_def w_new_def)

section \<open>Operation sequences\<close>

datatype rs_op = Rs_update u64 int | Rs_rate int | Rs_set_window_size int int | Rs_reset
datatype rs_out = Out_rate rate_result | Out_bool bool | Out_unit

fun rs_op_time :: "rs_op \<Rightarrow> int" where
  "rs_op_time (Rs_update c now) = now"
| "rs_op_time (Rs_rate now) = now"
| "rs_op_time (Rs_set_window_size n now) = now"
| "rs_op_time Rs_reset = 0"

fun rs_step :: "rs_op \<Rightarrow> rate_statistics \<Rightarrow> (rs_out \<times> rate_statistics) option" where
  "rs_step (Rs_update c now) s = map_option (Pair Out_unit) (rs_update c now s)"
| "rs_step (Rs_rate now) s = map_option (apfst Out_rate) (rs_rate now s)"
| "rs_step (Rs_set_window_size n now) s = map_option (apfst Out_bool) (rs_set_window_size n now s)"
| "rs_step Rs_reset s = Some (Out_unit, rs_reset s)"

fun rs_run :: "rs_op list \<Rightarrow> rate_statistics \<Rightarrow> rs_out list option" where
  "rs_run [] s = Some []"
| "rs_run (op # ops) s = (case rs_step op s of None \<Rightarrow> None | Some (r, s) \<Rightarrow> map_option (Cons r) (rs_run ops s))"

fun w_step :: "f32 \<Rightarrow> int \<Rightarrow> rs_op \<Rightarrow> window \<Rightarrow> rs_out \<times> window" where
  "w_step scale limit (Rs_update c now) w = (Out_unit, w_update c now w)"
| "w_step scale limit (Rs_rate now) w = (Out_rate (w_rate scale now w), w_move now w)"
| "w_step scale limit (Rs_set_window_size n now) w = apfst Out_bool (w_set_size limit n now w)"
| "w_step scale limit Rs_reset w = (Out_unit, w_new limit)"

fun w_run :: "f32 \<Rightarrow> int \<Rightarrow> rs_op list \<Rightarrow> window \<Rightarrow> rs_out list" where
  "w_run scale limit [] w = []"
| "w_run scale limit (op # ops) w = (let (r, w) = w_step scale limit op w in r # w_run scale limit ops w)"

lemma w_step_length: "length (w_samples (snd (w_step scale limit op w))) \<le> length (w_samples w) + 1"
  using w_move_fields(3) [of _ w] w_move_fields(3) [of _ "w\<lparr>w_size := _\<rparr>"]
  by (cases op) (auto simp: w_update_def w_set_size_def w_new_def Let_def le_SucI)

lemma rs_step_correct:
  assumes "rs_rel w s" and "0 \<le> rs_op_time op" and "length (w_samples w) + 1 < 2 ^ 64"
  shows "\<exists>s'. rs_step op s = Some (fst (w_step (rs_scale s) (rs_max_window_size_ms s) op w), s') \<and>
    rs_rel (snd (w_step (rs_scale s) (rs_max_window_size_ms s) op w)) s' \<and> rs_scale s' = rs_scale s \<and>
    rs_max_window_size_ms s' = rs_max_window_size_ms s"
proof (cases op)
  case (Rs_update c now)
  then show ?thesis using rs_update_correct [OF assms(1) _ assms(3), of now c] assms(2) by auto
next
  case (Rs_rate now)
  then show ?thesis using rs_rate_correct [OF assms(1), of now] assms(2) by auto
next
  case (Rs_set_window_size n now)
  then show ?thesis using rs_set_window_size_correct [OF assms(1), of now n] assms(2) by auto
next
  case Rs_reset
  moreover have "rs_scale (rs_reset s) = rs_scale s" "rs_max_window_size_ms (rs_reset s) = rs_max_window_size_ms s"
    by (simp_all add: rs_reset_def)
  ultimately show ?thesis using rs_reset_rel [OF assms(1)] by simp
qed

lemma rs_run_correct:
  "rs_rel w s \<Longrightarrow> \<forall>op \<in> set ops. 0 \<le> rs_op_time op \<Longrightarrow> length (w_samples w) + length ops < 2 ^ 64 \<Longrightarrow>
   rs_run ops s = Some (w_run (rs_scale s) (rs_max_window_size_ms s) ops w)"
proof (induction ops arbitrary: w s)
  case (Cons op ops)
  let ?w = "snd (w_step (rs_scale s) (rs_max_window_size_ms s) op w)"
  obtain s' where s': "rs_step op s = Some (fst (w_step (rs_scale s) (rs_max_window_size_ms s) op w), s')"
    "rs_rel ?w s'" "rs_scale s' = rs_scale s" "rs_max_window_size_ms s' = rs_max_window_size_ms s"
    using rs_step_correct [OF Cons.prems(1), of op] Cons.prems(2,3) by auto
  have "rs_run ops s' = Some (w_run (rs_scale s') (rs_max_window_size_ms s') ops ?w)"
    using w_step_length [of "rs_scale s" "rs_max_window_size_ms s" op w] Cons.prems(2,3)
    by (intro Cons.IH [OF s'(2)]) auto
  then show ?case using s'(1,3,4) by (simp add: case_prod_beta)
qed simp

text \<open>30 counts in 4 ms at the scale of bits per second.\<close>

lemma rate_value_example: "rate_value 30 4 \<lparr>mant = 8000, expo = 0\<rparr> = Rate 60000"
proof -
  have nb: "nbits 4 = 3" "nbits 2147483648000 = 41" by (simp_all add: nbits.simps)
  have "f32_div \<lparr>mant = 8000, expo = 0\<rparr> (f32_of_nat 4) = \<lparr>mant = 16384000, expo = -13\<rparr>"
    by (simp add: f32_of_nat_exact f32_div_def nb f32_round_def round_half_even_def)
  moreover have "f32_mul (f32_of_nat 30) \<lparr>mant = 16384000, expo = -13\<rparr> = \<lparr>mant = 15360000, expo = -8\<rparr>"
    by (simp add: f32_of_nat_exact f32_mul_def f32_round_def round_half_even_def nbits.simps)
  moreover have "f32_trunc (f32_add \<lparr>mant = 15360000, expo = -8\<rparr> f32_half) = 60000"
    by (simp add: f32_half_def f32_add_def f32_round_def round_half_even_def nbits.simps f32_trunc_def)
  ultimately show ?thesis by (simp add: rate_value_def)
qed

text \<open>Moving the window twice is moving it to the later time.\<close>

lemma w_move_move: "now \<le> now' \<Longrightarrow> w_move now' (w_move now w) = w_move now' w"
proof -
  assume le: "now \<le> now'"
  have "(\<lambda>x :: int \<times> u64. now - n + 1 \<le> fst x \<and> now' - n + 1 \<le> fst x) = (\<lambda>x. now' - n + 1 \<le> fst x)" for n
    using le by fastforce
  then show ?thesis using le by (simp add: w_move_def split: option.splits)
qed

definition is_sample_op :: "rs_op \<Rightarrow> bool" where
  "is_sample_op op \<longleftrightarrow> (case op of Rs_update c now \<Rightarrow> True | Rs_rate now \<Rightarrow> True | _ \<Rightarrow> False)"

lemma w_step_after_move:
  assumes "case w_oldest w of None \<Rightarrow> True | Some t \<Rightarrow> t \<le> now" and "0 < w_size w"
    and "is_sample_op op" and "now \<le> rs_op_time op"
  shows "w_step scale limit op (w_move now w) = w_step scale limit op w"
proof (cases op)
  case (Rs_update c now')
  have "\<not> now' < t" if "w_oldest w = Some t \<or> w_oldest (w_move now w) = Some t" for t
    using that assms Rs_update by (auto simp: w_move_def split: option.splits if_splits)
  then show ?thesis using Rs_update assms(4) w_move_move [of now now' w]
    by (auto simp: w_update_def split: option.splits)
next
  case (Rs_rate now')
  then show ?thesis using w_move_move [of now now' w] assms(4) by (simp add: w_rate_def)
qed (use assms(3) in \<open>simp_all add: is_sample_op_def\<close>)

text \<open>The window never starts after the latest time seen.\<close>

fun w_final :: "f32 \<Rightarrow> int \<Rightarrow> rs_op list \<Rightarrow> window \<Rightarrow> window" where
  "w_final scale limit [] w = w"
| "w_final scale limit (op # ops) w = w_final scale limit ops (snd (w_step scale limit op w))"

lemma w_run_append: "w_run scale limit (xs @ ys) w = w_run scale limit xs w @ w_run scale limit ys (w_final scale limit xs w)"
  by (induction xs arbitrary: w) (simp_all add: case_prod_beta)

lemma w_step_started:
  assumes "case w_oldest w of None \<Rightarrow> True | Some t \<Rightarrow> t \<le> now" and "0 < w_size w" and "0 < limit"
    and "rs_op_time op \<le> now"
  shows "(case w_oldest (snd (w_step scale limit op w)) of None \<Rightarrow> True | Some t \<Rightarrow> t \<le> now) \<and>
    0 < w_size (snd (w_step scale limit op w))"
  using assms by (cases op) (auto simp: w_update_def w_move_def w_set_size_def w_new_def Let_def split: option.splits if_splits)

lemma w_final_started:
  assumes "case w_oldest w of None \<Rightarrow> True | Some t \<Rightarrow> t \<le> now" and "0 < w_size w" and "0 < limit"
    and "\<forall>op \<in> set ops. rs_op_time op \<le> now"
  shows "(case w_oldest (w_final scale limit ops w) of None \<Rightarrow> True | Some t \<Rightarrow> t \<le> now) \<and>
    0 < w_size (w_final scale limit ops w)"
  using assms
proof (induction ops arbitrary: w)
  case (Cons op ops)
  then show ?case using w_step_started [OF Cons.prems(1-3), of op scale] by simp
qed simp

lemma w_run_extra_rate:
  assumes "case w_oldest w of None \<Rightarrow> True | Some t \<Rightarrow> t \<le> now" and "0 < w_size w"
    and "is_sample_op op" and "now \<le> rs_op_time op"
  shows "w_run scale limit (Rs_rate now # op # ops) w = Out_rate (w_rate scale now w) # w_run scale limit (op # ops) w"
  using w_step_after_move [OF assms, of scale limit] by simp

section \<open>Queries that change nothing\<close>

text \<open>
  The specification a client sees: as above, but asking for the rate leaves the window where it is.
\<close>

fun spec_step :: "f32 \<Rightarrow> int \<Rightarrow> rs_op \<Rightarrow> window \<Rightarrow> rs_out \<times> window" where
  "spec_step scale limit (Rs_update c now) w = (Out_unit, w_update c now w)"
| "spec_step scale limit (Rs_rate now) w = (Out_rate (w_rate scale now w), w)"
| "spec_step scale limit (Rs_set_window_size n now) w = apfst Out_bool (w_set_size limit n now w)"
| "spec_step scale limit Rs_reset w = (Out_unit, w_new limit)"

fun spec_run :: "f32 \<Rightarrow> int \<Rightarrow> rs_op list \<Rightarrow> window \<Rightarrow> rs_out list" where
  "spec_run scale limit [] w = []"
| "spec_run scale limit (op # ops) w = (let (r, w) = spec_step scale limit op w in r # spec_run scale limit ops w)"

text \<open>
  The clients for which that is what happens: their clock is monotonic, and they do not enlarge the window
  when the last operation on it was a query.
\<close>

fun rs_client :: "int \<Rightarrow> int \<Rightarrow> int \<Rightarrow> bool \<Rightarrow> rs_op list \<Rightarrow> bool" where
  "rs_client limit now sz queried [] = True"
| "rs_client limit now sz queried (Rs_update c t # ops) \<longleftrightarrow> now \<le> t \<and> rs_client limit t sz False ops"
| "rs_client limit now sz queried (Rs_rate t # ops) \<longleftrightarrow> now \<le> t \<and> rs_client limit t sz True ops"
| "rs_client limit now sz queried (Rs_set_window_size n t # ops) \<longleftrightarrow> now \<le> t \<and>
     (if n \<le> 0 \<or> n > limit then rs_client limit t sz queried ops
      else (queried \<longrightarrow> n \<le> sz) \<and> rs_client limit t n False ops)"
| "rs_client limit now sz queried (Rs_reset # ops) \<longleftrightarrow> rs_client limit now limit False ops"

definition behind :: "bool \<Rightarrow> int \<Rightarrow> window \<Rightarrow> window \<Rightarrow> bool" where
  "behind queried now p w \<longleftrightarrow> (if queried then \<exists>m \<le> now. w = w_move m p else w = p) \<and>
     0 < w_size p \<and> (\<forall>t. w_oldest p = Some t \<longrightarrow> t \<le> now)"

lemma behind_move: "behind q now p w \<Longrightarrow> now \<le> t \<Longrightarrow> w_move t w = w_move t p"
  by (auto simp: behind_def w_move_move split: if_splits)

lemma behind_size: "behind q now p w \<Longrightarrow> w_size w = w_size p"
  by (auto simp: behind_def w_move_fields split: if_splits)

lemma behind_later: "behind q now p w \<Longrightarrow> now \<le> t \<Longrightarrow> behind q t p w"
  unfolding behind_def by (metis order.trans)

lemma behind_update:
  assumes "behind q now p w" and "now \<le> t"
  shows "w_update c t w = w_update c t p"
proof -
  have "\<not> (case w_oldest p of None \<Rightarrow> False | Some u \<Rightarrow> t < u)" using assms by (auto simp: behind_def split: option.splits)
  moreover have "\<not> (case w_oldest w of None \<Rightarrow> False | Some u \<Rightarrow> t < u)"
    using assms by (auto simp: behind_def w_move_def split: option.splits if_splits)
  ultimately show ?thesis using behind_move [OF assms] by (simp add: w_update_def)
qed

text \<open>Making the window smaller moves its start at least as far as the query had moved it.\<close>

lemma behind_resize:
  assumes "behind q now p w" and "now \<le> t" and "q \<longrightarrow> n \<le> w_size p"
  shows "w_move t (w\<lparr>w_size := n\<rparr>) = w_move t (p\<lparr>w_size := n\<rparr>)"
proof (cases q)
  case True
  then obtain m where m: "m \<le> now" "w = w_move m p" using assms(1) by (auto simp: behind_def)
  have "m - w_size p + 1 \<le> t - n + 1" using m(1) assms True by simp
  then have "(\<lambda>x :: int \<times> u64. m - w_size p + 1 \<le> fst x \<and> t - n + 1 \<le> fst x) = (\<lambda>x. t - n + 1 \<le> fst x)" by fastforce
  then show ?thesis using \<open>m - w_size p + 1 \<le> t - n + 1\<close> unfolding m(2) by (simp add: w_move_def split: option.splits)
qed (use assms(1) in \<open>simp add: behind_def\<close>)

lemma w_run_spec: "behind q now p w \<Longrightarrow> 0 < limit \<Longrightarrow> rs_client limit now (w_size p) q ops \<Longrightarrow>
   w_run scale limit ops w = spec_run scale limit ops p"
proof (induction ops arbitrary: q now p w)
  case (Cons op ops)
  have "case w_oldest p of None \<Rightarrow> True | Some t \<Rightarrow> t \<le> max now (rs_op_time op)"
    using Cons.prems(1) by (auto simp: behind_def max.coboundedI1 split: option.split)
  then have started: "(\<forall>t. w_oldest (snd (w_step scale limit op p)) = Some t \<longrightarrow> t \<le> max now (rs_op_time op)) \<and>
      0 < w_size (snd (w_step scale limit op p))"
    using w_step_started [OF _ _ Cons.prems(2), where w = p and op = op and scale = scale] Cons.prems(1)
    by (fastforce simp: behind_def)
  note IH = Cons.IH [OF _ Cons.prems(2)]
  show ?case
  proof (cases op)
    case (Rs_update c t)
    then have t: "now \<le> t" "rs_client limit t (w_size p) False ops" using Cons.prems(3) by auto
    have "w_size (w_update c t p) = w_size p" by (simp add: w_update_def Let_def w_move_fields)
    then show ?thesis
      using started Rs_update t behind_update [OF Cons.prems(1) t(1)] IH [of False t "w_update c t p" "w_update c t p"]
      by (simp add: behind_def)
  next
    case (Rs_rate t)
    then have t: "now \<le> t" "rs_client limit t (w_size p) True ops" using Cons.prems(3) by auto
    have "behind True t p (w_move t w)"
      using behind_later [OF Cons.prems(1) t(1)] behind_move [OF Cons.prems(1) t(1)] by (auto simp: behind_def)
    then show ?thesis using Rs_rate t behind_move [OF Cons.prems(1) t(1)] behind_size [OF Cons.prems(1)] IH
      by (simp add: w_rate_def)
  next
    case (Rs_set_window_size n t)
    then have t: "now \<le> t" using Cons.prems(3) by auto
    show ?thesis
    proof (cases "n \<le> 0 \<or> n > limit")
      case True
      then show ?thesis using Rs_set_window_size Cons.prems(3) IH behind_later [OF Cons.prems(1) t] by (simp add: w_set_size_def)
    next
      case False
      let ?p = "w_move t (p\<lparr>w_size := n\<rparr>)"
      have "rs_client limit t n False ops" "q \<longrightarrow> n \<le> w_size p" using False Rs_set_window_size Cons.prems(3) by auto
      then show ?thesis using started Rs_set_window_size False t behind_resize [OF Cons.prems(1) t, of n] IH [of False t ?p ?p]
        by (simp add: behind_def w_set_size_def w_move_fields)
    qed
  next
    case Rs_reset
    then show ?thesis using Cons.prems(2,3) IH [of False now "w_new limit" "w_new limit"] by (simp add: behind_def w_new_def)
  qed
qed simp

lemma rs_client_times: "rs_client limit now sz q ops \<Longrightarrow> 0 \<le> now \<Longrightarrow> \<forall>op \<in> set ops. 0 \<le> rs_op_time op"
  by (induction limit now sz q ops rule: rs_client.induct) (auto split: if_splits)

section \<open>Properties\<close>



text \<open>
  With a monotonic clock a rate query is not observable, as the header promises: inserting one before
  an update or a rate query changes no later result.
\<close>

theorem rate_query_unobservable:
  assumes "0 < n" and "n \<le> 2 ^ 31" and "length ops + length ops' + 2 < 2 ^ 64"
    and "\<forall>op \<in> set (ops @ op # ops'). 0 \<le> rs_op_time op"
    and "0 \<le> now" and "\<forall>op \<in> set ops. rs_op_time op \<le> now" and "now \<le> rs_op_time op" and "is_sample_op op"
  shows "\<exists>before rate after. length before = length ops \<and>
    rs_run (ops @ op # ops') (rs_new n scale) = Some (before @ after) \<and>
    rs_run (ops @ Rs_rate now # op # ops') (rs_new n scale) = Some (before @ Out_rate rate # after)"
proof -
  let ?w = "w_final scale n ops (w_new n)"
  have run: "rs_run xs (rs_new n scale) = Some (w_run scale n xs (w_new n))"
    if "\<forall>op \<in> set xs. 0 \<le> rs_op_time op" "length xs < 2 ^ 64" for xs
    using rs_run_correct [OF rs_new_rel [OF assms(1,2)] that(1), of scale] that(2) by (simp add: rs_new_def w_new_def)
  have "(case w_oldest ?w of None \<Rightarrow> True | Some t \<Rightarrow> t \<le> now) \<and> 0 < w_size ?w"
    using assms(1,6) by (intro w_final_started) (simp_all add: w_new_def)
  then have "w_run scale n (Rs_rate now # op # ops') ?w = Out_rate (w_rate scale now ?w) # w_run scale n (op # ops') ?w"
    using assms(7,8) w_run_extra_rate by blast
  moreover have "length (w_run scale n ops (w_new n)) = length ops" for scale
    by (induction ops arbitrary: rule: rev_induct) (simp_all add: w_run_append case_prod_beta)
  ultimately show ?thesis using assms(3-5)
    by (intro exI [of _ "w_run scale n ops (w_new n)"] exI [of _ "w_rate scale now ?w"] exI [of _ "w_run scale n (op # ops') ?w"])
      (simp add: run w_run_append)
qed

theorem rate_query_unobservable_witness:
  "\<exists>before rate after. length before = 1 \<and>
    rs_run [Rs_update 7 0, Rs_update 9 3] (rs_new 4 f32_half) = Some (before @ after) \<and>
    rs_run [Rs_update 7 0, Rs_rate 2, Rs_update 9 3] (rs_new 4 f32_half) = Some (before @ Out_rate rate # after)"
  using rate_query_unobservable [of 4 "[Rs_update 7 0]" "[]" "Rs_update 9 3" 2 f32_half] by (simp add: is_sample_op_def)

section \<open>Deviations\<close>

text \<open>
  Enlarging the window right after a rate query does observe it: with windows of 2 and then 4 ms the
  sample at time 0 is lost when a query at time 2 has moved the window.
\<close>

lemma rate_query_observable_by_set_window_size:
  "w_samples (w_final sc 4 [Rs_set_window_size 2 0, Rs_update 1 0, Rs_set_window_size 4 2] (w_new 4)) = [(0, 1)]"
  "w_samples (w_final sc 4 [Rs_set_window_size 2 0, Rs_update 1 0, Rs_rate 2, Rs_set_window_size 4 2] (w_new 4)) = []"
  by (simp_all add: w_new_def w_set_size_def w_update_def w_move_def)

text \<open>
  The start of the window doubles as the flag that there is none: a first sample at the negative time
  \<open>-max_window_size_ms\<close> leaves the object uninitialised although it holds a sample.
\<close>

lemma negative_time_stays_uninitialized:
  "map_option (\<lambda>s. (rs_is_initialized s, rs_num_samples s)) (rs_update 1 (-4) (rs_new 4 f32_half)) = Some (False, 1)"
  by (simp add: rs_update_def erase_old_def rs_new_def rs_is_initialized_def now_index_def bucket_at_def rs_add_def
      set_bucket_def Let_def)

end
