(* ===== verification/Sigslot.thy ===== *)
theory Sigslot
  imports NodeList "HOL-Library.Sublist"
begin

text \<open>
  \<open>src/sigslot.h\<close> and \<open>src/sigslot_repeater.h\<close>: signals and the objects with slots they are connected
  to.  Both kinds of objects live in a store and are named by their address; a signal keeps the list
  of its connections and the iterator of an emission in progress, an object with slots keeps the set
  of its senders (ordered by address, as \<open>std::set\<close> is).  \<open>None\<close> as the result of an operation is an
  access to an object that is not alive, or to the end of a list.  The threading policy is the default
  \<open>SingleThreaded\<close>, whose locks do nothing.
\<close>

section \<open>Objects\<close>

type_synonym addr = nat

record connection =
  pdest :: addr
  pmethod :: nat

definition duplicate :: "connection \<Rightarrow> addr \<Rightarrow> connection" where
  "duplicate c newtarget = c\<lparr>pdest := newtarget\<rparr>"

record signal_base =
  m_connected_slots :: "connection node list"
  m_current_iterator :: iter

record world =
  signals :: "addr \<rightharpoonup> signal_base"
  has_slots :: "addr \<rightharpoonup> addr list"
  fresh :: nat

definition signal_new :: signal_base where
  "signal_new = \<lparr>m_connected_slots = [], m_current_iterator = None\<rparr>"

definition update_signal :: "addr \<Rightarrow> (signal_base \<Rightarrow> signal_base) \<Rightarrow> world \<Rightarrow> world option" where
  "update_signal s f w =
     (case signals w s of None \<Rightarrow> None | Some sg \<Rightarrow> Some (w\<lparr>signals := (signals w)(s \<mapsto> f sg)\<rparr>))"

definition update_senders :: "addr \<Rightarrow> (addr list \<Rightarrow> addr list) \<Rightarrow> world \<Rightarrow> world option" where
  "update_senders r f w =
     (case has_slots w r of None \<Rightarrow> None | Some ss \<Rightarrow> Some (w\<lparr>has_slots := (has_slots w)(r \<mapsto> f ss)\<rparr>))"

definition push_back :: "addr \<Rightarrow> connection \<Rightarrow> world \<Rightarrow> world option" where
  "push_back s c w =
     map_option (fresh_update Suc)
       (update_signal s (\<lambda>sg. sg\<lparr>m_connected_slots := m_connected_slots sg @ [(fresh w, c)]\<rparr>) w)"

section \<open>Objects with slots\<close>

definition do_signal_connect :: "addr \<Rightarrow> addr \<Rightarrow> world \<Rightarrow> world option" where
  "do_signal_connect r sender = update_senders r (insort_insert sender)"

definition do_signal_disconnect :: "addr \<Rightarrow> addr \<Rightarrow> world \<Rightarrow> world option" where
  "do_signal_disconnect r sender = update_senders r (remove1 sender)"

section \<open>Signals\<close>

text \<open>Erasing a connection advances the iterator of a running emission that stands on it.\<close>

definition erase_connection :: "nat \<Rightarrow> signal_base \<Rightarrow> signal_base" where
  "erase_connection i sg =
     (let (xs, it) = node_erase (m_connected_slots sg) i
      in sg\<lparr>m_connected_slots := xs,
            m_current_iterator := (if m_current_iterator sg = Some i then it else m_current_iterator sg)\<rparr>)"

fun slot_disconnect_loop :: "addr \<Rightarrow> connection node list \<Rightarrow> signal_base \<Rightarrow> signal_base" where
  "slot_disconnect_loop r [] sg = sg"
| "slot_disconnect_loop r (n # ns) sg =
     slot_disconnect_loop r ns (if pdest (snd n) = r then erase_connection (fst n) sg else sg)"

definition do_slot_disconnect :: "addr \<Rightarrow> addr \<Rightarrow> world \<Rightarrow> world option" where
  "do_slot_disconnect s r = update_signal s (\<lambda>sg. slot_disconnect_loop r (m_connected_slots sg) sg)"

text \<open>The loop runs to the end of the list, which its own insertions extend.\<close>

partial_function (option) slot_duplicate_loop ::
  "addr \<Rightarrow> addr \<Rightarrow> addr \<Rightarrow> connection node list \<Rightarrow> world \<Rightarrow> world option" where
  "slot_duplicate_loop s oldtarget newtarget pending w =
     (case pending of
        [] \<Rightarrow> Some w
      | n # ns \<Rightarrow>
          if pdest (snd n) = oldtarget
          then case push_back s (duplicate (snd n) newtarget) w of
                 None \<Rightarrow> None
               | Some w' \<Rightarrow>
                   slot_duplicate_loop s oldtarget newtarget (ns @ [(fresh w, duplicate (snd n) newtarget)]) w'
          else slot_duplicate_loop s oldtarget newtarget ns w)"

definition do_slot_duplicate :: "addr \<Rightarrow> addr \<Rightarrow> addr \<Rightarrow> world \<Rightarrow> world option" where
  "do_slot_duplicate s oldtarget newtarget w =
     (case signals w s of
        None \<Rightarrow> None
      | Some sg \<Rightarrow> slot_duplicate_loop s oldtarget newtarget (m_connected_slots sg) w)"

fun disconnect_all_loop :: "addr \<Rightarrow> connection node list \<Rightarrow> world \<Rightarrow> world option" where
  "disconnect_all_loop s [] w = Some w"
| "disconnect_all_loop s (n # ns) w =
     (case update_signal s (\<lambda>sg. sg\<lparr>m_connected_slots := ns\<rparr>) w of
        None \<Rightarrow> None
      | Some w \<Rightarrow>
          (case do_signal_disconnect (pdest (snd n)) s w of
             None \<Rightarrow> None
           | Some w \<Rightarrow> disconnect_all_loop s ns w))"

definition signal_disconnect_all :: "addr \<Rightarrow> world \<Rightarrow> world option" where
  "signal_disconnect_all s w =
     (case signals w s of
        None \<Rightarrow> None
      | Some sg \<Rightarrow>
          (case disconnect_all_loop s (m_connected_slots sg) w of
             None \<Rightarrow> None
           | Some w \<Rightarrow> update_signal s (m_current_iterator_update (\<lambda>_. None)) w))"

definition disconnect :: "addr \<Rightarrow> addr \<Rightarrow> world \<Rightarrow> world option" where
  "disconnect s pclass w =
     (case signals w s of
        None \<Rightarrow> None
      | Some sg \<Rightarrow>
          (case find (\<lambda>n. pdest (snd n) = pclass) (m_connected_slots sg) of
             None \<Rightarrow> Some w
           | Some n \<Rightarrow>
               (case update_signal s (erase_connection (fst n)) w of
                  None \<Rightarrow> None
                | Some w \<Rightarrow> do_signal_disconnect pclass s w)))"

definition connect :: "addr \<Rightarrow> addr \<Rightarrow> nat \<Rightarrow> world \<Rightarrow> world option" where
  "connect s pclass pmemfun w =
     (case push_back s \<lparr>pdest = pclass, pmethod = pmemfun\<rparr> w of
        None \<Rightarrow> None
      | Some w \<Rightarrow> do_signal_connect pclass s w)"

definition signal_is_empty :: "addr \<Rightarrow> world \<Rightarrow> bool option" where
  "signal_is_empty s w = map_option (\<lambda>sg. m_connected_slots sg = []) (signals w s)"

text \<open>Copy construction connects the new signal to every destination of the old one.\<close>

fun signal_copy_loop :: "addr \<Rightarrow> connection node list \<Rightarrow> world \<Rightarrow> world option" where
  "signal_copy_loop s [] w = Some w"
| "signal_copy_loop s (n # ns) w =
     (case do_signal_connect (pdest (snd n)) s w of
        None \<Rightarrow> None
      | Some w \<Rightarrow> (case push_back s (snd n) w of None \<Rightarrow> None | Some w \<Rightarrow> signal_copy_loop s ns w))"

definition signal_copy :: "addr \<Rightarrow> addr \<Rightarrow> world \<Rightarrow> world option" where
  "signal_copy s old w =
     (case signals w old of
        None \<Rightarrow> None
      | Some sg \<Rightarrow> signal_copy_loop s (m_connected_slots sg) (w\<lparr>signals := (signals w)(s \<mapsto> signal_new)\<rparr>))"

definition signal_destroy :: "addr \<Rightarrow> world \<Rightarrow> world option" where
  "signal_destroy s w = map_option (\<lambda>w. w\<lparr>signals := (signals w)(s := None)\<rparr>) (signal_disconnect_all s w)"

fun slot_disconnect_each :: "addr list \<Rightarrow> addr \<Rightarrow> world \<Rightarrow> world option" where
  "slot_disconnect_each [] r w = Some w"
| "slot_disconnect_each (s # ss) r w =
     (case do_slot_disconnect s r w of None \<Rightarrow> None | Some w \<Rightarrow> slot_disconnect_each ss r w)"

partial_function (option) do_disconnect_all :: "addr \<Rightarrow> world \<Rightarrow> world option" where
  "do_disconnect_all r w =
     (case has_slots w r of
        None \<Rightarrow> None
      | Some senders \<Rightarrow>
          if senders = [] then Some w
          else case slot_disconnect_each senders r (w\<lparr>has_slots := (has_slots w)(r \<mapsto> [])\<rparr>) of
                 None \<Rightarrow> None
               | Some w \<Rightarrow> do_disconnect_all r w)"

definition has_slots_destroy :: "addr \<Rightarrow> world \<Rightarrow> world option" where
  "has_slots_destroy r w = map_option (\<lambda>w. w\<lparr>has_slots := (has_slots w)(r := None)\<rparr>) (do_disconnect_all r w)"

fun has_slots_copy_loop :: "addr \<Rightarrow> addr \<Rightarrow> addr list \<Rightarrow> world \<Rightarrow> world option" where
  "has_slots_copy_loop r old [] w = Some w"
| "has_slots_copy_loop r old (s # ss) w =
     (case do_slot_duplicate s old r w of
        None \<Rightarrow> None
      | Some w \<Rightarrow> (case do_signal_connect r s w of None \<Rightarrow> None | Some w \<Rightarrow> has_slots_copy_loop r old ss w))"

definition has_slots_copy :: "addr \<Rightarrow> addr \<Rightarrow> world \<Rightarrow> world option" where
  "has_slots_copy r old w =
     (case has_slots w old of
        None \<Rightarrow> None
      | Some senders \<Rightarrow> has_slots_copy_loop r old senders (w\<lparr>has_slots := (has_slots w)(r \<mapsto> [])\<rparr>))"

section \<open>Emission\<close>

definition emit_begin :: "addr \<Rightarrow> world \<Rightarrow> world option" where
  "emit_begin s = update_signal s (\<lambda>sg. sg\<lparr>m_current_iterator := iter_at (m_connected_slots sg) 0\<rparr>)"

text \<open>One round of the loop: the connection to call, the iterator already on the next one.\<close>

definition emit_next :: "addr \<Rightarrow> world \<Rightarrow> (connection \<times> world) option" where
  "emit_next s w =
     (case signals w s of
        None \<Rightarrow> None
      | Some sg \<Rightarrow>
          (case deref (m_connected_slots sg) (m_current_iterator sg) of
             None \<Rightarrow> None
           | Some c \<Rightarrow>
               (case iter_advance (m_connected_slots sg) (m_current_iterator sg) 1 of
                  None \<Rightarrow> None
                | Some it \<Rightarrow> Some (c, w\<lparr>signals := (signals w)(s \<mapsto> sg\<lparr>m_current_iterator := it\<rparr>)\<rparr>))))"

datatype sig_op =
    New_signal addr
  | New_has_slots addr
  | Connect addr addr nat
  | Disconnect addr addr
  | Disconnect_all addr
  | Copy_signal addr addr
  | Copy_has_slots addr addr
  | Destroy_signal addr
  | Destroy_has_slots addr
  | Emit addr

text \<open>Everything but emission is a single operation.\<close>

fun sig_exec :: "sig_op \<Rightarrow> world \<Rightarrow> world option" where
  "sig_exec (New_signal s) w = Some (w\<lparr>signals := (signals w)(s \<mapsto> signal_new)\<rparr>)"
| "sig_exec (New_has_slots r) w = Some (w\<lparr>has_slots := (has_slots w)(r \<mapsto> [])\<rparr>)"
| "sig_exec (Connect s r m) w = connect s r m w"
| "sig_exec (Disconnect s r) w = disconnect s r w"
| "sig_exec (Disconnect_all s) w = signal_disconnect_all s w"
| "sig_exec (Copy_signal s old) w = signal_copy s old w"
| "sig_exec (Copy_has_slots r old) w = has_slots_copy r old w"
| "sig_exec (Destroy_signal s) w = signal_destroy s w"
| "sig_exec (Destroy_has_slots r) w = has_slots_destroy r w"
| "sig_exec (Emit s) w = emit_begin s w"

section \<open>Invariant\<close>

definition dests :: "signal_base \<Rightarrow> addr list" where
  "dests sg = map (\<lambda>n. pdest (snd n)) (m_connected_slots sg)"

text \<open>
  A signal: identities are those of live nodes, at most one connection per destination, and the
  iterator stands on a node of the list or at its end.
\<close>

definition signal_ok :: "nat \<Rightarrow> signal_base \<Rightarrow> bool" where
  "signal_ok k sg \<longleftrightarrow> distinct (map fst (m_connected_slots sg)) \<and> (\<forall>n \<in> set (m_connected_slots sg). fst n < k) \<and>
     distinct (dests sg) \<and>
     (\<exists>p \<le> length (m_connected_slots sg). m_current_iterator sg = iter_at (m_connected_slots sg) p)"

definition connected :: "world \<Rightarrow> addr \<Rightarrow> addr \<Rightarrow> bool" where
  "connected w s r \<longleftrightarrow> (case signals w s of None \<Rightarrow> False | Some sg \<Rightarrow> r \<in> set (dests sg))"

text \<open>The world: destinations are alive, and the senders of an object are the signals connected to it.\<close>

definition world_ok :: "world \<Rightarrow> bool" where
  "world_ok w \<longleftrightarrow>
     (\<forall>s sg. signals w s = Some sg \<longrightarrow> signal_ok (fresh w) sg \<and> set (dests sg) \<subseteq> dom (has_slots w)) \<and>
     (\<forall>r ss. has_slots w r = Some ss \<longrightarrow> distinct ss \<and> (\<forall>s. s \<in> set ss \<longleftrightarrow> connected w s r))"

lemma signal_okD:
  assumes "signal_ok k sg"
  shows "distinct (map fst (m_connected_slots sg))" "n \<in> set (m_connected_slots sg) \<Longrightarrow> fst n < k" "distinct (dests sg)"
    "\<exists>p \<le> length (m_connected_slots sg). m_current_iterator sg = iter_at (m_connected_slots sg) p"
  using assms by (auto simp: signal_ok_def)

lemma signal_ok_mono: "signal_ok k sg \<Longrightarrow> k \<le> k' \<Longrightarrow> signal_ok k' sg"
  by (force simp: signal_ok_def)

lemma signal_ok_new: "signal_ok k signal_new"
  by (simp add: signal_ok_def signal_new_def dests_def iter_at_def)

text \<open>Appending a connection to a destination not yet connected.\<close>

lemma signal_ok_append:
  assumes "signal_ok k sg" and "pdest c \<notin> set (dests sg)"
  shows "signal_ok (Suc k) (sg\<lparr>m_connected_slots := m_connected_slots sg @ [(k, c)]\<rparr>)"
proof -
  obtain p where p: "p \<le> length (m_connected_slots sg)" "m_current_iterator sg = iter_at (m_connected_slots sg) p"
    using signal_okD(4) [OF assms(1)] by blast
  let ?xs = "m_connected_slots sg @ [(k, c)]"
  have "\<exists>q \<le> length ?xs. m_current_iterator sg = iter_at ?xs q"
  proof (cases "p < length (m_connected_slots sg)")
    case True
    then show ?thesis using p(2) by (intro exI [of _ p]) (simp add: iter_at_def nth_append)
  next
    case False
    then show ?thesis using p(2) by (intro exI [of _ "length ?xs"]) (simp add: iter_at_def)
  qed
  moreover have "k \<notin> fst ` set (m_connected_slots sg)" using signal_okD(2) [OF assms(1)] by fastforce
  ultimately show ?thesis using signal_okD(1,2,3) [OF assms(1)] assms(2)
    by (auto simp: signal_ok_def dests_def less_SucI)
qed

lemma erase_connection_slots [simp]:
  "m_connected_slots (erase_connection i sg) = filter (\<lambda>n. fst n \<noteq> i) (m_connected_slots sg)"
  by (simp add: erase_connection_def node_erase_def)

lemma distinct_map_filter: "distinct (map f xs) \<Longrightarrow> distinct (map f (filter P xs))"
  by (induction xs) auto

text \<open>The iterator keeps its place among the nodes that stay.\<close>

lemma erase_connection_iter:
  assumes "distinct (map fst (m_connected_slots sg))" and "p \<le> length (m_connected_slots sg)"
    and "m_current_iterator sg = iter_at (m_connected_slots sg) p"
  shows "m_current_iterator (erase_connection i sg) =
    iter_at (filter (\<lambda>n. fst n \<noteq> i) (m_connected_slots sg)) (length (filter (\<lambda>n. fst n \<noteq> i) (take p (m_connected_slots sg))))"
proof -
  let ?xs = "m_connected_slots sg" and ?P = "\<lambda>n. fst n \<noteq> i"
  show ?thesis
  proof (cases "i \<in> fst ` set ?xs")
    case True
    then obtain l where l: "l < length ?xs" "fst (?xs ! l) = i" by (auto simp: in_set_conv_nth)
    have er: "node_erase ?xs i = (take l ?xs @ drop (Suc l) ?xs, iter_at ?xs (l + 1))"
      using node_erase_at [OF assms(1) l(1)] l(2) by simp
    then have ys: "filter ?P ?xs = take l ?xs @ drop (Suc l) ?xs" by (simp add: node_erase_def)
    have cur: "m_current_iterator sg = Some i \<longleftrightarrow> p = l"
      using assms(2,3) l nth_eq_iff_index_eq [OF assms(1), of p l] by (cases "p < length ?xs") (simp_all add: iter_at_def)
    have it: "m_current_iterator (erase_connection i sg) = (if p = l then iter_at ?xs (l + 1) else iter_at ?xs p)"
      using er cur assms(3) by (simp add: erase_connection_def)
    have oth: "fst (?xs ! j) \<noteq> i" if "j < length ?xs" "j \<noteq> l" for j
      using that l nth_eq_iff_index_eq [OF assms(1), of j l] by simp
    have before: "filter ?P (take q ?xs) = take q ?xs" if "q \<le> l" for q
    proof (rule filter_True, rule ballI)
      fix x
      assume "x \<in> set (take q ?xs)"
      then obtain j where "j < q" "x = ?xs ! j" using that l(1) by (auto simp: in_set_conv_nth)
      then show "fst x \<noteq> i" using oth [of j] that l(1) by simp
    qed
    have len: "length (filter ?P (take p ?xs)) = (if l < p then p - 1 else p)"
    proof (cases "l < p")
      case True
      have "take p ?xs = take l ?xs @ ?xs ! l # drop (Suc l) (take p ?xs)"
        using id_take_nth_drop [of l "take p ?xs"] True l(1) assms(2) by (simp add: min_def)
      then have "filter ?P (take p ?xs) = filter ?P (take l ?xs) @ filter ?P (drop (Suc l) (take p ?xs))"
        using l(2) by (metis (mono_tags, lifting) filter.simps(2) filter_append)
      moreover have "filter ?P (drop (Suc l) (take p ?xs)) = drop (Suc l) (take p ?xs)"
      proof (rule filter_True, rule ballI)
        fix x
        assume "x \<in> set (drop (Suc l) (take p ?xs))"
        then obtain j where "j < p - Suc l" "x = ?xs ! (Suc l + j)"
          using assms(2) unfolding drop_take by (auto simp: in_set_conv_nth)
        then show "fst x \<noteq> i" using oth [of "Suc l + j"] assms(2) by simp
      qed
      ultimately show ?thesis using True l(1) assms(2) before [of l] by simp
    next
      case False
      then show ?thesis using before [of p] assms(2) by simp
    qed
    show ?thesis unfolding it ys len using iter_at_remove [OF l(1), of "l + 1"] iter_at_remove [OF l(1) assms(2)] l(1) by auto
  next
    case False
    then have "filter ?P ?xs = ?xs" "filter ?P (take p ?xs) = take p ?xs"
      by (auto intro!: filter_True dest: in_set_takeD)
    moreover have "m_current_iterator sg \<noteq> Some i" using False nth_mem [of p ?xs] assms(3) by (auto simp: iter_at_def)
    ultimately show ?thesis using assms(2,3) by (simp add: erase_connection_def node_erase_def)
  qed
qed

lemma signal_ok_erase:
  assumes "signal_ok k sg"
  shows "signal_ok k (erase_connection i sg)"
proof -
  note ok = signal_okD [OF assms]
  obtain p where p: "p \<le> length (m_connected_slots sg)" "m_current_iterator sg = iter_at (m_connected_slots sg) p"
    using ok(4) by blast
  have "length (filter (\<lambda>n. fst n \<noteq> i) (take p (m_connected_slots sg))) \<le> length (filter (\<lambda>n. fst n \<noteq> i) (m_connected_slots sg))"
    by (metis append_take_drop_id filter_append length_append le_add1)
  then show ?thesis using ok(1,2,3) erase_connection_iter [OF ok(1) p]
    by (auto simp: signal_ok_def dests_def intro: distinct_map_filter)
qed

lemma slot_disconnect_loop_slots:
  "m_connected_slots (slot_disconnect_loop r ns sg) =
     filter (\<lambda>m. \<forall>n \<in> set ns. pdest (snd n) = r \<longrightarrow> fst m \<noteq> fst n) (m_connected_slots sg)"
proof (induction ns arbitrary: sg)
  case (Cons n ns)
  show ?case by (simp add: Cons.IH conj_commute cong: conj_cong)
qed simp

lemma signal_ok_slot_disconnect_loop: "signal_ok k sg \<Longrightarrow> signal_ok k (slot_disconnect_loop r ns sg)"
  by (induction ns arbitrary: sg) (auto simp: signal_ok_erase)

text \<open>The loop of \<open>do_slot_disconnect\<close> removes every connection to the object.\<close>

definition without :: "addr \<Rightarrow> signal_base \<Rightarrow> signal_base" where
  "without r sg = slot_disconnect_loop r (m_connected_slots sg) sg"

lemma without_slots:
  assumes "signal_ok k sg"
  shows "m_connected_slots (without r sg) = filter (\<lambda>n. pdest (snd n) \<noteq> r) (m_connected_slots sg)"
proof -
  have "(\<forall>n \<in> set (m_connected_slots sg). pdest (snd n) = r \<longrightarrow> fst m \<noteq> fst n) \<longleftrightarrow> pdest (snd m) \<noteq> r"
    if "m \<in> set (m_connected_slots sg)" for m
    using that signal_okD(1) [OF assms] by (metis eq_key_imp_eq_value prod.collapse)
  then show ?thesis unfolding without_def slot_disconnect_loop_slots by (simp cong: filter_cong)
qed

lemma signal_ok_without: "signal_ok k sg \<Longrightarrow> signal_ok k (without r sg)"
  by (simp add: without_def signal_ok_slot_disconnect_loop)

lemma dests_without: "signal_ok k sg \<Longrightarrow> set (dests (without r sg)) = set (dests sg) - {r}"
  by (auto simp: dests_def without_slots)

section \<open>Operations preserve the invariant\<close>

lemma world_okD:
  assumes "world_ok w"
  shows "signals w s = Some sg \<Longrightarrow> signal_ok (fresh w) sg"
    "signals w s = Some sg \<Longrightarrow> r \<in> set (dests sg) \<Longrightarrow> \<exists>ss. has_slots w r = Some ss"
    "has_slots w r = Some ss \<Longrightarrow> distinct ss"
    "has_slots w r = Some ss \<Longrightarrow> s \<in> set ss \<longleftrightarrow> connected w s r"
  using assms by (auto simp: world_ok_def)

text \<open>
  A world is acceptable when it arises from an acceptable one by giving the signals new connections
  and the objects the matching senders.
\<close>

lemma world_okI:
  assumes "\<And>s sg. signals w s = Some sg \<Longrightarrow> signal_ok (fresh w) sg"
    and "\<And>s sg r. signals w s = Some sg \<Longrightarrow> r \<in> set (dests sg) \<Longrightarrow> \<exists>ss. has_slots w r = Some ss"
    and "\<And>r ss. has_slots w r = Some ss \<Longrightarrow> distinct ss"
    and "\<And>r ss s. has_slots w r = Some ss \<Longrightarrow> s \<in> set ss \<longleftrightarrow> connected w s r"
  shows "world_ok w"
  using assms unfolding world_ok_def by blast

lemma not_sender_of_dead: "world_ok w \<Longrightarrow> signals w s = None \<Longrightarrow> has_slots w r = Some ss \<Longrightarrow> s \<notin> set ss"
  using world_okD(4) [of w r ss s] by (simp add: connected_def)

lemma connect_eq:
  assumes "signals w s = Some sg" and "has_slots w r = Some ss"
  shows "connect s r m w = Some (w\<lparr>signals := (signals w)(s \<mapsto> sg\<lparr>m_connected_slots := m_connected_slots sg @ [(fresh w, \<lparr>pdest = r, pmethod = m\<rparr>)]\<rparr>),
    has_slots := (has_slots w)(r \<mapsto> insort_insert s ss), fresh := Suc (fresh w)\<rparr>)"
  using assms by (simp add: connect_def push_back_def update_signal_def do_signal_connect_def update_senders_def)

lemma connect_ok:
  assumes "world_ok w" and "signals w s = Some sg" and "has_slots w r = Some ss" and "r \<notin> set (dests sg)"
  shows "\<exists>w'. connect s r m w = Some w' \<and> world_ok w' \<and> dom (signals w') = dom (signals w) \<and>
    dom (has_slots w') = dom (has_slots w) \<and> (\<forall>s' r'. connected w' s' r' \<longleftrightarrow> connected w s' r' \<or> s' = s \<and> r' = r)"
proof -
  note ok = world_okD [OF assms(1)]
  let ?c = "\<lparr>pdest = r, pmethod = m\<rparr>" let ?sg = "sg\<lparr>m_connected_slots := m_connected_slots sg @ [(fresh w, ?c)]\<rparr>"
  let ?w = "w\<lparr>signals := (signals w)(s \<mapsto> ?sg), has_slots := (has_slots w)(r \<mapsto> insort_insert s ss), fresh := Suc (fresh w)\<rparr>"
  have new: "signal_ok (Suc (fresh w)) ?sg" using signal_ok_append [OF ok(1) [OF assms(2)], of ?c] assms(4) by simp
  have d: "set (dests ?sg) = insert r (set (dests sg))" by (auto simp: dests_def)
  have "world_ok ?w"
  proof (rule world_okI)
    show "signal_ok (fresh ?w) sg'" if "signals ?w s' = Some sg'" for s' sg'
      using that new signal_ok_mono [OF ok(1)] by (auto split: if_splits)
    show "\<exists>ss. has_slots ?w r' = Some ss" if "signals ?w s' = Some sg'" "r' \<in> set (dests sg')" for s' sg' r'
      using that ok(2) [OF assms(2)] ok(2) [of s' sg'] d by (cases "s' = s") auto
    show "distinct ss'" if "has_slots ?w r' = Some ss'" for r' ss'
      using that ok(3) assms(3) by (auto split: if_splits intro: distinct_insort_insert)
    show "s' \<in> set ss' \<longleftrightarrow> connected ?w s' r'" if "has_slots ?w r' = Some ss'" for r' ss' s'
      using that ok(4) [OF assms(3)] ok(4) [of r' ss'] assms(2) d
      by (auto simp: connected_def set_insort_insert split: if_splits)
  qed
  moreover have "\<forall>s' r'. connected ?w s' r' \<longleftrightarrow> connected w s' r' \<or> s' = s \<and> r' = r"
    using d assms(2) by (auto simp: connected_def)
  ultimately show ?thesis using connect_eq [OF assms(2,3)] assms(2,3) by (intro exI [of _ ?w]) auto
qed

text \<open>Removing one or several connections, with the senders adjusted.\<close>

lemma world_ok_shrink:
  assumes "world_ok w" and "signals w s = Some sg" and "signal_ok (fresh w) sg'" and "set (dests sg') \<subseteq> set (dests sg)"
    and "\<And>r ss. has_slots w r = Some ss \<Longrightarrow> hs r = Some (if r \<in> set (dests sg) - set (dests sg') then remove1 s ss else ss)"
    and "\<And>r. has_slots w r = None \<Longrightarrow> hs r = None"
  shows "world_ok (w\<lparr>signals := (signals w)(s \<mapsto> sg'), has_slots := hs\<rparr>)"
proof (rule world_okI)
  let ?w = "w\<lparr>signals := (signals w)(s \<mapsto> sg'), has_slots := hs\<rparr>"
  note ok = world_okD [OF assms(1)]
  have hs: "\<exists>ss0. has_slots w r = Some ss0 \<and> ss = (if r \<in> set (dests sg) - set (dests sg') then remove1 s ss0 else ss0)"
    if "hs r = Some ss" for r ss
    using that assms(5,6) by (cases "has_slots w r") auto
  show "signal_ok (fresh ?w) x" if "signals ?w s' = Some x" for s' x
    using that assms(3) ok(1) by (auto split: if_splits)
  show "\<exists>ss. has_slots ?w r = Some ss" if "signals ?w s' = Some x" "r \<in> set (dests x)" for s' x r
  proof -
    have "\<exists>ss. has_slots w r = Some ss" using that assms(2,4) ok(2) by (auto split: if_splits)
    then show ?thesis using assms(5) by auto
  qed
  show "distinct ss" if "has_slots ?w r = Some ss" for r ss
    using that hs ok(3) by (fastforce split: if_splits)
  show "s' \<in> set ss \<longleftrightarrow> connected ?w s' r" if r: "has_slots ?w r = Some ss" for r ss s'
  proof -
    obtain ss0 where ss0: "has_slots w r = Some ss0"
      "ss = (if r \<in> set (dests sg) - set (dests sg') then remove1 s ss0 else ss0)" using r hs [of r ss] by auto
    have "s' \<in> set ss \<longleftrightarrow> s' \<in> set ss0 \<and> \<not> (s' = s \<and> r \<in> set (dests sg) - set (dests sg'))"
      using ss0(2) ok(3) [OF ss0(1)] by auto
    then show ?thesis using ok(4) [OF ss0(1), of s'] assms(2,4) by (auto simp: connected_def split: if_splits)
  qed
qed

lemma find_first_dest:
  assumes "signal_ok k sg" and "find (\<lambda>n. pdest (snd n) = r) (m_connected_slots sg) = Some n"
  shows "set (dests (erase_connection (fst n) sg)) = set (dests sg) - {r}" "pdest (snd n) = r" "r \<in> set (dests sg)"
proof -
  let ?xs = "m_connected_slots sg"
  show r: "pdest (snd n) = r" using assms(2) by (auto simp: find_Some_iff)
  have n: "n \<in> set ?xs" using assms(2) by (auto simp: find_Some_iff)
  then show "r \<in> set (dests sg)" using r by (auto simp: dests_def)
  have "m = n" if "m \<in> set ?xs" "fst m = fst n \<or> pdest (snd m) = r" for m
  proof -
    have "inj_on fst (set ?xs)" "inj_on (\<lambda>n. pdest (snd n)) (set ?xs)"
      using signal_okD(1,3) [OF assms(1)] by (simp_all add: distinct_map dests_def)
    then show ?thesis using that n r by (metis inj_onD)
  qed
  then show "set (dests (erase_connection (fst n) sg)) = set (dests sg) - {r}" using r by (auto simp: dests_def)
qed

lemma disconnect_ok:
  assumes "world_ok w" and "signals w s = Some sg"
  shows "\<exists>w'. disconnect s r w = Some w' \<and> world_ok w' \<and> dom (signals w') = dom (signals w)"
proof (cases "find (\<lambda>n. pdest (snd n) = r) (m_connected_slots sg)")
  case None
  then show ?thesis using assms by (auto simp: disconnect_def)
next
  case (Some n)
  note ok = world_okD [OF assms(1)] and fd = find_first_dest [OF world_okD(1) [OF assms] Some]
  obtain ss where ss: "has_slots w r = Some ss" using ok(2) [OF assms(2) fd(3)] by blast
  have eq: "disconnect s r w = Some (w\<lparr>signals := (signals w)(s \<mapsto> erase_connection (fst n) sg),
      has_slots := (has_slots w)(r \<mapsto> remove1 s ss)\<rparr>)"
    using assms(2) Some ss by (simp add: disconnect_def update_signal_def do_signal_disconnect_def update_senders_def)
  have "world_ok (w\<lparr>signals := (signals w)(s \<mapsto> erase_connection (fst n) sg), has_slots := (has_slots w)(r \<mapsto> remove1 s ss)\<rparr>)"
  proof (rule world_ok_shrink [OF assms])
    have diff: "set (dests sg) - set (dests (erase_connection (fst n) sg)) = {r}" using fd(1,3) by blast
    show "((has_slots w)(r \<mapsto> remove1 s ss)) r' = Some (if r' \<in> set (dests sg) - set (dests (erase_connection (fst n) sg)) then remove1 s ss' else ss')"
      if "has_slots w r' = Some ss'" for r' ss'
      unfolding diff using that ss by auto
  qed (use fd(1) ss signal_ok_erase [OF ok(1) [OF assms(2)]] in auto)
  then show ?thesis using eq assms(2) by auto
qed

definition node_dests :: "connection node list \<Rightarrow> addr set" where
  "node_dests ns = (\<lambda>n. pdest (snd n)) ` set ns"

lemma node_dests_simps [simp]: "node_dests [] = {}" "node_dests (n # ns) = insert (pdest (snd n)) (node_dests ns)"
  by (simp_all add: node_dests_def)

lemma set_dests: "set (dests sg) = node_dests (m_connected_slots sg)"
  by (simp add: dests_def node_dests_def)

lemma disconnect_all_loop_eq:
  "signals w s = Some sg \<Longrightarrow> m_connected_slots sg = ns \<Longrightarrow> node_dests ns \<subseteq> dom (has_slots w) \<Longrightarrow>
   distinct (map (\<lambda>n. pdest (snd n)) ns) \<Longrightarrow>
   disconnect_all_loop s ns w = Some (w\<lparr>signals := (signals w)(s \<mapsto> sg\<lparr>m_connected_slots := []\<rparr>),
     has_slots := (\<lambda>r. map_option (\<lambda>ss. if r \<in> node_dests ns then remove1 s ss else ss) (has_slots w r))\<rparr>)"
proof (induction ns arbitrary: w sg)
  case Nil
  have "sg\<lparr>m_connected_slots := []\<rparr> = sg" using Nil.prems(2) by simp
  moreover have "(signals w)(s \<mapsto> sg) = signals w" using Nil.prems(1) by (simp add: fun_upd_idem)
  ultimately show ?case by (simp add: node_dests_def option.map_ident)
next
  case (Cons n ns)
  let ?r = "pdest (snd n)" and ?sg = "sg\<lparr>m_connected_slots := ns\<rparr>"
  obtain ss where ss: "has_slots w ?r = Some ss" using Cons.prems(3) by (auto simp: node_dests_def)
  let ?w = "w\<lparr>signals := (signals w)(s \<mapsto> ?sg), has_slots := (has_slots w)(?r \<mapsto> remove1 s ss)\<rparr>"
  have nr: "?r \<notin> node_dests ns" using Cons.prems(4) by (auto simp: node_dests_def)
  have "disconnect_all_loop s (n # ns) w = disconnect_all_loop s ns ?w"
    using Cons.prems(1) ss by (simp add: update_signal_def do_signal_disconnect_def update_senders_def)
  also have "\<dots> = Some (?w\<lparr>signals := (signals ?w)(s \<mapsto> ?sg\<lparr>m_connected_slots := []\<rparr>),
     has_slots := (\<lambda>r. map_option (\<lambda>ss. if r \<in> node_dests ns then remove1 s ss else ss) (has_slots ?w r))\<rparr>)"
    using Cons.prems(3,4) by (intro Cons.IH) (auto simp: node_dests_def)
  also have "(\<lambda>r. map_option (\<lambda>ss. if r \<in> node_dests ns then remove1 s ss else ss) (has_slots ?w r)) =
      (\<lambda>r. map_option (\<lambda>ss. if r \<in> node_dests (n # ns) then remove1 s ss else ss) (has_slots w r))"
    using ss nr by (auto simp: node_dests_def)
  also have "(signals ?w)(s \<mapsto> ?sg\<lparr>m_connected_slots := []\<rparr>) = (signals w)(s \<mapsto> sg\<lparr>m_connected_slots := []\<rparr>)"
    by auto
  finally show ?case by simp
qed

definition unsubscribed :: "addr \<Rightarrow> signal_base \<Rightarrow> world \<Rightarrow> addr \<rightharpoonup> addr list" where
  "unsubscribed s sg w r = map_option (\<lambda>ss. if r \<in> set (dests sg) then remove1 s ss else ss) (has_slots w r)"

lemma signal_disconnect_all_eq:
  assumes "world_ok w" and "signals w s = Some sg"
  shows "signal_disconnect_all s w = Some (w\<lparr>signals := (signals w)(s \<mapsto> signal_new), has_slots := unsubscribed s sg w\<rparr>)"
proof -
  note ok = world_okD [OF assms(1)]
  have "set (dests sg) \<subseteq> dom (has_slots w)" using ok(2) [OF assms(2)] by blast
  moreover have "distinct (map (\<lambda>n. pdest (snd n)) (m_connected_slots sg))"
    using signal_okD(3) [OF ok(1) [OF assms(2)]] by (simp add: dests_def)
  ultimately have "disconnect_all_loop s (m_connected_slots sg) w =
      Some (w\<lparr>signals := (signals w)(s \<mapsto> sg\<lparr>m_connected_slots := []\<rparr>), has_slots := unsubscribed s sg w\<rparr>)"
    using disconnect_all_loop_eq [OF assms(2) refl] by (simp add: set_dests unsubscribed_def [abs_def])
  moreover have "sg\<lparr>m_connected_slots := [], m_current_iterator := None\<rparr> = signal_new" by (simp add: signal_new_def)
  ultimately show ?thesis using assms(2) by (simp add: signal_disconnect_all_def update_signal_def)
qed

lemma signal_disconnect_all_ok:
  assumes "world_ok w" and "signals w s = Some sg"
  shows "world_ok (w\<lparr>signals := (signals w)(s \<mapsto> signal_new), has_slots := unsubscribed s sg w\<rparr>)"
  by (rule world_ok_shrink [OF assms]) (simp_all add: signal_ok_new unsubscribed_def, simp_all add: signal_new_def dests_def)

lemma signal_destroy_ok:
  assumes "world_ok w" and "signals w s = Some sg"
  shows "\<exists>w'. signal_destroy s w = Some w' \<and> world_ok w' \<and> dom (signals w') = dom (signals w) - {s} \<and>
    (\<forall>r ss. has_slots w' r = Some ss \<longrightarrow> s \<notin> set ss)"
proof -
  let ?w = "w\<lparr>signals := (signals w)(s \<mapsto> signal_new), has_slots := unsubscribed s sg w\<rparr>"
  let ?w' = "?w\<lparr>signals := (signals ?w)(s := None)\<rparr>"
  note ok = world_okD [OF signal_disconnect_all_ok [OF assms]]
  have c: "connected ?w' s' r \<longleftrightarrow> connected ?w s' r" for s' r by (simp add: connected_def signal_new_def dests_def)
  have "world_ok ?w'"
  proof (rule world_okI)
    show "signal_ok (fresh ?w') x" if "signals ?w' s' = Some x" for s' x
      using that ok(1) [of s' x] by (auto split: if_splits)
    show "\<exists>ss. has_slots ?w' r = Some ss" if "signals ?w' s' = Some x" "r \<in> set (dests x)" for s' x r
      using that ok(2) [of s' x r] by (auto split: if_splits)
    show "distinct ss" if "has_slots ?w' r = Some ss" for r ss using that ok(3) by simp
    show "s' \<in> set ss \<longleftrightarrow> connected ?w' s' r" if "has_slots ?w' r = Some ss" for r ss s'
      unfolding c using that ok(4) by simp
  qed
  moreover have "signal_destroy s w = Some ?w'"
    unfolding signal_destroy_def signal_disconnect_all_eq [OF assms] by simp
  moreover have "\<forall>r ss. has_slots ?w' r = Some ss \<longrightarrow> s \<notin> set ss"
    using not_sender_of_dead [OF \<open>world_ok ?w'\<close>, of s] by simp
  ultimately show ?thesis by auto
qed

text \<open>Destroying an object with slots removes it from all its senders.\<close>

lemma slot_disconnect_each_eq:
  "distinct ss \<Longrightarrow> set ss \<subseteq> dom (signals w) \<Longrightarrow>
   slot_disconnect_each ss r w = Some (w\<lparr>signals := (\<lambda>s. map_option (\<lambda>sg. if s \<in> set ss then without r sg else sg) (signals w s))\<rparr>)"
proof (induction ss arbitrary: w)
  case Nil
  then show ?case by (simp add: option.map_ident)
next
  case (Cons s ss)
  obtain sg where sg: "signals w s = Some sg" using Cons.prems(2) by auto
  let ?w = "w\<lparr>signals := (signals w)(s \<mapsto> without r sg)\<rparr>"
  have "slot_disconnect_each (s # ss) r w = slot_disconnect_each ss r ?w"
    using sg by (simp add: do_slot_disconnect_def update_signal_def without_def)
  also have "\<dots> = Some (?w\<lparr>signals := (\<lambda>s'. map_option (\<lambda>sg. if s' \<in> set ss then without r sg else sg) (signals ?w s'))\<rparr>)"
    using Cons.prems by (intro Cons.IH) auto
  also have "(\<lambda>s'. map_option (\<lambda>sg. if s' \<in> set ss then without r sg else sg) (signals ?w s')) =
      (\<lambda>s'. map_option (\<lambda>sg. if s' \<in> set (s # ss) then without r sg else sg) (signals w s'))"
    using sg Cons.prems(1) by auto
  finally show ?case by simp
qed

lemma has_slots_destroy_eq:
  assumes "world_ok w" and "has_slots w r = Some ss"
  shows "has_slots_destroy r w = Some (w\<lparr>signals := (\<lambda>s. map_option (\<lambda>sg. if s \<in> set ss then without r sg else sg) (signals w s)),
    has_slots := (has_slots w)(r := None)\<rparr>)"
proof -
  note ok = world_okD [OF assms(1)]
  let ?sg = "\<lambda>s. map_option (\<lambda>sg. if s \<in> set ss then without r sg else sg) (signals w s)"
  let ?w = "w\<lparr>has_slots := (has_slots w)(r \<mapsto> [])\<rparr>"
  have "set ss \<subseteq> dom (signals w)" using ok(4) [OF assms(2)] by (force simp: connected_def split: option.splits)
  then have each: "slot_disconnect_each ss r ?w = Some (?w\<lparr>signals := ?sg\<rparr>)"
    using slot_disconnect_each_eq [OF ok(3) [OF assms(2)], of ?w r] by simp
  have "do_disconnect_all r w = Some (w\<lparr>signals := ?sg, has_slots := (has_slots w)(r \<mapsto> [])\<rparr>)" if "ss \<noteq> []"
  proof -
    have "do_disconnect_all r w = do_disconnect_all r (?w\<lparr>signals := ?sg\<rparr>)"
      using assms(2) that each by (subst do_disconnect_all.simps) simp
    also have "\<dots> = Some (?w\<lparr>signals := ?sg\<rparr>)" by (subst do_disconnect_all.simps) simp
    finally show ?thesis by simp
  qed
  moreover have "do_disconnect_all r w = Some w" if "ss = []"
    using assms(2) that by (subst do_disconnect_all.simps) simp
  ultimately show ?thesis by (cases "ss = []") (simp_all add: has_slots_destroy_def option.map_ident)
qed

lemma has_slots_destroy_ok:
  assumes "world_ok w" and "has_slots w r = Some ss"
  shows "\<exists>w'. has_slots_destroy r w = Some w' \<and> world_ok w' \<and> dom (signals w') = dom (signals w) \<and> (\<forall>s. \<not> connected w' s r)"
proof -
  note ok = world_okD [OF assms(1)]
  let ?sg = "\<lambda>s. map_option (\<lambda>sg. if s \<in> set ss then without r sg else sg) (signals w s)"
  let ?w = "w\<lparr>signals := ?sg, has_slots := (has_slots w)(r := None)\<rparr>"
  have c: "connected ?w s r' \<longleftrightarrow> connected w s r' \<and> r' \<noteq> r" for s r'
    using ok(4) [OF assms(2), of s] dests_without [OF ok(1)] by (auto simp: connected_def split: option.splits)
  have "world_ok ?w"
  proof (rule world_okI)
    show "signal_ok (fresh ?w) x" if "signals ?w s = Some x" for s x
      using that ok(1) by (auto simp: signal_ok_without)
    show "\<exists>ss. has_slots ?w r' = Some ss" if x: "signals ?w s = Some x" "r' \<in> set (dests x)" for s x r'
    proof -
      have "connected ?w s r'" using x by (auto simp: connected_def)
      then show ?thesis using c [of s r'] ok(2) by (auto simp: connected_def split: option.splits)
    qed
    show "distinct ss'" if "has_slots ?w r' = Some ss'" for r' ss' using that ok(3) by (auto split: if_splits)
    show "s \<in> set ss' \<longleftrightarrow> connected ?w s r'" if "has_slots ?w r' = Some ss'" for r' ss' s
      unfolding c using that ok(4) by (auto split: if_splits)
  qed
  then show ?thesis using has_slots_destroy_eq [OF assms] c by (intro exI [of _ ?w]) auto
qed

text \<open>Registering first and connecting afterwards is the same as \<open>connect\<close>.\<close>

lemma connect_swapped:
  assumes "signals w s = Some sg" and "has_slots w (pdest c) = Some ss"
  shows "(case do_signal_connect (pdest c) s w of None \<Rightarrow> None | Some w \<Rightarrow> push_back s c w) = connect s (pdest c) (pmethod c) w"
  unfolding connect_eq [OF assms] using assms
  by (cases c, cases w) (simp add: push_back_def update_signal_def do_signal_connect_def update_senders_def)

lemma signal_copy_loop_ok:
  "world_ok w \<Longrightarrow> signals w s = Some sg \<Longrightarrow> node_dests ns \<subseteq> dom (has_slots w) \<Longrightarrow>
   distinct (map (\<lambda>n. pdest (snd n)) ns) \<Longrightarrow> \<forall>r \<in> node_dests ns. \<not> connected w s r \<Longrightarrow>
   \<exists>w'. signal_copy_loop s ns w = Some w' \<and> world_ok w' \<and> dom (signals w') = dom (signals w) \<and>
     (\<forall>s' r'. connected w' s' r' \<longleftrightarrow> connected w s' r' \<or> s' = s \<and> r' \<in> node_dests ns)"
proof (induction ns arbitrary: w sg)
  case (Cons n ns)
  let ?c = "snd n"
  obtain ss where ss: "has_slots w (pdest ?c) = Some ss" using Cons.prems(3) by auto
  have nd: "pdest ?c \<notin> node_dests ns" using Cons.prems(4) by (simp add: node_dests_def)
  have "pdest ?c \<notin> set (dests sg)" using Cons.prems(2,5) by (simp add: connected_def)
  then obtain w' where w': "connect s (pdest ?c) (pmethod ?c) w = Some w'" "world_ok w'" "dom (signals w') = dom (signals w)"
    "dom (has_slots w') = dom (has_slots w)" "\<And>s' r'. connected w' s' r' \<longleftrightarrow> connected w s' r' \<or> s' = s \<and> r' = pdest ?c"
    using connect_ok [OF Cons.prems(1,2) ss] by blast
  obtain sg' where sg': "signals w' s = Some sg'" using w'(3) Cons.prems(2) by (metis domD domI)
  have "signal_copy_loop s (n # ns) w =
      (case (case do_signal_connect (pdest ?c) s w of None \<Rightarrow> None | Some w \<Rightarrow> push_back s ?c w) of
         None \<Rightarrow> None | Some w \<Rightarrow> signal_copy_loop s ns w)"
    by (simp split: option.splits)
  then have "signal_copy_loop s (n # ns) w = signal_copy_loop s ns w'"
    unfolding connect_swapped [OF Cons.prems(2) ss] using w'(1) by simp
  moreover have "\<exists>w''. signal_copy_loop s ns w' = Some w'' \<and> world_ok w'' \<and> dom (signals w'') = dom (signals w') \<and>
     (\<forall>s' r'. connected w'' s' r' \<longleftrightarrow> connected w' s' r' \<or> s' = s \<and> r' \<in> node_dests ns)"
    using Cons.prems(3-5) w'(4,5) nd by (intro Cons.IH [OF w'(2) sg']) auto
  ultimately show ?case using w'(3,5) by auto
qed simp

lemma new_signal_ok:
  assumes "world_ok w" and "signals w s = None"
  shows "world_ok (w\<lparr>signals := (signals w)(s \<mapsto> signal_new)\<rparr>)"
    "connected (w\<lparr>signals := (signals w)(s \<mapsto> signal_new)\<rparr>) s' r \<longleftrightarrow> connected w s' r"
proof -
  let ?w = "w\<lparr>signals := (signals w)(s \<mapsto> signal_new)\<rparr>"
  note ok = world_okD [OF assms(1)]
  have c: "connected ?w s' r \<longleftrightarrow> connected w s' r" for s' r using assms(2) by (simp add: connected_def signal_new_def dests_def)
  then show "connected ?w s' r \<longleftrightarrow> connected w s' r" .
  show "world_ok ?w"
  proof (rule world_okI)
    show "signal_ok (fresh ?w) x" if "signals ?w s' = Some x" for s' x
      using that ok(1) by (auto simp: signal_ok_new split: if_splits)
    show "\<exists>ss. has_slots ?w r = Some ss" if "signals ?w s' = Some x" "r \<in> set (dests x)" for s' x r
      using that ok(2) by (auto simp: signal_new_def dests_def split: if_splits)
    show "distinct ss" if "has_slots ?w r = Some ss" for r ss using that ok(3) by simp
    show "s' \<in> set ss \<longleftrightarrow> connected ?w s' r" if "has_slots ?w r = Some ss" for r ss s'
      unfolding c using that ok(4) by simp
  qed
qed

lemma new_has_slots_ok:
  assumes "world_ok w" and "has_slots w r = None"
  shows "world_ok (w\<lparr>has_slots := (has_slots w)(r \<mapsto> [])\<rparr>)" "\<not> connected w s r"
proof -
  note ok = world_okD [OF assms(1)]
  show c: "\<not> connected w s r" for s using ok(2) assms(2) by (force simp: connected_def split: option.splits)
  let ?w = "w\<lparr>has_slots := (has_slots w)(r \<mapsto> [])\<rparr>"
  have cc: "connected ?w s' r' \<longleftrightarrow> connected w s' r'" for s' r' by (simp add: connected_def)
  show "world_ok ?w"
  proof (rule world_okI)
    show "signal_ok (fresh ?w) x" if "signals ?w s' = Some x" for s' x using that ok(1) by simp
    show "\<exists>ss. has_slots ?w r' = Some ss" if "signals ?w s' = Some x" "r' \<in> set (dests x)" for s' x r'
      using that ok(2) by simp
    show "distinct ss" if "has_slots ?w r' = Some ss" for r' ss using that ok(3) by (auto split: if_splits)
    show "s' \<in> set ss \<longleftrightarrow> connected ?w s' r'" if "has_slots ?w r' = Some ss" for r' ss s'
      unfolding cc using that ok(4) c by (auto split: if_splits)
  qed
qed

lemma signal_copy_ok:
  assumes "world_ok w" and "signals w s = None" and "signals w old = Some sg"
  shows "\<exists>w'. signal_copy s old w = Some w' \<and> world_ok w' \<and> dom (signals w') = insert s (dom (signals w)) \<and>
    (\<forall>r. connected w' s r \<longleftrightarrow> connected w old r)"
proof -
  let ?w = "w\<lparr>signals := (signals w)(s \<mapsto> signal_new)\<rparr>"
  note ok = world_okD [OF assms(1)] and new = new_signal_ok [OF assms(1,2)]
  have d: "node_dests (m_connected_slots sg) \<subseteq> dom (has_slots ?w)" using ok(2) [OF assms(3)] by (auto simp: set_dests)
  have "\<forall>r \<in> node_dests (m_connected_slots sg). \<not> connected ?w s r"
    unfolding new(2) using assms(2) by (simp add: connected_def)
  then obtain w' where "signal_copy_loop s (m_connected_slots sg) ?w = Some w'" "world_ok w'" "dom (signals w') = dom (signals ?w)"
    "\<And>s' r'. connected w' s' r' \<longleftrightarrow> connected ?w s' r' \<or> s' = s \<and> r' \<in> node_dests (m_connected_slots sg)"
    using signal_copy_loop_ok [OF new(1) _ d, of s signal_new] signal_okD(3) [OF ok(1) [OF assms(3)]]
    by (auto simp: dests_def)
  then show ?thesis using assms(2,3) new(2) by (auto simp: signal_copy_def connected_def set_dests)
qed

text \<open>\<open>slot_duplicate\<close> appends the copy of the one connection to the old target, and ends.\<close>

lemma slot_duplicate_loop_none:
  "\<forall>n \<in> set ns. pdest (snd n) \<noteq> old \<Longrightarrow> slot_duplicate_loop s old new ns w = Some w"
  by (induction ns) (simp_all add: slot_duplicate_loop.simps)

lemma slot_duplicate_loop_one:
  assumes "old \<noteq> new" and "pdest (snd n) = old" and "\<forall>m \<in> set ys. pdest (snd m) \<noteq> old"
  shows "\<forall>m \<in> set xs. pdest (snd m) \<noteq> old \<Longrightarrow>
    slot_duplicate_loop s old new (xs @ n # ys) w = push_back s (duplicate (snd n) new) w"
proof (induction xs)
  case Nil
  have "slot_duplicate_loop s old new (ys @ [(fresh w, duplicate (snd n) new)]) w' = Some w'" for w'
    using assms(1,3) by (intro slot_duplicate_loop_none) (auto simp: duplicate_def)
  then show ?case using assms(2) by (subst slot_duplicate_loop.simps) (simp split: option.splits)
next
  case (Cons x xs)
  then show ?case by (subst slot_duplicate_loop.simps) simp
qed

lemma slot_duplicate_connects:
  assumes "world_ok w" and "signals w s = Some sg" and "connected w s old" and "old \<noteq> new" and "has_slots w new = Some ss"
  shows "\<exists>m. (case do_slot_duplicate s old new w of None \<Rightarrow> None | Some w \<Rightarrow> do_signal_connect new s w) = connect s new m w"
proof -
  note ok = signal_okD [OF world_okD(1) [OF assms(1,2)]]
  obtain n where n: "n \<in> set (m_connected_slots sg)" "pdest (snd n) = old"
    using assms(2,3) by (auto simp: connected_def dests_def)
  then obtain xs ys where xs: "m_connected_slots sg = xs @ n # ys" by (meson split_list)
  have "distinct (map (\<lambda>n. pdest (snd n)) (xs @ n # ys))" using ok(3) unfolding dests_def xs .
  then have "old \<notin> node_dests xs" "old \<notin> node_dests ys" using n(2) by (auto simp: node_dests_def)
  then have "\<forall>m \<in> set xs. pdest (snd m) \<noteq> old" "\<forall>m \<in> set ys. pdest (snd m) \<noteq> old" by (auto simp: node_dests_def image_iff)
  then have "do_slot_duplicate s old new w = push_back s (duplicate (snd n) new) w"
    using slot_duplicate_loop_one [OF assms(4) n(2), of ys xs s w] assms(2) xs by (simp add: do_slot_duplicate_def)
  moreover have "duplicate (snd n) new = \<lparr>pdest = new, pmethod = pmethod (snd n)\<rparr>"
    by (cases "snd n") (simp add: duplicate_def)
  ultimately show ?thesis by (intro exI [of _ "pmethod (snd n)"]) (simp add: connect_def)
qed

lemma has_slots_copy_loop_ok:
  "world_ok w \<Longrightarrow> has_slots w r = Some xs \<Longrightarrow> r \<noteq> old \<Longrightarrow> distinct ss \<Longrightarrow>
   \<forall>s \<in> set ss. connected w s old \<and> \<not> connected w s r \<Longrightarrow>
   \<exists>w'. has_slots_copy_loop r old ss w = Some w' \<and> world_ok w' \<and> dom (signals w') = dom (signals w) \<and>
     (\<forall>s' r'. connected w' s' r' \<longleftrightarrow> connected w s' r' \<or> s' \<in> set ss \<and> r' = r)"
proof (induction ss arbitrary: w xs)
  case (Cons s ss)
  have so: "connected w s old" "\<not> connected w s r" using Cons.prems(5) by simp_all
  then obtain sg where sg: "signals w s = Some sg" by (auto simp: connected_def split: option.splits)
  then have nr: "r \<notin> set (dests sg)" using so(2) by (simp add: connected_def)
  obtain m where m: "(case do_slot_duplicate s old r w of None \<Rightarrow> None | Some w \<Rightarrow> do_signal_connect r s w) = connect s r m w"
    using slot_duplicate_connects [OF Cons.prems(1) sg so(1) _ Cons.prems(2)] Cons.prems(3) by blast
  obtain w' where w': "connect s r m w = Some w'" "world_ok w'" "dom (signals w') = dom (signals w)"
    "dom (has_slots w') = dom (has_slots w)" "\<And>s' r'. connected w' s' r' \<longleftrightarrow> connected w s' r' \<or> s' = s \<and> r' = r"
    using connect_ok [OF Cons.prems(1) sg Cons.prems(2) nr, of m] by blast
  obtain xs' where xs': "has_slots w' r = Some xs'" using w'(4) Cons.prems(2) by (metis domD domI)
  have "has_slots_copy_loop r old (s # ss) w =
      (case (case do_slot_duplicate s old r w of None \<Rightarrow> None | Some w \<Rightarrow> do_signal_connect r s w) of
         None \<Rightarrow> None | Some w \<Rightarrow> has_slots_copy_loop r old ss w)"
    by (simp split: option.splits)
  then have "has_slots_copy_loop r old (s # ss) w = has_slots_copy_loop r old ss w'" unfolding m using w'(1) by simp
  moreover have "\<exists>w''. has_slots_copy_loop r old ss w' = Some w'' \<and> world_ok w'' \<and> dom (signals w'') = dom (signals w') \<and>
     (\<forall>s' r'. connected w'' s' r' \<longleftrightarrow> connected w' s' r' \<or> s' \<in> set ss \<and> r' = r)"
    using Cons.prems(3-5) w'(5) by (intro Cons.IH [OF w'(2) xs']) auto
  ultimately show ?case using w'(3,5) by auto
qed simp

lemma has_slots_copy_ok:
  assumes "world_ok w" and "has_slots w r = None" and "has_slots w old = Some ss"
  shows "\<exists>w'. has_slots_copy r old w = Some w' \<and> world_ok w' \<and> dom (signals w') = dom (signals w) \<and>
    (\<forall>s. connected w' s r \<longleftrightarrow> connected w s old)"
proof -
  let ?w = "w\<lparr>has_slots := (has_slots w)(r \<mapsto> [])\<rparr>"
  note ok = world_okD [OF assms(1)] and new = new_has_slots_ok [OF assms(1,2)]
  have c: "connected ?w s r' \<longleftrightarrow> connected w s r'" for s r' by (simp add: connected_def)
  have "r \<noteq> old" using assms(2,3) by auto
  then obtain w' where "has_slots_copy_loop r old ss ?w = Some w'" "world_ok w'" "dom (signals w') = dom (signals ?w)"
    "\<And>s' r'. connected w' s' r' \<longleftrightarrow> connected ?w s' r' \<or> s' \<in> set ss \<and> r' = r"
    using has_slots_copy_loop_ok [OF new(1), of r "[]" old ss] assms(2,3) ok(3,4) [OF assms(3)] new(2) c by auto
  then show ?thesis using assms(3) new(2) ok(4) [OF assms(3)] c by (auto simp: has_slots_copy_def)
qed

section \<open>Emission keeps the invariant\<close>

lemma world_ok_iterator:
  assumes "world_ok w" and "signals w s = Some sg" and "p \<le> length (m_connected_slots sg)"
  shows "world_ok (w\<lparr>signals := (signals w)(s \<mapsto> sg\<lparr>m_current_iterator := iter_at (m_connected_slots sg) p\<rparr>)\<rparr>)"
    (is "world_ok ?w")
proof -
  note ok = world_okD [OF assms(1)]
  have "signal_ok (fresh w) (sg\<lparr>m_current_iterator := iter_at (m_connected_slots sg) p\<rparr>)"
    using ok(1) [OF assms(2)] assms(3) by (auto simp: signal_ok_def dests_def)
  then have "world_ok (w\<lparr>signals := (signals w)(s \<mapsto> sg\<lparr>m_current_iterator := iter_at (m_connected_slots sg) p\<rparr>), has_slots := has_slots w\<rparr>)"
    by (intro world_ok_shrink [OF assms(1,2)]) (simp_all add: dests_def)
  then show ?thesis by simp
qed

lemma emit_begin_ok:
  assumes "world_ok w" and "signals w s = Some sg"
  shows "\<exists>w'. emit_begin s w = Some w' \<and> world_ok w' \<and> dom (signals w') = dom (signals w)"
  using world_ok_iterator [OF assms, of 0] assms(2) by (auto simp: emit_begin_def update_signal_def)

lemma emit_next_eq:
  assumes "signal_ok k sg" and "signals w s = Some sg" and "m_current_iterator sg \<noteq> None"
  shows "\<exists>p < length (m_connected_slots sg). m_current_iterator sg = iter_at (m_connected_slots sg) p \<and>
    emit_next s w = Some (snd (m_connected_slots sg ! p),
      w\<lparr>signals := (signals w)(s \<mapsto> sg\<lparr>m_current_iterator := iter_at (m_connected_slots sg) (p + 1)\<rparr>)\<rparr>)"
proof -
  note ok = signal_okD [OF assms(1)]
  obtain p where p: "m_current_iterator sg = iter_at (m_connected_slots sg) p" "p < length (m_connected_slots sg)"
    using ok(4) assms(3) by (auto simp: iter_at_def split: if_splits)
  then have "iter_advance (m_connected_slots sg) (iter_at (m_connected_slots sg) p) 1 = Some (iter_at (m_connected_slots sg) (p + 1))"
    using iter_pos_at [OF ok(1), of p] by (simp add: iter_advance_def nat_add_distrib)
  then show ?thesis using p deref_at [OF ok(1) p(2)] assms(2) by (intro exI [of _ p]) (simp add: emit_next_def)
qed

lemma emit_next_ok:
  assumes "world_ok w" and "signals w s = Some sg" and "m_current_iterator sg \<noteq> None"
  shows "\<exists>c w'. emit_next s w = Some (c, w') \<and> world_ok w' \<and> dom (signals w') = dom (signals w) \<and>
    (\<exists>ss. has_slots w' (pdest c) = Some ss) \<and> connected w s (pdest c)"
proof -
  note ok = world_okD [OF assms(1)]
  obtain p where p: "p < length (m_connected_slots sg)" "emit_next s w = Some (snd (m_connected_slots sg ! p),
      w\<lparr>signals := (signals w)(s \<mapsto> sg\<lparr>m_current_iterator := iter_at (m_connected_slots sg) (p + 1)\<rparr>)\<rparr>)"
    using emit_next_eq [OF ok(1) [OF assms(2)] assms(2,3)] by blast
  have d: "pdest (snd (m_connected_slots sg ! p)) \<in> set (dests sg)" using p(1) by (auto simp: dests_def)
  then have "\<exists>ss. has_slots w (pdest (snd (m_connected_slots sg ! p))) = Some ss" using ok(2) [OF assms(2)] by blast
  then show ?thesis using p world_ok_iterator [OF assms(1,2), of "p + 1"] d assms(2) by (auto simp: connected_def)
qed

section \<open>Programs that use signals\<close>

text \<open>
  What the library relies on in its clients, without saying so: they name live objects, construct at unused addresses,
  connect an object that is connected to a signal not once more to it, and do not destroy a signal while it is being emitted.
  What happens to a client that does connect twice is the subject of \<open>duplicate_connection_dangles\<close> below.
\<close>

datatype frame = Ops "sig_op list" | Emitting addr

fun op_ok :: "frame list \<Rightarrow> world \<Rightarrow> sig_op \<Rightarrow> bool" where
  "op_ok fs w (New_signal s) \<longleftrightarrow> signals w s = None"
| "op_ok fs w (New_has_slots r) \<longleftrightarrow> has_slots w r = None"
| "op_ok fs w (Connect s r m) \<longleftrightarrow> signals w s \<noteq> None \<and> has_slots w r \<noteq> None \<and> \<not> connected w s r"
| "op_ok fs w (Disconnect s r) \<longleftrightarrow> signals w s \<noteq> None"
| "op_ok fs w (Disconnect_all s) \<longleftrightarrow> signals w s \<noteq> None"
| "op_ok fs w (Copy_signal s old) \<longleftrightarrow> signals w s = None \<and> signals w old \<noteq> None"
| "op_ok fs w (Copy_has_slots r old) \<longleftrightarrow> has_slots w r = None \<and> has_slots w old \<noteq> None"
| "op_ok fs w (Destroy_signal s) \<longleftrightarrow> signals w s \<noteq> None \<and> Emitting s \<notin> set fs"
| "op_ok fs w (Destroy_has_slots r) \<longleftrightarrow> has_slots w r \<noteq> None"
| "op_ok fs w (Emit s) \<longleftrightarrow> signals w s \<noteq> None"

text \<open>
  A program is a stack: statements to execute and emissions in progress.  A slot that is called
  executes the statements \<open>body\<close> gives for it, which may connect, disconnect, destroy and emit.
  \<open>Fault\<close> is undefined behaviour inside the library, \<open>Misuse\<close> a client that breaks its obligations.
\<close>

datatype config = Running world "frame list" | Misuse | Fault

type_synonym body = "connection \<Rightarrow> world \<Rightarrow> sig_op list"

fun sig_step :: "body \<Rightarrow> config \<Rightarrow> config" where
  "sig_step body (Running w (Ops [] # fs)) = Running w fs"
| "sig_step body (Running w (Ops (op # ops) # fs)) =
     (if \<not> op_ok fs w op then Misuse
      else case sig_exec op w of
             None \<Rightarrow> Fault
           | Some w \<Rightarrow> Running w ((case op of Emit s \<Rightarrow> [Emitting s] | _ \<Rightarrow> []) @ Ops ops # fs))"
| "sig_step body (Running w (Emitting s # fs)) =
     (case signals w s of
        None \<Rightarrow> Fault
      | Some sg \<Rightarrow>
          if m_current_iterator sg = None then Running w fs
          else case emit_next s w of
                 None \<Rightarrow> Fault
               | Some (c, w) \<Rightarrow>
                   if has_slots w (pdest c) = None then Fault
                   else Running w (Ops (body c w) # Emitting s # fs))"
| "sig_step body c = c"

inductive sig_reachable :: "body \<Rightarrow> config \<Rightarrow> config \<Rightarrow> bool" for body c where
  start: "sig_reachable body c c"
| step: "sig_reachable body c d \<Longrightarrow> sig_reachable body c (sig_step body d)"

definition config_ok :: "config \<Rightarrow> bool" where
  "config_ok c \<longleftrightarrow>
     (case c of
        Running w fs \<Rightarrow> world_ok w \<and> (\<forall>s. Emitting s \<in> set fs \<longrightarrow> signals w s \<noteq> None)
      | Misuse \<Rightarrow> True
      | Fault \<Rightarrow> False)"

lemma sig_exec_ok:
  assumes "world_ok w" and "op_ok fs w op"
  shows "\<exists>w'. sig_exec op w = Some w' \<and> world_ok w' \<and>
    (case op of Destroy_signal s \<Rightarrow> dom (signals w') = dom (signals w) - {s} | _ \<Rightarrow> dom (signals w) \<subseteq> dom (signals w'))"
proof (cases op)
  case (New_signal s)
  then show ?thesis using assms new_signal_ok by auto
next
  case (New_has_slots r)
  then show ?thesis using assms new_has_slots_ok by auto
next
  case (Connect s r m)
  then obtain sg ss where sg: "signals w s = Some sg" "has_slots w r = Some ss" "r \<notin> set (dests sg)"
    using assms(2) by (auto simp: connected_def)
  then show ?thesis using connect_ok [OF assms(1) sg, of m] Connect by auto
next
  case (Disconnect s r)
  then show ?thesis using assms disconnect_ok [OF assms(1), of s _ r] by auto
next
  case (Disconnect_all s)
  then obtain sg where sg: "signals w s = Some sg" using assms(2) by auto
  then show ?thesis
    using signal_disconnect_all_eq [OF assms(1) sg] signal_disconnect_all_ok [OF assms(1) sg] Disconnect_all by auto
next
  case (Copy_signal s old)
  then show ?thesis using assms signal_copy_ok [OF assms(1), of s old] by auto
next
  case (Copy_has_slots r old)
  then show ?thesis using assms has_slots_copy_ok [OF assms(1), of r old] by auto
next
  case (Destroy_signal s)
  then show ?thesis using assms signal_destroy_ok [OF assms(1), of s] by auto
next
  case (Destroy_has_slots r)
  then show ?thesis using assms has_slots_destroy_ok [OF assms(1), of r] by auto
next
  case (Emit s)
  then show ?thesis using assms emit_begin_ok [OF assms(1), of s] by auto
qed

lemma config_ok_step: "config_ok c \<Longrightarrow> config_ok (sig_step body c)"
proof (induction body c rule: sig_step.induct)
  case (2 body w op ops fs)
  then have ok: "world_ok w" "\<And>s. Emitting s \<in> set fs \<Longrightarrow> signals w s \<noteq> None" by (auto simp: config_ok_def)
  show ?case
  proof (cases "op_ok fs w op")
    case True
    then obtain w' where w': "sig_exec op w = Some w'" "world_ok w'"
      "case op of Destroy_signal s \<Rightarrow> dom (signals w') = dom (signals w) - {s} | _ \<Rightarrow> dom (signals w) \<subseteq> dom (signals w')"
      using sig_exec_ok [OF ok(1)] by blast
    have "signals w' s \<noteq> None" if "Emitting s \<in> set fs" for s
      using w'(3) ok(2) [OF that] that True by (cases op) (auto simp: domIff dest: subsetD)
    moreover have "signals w' s \<noteq> None" if "op = Emit s" for s
      using w'(3) True that by (auto simp: domIff dest: subsetD)
    ultimately show ?thesis using w'(1,2) True by (cases op) (auto simp: config_ok_def)
  qed (simp add: config_ok_def)
next
  case (3 body w s fs)
  then obtain sg where ok: "world_ok w" "signals w s = Some sg" "\<And>s. Emitting s \<in> set fs \<Longrightarrow> signals w s \<noteq> None"
    by (auto simp: config_ok_def)
  show ?case
  proof (cases "m_current_iterator sg = None")
    case True
    then show ?thesis using ok by (simp add: config_ok_def)
  next
    case False
    obtain c w' where "emit_next s w = Some (c, w')" "world_ok w'" "dom (signals w') = dom (signals w)"
      "\<exists>ss. has_slots w' (pdest c) = Some ss"
      using emit_next_ok [OF ok(1,2) False] by blast
    then show ?thesis using ok False by (auto simp: config_ok_def domIff)
  qed
qed (auto simp: config_ok_def)

lemma config_ok_reachable: "sig_reachable body c d \<Longrightarrow> config_ok c \<Longrightarrow> config_ok d"
  by (induction rule: sig_reachable.induct) (auto intro: config_ok_step)

lemma reachable_funpow: "sig_reachable body c ((sig_step body ^^ n) c)"
  by (induction n) (auto intro: sig_reachable.intros)

definition empty_world :: world where
  "empty_world = \<lparr>signals = Map.empty, has_slots = Map.empty, fresh = 0\<rparr>"

lemma empty_world_ok: "world_ok empty_world"
  by (simp add: world_ok_def empty_world_def)

section \<open>What an emission delivers\<close>

text \<open>
  The emission of a signal whose slots only take connections away: they disconnect, or destroy
  objects with slots (their own included), guarding each such statement by the obligations above.
\<close>

fun is_removal :: "sig_op \<Rightarrow> bool" where
  "is_removal (Disconnect s r) = True"
| "is_removal (Disconnect_all s) = True"
| "is_removal (Destroy_has_slots r) = True"
| "is_removal _ = False"

fun exec_guarded :: "sig_op list \<Rightarrow> world \<Rightarrow> world option" where
  "exec_guarded [] w = Some w"
| "exec_guarded (op # ops) w =
     (if op_ok [] w op then case sig_exec op w of None \<Rightarrow> None | Some w \<Rightarrow> exec_guarded ops w
      else exec_guarded ops w)"

partial_function (option) emit_loop :: "body \<Rightarrow> addr \<Rightarrow> world \<Rightarrow> connection list \<Rightarrow> (world \<times> connection list) option" where
  "emit_loop body s w called =
     (case signals w s of
        None \<Rightarrow> None
      | Some sg \<Rightarrow>
          if m_current_iterator sg = None then Some (w, called)
          else case emit_next s w of
                 None \<Rightarrow> None
               | Some (c, w) \<Rightarrow>
                   (case exec_guarded (body c w) w of
                      None \<Rightarrow> None
                    | Some w \<Rightarrow> emit_loop body s w (called @ [c])))"

definition emit :: "body \<Rightarrow> addr \<Rightarrow> world \<Rightarrow> (world \<times> connection list) option" where
  "emit body s w = (case emit_begin s w of None \<Rightarrow> None | Some w \<Rightarrow> emit_loop body s w [])"

text \<open>The nodes an emission has still to visit.\<close>

definition pending :: "signal_base \<Rightarrow> connection node list" where
  "pending sg = drop (iter_pos (m_connected_slots sg) (m_current_iterator sg)) (m_connected_slots sg)"

lemma pending_at:
  "distinct (map fst (m_connected_slots sg)) \<Longrightarrow> p \<le> length (m_connected_slots sg) \<Longrightarrow>
   m_current_iterator sg = iter_at (m_connected_slots sg) p \<Longrightarrow> pending sg = drop p (m_connected_slots sg)"
  by (simp add: pending_def iter_pos_at)

lemma pending_erase:
  assumes "signal_ok k sg"
  shows "pending (erase_connection i sg) = filter (\<lambda>n. fst n \<noteq> i) (pending sg)"
proof -
  let ?xs = "m_connected_slots sg" and ?P = "\<lambda>n. fst n \<noteq> i"
  note ok = signal_okD [OF assms]
  obtain p where p: "p \<le> length ?xs" "m_current_iterator sg = iter_at ?xs p" using ok(4) by blast
  have split: "filter ?P ?xs = filter ?P (take p ?xs) @ filter ?P (drop p ?xs)"
    by (metis append_take_drop_id filter_append)
  then have "length (filter ?P (take p ?xs)) \<le> length (filter ?P ?xs)" by simp
  then have "pending (erase_connection i sg) = drop (length (filter ?P (take p ?xs))) (filter ?P ?xs)"
    using erase_connection_iter [OF ok(1) p, of i] ok(1) by (subst pending_at) (auto intro: distinct_map_filter)
  then show ?thesis using pending_at [OF ok(1) p] split by simp
qed

text \<open>A removal filters the connections and what is pending alike.\<close>

definition shrinks :: "signal_base \<Rightarrow> signal_base \<Rightarrow> bool" where
  "shrinks sg sg' \<longleftrightarrow> (\<exists>P. m_connected_slots sg' = filter P (m_connected_slots sg) \<and> pending sg' = filter P (pending sg))"

lemma shrinks_refl: "shrinks sg sg"
  unfolding shrinks_def by (intro exI [of _ "\<lambda>_. True"]) simp

lemma shrinks_trans: "shrinks a b \<Longrightarrow> shrinks b c \<Longrightarrow> shrinks a c"
  unfolding shrinks_def by (metis filter_filter)

lemma shrinks_erase: "signal_ok k sg \<Longrightarrow> shrinks sg (erase_connection i sg)"
  unfolding shrinks_def using pending_erase by (intro exI [of _ "\<lambda>n. fst n \<noteq> i"]) simp

lemma shrinks_slot_disconnect_loop: "signal_ok k sg \<Longrightarrow> shrinks sg (slot_disconnect_loop r ns sg)"
proof (induction ns arbitrary: sg)
  case (Cons n ns)
  then show ?case
    using shrinks_trans [OF shrinks_erase [OF Cons.prems]] signal_ok_erase [OF Cons.prems]
    by (cases "pdest (snd n) = r") (simp_all, blast)
qed (simp add: shrinks_refl)

lemma shrinks_new: "shrinks sg signal_new"
  unfolding shrinks_def by (intro exI [of _ "\<lambda>_. False"]) (simp add: signal_new_def pending_def)

lemma removal_shrinks:
  assumes "world_ok w" and "is_removal op" and "op_ok [] w op" and "signals w s = Some sg"
  shows "\<exists>w' sg'. sig_exec op w = Some w' \<and> world_ok w' \<and> signals w' s = Some sg' \<and> shrinks sg sg'"
proof (cases op)
  case (Disconnect s' r)
  then obtain sg0 where sg0: "signals w s' = Some sg0" using assms(3) by auto
  note ok = world_okD [OF assms(1)]
  obtain w' where w': "disconnect s' r w = Some w'" "world_ok w'" using disconnect_ok [OF assms(1) sg0] by blast
  have "\<exists>sg'. signals w' s = Some sg' \<and> shrinks sg sg'"
    using w'(1) sg0 assms(4) shrinks_refl [of sg] shrinks_erase [OF ok(1) [OF sg0]]
    by (auto simp: disconnect_def update_signal_def do_signal_disconnect_def update_senders_def split: option.splits if_splits)
  then show ?thesis using w' Disconnect by auto
next
  case (Disconnect_all s')
  then obtain sg0 where sg0: "signals w s' = Some sg0" using assms(3) by auto
  show ?thesis using Disconnect_all signal_disconnect_all_eq [OF assms(1) sg0] signal_disconnect_all_ok [OF assms(1) sg0]
      assms(4) shrinks_refl [of sg] shrinks_new by auto
next
  case (Destroy_has_slots r)
  then obtain ss where ss: "has_slots w r = Some ss" using assms(3) by auto
  obtain w' where w': "has_slots_destroy r w = Some w'" "world_ok w'" using has_slots_destroy_ok [OF assms(1) ss] by blast
  then show ?thesis
    using Destroy_has_slots has_slots_destroy_eq [OF assms(1) ss] assms(4) shrinks_refl [of sg]
      shrinks_slot_disconnect_loop [OF world_okD(1) [OF assms(1,4)]]
    by (auto simp: without_def)
qed (use assms(2) in simp_all)

lemma exec_guarded_shrinks:
  "world_ok w \<Longrightarrow> list_all is_removal ops \<Longrightarrow> signals w s = Some sg \<Longrightarrow>
   \<exists>w' sg'. exec_guarded ops w = Some w' \<and> world_ok w' \<and> signals w' s = Some sg' \<and> shrinks sg sg'"
proof (induction ops arbitrary: w sg)
  case (Cons op ops)
  show ?case
  proof (cases "op_ok [] w op")
    case True
    obtain w1 sg1 where w1: "sig_exec op w = Some w1" "world_ok w1" "signals w1 s = Some sg1" "shrinks sg sg1"
      using removal_shrinks [OF Cons.prems(1) _ True Cons.prems(3)] Cons.prems(2) by auto
    then show ?thesis using Cons.IH [OF w1(2) _ w1(3)] Cons.prems(2) True shrinks_trans [OF w1(4)] by auto
  qed (use Cons in auto)
qed (auto intro: shrinks_refl)

lemma emit_loop_delivers:
  assumes "\<forall>c w. list_all is_removal (body c w)"
  shows "world_ok w \<Longrightarrow> signals w s = Some sg \<Longrightarrow>
    \<exists>w' sg' cs. emit_loop body s w called = Some (w', called @ cs) \<and> world_ok w' \<and> signals w' s = Some sg' \<and>
      subseq cs (map snd (pending sg)) \<and> set (m_connected_slots sg') \<subseteq> set (m_connected_slots sg) \<and>
      (\<forall>n \<in> set (m_connected_slots sg') \<inter> set (pending sg). snd n \<in> set cs)"
proof (induction "length (pending sg)" arbitrary: w sg called rule: less_induct)
  case less
  let ?xs = "m_connected_slots sg"
  note ok = world_okD(1) [OF less.prems] and d = signal_okD(1) [OF world_okD(1) [OF less.prems]]
  show ?case
  proof (cases "m_current_iterator sg = None")
    case True
    have "pending sg = []" using True by (simp add: pending_def iter_pos_def)
    then show ?thesis using less.prems True by (subst emit_loop.simps) simp
  next
    case False
    obtain p where p: "p < length ?xs" "m_current_iterator sg = iter_at ?xs p"
      "emit_next s w = Some (snd (?xs ! p), w\<lparr>signals := (signals w)(s \<mapsto> sg\<lparr>m_current_iterator := iter_at ?xs (p + 1)\<rparr>)\<rparr>)"
      using emit_next_eq [OF ok less.prems(2) False] by blast
    let ?sg1 = "sg\<lparr>m_current_iterator := iter_at ?xs (p + 1)\<rparr>" let ?w1 = "w\<lparr>signals := (signals w)(s \<mapsto> ?sg1)\<rparr>"
    let ?c = "snd (?xs ! p)"
    have pend: "pending sg = ?xs ! p # pending ?sg1"
      using pending_at [OF d _ p(2)] pending_at [of ?sg1 "p + 1"] d p(1) by (simp add: Cons_nth_drop_Suc)
    obtain w2 sg2 where w2: "exec_guarded (body ?c ?w1) ?w1 = Some w2" "world_ok w2" "signals w2 s = Some sg2" "shrinks ?sg1 sg2"
      using exec_guarded_shrinks [of ?w1 "body ?c ?w1" s ?sg1] world_ok_iterator [OF less.prems, of "p + 1"] p(1) assms by auto
    obtain P where P: "m_connected_slots sg2 = filter P ?xs" "pending sg2 = filter P (pending ?sg1)"
      using w2(4) by (auto simp: shrinks_def)
    have "length (pending sg2) < length (pending sg)" unfolding P(2) pend by (simp add: le_imp_less_Suc)
    then obtain w' sg' cs where IH: "emit_loop body s w2 (called @ [?c]) = Some (w', (called @ [?c]) @ cs)" "world_ok w'"
      "signals w' s = Some sg'" "subseq cs (map snd (pending sg2))" "set (m_connected_slots sg') \<subseteq> set (m_connected_slots sg2)"
      "\<forall>n \<in> set (m_connected_slots sg') \<inter> set (pending sg2). snd n \<in> set cs"
      using less.hyps [OF _ w2(2,3)] by blast
    have "subseq cs (map snd (pending ?sg1))"
      using IH(4) unfolding P(2) by (rule subseq_order.trans) (intro subseq_map subseq_filter_left)
    moreover have "emit_loop body s w called = Some (w', called @ ?c # cs)"
      using less.prems(2) False p(3) w2(1) IH(1) by (subst emit_loop.simps) simp
    moreover have "\<forall>n \<in> set (m_connected_slots sg') \<inter> set (pending sg). snd n \<in> set (?c # cs)"
      using IH(5,6) unfolding P pend by auto
    ultimately show ?thesis using IH(2,3,5) unfolding P(1) pend
      by (intro exI [of _ w'] exI [of _ sg'] exI [of _ "?c # cs"]) auto
  qed
qed

section \<open>Properties\<close>

text \<open>
  C17. A program that connects, disconnects, copies, destroys and emits signals in any order, also from within slots that are
  being called.  It names live objects, does not connect a signal to an object it is connected to already, and does not
  destroy a signal while that is being emitted; a program that breaks one of these is at \<open>Misuse\<close>, and nothing is claimed of it
  from there on.  Then the library never follows a dangling pointer or a stale iterator and never calls a destroyed object,
  and the senders an object knows are exactly the live signals with a connection to it.
\<close>

theorem sigslot_safe:
  assumes "sig_reachable body (Running empty_world [Ops ops]) c"
  shows "c \<noteq> Fault \<and> (\<forall>w fs. c = Running w fs \<longrightarrow>
    (\<forall>s r. connected w s r \<longleftrightarrow> (\<exists>ss. has_slots w r = Some ss \<and> s \<in> set ss)))"
proof -
  have ok: "config_ok c" using config_ok_reachable [OF assms] empty_world_ok by (simp add: config_ok_def)
  have "connected w s r \<longleftrightarrow> (\<exists>ss. has_slots w r = Some ss \<and> s \<in> set ss)" if "world_ok w" for w s r
    using world_okD(2,4) [OF that] by (fastforce simp: connected_def split: option.splits)
  then show ?thesis using ok by (auto simp: config_ok_def)
qed

theorem sigslot_safe_witness:
  "\<exists>w w'. (sig_step (\<lambda>c w. [Destroy_has_slots (pdest c)]) ^^ 5)
        (Running empty_world [Ops [New_signal 0, New_has_slots 1, Connect 0 1 7, Emit 0]]) =
      Running w [Ops [Destroy_has_slots 1], Emitting 0, Ops []] \<and> connected w 0 1 \<and> has_slots w 1 = Some [0] \<and>
    (sig_step (\<lambda>c w. [Destroy_has_slots (pdest c)]) ^^ 9)
        (Running empty_world [Ops [New_signal 0, New_has_slots 1, Connect 0 1 7, Emit 0]]) = Running w' [] \<and>
      \<not> connected w' 0 1"
proof -
  let ?body = "\<lambda>c w. [Destroy_has_slots (pdest c)]"
  let ?start = "Running empty_world [Ops [New_signal 0, New_has_slots 1, Connect 0 1 7, Emit 0]]"
  note run = numeral_nat empty_world_def signal_new_def connect_def push_back_def update_signal_def do_signal_connect_def
    update_senders_def emit_begin_def emit_next_def iter_at_def deref_def iter_advance_def iter_pos_def connected_def dests_def
    has_slots_destroy_def do_disconnect_all.simps do_slot_disconnect_def erase_connection_def node_erase_def insort_insert_key_def
  obtain w where w: "(sig_step ?body ^^ 5) ?start = Running w [Ops [Destroy_has_slots 1], Emitting 0, Ops []]" "has_slots w 1 = Some [0]"
    by (simp add: run)
  moreover have "connected w 0 1"
    using sigslot_safe [OF reachable_funpow [of ?body ?start 5]] w by auto
  moreover obtain w' where w': "(sig_step ?body ^^ 9) ?start = Running w' []" "has_slots w' 1 = None"
    by (simp add: run)
  moreover have "\<not> connected w' 0 1"
    using sigslot_safe [OF reachable_funpow [of ?body ?start 9]] w' by auto
  ultimately show ?thesis by blast
qed



section \<open>Repeaters\<close>

text \<open>
  A repeater is a signal and an object with slots in one; its slot \<open>reemit\<close> emits its own signal.
  The arity of the signal plays no role here.
\<close>

record repeater =
  rep_signal :: addr
  rep_slots :: addr

definition repeater_reemit :: "repeater \<Rightarrow> sig_op list" where
  "repeater_reemit rep = [Emit (rep_signal rep)]"

definition repeater_repeat :: "nat \<Rightarrow> repeater \<Rightarrow> addr \<Rightarrow> world \<Rightarrow> world option" where
  "repeater_repeat reemit rep s = connect s (rep_slots rep) reemit"

definition repeater_stop :: "repeater \<Rightarrow> addr \<Rightarrow> world \<Rightarrow> world option" where
  "repeater_stop rep s = disconnect s (rep_slots rep)"

text \<open>Copying a repeater copies its signal; the new one repeats nothing.\<close>

definition repeater_copy :: "repeater \<Rightarrow> repeater \<Rightarrow> world \<Rightarrow> world option" where
  "repeater_copy rep old w =
     map_option (\<lambda>w. w\<lparr>has_slots := (has_slots w)(rep_slots rep \<mapsto> [])\<rparr>) (signal_copy (rep_signal rep) (rep_signal old) w)"

lemma repeater_repeat_stop:
  assumes "world_ok w" and "signals w s = Some sg" and "has_slots w (rep_slots rep) = Some ss" and "\<not> connected w s (rep_slots rep)"
  shows "\<exists>w1 w2. repeater_repeat reemit rep s w = Some w1 \<and> connected w1 s (rep_slots rep) \<and>
    repeater_stop rep s w1 = Some w2 \<and> world_ok w2 \<and> \<not> connected w2 s (rep_slots rep)"
proof -
  let ?r = "rep_slots rep"
  have nr: "?r \<notin> set (dests sg)" using assms(2,4) by (simp add: connected_def)
  obtain w1 where w1: "connect s ?r reemit w = Some w1" "world_ok w1" "dom (signals w1) = dom (signals w)"
    "connected w1 s ?r"
    using connect_ok [OF assms(1-3) nr, of reemit] by blast
  obtain sg1 where sg1: "signals w1 s = Some sg1" using w1(3) assms(2) by (metis domD domI)
  obtain w2 where w2: "disconnect s ?r w1 = Some w2" "world_ok w2" using disconnect_ok [OF w1(2) sg1] by blast
  obtain n where n: "find (\<lambda>n. pdest (snd n) = ?r) (m_connected_slots sg1) = Some n"
  proof (cases "find (\<lambda>n. pdest (snd n) = ?r) (m_connected_slots sg1)")
    case None
    then have "\<forall>n \<in> set (m_connected_slots sg1). pdest (snd n) \<noteq> ?r" unfolding find_None_iff by blast
    then have "?r \<notin> set (dests sg1)" unfolding dests_def set_map image_iff by metis
    then show thesis using w1(4) sg1 by (simp add: connected_def)
  qed
  have "signals w2 s = Some (erase_connection (fst n) sg1)"
    using w2(1) sg1 n by (auto simp: disconnect_def update_signal_def do_signal_disconnect_def update_senders_def split: option.splits)
  then have "\<not> connected w2 s ?r" using find_first_dest(1) [OF world_okD(1) [OF w1(2) sg1] n] by (simp add: connected_def)
  then show ?thesis using w1 w2 by (auto simp: repeater_repeat_def repeater_stop_def)
qed

section \<open>Deviations\<close>

text \<open>
  Without the obligation to connect at most once: two connections to the same object, one \<open>disconnect\<close>
  and the destruction of the object leave the signal connected to the destroyed object, because
  \<open>disconnect\<close> removes one connection but unregisters the signal.
\<close>

lemma duplicate_connection_dangles:
  "\<exists>w1 w2 w3 w4. connect 0 1 5 (empty_world\<lparr>signals := [0 \<mapsto> signal_new], has_slots := [1 \<mapsto> []]\<rparr>) = Some w1 \<and>
     connect 0 1 6 w1 = Some w2 \<and> disconnect 0 1 w2 = Some w3 \<and> has_slots_destroy 1 w3 = Some w4 \<and>
     connected w4 0 1 \<and> has_slots w4 1 = None"
  by (simp add: connect_def push_back_def update_signal_def do_signal_connect_def update_senders_def empty_world_def
      signal_new_def disconnect_def erase_connection_def node_erase_def do_signal_disconnect_def has_slots_destroy_def
      do_disconnect_all.simps connected_def dests_def insort_insert_key_def)

end
