(* ===== verification/TimeUtils.thy ===== *)
theory TimeUtils
  imports Prelude
begin

text \<open>
  \<open>src/time_utils.{h,cpp}\<close>: clock conversions, calendar time to seconds, and the extension of 32-bit
  timestamps to 64 bits.  The clocks of the operating system are parameters.
\<close>

section \<open>Clocks\<close>

definition k_num_millisecs_per_sec :: int where "k_num_millisecs_per_sec = 1000"
definition k_num_microsecs_per_sec :: int where "k_num_microsecs_per_sec = 1000000"
definition k_num_nanosecs_per_sec :: int where "k_num_nanosecs_per_sec = 1000000000"
definition k_num_microsecs_per_millisec :: int where
  "k_num_microsecs_per_millisec = k_num_microsecs_per_sec div k_num_millisecs_per_sec"
definition k_num_nanosecs_per_millisec :: int where
  "k_num_nanosecs_per_millisec = k_num_nanosecs_per_sec div k_num_millisecs_per_sec"
definition k_num_nanosecs_per_microsec :: int where
  "k_num_nanosecs_per_microsec = k_num_nanosecs_per_sec div k_num_microsecs_per_sec"

text \<open>\<open>clock_gettime\<close> gives seconds and nanoseconds; the result is converted to \<open>uint64_t\<close>.\<close>

definition system_time_nanos :: "int \<times> int \<Rightarrow> u64" where
  "system_time_nanos ts = word_of_int (k_num_nanosecs_per_sec * fst ts + snd ts)"

definition time_nanos :: "u64 option \<Rightarrow> int \<times> int \<Rightarrow> u64" where
  "time_nanos g_clock ts = (case g_clock of Some t \<Rightarrow> t | None \<Rightarrow> system_time_nanos ts)"

definition system_time_millis :: "int \<times> int \<Rightarrow> int" where
  "system_time_millis ts = sint (system_time_nanos ts div word_of_int k_num_nanosecs_per_millisec)"

definition time_millis :: "u64 option \<Rightarrow> int \<times> int \<Rightarrow> int" where
  "time_millis g_clock ts = sint (time_nanos g_clock ts div word_of_int k_num_nanosecs_per_millisec)"

definition time_micros :: "u64 option \<Rightarrow> int \<times> int \<Rightarrow> u64" where
  "time_micros g_clock ts = time_nanos g_clock ts div word_of_int k_num_nanosecs_per_microsec"

definition time_diff :: "int \<Rightarrow> int \<Rightarrow> int" where
  "time_diff later earlier = later - earlier"

definition time_diff32 :: "u32 \<Rightarrow> u32 \<Rightarrow> int" where
  "time_diff32 later earlier = sint (later - earlier)"

definition unix_time_micros :: "int \<times> int \<Rightarrow> int" where
  "unix_time_micros tv = fst tv * 1000000 + snd tv"

section \<open>Calendar time\<close>

record tm =
  tm_year :: int
  tm_mon :: int
  tm_mday :: int
  tm_hour :: int
  tm_min :: int
  tm_sec :: int

definition mdays :: "int list" where
  "mdays = [31, 28, 31, 30, 31, 30, 31, 31, 30, 31, 30, 31]"

definition cumul_mdays :: "int list" where
  "cumul_mdays = [0, 31, 59, 90, 120, 151, 181, 212, 243, 273, 304, 334]"

definition leap :: "int \<Rightarrow> bool" where
  "leap year \<longleftrightarrow> year mod 4 = 0 \<and> (year mod 100 \<noteq> 0 \<or> year mod 400 = 0)"

definition tm_to_seconds :: "tm \<Rightarrow> int" where
  "tm_to_seconds t =
     (let year = tm_year t + 1900; month = tm_mon t; day = tm_mday t - 1;
          hour = tm_hour t; minute = tm_min t; sec = tm_sec t;
          expiry_in_leap_year = leap year
      in if year < 1970 then - 1
         else if month < 0 \<or> month > 11 then - 1
         else if day < 0 \<or> day \<ge> mdays ! nat month + of_bool (expiry_in_leap_year \<and> month = 2 - 1) then - 1
         else if hour < 0 \<or> hour > 23 then - 1
         else if minute < 0 \<or> minute > 59 then - 1
         else if sec < 0 \<or> sec > 59 then - 1
         else let day = day + cumul_mdays ! nat month;
                  day = day + ((year div 4 - 1970 div 4) - (year div 100 - 1970 div 100) + (year div 400 - 1970 div 400));
                  day = (if expiry_in_leap_year \<and> month \<le> 2 - 1 then day - 1 else day)
              in ((((year - 1970) * 365 + day) * 24 + hour) * 60 + minute) * 60 + sec)"

section \<open>Timestamp extension\<close>

record wrap_handler =
  last_ts :: u32
  num_wrap :: int

definition wrap_new :: wrap_handler where
  "wrap_new = \<lparr>last_ts = 0, num_wrap = - 1\<rparr>"

definition unwrap :: "wrap_handler \<Rightarrow> u32 \<Rightarrow> int \<times> wrap_handler" where
  "unwrap h ts =
     (if num_wrap h = - 1 then (uint ts, h\<lparr>last_ts := ts, num_wrap := 0\<rparr>)
      else if \<not> ts < last_ts h \<and> ts - last_ts h > 0xf0000000
      then (uint ts + (num_wrap h - 1) * 2 ^ 32, h)
      else let h = (if ts < last_ts h \<and> last_ts h \<ge> 0xf0000000 \<and> ts < 0x0fffffff
                    then h\<lparr>num_wrap := num_wrap h + 1\<rparr> else h);
               h = h\<lparr>last_ts := ts\<rparr>
           in (uint ts + num_wrap h * 2 ^ 32, h))"

section \<open>The calendar\<close>

text \<open>The reference: count the days of the years, of the months and of the month.\<close>

definition days_in_year :: "int \<Rightarrow> int" where
  "days_in_year y = (if leap y then 366 else 365)"

definition days_in_month :: "int \<Rightarrow> nat \<Rightarrow> int" where
  "days_in_month y m = (if m = 1 \<and> leap y then 29 else mdays ! m)"

definition days_since_epoch :: "int \<Rightarrow> nat \<Rightarrow> int \<Rightarrow> int" where
  "days_since_epoch y m d =
     (\<Sum>i < nat (y - 1970). days_in_year (1970 + int i)) + (\<Sum>i < m. days_in_month y i) + d"

definition tm_valid :: "tm \<Rightarrow> bool" where
  "tm_valid t \<longleftrightarrow> 70 \<le> tm_year t \<and> 0 \<le> tm_mon t \<and> tm_mon t \<le> 11 \<and>
     1 \<le> tm_mday t \<and> tm_mday t \<le> days_in_month (tm_year t + 1900) (nat (tm_mon t)) \<and>
     0 \<le> tm_hour t \<and> tm_hour t < 24 \<and> 0 \<le> tm_min t \<and> tm_min t < 60 \<and> 0 \<le> tm_sec t \<and> tm_sec t < 60"

text \<open>Leap years up to a year, counted by the usual quotients.\<close>

definition leap_upto :: "int \<Rightarrow> int" where
  "leap_upto y = y div 4 - y div 100 + y div 400"

lemma leap_count_step: "leap_upto (y + 1) = leap_upto y + of_bool (leap (y + 1))"
proof -
  have d: "(y + 1) div n = y div n + of_bool ((y + 1) mod n = 0)" if "0 < n" for n
  proof (cases "(y + 1) mod n = 0")
    case True
    then obtain k where k: "y + 1 = n * k" by (auto simp: mod_eq_0_iff_dvd dvd_def)
    then have y: "y = n * (k - 1) + (n - 1)" by (simp add: algebra_simps)
    have "y div n = k - 1" unfolding y using that by simp
    then show ?thesis using True k that by simp
  next
    case False
    have y: "y + 1 = n * (y div n) + (y mod n + 1)" by (simp add: algebra_simps)
    have b: "0 \<le> y mod n" "y mod n < n" using that by simp_all
    moreover have "y mod n + 1 \<noteq> n" using False y by (metis mod_mult_self1_is_0 distrib_left mult.right_neutral)
    ultimately have "0 \<le> y mod n + 1" "y mod n + 1 < n" by linarith+
    then have "(y mod n + 1) div n = 0" by (rule div_pos_pos_trivial)
    moreover have "(n * (y div n) + (y mod n + 1)) div n = y div n + (y mod n + 1) div n"
      using that by (intro div_mult_self4) simp
    ultimately have "(n * (y div n) + (y mod n + 1)) div n = y div n" by (simp only: add_0_right)
    then have "(y + 1) div n = y div n" unfolding y [symmetric] .
    then show ?thesis using False by simp
  qed
  have dvd: "(4::int) dvd 100" "(100::int) dvd 400" by simp_all
  have imp: "(y + 1) mod 100 = 0 \<longrightarrow> (y + 1) mod 4 = 0" "(y + 1) mod 400 = 0 \<longrightarrow> (y + 1) mod 100 = 0"
    unfolding mod_eq_0_iff_dvd using dvd_trans [OF dvd(1)] dvd_trans [OF dvd(2)] by blast+
  have gen: "(A + of_bool a) - (B + of_bool b) + (C + of_bool c) = A - B + C + of_bool (a \<and> (\<not> b \<or> c))"
    if "c \<longrightarrow> b" "b \<longrightarrow> a" for A B C :: int and a b c
    using that by (cases a; cases b; cases c; simp)
  show ?thesis
    unfolding leap_upto_def leap_def d [OF zero_less_numeral] by (rule gen [OF imp(2,1)])
qed

lemma days_of_years:
  "(\<Sum>i < k. days_in_year (1970 + int i)) = 365 * int k + (leap_upto (1970 + int k - 1) - leap_upto 1970)"
proof (induction k)
  case 0
  show ?case by (simp add: leap_upto_def)
next
  case (Suc k)
  have d: "days_in_year (1970 + int k) = 365 + of_bool (leap (1970 + int k))" by (simp add: days_in_year_def)
  have l: "leap_upto (1970 + int k) = leap_upto (1970 + int k - 1) + of_bool (leap (1970 + int k))"
    using leap_count_step [of "1970 + int k - 1"] unfolding diff_add_cancel .
  have s: "1970 + int (Suc k) - 1 = 1970 + int k" by simp
  show ?case unfolding sum.lessThan_Suc Suc.IH s d l by simp
qed

lemma days_of_months:
  "m < 12 \<Longrightarrow> (\<Sum>i < m. days_in_month y i) = cumul_mdays ! m + of_bool (leap y \<and> 1 < m)"
  by (cases m; (simp add: numeral_eq_Suc lessThan_Suc days_in_month_def mdays_def cumul_mdays_def)?)
     (auto simp: numeral_eq_Suc less_Suc_eq lessThan_Suc days_in_month_def mdays_def cumul_mdays_def)

lemma tm_to_seconds_valid:
  assumes "tm_valid t"
  shows "tm_to_seconds t = ((days_since_epoch (tm_year t + 1900) (nat (tm_mon t)) (tm_mday t - 1) * 24 + tm_hour t) * 60 +
    tm_min t) * 60 + tm_sec t"
proof -
  let ?y = "tm_year t + 1900" and ?m = "nat (tm_mon t)"
  note v = assms [unfolded tm_valid_def]
  have m: "?m < 12" "tm_mon t = 2 - 1 \<longleftrightarrow> ?m = 1" "tm_mon t \<le> 2 - 1 \<longleftrightarrow> \<not> 1 < ?m" using v by auto
  have lim: "mdays ! ?m + of_bool (leap ?y \<and> tm_mon t = 2 - 1) = days_in_month ?y ?m"
    unfolding m(2) by (auto simp: days_in_month_def mdays_def)
  have days: "days_since_epoch ?y ?m (tm_mday t - 1) = (?y - 1970) * 365 + (tm_mday t - 1 + cumul_mdays ! ?m +
      ((?y div 4 - 1970 div 4) - (?y div 100 - 1970 div 100) + (?y div 400 - 1970 div 400)) -
      of_bool (leap ?y \<and> \<not> 1 < ?m))"
  proof -
    have q: "leap_upto ?y = leap_upto (?y - 1) + of_bool (leap ?y)"
      using leap_count_step [of "?y - 1"] unfolding diff_add_cancel .
    have n: "1970 + int (nat (?y - 1970)) - 1 = ?y - 1" "365 * int (nat (?y - 1970)) = 365 * (?y - 1970)" using v by simp_all
    have "days_since_epoch ?y ?m (tm_mday t - 1) = 365 * (?y - 1970) + (leap_upto (?y - 1) - leap_upto 1970) +
        (cumul_mdays ! ?m + of_bool (leap ?y \<and> 1 < ?m)) + (tm_mday t - 1)"
      unfolding days_since_epoch_def days_of_years days_of_months [OF m(1)] n(1) n(2) ..
    moreover have "(?y div 4 - 1970 div 4) - (?y div 100 - 1970 div 100) + (?y div 400 - 1970 div 400) = leap_upto ?y - leap_upto 1970"
      unfolding leap_upto_def by (simp only: algebra_simps)
    moreover have "(of_bool (leap ?y \<and> 1 < ?m) :: int) = of_bool (leap ?y) - of_bool (leap ?y \<and> \<not> 1 < ?m)" by simp
    ultimately show ?thesis using q by (simp only: algebra_simps)
  qed
  show ?thesis unfolding tm_to_seconds_def Let_def lim m(3) days using v by (auto simp: of_bool_def)
qed

lemma tm_to_seconds_invalid:
  assumes "\<not> tm_valid t"
  shows "tm_to_seconds t = - 1"
proof (cases "tm_year t < 70 \<or> tm_mon t < 0 \<or> tm_mon t > 11")
  case True
  then show ?thesis by (auto simp: tm_to_seconds_def Let_def)
next
  case False
  let ?y = "tm_year t + 1900"
  have "mdays ! nat (tm_mon t) + of_bool (leap ?y \<and> tm_mon t = 2 - 1) = days_in_month ?y (nat (tm_mon t))"
    using False by (auto simp: days_in_month_def mdays_def)
  then have lim: "tm_mday t - 1 \<ge> mdays ! nat (tm_mon t) + of_bool (leap ?y \<and> tm_mon t = 2 - 1) \<longleftrightarrow>
      \<not> tm_mday t \<le> days_in_month ?y (nat (tm_mon t))" by linarith
  show ?thesis using assms False unfolding tm_to_seconds_def Let_def lim tm_valid_def by auto
qed

section \<open>Timestamps\<close>

text \<open>The handler has last accepted the timestamp of time \<open>L\<close>.\<close>

definition at_time :: "wrap_handler \<Rightarrow> int \<Rightarrow> bool" where
  "at_time h L \<longleftrightarrow> 0 \<le> num_wrap h \<and> L = num_wrap h * 2 ^ 32 + uint (last_ts h)"

lemma epoch_cases:
  assumes "0 \<le> r" "r < 4294967296" "0 \<le> (u::int)" "u < 4294967296"
    and "T = e * 4294967296 + u" and "L = k * 4294967296 + r" and "- 268435456 < T - L" "T - L < 268435456"
  obtains (same) "e = k" "r - u < 268435456" "u - r < 268435456"
  | (forward) "e = k + 1" "u < r" "u + 4294967296 - r < 268435456"
  | (backward) "e = k - 1" "r < u" "r + 4294967296 - u < 268435456"
proof -
  have d: "T - L = (e - k) * 4294967296 + (u - r)" unfolding assms(5,6) by (simp add: algebra_simps)
  consider "e - k \<le> - 2" | "e - k = - 1" | "e - k = 0" | "e - k = 1" | "e - k \<ge> 2" by linarith
  then show thesis
  proof cases
    case 1
    then have "(e - k) * 4294967296 \<le> - 2 * 4294967296" by (intro mult_right_mono) simp_all
    then show thesis using d assms(1-4,7) by linarith
  next
    case 2
    then have "T - L = u - r - 4294967296" using d by simp
    then show thesis using 2 assms by (intro backward) linarith+
  next
    case 3
    then have "T - L = u - r" using d by simp
    then show thesis using 3 assms by (intro same) linarith+
  next
    case 4
    then have "T - L = u - r + 4294967296" using d by simp
    then show thesis using 4 assms by (intro forward) linarith+
  next
    case 5
    then have "2 * 4294967296 \<le> (e - k) * 4294967296" by (intro mult_right_mono) simp_all
    then show thesis using d assms(1-4,8) by linarith
  qed
qed

text \<open>The tests of \<open>unwrap\<close> on the values of the words.\<close>

lemma unwrap_value:
  assumes "num_wrap h \<noteq> - 1" and "r = uint (last_ts h)" and "u = uint ts"
  shows "unwrap h ts =
    (if r \<le> u \<and> u - r > 0xf0000000 then (u + (num_wrap h - 1) * 4294967296, h)
     else if u < r \<and> r \<ge> 0xf0000000 \<and> u < 0x0fffffff
     then (u + (num_wrap h + 1) * 4294967296, h\<lparr>last_ts := ts, num_wrap := num_wrap h + 1\<rparr>)
     else (u + num_wrap h * 4294967296, h\<lparr>last_ts := ts\<rparr>))"
proof -
  have less: "ts < last_ts h \<longleftrightarrow> u < r" unfolding assms(2,3) by (rule word_less_def)
  have "ts - last_ts h > 0xf0000000 \<longleftrightarrow> u - r > 0xf0000000" if "r \<le> u"
    using that uint_sub_if' [of ts "last_ts h"] unfolding assms(2,3) by (simp add: word_less_def)
  moreover have "last_ts h \<ge> 0xf0000000 \<longleftrightarrow> r \<ge> 0xf0000000" "ts < 0x0fffffff \<longleftrightarrow> u < 0x0fffffff"
    unfolding assms(2,3) by (simp_all add: word_le_def word_less_def)
  ultimately show ?thesis unfolding unwrap_def less Let_def using assms(1,3) by auto
qed

lemma unwrap_step:
  assumes "at_time h L" and "- 268435456 < T - L" and "T - L < 268435456"
  shows "fst (unwrap h (word_of_int T)) = T \<and>
    at_time (snd (unwrap h (word_of_int T))) (if T div 4294967296 = L div 4294967296 - 1 then L else T)"
proof -
  define ts :: u32 where "ts = word_of_int T"
  let ?u = "uint ts" and ?r = "uint (last_ts h)" and ?e = "T div 4294967296" and ?k = "num_wrap h"
  have uts: "?u = T mod 4294967296" by (simp add: ts_def unsigned_of_int take_bit_eq_mod)
  have T: "T = ?e * 4294967296 + ?u" unfolding uts by simp
  have r: "0 \<le> ?r" "?r < 4294967296" "0 \<le> ?u" "?u < 4294967296"
    using unsigned_less [of "last_ts h", where 'a = int] unsigned_less [of ts, where 'a = int] by simp_all
  have L: "L = ?k * 4294967296 + ?r" "0 \<le> ?k" using assms(1) by (simp_all add: at_time_def)
  have Ld: "L div 4294967296 = ?k" unfolding L(1) using r by simp
  have new: "?k \<noteq> - 1" using L(2) by simp
  note uv = unwrap_value [OF new refl refl, of ts]
  from r T L(1) assms(2,3) show ?thesis
  proof (cases rule: epoch_cases)
    case same
    then have "unwrap h ts = (?u + ?k * 4294967296, h\<lparr>last_ts := ts\<rparr>)" unfolding uv using r by simp
    then show ?thesis unfolding ts_def [symmetric] Ld using same(1) T L by (simp add: at_time_def)
  next
    case forward
    have "unwrap h ts = (?u + (?k + 1) * 4294967296, h\<lparr>last_ts := ts, num_wrap := ?k + 1\<rparr>)"
    proof -
      have "?r \<ge> 0xf0000000" "?u < 0x0fffffff" using r forward(2,3) by linarith+
      then show ?thesis unfolding uv using forward(2) by simp
    qed
    then show ?thesis unfolding ts_def [symmetric] Ld using forward(1) T L by (simp add: at_time_def)
  next
    case backward
    have "unwrap h ts = (?u + (?k - 1) * 4294967296, h)" unfolding uv using r backward(2,3) by simp
    then show ?thesis unfolding ts_def [symmetric] Ld using backward(1) T assms(1) by (simp add: at_time_def)
  qed
qed

fun unwrap_all :: "wrap_handler \<Rightarrow> u32 list \<Rightarrow> int list" where
  "unwrap_all h [] = []"
| "unwrap_all h (ts # tss) = (let (t, h) = unwrap h ts in t # unwrap_all h tss)"

text \<open>Times that do not decrease and advance by less than \<open>2\<^sup>2\<^sup>8\<close> from one to the next.\<close>

fun paced :: "int \<Rightarrow> int list \<Rightarrow> bool" where
  "paced t [] \<longleftrightarrow> True"
| "paced t (u # us) \<longleftrightarrow> t \<le> u \<and> u - t < 268435456 \<and> paced u us"

lemma unwrap_all_paced: "at_time h t \<Longrightarrow> paced t us \<Longrightarrow> unwrap_all h (map word_of_int us) = us"
proof (induction us arbitrary: h t)
  case (Cons u us)
  have le: "t div 4294967296 \<le> u div 4294967296" using Cons.prems(2) by (intro zdiv_mono1) simp_all
  have "fst (unwrap h (word_of_int u)) = u" "at_time (snd (unwrap h (word_of_int u))) u"
    using unwrap_step [OF Cons.prems(1), of u] Cons.prems(2) le by (auto split: if_splits)
  then show ?case using Cons.IH [of _ u] Cons.prems(2) by (simp add: case_prod_beta)
qed simp

section \<open>Properties\<close>

text \<open>
  \<open>tm_to_seconds\<close> accepts exactly the valid dates from 1970 on (days of the month and leap years
  included) and returns the seconds since the epoch, as counted day by day; it returns \<open>-1\<close> for
  everything else.
\<close>

theorem tm_to_seconds_correct:
  "tm_to_seconds t =
    (if tm_valid t
     then ((days_since_epoch (tm_year t + 1900) (nat (tm_mon t)) (tm_mday t - 1) * 24 + tm_hour t) * 60 + tm_min t) * 60 + tm_sec t
     else - 1)"
  using tm_to_seconds_valid tm_to_seconds_invalid by simp

text \<open>
  C18. The 32-bit timestamps of times that never step back and advance by less than \<open>2\<^sup>2\<^sup>8\<close> are extended to
  the times themselves, however often they wrap, when the first time is below \<open>2\<^sup>3\<^sup>2\<close>; and a single
  timestamp up to \<open>2\<^sup>2\<^sup>8\<close> before or after the last accepted time is extended correctly, across a wrap in
  either direction.
\<close>

theorem unwrap_correct:
  "(0 \<le> t \<and> t < 2 ^ 32 \<and> paced t us \<longrightarrow> unwrap_all wrap_new (map word_of_int (t # us)) = t # us) \<and>
   (at_time h L \<and> - (2 ^ 28) < T - L \<and> T - L < 2 ^ 28 \<longrightarrow> fst (unwrap h (word_of_int T)) = T)"
proof (intro conjI impI)
  assume a: "0 \<le> t \<and> t < 2 ^ 32 \<and> paced t us"
  then have u: "uint (word_of_int t :: u32) = t" by (simp add: unsigned_of_int take_bit_int_eq_self)
  then have "at_time \<lparr>last_ts = word_of_int t, num_wrap = 0\<rparr> t" by (simp add: at_time_def)
  then show "unwrap_all wrap_new (map word_of_int (t # us)) = t # us"
    using a u unwrap_all_paced by (simp add: unwrap_def wrap_new_def)
next
  assume "at_time h L \<and> - (2 ^ 28) < T - L \<and> T - L < 2 ^ 28"
  then show "fst (unwrap h (word_of_int T)) = T" using unwrap_step [of h L T] by simp
qed

theorem unwrap_correct_witness:
  "unwrap_all wrap_new [0xfffffff0, 0x10, 0x8000010] = [4294967280, 4294967312, 4429185040]"
proof -
  have w: "(4294967312 :: u32) = 0x10" "(4429185040 :: u32) = 0x8000010" by simp_all
  have "unwrap_all wrap_new (map word_of_int [4294967280, 4294967312, 4429185040]) = [4294967280, 4294967312, 4429185040]"
    using unwrap_correct [of 4294967280 "[4294967312, 4429185040]" wrap_new 0 0] by (simp del: unwrap_all.simps)
  then show ?thesis unfolding list.map of_int_numeral w .
qed

text \<open>
  The difference of two wrapped 32-bit times is the true signed difference whenever that is less than
  \<open>2\<^sup>3\<^sup>1\<close> in magnitude.
\<close>

theorem time_diff32_correct:
  assumes "- (2 ^ 31) \<le> later - earlier" and "later - earlier < 2 ^ 31"
  shows "time_diff32 (word_of_int later) (word_of_int earlier) = later - earlier"
proof -
  have "word_of_int later - (word_of_int earlier :: u32) = word_of_int (later - earlier)" by simp
  then show ?thesis unfolding time_diff32_def
    using assms by (simp only: signed_of_int) (simp add: signed_take_bit_int_eq_self)
qed

theorem time_diff32_correct_witness: "time_diff32 5 0xfffffffb = 10"
proof -
  have w: "(4294967301 :: u32) = 5" by simp
  have "time_diff32 (word_of_int 4294967301) (word_of_int 4294967291) = 10"
    using time_diff32_correct [of 4294967301 4294967291] by simp
  then show ?thesis unfolding of_int_numeral w .
qed

end
