(* ===== verification/HashStream.thy ===== *)
theory HashStream
  imports ByteOrder
begin

text \<open>
  What the block-oriented digests share: a message is absorbed in blocks of 64 bytes, the bytes of an
  incomplete block are kept in the context, and the length in bits is kept modulo \<open>2\<^sup>6\<^sup>4\<close> in two 32-bit
  words.
\<close>

section \<open>Blocks\<close>

fun full_blocks :: "byte list \<Rightarrow> byte list list" where
  "full_blocks xs = (if length xs < 64 then [] else take 64 xs # full_blocks (drop 64 xs))"

fun rest_bytes :: "byte list \<Rightarrow> byte list" where
  "rest_bytes xs = (if length xs < 64 then xs else rest_bytes (drop 64 xs))"

declare full_blocks.simps [simp del] rest_bytes.simps [simp del]

lemma length_rest_bytes: "length (rest_bytes xs) = length xs mod 64"
proof (induction xs rule: rest_bytes.induct)
  case (1 xs)
  then show ?case by (subst rest_bytes.simps) (simp add: le_mod_geq not_less)
qed

lemma blocks_append:
  "full_blocks (xs @ ys) = full_blocks xs @ full_blocks (rest_bytes xs @ ys)"
  "rest_bytes (xs @ ys) = rest_bytes (rest_bytes xs @ ys)"
proof (induction xs rule: rest_bytes.induct)
  case (1 xs)
  show "full_blocks (xs @ ys) = full_blocks xs @ full_blocks (rest_bytes xs @ ys)"
  proof (cases "length xs < 64")
    case True
    then show ?thesis by (simp add: full_blocks.simps [of xs] rest_bytes.simps [of xs])
  next
    case False
    then show ?thesis using 1(1) by (simp add: full_blocks.simps [of xs] full_blocks.simps [of "xs @ ys"] rest_bytes.simps [of xs])
  qed
  show "rest_bytes (xs @ ys) = rest_bytes (rest_bytes xs @ ys)"
  proof (cases "length xs < 64")
    case False
    then show ?thesis using 1(2) by (simp add: rest_bytes.simps [of xs] rest_bytes.simps [of "xs @ ys"])
  qed (simp add: rest_bytes.simps [of xs])
qed

lemma blocks_short [simp]: "length xs < 64 \<Longrightarrow> full_blocks xs = []" "length xs < 64 \<Longrightarrow> rest_bytes xs = xs"
  by (simp_all add: full_blocks.simps rest_bytes.simps)

lemma blocks_step:
  "length xs = 64 \<Longrightarrow> full_blocks (xs @ ys) = xs # full_blocks ys"
  "length xs = 64 \<Longrightarrow> rest_bytes (xs @ ys) = rest_bytes ys"
  by (simp_all add: full_blocks.simps [of "xs @ ys"] rest_bytes.simps [of "xs @ ys"])

text \<open>The 16 words a block of memory holds on a host of byte order \<open>he\<close>.\<close>

definition mem_words :: "endian \<Rightarrow> byte list \<Rightarrow> u32 list" where
  "mem_words he mem = map (\<lambda>i. mem_to_word he (take 4 (drop (4 * i) mem))) [0..<16]"

section \<open>The bit counter\<close>

text \<open>The counter of a message of \<open>n\<close> bytes: low word, high word.\<close>

definition count_ok :: "u32 \<Rightarrow> u32 \<Rightarrow> nat \<Rightarrow> bool" where
  "count_ok lo hi n \<longleftrightarrow> unat lo + 2 ^ 32 * unat hi = 8 * n mod 2 ^ 64"

text \<open>Adding a length: low word with carry, then the part of the length above 29 bits.\<close>

definition count_add :: "u32 \<Rightarrow> u32 \<Rightarrow> u64 \<Rightarrow> u32 \<times> u32" where
  "count_add lo hi len =
     (let x = push_bit 3 (ucast len); lo' = lo + x;
          hi' = (if lo' < x then hi + 1 else hi)
      in (lo', hi' + ucast (drop_bit 29 len)))"

lemma unat_ucast_32: "unat (ucast (w :: u64) :: u32) = unat w mod 2 ^ 32"
  by (simp add: unsigned_ucast_eq take_bit_eq_mod)

lemma two_word_add:
  assumes "lo < W" "x < W" "0 < (W::nat)"
  shows "(lo + x) mod W + W * ((hi + (if W \<le> lo + x then 1 else 0) + h) mod W) = (lo + W * hi + (x + W * h)) mod (W * W)"
proof -
  define c where "c = (if W \<le> lo + x then 1 else 0 :: nat)"
  define r where "r = (lo + x) mod W"
  have s: "lo + x = W * c + r" using assms by (auto simp: c_def r_def le_mod_geq)
  have r: "r < W" using assms(3) by (simp add: r_def)
  have "lo + W * hi + (x + W * h) = (lo + x) + W * (hi + h)" by (simp add: algebra_simps)
  also have "\<dots> = W * (hi + c + h) + r" unfolding s by (simp add: algebra_simps)
  finally have e: "lo + W * hi + (x + W * h) = W * (hi + c + h) + r" .
  have "(W * (hi + c + h) + r) mod (W * W) = W * ((W * (hi + c + h) + r) div W mod W) + (W * (hi + c + h) + r) mod W"
    by (rule mod_mult2_eq)
  also have "\<dots> = W * ((hi + c + h) mod W) + r" using r assms(3) by simp
  finally show ?thesis unfolding e c_def [symmetric] r_def [symmetric] by simp
qed

lemma unat_push_3: "unat (push_bit 3 (ucast (len :: u64) :: u32)) = 8 * unat len mod 2 ^ 32"
proof -
  have "unat (push_bit 3 (ucast len :: u32)) = (unat len mod 2 ^ 32) * 8 mod 2 ^ 32"
    by (simp add: push_bit_eq_mult unat_word_ariths unat_ucast_32)
  also have "\<dots> = unat len * 8 mod 2 ^ 32" by (rule mod_mult_left_eq)
  finally show ?thesis by (simp only: mult.commute)
qed

lemma unat_drop_29: "unat (ucast (drop_bit 29 (len :: u64)) :: u32) = unat len div 2 ^ 29 mod 2 ^ 32"
  by (simp add: unat_ucast_32 drop_bit_eq_div unat_div_distrib)

lemma unat_drop_32: "unat (drop_bit 32 (w :: u64)) = unat w div 2 ^ 32"
  by (simp add: drop_bit_eq_div unat_div_distrib)

lemma word_carry: "lo + x < x \<longleftrightarrow> 2 ^ 32 \<le> unat lo + unat x" "lo + x < lo \<longleftrightarrow> 2 ^ 32 \<le> unat lo + unat x" for lo x :: u32
proof -
  have b: "unat lo < 2 ^ 32" "unat x < 2 ^ 32"
    using unsigned_less [of lo, where 'a = nat] unsigned_less [of x, where 'a = nat] by simp_all
  have a: "unat (lo + x) = (if 2 ^ 32 \<le> unat lo + unat x then unat lo + unat x - 2 ^ 32 else unat lo + unat x)"
    using b by (simp add: unat_word_ariths le_mod_geq not_less)
  show "lo + x < x \<longleftrightarrow> 2 ^ 32 \<le> unat lo + unat x" "lo + x < lo \<longleftrightarrow> 2 ^ 32 \<le> unat lo + unat x"
    unfolding word_less_nat_alt a using b by auto
qed

lemma count_add_ok:
  assumes "count_ok lo hi n"
  shows "count_ok (fst (count_add lo hi len)) (snd (count_add lo hi len)) (n + unat len)"
proof -
  let ?x = "push_bit 3 (ucast len) :: u32" and ?h = "unat len div 2 ^ 29"
  have b: "unat lo < 2 ^ 32" "unat ?x < 2 ^ 32"
    using unsigned_less [of lo, where 'a = nat] unsigned_less [of ?x, where 'a = nat] by simp_all
  have "unat (fst (count_add lo hi len)) + 2 ^ 32 * unat (snd (count_add lo hi len)) =
      (unat lo + unat ?x) mod 2 ^ 32 + 2 ^ 32 * ((unat hi + (if 2 ^ 32 \<le> unat lo + unat ?x then 1 else 0) + ?h) mod 2 ^ 32)"
    unfolding count_add_def Let_def word_carry
    by (simp add: unat_word_ariths unat_drop_29 mod_add_left_eq mod_add_right_eq)
  also have "\<dots> = (unat lo + 2 ^ 32 * unat hi + (unat ?x + 2 ^ 32 * ?h)) mod (2 ^ 32 * 2 ^ 32)"
    using two_word_add [OF b, of "unat hi" ?h] by simp
  also have "unat ?x + 2 ^ 32 * ?h = 8 * unat len"
  proof -
    have "8 * unat len div 2 ^ 32 = ?h" using div_mult2_eq [of "8 * unat len" 8 "2 ^ 29"] by simp
    then show ?thesis unfolding unat_push_3 using mod_mult_div_eq [of "8 * unat len" "2 ^ 32"] by simp
  qed
  also have "unat lo + 2 ^ 32 * unat hi = 8 * n mod (2 ^ 32 * 2 ^ 32)" using assms by (simp add: count_ok_def)
  finally show ?thesis by (simp add: count_ok_def mod_add_left_eq add_mult_distrib2)
qed

lemma count_index: "count_ok lo hi n \<Longrightarrow> unat (drop_bit 3 lo AND 63) = n mod 64"
proof -
  assume c: "count_ok lo hi n"
  have "unat lo = 8 * n mod 2 ^ 32"
  proof -
    have "unat lo < 2 ^ 32" using unsigned_less [of lo, where 'a = nat] by simp
    then have "unat lo = (unat lo + 2 ^ 32 * unat hi) mod 2 ^ 32" by simp
    also have "\<dots> = 8 * n mod 2 ^ 64 mod 2 ^ 32" using c by (simp add: count_ok_def)
    also have "\<dots> = 8 * n mod 2 ^ 32" by (rule mod_mod_cancel) simp
    finally show ?thesis .
  qed
  moreover have "8 * n mod 2 ^ 32 = 8 * (n mod 2 ^ 29)" using mult_mod_right [of 8 n "2 ^ 29"] by simp
  ultimately have "unat lo = 8 * (n mod 2 ^ 29)" by simp
  moreover have "unat (drop_bit 3 lo AND 63) = unat lo div 8 mod 64"
  proof -
    have "drop_bit 3 lo AND 63 = take_bit 6 (drop_bit 3 lo)" using take_bit_eq_mask [of 6 "drop_bit 3 lo"] by (simp add: mask_eq_exp_minus_1)
    then show ?thesis by (simp add: unat_div_distrib unat_mod_distrib drop_bit_eq_div take_bit_eq_mod)
  qed
  moreover have "n mod 2 ^ 29 mod 64 = n mod 64" by (rule mod_mod_cancel) simp
  ultimately show ?thesis by simp
qed

lemma count_ok_mod: "count_ok lo hi (n + unat (of_nat k :: u64)) \<longleftrightarrow> count_ok lo hi (n + k)"
proof -
  have "unat (of_nat k :: u64) = k mod 2 ^ 64" by (simp add: unat_of_nat)
  moreover have "8 * (n + k mod 2 ^ 64) mod 2 ^ 64 = 8 * (n + k) mod 2 ^ 64"
    by (metis mod_add_right_eq mod_mult_right_eq)
  ultimately show ?thesis by (simp only: count_ok_def)
qed

lemma count_words:
  assumes "count_ok lo hi n"
  shows "lo = ucast (of_nat (8 * n) :: u64)" "hi = ucast (drop_bit 32 (of_nat (8 * n) :: u64))"
proof -
  have b: "unat lo < 2 ^ 32" "unat hi < 2 ^ 32"
    using unsigned_less [of lo, where 'a = nat] unsigned_less [of hi, where 'a = nat] by simp_all
  have w: "unat (of_nat (8 * n) :: u64) = unat lo + 2 ^ 32 * unat hi"
    using assms by (simp only: count_ok_def unat_of_nat) simp
  show "lo = ucast (of_nat (8 * n) :: u64)"
    by (rule word_unat_eq_iff [THEN iffD2]) (use b in \<open>simp only: unat_ucast_32 w mod_mult_self2 mod_less\<close>)
  have "(unat lo + 2 ^ 32 * unat hi) div 2 ^ 32 = unat hi" using b by simp
  then show "hi = ucast (drop_bit 32 (of_nat (8 * n) :: u64))"
    by (intro word_unat_eq_iff [THEN iffD2]) (use b in \<open>simp only: unat_ucast_32 unat_drop_32 w mod_less\<close>)
qed

lemma bytes_le_halves:
  "bytes_le 8 (w :: u64) = bytes_le 4 (ucast w :: u32) @ bytes_le 4 (ucast (drop_bit 32 w) :: u32)"
proof -
  have u: "(ucast (drop_bit k (ucast v :: u32)) :: byte) = ucast (drop_bit k v)" if "k \<le> 24" for k and v :: u64
    using that by (intro bit_word_eqI) (auto simp: bit_simps)
  show ?thesis using u [of 0] by (simp add: bytes_le_8 bytes_le_4 u)
qed

section \<open>Padding\<close>

text \<open>
  The padding of RFC 1321 and FIPS 180: a one bit, zero bits up to 8 bytes before the end of a block, and
  the bit length of the message as 8 bytes (\<open>len8\<close>), which the two standards order differently.
\<close>

definition md_pad :: "(u64 \<Rightarrow> byte list) \<Rightarrow> byte list \<Rightarrow> byte list" where
  "md_pad len8 D = D @ 0x80 # replicate ((119 - length D mod 64) mod 64) 0 @ len8 (of_nat (8 * length D))"

lemma pad_zeros:
  "m \<le> 55 \<Longrightarrow> (119 - m) mod 64 = 55 - m" "55 < m \<Longrightarrow> m < 64 \<Longrightarrow> (119 - m) mod 64 = (63 - m) + 56" for m :: nat
proof -
  assume "m \<le> 55"
  then have "119 - m = (55 - m) + 64" "55 - m < 64" by simp_all
  then show "(119 - m) mod 64 = 55 - m" by (simp only: mod_add_self2 mod_less)
next
  assume "55 < m" "m < 64"
  then have "119 - m = (63 - m) + 56" "(63 - m) + 56 < 64" by simp_all
  then show "(119 - m) mod 64 = (63 - m) + 56" by (simp only: mod_less)
qed

lemma blocks_pad_short:
  assumes "length D mod 64 \<le> 55" and "\<And>v. length (len8 v) = 8"
  shows "full_blocks (md_pad len8 D) =
    full_blocks D @ [rest_bytes D @ 0x80 # replicate (55 - length D mod 64) 0 @ len8 (of_nat (8 * length D))]"
proof -
  let ?b = "rest_bytes D @ 0x80 # replicate (55 - length D mod 64) 0 @ len8 (of_nat (8 * length D))"
  have "(119 - length D mod 64) mod 64 = 55 - length D mod 64" by (rule pad_zeros(1)) (rule assms(1))
  moreover have "length ?b = 64" using assms by (simp add: length_rest_bytes)
  ultimately show ?thesis using blocks_step(1) [of ?b "[]"] unfolding md_pad_def blocks_append(1) [of D] by simp
qed

lemma blocks_pad_long:
  assumes "55 < length D mod 64" and "\<And>v. length (len8 v) = 8"
  shows "full_blocks (md_pad len8 D) = full_blocks D @
    [rest_bytes D @ 0x80 # replicate (63 - length D mod 64) 0, replicate 56 0 @ len8 (of_nat (8 * length D))]"
proof -
  let ?b = "rest_bytes D @ 0x80 # replicate (63 - length D mod 64) 0"
    and ?c = "replicate 56 0 @ len8 (of_nat (8 * length D))"
  have lt: "length D mod 64 < 64" by simp
  then have "(119 - length D mod 64) mod 64 = (63 - length D mod 64) + 56" using assms(1) by (rule pad_zeros(2) [rotated])
  then have e: "rest_bytes D @ 0x80 # replicate ((119 - length D mod 64) mod 64) 0 @ len8 (of_nat (8 * length D)) = ?b @ ?c"
    by (simp only: replicate_add append_assoc append_Cons)
  have "length ?b = 64" "length ?c = 64" using assms lt by (simp_all add: length_rest_bytes)
  then have "full_blocks (?b @ ?c @ []) = [?b, ?c]" by (simp only: blocks_step blocks_short(1) list.size)
  then show ?thesis unfolding md_pad_def blocks_append(1) [of D] e by simp
qed

section \<open>Rotation\<close>

text \<open>The two shifts with which both digests rotate a word.\<close>

lemma shifts_rotl:
  assumes "0 < s" and "s < 32"
  shows "push_bit s w OR drop_bit (32 - s) w = word_rotl s (w :: u32)"
proof (rule bit_word_eqI)
  fix n assume "n < LENGTH(32)"
  then have n: "n < 32" by simp
  show "bit (push_bit s w OR drop_bit (32 - s) w) n \<longleftrightarrow> bit (word_rotl s w) n"
  proof (cases "s \<le> n")
    case True
    have "n + (32 - s) = (n - s) + 32" using True assms by simp
    then have "(n + (32 - s)) mod 32 = n - s" using n by (simp only: mod_add_self2) simp
    then have m: "(n + 32 - s) mod 32 = n - s" using assms by simp
    have "\<not> bit w (32 - s + n)" using True assms by (auto dest: bit_imp_le_length)
    then show ?thesis using True n assms by (simp add: bit_simps m)
  next
    case False
    then have m: "(n + (32 - s)) mod 32 = 32 - s + n" using assms by simp
    have "n + 32 - s = 32 + n - s" by simp
    then show ?thesis using False n assms by (simp add: bit_simps m)
  qed
qed

section \<open>The contract of a hash\<close>

text \<open>
  A context that has absorbed \<open>D\<close> absorbs any further bytes without failing and ends with the hash of
  \<open>D\<close>; how the message is cut into updates does not matter.
\<close>

locale stream_hash =
  fixes holds :: "byte list \<Rightarrow> 'c \<Rightarrow> bool"
    and update :: "byte list \<Rightarrow> 'c \<Rightarrow> 'c option"
    and finish :: "'c \<Rightarrow> (byte list \<times> 'c) option"
    and hash :: "byte list \<Rightarrow> byte list"
  assumes update_ok: "holds D c \<Longrightarrow> \<exists>c'. update xs c = Some c' \<and> holds (D @ xs) c'"
    and finish_ok: "holds D c \<Longrightarrow> \<exists>c'. finish c = Some (hash D, c')"
begin

primrec update_all :: "byte list list \<Rightarrow> 'c \<Rightarrow> 'c option" where
  "update_all [] c = Some c"
| "update_all (xs # xss) c = update xs c \<bind> update_all xss"

lemma update_all_ok: "holds D c \<Longrightarrow> \<exists>c'. update_all xss c = Some c' \<and> holds (D @ concat xss) c'"
proof (induction xss arbitrary: c D)
  case (Cons xs xss)
  from update_ok [OF Cons.prems, of xs] obtain c1 where "update xs c = Some c1" "holds (D @ xs) c1" by blast
  then show ?case using Cons.IH [of "D @ xs" c1] by simp
qed simp

lemma digest_ok: "holds [] c \<Longrightarrow> map_option fst (update_all xss c \<bind> finish) = Some (hash (concat xss))"
  using update_all_ok [of "[]" c xss] finish_ok [of "concat xss"] by fastforce

end

end
