(* ===== verification/Md5.thy ===== *)
theory Md5
  imports HashStream
begin

text \<open>
  \<open>src/md5.{h,cpp}\<close>.  The array \<open>in\<close> of a context is its 64 bytes of memory, read as 32-bit words in
  the byte order \<open>he\<close> of the host; \<open>byte_reverse\<close> is the function of the source (the macro that would
  remove it on little-endian hosts is never defined).  The 64 calls of \<open>MD5STEP\<close> are the rows of
  \<open>md5_steps\<close>: each call is made with the four variables rotated by one place.
\<close>

section \<open>The transformation\<close>

definition F1 :: "u32 \<Rightarrow> u32 \<Rightarrow> u32 \<Rightarrow> u32" where "F1 x y z = z XOR (x AND (y XOR z))"
definition F2 :: "u32 \<Rightarrow> u32 \<Rightarrow> u32 \<Rightarrow> u32" where "F2 x y z = F1 z x y"
definition F3 :: "u32 \<Rightarrow> u32 \<Rightarrow> u32 \<Rightarrow> u32" where "F3 x y z = x XOR y XOR z"
definition F4 :: "u32 \<Rightarrow> u32 \<Rightarrow> u32 \<Rightarrow> u32" where "F4 x y z = y XOR (x OR NOT z)"

type_synonym md5_regs = "u32 \<times> u32 \<times> u32 \<times> u32"

definition MD5STEP :: "(u32 \<Rightarrow> u32 \<Rightarrow> u32 \<Rightarrow> u32) \<Rightarrow> u32 \<Rightarrow> u32 \<Rightarrow> u32 \<Rightarrow> u32 \<Rightarrow> u32 \<Rightarrow> nat \<Rightarrow> u32" where
  "MD5STEP f w x y z data s =
     (let w = w + (f x y z + data); w = push_bit s w OR drop_bit (32 - s) w in w + x)"

definition md5_steps :: "((u32 \<Rightarrow> u32 \<Rightarrow> u32 \<Rightarrow> u32) \<times> nat \<times> u32 \<times> nat) list" where
  "md5_steps =
    [(F1, 0, 0xd76aa478, 7), (F1, 1, 0xe8c7b756, 12), (F1, 2, 0x242070db, 17), (F1, 3, 0xc1bdceee, 22),
     (F1, 4, 0xf57c0faf, 7), (F1, 5, 0x4787c62a, 12), (F1, 6, 0xa8304613, 17), (F1, 7, 0xfd469501, 22),
     (F1, 8, 0x698098d8, 7), (F1, 9, 0x8b44f7af, 12), (F1, 10, 0xffff5bb1, 17), (F1, 11, 0x895cd7be, 22),
     (F1, 12, 0x6b901122, 7), (F1, 13, 0xfd987193, 12), (F1, 14, 0xa679438e, 17), (F1, 15, 0x49b40821, 22),
     (F2, 1, 0xf61e2562, 5), (F2, 6, 0xc040b340, 9), (F2, 11, 0x265e5a51, 14), (F2, 0, 0xe9b6c7aa, 20),
     (F2, 5, 0xd62f105d, 5), (F2, 10, 0x02441453, 9), (F2, 15, 0xd8a1e681, 14), (F2, 4, 0xe7d3fbc8, 20),
     (F2, 9, 0x21e1cde6, 5), (F2, 14, 0xc33707d6, 9), (F2, 3, 0xf4d50d87, 14), (F2, 8, 0x455a14ed, 20),
     (F2, 13, 0xa9e3e905, 5), (F2, 2, 0xfcefa3f8, 9), (F2, 7, 0x676f02d9, 14), (F2, 12, 0x8d2a4c8a, 20),
     (F3, 5, 0xfffa3942, 4), (F3, 8, 0x8771f681, 11), (F3, 11, 0x6d9d6122, 16), (F3, 14, 0xfde5380c, 23),
     (F3, 1, 0xa4beea44, 4), (F3, 4, 0x4bdecfa9, 11), (F3, 7, 0xf6bb4b60, 16), (F3, 10, 0xbebfbc70, 23),
     (F3, 13, 0x289b7ec6, 4), (F3, 0, 0xeaa127fa, 11), (F3, 3, 0xd4ef3085, 16), (F3, 6, 0x04881d05, 23),
     (F3, 9, 0xd9d4d039, 4), (F3, 12, 0xe6db99e5, 11), (F3, 15, 0x1fa27cf8, 16), (F3, 2, 0xc4ac5665, 23),
     (F4, 0, 0xf4292244, 6), (F4, 7, 0x432aff97, 10), (F4, 14, 0xab9423a7, 15), (F4, 5, 0xfc93a039, 21),
     (F4, 12, 0x655b59c3, 6), (F4, 3, 0x8f0ccc92, 10), (F4, 10, 0xffeff47d, 15), (F4, 1, 0x85845dd1, 21),
     (F4, 8, 0x6fa87e4f, 6), (F4, 15, 0xfe2ce6e0, 10), (F4, 6, 0xa3014314, 15), (F4, 13, 0x4e0811a1, 21),
     (F4, 4, 0xf7537e82, 6), (F4, 11, 0xbd3af235, 10), (F4, 2, 0x2ad7d2bb, 15), (F4, 9, 0xeb86d391, 21)]"

fun md5_run :: "u32 list \<Rightarrow> ((u32 \<Rightarrow> u32 \<Rightarrow> u32 \<Rightarrow> u32) \<times> nat \<times> u32 \<times> nat) list \<Rightarrow> md5_regs \<Rightarrow> md5_regs" where
  "md5_run inp [] regs = regs"
| "md5_run inp ((f, i, k, s) # steps) (w, x, y, z) =
     md5_run inp steps (z, MD5STEP f w x y z (inp ! i + k) s, x, y)"

definition MD5_transform :: "md5_regs \<Rightarrow> u32 list \<Rightarrow> md5_regs" where
  "MD5_transform buf inp =
     (let (a0, b0, c0, d0) = buf; (a, b, c, d) = md5_run inp md5_steps (a0, b0, c0, d0)
      in (a0 + a, b0 + b, c0 + c, d0 + d))"

section \<open>The context\<close>

record md5_context =
  md5_buf :: md5_regs
  md5_bits0 :: u32
  md5_bits1 :: u32
  md5_in :: "byte list"

definition MD5_init :: "md5_context \<Rightarrow> md5_context" where
  "MD5_init ctx = ctx\<lparr>md5_buf := (0x67452301, 0xefcdab89, 0x98badcfe, 0x10325476), md5_bits0 := 0, md5_bits1 := 0\<rparr>"

text \<open>Replaces the words \<open>i\<close>, \<dots>, \<open>i + n - 1\<close> of an array by their little-endian reading.\<close>

primrec byte_reverse :: "endian \<Rightarrow> nat \<Rightarrow> nat \<Rightarrow> byte list \<Rightarrow> byte list option" where
  "byte_reverse he 0 i mem = Some mem"
| "byte_reverse he (Suc n) i mem = do {
     v \<leftarrow> get_le32 (drop (4 * i) mem);
     mem \<leftarrow> mem_write mem (4 * i) (word_to_mem he 4 v);
     byte_reverse he n (Suc i) mem }"

text \<open>\<open>byte_reverse (ctx->in, 16); MD5_transform (ctx->buf, ctx->in)\<close>.\<close>

definition md5_block :: "endian \<Rightarrow> md5_context \<Rightarrow> md5_context option" where
  "md5_block he ctx = do {
     mem \<leftarrow> byte_reverse he 16 0 (md5_in ctx);
     Some (ctx\<lparr>md5_in := mem, md5_buf := MD5_transform (md5_buf ctx) (mem_words he mem)\<rparr>) }"

definition md5_copy :: "nat \<Rightarrow> byte list \<Rightarrow> md5_context \<Rightarrow> md5_context option" where
  "md5_copy off bytes ctx = do { mem \<leftarrow> mem_write (md5_in ctx) off bytes; Some (ctx\<lparr>md5_in := mem\<rparr>) }"

function md5_chunks :: "endian \<Rightarrow> byte list \<Rightarrow> md5_context \<Rightarrow> md5_context option" where
  "md5_chunks he buf ctx =
     (if length buf \<ge> 64
      then do { ctx \<leftarrow> md5_copy 0 (take 64 buf) ctx; ctx \<leftarrow> md5_block he ctx; md5_chunks he (drop 64 buf) ctx }
      else md5_copy 0 buf ctx)"
  by pat_completeness auto
termination
  by (relation "measure (\<lambda>(he, buf, ctx). length buf)") auto

declare md5_chunks.simps [simp del]

definition MD5_update :: "endian \<Rightarrow> byte list \<Rightarrow> md5_context \<Rightarrow> md5_context option" where
  "MD5_update he buf ctx =
     (let len = of_nat (length buf) :: u64; t = md5_bits0 ctx;
          ctx = ctx\<lparr>md5_bits0 := t + push_bit 3 (ucast len)\<rparr>;
          ctx = (if md5_bits0 ctx < t then ctx\<lparr>md5_bits1 := md5_bits1 ctx + 1\<rparr> else ctx);
          ctx = ctx\<lparr>md5_bits1 := md5_bits1 ctx + ucast (drop_bit 29 len)\<rparr>;
          t = unat (drop_bit 3 t AND 0x3f)
      in if t \<noteq> 0
         then if length buf < 64 - t then md5_copy t buf ctx
              else do {
                ctx \<leftarrow> md5_copy t (take (64 - t) buf) ctx;
                ctx \<leftarrow> md5_block he ctx;
                md5_chunks he (drop (64 - t) buf) ctx }
         else md5_chunks he buf ctx)"

text \<open>The digest and the wiped context.\<close>

definition MD5_final :: "endian \<Rightarrow> md5_context \<Rightarrow> (byte list \<times> md5_context) option" where
  "MD5_final he ctx =
     (let count = unat (drop_bit 3 (md5_bits0 ctx) AND 0x3F) in do {
        ctx \<leftarrow> md5_copy count [0x80] ctx;
        ctx \<leftarrow> (if 64 - 1 - count < 8
               then do {
                 ctx \<leftarrow> md5_copy (count + 1) (replicate (64 - 1 - count) 0) ctx;
                 ctx \<leftarrow> md5_block he ctx;
                 md5_copy 0 (replicate 56 0) ctx }
               else md5_copy (count + 1) (replicate (64 - 1 - count - 8) 0) ctx);
        mem \<leftarrow> byte_reverse he 14 0 (md5_in ctx);
        mem \<leftarrow> mem_write mem 56 (word_to_mem he 4 (md5_bits0 ctx));
        mem \<leftarrow> mem_write mem 60 (word_to_mem he 4 (md5_bits1 ctx));
        let (a, b, c, d) = MD5_transform (md5_buf ctx) (mem_words he mem);
        digest \<leftarrow> byte_reverse he 4 0 (concat (map (word_to_mem he 4) [a, b, c, d]));
        Some (digest, \<lparr>md5_buf = (0, 0, 0, 0), md5_bits0 = 0, md5_bits1 = 0, md5_in = replicate 64 0\<rparr>) })"

section \<open>The reference\<close>

text \<open>
  RFC 1321: sixteen words of the block, 64 steps, with the round functions, the word of the block and the
  rotation of a step given by formulas; the constants are the integer parts of \<open>2\<^sup>3\<^sup>2 |sin (i + 1)|\<close>.
\<close>

definition rfc_f :: "nat \<Rightarrow> u32 \<Rightarrow> u32 \<Rightarrow> u32 \<Rightarrow> u32" where
  "rfc_f i = [\<lambda>x y z. (x AND y) OR (NOT x AND z), \<lambda>x y z. (x AND z) OR (y AND NOT z),
     \<lambda>x y z. x XOR y XOR z, \<lambda>x y z. y XOR (x OR NOT z)] ! (i div 16)"

definition rfc_word :: "nat \<Rightarrow> nat" where
  "rfc_word i = [i, 5 * i + 1, 3 * i + 5, 7 * i] ! (i div 16) mod 16"

definition rfc_shift :: "nat \<Rightarrow> nat" where
  "rfc_shift i = [[7, 12, 17, 22], [5, 9, 14, 20], [4, 11, 16, 23], [6, 10, 15, 21]] ! (i div 16) ! (i mod 4)"

definition rfc_sines :: "u32 list" where
  "rfc_sines =
    [3614090360, 3905402710, 606105819, 3250441966, 4118548399, 1200080426, 2821735955, 4249261313,
     1770035416, 2336552879, 4294925233, 2304563134, 1804603682, 4254626195, 2792965006, 1236535329,
     4129170786, 3225465664, 643717713, 3921069994, 3593408605, 38016083, 3634488961, 3889429448,
     568446438, 3275163606, 4107603335, 1163531501, 2850285829, 4243563512, 1735328473, 2368359562,
     4294588738, 2272392833, 1839030562, 4259657740, 2763975236, 1272893353, 4139469664, 3200236656,
     681279174, 3936430074, 3572445317, 76029189, 3654602809, 3873151461, 530742520, 3299628645,
     4096336452, 1126891415, 2878612391, 4237533241, 1700485571, 2399980690, 4293915773, 2240044497,
     1873313359, 4264355552, 2734768916, 1309151649, 4149444226, 3174756917, 718787259, 3951481745]"

definition rfc_step :: "u32 list \<Rightarrow> nat \<Rightarrow> md5_regs \<Rightarrow> md5_regs" where
  "rfc_step X i = (\<lambda>(a, b, c, d).
     (d, b + word_rotl (rfc_shift i) (a + rfc_f i b c d + X ! rfc_word i + rfc_sines ! i), b, c))"

definition md5_compress :: "md5_regs \<Rightarrow> byte list \<Rightarrow> md5_regs" where
  "md5_compress H block =
     (let (a, b, c, d) = H; (a', b', c', d') = foldl (\<lambda>r i. rfc_step (mem_words LittleEndian block) i r) H [0..<64]
      in (a + a', b + b', c + c', d + d'))"

definition md5_reference :: "byte list \<Rightarrow> byte list" where
  "md5_reference D =
     (let (a, b, c, d) = foldl md5_compress (0x67452301, 0xefcdab89, 0x98badcfe, 0x10325476) (full_blocks (md_pad (bytes_le 8) D))
      in concat (map (bytes_le 4) [a, b, c, d]))"

lemma F_rounds:
  "F1 = (\<lambda>x y z. (x AND y) OR (NOT x AND z))" "F2 = (\<lambda>x y z. (x AND z) OR (y AND NOT z))"
  "F3 = (\<lambda>x y z. x XOR y XOR z)" "F4 = (\<lambda>x y z. y XOR (x OR NOT z))"
  by (intro ext bit_word_eqI, auto simp: F1_def F2_def F3_def F4_def bit_simps)+

lemma md5_steps_rfc: "md5_steps = map (\<lambda>i. (rfc_f i, rfc_word i, rfc_sines ! i, rfc_shift i)) [0..<64]"
  unfolding md5_steps_def F_rounds rfc_f_def rfc_word_def rfc_shift_def rfc_sines_def
  by (simp add: upt_rec)

lemma rfc_shift_bounds: "i < 64 \<Longrightarrow> 0 < rfc_shift i \<and> rfc_shift i < 32"
proof -
  have "list_all (\<lambda>i. 0 < rfc_shift i \<and> rfc_shift i < 32) [0..<64]" by code_simp
  then show "i < 64 \<Longrightarrow> ?thesis" by (simp add: list_all_iff)
qed

lemma md5_run_rfc:
  assumes "\<forall>i \<in> set is. i < 64"
  shows "md5_run X (map (\<lambda>i. (rfc_f i, rfc_word i, rfc_sines ! i, rfc_shift i)) is) r = foldl (\<lambda>r i. rfc_step X i r) r is"
  using assms
proof (induction "is" arbitrary: r)
  case (Cons i "is")
  then have "0 < rfc_shift i" "rfc_shift i < 32" using rfc_shift_bounds by auto
  with Cons show ?case by (cases r) (simp add: MD5STEP_def Let_def shifts_rotl rfc_step_def add.commute add.left_commute)
qed (cases r, simp)

lemma MD5_transform_rfc: "MD5_transform H (mem_words LittleEndian block) = md5_compress H block"
  unfolding MD5_transform_def md5_compress_def md5_steps_rfc
  by (cases H) (simp add: md5_run_rfc)

section \<open>Blocks in memory\<close>

lemma mem_words_concat:
  assumes "length ws = 16"
  shows "mem_words he (concat (map (word_to_mem he 4) ws)) = ws"
proof (rule nth_equalityI)
  have c: "take 4 (drop (4 * i) (concat (map (word_to_mem he 4) vs))) = word_to_mem he 4 (vs ! i)"
    if "i < length vs" for i and vs :: "u32 list"
    using that
  proof (induction vs arbitrary: i)
    case (Cons v vs)
    then show ?case by (cases i) simp_all
  qed simp
  fix i assume "i < length (mem_words he (concat (map (word_to_mem he 4) ws)))"
  then show "mem_words he (concat (map (word_to_mem he 4) ws)) ! i = ws ! i"
    using assms c [of i ws] by (simp add: mem_words_def mem_to_word_to_mem)
qed (simp add: mem_words_def assms)

lemma concat_mem_words:
  assumes "length bs = 64"
  shows "concat (map (bytes_le 4) (mem_words LittleEndian bs)) = bs"
proof -
  have "concat (map (bytes_le 4) (map (\<lambda>i. mem_to_word LittleEndian (take 4 (drop (4 * i) bs)) :: u32) [0..<n])) = take (4 * n) bs"
    if "4 * n \<le> 64" for n
    using that
  proof (induction n)
    case (Suc n)
    have "length (take 4 (drop (4 * n) bs)) = 4" using Suc.prems assms by simp
    then have "bytes_le 4 (mem_to_word LittleEndian (take 4 (drop (4 * n) bs)) :: u32) = take 4 (drop (4 * n) bs)"
      by (simp add: mem_to_word_def bytes_le_word_of_le)
    moreover have "take (4 * Suc n) bs = take (4 * n) bs @ take 4 (drop (4 * n) bs)"
      using take_add [of "4 * n" 4 bs] by (simp add: add.commute)
    ultimately show ?case using Suc by simp
  qed simp
  from this [of 16] show ?thesis using assms by (simp add: mem_words_def)
qed

lemma byte_reverse_ok:
  fixes ws :: "u32 list"
  assumes "length pre = 4 * i"
  shows "byte_reverse he (length ws) i (pre @ concat (map (bytes_le 4) ws) @ post) =
    Some (pre @ concat (map (word_to_mem he 4) ws) @ post)"
  using assms
proof (induction ws arbitrary: i pre)
  case (Cons v ws)
  have "get_le32 (bytes_le 4 v @ concat (map (bytes_le 4) ws) @ post) = Some v"
    by (simp add: le32.get_read mem_read_def)
  moreover have "mem_write (pre @ bytes_le 4 v @ concat (map (bytes_le 4) ws) @ post) (4 * i) (word_to_mem he 4 v) =
      Some ((pre @ word_to_mem he 4 v) @ concat (map (bytes_le 4) ws) @ post)"
    using Cons.prems by (simp add: mem_write_def)
  ultimately show ?case using Cons.prems Cons.IH [of "pre @ word_to_mem he 4 v" "Suc i"] by simp
qed simp

section \<open>The context follows the message\<close>

definition md5_absorbed :: "md5_regs \<Rightarrow> byte list \<Rightarrow> md5_context \<Rightarrow> bool" where
  "md5_absorbed H D ctx \<longleftrightarrow> md5_buf ctx = foldl md5_compress H (full_blocks D) \<and>
     length (md5_in ctx) = 64 \<and> take (length D mod 64) (md5_in ctx) = rest_bytes D"

definition md5_holds :: "byte list \<Rightarrow> md5_context \<Rightarrow> bool" where
  "md5_holds D ctx \<longleftrightarrow> md5_absorbed (0x67452301, 0xefcdab89, 0x98badcfe, 0x10325476) D ctx \<and>
     count_ok (md5_bits0 ctx) (md5_bits1 ctx) (length D)"

lemma md5_block_ok:
  assumes "length (md5_in ctx) = 64"
  shows "\<exists>mem. length mem = 64 \<and> md5_block he ctx = Some (ctx\<lparr>md5_in := mem, md5_buf := md5_compress (md5_buf ctx) (md5_in ctx)\<rparr>)"
proof -
  let ?ws = "mem_words LittleEndian (md5_in ctx)" and ?mem = "concat (map (word_to_mem he 4) (mem_words LittleEndian (md5_in ctx)))"
  have l: "length ?ws = 16" by (simp add: mem_words_def)
  have "byte_reverse he (length ?ws) 0 ([] @ concat (map (bytes_le 4) ?ws) @ []) = Some ([] @ ?mem @ [])"
    by (rule byte_reverse_ok) simp
  then have "byte_reverse he 16 0 (md5_in ctx) = Some ?mem" unfolding l concat_mem_words [OF assms] by simp
  moreover have "length ?mem = 64" by (simp add: length_concat comp_def sum_list_triv l)
  ultimately show ?thesis using l by (auto simp: md5_block_def mem_words_concat MD5_transform_rfc)
qed

lemma md5_copy_ok:
  assumes "length (md5_in ctx) = 64" and "off + length bs \<le> 64"
  shows "md5_copy off bs ctx = Some (ctx\<lparr>md5_in := take off (md5_in ctx) @ bs @ drop (off + length bs) (md5_in ctx)\<rparr>)"
  using assms by (simp add: md5_copy_def mem_write_def)

lemma md5_chunks_ok:
  assumes "length (md5_in ctx) = 64"
  shows "\<exists>ctx'. md5_chunks he buf ctx = Some ctx' \<and> md5_absorbed (md5_buf ctx) buf ctx' \<and>
    md5_bits0 ctx' = md5_bits0 ctx \<and> md5_bits1 ctx' = md5_bits1 ctx"
  using assms
proof (induction he buf ctx rule: md5_chunks.induct)
  case (1 he buf ctx)
  show ?case
  proof (cases "64 \<le> length buf")
    case False
    then show ?thesis using 1(2)
      by (subst md5_chunks.simps) (simp add: md5_copy_ok md5_absorbed_def)
  next
    case True
    let ?c = "ctx\<lparr>md5_in := take 64 buf\<rparr>"
    have cp: "md5_copy 0 (take 64 buf) ctx = Some ?c" using True 1(2) by (simp add: md5_copy_ok)
    obtain mem where mem: "length mem = 64"
      "md5_block he ?c = Some (?c\<lparr>md5_in := mem, md5_buf := md5_compress (md5_buf ctx) (take 64 buf)\<rparr>)"
      using md5_block_ok [of ?c he] True by auto
    have b: "full_blocks buf = take 64 buf # full_blocks (drop 64 buf)" "rest_bytes buf = rest_bytes (drop 64 buf)"
      "length buf mod 64 = length (drop 64 buf) mod 64"
      using True by (simp_all add: full_blocks.simps [of buf] rest_bytes.simps [of buf] le_mod_geq)
    from 1(1) [OF True cp mem(2)] mem(1) show ?thesis using True cp mem(2)
      by (subst md5_chunks.simps) (auto simp: md5_absorbed_def b)
  qed
qed

lemma md5_absorbed_append:
  assumes "K = foldl md5_compress H (full_blocks D)" and "length D mod 64 = 0" and "md5_absorbed K xs ctx"
  shows "md5_absorbed H (D @ xs) ctx"
proof -
  have "rest_bytes D = []" using length_rest_bytes [of D] assms(2) by simp
  moreover have "length (D @ xs) mod 64 = length xs mod 64" using assms(2) mod_add_left_eq [of "length D" 64 "length xs"] by simp
  ultimately show ?thesis using assms(1,3) unfolding md5_absorbed_def blocks_append [of D xs] by simp
qed

text \<open>What \<open>MD5_update\<close> does after the counter.\<close>

definition md5_feed :: "endian \<Rightarrow> nat \<Rightarrow> byte list \<Rightarrow> md5_context \<Rightarrow> md5_context option" where
  "md5_feed he t buf ctx =
     (if t \<noteq> 0
      then if length buf < 64 - t then md5_copy t buf ctx
           else do {
             ctx \<leftarrow> md5_copy t (take (64 - t) buf) ctx;
             ctx \<leftarrow> md5_block he ctx;
             md5_chunks he (drop (64 - t) buf) ctx }
      else md5_chunks he buf ctx)"

lemma MD5_update_feed:
  "MD5_update he buf ctx =
    md5_feed he (unat (drop_bit 3 (md5_bits0 ctx) AND 63)) buf
      (ctx\<lparr>md5_bits0 := fst (count_add (md5_bits0 ctx) (md5_bits1 ctx) (of_nat (length buf))),
           md5_bits1 := snd (count_add (md5_bits0 ctx) (md5_bits1 ctx) (of_nat (length buf)))\<rparr>)"
  by (simp add: MD5_update_def md5_feed_def count_add_def Let_def word_carry)

lemma md5_feed_ok:
  assumes "md5_absorbed H D ctx" and t: "t = length D mod 64"
  shows "\<exists>ctx'. md5_feed he t buf ctx = Some ctx' \<and> md5_absorbed H (D @ buf) ctx' \<and>
    md5_bits0 ctx' = md5_bits0 ctx \<and> md5_bits1 ctx' = md5_bits1 ctx"
proof -
  have a: "md5_buf ctx = foldl md5_compress H (full_blocks D)" "length (md5_in ctx) = 64" "take t (md5_in ctx) = rest_bytes D"
    using assms by (simp_all add: md5_absorbed_def)
  have t64: "t < 64" by (simp add: t)
  have lr: "length (rest_bytes D) = t" by (simp add: length_rest_bytes t)
  consider "t = 0" | "t \<noteq> 0" "length buf < 64 - t" | "t \<noteq> 0" "64 - t \<le> length buf" by linarith
  then show ?thesis
  proof cases
    case 1
    from md5_chunks_ok [OF a(2), of he buf] obtain ctx' where c: "md5_chunks he buf ctx = Some ctx'"
      "md5_absorbed (md5_buf ctx) buf ctx'" "md5_bits0 ctx' = md5_bits0 ctx" "md5_bits1 ctx' = md5_bits1 ctx" by blast
    from md5_absorbed_append [OF a(1) _ c(2)] show ?thesis using c 1 t by (simp add: md5_feed_def)
  next
    case 2
    let ?c = "ctx\<lparr>md5_in := rest_bytes D @ buf @ drop (t + length buf) (md5_in ctx)\<rparr>"
    have "md5_copy t buf ctx = Some ?c" using a 2 by (simp add: md5_copy_ok)
    moreover have "length (D @ buf) mod 64 = t + length buf"
      using 2 mod_add_left_eq [of "length D" 64 "length buf"] by (simp add: t)
    moreover have "full_blocks (D @ buf) = full_blocks D" "rest_bytes (D @ buf) = rest_bytes D @ buf"
      unfolding blocks_append [of D buf] using 2 lr by simp_all
    ultimately show ?thesis using 2 a lr by (simp add: md5_feed_def md5_absorbed_def)
  next
    case 3
    let ?x = "take (64 - t) buf" and ?y = "drop (64 - t) buf"
    let ?c = "ctx\<lparr>md5_in := rest_bytes D @ ?x\<rparr>"
    have cp: "md5_copy t ?x ctx = Some ?c" using a 3 t64 by (simp add: md5_copy_ok)
    have l: "length (rest_bytes D @ ?x) = 64" using 3 t64 lr by simp
    obtain mem where mem: "length mem = 64"
      "md5_block he ?c = Some (?c\<lparr>md5_in := mem, md5_buf := md5_compress (md5_buf ctx) (rest_bytes D @ ?x)\<rparr>)"
      using md5_block_ok [of ?c he] l by auto
    let ?d = "?c\<lparr>md5_in := mem, md5_buf := md5_compress (md5_buf ctx) (rest_bytes D @ ?x)\<rparr>"
    obtain ctx' where c: "md5_chunks he ?y ?d = Some ctx'" "md5_absorbed (md5_buf ?d) ?y ctx'"
      "md5_bits0 ctx' = md5_bits0 ctx" "md5_bits1 ctx' = md5_bits1 ctx"
      using md5_chunks_ok [of ?d he ?y] mem(1) by auto
    have "full_blocks (D @ ?x) = full_blocks D @ [rest_bytes D @ ?x]"
      unfolding blocks_append(1) [of D ?x] using blocks_step(1) [OF l, of "[]"] by simp
    then have "md5_buf ?d = foldl md5_compress H (full_blocks (D @ ?x))" using a(1) by simp
    moreover have "length (D @ ?x) mod 64 = 0"
      using 3 t64 mod_add_left_eq [of "length D" 64 "length ?x"] by (simp add: t)
    ultimately have "md5_absorbed H ((D @ ?x) @ ?y) ctx'" by (rule md5_absorbed_append [OF _ _ c(2)])
    then show ?thesis using 3 cp mem(2) c by (simp add: md5_feed_def)
  qed
qed

lemma MD5_update_ok:
  assumes "md5_holds D ctx"
  shows "\<exists>ctx'. MD5_update he buf ctx = Some ctx' \<and> md5_holds (D @ buf) ctx'"
proof -
  let ?lo = "fst (count_add (md5_bits0 ctx) (md5_bits1 ctx) (of_nat (length buf)))"
    and ?hi = "snd (count_add (md5_bits0 ctx) (md5_bits1 ctx) (of_nat (length buf)))"
  let ?c = "ctx\<lparr>md5_bits0 := ?lo, md5_bits1 := ?hi\<rparr>"
  have c: "count_ok (md5_bits0 ctx) (md5_bits1 ctx) (length D)" using assms by (simp add: md5_holds_def)
  from count_add_ok [OF c, of "of_nat (length buf)"] have c': "count_ok ?lo ?hi (length D + length buf)"
    by (simp only: count_ok_mod)
  have "md5_absorbed (0x67452301, 0xefcdab89, 0x98badcfe, 0x10325476) D ?c"
    using assms by (simp add: md5_holds_def md5_absorbed_def)
  from md5_feed_ok [OF this count_index [OF c], of he buf] show ?thesis
    unfolding MD5_update_feed using c' by (auto simp: md5_holds_def)
qed

section \<open>The end of the message\<close>

lemma byte_reverse_words:
  "byte_reverse he (length vs) 0 (concat (map (word_to_mem he 4) vs)) = Some (concat (map (bytes_le 4) (vs :: u32 list)))"
proof -
  define sw where "sw = map (\<lambda>v :: u32. word_of_le (word_to_mem he 4 v) :: u32) vs"
  have "bytes_le 4 (word_of_le (word_to_mem he 4 v) :: u32) = word_to_mem he 4 v" for v :: u32
    by (simp add: bytes_le_word_of_le)
  then have a: "concat (map (bytes_le 4) sw) = concat (map (word_to_mem he 4) vs)"
    by (simp add: sw_def comp_def)
  have "word_to_mem he 4 (word_of_le (word_to_mem he 4 v) :: u32) = bytes_le 4 v" for v :: u32
    by (cases he) (simp_all add: word_to_mem_def bytes_le_word_of_le)
  then have b: "concat (map (word_to_mem he 4) sw) = concat (map (bytes_le 4) vs)"
    by (simp add: sw_def comp_def)
  have l: "length sw = length vs" by (simp add: sw_def)
  show ?thesis using byte_reverse_ok [of "[]" 0 he sw "[]"] unfolding a b l by simp
qed

lemma last_block_words:
  assumes "length P = 56" and "length (md5_in ctx) = 64" and "take 56 (md5_in ctx) = P"
  shows "\<exists>m1 m2 m3. byte_reverse he 14 0 (md5_in ctx) = Some m1 \<and> mem_write m1 56 (word_to_mem he 4 lo) = Some m2 \<and>
    mem_write m2 60 (word_to_mem he 4 hi) = Some m3 \<and>
    mem_words he m3 = mem_words LittleEndian (P @ bytes_le 4 (lo :: u32) @ bytes_le 4 (hi :: u32))"
proof -
  let ?block = "P @ bytes_le 4 lo @ bytes_le 4 hi"
  define W where "W = mem_words LittleEndian ?block"
  define ws where "ws = take 14 W"
  have l: "length W = 16" "length ws = 14" by (simp_all add: W_def ws_def mem_words_def)
  have "W ! 14 = lo" "W ! 15 = hi" using assms(1)
    by (simp_all add: W_def mem_words_def mem_to_word_def word_of_bytes_le nth_map [of _ "[0..<16]"])
  moreover have "drop 14 W = [W ! 14, W ! 15]"
    using l(1) Cons_nth_drop_Suc [of 14 W] Cons_nth_drop_Suc [of 15 W] by simp
  ultimately have W: "W = ws @ [lo, hi]" unfolding ws_def by (metis append_take_drop_id)
  have "concat (map (bytes_le 4) W) = ?block" unfolding W_def using assms(1) by (intro concat_mem_words) simp
  then have P: "concat (map (bytes_le 4) ws) = P" unfolding W by simp
  define m where "m = concat (map (word_to_mem he 4) ws)"
  have lm: "length m = 56" by (simp add: m_def length_concat comp_def sum_list_triv l)
  let ?post = "drop 56 (md5_in ctx)"
  have "md5_in ctx = [] @ P @ ?post" using assms(3) append_take_drop_id [of 56 "md5_in ctx"] by simp
  then have 1: "byte_reverse he 14 0 (md5_in ctx) = Some (m @ ?post)"
    using byte_reverse_ok [of "[]" 0 he ws ?post] unfolding P l m_def by simp
  have 2: "mem_write (m @ ?post) 56 (word_to_mem he 4 lo) = Some (m @ word_to_mem he 4 lo @ drop 60 (md5_in ctx))"
    using lm assms(2) by (simp add: mem_write_def)
  have 3: "mem_write (m @ word_to_mem he 4 lo @ drop 60 (md5_in ctx)) 60 (word_to_mem he 4 hi) =
      Some (m @ word_to_mem he 4 lo @ word_to_mem he 4 hi)"
    using lm assms(2) by (simp add: mem_write_def)
  have "m @ word_to_mem he 4 lo @ word_to_mem he 4 hi = concat (map (word_to_mem he 4) W)" by (simp add: W m_def)
  then have "mem_words he (m @ word_to_mem he 4 lo @ word_to_mem he 4 hi) = W" using mem_words_concat [OF l(1), of he] by simp
  then show ?thesis using 1 2 3 unfolding W_def by blast
qed

text \<open>The part of \<open>MD5_final\<close> that fills the last block.\<close>

lemma md5_padding_ok:
  assumes "md5_holds D ctx" and c: "c = length D mod 64"
  shows "\<exists>ctx1 ctx' P. md5_copy c [0x80] ctx = Some ctx1 \<and>
    (if 64 - 1 - c < 8
     then do {
       ctx \<leftarrow> md5_copy (c + 1) (replicate (64 - 1 - c) 0) ctx1;
       ctx \<leftarrow> md5_block he ctx;
       md5_copy 0 (replicate 56 0) ctx }
     else md5_copy (c + 1) (replicate (64 - 1 - c - 8) 0) ctx1) = Some ctx' \<and>
    length P = 56 \<and> length (md5_in ctx') = 64 \<and> take 56 (md5_in ctx') = P \<and>
    md5_bits0 ctx' = md5_bits0 ctx \<and> md5_bits1 ctx' = md5_bits1 ctx \<and>
    md5_compress (md5_buf ctx') (P @ bytes_le 8 (of_nat (8 * length D) :: u64)) =
      foldl md5_compress (0x67452301, 0xefcdab89, 0x98badcfe, 0x10325476) (full_blocks (md_pad (bytes_le 8) D))"
proof -
  let ?r = "rest_bytes D" and ?H = "(0x67452301, 0xefcdab89, 0x98badcfe, 0x10325476) :: md5_regs"
  have a: "md5_buf ctx = foldl md5_compress ?H (full_blocks D)" "length (md5_in ctx) = 64" "take c (md5_in ctx) = ?r"
    using assms by (simp_all add: md5_holds_def md5_absorbed_def)
  have c64: "c < 64" by (simp add: c)
  have lr: "length ?r = c" by (simp add: length_rest_bytes c)
  let ?m1 = "?r @ 0x80 # drop (c + 1) (md5_in ctx)"
  let ?c1 = "ctx\<lparr>md5_in := ?m1\<rparr>"
  have c1: "md5_copy c [0x80] ctx = Some ?c1" using a c64 by (simp add: md5_copy_ok)
  have l1: "length (md5_in ?c1) = 64" using a c64 lr by simp
  show ?thesis
  proof (cases "c \<le> 55")
    case True
    let ?P = "?r @ 0x80 # replicate (55 - c) 0"
    have d: "drop (56 - c) (x # drop (Suc c) m) = drop 56 m" for x :: byte and m
      using True by (simp add: Suc_diff_le drop_Cons' numeral_eq_Suc)
    have "md5_copy (c + 1) (replicate (64 - 1 - c - 8) 0) ?c1 = Some (?c1\<lparr>md5_in := ?P @ drop 56 (md5_in ctx)\<rparr>)"
      using True a lr by (subst md5_copy_ok [OF l1]) (simp_all add: d)
    moreover have "full_blocks (md_pad (bytes_le 8) D) = full_blocks D @ [?P @ bytes_le 8 (of_nat (8 * length D) :: u64)]"
      using blocks_pad_short [of D "bytes_le 8"] True by (simp add: c)
    moreover have "\<not> 63 - c < 8" using True by linarith
    moreover have "take (56 - c) (0x80 # replicate (55 - c) 0 @ xs) = 0x80 # replicate (55 - c) 0" for xs :: "byte list"
      using True by (simp add: Suc_diff_le take_Cons' numeral_eq_Suc)
    ultimately show ?thesis using True c1 a lr
      by (intro exI [of _ ?c1] exI [of _ "?c1\<lparr>md5_in := ?P @ drop 56 (md5_in ctx)\<rparr>"] exI [of _ ?P]) simp
  next
    case False
    let ?b = "?r @ 0x80 # replicate (63 - c) 0" and ?P = "replicate 56 0 :: byte list"
    let ?c2 = "ctx\<lparr>md5_in := ?b\<rparr>"
    have c2: "md5_copy (c + 1) (replicate (64 - 1 - c) 0) ?c1 = Some ?c2"
      using False c64 a lr by (subst md5_copy_ok [OF l1]) simp_all
    obtain mem where mem: "length mem = 64"
      "md5_block he ?c2 = Some (?c2\<lparr>md5_in := mem, md5_buf := md5_compress (md5_buf ctx) ?b\<rparr>)"
      using md5_block_ok [of ?c2 he] False c64 lr by auto
    let ?c3 = "?c2\<lparr>md5_in := mem, md5_buf := md5_compress (md5_buf ctx) ?b\<rparr>"
    have c3: "md5_copy 0 ?P ?c3 = Some (?c3\<lparr>md5_in := ?P @ drop 56 mem\<rparr>)"
      using mem(1) by (subst md5_copy_ok) simp_all
    have "full_blocks (md_pad (bytes_le 8) D) = full_blocks D @ [?b, ?P @ bytes_le 8 (of_nat (8 * length D) :: u64)]"
      using blocks_pad_long [of D "bytes_le 8"] False by (simp add: c)
    moreover have "63 - c < 8" using False by linarith
    ultimately show ?thesis using c1 c2 mem c3 a(1)
      by (intro exI [of _ ?c1] exI [of _ "?c3\<lparr>md5_in := ?P @ drop 56 mem\<rparr>"] exI [of _ ?P]) simp
  qed
qed

lemma MD5_final_ok:
  assumes "md5_holds D ctx"
  shows "MD5_final he ctx =
    Some (md5_reference D, \<lparr>md5_buf = (0, 0, 0, 0), md5_bits0 = 0, md5_bits1 = 0, md5_in = replicate 64 0\<rparr>)"
proof -
  let ?c = "length D mod 64" and ?L = "of_nat (8 * length D) :: u64"
  have ok: "count_ok (md5_bits0 ctx) (md5_bits1 ctx) (length D)" using assms by (simp add: md5_holds_def)
  note c = count_index [OF ok]
  obtain ctx1 ctx' P where q: "md5_copy ?c [0x80] ctx = Some ctx1" and p: "(if 64 - 1 - ?c < 8
      then do {
        ctx \<leftarrow> md5_copy (?c + 1) (replicate (64 - 1 - ?c) 0) ctx1;
        ctx \<leftarrow> md5_block he ctx;
        md5_copy 0 (replicate 56 0) ctx }
      else md5_copy (?c + 1) (replicate (64 - 1 - ?c - 8) 0) ctx1) = Some ctx'"
    "length P = 56" "length (md5_in ctx') = 64" "take 56 (md5_in ctx') = P"
    "md5_bits0 ctx' = md5_bits0 ctx" "md5_bits1 ctx' = md5_bits1 ctx"
    "md5_compress (md5_buf ctx') (P @ bytes_le 8 ?L) =
      foldl md5_compress (0x67452301, 0xefcdab89, 0x98badcfe, 0x10325476) (full_blocks (md_pad (bytes_le 8) D))"
    using md5_padding_ok [OF assms refl] by blast
  obtain m1 m2 m3 where m: "byte_reverse he 14 0 (md5_in ctx') = Some m1"
    "mem_write m1 56 (word_to_mem he 4 (md5_bits0 ctx)) = Some m2"
    "mem_write m2 60 (word_to_mem he 4 (md5_bits1 ctx)) = Some m3"
    "mem_words he m3 = mem_words LittleEndian (P @ bytes_le 4 (md5_bits0 ctx) @ bytes_le 4 (md5_bits1 ctx))"
    using last_block_words [OF p(2,3,4)] by blast
  have "bytes_le 4 (md5_bits0 ctx) @ bytes_le 4 (md5_bits1 ctx) = bytes_le 8 ?L"
    unfolding bytes_le_halves count_words [OF ok, symmetric] ..
  then have t: "MD5_transform (md5_buf ctx') (mem_words he m3) =
      foldl md5_compress (0x67452301, 0xefcdab89, 0x98badcfe, 0x10325476) (full_blocks (md_pad (bytes_le 8) D))"
    unfolding m(4) MD5_transform_rfc using p(7) by simp
  obtain a b c d where r: "foldl md5_compress (0x67452301, 0xefcdab89, 0x98badcfe, 0x10325476) (full_blocks (md_pad (bytes_le 8) D)) = (a, b, c, d)"
    by (metis prod_cases4)
  have "length [a, b, c, d] = 4" "md5_reference D = concat (map (bytes_le 4) [a, b, c, d])" by (simp_all add: md5_reference_def r)
  then have "byte_reverse he 4 0 (concat (map (word_to_mem he 4) [a, b, c, d])) = Some (md5_reference D)"
    using byte_reverse_words [of he "[a, b, c, d]"] by (simp only:)
  then show ?thesis unfolding MD5_final_def c Let_def q Option.bind.simps p(1)
    by (simp add: p(5,6) m(1-3) t r)
qed

interpretation md5: stream_hash md5_holds "MD5_update he" "MD5_final he" md5_reference for he
  by unfold_locales (auto simp: MD5_update_ok MD5_final_ok)

lemma MD5_init_holds: "length (md5_in ctx) = 64 \<Longrightarrow> md5_holds [] (MD5_init ctx)"
  by (simp add: md5_holds_def md5_absorbed_def MD5_init_def count_ok_def)

section \<open>Properties\<close>

definition md5_of :: "endian \<Rightarrow> byte list list \<Rightarrow> md5_context \<Rightarrow> byte list option" where
  "md5_of he chunks ctx = map_option fst
     (fold (\<lambda>xs c. c \<bind> MD5_update he xs) chunks (Some (MD5_init ctx)) \<bind> MD5_final he)"

lemma md5_fold_update_all: "fold (\<lambda>xs c. c \<bind> MD5_update he xs) chunks r = r \<bind> md5.update_all he chunks"
proof (induction chunks arbitrary: r)
  case (Cons xs chunks)
  then show ?case by (cases r) simp_all
next
  case Nil
  then show ?case by (cases r) simp_all
qed

text \<open>
  C20. MD5: whatever the 64 bytes of a new context hold, on either kind of host, and however a message is cut
  into calls of \<open>MD5_update\<close>, all accesses stay inside the context and \<open>MD5_final\<close> returns the MD5 digest
  of RFC 1321 of the whole message.
\<close>

theorem md5_correct:
  assumes "length (md5_in ctx) = 64"
  shows "md5_of he chunks ctx = Some (md5_reference (concat chunks))"
  using md5.digest_ok [OF MD5_init_holds [OF assms]] by (simp add: md5_of_def md5_fold_update_all)

text \<open>The RFC's own test: the digest of \<open>abc\<close>, absorbed in two parts.\<close>

theorem md5_correct_witness:
  "md5_of BigEndian [[0x61], [0x62, 0x63]] \<lparr>md5_buf = (0, 0, 0, 0), md5_bits0 = 0, md5_bits1 = 0, md5_in = replicate 64 0xcc\<rparr> =
    Some [0x90, 0x01, 0x50, 0x98, 0x3c, 0xd2, 0x4f, 0xb0, 0xd6, 0x96, 0x3f, 0x7d, 0x28, 0xe1, 0x7f, 0x72]"
proof -
  have "md5_reference [0x61, 0x62, 0x63] =
      [0x90, 0x01, 0x50, 0x98, 0x3c, 0xd2, 0x4f, 0xb0, 0xd6, 0x96, 0x3f, 0x7d, 0x28, 0xe1, 0x7f, 0x72]"
    by code_simp
  then show ?thesis by (simp add: md5_correct)
qed

end
