(* ===== verification/Sha1.thy ===== *)
theory Sha1
  imports HashStream
begin

text \<open>
  \<open>src/sha1.{h,cpp}\<close>.  A block is copied to a local array (\<open>SHA1HANDSOFF\<close> is defined) and read as 16
  words of the host; the rounds expand it in place.  The macro \<open>RTC_ARCH_CPU_BIG_ENDIAN\<close> is not defined
  anywhere, so \<open>blk0\<close> is its byte-swapping variant on every host.
\<close>

section \<open>The transformation\<close>

type_synonym sha1_regs = "u32 \<times> u32 \<times> u32 \<times> u32 \<times> u32"

definition rol :: "u32 \<Rightarrow> nat \<Rightarrow> u32" where
  "rol value bits = push_bit bits value OR drop_bit (32 - bits) value"

text \<open>\<open>blk0\<close> and \<open>blk\<close> assign to the word of the block that they denote.\<close>

definition blk0 :: "nat \<Rightarrow> u32 list \<Rightarrow> u32 list" where
  "blk0 i l = l[i := (rol (l ! i) 24 AND 0xFF00FF00) OR (rol (l ! i) 8 AND 0x00FF00FF)]"

definition blk :: "nat \<Rightarrow> u32 list \<Rightarrow> u32 list" where
  "blk i l = l[i AND 15 := rol (l ! ((i + 13) AND 15) XOR l ! ((i + 8) AND 15) XOR l ! ((i + 2) AND 15) XOR l ! (i AND 15)) 1]"

text \<open>
  The five round macros, on the variables in the order of their parameters; the result lists the
  variables in the order in which the next round gets them.
\<close>

definition R0 :: "nat \<Rightarrow> sha1_regs \<times> u32 list \<Rightarrow> sha1_regs \<times> u32 list" where
  "R0 i = (\<lambda>((v, w, x, y, z), l).
     let l = blk0 i l; z = z + (((w AND (x XOR y)) XOR y) + l ! i + 0x5A827999 + rol v 5); w = rol w 30
     in ((z, v, w, x, y), l))"

definition R1 :: "nat \<Rightarrow> sha1_regs \<times> u32 list \<Rightarrow> sha1_regs \<times> u32 list" where
  "R1 i = (\<lambda>((v, w, x, y, z), l).
     let l = blk i l; z = z + (((w AND (x XOR y)) XOR y) + l ! (i AND 15) + 0x5A827999 + rol v 5); w = rol w 30
     in ((z, v, w, x, y), l))"

definition R2 :: "nat \<Rightarrow> sha1_regs \<times> u32 list \<Rightarrow> sha1_regs \<times> u32 list" where
  "R2 i = (\<lambda>((v, w, x, y, z), l).
     let l = blk i l; z = z + ((w XOR x XOR y) + l ! (i AND 15) + 0x6ED9EBA1 + rol v 5); w = rol w 30
     in ((z, v, w, x, y), l))"

definition R3 :: "nat \<Rightarrow> sha1_regs \<times> u32 list \<Rightarrow> sha1_regs \<times> u32 list" where
  "R3 i = (\<lambda>((v, w, x, y, z), l).
     let l = blk i l; z = z + ((((w OR x) AND y) OR (w AND x)) + l ! (i AND 15) + 0x8F1BBCDC + rol v 5); w = rol w 30
     in ((z, v, w, x, y), l))"

definition R4 :: "nat \<Rightarrow> sha1_regs \<times> u32 list \<Rightarrow> sha1_regs \<times> u32 list" where
  "R4 i = (\<lambda>((v, w, x, y, z), l).
     let l = blk i l; z = z + ((w XOR x XOR y) + l ! (i AND 15) + 0xCA62C1D6 + rol v 5); w = rol w 30
     in ((z, v, w, x, y), l))"

definition sha1_rounds :: "(sha1_regs \<times> u32 list \<Rightarrow> sha1_regs \<times> u32 list) list" where
  "sha1_rounds = map R0 [0..<16] @ map R1 [16..<20] @ map R2 [20..<40] @ map R3 [40..<60] @ map R4 [60..<80]"

definition SHA1_transform :: "endian \<Rightarrow> sha1_regs \<Rightarrow> byte list \<Rightarrow> sha1_regs" where
  "SHA1_transform he state buffer =
     (let (s0, s1, s2, s3, s4) = state;
          ((a, b, c, d, e), _) = foldl (\<lambda>s r. r s) (state, mem_words he buffer) sha1_rounds
      in (s0 + a, s1 + b, s2 + c, s3 + d, s4 + e))"

section \<open>The context\<close>

record sha1_ctx =
  sha1_state :: sha1_regs
  sha1_count0 :: u32
  sha1_count1 :: u32
  sha1_buffer :: "byte list"

definition SHA1_DIGEST_SIZE :: nat where "SHA1_DIGEST_SIZE = 20"

definition SHA1_init :: "sha1_ctx \<Rightarrow> sha1_ctx" where
  "SHA1_init ctx = ctx\<lparr>sha1_state := (0x67452301, 0xEFCDAB89, 0x98BADCFE, 0x10325476, 0xC3D2E1F0),
     sha1_count0 := 0, sha1_count1 := 0\<rparr>"

text \<open>The blocks that are taken from the data directly: the state and the final value of \<open>i\<close>.\<close>

function sha1_blocks :: "endian \<Rightarrow> byte list \<Rightarrow> nat \<Rightarrow> sha1_regs \<Rightarrow> (sha1_regs \<times> nat) option" where
  "sha1_blocks he data i state =
     (if i + 63 < length data
      then do { block \<leftarrow> mem_read data i 64; sha1_blocks he data (i + 64) (SHA1_transform he state block) }
      else Some (state, i))"
  by pat_completeness auto
termination
  by (relation "measure (\<lambda>(he, data, i, state). length data - i)") auto

declare sha1_blocks.simps [simp del]

definition SHA1_update :: "endian \<Rightarrow> byte list \<Rightarrow> sha1_ctx \<Rightarrow> sha1_ctx option" where
  "SHA1_update he data ctx =
     (let input_len = of_nat (length data) :: u64;
          index = unat (drop_bit 3 (sha1_count0 ctx) AND 63);
          ctx = ctx\<lparr>sha1_count0 := sha1_count0 ctx + ucast (push_bit 3 input_len)\<rparr>;
          ctx = (if sha1_count0 ctx < ucast (push_bit 3 input_len) then ctx\<lparr>sha1_count1 := sha1_count1 ctx + 1\<rparr> else ctx);
          ctx = ctx\<lparr>sha1_count1 := sha1_count1 ctx + ucast (drop_bit 29 input_len)\<rparr>
      in if index + length data > 63
         then do {
           part \<leftarrow> mem_read data 0 (64 - index);
           buffer \<leftarrow> mem_write (sha1_buffer ctx) index part;
           (state, i) \<leftarrow> sha1_blocks he data (64 - index) (SHA1_transform he (sha1_state ctx) buffer);
           rest \<leftarrow> mem_read data i (length data - i);
           buffer \<leftarrow> mem_write buffer 0 rest;
           Some (ctx\<lparr>sha1_state := state, sha1_buffer := buffer\<rparr>) }
         else do {
           buffer \<leftarrow> mem_write (sha1_buffer ctx) index data;
           Some (ctx\<lparr>sha1_buffer := buffer\<rparr>) })"

text \<open>The counter after an update, as the shared lemmas know it.\<close>

lemma ucast_push_3: "(ucast (push_bit 3 (len :: u64)) :: u32) = push_bit 3 (ucast len)"
  by (rule bit_word_eqI) (auto simp: bit_simps)

lemma SHA1_update_count:
  assumes "SHA1_update he data ctx = Some ctx'"
  shows "sha1_count0 ctx' = fst (count_add (sha1_count0 ctx) (sha1_count1 ctx) (of_nat (length data)))"
    and "sha1_count1 ctx' = snd (count_add (sha1_count0 ctx) (sha1_count1 ctx) (of_nat (length data)))"
  using assms by (auto simp: SHA1_update_def Let_def count_add_def ucast_push_3 bind_eq_Some_conv split: if_splits prod.splits)

lemma SHA1_update_byte_count:
  assumes "SHA1_update he [x] ctx = Some ctx'"
  shows "sha1_count0 ctx' = sha1_count0 ctx + 8"
  using SHA1_update_count(1) [OF assms] by (simp add: count_add_def Let_def)

text \<open>
  The loop that pads with zero bytes ends: each turn adds 8 bits to the counter, whose bits 3 to 8 run
  through all their values.
\<close>

definition pad_turns :: "u32 \<Rightarrow> nat" where
  "pad_turns count = (120 - unat (drop_bit 3 count AND 63)) mod 64"

lemma block_index: "unat (drop_bit 3 (count :: u32) AND 63) = unat count div 8 mod 64"
proof -
  have "drop_bit 3 count AND 63 = take_bit 6 (drop_bit 3 count)" using take_bit_eq_mask [of 6 "drop_bit 3 count"] by (simp add: mask_eq_exp_minus_1)
  then show ?thesis by (simp add: unat_div_distrib unat_mod_distrib drop_bit_eq_div take_bit_eq_mod)
qed

lemma block_index_add_8: "unat (drop_bit 3 (count + 8 :: u32) AND 63) = Suc (unat (drop_bit 3 count AND 63)) mod 64"
proof -
  define x where "x = unat count"
  have "(x + 8) mod 4294967296 div 8 = (x + 8) div 8 mod 536870912"
    using mod_mult2_eq [of "x + 8" 8 536870912] by (simp add: div_mult2_eq [symmetric])
  also have "\<dots> mod 64 = (x + 8) div 8 mod 64" by (rule mod_mod_cancel) simp
  also have "(x + 8) div 8 = Suc (x div 8)" by simp
  finally have "(x + 8) mod 4294967296 div 8 mod 64 = Suc (x div 8 mod 64) mod 64" by (simp only: mod_Suc_eq)
  then show ?thesis by (simp add: block_index unat_word_ariths x_def)
qed

lemma and_504: "(count :: u32) AND 504 = push_bit 3 (drop_bit 3 count AND 63)"
proof (rule bit_word_eqI)
  fix n assume n: "n < LENGTH(32)"
  have "bit (504 :: u32) n \<longleftrightarrow> 3 \<le> n \<and> bit (63 :: u32) (n - 3)"
    using bit_push_bit_iff [of 3 "63 :: u32" n] n by simp
  then show "bit (count AND 504) n \<longleftrightarrow> bit (push_bit 3 (drop_bit 3 count AND 63)) n"
    using n by (auto simp: bit_simps)
qed

lemma pad_reached: "count AND 504 = 448 \<longleftrightarrow> unat (drop_bit 3 (count :: u32) AND 63) = 56"
proof
  assume "count AND 504 = 448"
  then have "push_bit 3 (drop_bit 3 count AND 63) = (448 :: u32)" by (simp only: and_504)
  then have "drop_bit 3 (push_bit 3 (drop_bit 3 count AND 63)) = (56 :: u32)" by simp
  moreover have "drop_bit 3 (push_bit 3 (drop_bit 3 count AND 63)) = drop_bit 3 count AND 63"
    by (rule bit_word_eqI) (auto simp: bit_simps dest: bit_imp_le_length)
  ultimately show "unat (drop_bit 3 count AND 63) = 56" by simp
next
  assume "unat (drop_bit 3 count AND 63) = 56"
  then have "drop_bit 3 count AND 63 = 56" by (simp add: word_unat_eq_iff)
  then show "count AND 504 = 448" by (simp add: and_504)
qed

lemma pad_turns_step: "count AND 504 \<noteq> 448 \<Longrightarrow> pad_turns count = Suc (pad_turns (count + 8))"
proof -
  assume "count AND 504 \<noteq> 448"
  then have "unat (drop_bit 3 count AND 63) \<noteq> 56" unfolding pad_reached .
  moreover have "unat (drop_bit 3 count AND 63) < 64" by (simp add: block_index)
  moreover have "list_all (\<lambda>j. j \<noteq> 56 \<longrightarrow> (120 - j) mod 64 = Suc ((120 - Suc j mod 64) mod 64)) [0..<64]" by code_simp
  ultimately show ?thesis unfolding pad_turns_def block_index_add_8 by (simp add: list_all_iff)
qed

function sha1_pad :: "endian \<Rightarrow> sha1_ctx \<Rightarrow> sha1_ctx option" where
  "sha1_pad he ctx =
     (if sha1_count0 ctx AND 504 \<noteq> 448
      then do { ctx \<leftarrow> SHA1_update he [0] ctx; sha1_pad he ctx }
      else Some ctx)"
  by pat_completeness auto
termination
  by (relation "measure (\<lambda>(he, ctx). pad_turns (sha1_count0 ctx))") (auto simp: SHA1_update_byte_count pad_turns_step)

declare sha1_pad.simps [simp del]

definition SHA1_final :: "endian \<Rightarrow> sha1_ctx \<Rightarrow> (byte list \<times> sha1_ctx) option" where
  "SHA1_final he ctx =
     (let finalcount = map (\<lambda>i. ucast (drop_bit ((3 - (i AND 3)) * 8) (if i \<ge> 4 then sha1_count0 ctx else sha1_count1 ctx) AND 255)) [0..<8]
      in do {
        ctx \<leftarrow> SHA1_update he [0x80] ctx;
        ctx \<leftarrow> sha1_pad he ctx;
        ctx \<leftarrow> SHA1_update he finalcount ctx;
        let (s0, s1, s2, s3, s4) = sha1_state ctx;
        let digest = map (\<lambda>i. ucast (drop_bit ((3 - (i AND 3)) * 8) ([s0, s1, s2, s3, s4] ! drop_bit 2 i) AND 255)) [0..<SHA1_DIGEST_SIZE];
        Some (digest, ctx\<lparr>sha1_buffer := replicate 64 0, sha1_count0 := 0, sha1_count1 := 0,
                sha1_state := SHA1_transform he (0, 0, 0, 0, 0) (replicate 64 0)\<rparr>) })"

section \<open>The reference\<close>

text \<open>FIPS 180-4, sections 4.1.1, 4.2.1, 6.1.2: the message schedule of 80 words and the 80 steps.\<close>

primrec schedule :: "u32 list \<Rightarrow> nat \<Rightarrow> u32 list" where
  "schedule M 0 = M"
| "schedule M (Suc n) = (let W = schedule M n; t = n + 16
     in W @ [word_rotl 1 (W ! (t - 3) XOR W ! (t - 8) XOR W ! (t - 14) XOR W ! (t - 16))])"

definition fips_f :: "nat \<Rightarrow> u32 \<Rightarrow> u32 \<Rightarrow> u32 \<Rightarrow> u32" where
  "fips_f t x y z =
     (if t < 20 then (x AND y) XOR (NOT x AND z) else if t < 40 then x XOR y XOR z
      else if t < 60 then (x AND y) XOR (x AND z) XOR (y AND z) else x XOR y XOR z)"

definition fips_K :: "nat \<Rightarrow> u32" where
  "fips_K t = (if t < 20 then 0x5a827999 else if t < 40 then 0x6ed9eba1 else if t < 60 then 0x8f1bbcdc else 0xca62c1d6)"

definition fips_step :: "u32 list \<Rightarrow> nat \<Rightarrow> sha1_regs \<Rightarrow> sha1_regs" where
  "fips_step W t = (\<lambda>(a, b, c, d, e). (word_rotl 5 a + fips_f t b c d + e + fips_K t + W ! t, a, word_rotl 30 b, c, d))"

definition sha1_compress :: "sha1_regs \<Rightarrow> byte list \<Rightarrow> sha1_regs" where
  "sha1_compress H block =
     (let W = schedule (mem_words BigEndian block) 64;
          (s0, s1, s2, s3, s4) = H; (a, b, c, d, e) = foldl (\<lambda>r t. fips_step W t r) H [0..<80]
      in (s0 + a, s1 + b, s2 + c, s3 + d, s4 + e))"

definition be_bytes :: "nat \<Rightarrow> 'a::len word \<Rightarrow> byte list" where
  "be_bytes n v = rev (bytes_le n v)"

definition sha1_reference :: "byte list \<Rightarrow> byte list" where
  "sha1_reference D =
     (let (a, b, c, d, e) = foldl sha1_compress (0x67452301, 0xEFCDAB89, 0x98BADCFE, 0x10325476, 0xC3D2E1F0)
            (full_blocks (md_pad (be_bytes 8) D))
      in concat (map (be_bytes 4) [a, b, c, d, e]))"

section \<open>The expansion in place\<close>

lemma length_schedule [simp]: "length (schedule M n) = length M + n"
  by (induction n) (simp_all add: Let_def)

lemma schedule_prefix: "n \<le> m \<Longrightarrow> j < length M + n \<Longrightarrow> schedule M m ! j = schedule M n ! j"
proof (induction m)
  case (Suc m)
  show ?case
  proof (cases "n = Suc m")
    case False
    then have "n \<le> m" using Suc.prems by simp
    with Suc show ?thesis by (simp add: Let_def nth_append)
  qed simp
qed simp

lemma schedule_nth:
  assumes "length M = 16" and "16 \<le> t" and "t < 80" and W: "W = schedule M 64"
  shows "W ! t = word_rotl 1 (W ! (t - 3) XOR W ! (t - 8) XOR W ! (t - 14) XOR W ! (t - 16))"
proof -
  let ?n = "t - 16"
  have "W ! t = schedule M (Suc ?n) ! t" unfolding W using assms by (intro schedule_prefix) simp_all
  also have "\<dots> = word_rotl 1 (schedule M ?n ! (t - 3) XOR schedule M ?n ! (t - 8) XOR schedule M ?n ! (t - 14) XOR schedule M ?n ! (t - 16))"
    using assms by (simp add: Let_def nth_append)
  also have "schedule M ?n ! j = W ! j" if "j < t" for j
    unfolding W using assms that by (intro schedule_prefix [symmetric]) simp_all
  ultimately show ?thesis using assms by simp
qed

lemma and_15: "n AND 15 = n mod 16" for n :: nat
  using take_bit_eq_mask [of 4 n] by (simp add: take_bit_eq_mod mask_eq_exp_minus_1)

lemma rol_rotl: "0 < s \<Longrightarrow> s < 32 \<Longrightarrow> rol v s = word_rotl s v"
  by (simp add: rol_def shifts_rotl)

text \<open>The block after \<open>t\<close> rounds: the words of the schedule from the last sixteen rounds, and unread words.\<close>

definition block_at :: "u32 list \<Rightarrow> u32 list \<Rightarrow> nat \<Rightarrow> u32 list \<Rightarrow> bool" where
  "block_at raw W t l \<longleftrightarrow> length l = 16 \<and> (\<forall>j < t. t \<le> j + 16 \<longrightarrow> l ! (j mod 16) = W ! j) \<and>
     (\<forall>j < 16. t \<le> j \<longrightarrow> l ! j = raw ! j)"

lemma blk_step:
  assumes "block_at raw W t l" and "16 \<le> t" and "t < 80"
    and "W ! t = word_rotl 1 (W ! (t - 3) XOR W ! (t - 8) XOR W ! (t - 14) XOR W ! (t - 16))"
  shows "block_at raw W (Suc t) (blk t l)" and "blk t l ! (t AND 15) = W ! t"
proof -
  have at: "l ! (j mod 16) = W ! j" if "j < t" "t \<le> j + 16" for j using assms(1) that by (simp add: block_at_def)
  have l: "length l = 16" using assms(1) by (simp add: block_at_def)
  have "t + 13 = (t - 3) + 16" "t + 8 = (t - 8) + 16" "t + 2 = (t - 14) + 16" "t = (t - 16) + 16" using assms(2) by simp_all
  then have f: "(t + 13) mod 16 = (t - 3) mod 16" "(t + 8) mod 16 = (t - 8) mod 16" "(t + 2) mod 16 = (t - 14) mod 16" "t mod 16 = (t - 16) mod 16"
    by (metis mod_add_self2)+
  have e: "l ! ((t + 13) mod 16) = W ! (t - 3)" "l ! ((t + 8) mod 16) = W ! (t - 8)" "l ! ((t + 2) mod 16) = W ! (t - 14)"
    unfolding f(1-3) by (rule at; use assms(2) in linarith)+
  have e4: "l ! (t mod 16) = W ! (t - 16)" unfolding f(4) by (rule at; use assms(2) in linarith)
  have b: "blk t l = l[t mod 16 := W ! t]" unfolding blk_def and_15 e e4 assms(4) by (simp add: rol_rotl)
  show "blk t l ! (t AND 15) = W ! t" using l by (simp add: b and_15)
  have "(l[t mod 16 := W ! t]) ! (j mod 16) = W ! j" if "j < Suc t" "Suc t \<le> j + 16" for j
  proof (cases "j = t")
    case False
    then have "j < t" "t - j < 16" using that by simp_all
    then have "j mod 16 \<noteq> t mod 16" using mod_eq_dvd_iff_nat [of j t 16] dvd_imp_le [of 16 "t - j"] by auto
    then show ?thesis using at [of j] that False by simp
  qed (use l in simp)
  then show "block_at raw W (Suc t) (blk t l)" using l assms(2) by (simp add: block_at_def b)
qed

text \<open>The two masked rotations of \<open>blk0\<close> reverse the bytes of a word.\<close>

lemma masks:
  "(0xFF00FF00 :: u32) = push_bit 8 (mask 8) OR push_bit 24 (mask 8)" "(0x00FF00FF :: u32) = mask 8 OR push_bit 16 (mask 8)"
  by (simp_all add: mask_eq_exp_minus_1)

lemma bit_rol: "n < 32 \<Longrightarrow> 0 < s \<Longrightarrow> s < 32 \<Longrightarrow> bit (rol x s) n \<longleftrightarrow> bit x (if s \<le> n then n - s else n + 32 - s)"
proof -
  assume a: "n < 32" "0 < s" "s < 32"
  have "32 - s + n = n + 32 - s" using a by simp
  then show ?thesis using a by (auto simp: rol_def bit_simps dest: bit_imp_le_length)
qed

lemma swap_bytes: "(rol x 24 AND 0xFF00FF00) OR (rol x 8 AND 0x00FF00FF) = word_of_le (rev (bytes_le 4 x))"
proof (rule bit_word_eqI)
  fix n assume "n < LENGTH(32)"
  then have n: "n < 32" by simp
  define r where "r = n mod 8"
  have r: "r < 8" by (simp add: r_def)
  have "n div 8 = 0 \<or> n div 8 = 1 \<or> n div 8 = 2 \<or> n div 8 = 3" using n by auto
  moreover have "n = n div 8 * 8 + r" by (simp add: r_def)
  ultimately have "n = r \<or> n = 8 + r \<or> n = 16 + r \<or> n = 24 + r" by (elim disjE) simp_all
  moreover have "(8 + r) div 8 = 1" "(16 + r) div 8 = 2" "(24 + r) div 8 = 3" "r div 8 = 0"
    "(8 + r) mod 8 = r" "(16 + r) mod 8 = r" "(24 + r) mod 8 = r" "r mod 8 = r"
    using r mod_mult_self3 [of 2 8 r] mod_mult_self3 [of 3 8 r] by simp_all
  ultimately show "bit ((rol x 24 AND 0xFF00FF00) OR (rol x 8 AND 0x00FF00FF)) n \<longleftrightarrow> bit (word_of_le (rev (bytes_le 4 x)) :: u32) n"
    using r n unfolding masks
    by (elim disjE) (simp_all add: bit_rol bit_word_of_le bytes_le_4 bit_simps add.commute)
qed

lemma be_word_swapped:
  assumes "length block = 64" and "t < 16"
  shows "word_of_le (rev (bytes_le 4 (mem_words LittleEndian block ! t))) = mem_words BigEndian block ! t"
proof -
  have "length (take 4 (drop (4 * t) block)) = 4" using assms by simp
  then show ?thesis using assms(2) by (simp add: mem_words_def mem_to_word_def bytes_le_word_of_le)
qed

lemma blk0_step:
  assumes "block_at raw W t l" and "t < 16" and "word_of_le (rev (bytes_le 4 (raw ! t))) = W ! t"
  shows "block_at raw W (Suc t) (blk0 t l)" and "blk0 t l ! t = W ! t"
proof -
  have l: "length l = 16" "l ! t = raw ! t" using assms by (simp_all add: block_at_def)
  have b: "blk0 t l = l[t := W ! t]" unfolding blk0_def swap_bytes l(2) assms(3) ..
  show "blk0 t l ! t = W ! t" using l assms(2) by (simp add: b)
  have "(l[t := W ! t]) ! (j mod 16) = W ! j" if "j < Suc t" for j
    using that assms l by (cases "j = t") (simp_all add: block_at_def)
  then show "block_at raw W (Suc t) (blk0 t l)" using assms(1,2) by (simp add: block_at_def b)
qed

section \<open>The rounds\<close>

lemma ch_eq: "((w AND (x XOR y)) XOR y) = (w AND x) XOR (NOT w AND y)" for w x y :: u32
  by (rule bit_word_eqI) (auto simp: bit_simps)

lemma maj_eq: "(((w OR x) AND y) OR (w AND x)) = (w AND x) XOR (w AND y) XOR (x AND y)" for w x y :: u32
  by (rule bit_word_eqI) (auto simp: bit_simps)

text \<open>A round in front of word \<open>t\<close> of the schedule makes step \<open>t\<close> of the reference.\<close>

definition round_ok :: "u32 list \<Rightarrow> u32 list \<Rightarrow> nat \<Rightarrow> (sha1_regs \<times> u32 list \<Rightarrow> sha1_regs \<times> u32 list) \<Rightarrow> bool" where
  "round_ok raw W t R \<longleftrightarrow> (\<forall>r l. block_at raw W t l \<longrightarrow> (\<exists>l'. R (r, l) = (fips_step W t r, l') \<and> block_at raw W (Suc t) l'))"

lemmas round_simps = Let_def rol_rotl fips_step_def fips_f_def fips_K_def ch_eq maj_eq add.commute add.left_commute

lemma R0_ok:
  assumes "t < 16" and "word_of_le (rev (bytes_le 4 (raw ! t))) = W ! t"
  shows "round_ok raw W t (R0 t)"
  unfolding round_ok_def
proof (intro allI impI)
  fix r :: sha1_regs and l assume "block_at raw W t l"
  note b = blk0_step [OF this assms]
  obtain a b' c d e where r: "r = (a, b', c, d, e)" by (metis prod_cases5)
  have "R0 t (r, l) = (fips_step W t r, blk0 t l)" using assms(1) by (simp add: R0_def r round_simps b(2))
  then show "\<exists>l'. R0 t (r, l) = (fips_step W t r, l') \<and> block_at raw W (Suc t) l'" using b(1) by blast
qed

lemma R_ok:
  assumes "\<forall>t. 16 \<le> t \<and> t < 80 \<longrightarrow> W ! t = word_rotl 1 (W ! (t - 3) XOR W ! (t - 8) XOR W ! (t - 14) XOR W ! (t - 16))"
  shows "16 \<le> t \<Longrightarrow> t < 20 \<Longrightarrow> round_ok raw W t (R1 t)" "20 \<le> t \<Longrightarrow> t < 40 \<Longrightarrow> round_ok raw W t (R2 t)"
    "40 \<le> t \<Longrightarrow> t < 60 \<Longrightarrow> round_ok raw W t (R3 t)" "60 \<le> t \<Longrightarrow> t < 80 \<Longrightarrow> round_ok raw W t (R4 t)"
proof -
  have rd: "round_ok raw W t R"
    if t: "16 \<le> t" "t < 80" and R: "\<And>a b c d e l. blk t l ! (t AND 15) = W ! t \<Longrightarrow> R ((a, b, c, d, e), l) = (fips_step W t (a, b, c, d, e), blk t l)" for R
    unfolding round_ok_def
  proof (intro allI impI)
    fix r :: sha1_regs and l assume b: "block_at raw W t l"
    have "W ! t = word_rotl 1 (W ! (t - 3) XOR W ! (t - 8) XOR W ! (t - 14) XOR W ! (t - 16))" using assms t by blast
    note b = blk_step [OF b t this]
    show "\<exists>l'. R (r, l) = (fips_step W t r, l') \<and> block_at raw W (Suc t) l'" using R [OF b(2)] b(1) by (cases r) blast
  qed
  show "16 \<le> t \<Longrightarrow> t < 20 \<Longrightarrow> round_ok raw W t (R1 t)" by (rule rd) (simp_all add: R1_def round_simps)
  show "20 \<le> t \<Longrightarrow> t < 40 \<Longrightarrow> round_ok raw W t (R2 t)" by (rule rd) (simp_all add: R2_def round_simps)
  show "40 \<le> t \<Longrightarrow> t < 60 \<Longrightarrow> round_ok raw W t (R3 t)" by (rule rd) (simp_all add: R3_def round_simps)
  show "60 \<le> t \<Longrightarrow> t < 80 \<Longrightarrow> round_ok raw W t (R4 t)" by (rule rd) (simp_all add: R4_def round_simps)
qed

lemma rounds_ok:
  assumes "\<forall>i < length Rs. round_ok raw W (t + i) (Rs ! i)" and "block_at raw W t l"
  shows "\<exists>l'. foldl (\<lambda>s R. R s) (r, l) Rs = (foldl (\<lambda>r i. fips_step W i r) r [t..<t + length Rs], l')"
  using assms
proof (induction Rs arbitrary: t r l)
  case (Cons R Rs)
  from Cons.prems obtain l' where "R (r, l) = (fips_step W t r, l')" "block_at raw W (Suc t) l'"
    unfolding round_ok_def by fastforce
  moreover have "\<forall>i < length Rs. round_ok raw W (Suc t + i) (Rs ! i)" using Cons.prems(1) by auto
  moreover have "[t..<t + length (R # Rs)] = t # [Suc t..<Suc t + length Rs]" by (simp add: upt_conv_Cons del: upt_Suc)
  ultimately show ?case using Cons.IH [of "Suc t" l' "fips_step W t r"] by (simp del: upt_Suc)
qed simp

lemma sha1_rounds_map:
  "sha1_rounds = map (\<lambda>i. if i < 16 then R0 i else if i < 20 then R1 i else if i < 40 then R2 i else if i < 60 then R3 i else R4 i) [0..<80]"
proof -
  have "[0..<80] = [0..<16] @ [16..<20] @ [20..<40] @ [40..<60] @ [60..<80]" by code_simp
  then show ?thesis unfolding sha1_rounds_def by (simp only: map_append) (intro arg_cong2 [of _ _ _ _ append] map_cong refl; simp only: set_upt atLeastLessThan_iff; simp)
qed

lemma sha1_rounds_nth:
  assumes "i < 80"
  shows "sha1_rounds ! i = (if i < 16 then R0 i else if i < 20 then R1 i else if i < 40 then R2 i else if i < 60 then R3 i else R4 i)"
proof -
  have "i < length [0..<80]" "[0..<80] ! i = i" using assms nth_upt [of 0 i 80] by simp_all
  then show ?thesis unfolding sha1_rounds_map by (simp only: nth_map)
qed

lemma SHA1_transform_fips:
  assumes "length block = 64"
  shows "SHA1_transform LittleEndian H block = sha1_compress H block"
proof -
  let ?raw = "mem_words LittleEndian block" and ?M = "mem_words BigEndian block"
  define W where "W = schedule ?M 64"
  have lM: "length ?M = 16" by (simp add: mem_words_def)
  have W0: "W ! t = ?M ! t" if "t < 16" for t unfolding W_def using schedule_prefix [of 0 64 t ?M] lM that by simp
  have "round_ok ?raw W i (sha1_rounds ! i)" if i: "i < 80" for i
  proof -
    have s: "\<forall>t. 16 \<le> t \<and> t < 80 \<longrightarrow> W ! t = word_rotl 1 (W ! (t - 3) XOR W ! (t - 8) XOR W ! (t - 14) XOR W ! (t - 16))"
      using schedule_nth [OF lM] W_def by blast
    consider "i < 16" | "16 \<le> i" "i < 20" | "20 \<le> i" "i < 40" | "40 \<le> i" "i < 60" | "60 \<le> i" "i < 80" using i by linarith
    then show ?thesis
    proof cases
      case 1
      then show ?thesis using R0_ok [of i ?raw W] be_word_swapped [OF assms, of i] W0 [of i] by (simp add: sha1_rounds_nth)
    qed (use R_ok [OF s] in \<open>simp_all add: sha1_rounds_nth\<close>)
  qed
  moreover have "block_at ?raw W 0 ?raw" by (simp add: block_at_def mem_words_def)
  moreover have "length sha1_rounds = 80" by (simp add: sha1_rounds_def)
  ultimately obtain l' where "foldl (\<lambda>s R. R s) (H, ?raw) sha1_rounds = (foldl (\<lambda>r i. fips_step W i r) H [0..<80], l')"
    using rounds_ok [of sha1_rounds ?raw W 0 ?raw H] by auto
  then show ?thesis unfolding SHA1_transform_def sha1_compress_def W_def [symmetric] Let_def by (simp split: prod.splits)
qed

section \<open>The context follows the message\<close>

abbreviation (input) "sha1_H0 \<equiv> (0x67452301, 0xEFCDAB89, 0x98BADCFE, 0x10325476, 0xC3D2E1F0) :: sha1_regs"

definition sha1_holds :: "byte list \<Rightarrow> sha1_ctx \<Rightarrow> bool" where
  "sha1_holds D ctx \<longleftrightarrow> sha1_state ctx = foldl sha1_compress sha1_H0 (full_blocks D) \<and>
     length (sha1_buffer ctx) = 64 \<and> take (length D mod 64) (sha1_buffer ctx) = rest_bytes D \<and>
     count_ok (sha1_count0 ctx) (sha1_count1 ctx) (length D)"

lemma sha1_blocks_ok:
  assumes "i \<le> length data"
  shows "\<exists>i'. sha1_blocks LittleEndian data i H = Some (foldl sha1_compress H (full_blocks (drop i data)), i') \<and>
    i' \<le> length data \<and> drop i' data = rest_bytes (drop i data)"
  using assms
proof (induction "LittleEndian" data i H rule: sha1_blocks.induct)
  case (1 data i H)
  show ?case
  proof (cases "i + 63 < length data")
    case True
    let ?b = "take 64 (drop i data)"
    have l: "length ?b = 64" using True by simp
    have m: "mem_read data i 64 = Some ?b" using True by (simp add: mem_read_def)
    have d: "drop i data = ?b @ drop (i + 64) data" using append_take_drop_id [of 64 "drop i data"] by (simp add: add.commute)
    have "full_blocks (drop i data) = ?b # full_blocks (drop (i + 64) data)" "rest_bytes (drop i data) = rest_bytes (drop (i + 64) data)"
      using blocks_step [OF l, of "drop (i + 64) data"] d by simp_all
    moreover from 1(1) [OF True m] True obtain i' where
      "sha1_blocks LittleEndian data (i + 64) (SHA1_transform LittleEndian H ?b) =
        Some (foldl sha1_compress (SHA1_transform LittleEndian H ?b) (full_blocks (drop (i + 64) data)), i')"
      "i' \<le> length data" "drop i' data = rest_bytes (drop (i + 64) data)" by auto
    ultimately show ?thesis using True m SHA1_transform_fips [OF l] by (subst sha1_blocks.simps) simp
  next
    case False
    then have "length (drop i data) < 64" by simp
    then show ?thesis using False 1(2) by (subst sha1_blocks.simps) simp
  qed
qed

lemma SHA1_update_ok:
  assumes "sha1_holds D ctx"
  shows "\<exists>ctx'. SHA1_update LittleEndian data ctx = Some ctx' \<and> sha1_holds (D @ data) ctx'"
proof -
  let ?r = "rest_bytes D"
  define j where "j = length D mod 64"
  have a: "sha1_state ctx = foldl sha1_compress sha1_H0 (full_blocks D)" "length (sha1_buffer ctx) = 64"
    "take j (sha1_buffer ctx) = ?r" "count_ok (sha1_count0 ctx) (sha1_count1 ctx) (length D)"
    using assms by (simp_all add: sha1_holds_def j_def)
  have j64: "j < 64" by (simp add: j_def)
  have lr: "length ?r = j" by (simp add: length_rest_bytes j_def)
  have idx: "unat (drop_bit 3 (sha1_count0 ctx) AND 63) = j" using count_index [OF a(4)] j_def by simp
  have cnt: "count_ok (sha1_count0 ctx') (sha1_count1 ctx') (length (D @ data))"
    if "SHA1_update LittleEndian data ctx = Some ctx'" for ctx'
    using count_add_ok [OF a(4), of "of_nat (length data)"] unfolding SHA1_update_count [OF that] count_ok_mod by simp
  have "\<exists>ctx'. SHA1_update LittleEndian data ctx = Some ctx' \<and> sha1_state ctx' = foldl sha1_compress sha1_H0 (full_blocks (D @ data)) \<and>
     length (sha1_buffer ctx') = 64 \<and> take (length (D @ data) mod 64) (sha1_buffer ctx') = rest_bytes (D @ data)"
  proof (cases "j + length data \<le> 63")
    case True
    have "length (D @ data) mod 64 = j + length data"
      using True mod_add_left_eq [of "length D" 64 "length data"] by (simp add: j_def)
    moreover have "full_blocks (D @ data) = full_blocks D" "rest_bytes (D @ data) = ?r @ data"
      unfolding blocks_append [of D data] using True lr by simp_all
    ultimately show ?thesis using True a lr by (simp add: SHA1_update_def Let_def idx mem_write_def)
  next
    case False
    let ?x = "take (64 - j) data" and ?y = "drop (64 - j) data"
    have l: "length (?r @ ?x) = 64" using False lr j64 by simp
    have ly: "64 - j \<le> length data" using False by simp
    have m1: "mem_read data 0 (64 - j) = Some ?x" using ly by (simp add: mem_read_def)
    have m2: "mem_write (sha1_buffer ctx) j ?x = Some (?r @ ?x)" using a(2,3) ly j64 by (simp add: mem_write_def)
    obtain i' where i: "sha1_blocks LittleEndian data (64 - j) (SHA1_transform LittleEndian (sha1_state ctx) (?r @ ?x)) =
        Some (foldl sha1_compress (sha1_compress (sha1_state ctx) (?r @ ?x)) (full_blocks ?y), i')"
      "i' \<le> length data" "drop i' data = rest_bytes ?y"
      using sha1_blocks_ok [OF ly] unfolding SHA1_transform_fips [OF l] by blast
    have m3: "mem_read data i' (length data - i') = Some (rest_bytes ?y)"
      using i(2) unfolding mem_read_def i(3) [symmetric] by simp
    define B where "B = rest_bytes ?y @ drop (length (rest_bytes ?y)) (?r @ ?x)"
    have m4: "mem_write (?r @ ?x) 0 (rest_bytes ?y) = Some B"
      unfolding mem_write_def l B_def by (simp add: length_rest_bytes less_imp_le)
    have B: "length B = 64" "take (length (rest_bytes ?y)) B = rest_bytes ?y"
      using mem_write_length [OF m4] l by (simp_all add: B_def)
    have "D @ data = D @ ?x @ ?y" by simp
    moreover have "?r @ ?x @ ?y = (?r @ ?x) @ ?y" by simp
    ultimately have f: "full_blocks (D @ data) = full_blocks D @ (?r @ ?x) # full_blocks ?y" "rest_bytes (D @ data) = rest_bytes ?y"
      using blocks_append [of D "?x @ ?y"] blocks_step [OF l, of ?y] by metis+
    have "length (D @ data) mod 64 = length (rest_bytes ?y)" using length_rest_bytes [of "D @ data"] unfolding f(2) by simp
    then show ?thesis using False B a(1) f
      by (simp add: SHA1_update_def Let_def idx m1 m2 i(1) [unfolded a(1)] m3 m4 del: length_append)
  qed
  then show ?thesis using cnt unfolding sha1_holds_def by blast
qed

section \<open>The end of the message\<close>

lemma sha1_pad_ok:
  assumes "sha1_holds D ctx"
  shows "\<exists>ctx'. sha1_pad LittleEndian ctx = Some ctx' \<and> sha1_holds (D @ replicate (pad_turns (sha1_count0 ctx)) 0) ctx'"
  using assms
proof (induction "pad_turns (sha1_count0 ctx)" arbitrary: D ctx)
  case 0
  then have "\<not> sha1_count0 ctx AND 504 \<noteq> 448" using pad_turns_step [of "sha1_count0 ctx"] by auto
  then show ?case using 0 by (subst sha1_pad.simps) simp
next
  case (Suc n)
  have "sha1_count0 ctx AND 504 \<noteq> 448"
  proof
    assume "sha1_count0 ctx AND 504 = 448"
    then have "pad_turns (sha1_count0 ctx) = 0" by (simp only: pad_turns_def pad_reached) simp
    with Suc(2) show False by simp
  qed
  moreover obtain ctx1 where 1: "SHA1_update LittleEndian [0] ctx = Some ctx1" "sha1_holds (D @ [0]) ctx1"
    using SHA1_update_ok [OF Suc(3), of "[0]"] by blast
  ultimately have n: "n = pad_turns (sha1_count0 ctx1)"
    using pad_turns_step Suc(2) SHA1_update_byte_count [OF 1(1)] by simp
  from Suc(1) [OF n 1(2)] show ?case
    using 1(1) \<open>sha1_count0 ctx AND 504 \<noteq> 448\<close> Suc(2) n by (subst sha1_pad.simps) (simp flip: replicate_Suc add: replicate_app_Cons_same)
qed

lemma be_bytes_map: "map (\<lambda>i. ucast (drop_bit ((3 - (i AND 3)) * 8) (v :: u32) AND 255) :: byte) [0, 1, 2, 3] = be_bytes 4 v"
proof -
  have "w AND 255 = take_bit 8 w" for w :: u32 using take_bit_eq_mask [of 8 w] by (simp add: mask_eq_exp_minus_1)
  then have "(ucast (w AND 255) :: byte) = ucast w" for w :: u32 by (simp only:) (intro bit_word_eqI, auto simp: bit_simps)
  then show ?thesis by (simp add: be_bytes_def bytes_le_4)
qed

lemma SHA1_final_ok:
  assumes "sha1_holds D ctx"
  shows "\<exists>ctx'. SHA1_final LittleEndian ctx = Some (sha1_reference D, ctx') \<and> length (sha1_buffer ctx') = 64"
proof -
  let ?L = "of_nat (8 * length D) :: u64"
  have ok: "count_ok (sha1_count0 ctx) (sha1_count1 ctx) (length D)" using assms by (simp add: sha1_holds_def)
  have u8: "[0..<8] = [0, 1, 2, 3] @ [4, 5, 6, 7 :: nat]" and u20: "[0..<SHA1_DIGEST_SIZE] = [0, 1, 2, 3] @ [4, 5, 6, 7] @ [8, 9, 10, 11] @ [12, 13, 14, 15] @ [16, 17, 18, 19 :: nat]"
    by (simp_all add: SHA1_DIGEST_SIZE_def upt_rec)
  define fc where "fc = map (\<lambda>i. ucast (drop_bit ((3 - (i AND 3)) * 8) (if i \<ge> 4 then sha1_count0 ctx else sha1_count1 ctx) AND 255) :: byte) [0..<8]"
  have "fc = be_bytes 4 (sha1_count1 ctx) @ be_bytes 4 (sha1_count0 ctx)"
    unfolding fc_def u8 map_append be_bytes_map [symmetric] by simp
  also have "\<dots> = be_bytes 8 ?L" by (simp only: be_bytes_def bytes_le_halves rev_append count_words [OF ok, symmetric])
  finally have fc: "fc = be_bytes 8 ?L" .
  obtain c1 where c1: "SHA1_update LittleEndian [0x80] ctx = Some c1" "sha1_holds (D @ [0x80]) c1"
    using SHA1_update_ok [OF assms] by blast
  let ?n = "pad_turns (sha1_count0 c1)"
  obtain c2 where c2: "sha1_pad LittleEndian c1 = Some c2" "sha1_holds ((D @ [0x80]) @ replicate ?n 0) c2"
    using sha1_pad_ok [OF c1(2)] by blast
  obtain c3 where c3: "SHA1_update LittleEndian fc c2 = Some c3" "sha1_holds (((D @ [0x80]) @ replicate ?n 0) @ fc) c3"
    using SHA1_update_ok [OF c2(2)] by blast
  have "?n = (120 - (Suc (length D) mod 64)) mod 64"
    using c1(2) count_index by (fastforce simp: pad_turns_def sha1_holds_def)
  also have "\<dots> = (119 - length D mod 64) mod 64"
  proof -
    have "list_all (\<lambda>j. (120 - Suc j mod 64) mod 64 = (119 - j) mod 64) [0..<64]" by code_simp
    then have "(120 - Suc (length D mod 64) mod 64) mod 64 = (119 - length D mod 64) mod 64" by (simp only: list_all_iff) simp
    then show ?thesis by (simp only: mod_Suc_eq)
  qed
  finally have "((D @ [0x80]) @ replicate ?n 0) @ fc = md_pad (be_bytes 8) D" by (simp only: md_pad_def fc) simp
  then have st: "sha1_state c3 = foldl sha1_compress sha1_H0 (full_blocks (md_pad (be_bytes 8) D))"
    using c3(2) by (simp only: sha1_holds_def)
  obtain s0 s1 s2 s3 s4 where s: "sha1_state c3 = (s0, s1, s2, s3, s4)" by (metis prod_cases5)
  have "map (\<lambda>i. ucast (drop_bit ((3 - (i AND 3)) * 8) ([s0, s1, s2, s3, s4] ! drop_bit 2 i) AND 255) :: byte) [0..<SHA1_DIGEST_SIZE] =
      concat (map (be_bytes 4) [s0, s1, s2, s3, s4])"
    unfolding u20 map_append be_bytes_map [symmetric] by simp
  then have "map (\<lambda>i. ucast (drop_bit ((3 - (i AND 3)) * 8) ([s0, s1, s2, s3, s4] ! drop_bit 2 i) AND 255) :: byte) [0..<SHA1_DIGEST_SIZE] =
      sha1_reference D"
    unfolding sha1_reference_def st [symmetric] s by simp
  then show ?thesis unfolding SHA1_final_def Let_def fc_def [symmetric]
    by (simp only: c1(1) c2(1) c3(1) s Option.bind.simps prod.case) simp
qed

interpretation sha1: stream_hash sha1_holds "SHA1_update LittleEndian" "SHA1_final LittleEndian" sha1_reference
  using SHA1_update_ok SHA1_final_ok by unfold_locales blast+

lemma SHA1_init_holds: "length (sha1_buffer ctx) = 64 \<Longrightarrow> sha1_holds [] (SHA1_init ctx)"
  by (simp add: sha1_holds_def SHA1_init_def count_ok_def)

section \<open>Properties\<close>

definition sha1_of :: "endian \<Rightarrow> byte list list \<Rightarrow> sha1_ctx \<Rightarrow> byte list option" where
  "sha1_of he chunks ctx = map_option fst
     (fold (\<lambda>xs c. c \<bind> SHA1_update he xs) chunks (Some (SHA1_init ctx)) \<bind> SHA1_final he)"

lemma sha1_fold_update_all: "fold (\<lambda>xs c. c \<bind> SHA1_update LittleEndian xs) chunks r = r \<bind> sha1.update_all chunks"
proof (induction chunks arbitrary: r)
  case (Cons xs chunks)
  then show ?case by (cases r) simp_all
next
  case Nil
  then show ?case by (cases r) simp_all
qed

text \<open>
  On a big-endian host \<open>blk0\<close> still swaps the bytes and gives the rounds a word that is not the word of
  the message.
\<close>

lemma sha1_big_endian_word:
  "blk0 0 (mem_words BigEndian (1 # replicate 63 0)) ! 0 = 1 \<and> mem_words BigEndian (1 # replicate 63 0) ! 0 = 0x01000000"
  by code_simp

text \<open>
  C21. SHA-1: on a little-endian host, whatever the buffer of a new context holds and however a message is
  cut into calls of \<open>SHA1_update\<close>, all accesses stay inside the context and the data, the padding loop
  ends, and \<open>SHA1_final\<close> returns the SHA-1 digest of FIPS 180-4 of the whole message.
\<close>

theorem sha1_correct:
  assumes "length (sha1_buffer ctx) = 64"
  shows "sha1_of LittleEndian chunks ctx = Some (sha1_reference (concat chunks))"
  using sha1.digest_ok [OF SHA1_init_holds [OF assms]] by (simp add: sha1_of_def sha1_fold_update_all)

text \<open>Two contexts with different garbage and two ways to cut the three bytes \<open>abc\<close>.\<close>

theorem sha1_correct_witness:
  "sha1_of LittleEndian [[0x61, 0x62], [0x63]] \<lparr>sha1_state = (0, 0, 0, 0, 0), sha1_count0 = 7, sha1_count1 = 9, sha1_buffer = replicate 64 0xcc\<rparr> =
    Some (sha1_reference [0x61, 0x62, 0x63]) \<and>
   sha1_of LittleEndian [[], [0x61, 0x62, 0x63]] \<lparr>sha1_state = (1, 2, 3, 4, 5), sha1_count0 = 0, sha1_count1 = 8, sha1_buffer = replicate 64 0\<rparr> =
    Some (sha1_reference [0x61, 0x62, 0x63])"
  by (simp add: sha1_correct)

end
