(* ===== verification/MessageDigest.thy ===== *)
theory MessageDigest
  imports Md5 Sha1
begin

text \<open>
  \<open>src/{message_digest,md5_digest,sha1_digest}.{h,cpp}\<close>, as built without \<open>SSL_USE_OPENSSL\<close> (no file of
  the repository defines it).  The objects behind a \<open>MessageDigest*\<close> are the two classes of the library;
  a virtual call is a case distinction.  \<open>fresh n\<close> is what \<open>new uint8_t[n]\<close> returns: \<open>n\<close> bytes of any
  contents.
\<close>

section \<open>Digest objects\<close>

datatype message_digest = Md5Digest md5_context | Sha1Digest sha1_ctx

definition DIGEST_MD5 :: string where "DIGEST_MD5 = ''md5''"
definition DIGEST_SHA_1 :: string where "DIGEST_SHA_1 = ''sha-1''"
definition DIGEST_SHA_224 :: string where "DIGEST_SHA_224 = ''sha-224''"
definition DIGEST_SHA_256 :: string where "DIGEST_SHA_256 = ''sha-256''"
definition DIGEST_SHA_384 :: string where "DIGEST_SHA_384 = ''sha-384''"
definition DIGEST_SHA_512 :: string where "DIGEST_SHA_512 = ''sha-512''"

definition md5_k_size :: nat where "md5_k_size = 16"
definition sha1_k_size :: nat where "sha1_k_size = SHA1_DIGEST_SIZE"
definition k_block_size :: nat where "k_block_size = 64"

fun digest_size :: "message_digest \<Rightarrow> nat" where
  "digest_size (Md5Digest ctx) = md5_k_size"
| "digest_size (Sha1Digest ctx) = sha1_k_size"

fun digest_update :: "endian \<Rightarrow> byte list \<Rightarrow> message_digest \<Rightarrow> message_digest option" where
  "digest_update he buf (Md5Digest ctx) = map_option Md5Digest (MD5_update he buf ctx)"
| "digest_update he buf (Sha1Digest ctx) = map_option Sha1Digest (SHA1_update he buf ctx)"

text \<open>The number of bytes written, the memory behind the pointer, and the object.\<close>

fun digest_finish :: "endian \<Rightarrow> message_digest \<Rightarrow> byte list \<Rightarrow> nat \<Rightarrow> (nat \<times> byte list \<times> message_digest) option" where
  "digest_finish he (Md5Digest ctx) buf len =
     (if len < md5_k_size then Some (0, buf, Md5Digest ctx)
      else do {
        (digest, ctx) \<leftarrow> MD5_final he ctx;
        buf \<leftarrow> mem_write buf 0 digest;
        Some (md5_k_size, buf, Md5Digest (MD5_init ctx)) })"
| "digest_finish he (Sha1Digest ctx) buf len =
     (if len < sha1_k_size then Some (0, buf, Sha1Digest ctx)
      else do {
        (digest, ctx) \<leftarrow> SHA1_final he ctx;
        buf \<leftarrow> mem_write buf 0 digest;
        Some (sha1_k_size, buf, Sha1Digest (SHA1_init ctx)) })"

definition md5_digest_new :: "(nat \<Rightarrow> byte list) \<Rightarrow> message_digest" where
  "md5_digest_new fresh = Md5Digest (MD5_init \<lparr>md5_buf = (0, 0, 0, 0), md5_bits0 = 0, md5_bits1 = 0, md5_in = fresh 64\<rparr>)"

definition sha1_digest_new :: "(nat \<Rightarrow> byte list) \<Rightarrow> message_digest" where
  "sha1_digest_new fresh = Sha1Digest (SHA1_init \<lparr>sha1_state = (0, 0, 0, 0, 0), sha1_count0 = 0, sha1_count1 = 0, sha1_buffer = fresh 64\<rparr>)"

definition create_digest :: "(nat \<Rightarrow> byte list) \<Rightarrow> string \<Rightarrow> message_digest option" where
  "create_digest fresh alg =
     (if alg = DIGEST_MD5 then Some (md5_digest_new fresh)
      else if alg = DIGEST_SHA_1 then Some (sha1_digest_new fresh) else None)"

definition is_fips180_digest_algorithm :: "string \<Rightarrow> bool" where
  "is_fips180_digest_algorithm alg \<longleftrightarrow> alg = DIGEST_SHA_1 \<or> alg = DIGEST_SHA_224 \<or> alg = DIGEST_SHA_256 \<or>
     alg = DIGEST_SHA_384 \<or> alg = DIGEST_SHA_512"

section \<open>Hashes and HMACs\<close>

definition compute_digest :: "endian \<Rightarrow> message_digest \<Rightarrow> byte list \<Rightarrow> byte list \<Rightarrow> nat \<Rightarrow> (nat \<times> byte list \<times> message_digest) option" where
  "compute_digest he digest input output out_len = do {
     digest \<leftarrow> digest_update he input digest;
     digest_finish he digest output out_len }"

definition hmac_key :: "endian \<Rightarrow> message_digest \<Rightarrow> byte list \<Rightarrow> byte list \<Rightarrow> (byte list \<times> message_digest) option" where
  "hmac_key he digest key new_key =
     (if length key > k_block_size
      then do {
        (_, new_key, digest) \<leftarrow> compute_digest he digest key new_key k_block_size;
        new_key \<leftarrow> mem_write new_key (digest_size digest) (replicate (k_block_size - digest_size digest) 0);
        Some (new_key, digest) }
      else do {
        new_key \<leftarrow> mem_write new_key 0 key;
        new_key \<leftarrow> mem_write new_key (length key) (replicate (k_block_size - length key) 0);
        Some (new_key, digest) })"

definition compute_hmac :: "endian \<Rightarrow> (nat \<Rightarrow> byte list) \<Rightarrow> message_digest \<Rightarrow> byte list \<Rightarrow> byte list \<Rightarrow> byte list \<Rightarrow> nat
    \<Rightarrow> (nat \<times> byte list \<times> message_digest) option" where
  "compute_hmac he fresh digest key input output out_len =
     (if digest_size digest > 32 then Some (0, output, digest)
      else do {
        (new_key, digest) \<leftarrow> hmac_key he digest key (fresh k_block_size);
        let o_pad = map (\<lambda>i. 0x5c XOR new_key ! i) [0..<k_block_size];
        let i_pad = map (\<lambda>i. 0x36 XOR new_key ! i) [0..<k_block_size];
        digest \<leftarrow> digest_update he i_pad digest;
        digest \<leftarrow> digest_update he input digest;
        (_, inner, digest) \<leftarrow> digest_finish he digest (fresh (digest_size digest)) (digest_size digest);
        digest \<leftarrow> digest_update he o_pad digest;
        digest \<leftarrow> digest_update he inner digest;
        digest_finish he digest output out_len })"

definition compute_hmac_alg :: "endian \<Rightarrow> (nat \<Rightarrow> byte list) \<Rightarrow> string \<Rightarrow> byte list \<Rightarrow> byte list \<Rightarrow> byte list \<Rightarrow> nat
    \<Rightarrow> (nat \<times> byte list) option" where
  "compute_hmac_alg he fresh alg key input output out_len =
     (case create_digest fresh alg of
        None \<Rightarrow> Some (0, output)
      | Some digest \<Rightarrow> map_option (\<lambda>(n, output, _). (n, output)) (compute_hmac he fresh digest key input output out_len))"

section \<open>The contract of a digest object\<close>

text \<open>RFC 2104, for a hash with blocks of 64 bytes.\<close>

definition rfc2104_hmac :: "(byte list \<Rightarrow> byte list) \<Rightarrow> byte list \<Rightarrow> byte list \<Rightarrow> byte list" where
  "rfc2104_hmac H key text =
     (let K = (if length key > 64 then H key else key); K = K @ replicate (64 - length K) 0
      in H (map (\<lambda>b. b XOR 0x5c) K @ H (map (\<lambda>b. b XOR 0x36) K @ text)))"

locale digest_object =
  fixes he :: endian
    and holds :: "byte list \<Rightarrow> message_digest \<Rightarrow> bool"
    and hash :: "byte list \<Rightarrow> byte list"
    and n :: nat
  assumes size_ok: "holds D d \<Longrightarrow> digest_size d = n"
    and size_bound: "n \<le> 32"
    and hash_length: "length (hash D) = n"
    and update_ok: "holds D d \<Longrightarrow> \<exists>d'. digest_update he xs d = Some d' \<and> holds (D @ xs) d'"
    and finish_small: "holds D d \<Longrightarrow> len < n \<Longrightarrow> digest_finish he d buf len = Some (0, buf, d)"
    and finish_ok: "holds D d \<Longrightarrow> n \<le> len \<Longrightarrow> len \<le> length buf \<Longrightarrow>
      \<exists>d'. digest_finish he d buf len = Some (n, hash D @ drop n buf, d') \<and> holds [] d'"
begin

lemma compute_digest_ok:
  assumes "holds D d" and "n \<le> len" and "len \<le> length buf"
  shows "\<exists>d'. compute_digest he d xs buf len = Some (n, hash (D @ xs) @ drop n buf, d') \<and> holds [] d'"
proof -
  from update_ok [OF assms(1), of xs] obtain d1 where "digest_update he xs d = Some d1" "holds (D @ xs) d1" by blast
  with finish_ok [OF this(2) assms(2,3)] show ?thesis by (auto simp: compute_digest_def)
qed

lemma hmac_key_ok:
  assumes "holds [] d" and "length junk = 64"
  shows "\<exists>d'. hmac_key he d key junk = Some ((let K = (if length key > 64 then hash key else key) in K @ replicate (64 - length K) 0), d') \<and> holds [] d'"
proof (cases "length key > 64")
  case True
  from compute_digest_ok [OF assms(1), of 64 junk key] size_bound assms(2) obtain d'
    where d: "compute_digest he d key junk 64 = Some (n, hash key @ drop n junk, d')" "holds [] d'" by auto
  have "mem_write (hash key @ drop n junk) n (replicate (64 - n) 0) = Some (hash key @ replicate (64 - n) 0)"
    using size_bound assms(2) by (simp add: mem_write_def hash_length)
  then show ?thesis using True d size_ok [OF d(2)] by (simp add: hmac_key_def k_block_size_def hash_length)
next
  case False
  then show ?thesis using assms by (simp add: hmac_key_def k_block_size_def mem_write_def)
qed

lemma hmac_ok:
  assumes "holds [] d" and "\<And>m. length (fresh m) = m" and "out_len \<le> length output"
  shows "\<exists>d'. compute_hmac he fresh d key input output out_len =
    (if out_len < n then Some (0, output, d') else Some (n, rfc2104_hmac hash key input @ drop n output, d'))"
proof -
  define K where "K = (let K = (if length key > 64 then hash key else key) in K @ replicate (64 - length K) 0)"
  have lK: "length K = 64" using size_bound by (simp add: K_def Let_def hash_length)
  have pads: "map (\<lambda>i. c XOR K ! i) [0..<64] = map (\<lambda>b. b XOR c) K" for c :: byte
    by (rule nth_equalityI) (simp_all add: lK xor.commute)
  obtain d1 where 1: "hmac_key he d key (fresh 64) = Some (K, d1)" "holds [] d1"
    using hmac_key_ok [OF assms(1), of "fresh 64" key] assms(2) unfolding K_def by blast
  let ?i = "map (\<lambda>b. b XOR 0x36) K" and ?o = "map (\<lambda>b. b XOR 0x5c) K"
  obtain d2 where 2: "digest_update he ?i d1 = Some d2" "holds ?i d2" using update_ok [OF 1(2), of ?i] by auto
  obtain d3 where 3: "digest_update he input d2 = Some d3" "holds (?i @ input) d3" using update_ok [OF 2(2), of input] by auto
  obtain d4 where 4: "digest_finish he d3 (fresh n) n = Some (n, hash (?i @ input), d4)" "holds [] d4"
    using finish_ok [OF 3(2), of n "fresh n"] assms(2) by auto
  obtain d5 where 5: "digest_update he ?o d4 = Some d5" "holds ?o d5" using update_ok [OF 4(2), of ?o] by auto
  obtain d6 where 6: "digest_update he (hash (?i @ input)) d5 = Some d6" "holds (?o @ hash (?i @ input)) d6"
    using update_ok [OF 5(2)] by blast
  have h: "rfc2104_hmac hash key input = hash (?o @ hash (?i @ input))" by (simp add: rfc2104_hmac_def K_def Let_def)
  have "compute_hmac he fresh d key input output out_len = digest_finish he d6 output out_len"
    using size_bound
    by (simp add: compute_hmac_def size_ok [OF assms(1)] size_ok [OF 3(2)] k_block_size_def 1 pads 2 3 4 5 6 Let_def)
  moreover have "digest_finish he d6 output out_len = Some (0, output, d6)" if "out_len < n"
    by (rule finish_small [OF 6(2) that])
  moreover have "\<exists>d'. digest_finish he d6 output out_len = Some (n, rfc2104_hmac hash key input @ drop n output, d')" if "\<not> out_len < n"
    using finish_ok [OF 6(2), of out_len "output"] that assms(3) unfolding h by auto
  ultimately show ?thesis by auto
qed

end

section \<open>The two classes keep the contract\<close>

lemma md5_reference_length: "length (md5_reference D) = 16"
  by (simp add: md5_reference_def split: prod.splits)

lemma sha1_reference_length: "length (sha1_reference D) = 20"
  by (simp add: sha1_reference_def be_bytes_def split: prod.splits)

definition md5_digest_holds :: "byte list \<Rightarrow> message_digest \<Rightarrow> bool" where
  "md5_digest_holds D d \<longleftrightarrow> (case d of Md5Digest ctx \<Rightarrow> md5_holds D ctx | _ \<Rightarrow> False)"

definition sha1_digest_holds :: "byte list \<Rightarrow> message_digest \<Rightarrow> bool" where
  "sha1_digest_holds D d \<longleftrightarrow> (case d of Sha1Digest ctx \<Rightarrow> sha1_holds D ctx | _ \<Rightarrow> False)"

interpretation md5d: digest_object he md5_digest_holds md5_reference 16 for he
proof unfold_locales
  fix D d xs buf and len :: nat
  assume "md5_digest_holds D d"
  then obtain ctx where d: "d = Md5Digest ctx" and h: "md5_holds D ctx" by (auto simp: md5_digest_holds_def split: message_digest.splits)
  show "digest_size d = 16" by (simp add: d md5_k_size_def)
  show "\<exists>d'. digest_update he xs d = Some d' \<and> md5_digest_holds (D @ xs) d'"
    using md5.update_ok [OF h, of he xs] by (auto simp: d md5_digest_holds_def)
  show "len < 16 \<Longrightarrow> digest_finish he d buf len = Some (0, buf, d)" by (simp add: d md5_k_size_def)
  show "16 \<le> len \<Longrightarrow> len \<le> length buf \<Longrightarrow>
      \<exists>d'. digest_finish he d buf len = Some (16, md5_reference D @ drop 16 buf, d') \<and> md5_digest_holds [] d'"
    using MD5_init_holds by (simp add: d md5_k_size_def MD5_final_ok [OF h] mem_write_def md5_reference_length md5_digest_holds_def)
qed (simp_all add: md5_reference_length)

interpretation sha1d: digest_object LittleEndian sha1_digest_holds sha1_reference 20
proof unfold_locales
  fix D d xs buf and len :: nat
  assume "sha1_digest_holds D d"
  then obtain ctx where d: "d = Sha1Digest ctx" and h: "sha1_holds D ctx" by (auto simp: sha1_digest_holds_def split: message_digest.splits)
  show "digest_size d = 20" by (simp add: d sha1_k_size_def SHA1_DIGEST_SIZE_def)
  show "\<exists>d'. digest_update LittleEndian xs d = Some d' \<and> sha1_digest_holds (D @ xs) d'"
    using sha1.update_ok [OF h, of xs] by (auto simp: d sha1_digest_holds_def)
  show "len < 20 \<Longrightarrow> digest_finish LittleEndian d buf len = Some (0, buf, d)" by (simp add: d sha1_k_size_def SHA1_DIGEST_SIZE_def)
  obtain ctx' where f: "SHA1_final LittleEndian ctx = Some (sha1_reference D, ctx')" and b: "length (sha1_buffer ctx') = 64"
    using SHA1_final_ok [OF h] by blast
  show "20 \<le> len \<Longrightarrow> len \<le> length buf \<Longrightarrow>
      \<exists>d'. digest_finish LittleEndian d buf len = Some (20, sha1_reference D @ drop 20 buf, d') \<and> sha1_digest_holds [] d'"
    using SHA1_init_holds [OF b]
    by (simp add: d sha1_k_size_def SHA1_DIGEST_SIZE_def f mem_write_def sha1_reference_length sha1_digest_holds_def)
qed (simp_all add: sha1_reference_length)

section \<open>Properties\<close>

text \<open>
  C19. HMAC by name, for \<open>sha-1\<close> on little-endian hosts only: with an output buffer of at least \<open>out_len\<close> bytes, \<open>compute_hmac\<close> stays inside all its
  buffers, whatever they hold at first; for \<open>md5\<close> (on any host) and for \<open>sha-1\<close> (on little-endian hosts) it
  writes the HMAC of RFC 2104 of the input and returns its length, or writes nothing and returns 0 when
  \<open>out_len\<close> is too small; for every other name it returns 0 and writes nothing.
\<close>

theorem compute_hmac_correct:
  assumes "\<forall>m. length (fresh m) = m" and "out_len \<le> length output"
  shows "compute_hmac_alg he fresh DIGEST_MD5 key input output out_len =
      (if out_len < 16 then Some (0, output) else Some (16, rfc2104_hmac md5_reference key input @ drop 16 output)) \<and>
    compute_hmac_alg LittleEndian fresh DIGEST_SHA_1 key input output out_len =
      (if out_len < 20 then Some (0, output) else Some (20, rfc2104_hmac sha1_reference key input @ drop 20 output)) \<and>
    (alg \<noteq> DIGEST_MD5 \<and> alg \<noteq> DIGEST_SHA_1 \<longrightarrow> compute_hmac_alg he fresh alg key input output out_len = Some (0, output))"
proof (intro conjI impI)
  have f: "\<And>m. length (fresh m) = m" using assms(1) by blast
  have m: "md5_digest_holds [] (md5_digest_new fresh)"
    using MD5_init_holds f by (simp add: md5_digest_holds_def md5_digest_new_def)
  show "compute_hmac_alg he fresh DIGEST_MD5 key input output out_len =
      (if out_len < 16 then Some (0, output) else Some (16, rfc2104_hmac md5_reference key input @ drop 16 output))"
    using md5d.hmac_ok [OF m f assms(2), of he key input] by (auto simp: compute_hmac_alg_def create_digest_def)
  have s: "sha1_digest_holds [] (sha1_digest_new fresh)"
    using SHA1_init_holds f by (simp add: sha1_digest_holds_def sha1_digest_new_def)
  show "compute_hmac_alg LittleEndian fresh DIGEST_SHA_1 key input output out_len =
      (if out_len < 20 then Some (0, output) else Some (20, rfc2104_hmac sha1_reference key input @ drop 20 output))"
    using sha1d.hmac_ok [OF s f assms(2), of key input]
    by (auto simp: compute_hmac_alg_def create_digest_def DIGEST_MD5_def DIGEST_SHA_1_def)
qed (simp add: compute_hmac_alg_def create_digest_def)

theorem compute_hmac_correct_witness:
  "compute_hmac_alg BigEndian (\<lambda>m. replicate m 0xcd) ''md5'' [1, 2] [3] (replicate 20 7) 20 =
     Some (16, rfc2104_hmac md5_reference [1, 2] [3] @ [7, 7, 7, 7]) \<and>
   compute_hmac_alg LittleEndian (\<lambda>m. replicate m 0xcd) ''sha-1'' [1, 2] [3] (replicate 20 7) 19 = Some (0, replicate 20 7)"
proof -
  have r: "replicate 4 7 = [7, 7, 7, 7 :: byte]" by (simp add: numeral_eq_Suc)
  show ?thesis
    using compute_hmac_correct [of "\<lambda>m. replicate m 0xcd" 20 "replicate 20 7" BigEndian "[1, 2]" "[3]" "[]"]
      compute_hmac_correct [of "\<lambda>m. replicate m 0xcd" 19 "replicate 20 7" BigEndian "[1, 2]" "[3]" "[]"]
    by (simp add: DIGEST_MD5_def DIGEST_SHA_1_def r)
qed

end
