(* ===== verification/StdContainers.thy ===== *)
theory StdContainers
  imports SocketAddress "HOL-Library.Multiset"
begin

text \<open>
  What the sources use of the standard library beyond vectors: \<open>std::map\<close> with string keys as a list of
  pairs in the order of the keys, and \<open>std::sort\<close>, whose result is specified only for a comparison that
  is a strict weak order and then only up to the order of equivalent elements; it is a parameter with
  this specification.
\<close>

section \<open>Maps with string keys\<close>

type_synonym bstring = "byte list"

fun smap_put :: "bstring \<Rightarrow> 'v \<Rightarrow> (bstring \<times> 'v) list \<Rightarrow> (bstring \<times> 'v) list" where
  "smap_put k v [] = [(k, v)]"
| "smap_put k v ((k', v') # m) =
     (if k = k' then (k, v) # m else if str_less k k' then (k, v) # (k', v') # m else (k', v') # smap_put k v m)"

definition smap_ok :: "(bstring \<times> 'v) list \<Rightarrow> bool" where
  "smap_ok m \<longleftrightarrow> sorted_wrt str_less (map fst m)"

lemma map_of_smap_put [simp]: "map_of (smap_put k v m) = (map_of m)(k \<mapsto> v)"
  by (induction m) (auto simp: fun_upd_twist)

lemma keys_smap_put [simp]: "fst ` set (smap_put k v m) = insert k (fst ` set m)"
proof (induction m)
  case (Cons e m)
  then show ?case by (cases e) (simp add: insert_commute)
qed simp

lemma smap_put_ok: "smap_ok m \<Longrightarrow> smap_ok (smap_put k v m)"
proof (induction m)
  case (Cons e m)
  obtain k' v' where e: "e = (k', v')" by (cases e)
  have o: "\<forall>x \<in> fst ` set m. str_less k' x" and m: "smap_ok m" using Cons.prems by (auto simp: smap_ok_def e)
  consider "k = k'" | "k \<noteq> k'" "str_less k k'" | "k \<noteq> k'" "\<not> str_less k k'" by blast
  then show ?case
  proof cases
    case 1
    then show ?thesis using Cons.prems by (simp add: smap_ok_def e)
  next
    case 2
    then show ?thesis using Cons.prems o str_less_trans by (fastforce simp: smap_ok_def e)
  next
    case 3
    then have "str_less k' k" using str_less_total by blast
    then have "\<forall>x \<in> fst ` set (smap_put k v m). str_less k' x" using o by simp
    then show ?thesis using 3 Cons.IH [OF m] by (simp add: smap_ok_def e)
  qed
qed (simp add: smap_ok_def)

lemma smap_distinct: "smap_ok m \<Longrightarrow> distinct (map fst m)"
  unfolding smap_ok_def by (induction m) (auto simp: str_less_irrefl)

lemma smap_map_of: "smap_ok m \<Longrightarrow> map_of m k = Some v \<longleftrightarrow> (k, v) \<in> set m"
  by (rule map_of_eq_Some_iff [OF smap_distinct])

section \<open>Sorting\<close>

definition strict_weak :: "('a \<Rightarrow> 'a \<Rightarrow> bool) \<Rightarrow> 'a set \<Rightarrow> bool" where
  "strict_weak cmp A \<longleftrightarrow> (\<forall>x \<in> A. \<not> cmp x x) \<and>
     (\<forall>x \<in> A. \<forall>y \<in> A. \<forall>z \<in> A. cmp x y \<longrightarrow> cmp y z \<longrightarrow> cmp x z) \<and>
     (\<forall>x \<in> A. \<forall>y \<in> A. \<forall>z \<in> A. \<not> cmp x y \<longrightarrow> \<not> cmp y x \<longrightarrow> \<not> cmp y z \<longrightarrow> \<not> cmp z y \<longrightarrow> \<not> cmp x z \<and> \<not> cmp z x)"

definition std_sort :: "(('a \<Rightarrow> 'a \<Rightarrow> bool) \<Rightarrow> 'a list \<Rightarrow> 'a list) \<Rightarrow> bool" where
  "std_sort srt \<longleftrightarrow> (\<forall>cmp xs. strict_weak cmp (set xs) \<longrightarrow>
     mset (srt cmp xs) = mset xs \<and> sorted_wrt (\<lambda>x y. \<not> cmp y x) (srt cmp xs))"

lemma strict_weak_mono: "strict_weak cmp A \<Longrightarrow> B \<subseteq> A \<Longrightarrow> strict_weak cmp B"
  unfolding strict_weak_def by blast

text \<open>An insertion sort is one function with this specification.\<close>

primrec insert_by :: "('a \<Rightarrow> 'a \<Rightarrow> bool) \<Rightarrow> 'a \<Rightarrow> 'a list \<Rightarrow> 'a list" where
  "insert_by cmp x [] = [x]"
| "insert_by cmp x (y # ys) = (if cmp y x then y # insert_by cmp x ys else x # y # ys)"

definition insertion_sort :: "('a \<Rightarrow> 'a \<Rightarrow> bool) \<Rightarrow> 'a list \<Rightarrow> 'a list" where
  "insertion_sort cmp xs = foldr (insert_by cmp) xs []"

lemma mset_insert_by [simp]: "mset (insert_by cmp x ys) = add_mset x (mset ys)"
  by (induction ys) auto

lemma set_insert_by [simp]: "set (insert_by cmp x ys) = insert x (set ys)"
  by (induction ys) auto

lemma sorted_insert_by:
  assumes "strict_weak cmp (insert x (set ys))" and "sorted_wrt (\<lambda>a b. \<not> cmp b a) ys"
  shows "sorted_wrt (\<lambda>a b. \<not> cmp b a) (insert_by cmp x ys)"
  using assms
proof (induction ys)
  case (Cons y ys)
  have sw: "strict_weak cmp (insert x (set ys))" by (rule strict_weak_mono [OF Cons.prems(1)]) auto
  show ?case
  proof (cases "cmp y x")
    case True
    have "x \<in> insert x (set (y # ys))" "y \<in> insert x (set (y # ys))" by auto
    then have "\<not> cmp x y" using Cons.prems(1) True unfolding strict_weak_def by blast
    then show ?thesis using True Cons.IH [OF sw] Cons.prems(2) by auto
  next
    case False
    have "\<not> cmp z x" if z: "z \<in> set ys" for z
    proof
      assume zx: "cmp z x"
      have zy: "\<not> cmp z y" using Cons.prems(2) z by simp
      have i: "x \<in> insert x (set (y # ys))" "y \<in> insert x (set (y # ys))" "z \<in> insert x (set (y # ys))" using z by auto
      show False
      proof (cases "cmp y z")
        case True
        then show False using zx False i Cons.prems(1) unfolding strict_weak_def by blast
      next
        case c: False
        show False
        proof (cases "cmp x y")
          case True
          then show False using zx zy i Cons.prems(1) unfolding strict_weak_def by blast
        next
          case d: False
          then show False using zx zy c False i Cons.prems(1) unfolding strict_weak_def by blast
        qed
      qed
    qed
    then show ?thesis using False Cons.prems(2) by auto
  qed
qed simp

lemma insertion_sort_std: "std_sort insertion_sort"
  unfolding std_sort_def
proof (intro allI impI)
  fix cmp :: "'a \<Rightarrow> 'a \<Rightarrow> bool" and xs assume "strict_weak cmp (set xs)"
  then show "mset (insertion_sort cmp xs) = mset xs \<and> sorted_wrt (\<lambda>x y. \<not> cmp y x) (insertion_sort cmp xs)"
  proof (induction xs)
    case (Cons x xs)
    have "strict_weak cmp (set xs)" by (rule strict_weak_mono [OF Cons.prems]) auto
    note ih = Cons.IH [OF this]
    have "set (insertion_sort cmp xs) = set xs" using ih by (metis set_mset_mset)
    then have "sorted_wrt (\<lambda>a b. \<not> cmp b a) (insert_by cmp x (insertion_sort cmp xs))"
      using ih Cons.prems by (intro sorted_insert_by) simp_all
    then show ?case using ih by (simp add: insertion_sort_def)
  qed (simp add: insertion_sort_def)
qed

end
