(* ===== verification/Network.thy ===== *)
theory Network
  imports StdContainers
begin

text \<open>
  The class \<open>Network\<close> of \<open>src/network.{h,cpp}\<close> with its comparisons, and \<open>src/network_constants.h\<close>.
  \<open>inet_ntop\<close> is a parameter.
\<close>

section \<open>Networks\<close>

datatype adapter_type =
    ADAPTER_TYPE_UNKNOWN | ADAPTER_TYPE_ETHERNET | ADAPTER_TYPE_WIFI | ADAPTER_TYPE_CELLULAR
  | ADAPTER_TYPE_VPN | ADAPTER_TYPE_LOOPBACK | ADAPTER_TYPE_ANY

primrec adapter_value :: "adapter_type \<Rightarrow> int" where
  "adapter_value ADAPTER_TYPE_UNKNOWN = 0"
| "adapter_value ADAPTER_TYPE_ETHERNET = 1"
| "adapter_value ADAPTER_TYPE_WIFI = 2"
| "adapter_value ADAPTER_TYPE_CELLULAR = 4"
| "adapter_value ADAPTER_TYPE_VPN = 8"
| "adapter_value ADAPTER_TYPE_LOOPBACK = 16"
| "adapter_value ADAPTER_TYPE_ANY = 32"

definition k_network_cost_max :: u16 where "k_network_cost_max = 999"
definition k_network_cost_high :: u16 where "k_network_cost_high = 900"
definition k_network_cost_unknown :: u16 where "k_network_cost_unknown = 50"
definition k_network_cost_low :: u16 where "k_network_cost_low = 10"
definition k_network_cost_min :: u16 where "k_network_cost_min = 0"
definition k_max_IPv6_networks :: int where "k_max_IPv6_networks = 5"
definition k_highest_network_preference :: int where "k_highest_network_preference = 127"

record network =
  nw_provider :: bool
  nw_name :: bstring
  nw_description :: bstring
  nw_prefix :: ip_address
  nw_prefix_length :: int
  nw_key :: bstring
  nw_ips :: "interface_address list"
  nw_scope_id :: int
  nw_ignored :: bool
  nw_type :: adapter_type
  nw_preference :: int
  nw_active :: bool
  nw_id :: u16

definition str :: "string \<Rightarrow> bstring" where "str s = map of_char s"

definition dec_int :: "int \<Rightarrow> bstring" where
  "dec_int n = (if n < 0 then of_char CHR ''-'' # dec_nat (nat (- n)) else dec_nat (nat n))"

definition make_network_key :: "ntop \<Rightarrow> bstring \<Rightarrow> ip_address \<Rightarrow> int \<Rightarrow> bstring" where
  "make_network_key inet_ntop name prefix prefix_length =
     name @ str ''%'' @ ip_to_string inet_ntop prefix @ str ''/'' @ dec_int prefix_length"

definition network_new :: "ntop \<Rightarrow> bstring \<Rightarrow> bstring \<Rightarrow> ip_address \<Rightarrow> int \<Rightarrow> adapter_type \<Rightarrow> network" where
  "network_new inet_ntop name desc prefix prefix_length type =
     \<lparr>nw_provider = False, nw_name = name, nw_description = desc, nw_prefix = prefix, nw_prefix_length = prefix_length,
      nw_key = make_network_key inet_ntop name prefix prefix_length, nw_ips = [], nw_scope_id = 0, nw_ignored = False,
      nw_type = type, nw_preference = 0, nw_active = True, nw_id = 0\<rparr>"

definition network_new_untyped :: "ntop \<Rightarrow> bstring \<Rightarrow> bstring \<Rightarrow> ip_address \<Rightarrow> int \<Rightarrow> network" where
  "network_new_untyped inet_ntop name desc prefix prefix_length =
     network_new inet_ntop name desc prefix prefix_length ADAPTER_TYPE_UNKNOWN"

definition set_default_local_address_provider :: "network \<Rightarrow> network" where
  "set_default_local_address_provider net = net\<lparr>nw_provider := True\<rparr>"

definition add_IP :: "network \<Rightarrow> interface_address \<Rightarrow> network" where
  "add_IP net ip = net\<lparr>nw_ips := nw_ips net @ [ip]\<rparr>"

definition set_scope_id :: "network \<Rightarrow> int \<Rightarrow> network" where "set_scope_id net i = net\<lparr>nw_scope_id := i\<rparr>"
definition set_ignored :: "network \<Rightarrow> bool \<Rightarrow> network" where "set_ignored net b = net\<lparr>nw_ignored := b\<rparr>"
definition set_type :: "network \<Rightarrow> adapter_type \<Rightarrow> network" where
  "set_type net type = (if nw_type net = type then net else net\<lparr>nw_type := type\<rparr>)"
definition set_id :: "network \<Rightarrow> u16 \<Rightarrow> network" where "set_id net i = net\<lparr>nw_id := i\<rparr>"
definition set_preference :: "network \<Rightarrow> int \<Rightarrow> network" where "set_preference net p = net\<lparr>nw_preference := p\<rparr>"
definition set_active :: "network \<Rightarrow> bool \<Rightarrow> network" where
  "set_active net b = (if nw_active net \<noteq> b then net\<lparr>nw_active := b\<rparr> else net)"

definition get_cost :: "network \<Rightarrow> u16" where
  "get_cost net =
     (case nw_type net of
        ADAPTER_TYPE_ETHERNET \<Rightarrow> k_network_cost_min | ADAPTER_TYPE_LOOPBACK \<Rightarrow> k_network_cost_min
      | ADAPTER_TYPE_WIFI \<Rightarrow> k_network_cost_low | ADAPTER_TYPE_VPN \<Rightarrow> k_network_cost_low
      | ADAPTER_TYPE_CELLULAR \<Rightarrow> k_network_cost_high
      | _ \<Rightarrow> k_network_cost_unknown)"

text \<open>The new value of \<open>changed\<close> and the network.\<close>

definition set_IPs :: "network \<Rightarrow> interface_address list \<Rightarrow> bool \<Rightarrow> bool \<times> network" where
  "set_IPs net ips changed =
     (let changed = (changed \<or> length ips \<noteq> length (nw_ips net));
          changed = (if \<not> changed then \<exists>ip \<in> set ips. \<not> (\<exists>old \<in> set (nw_ips net). interface_address_eq old ip) else changed)
      in (changed, net\<lparr>nw_ips := ips\<rparr>))"

definition interface_address_nil :: interface_address where
  "interface_address_nil = interface_address_of ip_nil IPV6_ADDRESS_FLAG_NONE"

fun best_IP_loop :: "interface_address list \<Rightarrow> interface_address \<Rightarrow> interface_address \<Rightarrow> interface_address \<times> interface_address" where
  "best_IP_loop [] selected_ip ula_ip = (selected_ip, ula_ip)"
| "best_IP_loop (ip # ips) selected_ip ula_ip =
     (if ipv6_flags ip AND IPV6_ADDRESS_FLAG_DEPRECATED \<noteq> 0 then best_IP_loop ips selected_ip ula_ip
      else if IP_is_ULA (interface_address_ip ip) then best_IP_loop ips selected_ip ip
      else if ipv6_flags ip AND IPV6_ADDRESS_FLAG_TEMPORARY \<noteq> 0 then (ip, ula_ip)
      else best_IP_loop ips ip ula_ip)"

definition get_best_IP :: "network \<Rightarrow> ip_address" where
  "get_best_IP net =
     (if nw_ips net = [] then ip_nil
      else if ip_family (nw_prefix net) = AF_INET then interface_address_ip (nw_ips net ! 0)
      else
        let (selected_ip, ula_ip) = best_IP_loop (nw_ips net) interface_address_nil interface_address_nil;
            selected_ip = (if IP_is_unspec (interface_address_ip selected_ip) \<and> \<not> IP_is_unspec (interface_address_ip ula_ip)
              then ula_ip else selected_ip)
        in interface_address_ip selected_ip)"

definition compare_networks :: "endian \<Rightarrow> network \<Rightarrow> network \<Rightarrow> bool" where
  "compare_networks he a b \<longleftrightarrow>
     (if nw_prefix_length a = nw_prefix_length b \<and> nw_name a = nw_name b then ip_less he (nw_prefix a) (nw_prefix b)
      else str_less (nw_name a) (nw_name b))"

definition sort_networks :: "endian \<Rightarrow> network \<Rightarrow> network \<Rightarrow> bool" where
  "sort_networks he a b \<longleftrightarrow>
     (if nw_type a \<noteq> nw_type b then adapter_value (nw_type a) < adapter_value (nw_type b)
      else
        let ip_a = get_best_IP a; ip_b = get_best_IP b in
        if IP_address_precedence he ip_a \<noteq> IP_address_precedence he ip_b
        then IP_address_precedence he ip_a > IP_address_precedence he ip_b
        else str_less (nw_key b) (nw_key a))"

definition is_ignored_IPv6 :: "interface_address \<Rightarrow> bool" where
  "is_ignored_IPv6 ip \<longleftrightarrow>
     (if ip_family ip \<noteq> AF_INET6 then False
      else if IP_is_link_local (interface_address_ip ip) then True
      else if IP_is_mac_based (interface_address_ip ip) then True
      else if ipv6_flags ip AND IPV6_ADDRESS_FLAG_DEPRECATED \<noteq> 0 then True
      else False)"

definition match_type_name_with_index_pattern :: "bstring \<Rightarrow> bstring \<Rightarrow> bool" where
  "match_type_name_with_index_pattern network_name type_name \<longleftrightarrow>
     (if take (length type_name) network_name \<noteq> type_name then False
      else list_all is_digit (drop (length type_name) network_name))"

definition get_adapter_type_from_name :: "bstring \<Rightarrow> adapter_type" where
  "get_adapter_type_from_name network_name =
     (if match_type_name_with_index_pattern network_name (str ''lo'') then ADAPTER_TYPE_LOOPBACK
      else if match_type_name_with_index_pattern network_name (str ''eth'') then ADAPTER_TYPE_ETHERNET
      else if match_type_name_with_index_pattern network_name (str ''ipsec'') \<or>
              match_type_name_with_index_pattern network_name (str ''tun'') \<or>
              match_type_name_with_index_pattern network_name (str ''utun'') \<or>
              match_type_name_with_index_pattern network_name (str ''tap'') then ADAPTER_TYPE_VPN
      else ADAPTER_TYPE_UNKNOWN)"

end
