(* ===== verification/NetworkManager.thy ===== *)
theory NetworkManager
  imports Network
begin

text \<open>
  The network manager of \<open>src/network.{h,cpp}\<close> and \<open>src/ifaddrs_converter.{h,cpp}\<close>.  \<open>Network\<close> objects live in
  a store from addresses to records; \<open>None\<close> as the result of an operation is a use or a second deletion
  of an object that is not in the store, or an element access outside a vector.  \<open>inet_ntop\<close>, \<open>std::sort\<close>
  and the list that \<open>getifaddrs\<close> returns are parameters.  Signals are recorded as events.
\<close>

section \<open>The network manager\<close>

type_synonym net_store = "nat \<Rightarrow> network option"

datatype nm_event = NetworksChanged | NetworksError

record network_manager =
  nm_networks :: "nat list"
  nm_max_ipv6_networks :: int
  nm_networks_map :: "(bstring \<times> nat) list"
  nm_ipv6_enabled :: bool
  nm_next_available_network_id :: u16
  nm_sent_first_update :: bool
  nm_network_ignore_list :: "bstring list"

definition network_manager_new :: network_manager where
  "network_manager_new = \<lparr>nm_networks = [], nm_max_ipv6_networks = k_max_IPv6_networks, nm_networks_map = [],
     nm_ipv6_enabled = True, nm_next_available_network_id = 1, nm_sent_first_update = False, nm_network_ignore_list = []\<rparr>"

definition delete_network :: "net_store \<Rightarrow> nat \<Rightarrow> net_store option" where
  "delete_network st p = do { _ \<leftarrow> st p; Some (st(p := None)) }"

definition update_network :: "net_store \<Rightarrow> nat \<Rightarrow> (network \<Rightarrow> network) \<Rightarrow> net_store option" where
  "update_network st p f = do { net \<leftarrow> st p; Some (st(p \<mapsto> f net)) }"

fun delete_networks :: "net_store \<Rightarrow> nat list \<Rightarrow> net_store option" where
  "delete_networks st [] = Some st"
| "delete_networks st (p # ps) = do { st \<leftarrow> delete_network st p; delete_networks st ps }"

definition network_manager_destroy :: "net_store \<Rightarrow> network_manager \<Rightarrow> net_store option" where
  "network_manager_destroy st m = delete_networks st (map snd (nm_networks_map m))"

fun get_networks_loop :: "net_store \<Rightarrow> int \<Rightarrow> nat list \<Rightarrow> int \<Rightarrow> nat list option" where
  "get_networks_loop st max_ipv6 [] ipv6_networks = Some []"
| "get_networks_loop st max_ipv6 (p # ps) ipv6_networks = do {
     net \<leftarrow> st p;
     if ip_family (nw_prefix net) = AF_INET6
     then if ipv6_networks \<ge> max_ipv6 then get_networks_loop st max_ipv6 ps ipv6_networks
          else map_option (Cons p) (get_networks_loop st max_ipv6 ps (ipv6_networks + 1))
     else map_option (Cons p) (get_networks_loop st max_ipv6 ps ipv6_networks) }"

definition get_networks :: "net_store \<Rightarrow> network_manager \<Rightarrow> nat list option" where
  "get_networks st m = get_networks_loop st (nm_max_ipv6_networks m) (nm_networks m) 0"

section \<open>Merging a new list\<close>

record nm_stats =
  ipv4_network_count :: int
  ipv6_network_count :: int

definition nm_stats_new :: nm_stats where
  "nm_stats_new = \<lparr>ipv4_network_count = 0, ipv6_network_count = 0\<rparr>"

text \<open>An \<open>AddressList\<close>: the network and the addresses of all networks with its key.\<close>

type_synonym address_list = "nat \<times> interface_address list"

fun consolidate :: "ntop \<Rightarrow> nat list \<Rightarrow> net_store \<Rightarrow> (bstring \<times> address_list) list \<Rightarrow> nm_stats
    \<Rightarrow> (net_store \<times> (bstring \<times> address_list) list \<times> nm_stats) option" where
  "consolidate inet_ntop [] st cal stats = Some (st, cal, stats)"
| "consolidate inet_ntop (p # ps) st cal stats = do {
     net \<leftarrow> st p;
     let key = make_network_key inet_ntop (nw_name net) (nw_prefix net) (nw_prefix_length net);
     let might_add_to_merged_list = (map_of cal key = None);
     let cal = (if might_add_to_merged_list then smap_put key (p, []) cal else cal);
     (owner, ips) \<leftarrow> map_of cal key;
     let ips = ips @ nw_ips net;
     let cal = smap_put key (owner, ips) cal;
     if \<not> might_add_to_merged_list
     then do { st \<leftarrow> delete_network st p; consolidate inet_ntop ps st cal stats }
     else case ips of
         [] \<Rightarrow> None
       | ip # _ \<Rightarrow>
           consolidate inet_ntop ps st cal
             (if ip_family ip = AF_INET then stats\<lparr>ipv4_network_count := ipv4_network_count stats + 1\<rparr>
              else if ip_family ip = AF_INET6 then stats\<lparr>ipv6_network_count := ipv6_network_count stats + 1\<rparr>
              else stats) }"

text \<open>One entry of the consolidated list: the store, the manager, the merged list and \<open>changed\<close>.\<close>

definition merge_entry :: "bstring \<times> address_list \<Rightarrow> net_store \<times> network_manager \<times> nat list \<times> bool
    \<Rightarrow> (net_store \<times> network_manager \<times> nat list \<times> bool) option" where
  "merge_entry = (\<lambda>(key, p, ips) (st, m, merged, changed).
     case map_of (nm_networks_map m) key of
       None \<Rightarrow> do {
         let m = m\<lparr>nm_networks_map := smap_put key p (nm_networks_map m)\<rparr>;
         st \<leftarrow> update_network st p (\<lambda>net. set_id net (nm_next_available_network_id m));
         let m = m\<lparr>nm_next_available_network_id := nm_next_available_network_id m + 1\<rparr>;
         st \<leftarrow> update_network st p (\<lambda>net. snd (set_IPs net ips True));
         Some (st, m, merged @ [p], True) }
     | Some q \<Rightarrow> do {
         existing_net \<leftarrow> st q;
         let changed = fst (set_IPs existing_net ips changed);
         st \<leftarrow> update_network st q (\<lambda>net. snd (set_IPs net ips changed));
         net \<leftarrow> st p;
         existing_net \<leftarrow> st q;
         let retype = (nw_type net \<noteq> ADAPTER_TYPE_UNKNOWN \<and> nw_type net \<noteq> nw_type existing_net);
         st \<leftarrow> (if retype then update_network st q (\<lambda>e. set_type e (nw_type net)) else Some st);
         let changed = (changed \<or> retype \<or> \<not> nw_active existing_net);
         st \<leftarrow> (if q \<noteq> p then delete_network st p else Some st);
         Some (st, m, merged @ [q], changed) })"

fun merge_entries :: "(bstring \<times> address_list) list \<Rightarrow> net_store \<times> network_manager \<times> nat list \<times> bool
    \<Rightarrow> (net_store \<times> network_manager \<times> nat list \<times> bool) option" where
  "merge_entries [] s = Some s"
| "merge_entries (e # es) s = do { s \<leftarrow> merge_entry e s; merge_entries es s }"

fun set_active_states :: "nat list \<Rightarrow> (bstring \<times> nat) list \<Rightarrow> net_store \<Rightarrow> net_store option" where
  "set_active_states networks [] st = Some st"
| "set_active_states networks ((key, p) # kvs) st = do {
     st \<leftarrow> update_network st p (\<lambda>net. set_active net (p \<in> set networks));
     set_active_states networks kvs st }"

fun set_preferences :: "int \<Rightarrow> nat list \<Rightarrow> net_store \<Rightarrow> net_store option" where
  "set_preferences pref [] st = Some st"
| "set_preferences pref (p # ps) st = do {
     st \<leftarrow> update_network st p (\<lambda>net. set_preference net pref);
     if pref > 0 then set_preferences (pref - 1) ps st else Some st }"

text \<open>\<open>std::sort\<close> of pointers with a comparison of the objects behind them.\<close>

definition sort_pointers :: "((nat \<Rightarrow> nat \<Rightarrow> bool) \<Rightarrow> nat list \<Rightarrow> nat list) \<Rightarrow> (network \<Rightarrow> network \<Rightarrow> bool)
    \<Rightarrow> net_store \<Rightarrow> nat list \<Rightarrow> nat list option" where
  "sort_pointers srt cmp st ps =
     (if list_all (\<lambda>p. st p \<noteq> None) ps then Some (srt (\<lambda>p q. cmp (the (st p)) (the (st q))) ps) else None)"

definition merge_network_list :: "((nat \<Rightarrow> nat \<Rightarrow> bool) \<Rightarrow> nat list \<Rightarrow> nat list) \<Rightarrow> endian \<Rightarrow> ntop \<Rightarrow> nat list
    \<Rightarrow> net_store \<Rightarrow> network_manager \<Rightarrow> nm_stats \<Rightarrow> (net_store \<times> network_manager \<times> bool \<times> nm_stats) option" where
  "merge_network_list srt he inet_ntop new_networks st m stats = do {
     list \<leftarrow> sort_pointers srt (compare_networks he) st new_networks;
     (st, cal, stats) \<leftarrow> consolidate inet_ntop list st [] stats;
     (st, m, merged_list, changed) \<leftarrow> merge_entries cal (st, m, [], False);
     let changed = (changed \<or> length merged_list \<noteq> length (nm_networks m));
     if changed
     then do {
       st \<leftarrow> set_active_states merged_list (nm_networks_map m) st;
       networks \<leftarrow> sort_pointers srt (sort_networks he) st merged_list;
       st \<leftarrow> set_preferences k_highest_network_preference networks st;
       Some (st, m\<lparr>nm_networks := networks\<rparr>, True, stats) }
     else Some (st, m, False, stats) }"

section \<open>Reading the interfaces\<close>

definition IFF_LOOPBACK :: u32 where "IFF_LOOPBACK = 0x8"
definition IFF_RUNNING :: u32 where "IFF_RUNNING = 0x40"

record ifaddrs =
  ifa_name :: bstring
  ifa_flags :: u32
  ifa_addr :: "sockaddr_storage option"
  ifa_netmask :: "sockaddr_storage option"

definition convert_native_attributes_to_IP_attributes :: "ifaddrs \<Rightarrow> int option" where
  "convert_native_attributes_to_IP_attributes ifa = Some IPV6_ADDRESS_FLAG_NONE"

text \<open>
  \<open>None\<close>: a netmask is read as the structure of another family.  \<open>Some None\<close>: the function returns false.
\<close>

definition convert_if_addrs_to_IP_address :: "endian \<Rightarrow> ifaddrs \<Rightarrow> (interface_address \<times> ip_address) option option" where
  "convert_if_addrs_to_IP_address he ifa =
     (case ifa_addr ifa of
        Some (Sockaddr_in _ a) \<Rightarrow>
          (case ifa_netmask ifa of
             Some (Sockaddr_in _ k) \<Rightarrow> Some (Some (interface_address_of (ip_of_in_addr he a) IPV6_ADDRESS_FLAG_NONE, ip_of_in_addr he k))
           | _ \<Rightarrow> None)
      | Some (Sockaddr_in6 _ a _) \<Rightarrow>
          (case convert_native_attributes_to_IP_attributes ifa of
             None \<Rightarrow> Some None
           | Some ip_attributes \<Rightarrow>
               (case ifa_netmask ifa of
                  Some (Sockaddr_in6 _ k _) \<Rightarrow> Some (Some (interface_address_of (ip_of_in6_addr a) ip_attributes, ip_of_in6_addr k))
                | _ \<Rightarrow> None))
      | Some Sockaddr_other \<Rightarrow> Some None
      | None \<Rightarrow> None)"

definition is_ignored_network :: "endian \<Rightarrow> network_manager \<Rightarrow> network \<Rightarrow> bool" where
  "is_ignored_network he m net \<longleftrightarrow>
     (if nw_name net \<in> set (nm_network_ignore_list m) then True
      else if take 5 (nw_name net) = str ''vmnet'' \<or> take 4 (nw_name net) = str ''vnic'' \<or>
              take 7 (nw_name net) = str ''vboxnet'' then True
      else if ip_family (nw_prefix net) = AF_INET then v4_address_as_host_order_integer he (nw_prefix net) < 0x01000000
      else False)"

text \<open>
  The \<open>continue\<close> statements of the loop of \<open>convert_if_addrs\<close> up to the conversion and the IPv6 case:
  \<open>Some None\<close> skips the entry.
\<close>

definition usable_interface :: "endian \<Rightarrow> network_manager \<Rightarrow> ifaddrs \<Rightarrow> (interface_address \<times> ip_address \<times> int) option option" where
  "usable_interface he m ifa =
     (if ifa_addr ifa = None \<or> ifa_netmask ifa = None then Some None
      else if ifa_flags ifa AND IFF_RUNNING = 0 then Some None
      else if ifa_addr ifa = Some Sockaddr_other then Some None
      else if (case ifa_addr ifa of Some (Sockaddr_in6 _ _ _) \<Rightarrow> \<not> nm_ipv6_enabled m | _ \<Rightarrow> False) then Some None
      else do {
        r \<leftarrow> convert_if_addrs_to_IP_address he ifa;
        case r of
          None \<Rightarrow> Some None
        | Some (ip, msk) \<Rightarrow>
            (case ifa_addr ifa of
               Some (Sockaddr_in6 _ _ scope) \<Rightarrow> if is_ignored_IPv6 ip then Some None else Some (Some (ip, msk, scope))
             | _ \<Rightarrow> Some (Some (ip, msk, 0))) })"

definition interface_type :: "ifaddrs \<Rightarrow> adapter_type" where
  "interface_type ifa =
     (if ifa_flags ifa AND IFF_LOOPBACK \<noteq> 0 then ADAPTER_TYPE_LOOPBACK else get_adapter_type_from_name (ifa_name ifa))"

text \<open>\<open>next\<close> is the address that the next \<open>new Network\<close> returns.\<close>

fun convert_loop :: "endian \<Rightarrow> ntop \<Rightarrow> network_manager \<Rightarrow> bool \<Rightarrow> ifaddrs list \<Rightarrow> net_store \<Rightarrow> nat \<Rightarrow> (bstring \<times> nat) list \<Rightarrow> nat list
    \<Rightarrow> (net_store \<times> nat \<times> nat list) option" where
  "convert_loop he inet_ntop m include_ignored [] st nxt current networks = Some (st, nxt, networks)"
| "convert_loop he inet_ntop m include_ignored (ifa # ifas) st nxt current networks = do {
     u \<leftarrow> usable_interface he m ifa;
     case u of
       None \<Rightarrow> convert_loop he inet_ntop m include_ignored ifas st nxt current networks
     | Some (ip, msk, scope_id) \<Rightarrow>
         (let adapter_type = interface_type ifa;
              prefix_length = count_IP_mask_bits he msk;
              prefix = truncate_IP he (interface_address_ip ip) (int prefix_length);
              key = make_network_key inet_ntop (ifa_name ifa) prefix (int prefix_length)
          in case map_of current key of
               None \<Rightarrow>
                 (let net = network_new inet_ntop (ifa_name ifa) (ifa_name ifa) prefix (int prefix_length) adapter_type;
                      net = add_IP (set_scope_id (set_default_local_address_provider net) scope_id) ip;
                      net = set_ignored net (is_ignored_network he m net)
                  in if include_ignored \<or> \<not> nw_ignored net
                     then convert_loop he inet_ntop m include_ignored ifas (st(nxt \<mapsto> net)) (nxt + 1) (smap_put key nxt current) (networks @ [nxt])
                     else convert_loop he inet_ntop m include_ignored ifas st (nxt + 1) current networks)
             | Some p \<Rightarrow> do {
                 st \<leftarrow> update_network st p (\<lambda>net. add_IP net ip);
                 st \<leftarrow> (if adapter_type \<noteq> ADAPTER_TYPE_UNKNOWN then update_network st p (\<lambda>net. set_type net adapter_type) else Some st);
                 convert_loop he inet_ntop m include_ignored ifas st nxt current networks }) }"

definition convert_if_addrs where
  "convert_if_addrs he inet_ntop m include_ignored ifas st nxt = convert_loop he inet_ntop m include_ignored ifas st nxt [] []"

text \<open>\<open>getifaddrs\<close> is the parameter \<open>gifs\<close>: the interfaces, or \<open>None\<close> on an error.\<close>

definition create_networks where
  "create_networks he inet_ntop gifs include_ignored m st nxt =
     (case gifs of
        None \<Rightarrow> Some (False, st, nxt, [])
      | Some ifas \<Rightarrow> map_option (\<lambda>(st, nxt, networks). (True, st, nxt, networks)) (convert_if_addrs he inet_ntop m include_ignored ifas st nxt))"

definition update_networks_once :: "((nat \<Rightarrow> nat \<Rightarrow> bool) \<Rightarrow> nat list \<Rightarrow> nat list) \<Rightarrow> endian \<Rightarrow> ntop \<Rightarrow> ifaddrs list option \<Rightarrow> net_store \<Rightarrow> nat
    \<Rightarrow> network_manager \<Rightarrow> (net_store \<times> nat \<times> network_manager \<times> nm_event list) option" where
  "update_networks_once srt he inet_ntop gifs st nxt m = do {
     (created, st, nxt, list) \<leftarrow> create_networks he inet_ntop gifs False m st nxt;
     if \<not> created then Some (st, nxt, m, [NetworksError])
     else do {
       (st, m, changed, stats) \<leftarrow> merge_network_list srt he inet_ntop list st m nm_stats_new;
       Some (if changed \<or> \<not> nm_sent_first_update m
             then (st, nxt, m\<lparr>nm_sent_first_update := True\<rparr>, [NetworksChanged]) else (st, nxt, m, [])) } }"

definition start_updating where
  "start_updating srt he inet_ntop gifs st nxt m =
     (if \<not> nm_sent_first_update m then update_networks_once srt he inet_ntop gifs st nxt m
      else Some (st, nxt, m, [NetworksChanged]))"

definition stop_updating :: "network_manager \<Rightarrow> network_manager" where
  "stop_updating m = m\<lparr>nm_sent_first_update := False\<rparr>"

section \<open>Consolidation\<close>

definition key_of :: "ntop \<Rightarrow> network \<Rightarrow> bstring" where
  "key_of inet_ntop net = make_network_key inet_ntop (nw_name net) (nw_prefix net) (nw_prefix_length net)"

definition key_at :: "ntop \<Rightarrow> net_store \<Rightarrow> nat \<Rightarrow> bstring" where
  "key_at inet_ntop st p = key_of inet_ntop (the (st p))"

definition ips_at :: "ntop \<Rightarrow> net_store \<Rightarrow> nat list \<Rightarrow> bstring \<Rightarrow> interface_address list" where
  "ips_at inet_ntop st ps k = concat (map (\<lambda>p. nw_ips (the (st p))) (filter (\<lambda>p. key_at inet_ntop st p = k) ps))"

definition owner_at :: "ntop \<Rightarrow> net_store \<Rightarrow> nat list \<Rightarrow> bstring \<Rightarrow> nat option" where
  "owner_at inet_ntop st ps k = find (\<lambda>p. key_at inet_ntop st p = k) ps"

lemma at_cong:
  assumes "\<And>p. p \<in> set ps \<Longrightarrow> st' p = st p"
  shows "ips_at inet_ntop st' ps = ips_at inet_ntop st ps" "owner_at inet_ntop st' ps = owner_at inet_ntop st ps"
proof -
  have k: "key_at inet_ntop st' p = key_at inet_ntop st p" if "p \<in> set ps" for p using assms [OF that] by (simp add: key_at_def)
  then have "filter (\<lambda>p. key_at inet_ntop st' p = k) ps = filter (\<lambda>p. key_at inet_ntop st p = k) ps" for k by (simp cong: filter_cong)
  then show "ips_at inet_ntop st' ps = ips_at inet_ntop st ps"
    using assms by (intro ext) (auto simp: ips_at_def intro!: arg_cong [of _ _ concat] map_cong)
  have "find (\<lambda>p. key_at inet_ntop st' p = k) ps = find (\<lambda>p. key_at inet_ntop st p = k) ps" for k
    using k by (intro find_cong) auto
  then show "owner_at inet_ntop st' ps = owner_at inet_ntop st ps" by (intro ext) (simp add: owner_at_def)
qed

text \<open>What the first loop computes: for each key the first object with it and all the addresses.\<close>

definition consolidated :: "ntop \<Rightarrow> nat list \<Rightarrow> net_store \<Rightarrow> (bstring \<times> address_list) list \<Rightarrow> net_store
    \<Rightarrow> (bstring \<times> address_list) list \<Rightarrow> bool" where
  "consolidated inet_ntop ps st cal st' cal' \<longleftrightarrow> smap_ok cal' \<and>
    (\<forall>k. map_of cal' k = (case map_of cal k of
        Some (p, ips) \<Rightarrow> Some (p, ips @ ips_at inet_ntop st ps k)
      | None \<Rightarrow> map_option (\<lambda>p. (p, ips_at inet_ntop st ps k)) (owner_at inet_ntop st ps k))) \<and>
    (\<forall>q. st' q = (if q \<in> set ps \<and> \<not> (map_of cal (key_at inet_ntop st q) = None \<and>
        owner_at inet_ntop st ps (key_at inet_ntop st q) = Some q) then None else st q))"

lemma at_Cons:
  "ips_at inet_ntop st (p # ps) k = (if k = key_at inet_ntop st p then nw_ips (the (st p)) else []) @ ips_at inet_ntop st ps k"
  "owner_at inet_ntop st (p # ps) k = (if k = key_at inet_ntop st p then Some p else owner_at inet_ntop st ps k)"
  by (auto simp: ips_at_def owner_at_def)

lemma owner_at_in: "owner_at inet_ntop st ps k = Some p \<Longrightarrow> p \<in> set ps \<and> key_at inet_ntop st p = k"
  by (auto simp: owner_at_def find_Some_iff)

lemma owner_at_None: "owner_at inet_ntop st ps k = None \<longleftrightarrow> k \<notin> key_at inet_ntop st ` set ps"
  by (auto simp: owner_at_def find_None_iff)

lemma consolidated_first:
  assumes "consolidated inet_ntop ps st cal1 st' cal'" and "p \<notin> set ps"
    and "map_of cal1 = (map_of cal)(key_at inet_ntop st p \<mapsto> (p, nw_ips (the (st p))))" and "map_of cal (key_at inet_ntop st p) = None"
  shows "consolidated inet_ntop (p # ps) st cal st' cal'"
  unfolding consolidated_def
proof (intro conjI allI)
  show "smap_ok cal'" using assms(1) by (simp add: consolidated_def)
  fix k
  have "map_of cal' k = (case map_of cal1 k of Some (p, ips) \<Rightarrow> Some (p, ips @ ips_at inet_ntop st ps k)
      | None \<Rightarrow> map_option (\<lambda>p. (p, ips_at inet_ntop st ps k)) (owner_at inet_ntop st ps k))"
    using assms(1) by (simp add: consolidated_def)
  then show "map_of cal' k = (case map_of cal k of Some (p', ips) \<Rightarrow> Some (p', ips @ ips_at inet_ntop st (p # ps) k)
      | None \<Rightarrow> map_option (\<lambda>p'. (p', ips_at inet_ntop st (p # ps) k)) (owner_at inet_ntop st (p # ps) k))"
    using assms(4) by (cases "k = key_at inet_ntop st p") (auto simp: assms(3) at_Cons split: option.splits)
next
  fix q
  have "st' q = (if q \<in> set ps \<and> \<not> (map_of cal1 (key_at inet_ntop st q) = None \<and>
        owner_at inet_ntop st ps (key_at inet_ntop st q) = Some q) then None else st q)"
    using assms(1) by (simp add: consolidated_def)
  then show "st' q = (if q \<in> set (p # ps) \<and> \<not> (map_of cal (key_at inet_ntop st q) = None \<and>
        owner_at inet_ntop st (p # ps) (key_at inet_ntop st q) = Some q) then None else st q)"
    using assms(2,4) by (auto simp: assms(3) at_Cons)
qed

lemma consolidated_again:
  assumes "consolidated inet_ntop ps (st(p := None)) cal1 st' cal'" and "p \<notin> set ps"
    and "map_of cal1 = (map_of cal)(key_at inet_ntop st p \<mapsto> (q0, ips0 @ nw_ips (the (st p))))"
    and "map_of cal (key_at inet_ntop st p) = Some (q0, ips0)"
  shows "consolidated inet_ntop (p # ps) st cal st' cal'"
proof -
  let ?st = "st(p := None)"
  have same: "\<And>q. q \<in> set ps \<Longrightarrow> ?st q = st q" using assms(2) by auto
  have at: "ips_at inet_ntop ?st ps = ips_at inet_ntop st ps" "owner_at inet_ntop ?st ps = owner_at inet_ntop st ps"
    using at_cong [of ps ?st st inet_ntop] same by blast+
  have ka: "q \<in> set ps \<Longrightarrow> key_at inet_ntop ?st q = key_at inet_ntop st q" for q using assms(2) by (auto simp: key_at_def)
  show ?thesis
    unfolding consolidated_def
  proof (intro conjI allI)
    show "smap_ok cal'" using assms(1) by (simp add: consolidated_def)
    fix k
    have "map_of cal' k = (case map_of cal1 k of Some (p, ips) \<Rightarrow> Some (p, ips @ ips_at inet_ntop st ps k)
        | None \<Rightarrow> map_option (\<lambda>p. (p, ips_at inet_ntop st ps k)) (owner_at inet_ntop st ps k))"
      using assms(1) unfolding consolidated_def at by blast
    then show "map_of cal' k = (case map_of cal k of Some (p', ips) \<Rightarrow> Some (p', ips @ ips_at inet_ntop st (p # ps) k)
        | None \<Rightarrow> map_option (\<lambda>p'. (p', ips_at inet_ntop st (p # ps) k)) (owner_at inet_ntop st (p # ps) k))"
      using assms(4) by (cases "k = key_at inet_ntop st p") (auto simp: assms(3) at_Cons split: option.splits)
  next
    fix q
    have "st' q = (if q \<in> set ps \<and> \<not> (map_of cal1 (key_at inet_ntop ?st q) = None \<and>
          owner_at inet_ntop st ps (key_at inet_ntop ?st q) = Some q) then None else ?st q)"
      using assms(1) unfolding consolidated_def at by blast
    then show "st' q = (if q \<in> set (p # ps) \<and> \<not> (map_of cal (key_at inet_ntop st q) = None \<and>
          owner_at inet_ntop st (p # ps) (key_at inet_ntop st q) = Some q) then None else st q)"
      using assms(2,4) ka [of q] by (auto simp: assms(3) at_Cons)
  qed
qed

lemma consolidate_ok:
  assumes "distinct ps" and "\<forall>p \<in> set ps. \<exists>net. st p = Some net \<and> nw_ips net \<noteq> []" and "smap_ok cal"
  shows "\<exists>st' cal' stats'. consolidate inet_ntop ps st cal stats = Some (st', cal', stats') \<and> consolidated inet_ntop ps st cal st' cal'"
  using assms
proof (induction ps arbitrary: st cal stats)
  case Nil
  then show ?case by (auto simp: consolidated_def ips_at_def owner_at_def split: option.splits)
next
  case (Cons p ps)
  obtain net ip ips where net: "st p = Some net" "nw_ips net = ip # ips" using Cons.prems(2) by (metis list.exhaust list.set_intros(1))
  define key where "key = key_at inet_ntop st p"
  have k: "make_network_key inet_ntop (nw_name net) (nw_prefix net) (nw_prefix_length net) = key"
    by (simp add: key_def key_at_def key_of_def net)
  have pn: "p \<notin> set ps" "distinct ps" using Cons.prems(1) by simp_all
  show ?case
  proof (cases "map_of cal key")
    case None
    define cal1 where "cal1 = smap_put key (p, nw_ips net) (smap_put key (p, []) cal)"
    obtain stats1 where c: "consolidate inet_ntop (p # ps) st cal stats = consolidate inet_ntop ps st cal1 stats1"
      using None net by (simp add: k cal1_def Let_def)
    have "smap_ok cal1" using Cons.prems(3) by (simp add: cal1_def smap_put_ok)
    then obtain st' cal' stats' where r: "consolidate inet_ntop ps st cal1 stats1 = Some (st', cal', stats')"
      "consolidated inet_ntop ps st cal1 st' cal'"
      using Cons.IH [OF pn(2), of st cal1 stats1] Cons.prems(2) by auto
    have "consolidated inet_ntop (p # ps) st cal st' cal'"
      by (rule consolidated_first [OF r(2) pn(1)]) (use None net in \<open>simp_all add: cal1_def key_def\<close>)
    then show ?thesis using c r(1) by auto
  next
    case (Some e)
    obtain q0 ips0 where e: "e = (q0, ips0)" by (cases e)
    define cal1 where "cal1 = smap_put key (q0, ips0 @ nw_ips net) cal"
    have c: "consolidate inet_ntop (p # ps) st cal stats = consolidate inet_ntop ps (st(p := None)) cal1 stats"
      using Some net by (simp add: k cal1_def Let_def e delete_network_def)
    have "smap_ok cal1" using Cons.prems(3) by (simp add: cal1_def smap_put_ok)
    moreover have "\<forall>q \<in> set ps. \<exists>net. (st(p := None)) q = Some net \<and> nw_ips net \<noteq> []" using Cons.prems(2) pn(1) by fastforce
    ultimately obtain st' cal' stats' where r: "consolidate inet_ntop ps (st(p := None)) cal1 stats = Some (st', cal', stats')"
      "consolidated inet_ntop ps (st(p := None)) cal1 st' cal'"
      using Cons.IH [OF pn(2), of "st(p := None)" cal1 stats] by blast
    have "consolidated inet_ntop (p # ps) st cal st' cal'"
      by (rule consolidated_again [OF r(2) pn(1)]) (use Some net in \<open>simp_all add: cal1_def key_def e\<close>)
    then show ?thesis using c r(1) by auto
  qed
qed

section \<open>Merging the entries\<close>

definition same_net :: "network \<Rightarrow> network \<Rightarrow> bool" where
  "same_net a b \<longleftrightarrow> nw_name a = nw_name b \<and> nw_prefix a = nw_prefix b \<and> nw_prefix_length a = nw_prefix_length b \<and>
     nw_key a = nw_key b \<and> nw_active a = nw_active b"

lemma same_net_key: "same_net a b \<Longrightarrow> key_of inet_ntop b = key_of inet_ntop a"
  by (simp add: same_net_def key_of_def)

lemma same_net_trans: "same_net a b \<Longrightarrow> same_net b c \<Longrightarrow> same_net a c"
  by (simp add: same_net_def)

definition target :: "network_manager \<Rightarrow> bstring \<times> address_list \<Rightarrow> nat" where
  "target m e = (case map_of (nm_networks_map m) (fst e) of Some q \<Rightarrow> q | None \<Rightarrow> fst (snd e))"

definition merge_pre :: "ntop \<Rightarrow> (bstring \<times> address_list) list \<Rightarrow> net_store \<Rightarrow> network_manager \<Rightarrow> bool" where
  "merge_pre inet_ntop es st m \<longleftrightarrow> distinct (map fst es) \<and> smap_ok (nm_networks_map m) \<and>
     (\<forall>k p ips. (k, p, ips) \<in> set es \<longrightarrow> (\<exists>net. st p = Some net \<and> key_of inet_ntop net = k) \<and> p \<notin> ran (map_of (nm_networks_map m))) \<and>
     (\<forall>k q. map_of (nm_networks_map m) k = Some q \<longrightarrow> (\<exists>net. st q = Some net \<and> key_of inet_ntop net = k))"

text \<open>The effect of one entry on the store, the map and \<open>changed\<close>.\<close>

definition entry_effect :: "bstring \<times> address_list \<Rightarrow> net_store \<Rightarrow> network_manager \<Rightarrow> bool \<Rightarrow> net_store \<Rightarrow> network_manager \<Rightarrow> bool \<Rightarrow> bool" where
  "entry_effect e st m changed st' m' changed' \<longleftrightarrow>
     (\<exists>net net'. st (target m e) = Some net \<and> same_net net net' \<and> nw_ips net' = snd (snd e) \<and>
        (let st1 = st(target m e \<mapsto> net') in st' = (if fst (snd e) = target m e then st1 else st1(fst (snd e) := None))) \<and>
        nm_networks_map m' = (if map_of (nm_networks_map m) (fst e) = None then smap_put (fst e) (fst (snd e)) (nm_networks_map m) else nm_networks_map m) \<and>
        m' = m\<lparr>nm_networks_map := nm_networks_map m', nm_next_available_network_id := nm_next_available_network_id m'\<rparr> \<and>
        (\<not> changed' \<longrightarrow> \<not> changed \<and> map_of (nm_networks_map m) (fst e) \<noteq> None \<and> nw_active net \<and> \<not> fst (set_IPs net (snd (snd e)) False)))"

lemma merge_entry_ok:
  assumes "merge_pre inet_ntop (e # es) st m"
  shows "\<exists>st' m' changed'. merge_entry e (st, m, merged, changed) = Some (st', m', merged @ [target m e], changed') \<and>
    entry_effect e st m changed st' m' changed'"
proof -
  obtain k p ips where e: "e = (k, p, ips)" by (cases e)
  have "(k, p, ips) \<in> set (e # es)" by (simp add: e)
  then obtain net where net: "st p = Some net" "key_of inet_ntop net = k" "p \<notin> ran (map_of (nm_networks_map m))"
    using assms unfolding merge_pre_def by blast
  show ?thesis
  proof (cases "map_of (nm_networks_map m) k")
    case None
    let ?new = "net\<lparr>nw_id := nm_next_available_network_id m, nw_ips := ips\<rparr>"
    let ?m = "m\<lparr>nm_networks_map := smap_put k p (nm_networks_map m), nm_next_available_network_id := nm_next_available_network_id m + 1\<rparr>"
    have m: "merge_entry e (st, m, merged, changed) = Some (st(p \<mapsto> ?new), ?m, merged @ [p], True)"
      using None net(1) by (simp add: e merge_entry_def update_network_def set_id_def set_IPs_def Let_def)
    show ?thesis
      unfolding m entry_effect_def
      by (rule exI [of _ "st(p \<mapsto> ?new)"], rule exI [of _ ?m], rule exI [of _ True])
        (use None net in \<open>auto simp: e target_def same_net_def intro!: exI [of _ ?new]\<close>)
  next
    case (Some q)
    obtain old where old: "st q = Some old" using assms Some unfolding merge_pre_def by blast
    have qp: "q \<noteq> p" using Some net(3) by (auto simp: ran_def)
    let ?new = "snd (set_IPs old ips (fst (set_IPs old ips changed)))"
    have new: "same_net old ?new" "nw_ips ?new = ips" "nw_type ?new = nw_type old" "nw_active ?new = nw_active old"
      by (simp_all add: set_IPs_def Let_def same_net_def)
    have ch: "\<not> fst (set_IPs old ips changed) \<Longrightarrow> \<not> changed \<and> \<not> fst (set_IPs old ips False)"
      by (auto simp: set_IPs_def Let_def split: if_splits)
    let ?retype = "nw_type net \<noteq> ADAPTER_TYPE_UNKNOWN \<and> nw_type net \<noteq> nw_type old"
    let ?new2 = "if ?retype then set_type ?new (nw_type net) else ?new"
    have new2: "same_net old ?new2" "nw_ips ?new2 = ips" using new by (auto simp: set_type_def same_net_def)
    have m: "merge_entry e (st, m, merged, changed) = Some ((st(q \<mapsto> ?new2))(p := None), m, merged @ [q],
        fst (set_IPs old ips changed) \<or> ?retype \<or> \<not> nw_active old)"
      using Some old net(1) qp new(3,4) by (simp add: e merge_entry_def update_network_def delete_network_def Let_def)
    show ?thesis
      unfolding m entry_effect_def
      by (rule exI [of _ "(st(q \<mapsto> ?new2))(p := None)"], rule exI [of _ m],
          rule exI [of _ "fst (set_IPs old ips changed) \<or> ?retype \<or> \<not> nw_active old"])
        (use Some old new2 qp ch in \<open>auto simp: e target_def Let_def intro!: exI [of _ ?new2]\<close>)
  qed
qed

text \<open>Owners and targets of the entries are told apart by their keys.\<close>

lemma merge_preD:
  assumes "merge_pre inet_ntop es st m" and "e \<in> set es"
  shows "\<exists>net. st (fst (snd e)) = Some net \<and> key_of inet_ntop net = fst e" "fst (snd e) \<notin> ran (map_of (nm_networks_map m))"
    and "\<exists>net. st (target m e) = Some net \<and> key_of inet_ntop net = fst e"
proof -
  obtain k p ips where e: "e = (k, p, ips)" by (cases e)
  show 1: "\<exists>net. st (fst (snd e)) = Some net \<and> key_of inet_ntop net = fst e" "fst (snd e) \<notin> ran (map_of (nm_networks_map m))"
    using assms unfolding merge_pre_def e fst_conv snd_conv by blast+
  have "\<And>q. map_of (nm_networks_map m) (fst e) = Some q \<Longrightarrow> \<exists>net. st q = Some net \<and> key_of inet_ntop net = fst e"
    using assms(1) unfolding merge_pre_def by blast
  then show "\<exists>net. st (target m e) = Some net \<and> key_of inet_ntop net = fst e"
    using 1(1) by (auto simp: target_def split: option.splits)
qed

lemma merge_pre_apart:
  assumes "merge_pre inet_ntop (e # es) st m" and "e' \<in> set es"
  shows "fst e' \<noteq> fst e" "fst (snd e') \<noteq> target m e" "fst (snd e') \<noteq> fst (snd e)" "target m e' \<noteq> target m e" "target m e' \<noteq> fst (snd e)"
proof -
  show k: "fst e' \<noteq> fst e" using assms unfolding merge_pre_def by (metis distinct.simps(2) image_eqI list.set_map list.simps(9))
  have e: "e \<in> set (e # es)" and e': "e' \<in> set (e # es)" using assms(2) by simp_all
  note a = merge_preD [OF assms(1) e] and b = merge_preD [OF assms(1) e']
  show "fst (snd e') \<noteq> target m e" "fst (snd e') \<noteq> fst (snd e)" "target m e' \<noteq> target m e" "target m e' \<noteq> fst (snd e)"
    using a b k by (metis option.inject)+
qed

lemma merge_pre_step:
  assumes pre: "merge_pre inet_ntop (e # es) st m" and eff: "entry_effect e st m changed st1 m1 changed1"
  shows "merge_pre inet_ntop es st1 m1"
    and "e' \<in> set es \<Longrightarrow> target m1 e' = target m e'"
    and "st1 (target m e) = Some net1 \<Longrightarrow> \<exists>net. st (target m e) = Some net \<and> same_net net net1 \<and> nw_ips net1 = snd (snd e)"
    and "q \<noteq> target m e \<Longrightarrow> q \<noteq> fst (snd e) \<Longrightarrow> st1 q = st q"
    and "fst (snd e) \<noteq> target m e \<Longrightarrow> st1 (fst (snd e)) = None"
    and "st1 (target m e) \<noteq> None"
    and "map_of (nm_networks_map m1) = (if map_of (nm_networks_map m) (fst e) = None then (map_of (nm_networks_map m))(fst e \<mapsto> fst (snd e)) else map_of (nm_networks_map m))"
proof -
  obtain net net' where eff': "st (target m e) = Some net" "same_net net net'" "nw_ips net' = snd (snd e)"
    "st1 = (if fst (snd e) = target m e then st(target m e \<mapsto> net') else (st(target m e \<mapsto> net'))(fst (snd e) := None))"
    "nm_networks_map m1 = (if map_of (nm_networks_map m) (fst e) = None then smap_put (fst e) (fst (snd e)) (nm_networks_map m) else nm_networks_map m)"
    using eff unfolding entry_effect_def Let_def by blast
  show st1: "q \<noteq> target m e \<Longrightarrow> q \<noteq> fst (snd e) \<Longrightarrow> st1 q = st q" for q by (simp add: eff'(4))
  show "fst (snd e) \<noteq> target m e \<Longrightarrow> st1 (fst (snd e)) = None" by (simp add: eff'(4))
  have t: "st1 (target m e) = Some net'" by (simp add: eff'(4))
  then show "st1 (target m e) \<noteq> None" by simp
  show "st1 (target m e) = Some net1 \<Longrightarrow> \<exists>net. st (target m e) = Some net \<and> same_net net net1 \<and> nw_ips net1 = snd (snd e)"
    using t eff'(1-3) by auto
  show mp: "map_of (nm_networks_map m1) = (if map_of (nm_networks_map m) (fst e) = None then (map_of (nm_networks_map m))(fst e \<mapsto> fst (snd e)) else map_of (nm_networks_map m))"
    by (simp add: eff'(5))
  show "e' \<in> set es \<Longrightarrow> target m1 e' = target m e'"
    using merge_pre_apart(1) [OF pre] mp by (auto simp: target_def)
  have ke: "key_of inet_ntop net = fst e" using merge_preD(3) [OF pre, of e] eff'(1) by auto
  show "merge_pre inet_ntop es st1 m1"
    unfolding merge_pre_def
  proof (intro conjI allI impI)
    show "distinct (map fst es)" "smap_ok (nm_networks_map m1)" using pre by (simp_all add: merge_pre_def eff'(5) smap_put_ok)
  next
    fix k p ips assume in_es: "(k, p, ips) \<in> set es"
    note ap = merge_pre_apart [OF pre in_es]
    from in_es have in_e: "(k, p, ips) \<in> set (e # es)" by simp
    note d = merge_preD [OF pre in_e]
    show "\<exists>net. st1 p = Some net \<and> key_of inet_ntop net = k" using d(1) st1 [of p] ap by simp
    show "p \<notin> ran (map_of (nm_networks_map m1))" using d(2) ap(3) unfolding mp by (auto simp: ran_def)
  next
    fix k q assume kq: "map_of (nm_networks_map m1) k = Some q"
    show "\<exists>net. st1 q = Some net \<and> key_of inet_ntop net = k"
    proof (cases "k = fst e")
      case True
      then have "q = target m e" using kq mp by (auto simp: target_def split: if_splits)
      then show ?thesis using t ke eff'(2) True by (simp add: same_net_key)
    next
      case False
      then have m: "map_of (nm_networks_map m) k = Some q" using kq mp by (auto split: if_splits)
      then obtain n where n: "st q = Some n" "key_of inet_ntop n = k" using pre unfolding merge_pre_def by blast
      have "q \<noteq> target m e" using n ke eff'(1) False by auto
      moreover have "q \<noteq> fst (snd e)" using merge_preD(2) [OF pre, of e] m by (auto simp: ran_def)
      ultimately show ?thesis using st1 n by simp
    qed
  qed
qed

definition entries_effect :: "(bstring \<times> address_list) list \<Rightarrow> net_store \<Rightarrow> network_manager \<Rightarrow> bool \<Rightarrow> net_store \<Rightarrow> network_manager \<Rightarrow> bool \<Rightarrow> bool" where
  "entries_effect es st m changed st' m' changed' \<longleftrightarrow>
     smap_ok (nm_networks_map m') \<and>
     (\<forall>k. map_of (nm_networks_map m') k =
       (case map_of (nm_networks_map m) k of Some q \<Rightarrow> Some q | None \<Rightarrow> map_option fst (map_of es k))) \<and>
     m' = m\<lparr>nm_networks_map := nm_networks_map m', nm_next_available_network_id := nm_next_available_network_id m'\<rparr> \<and>
     (\<forall>e \<in> set es. \<exists>net net'. st (target m e) = Some net \<and> st' (target m e) = Some net' \<and> same_net net net' \<and> nw_ips net' = snd (snd e)) \<and>
     (\<forall>e \<in> set es. fst (snd e) \<noteq> target m e \<longrightarrow> st' (fst (snd e)) = None) \<and>
     (\<forall>q. q \<notin> target m ` set es \<and> q \<notin> (\<lambda>e. fst (snd e)) ` set es \<longrightarrow> st' q = st q) \<and>
     (\<not> changed' \<longrightarrow> \<not> changed \<and> (\<forall>e \<in> set es. map_of (nm_networks_map m) (fst e) \<noteq> None \<and>
       (\<exists>net. st (target m e) = Some net \<and> nw_active net \<and> \<not> fst (set_IPs net (snd (snd e)) False))))"

lemma entries_effect_Cons:
  assumes pre: "merge_pre inet_ntop (e # es) st m" and eff: "entry_effect e st m changed st1 m1 changed1"
    and rest: "entries_effect es st1 m1 changed1 st' m' changed'"
  shows "entries_effect (e # es) st m changed st' m' changed'"
proof -
  note step = merge_pre_step [OF pre eff] and ap = merge_pre_apart [OF pre]
  have old: "st1 (target m e') = st (target m e')" if "e' \<in> set es" for e' using step(4) ap [OF that] by blast
  have tgt: "target m1 ` set es = target m ` set es" using step(2) by (intro image_cong) auto
  have untouched: "q \<notin> target m ` set es \<Longrightarrow> q \<notin> (\<lambda>e. fst (snd e)) ` set es \<Longrightarrow> st' q = st1 q" for q
    using rest unfolding entries_effect_def tgt by blast
  have ni: "target m e \<notin> target m ` set es" "fst (snd e) \<notin> target m ` set es"
    "target m e \<notin> (\<lambda>e. fst (snd e)) ` set es" "fst (snd e) \<notin> (\<lambda>e. fst (snd e)) ` set es"
    by (rule notI, erule imageE, use ap(4) in metis) (rule notI, erule imageE, use ap(5) in metis,
      rule notI, erule imageE, use ap(2) in metis, rule notI, erule imageE, use ap(3) in metis)
  have keep: "st' (target m e) = st1 (target m e)" "st' (fst (snd e)) = st1 (fst (snd e))"
    using untouched ni by blast+
  obtain net1 where n1: "st1 (target m e) = Some net1" using step(6) by blast
  show ?thesis
    unfolding entries_effect_def
  proof (intro conjI allI ballI impI)
    show "smap_ok (nm_networks_map m')" using rest by (simp add: entries_effect_def)
  next
    fix k
    have k: "map_of (nm_networks_map m') k = (case map_of (nm_networks_map m1) k of Some q \<Rightarrow> Some q | None \<Rightarrow> map_option fst (map_of es k))"
      using rest by (simp add: entries_effect_def)
    then show "map_of (nm_networks_map m') k = (case map_of (nm_networks_map m) k of Some q \<Rightarrow> Some q | None \<Rightarrow> map_option fst (map_of (e # es) k))"
      unfolding step(7) by (cases e) (auto split: option.splits)
  next
    show "m' = m\<lparr>nm_networks_map := nm_networks_map m', nm_next_available_network_id := nm_next_available_network_id m'\<rparr>"
    proof -
      have "m' = m1\<lparr>nm_networks_map := nm_networks_map m', nm_next_available_network_id := nm_next_available_network_id m'\<rparr>"
        using rest unfolding entries_effect_def by blast
      moreover have "m1 = m\<lparr>nm_networks_map := nm_networks_map m1, nm_next_available_network_id := nm_next_available_network_id m1\<rparr>"
        using eff unfolding entry_effect_def by blast
      ultimately show ?thesis by (cases m, cases m1, cases m') simp
    qed
  next
    fix e' assume e': "e' \<in> set (e # es)"
    show "\<exists>net net'. st (target m e') = Some net \<and> st' (target m e') = Some net' \<and> same_net net net' \<and> nw_ips net' = snd (snd e')"
    proof (cases "e' = e")
      case True
      then show ?thesis using step(3) [OF n1] keep(1) n1 by simp
    next
      case False
      then have "e' \<in> set es" using e' by simp
      then show ?thesis using rest old [of e'] step(2) [of e'] unfolding entries_effect_def by metis
    qed
    assume d: "fst (snd e') \<noteq> target m e'"
    show "st' (fst (snd e')) = None"
    proof (cases "e' = e")
      case True
      then show ?thesis using step(5) keep(2) d by simp
    next
      case False
      then have "e' \<in> set es" using e' by simp
      then show ?thesis using rest step(2) [of e'] d unfolding entries_effect_def by metis
    qed
  next
    fix q assume q: "q \<notin> target m ` set (e # es) \<and> q \<notin> (\<lambda>e. fst (snd e)) ` set (e # es)"
    then have "st' q = st1 q" using rest unfolding entries_effect_def tgt by simp
    then show "st' q = st q" using step(4) q by simp
  next
    assume "\<not> changed'"
    then have r: "\<not> changed1" "\<forall>e \<in> set es. map_of (nm_networks_map m1) (fst e) \<noteq> None \<and>
        (\<exists>net. st1 (target m1 e) = Some net \<and> nw_active net \<and> \<not> fst (set_IPs net (snd (snd e)) False))"
      using rest unfolding entries_effect_def by blast+
    then have f: "\<not> changed" "map_of (nm_networks_map m) (fst e) \<noteq> None"
      "\<exists>net. st (target m e) = Some net \<and> nw_active net \<and> \<not> fst (set_IPs net (snd (snd e)) False)"
      using eff unfolding entry_effect_def by auto
    show "\<not> changed" by (rule f)
    fix e' assume e': "e' \<in> set (e # es)"
    have "map_of (nm_networks_map m1) = map_of (nm_networks_map m)" using f(2) step(7) by auto
    then show "map_of (nm_networks_map m) (fst e') \<noteq> None" using e' f(2) r(2) by (metis set_ConsD)
    show "\<exists>net. st (target m e') = Some net \<and> nw_active net \<and> \<not> fst (set_IPs net (snd (snd e')) False)"
      using e' f(3) r(2) old [of e'] step(2) [of e'] by (metis set_ConsD)
  qed
qed

lemma merge_entries_ok:
  assumes "merge_pre inet_ntop es st m"
  shows "\<exists>st' m' changed'. merge_entries es (st, m, merged, changed) = Some (st', m', merged @ map (target m) es, changed') \<and>
    entries_effect es st m changed st' m' changed'"
  using assms
proof (induction es arbitrary: st m merged changed)
  case Nil
  then show ?case by (auto simp: entries_effect_def merge_pre_def split: option.splits)
next
  case (Cons e es)
  obtain st1 m1 changed1 where 1: "merge_entry e (st, m, merged, changed) = Some (st1, m1, merged @ [target m e], changed1)"
    "entry_effect e st m changed st1 m1 changed1" using merge_entry_ok [OF Cons.prems] by blast
  note step = merge_pre_step [OF Cons.prems 1(2)]
  obtain st' m' changed' where 2: "merge_entries es (st1, m1, merged @ [target m e], changed1) =
      Some (st', m', (merged @ [target m e]) @ map (target m1) es, changed')" "entries_effect es st1 m1 changed1 st' m' changed'"
    using Cons.IH [OF step(1)] by blast
  have "map (target m1) es = map (target m) es" using step(2) by simp
  then show ?case using 1(1) 2(1) entries_effect_Cons [OF Cons.prems 1(2) 2(2)] by auto
qed

section \<open>Active states, order and preferences\<close>

lemma set_active_states_ok:
  assumes "\<forall>p \<in> snd ` set kvs. st p \<noteq> None"
  shows "\<exists>st'. set_active_states networks kvs st = Some st' \<and>
    (\<forall>q. st' q = (if q \<in> snd ` set kvs then map_option (\<lambda>net. set_active net (q \<in> set networks)) (st q) else st q))"
  using assms
proof (induction kvs arbitrary: st)
  case (Cons kv kvs)
  obtain k p where kv: "kv = (k, p)" by (cases kv)
  obtain net where net: "st p = Some net" using Cons.prems kv by auto
  let ?st = "st(p \<mapsto> set_active net (p \<in> set networks))"
  have "\<forall>q \<in> snd ` set kvs. ?st q \<noteq> None" using Cons.prems by auto
  from Cons.IH [OF this] obtain st' where st': "set_active_states networks kvs ?st = Some st'"
    "\<forall>q. st' q = (if q \<in> snd ` set kvs then map_option (\<lambda>net. set_active net (q \<in> set networks)) (?st q) else ?st q)" by blast
  have "set_active (set_active net b) b = set_active net b" for b by (simp add: set_active_def)
  then show ?case using st' net by (auto simp: kv update_network_def)
qed simp

lemma set_preferences_ok:
  assumes "\<forall>p \<in> set ps. st p \<noteq> None" and "distinct ps" and "0 \<le> pref"
  shows "\<exists>st'. set_preferences pref ps st = Some st' \<and> (\<forall>q. \<exists>v. st' q = map_option (\<lambda>net. set_preference net v) (st q)) \<and>
    (\<forall>q. q \<notin> set ps \<longrightarrow> st' q = st q) \<and>
    (\<forall>i < length ps. int i \<le> pref \<longrightarrow> st' (ps ! i) = map_option (\<lambda>net. set_preference net (pref - int i)) (st (ps ! i)))"
  using assms
proof (induction ps arbitrary: st pref)
  case Nil
  have "\<exists>v. st q = map_option (\<lambda>net. set_preference net v) (st q)" for q
    by (cases "st q") (auto simp: set_preference_def intro: exI [of _ "nw_preference (the (st q))"])
  then show ?case by simp
next
  case (Cons p ps)
  obtain net where net: "st p = Some net" using Cons.prems(1) by auto
  have pn: "p \<notin> set ps" "distinct ps" using Cons.prems(2) by simp_all
  let ?st = "st(p \<mapsto> set_preference net pref)"
  have same: "\<exists>v. st q = map_option (\<lambda>net. set_preference net v) (st q)" for q
    by (cases "st q") (auto simp: set_preference_def intro: exI [of _ "nw_preference (the (st q))"])
  show ?case
  proof (cases "pref > 0")
    case False
    then have "set_preferences pref (p # ps) st = Some ?st" using net by (simp add: update_network_def)
    moreover have "\<exists>v. ?st q = map_option (\<lambda>net. set_preference net v) (st q)" for q using same net by (cases "q = p") auto
    moreover have "pref = 0" using False Cons.prems(3) by simp
    ultimately show ?thesis using net by (intro exI [of _ ?st]) auto
  next
    case True
    have "\<forall>q \<in> set ps. ?st q \<noteq> None" using Cons.prems(1) by simp
    moreover have "0 \<le> pref - 1" using True by simp
    ultimately obtain st' where st': "set_preferences (pref - 1) ps ?st = Some st'"
      "\<forall>q. \<exists>v. st' q = map_option (\<lambda>net. set_preference net v) (?st q)" "\<forall>q. q \<notin> set ps \<longrightarrow> st' q = ?st q"
      "\<forall>i < length ps. int i \<le> pref - 1 \<longrightarrow> st' (ps ! i) = map_option (\<lambda>net. set_preference net (pref - 1 - int i)) (?st (ps ! i))"
      using Cons.IH [OF _ pn(2)] by blast
    have 1: "set_preferences pref (p # ps) st = Some st'" using net True st'(1) by (simp add: update_network_def)
    have 2: "\<exists>v. st' q = map_option (\<lambda>net. set_preference net v) (st q)" for q
      using st'(2,3) net pn(1) by (cases "q = p") (metis fun_upd_same option.simps(9), metis fun_upd_other)
    have 3: "st' ((p # ps) ! i) = map_option (\<lambda>net. set_preference net (pref - int i)) (st ((p # ps) ! i))"
      if "i < length (p # ps)" "int i \<le> pref" for i
    proof (cases i)
      case 0
      then show ?thesis using st'(3) pn(1) net by simp
    next
      case (Suc j)
      then have "st' (ps ! j) = map_option (\<lambda>net. set_preference net (pref - 1 - int j)) (?st (ps ! j))" using st'(4) that by auto
      moreover have "ps ! j \<noteq> p" using pn(1) that Suc by (auto dest: nth_mem)
      ultimately show ?thesis using Suc by (simp add: algebra_simps)
    qed
    show ?thesis using 1 2 3 st'(3) pn(1) by (intro exI [of _ st']) auto
  qed
qed

lemma strict_weak_pullback: "strict_weak cmp UNIV \<Longrightarrow> strict_weak (\<lambda>p q. cmp (f p) (f q)) A"
  unfolding strict_weak_def by blast

lemma adapter_value_inj: "adapter_value a = adapter_value b \<longleftrightarrow> a = b"
  by (cases a; cases b) simp_all

lemma sort_networks_strict_weak: "strict_weak (sort_networks he) UNIV"
proof -
  define t where "t n = adapter_value (nw_type n)" for n :: network
  define c where "c n = IP_address_precedence he (get_best_IP n)" for n :: network
  have s: "sort_networks he a b \<longleftrightarrow> t a < t b \<or> t a = t b \<and> (c a > c b \<or> c a = c b \<and> str_less (nw_key b) (nw_key a))" for a b
    by (auto simp: sort_networks_def t_def c_def Let_def adapter_value_inj [symmetric])
  have i: "\<not> sort_networks he a b \<Longrightarrow> \<not> sort_networks he b a \<Longrightarrow> t a = t b \<and> c a = c b \<and> nw_key a = nw_key b" for a b
    unfolding s using str_less_total [of "nw_key a" "nw_key b"] by auto
  show ?thesis
    unfolding strict_weak_def
  proof (intro conjI ballI impI)
    show "\<not> sort_networks he x x" for x unfolding s by (simp add: str_less_irrefl)
    show "sort_networks he x z" if "sort_networks he x y" "sort_networks he y z" for x y z
      using that str_less_trans [of "nw_key z" "nw_key y" "nw_key x"] unfolding s by auto
    fix x y z assume a: "\<not> sort_networks he x y" "\<not> sort_networks he y x" "\<not> sort_networks he y z" "\<not> sort_networks he z y"
    have "t x = t z \<and> c x = c z \<and> nw_key x = nw_key z" using i [OF a(1,2)] i [OF a(3,4)] by simp
    then show "\<not> sort_networks he x z" "\<not> sort_networks he z x" unfolding s by (simp_all add: str_less_irrefl)
  qed
qed

section \<open>The merge as a whole\<close>

definition nm_inv :: "ntop \<Rightarrow> net_store \<Rightarrow> network_manager \<Rightarrow> bool" where
  "nm_inv inet_ntop st m \<longleftrightarrow> smap_ok (nm_networks_map m) \<and>
     (\<forall>k p. map_of (nm_networks_map m) k = Some p \<longrightarrow> (\<exists>net. st p = Some net \<and> nw_key net = k \<and> key_of inet_ntop net = k \<and>
        (nw_active net \<longleftrightarrow> p \<in> set (nm_networks m)))) \<and>
     distinct (nm_networks m) \<and> set (nm_networks m) \<subseteq> ran (map_of (nm_networks_map m))"

lemma nm_inv_object:
  assumes "nm_inv inet_ntop st m" and "map_of (nm_networks_map m) k = Some p"
  obtains net where "st p = Some net" "nw_key net = k" "key_of inet_ntop net = k" "nw_active net \<longleftrightarrow> p \<in> set (nm_networks m)"
  using assms unfolding nm_inv_def by blast

text \<open>What \<open>merge_network_list\<close> expects of the list it gets: new objects with at least one address.\<close>

definition fresh_networks :: "ntop \<Rightarrow> net_store \<Rightarrow> network_manager \<Rightarrow> nat list \<Rightarrow> bool" where
  "fresh_networks inet_ntop st m ps \<longleftrightarrow> distinct ps \<and> set ps \<inter> ran (map_of (nm_networks_map m)) = {} \<and>
     (\<forall>p \<in> set ps. \<exists>net. st p = Some net \<and> nw_key net = key_of inet_ntop net \<and> nw_ips net \<noteq> [])"

lemma mset_concat_cong: "mset xss = mset yss \<Longrightarrow> mset (concat xss) = mset (concat yss)"
  by (simp only: mset_concat sum_mset_sum_list [symmetric] mset_map)

lemma mset_ips_at: "mset ps = mset qs \<Longrightarrow> mset (ips_at inet_ntop st ps k) = mset (ips_at inet_ntop st qs k)"
  unfolding ips_at_def by (rule mset_concat_cong) (simp only: mset_map mset_filter)

lemma merge_prepare:
  assumes inv: "nm_inv inet_ntop st m" and fr: "fresh_networks inet_ntop st m L"
  shows "\<exists>st1 cal stats'. consolidate inet_ntop L st [] stats = Some (st1, cal, stats') \<and> merge_pre inet_ntop cal st1 m \<and>
    (\<forall>k. map_of cal k = map_option (\<lambda>p. (p, ips_at inet_ntop st L k)) (owner_at inet_ntop st L k)) \<and>
    (\<forall>q. st1 q = (if q \<in> set L \<and> owner_at inet_ntop st L (key_at inet_ntop st q) \<noteq> Some q then None else st q))"
proof -
  have live: "distinct L" "\<forall>p \<in> set L. \<exists>net. st p = Some net \<and> nw_ips net \<noteq> []" using fr unfolding fresh_networks_def by blast+
  obtain st1 cal stats' where c: "consolidate inet_ntop L st [] stats = Some (st1, cal, stats')" "consolidated inet_ntop L st [] st1 cal"
    using consolidate_ok [of L st "[]" inet_ntop stats] live by (auto simp: smap_ok_def)
  have ok: "smap_ok cal" and m: "\<forall>k. map_of cal k = map_option (\<lambda>p. (p, ips_at inet_ntop st L k)) (owner_at inet_ntop st L k)"
    and s: "\<forall>q. st1 q = (if q \<in> set L \<and> owner_at inet_ntop st L (key_at inet_ntop st q) \<noteq> Some q then None else st q)"
    using c(2) by (simp_all add: consolidated_def)
  have "merge_pre inet_ntop cal st1 m"
    unfolding merge_pre_def
  proof (intro conjI allI impI)
    show "distinct (map fst cal)" using smap_distinct [OF ok] .
    show "smap_ok (nm_networks_map m)" using inv by (simp add: nm_inv_def)
  next
    fix k p ips assume "(k, p, ips) \<in> set cal"
    then have "owner_at inet_ntop st L k = Some p" using m smap_map_of [OF ok, of k "(p, ips)"] by auto
    moreover from this have "p \<in> set L" "key_at inet_ntop st p = k" by (auto dest: owner_at_in)
    moreover from this obtain net where "st p = Some net" using fr unfolding fresh_networks_def by blast
    ultimately show "\<exists>net. st1 p = Some net \<and> key_of inet_ntop net = k" using s by (simp add: key_at_def)
    show "p \<notin> ran (map_of (nm_networks_map m))" using \<open>p \<in> set L\<close> fr unfolding fresh_networks_def by blast
  next
    fix k q assume k: "map_of (nm_networks_map m) k = Some q"
    then have "q \<notin> set L" using fr ranI [of "map_of (nm_networks_map m)" k q, OF k] unfolding fresh_networks_def by blast
    moreover obtain net where "st q = Some net" "key_of inet_ntop net = k" by (rule nm_inv_object [OF inv k])
    ultimately show "\<exists>net. st1 q = Some net \<and> key_of inet_ntop net = k" using s by simp
  qed
  then show ?thesis using c(1) m s by blast
qed

text \<open>After the entries: keys, targets and who is left in the store.\<close>

definition merged_state :: "ntop \<Rightarrow> nat list \<Rightarrow> net_store \<Rightarrow> network_manager \<Rightarrow> nat list \<Rightarrow> net_store \<Rightarrow> network_manager \<Rightarrow> bool" where
  "merged_state inet_ntop L st m merged st2 m2 \<longleftrightarrow>
     smap_ok (nm_networks_map m2) \<and> map_of (nm_networks_map m) \<subseteq>\<^sub>m map_of (nm_networks_map m2) \<and>
     dom (map_of (nm_networks_map m2)) = dom (map_of (nm_networks_map m)) \<union> key_at inet_ntop st ` set L \<and>
     ran (map_of (nm_networks_map m2)) \<subseteq> ran (map_of (nm_networks_map m)) \<union> set L \<and>
     m2 = m\<lparr>nm_networks_map := nm_networks_map m2, nm_next_available_network_id := nm_next_available_network_id m2\<rparr> \<and> distinct merged \<and>
     (\<forall>p. p \<in> set merged \<longleftrightarrow> (\<exists>k \<in> key_at inet_ntop st ` set L. map_of (nm_networks_map m2) k = Some p)) \<and>
     (\<forall>k p. map_of (nm_networks_map m2) k = Some p \<longrightarrow> (\<exists>net. st2 p = Some net \<and> nw_key net = k \<and> key_of inet_ntop net = k \<and>
        (k \<in> key_at inet_ntop st ` set L \<longrightarrow> nw_ips net = ips_at inet_ntop st L k) \<and>
        (map_of (nm_networks_map m) k \<noteq> None \<longrightarrow> (\<exists>old. st p = Some old \<and> nw_active net = nw_active old)))) \<and>
     (\<forall>p \<in> set L. st2 p \<noteq> None \<longleftrightarrow> p \<in> ran (map_of (nm_networks_map m2))) \<and>
     (\<forall>q. q \<notin> set L \<and> q \<notin> ran (map_of (nm_networks_map m)) \<longrightarrow> st2 q = st q)"

lemma merged_stateI:
  assumes inv: "nm_inv inet_ntop st m" and fr: "fresh_networks inet_ntop st m L" and pre: "merge_pre inet_ntop cal st1 m"
    and cal: "\<forall>k. map_of cal k = map_option (\<lambda>p. (p, ips_at inet_ntop st L k)) (owner_at inet_ntop st L k)"
    and st1: "\<forall>q. st1 q = (if q \<in> set L \<and> owner_at inet_ntop st L (key_at inet_ntop st q) \<noteq> Some q then None else st q)"
    and eff: "entries_effect cal st1 m changed st2 m2 changed'"
  shows "merged_state inet_ntop L st m (map (target m) cal) st2 m2"
proof -
  let ?keys = "key_at inet_ntop st ` set L" and ?map = "map_of (nm_networks_map m)" and ?map2 = "map_of (nm_networks_map m2)"
  have A: "\<And>k. ?map2 k = (case ?map k of Some q \<Rightarrow> Some q | None \<Rightarrow> map_option fst (map_of cal k))"
    and m2: "m2 = m\<lparr>nm_networks_map := nm_networks_map m2, nm_next_available_network_id := nm_next_available_network_id m2\<rparr>"
    and C: "\<And>e. e \<in> set cal \<Longrightarrow> \<exists>net net'. st1 (target m e) = Some net \<and> st2 (target m e) = Some net' \<and> same_net net net' \<and> nw_ips net' = snd (snd e)"
    and D: "\<And>e. e \<in> set cal \<Longrightarrow> fst (snd e) \<noteq> target m e \<Longrightarrow> st2 (fst (snd e)) = None"
    and E: "\<And>q. q \<notin> target m ` set cal \<Longrightarrow> q \<notin> (\<lambda>e. fst (snd e)) ` set cal \<Longrightarrow> st2 q = st1 q"
    and ok2: "smap_ok (nm_networks_map m2)"
    using eff unfolding entries_effect_def by blast+
  have dk: "distinct (map fst cal)" using pre by (simp add: merge_pre_def)
  have in_cal: "e \<in> set cal \<longleftrightarrow> owner_at inet_ntop st L (fst e) = Some (fst (snd e)) \<and> snd (snd e) = ips_at inet_ntop st L (fst e)" for e
    using map_of_eq_Some_iff [OF dk, of "fst e" "snd e"] cal by (cases e) auto
  have keys: "k \<in> ?keys \<longleftrightarrow> (\<exists>p. owner_at inet_ntop st L k = Some p)" for k
    using owner_at_None [of inet_ntop st L k] by auto
  have dom_cal: "(\<exists>e \<in> set cal. fst e = k) \<longleftrightarrow> k \<in> ?keys" for k
    unfolding keys in_cal Bex_def by (metis fst_conv snd_conv)
  have tgt: "?map2 (fst e) = Some (target m e)" if "e \<in> set cal" for e
    using A [of "fst e"] cal that in_cal [of e] by (simp add: target_def split: option.splits)
  have tkey: "\<exists>net. st1 (target m e) = Some net \<and> key_of inet_ntop net = fst e" if "e \<in> set cal" for e by (rule merge_preD(3) [OF pre that])
  have okey: "\<exists>net. st1 (fst (snd e)) = Some net \<and> key_of inet_ntop net = fst e" if "e \<in> set cal" for e by (rule merge_preD(1) [OF pre that])
  have st1_same: "st1 q = Some net \<Longrightarrow> st q = Some net" for q net using st1 by (auto split: if_splits)
  have obj: "\<exists>net. st2 p = Some net \<and> nw_key net = k \<and> key_of inet_ntop net = k \<and>
      (k \<in> ?keys \<longrightarrow> nw_ips net = ips_at inet_ntop st L k) \<and> (?map k \<noteq> None \<longrightarrow> (\<exists>old. st p = Some old \<and> nw_active net = nw_active old))"
    if kp: "?map2 k = Some p" for k p
  proof (cases "k \<in> ?keys")
    case True
    then obtain e where e: "e \<in> set cal" "fst e = k" using dom_cal by blast
    have p: "p = target m e" using tgt [OF e(1)] kp e(2) by simp
    obtain net net' where n: "st1 p = Some net" "st2 p = Some net'" "same_net net net'" "nw_ips net' = snd (snd e)" using C [OF e(1)] p by blast
    have k: "key_of inet_ntop net = k" using tkey [OF e(1)] n(1) p e(2) by auto
    have "nw_key net = key_of inet_ntop net"
    proof (cases "?map k")
      case None
      then have "p = fst (snd e)" using p e(2) by (simp add: target_def)
      then have "p \<in> set L" using e(1) in_cal [of e] owner_at_in by metis
      then show ?thesis using fr st1_same [OF n(1)] unfolding fresh_networks_def by auto
    next
      case (Some q)
      then have "q = p" using p e(2) by (simp add: target_def)
      moreover obtain o' where "st q = Some o'" "nw_key o' = k" "key_of inet_ntop o' = k" by (rule nm_inv_object [OF inv Some])
      ultimately show ?thesis using st1_same [OF n(1)] by simp
    qed
    then show ?thesis using n k st1_same [OF n(1)] e in_cal [of e] same_net_key [OF n(3), of inet_ntop] by (auto simp: same_net_def)
  next
    case False
    then have "map_of cal k = None" using cal keys [of k] by auto
    then have m: "?map k = Some p" using A [of k] kp by (simp split: option.splits)
    obtain net where net: "st p = Some net" "nw_key net = k" "key_of inet_ntop net = k" by (rule nm_inv_object [OF inv m])
    have pL: "p \<notin> set L" using fr ranI [of ?map k p, OF m] unfolding fresh_networks_def by blast
    have s1: "st1 p = Some net" using st1 pL net by simp
    have no_key: "fst e \<noteq> k" if "e \<in> set cal" for e using that dom_cal False by blast
    have "p \<noteq> target m e" "p \<noteq> fst (snd e)" if e: "e \<in> set cal" for e
      using tkey [OF e] okey [OF e] s1 net(3) no_key [OF e] by auto
    then have "p \<notin> target m ` set cal" "p \<notin> (\<lambda>e. fst (snd e)) ` set cal" by blast+
    then have "st2 p = Some net" using E s1 by simp
    then show ?thesis using net False by auto
  qed
  have live2: "st2 p \<noteq> None" if "p \<in> ran ?map2" for p using that obj unfolding ran_def by fastforce
  show ?thesis
    unfolding merged_state_def
  proof (intro conjI)
    show "smap_ok (nm_networks_map m2)" by (rule ok2)
    show "?map \<subseteq>\<^sub>m ?map2" using A by (auto simp: map_le_def)
    show "dom ?map2 = dom ?map \<union> ?keys"
    proof (rule set_eqI)
      fix k show "k \<in> dom ?map2 \<longleftrightarrow> k \<in> dom ?map \<union> ?keys" using A [of k] cal keys [of k] by (auto simp: dom_def split: option.splits)
    qed
    show "ran ?map2 \<subseteq> ran ?map \<union> set L"
    proof
      fix p assume "p \<in> ran ?map2"
      then obtain k where k: "?map2 k = Some p" by (auto simp: ran_def)
      show "p \<in> ran ?map \<union> set L"
      proof (cases "?map k")
        case None
        then have "owner_at inet_ntop st L k = Some p" using k A [of k] cal by auto
        then show ?thesis by (simp add: owner_at_in)
      next
        case (Some q)
        then show ?thesis using k A [of k] by (auto intro: ranI)
      qed
    qed
    show "m2 = m\<lparr>nm_networks_map := nm_networks_map m2, nm_next_available_network_id := nm_next_available_network_id m2\<rparr>" by (rule m2)
    show "distinct (map (target m) cal)"
      unfolding distinct_map
    proof
      show "distinct cal" using dk by (simp add: distinct_map)
      show "inj_on (target m) (set cal)"
      proof (rule inj_onI)
        fix e e' assume "e \<in> set cal" "e' \<in> set cal" "target m e = target m e'"
        then have "fst e = fst e'" using tkey by (metis option.inject)
        then show "e = e'" using \<open>e \<in> set cal\<close> \<open>e' \<in> set cal\<close> in_cal by (metis option.inject prod_eqI)
      qed
    qed
    show "\<forall>p. p \<in> set (map (target m) cal) \<longleftrightarrow> (\<exists>k \<in> ?keys. ?map2 k = Some p)"
    proof (intro allI iffI)
      fix p assume "p \<in> set (map (target m) cal)"
      then obtain e where "e \<in> set cal" "p = target m e" by (auto simp del: split_paired_All)
      then show "\<exists>k \<in> ?keys. ?map2 k = Some p" using tgt [of e] dom_cal [of "fst e"] by blast
    next
      fix p assume "\<exists>k \<in> ?keys. ?map2 k = Some p"
      then obtain k where k: "k \<in> ?keys" "?map2 k = Some p" by blast
      then obtain e where e: "e \<in> set cal" "fst e = k" using dom_cal by blast
      have "p = target m e" using tgt [OF e(1)] k(2) e(2) by simp
      then show "p \<in> set (map (target m) cal)" using e(1) by simp
    qed
    show "\<forall>k p. ?map2 k = Some p \<longrightarrow> (\<exists>net. st2 p = Some net \<and> nw_key net = k \<and> key_of inet_ntop net = k \<and>
      (k \<in> ?keys \<longrightarrow> nw_ips net = ips_at inet_ntop st L k) \<and> (?map k \<noteq> None \<longrightarrow> (\<exists>old. st p = Some old \<and> nw_active net = nw_active old)))"
      using obj by blast
    show "\<forall>p \<in> set L. st2 p \<noteq> None \<longleftrightarrow> p \<in> ran ?map2"
    proof (intro ballI iffI)
      fix p assume p: "p \<in> set L" "st2 p \<noteq> None"
      have "p \<in> target m ` set cal"
      proof (rule ccontr)
        assume n: "p \<notin> target m ` set cal"
        show False
        proof (cases "p \<in> (\<lambda>e. fst (snd e)) ` set cal")
          case True
          then obtain e where e: "e \<in> set cal" "p = fst (snd e)" by (rule imageE)
          then have "fst (snd e) \<noteq> target m e" using n by blast
          then show False using D [OF e(1)] e(2) p(2) by simp
        next
          case False
          then have "st1 p \<noteq> None" using E n p(2) by simp
          then have "owner_at inet_ntop st L (key_at inet_ntop st p) = Some p" using st1 p(1) by (metis (full_types))
          then have "(key_at inet_ntop st p, p, ips_at inet_ntop st L (key_at inet_ntop st p)) \<in> set cal" by (simp add: in_cal)
          then show False using False by force
        qed
      qed
      then show "p \<in> ran ?map2" using tgt by (metis imageE ranI)
    qed (rule live2)
    show "\<forall>q. q \<notin> set L \<and> q \<notin> ran ?map \<longrightarrow> st2 q = st q"
    proof (intro allI impI)
      fix q assume q: "q \<notin> set L \<and> q \<notin> ran ?map"
      have o: "q \<notin> (\<lambda>e. fst (snd e)) ` set cal" using in_cal owner_at_in q by (metis (no_types, lifting) imageE)
      have "q \<notin> target m ` set cal"
      proof
        assume "q \<in> target m ` set cal"
        then obtain e where e: "e \<in> set cal" "q = target m e" by blast
        then show False using o q by (auto simp: target_def ran_def split: option.splits)
      qed
      then show "st2 q = st q" using E [OF _ o] st1 q by simp
    qed
  qed
qed

lemma merged_stateD:
  assumes "merged_state inet_ntop L st m merged st2 m2"
  shows "smap_ok (nm_networks_map m2)" "map_of (nm_networks_map m) \<subseteq>\<^sub>m map_of (nm_networks_map m2)"
    "dom (map_of (nm_networks_map m2)) = dom (map_of (nm_networks_map m)) \<union> key_at inet_ntop st ` set L"
    "ran (map_of (nm_networks_map m2)) \<subseteq> ran (map_of (nm_networks_map m)) \<union> set L"
    "m2 = m\<lparr>nm_networks_map := nm_networks_map m2, nm_next_available_network_id := nm_next_available_network_id m2\<rparr>" "distinct merged"
    "p \<in> set merged \<longleftrightarrow> (\<exists>k \<in> key_at inet_ntop st ` set L. map_of (nm_networks_map m2) k = Some p)"
    "map_of (nm_networks_map m2) k = Some p \<Longrightarrow> \<exists>net. st2 p = Some net \<and> nw_key net = k \<and> key_of inet_ntop net = k \<and>
        (k \<in> key_at inet_ntop st ` set L \<longrightarrow> nw_ips net = ips_at inet_ntop st L k) \<and>
        (map_of (nm_networks_map m) k \<noteq> None \<longrightarrow> (\<exists>old. st p = Some old \<and> nw_active net = nw_active old))"
    "p \<in> set L \<Longrightarrow> st2 p \<noteq> None \<longleftrightarrow> p \<in> ran (map_of (nm_networks_map m2))"
    "p \<notin> set L \<Longrightarrow> p \<notin> ran (map_of (nm_networks_map m)) \<Longrightarrow> st2 p = st p"
  using assms unfolding merged_state_def by (elim conjE; (assumption | (erule allE bspec, blast)?; blast))+

lemma merged_state_networks: "merged_state inet_ntop L st m merged st2 m2 \<Longrightarrow> nm_networks m2 = nm_networks m"
  by (subst merged_stateD(5)) simp_all

text \<open>The last part touches only the active flag and the preference.\<close>

definition adjusted :: "network \<Rightarrow> network \<Rightarrow> bool" where
  "adjusted a b \<longleftrightarrow> b = a\<lparr>nw_active := nw_active b, nw_preference := nw_preference b\<rparr>"

lemma adjustedD:
  assumes "adjusted a b"
  shows "nw_key b = nw_key a" "key_of inet_ntop b = key_of inet_ntop a" "nw_ips b = nw_ips a" "nw_type b = nw_type a" "get_best_IP b = get_best_IP a"
proof -
  obtain x y where b: "b = a\<lparr>nw_active := x, nw_preference := y\<rparr>" using assms unfolding adjusted_def by blast
  show "nw_key b = nw_key a" "key_of inet_ntop b = key_of inet_ntop a" "nw_ips b = nw_ips a" "nw_type b = nw_type a" "get_best_IP b = get_best_IP a"
    by (simp_all add: b key_of_def get_best_IP_def)
qed

lemma sort_networks_adjusted: "adjusted a a' \<Longrightarrow> adjusted b b' \<Longrightarrow> sort_networks he a' b' = sort_networks he a b"
  by (simp add: sort_networks_def adjustedD)

lemma finish_merge:
  assumes srt: "std_sort srt" and live: "\<forall>p \<in> ran (map_of kvs). st p \<noteq> None" and kvs: "smap_ok kvs"
    and merged: "distinct merged" "set merged \<subseteq> ran (map_of kvs)"
  shows "\<exists>st3 networks st'. set_active_states merged kvs st = Some st3 \<and> sort_pointers srt (sort_networks he) st3 merged = Some networks \<and>
    set_preferences k_highest_network_preference networks st3 = Some st' \<and> mset networks = mset merged \<and>
    (\<forall>q. q \<notin> ran (map_of kvs) \<longrightarrow> st' q = st q) \<and>
    (\<forall>q \<in> ran (map_of kvs). \<exists>net. st' q = Some net \<and> adjusted (the (st q)) net \<and> (nw_active net \<longleftrightarrow> q \<in> set networks)) \<and>
    sorted_wrt (\<lambda>p q. \<not> sort_networks he (the (st' q)) (the (st' p))) networks \<and>
    (\<forall>i < length networks. i \<le> 127 \<longrightarrow> nw_preference (the (st' (networks ! i))) = 127 - int i)"
proof -
  have ran: "snd ` set kvs = ran (map_of kvs)" using ran_distinct [OF smap_distinct [OF kvs]] by simp
  have live': "\<forall>p \<in> snd ` set kvs. st p \<noteq> None" using live unfolding ran .
  obtain st3 where 3: "set_active_states merged kvs st = Some st3"
    "\<And>q. st3 q = (if q \<in> ran (map_of kvs) then map_option (\<lambda>net. set_active net (q \<in> set merged)) (st q) else st q)"
    using set_active_states_ok [OF live', of merged] unfolding ran by blast
  have live3: "st3 p \<noteq> None" if "p \<in> set merged" for p using live merged(2) that 3(2) by auto
  define cmp where "cmp p q = sort_networks he (the (st3 p)) (the (st3 q))" for p q
  define networks where "networks = srt cmp merged"
  have "list_all (\<lambda>p. st3 p \<noteq> None) merged" using live3 by (simp add: list_all_iff)
  then have sp: "sort_pointers srt (sort_networks he) st3 merged = Some networks"
    unfolding sort_pointers_def networks_def cmp_def by simp
  have "strict_weak cmp (set merged)" unfolding cmp_def by (rule strict_weak_pullback [OF sort_networks_strict_weak])
  then have n: "mset networks = mset merged" "sorted_wrt (\<lambda>p q. \<not> cmp q p) networks"
    using srt unfolding std_sort_def networks_def by blast+
  have sn: "set networks = set merged" "distinct networks" using n(1) merged(1) by (metis set_mset_mset, metis mset_eq_imp_distinct_iff)
  have "\<forall>p \<in> set networks. st3 p \<noteq> None" using live3 sn by simp
  from set_preferences_ok [OF this sn(2), of 127] obtain st' where p: "set_preferences 127 networks st3 = Some st'"
    "\<And>q. \<exists>v. st' q = map_option (\<lambda>net. set_preference net v) (st3 q)" "\<And>q. q \<notin> set networks \<Longrightarrow> st' q = st3 q"
    "\<And>i. i < length networks \<Longrightarrow> int i \<le> 127 \<Longrightarrow> st' (networks ! i) = map_option (\<lambda>net. set_preference net (127 - int i)) (st3 (networks ! i))"
    by auto
  have obj: "\<exists>net. st' q = Some net \<and> adjusted (the (st q)) net \<and> (nw_active net \<longleftrightarrow> q \<in> set networks)" if q: "q \<in> ran (map_of kvs)" for q
  proof -
    obtain o' where o: "st q = Some o'" using live q by blast
    obtain v where v: "st' q = map_option (\<lambda>net. set_preference net v) (st3 q)" using p(2) by blast
    have "st3 q = Some (set_active o' (q \<in> set networks))" using 3(2) [of q] o q sn(1) by simp
    then have "st' q = Some (set_preference (set_active o' (q \<in> set networks)) v)" using v by simp
    moreover have "adjusted o' (set_preference (set_active o' b) v) \<and> (nw_active (set_preference (set_active o' b) v) \<longleftrightarrow> b)" for b
      by (cases o') (simp add: adjusted_def set_active_def set_preference_def)
    ultimately show ?thesis using o by simp
  qed
  have adj3: "adjusted (the (st3 q)) (the (st' q))" if q: "q \<in> set networks" for q
  proof -
    obtain net where "st3 q = Some net" using live3 [of q] q sn(1) by auto
    moreover obtain v where "st' q = map_option (\<lambda>net. set_preference net v) (st3 q)" using p(2) by blast
    ultimately show ?thesis by (simp add: adjusted_def set_preference_def)
  qed
  have "sorted_wrt (\<lambda>p q. \<not> sort_networks he (the (st' q)) (the (st' p))) networks"
    by (rule sorted_wrt_mono_rel [OF _ n(2)]) (simp add: cmp_def sort_networks_adjusted [OF adj3 adj3])
  moreover have "nw_preference (the (st' (networks ! i))) = 127 - int i" if i: "i < length networks" "i \<le> 127" for i
  proof -
    obtain net where "st3 (networks ! i) = Some net" using live3 [of "networks ! i"] nth_mem [OF i(1)] sn(1) by auto
    then show ?thesis using p(4) [OF i(1)] i(2) by (simp add: set_preference_def)
  qed
  moreover have "st' q = st q" if "q \<notin> ran (map_of kvs)" for q
    using p(3) [of q] 3(2) [of q] that merged(2) sn(1) by auto
  ultimately show ?thesis using 3(1) sp p(1) n(1) obj unfolding k_highest_network_preference_def by blast
qed

definition merge_spec :: "ntop \<Rightarrow> endian \<Rightarrow> nat list \<Rightarrow> net_store \<Rightarrow> network_manager \<Rightarrow> net_store \<Rightarrow> network_manager \<Rightarrow> bool \<Rightarrow> bool" where
  "merge_spec inet_ntop he ps st m st' m' changed \<longleftrightarrow>
     m' = m\<lparr>nm_networks := nm_networks m', nm_networks_map := nm_networks_map m', nm_next_available_network_id := nm_next_available_network_id m'\<rparr> \<and>
     nm_inv inet_ntop st' m' \<and>
     key_at inet_ntop st' ` set (nm_networks m') = key_at inet_ntop st ` set ps \<and>
     (\<forall>p \<in> set (nm_networks m'). mset (nw_ips (the (st' p))) = mset (ips_at inet_ntop st ps (key_at inet_ntop st' p))) \<and>
     map_of (nm_networks_map m) \<subseteq>\<^sub>m map_of (nm_networks_map m') \<and>
     dom (map_of (nm_networks_map m')) = dom (map_of (nm_networks_map m)) \<union> key_at inet_ntop st ` set ps \<and>
     (\<forall>p \<in> set ps. st' p \<noteq> None \<longleftrightarrow> p \<in> ran (map_of (nm_networks_map m'))) \<and>
     (\<forall>q. q \<notin> set ps \<and> q \<notin> ran (map_of (nm_networks_map m)) \<longrightarrow> st' q = st q) \<and>
     (if changed
      then sorted_wrt (\<lambda>p q. \<not> sort_networks he (the (st' q)) (the (st' p))) (nm_networks m') \<and>
        (\<forall>i < length (nm_networks m'). i \<le> 127 \<longrightarrow> nw_preference (the (st' (nm_networks m' ! i))) = 127 - int i)
      else nm_networks m' = nm_networks m)"

text \<open>The two ends of the merge, from the state after the entries.\<close>

lemma merge_spec_final:
  assumes ms: "merged_state inet_ntop L st m merged st2 m2" and L: "mset L = mset ps"
    and nw: "set networks = set merged" "distinct networks"
    and out: "\<forall>q. q \<notin> ran (map_of (nm_networks_map m2)) \<longrightarrow> st' q = st2 q"
    and obj: "\<forall>q \<in> ran (map_of (nm_networks_map m2)). \<exists>net. st' q = Some net \<and> adjusted (the (st2 q)) net \<and> (nw_active net \<longleftrightarrow> q \<in> set networks)"
    and rest: "if changed
      then sorted_wrt (\<lambda>p q. \<not> sort_networks he (the (st' q)) (the (st' p))) networks \<and>
        (\<forall>i < length networks. i \<le> 127 \<longrightarrow> nw_preference (the (st' (networks ! i))) = 127 - int i)
      else networks = nm_networks m"
  shows "merge_spec inet_ntop he ps st m st' (m2\<lparr>nm_networks := networks\<rparr>) changed"
proof -
  let ?map = "map_of (nm_networks_map m)" and ?map2 = "map_of (nm_networks_map m2)" and ?keys = "key_at inet_ntop st ` set L"
  have sL: "set L = set ps" using L by (metis set_mset_mset)
  note ok = merged_stateD(1-3) [OF ms] and mem = merged_stateD(7) [OF ms] and o2 = merged_stateD(8) [OF ms]
    and lv = merged_stateD(9) [OF ms] and un = merged_stateD(10) [OF ms]
  have o': "\<exists>net. st' p = Some net \<and> nw_key net = k \<and> key_of inet_ntop net = k \<and> (nw_active net \<longleftrightarrow> p \<in> set networks) \<and>
      (k \<in> ?keys \<longrightarrow> nw_ips net = ips_at inet_ntop st L k)" if kp: "?map2 k = Some p" for k p
  proof -
    obtain old where old: "st2 p = Some old" "nw_key old = k" "key_of inet_ntop old = k" "k \<in> ?keys \<longrightarrow> nw_ips old = ips_at inet_ntop st L k"
      using o2 [OF kp] by blast
    obtain net where "st' p = Some net" "adjusted (the (st2 p)) net" "nw_active net \<longleftrightarrow> p \<in> set networks"
      using obj ranI [of ?map2 k p, OF kp] by blast
    then show ?thesis using old by (simp add: adjustedD)
  qed
  have kat: "k \<in> ?keys \<Longrightarrow> ?map2 k = Some p \<Longrightarrow> key_at inet_ntop st' p = k \<and> mset (nw_ips (the (st' p))) = mset (ips_at inet_ntop st ps k)" for k p
    using o' [of k p] mset_ips_at [OF L, of inet_ntop st k] by (auto simp: key_at_def)
  have sub: "set networks \<subseteq> ran ?map2" using mem nw(1) by (auto simp: ran_def)
  have "nm_inv inet_ntop st' (m2\<lparr>nm_networks := networks\<rparr>)" using ok(1) o' nw(2) sub by (simp add: nm_inv_def) blast
  moreover have "key_at inet_ntop st' ` set networks = ?keys"
  proof (intro equalityI subsetI)
    fix k assume "k \<in> key_at inet_ntop st' ` set networks"
    then show "k \<in> ?keys" using kat mem unfolding nw(1) by blast
  next
    fix k assume k: "k \<in> ?keys"
    then obtain p where "?map2 k = Some p" using ok(3) by blast
    then show "k \<in> key_at inet_ntop st' ` set networks" using kat [OF k] mem k unfolding nw(1) by (metis imageI)
  qed
  moreover have "mset (nw_ips (the (st' p))) = mset (ips_at inet_ntop st ps (key_at inet_ntop st' p))" if p: "p \<in> set networks" for p
  proof -
    obtain k where "k \<in> ?keys" "?map2 k = Some p" using p mem unfolding nw(1) by blast
    then show ?thesis using kat by simp
  qed
  moreover have "st' p \<noteq> None \<longleftrightarrow> p \<in> ran ?map2" if p: "p \<in> set ps" for p
    using obj out lv [of p] p unfolding sL by (cases "p \<in> ran ?map2") auto
  moreover have "st' q = st q" if q: "q \<notin> set ps" "q \<notin> ran ?map" for q
  proof -
    have "q \<notin> ran ?map2" using merged_stateD(4) [OF ms] q unfolding sL by blast
    then show ?thesis using out un q unfolding sL by simp
  qed
  moreover have "m2\<lparr>nm_networks := networks\<rparr> = m\<lparr>nm_networks := networks, nm_networks_map := nm_networks_map m2,
      nm_next_available_network_id := nm_next_available_network_id m2\<rparr>"
    by (subst merged_stateD(5) [OF ms]) simp
  ultimately show ?thesis unfolding merge_spec_def using ok rest sL by simp
qed

text \<open>When nothing is reported as changed, the list the manager keeps is already the merged one.\<close>

lemma merged_unchanged:
  assumes inv: "nm_inv inet_ntop st m" and ms: "merged_state inet_ntop L st m merged st2 m2"
    and old: "\<forall>p \<in> set merged. p \<in> ran (map_of (nm_networks_map m)) \<and> (\<exists>net. st p = Some net \<and> nw_active net)"
    and len: "length merged = length (nm_networks m)"
  shows "set (nm_networks m) = set merged" and "map_of (nm_networks_map m2) = map_of (nm_networks_map m)"
proof -
  let ?map = "map_of (nm_networks_map m)" and ?map2 = "map_of (nm_networks_map m2)"
  have dn: "distinct (nm_networks m)" using inv by (simp add: nm_inv_def)
  have "set merged \<subseteq> set (nm_networks m)"
  proof
    fix p assume p: "p \<in> set merged"
    then obtain k where k: "?map k = Some p" using old by (auto simp: ran_def)
    obtain net where "st p = Some net" "nw_active net \<longleftrightarrow> p \<in> set (nm_networks m)" by (rule nm_inv_object [OF inv k])
    then show "p \<in> set (nm_networks m)" using old p by auto
  qed
  moreover have "card (set merged) = card (set (nm_networks m))"
    using len distinct_card [OF merged_stateD(6) [OF ms]] distinct_card [OF dn] by simp
  ultimately show "set (nm_networks m) = set merged" by (metis card_subset_eq finite_set)
  have "?map2 k = ?map k" for k
  proof (cases "k \<in> dom ?map")
    case True
    then show ?thesis using merged_stateD(2) [OF ms] by (simp add: map_le_def)
  next
    case False
    have "k \<notin> dom ?map2"
    proof
      assume "k \<in> dom ?map2"
      then obtain p where kp: "?map2 k = Some p" by blast
      have "k \<in> key_at inet_ntop st ` set L" using False merged_stateD(3) [OF ms] \<open>k \<in> dom ?map2\<close> by blast
      then have "p \<in> set merged" using merged_stateD(7) [OF ms, of p] kp by blast
      then obtain k' where k': "?map k' = Some p" using old by (auto simp: ran_def)
      then have "?map2 k' = Some p" using merged_stateD(2) [OF ms] by (metis domI map_le_def)
      then have "k' = k" using merged_stateD(8) [OF ms, of k p, OF kp] merged_stateD(8) [OF ms, of k' p] by auto
      then show False using k' False by blast
    qed
    then show ?thesis using False by (simp add: domIff)
  qed
  then show "?map2 = ?map" by blast
qed

lemma network_unchanged_adjusted: "adjusted net net"
  by (cases net) (simp add: adjusted_def)

lemma nm_networks_set: "nm_networks m = networks \<Longrightarrow> m\<lparr>nm_networks := networks\<rparr> = m"
  by (cases m) simp

lemma fresh_networks_mset: "fresh_networks inet_ntop st m ps \<Longrightarrow> mset L = mset ps \<Longrightarrow> fresh_networks inet_ntop st m L"
  unfolding fresh_networks_def by (metis mset_eq_imp_distinct_iff set_mset_mset)

lemma merge_unchanged_spec:
  assumes inv: "nm_inv inet_ntop st m" and L: "mset L = mset ps" and ms: "merged_state inet_ntop L st m merged st2 m2"
    and old: "\<forall>p \<in> set merged. p \<in> ran (map_of (nm_networks_map m)) \<and> (\<exists>net. st p = Some net \<and> nw_active net)"
    and len: "length merged = length (nm_networks m)"
  shows "merge_spec inet_ntop he ps st m st2 m2 False"
proof -
  note same = merged_unchanged [OF inv ms old len]
  have "merge_spec inet_ntop he ps st m st2 (m2\<lparr>nm_networks := nm_networks m\<rparr>) False"
  proof (rule merge_spec_final [OF ms L same(1)])
    show "distinct (nm_networks m)" using inv by (simp add: nm_inv_def)
    show "\<forall>q \<in> ran (map_of (nm_networks_map m2)). \<exists>net. st2 q = Some net \<and> adjusted (the (st2 q)) net \<and> (nw_active net \<longleftrightarrow> q \<in> set (nm_networks m))"
    proof
      fix q assume "q \<in> ran (map_of (nm_networks_map m2))"
      then obtain k where k: "map_of (nm_networks_map m2) k = Some q" by (auto simp: ran_def)
      then have k': "map_of (nm_networks_map m) k = Some q" by (simp add: same(2))
      obtain net o' where "st2 q = Some net" "st q = Some o'" "nw_active net = nw_active o'" using merged_stateD(8) [OF ms, OF k] k' by auto
      moreover from this have "nw_active o' \<longleftrightarrow> q \<in> set (nm_networks m)" using nm_inv_object [OF inv k'] by (metis option.inject)
      ultimately show "\<exists>net. st2 q = Some net \<and> adjusted (the (st2 q)) net \<and> (nw_active net \<longleftrightarrow> q \<in> set (nm_networks m))"
        by (simp add: network_unchanged_adjusted)
    qed
  qed simp_all
  then show ?thesis by (simp add: nm_networks_set merged_state_networks [OF ms])
qed

lemma merge_network_list_ok:
  assumes "std_sort srt" and "nm_inv inet_ntop st m" and "fresh_networks inet_ntop st m ps"
    and "strict_weak (\<lambda>p q. compare_networks he (the (st p)) (the (st q))) (set ps)"
  shows "\<exists>st' m' changed stats'. merge_network_list srt he inet_ntop ps st m stats = Some (st', m', changed, stats') \<and>
    merge_spec inet_ntop he ps st m st' m' changed"
proof -
  define L where "L = srt (\<lambda>p q. compare_networks he (the (st p)) (the (st q))) ps"
  have L: "mset L = mset ps" using assms(1,4) unfolding std_sort_def L_def by blast
  have "list_all (\<lambda>p. st p \<noteq> None) ps" using assms(3) by (auto simp: fresh_networks_def list_all_iff)
  then have sp: "sort_pointers srt (compare_networks he) st ps = Some L" by (simp add: sort_pointers_def L_def)
  note fr = fresh_networks_mset [OF assms(3) L]
  obtain st1 cal stats' where c: "consolidate inet_ntop L st [] stats = Some (st1, cal, stats')" "merge_pre inet_ntop cal st1 m"
    "\<forall>k. map_of cal k = map_option (\<lambda>p. (p, ips_at inet_ntop st L k)) (owner_at inet_ntop st L k)"
    "\<forall>q. st1 q = (if q \<in> set L \<and> owner_at inet_ntop st L (key_at inet_ntop st q) \<noteq> Some q then None else st q)"
    using merge_prepare [OF assms(2) fr, of stats] by blast
  define merged where "merged = map (target m) cal"
  obtain st2 m2 ch where e: "merge_entries cal (st1, m, [], False) = Some (st2, m2, merged, ch)" "entries_effect cal st1 m False st2 m2 ch"
    using merge_entries_ok [OF c(2), of "[]" False] unfolding merged_def by auto
  have ms: "merged_state inet_ntop L st m merged st2 m2" unfolding merged_def by (rule merged_stateI [OF assms(2) fr c(2-4) e(2)])
  show ?thesis
  proof (cases "ch \<or> length merged \<noteq> length (nm_networks m2)")
    case False
    have "\<forall>p \<in> set merged. p \<in> ran (map_of (nm_networks_map m)) \<and> (\<exists>net. st p = Some net \<and> nw_active net)"
    proof
      fix p assume "p \<in> set merged"
      then obtain x where x: "x \<in> set cal" "p = target m x" unfolding merged_def by (metis imageE set_map)
      have "map_of (nm_networks_map m) (fst x) \<noteq> None \<and> (\<exists>net. st1 (target m x) = Some net \<and> nw_active net)"
        using e(2) x(1) False unfolding entries_effect_def by blast
      then show "p \<in> ran (map_of (nm_networks_map m)) \<and> (\<exists>net. st p = Some net \<and> nw_active net)"
        using c(4) x(2) by (auto simp: target_def ran_def split: if_splits)
    qed
    then have "merge_spec inet_ntop he ps st m st2 m2 False"
      using merge_unchanged_spec [OF assms(2) L ms] False merged_state_networks [OF ms] by simp
    moreover have "merge_network_list srt he inet_ntop ps st m stats = Some (st2, m2, False, stats')"
      using sp c(1) e(1) False by (simp add: merge_network_list_def)
    ultimately show ?thesis by blast
  next
    case True
    have live: "\<forall>p \<in> ran (map_of (nm_networks_map m2)). st2 p \<noteq> None" using merged_stateD(8) [OF ms] by (fastforce simp: ran_def)
    have sub: "set merged \<subseteq> ran (map_of (nm_networks_map m2))" using merged_stateD(7) [OF ms] by (auto simp: ran_def)
    obtain st3 networks st' where f: "set_active_states merged (nm_networks_map m2) st2 = Some st3"
      "sort_pointers srt (sort_networks he) st3 merged = Some networks"
      "set_preferences k_highest_network_preference networks st3 = Some st'" "mset networks = mset merged"
      "\<forall>q. q \<notin> ran (map_of (nm_networks_map m2)) \<longrightarrow> st' q = st2 q"
      "\<forall>q \<in> ran (map_of (nm_networks_map m2)). \<exists>net. st' q = Some net \<and> adjusted (the (st2 q)) net \<and> (nw_active net \<longleftrightarrow> q \<in> set networks)"
      "sorted_wrt (\<lambda>p q. \<not> sort_networks he (the (st' q)) (the (st' p))) networks"
      "\<forall>i < length networks. i \<le> 127 \<longrightarrow> nw_preference (the (st' (networks ! i))) = 127 - int i"
      using finish_merge [OF assms(1) live merged_stateD(1) [OF ms] merged_stateD(6) [OF ms] sub, of he] by blast
    have nw: "set networks = set merged" "distinct networks"
      using f(4) merged_stateD(6) [OF ms] by (metis set_mset_mset, metis mset_eq_imp_distinct_iff)
    have "merge_spec inet_ntop he ps st m st' (m2\<lparr>nm_networks := networks\<rparr>) True"
      using merge_spec_final [OF ms L nw f(5,6), of True he] f(7,8) by simp
    moreover have "merge_network_list srt he inet_ntop ps st m stats = Some (st', m2\<lparr>nm_networks := networks\<rparr>, True, stats')"
      using sp c(1) e(1) f(1-3) True by (simp add: merge_network_list_def)
    ultimately show ?thesis by blast
  qed
qed

end
