(* ===== verification/NetworkUpdate.thy ===== *)
theory NetworkUpdate
  imports NetworkManager "HOL-Library.Sublist"
begin

text \<open>
  From the interfaces to the merged list: what \<open>convert_if_addrs\<close> hands to \<open>merge_network_list\<close>, the whole of
  \<open>update_networks_once\<close>, and what the clients of the manager read.
\<close>

section \<open>When the first sort is defined\<close>

text \<open>
  \<open>compare_networks\<close> is a strict weak order on networks of which no two with one name and one prefix length
  but different prefixes stand beside a third one with that name and another length.
\<close>

definition unambiguous :: "(bstring \<times> ip_address \<times> int) set \<Rightarrow> bool" where
  "unambiguous A \<longleftrightarrow> (\<forall>n p q r l l'. (n, p, l) \<in> A \<longrightarrow> (n, q, l) \<in> A \<longrightarrow> (n, r, l') \<in> A \<longrightarrow> l' \<noteq> l \<longrightarrow> p = q)"

definition network_ident :: "network \<Rightarrow> bstring \<times> ip_address \<times> int" where
  "network_ident net = (nw_name net, nw_prefix net, nw_prefix_length net)"

lemma unambiguous_mono: "unambiguous A \<Longrightarrow> B \<subseteq> A \<Longrightarrow> unambiguous B"
  unfolding unambiguous_def by blast

lemma compare_networks_strict_weak:
  assumes un: "unambiguous (network_ident ` N)" and v: "\<forall>net \<in> N. ip_valid (nw_prefix net)"
  shows "strict_weak (compare_networks he) N"
proof -
  have eq: "nw_name a = nw_name b \<and> (nw_prefix_length a \<noteq> nw_prefix_length b \<or> nw_prefix a = nw_prefix b)"
    if i: "a \<in> N" "b \<in> N" "\<not> compare_networks he a b" "\<not> compare_networks he b a" for a b
  proof -
    have n: "nw_name a = nw_name b" using i str_less_total [of "nw_name a" "nw_name b"] by (auto simp: compare_networks_def split: if_splits)
    then show ?thesis using i v ip_less_total [of "nw_prefix a" "nw_prefix b" he] by (auto simp: compare_networks_def split: if_splits)
  qed
  have not: "\<not> compare_networks he a c"
    if i: "a \<in> N" "b \<in> N" "c \<in> N" "\<not> compare_networks he a b" "\<not> compare_networks he b a" "\<not> compare_networks he b c" "\<not> compare_networks he c b" for a b c
  proof
    note e = eq [OF i(1,2,4,5)] eq [OF i(2,3,6,7)]
    assume c: "compare_networks he a c"
    then have l: "nw_prefix_length a = nw_prefix_length c" and p: "nw_prefix a \<noteq> nw_prefix c"
      using e by (auto simp: compare_networks_def str_less_irrefl ip_less_irrefl split: if_splits)
    then have b: "nw_prefix_length b \<noteq> nw_prefix_length a" using e by auto
    have "(nw_name a, nw_prefix a, nw_prefix_length a) \<in> network_ident ` N" "(nw_name a, nw_prefix c, nw_prefix_length a) \<in> network_ident ` N"
      "(nw_name a, nw_prefix b, nw_prefix_length b) \<in> network_ident ` N"
      using e l by (intro image_eqI [OF _ i(1)] image_eqI [OF _ i(3)] image_eqI [OF _ i(2)]; simp add: network_ident_def)+
    then have "nw_prefix a = nw_prefix c" using un b unfolding unambiguous_def by blast
    then show False using p by simp
  qed
  show ?thesis
    unfolding strict_weak_def
  proof (intro conjI ballI impI)
    show "\<not> compare_networks he a a" for a by (simp add: compare_networks_def ip_less_irrefl)
    fix a b c assume ab: "compare_networks he a b" and bc: "compare_networks he b c"
    show "compare_networks he a c"
    proof (cases "nw_name a = nw_name b \<and> nw_name b = nw_name c")
      case True
      then have "nw_prefix_length a = nw_prefix_length b" "ip_less he (nw_prefix a) (nw_prefix b)"
        "nw_prefix_length b = nw_prefix_length c" "ip_less he (nw_prefix b) (nw_prefix c)"
        using ab bc by (simp_all add: compare_networks_def str_less_irrefl split: if_splits)
      then show ?thesis using True ip_less_trans by (simp add: compare_networks_def)
    next
      case False
      have le: "nw_name x = nw_name y \<or> str_less (nw_name x) (nw_name y)" if "compare_networks he x y" for x y
        using that by (auto simp: compare_networks_def split: if_splits)
      have "str_less (nw_name a) (nw_name c)" using le [OF ab] le [OF bc] False str_less_trans by metis
      moreover from this have "nw_name a \<noteq> nw_name c" by (auto simp: str_less_irrefl)
      ultimately show ?thesis by (simp add: compare_networks_def)
    qed
  qed (use not in blast)+
qed

lemma strict_weak_store:
  assumes "strict_weak cmp (the ` st ` A)"
  shows "strict_weak (\<lambda>p q. cmp (the (st p)) (the (st q))) A"
  using assms unfolding strict_weak_def ball_simps(9) .

section \<open>What the interfaces give\<close>

text \<open>The structures \<open>getifaddrs\<close> fills in: a netmask has the family of its address.\<close>

definition ifaddrs_ok :: "ifaddrs \<Rightarrow> bool" where
  "ifaddrs_ok ifa \<longleftrightarrow>
     (case (ifa_addr ifa, ifa_netmask ifa) of
        (Some (Sockaddr_in _ _), Some s) \<Rightarrow> (case s of Sockaddr_in _ _ \<Rightarrow> True | _ \<Rightarrow> False)
      | (Some (Sockaddr_in6 _ a _), Some s) \<Rightarrow> (case s of Sockaddr_in6 _ b _ \<Rightarrow> length a = 16 \<and> length b = 16 | _ \<Rightarrow> False)
      | _ \<Rightarrow> True)"

lemma interface_address_ip_of [simp]: "interface_address_ip (interface_address_of ip flags) = ip"
  by (simp add: interface_address_ip_def interface_address_of_def)

lemma usable_interface_ok:
  assumes "ifaddrs_ok ifa"
  obtains (skip) "usable_interface he m ifa = Some None"
  | (use_it) ip msk scope where "usable_interface he m ifa = Some (Some (ip, msk, scope))" "ip_valid (interface_address_ip ip)"
proof (cases "usable_interface he m ifa")
  case None
  then show ?thesis using assms
    by (auto simp: usable_interface_def ifaddrs_ok_def convert_if_addrs_to_IP_address_def convert_native_attributes_to_IP_attributes_def
      split: if_splits option.splits sockaddr_storage.splits Option.bind_splits)
next
  case (Some u)
  show ?thesis
  proof (cases u)
    case None
    then show ?thesis using Some skip by simp
  next
    case (Some r)
    obtain ip msk scope where r: "r = (ip, msk, scope)" by (cases r)
    have "ip_valid (interface_address_ip ip)" using \<open>usable_interface he m ifa = Some u\<close> Some r assms
      by (auto simp: usable_interface_def ifaddrs_ok_def convert_if_addrs_to_IP_address_def convert_native_attributes_to_IP_attributes_def valid_constructors
        split: if_splits option.splits sockaddr_storage.splits Option.bind_splits)
    then show ?thesis using \<open>usable_interface he m ifa = Some u\<close> Some r use_it by simp
  qed
qed

lemma length_four_words: "length (concat (map (\<lambda>i. word_to_mem he 4 (f i)) [0..<4])) = 16"
  by (cases he) (simp_all add: upt_rec word_to_mem_def bytes_le_def)

lemma truncate_valid: "ip_valid ip \<Longrightarrow> ip_valid (truncate_IP he ip len)"
  by (simp add: truncate_IP_def Let_def valid_constructors in6addr_any_def length_four_words)

text \<open>The name, prefix and prefix length of the network an interface belongs to.\<close>

definition interface_ident :: "endian \<Rightarrow> network_manager \<Rightarrow> ifaddrs \<Rightarrow> (bstring \<times> ip_address \<times> int) option" where
  "interface_ident he m ifa =
     (case usable_interface he m ifa of
        Some (Some (ip, msk, scope_id)) \<Rightarrow>
          (let n = int (count_IP_mask_bits he msk) in Some (ifa_name ifa, truncate_IP he (interface_address_ip ip) n, n))
      | _ \<Rightarrow> None)"

definition ident_key :: "ntop \<Rightarrow> bstring \<times> ip_address \<times> int \<Rightarrow> bstring" where
  "ident_key inet_ntop = (\<lambda>(name, prefix, prefix_length). make_network_key inet_ntop name prefix prefix_length)"

definition ident_ignored :: "endian \<Rightarrow> network_manager \<Rightarrow> bstring \<times> ip_address \<times> int \<Rightarrow> bool" where
  "ident_ignored he m = (\<lambda>(name, prefix, prefix_length). name \<in> set (nm_network_ignore_list m) \<or>
     take 5 name = str ''vmnet'' \<or> take 4 name = str ''vnic'' \<or> take 7 name = str ''vboxnet'' \<or>
     ip_family prefix = AF_INET \<and> v4_address_as_host_order_integer he prefix < 0x01000000)"

lemma key_of_ident: "key_of inet_ntop net = ident_key inet_ntop (network_ident net)"
  by (simp add: key_of_def ident_key_def network_ident_def)

lemma is_ignored_ident: "is_ignored_network he m net = ident_ignored he m (network_ident net)"
  by (simp add: is_ignored_network_def ident_ignored_def network_ident_def)

text \<open>The networks the interfaces stand for, and the addresses of those with one key, in their order.\<close>

definition interface_idents :: "endian \<Rightarrow> network_manager \<Rightarrow> bool \<Rightarrow> ifaddrs list \<Rightarrow> (bstring \<times> ip_address \<times> int) set" where
  "interface_idents he m include_ignored ifas =
     {i. (\<exists>ifa \<in> set ifas. interface_ident he m ifa = Some i) \<and> (include_ignored \<or> \<not> ident_ignored he m i)}"

definition has_key :: "endian \<Rightarrow> ntop \<Rightarrow> network_manager \<Rightarrow> bstring \<Rightarrow> ifaddrs \<Rightarrow> bool" where
  "has_key he inet_ntop m k ifa \<longleftrightarrow> map_option (ident_key inet_ntop) (interface_ident he m ifa) = Some k"

definition interface_IP :: "endian \<Rightarrow> network_manager \<Rightarrow> ifaddrs \<Rightarrow> interface_address" where
  "interface_IP he m ifa = fst (the (the (usable_interface he m ifa)))"

definition interface_IPs :: "endian \<Rightarrow> ntop \<Rightarrow> network_manager \<Rightarrow> bstring \<Rightarrow> ifaddrs list \<Rightarrow> interface_address list" where
  "interface_IPs he inet_ntop m k ifas = map (interface_IP he m) (filter (has_key he inet_ntop m k) ifas)"

text \<open>No interface with this key is left out as ignored.\<close>

definition key_wanted :: "endian \<Rightarrow> ntop \<Rightarrow> network_manager \<Rightarrow> bool \<Rightarrow> ifaddrs list \<Rightarrow> bstring \<Rightarrow> bool" where
  "key_wanted he inet_ntop m include_ignored ifas k \<longleftrightarrow>
     (\<forall>ifa \<in> set ifas. has_key he inet_ntop m k ifa \<longrightarrow> the (interface_ident he m ifa) \<in> interface_idents he m include_ignored [ifa])"

definition new_network :: "ntop \<Rightarrow> (bstring \<times> ip_address \<times> int) set \<Rightarrow> network \<Rightarrow> bool" where
  "new_network inet_ntop idents net \<longleftrightarrow> nw_key net = key_of inet_ntop net \<and> nw_ips net \<noteq> [] \<and> network_ident net \<in> idents \<and> ip_valid (nw_prefix net)"

definition converted :: "ntop \<Rightarrow> (bstring \<times> ip_address \<times> int) set \<Rightarrow> net_store \<Rightarrow> nat \<Rightarrow> net_store \<Rightarrow> nat \<Rightarrow> nat list \<Rightarrow> bool" where
  "converted inet_ntop idents st0 nxt0 st nxt networks \<longleftrightarrow> nxt0 \<le> nxt \<and> distinct networks \<and>
     (\<forall>p \<in> set networks. nxt0 \<le> p \<and> p < nxt \<and> (\<exists>net. st p = Some net \<and> new_network inet_ntop idents net)) \<and>
     inj_on (key_at inet_ntop st) (set networks) \<and>
     (\<forall>q. q \<notin> set networks \<longrightarrow> st q = st0 q)"

definition tracked :: "ntop \<Rightarrow> net_store \<Rightarrow> nat list \<Rightarrow> (bstring \<times> nat) list \<Rightarrow> bool" where
  "tracked inet_ntop st networks current \<longleftrightarrow>
     (\<forall>k p. map_of current k = Some p \<longleftrightarrow> p \<in> set networks \<and> key_at inet_ntop st p = k)"

lemma new_network_add:
  "new_network inet_ntop idents net \<Longrightarrow> new_network inet_ntop idents (add_IP net ip)" "key_of inet_ntop (add_IP net ip) = key_of inet_ntop net"
  "new_network inet_ntop idents net \<Longrightarrow> new_network inet_ntop idents (set_type net t)" "key_of inet_ntop (set_type net t) = key_of inet_ntop net"
  by (simp_all add: new_network_def add_IP_def set_type_def key_of_def network_ident_def)

lemma ips_at_key:
  assumes "inj_on (key_at inet_ntop st) (set networks)" "distinct networks" "p \<in> set networks"
  shows "ips_at inet_ntop st networks (key_at inet_ntop st p) = nw_ips (the (st p))"
proof -
  have "filter (\<lambda>q. key_at inet_ntop st q = key_at inet_ntop st p) networks = filter (\<lambda>q. q = p) networks"
    using assms(1,3) by (intro filter_cong) (auto simp: inj_on_def)
  also have "\<dots> = [p]" using assms(2,3) by (induction networks) (auto simp: filter_empty_conv)
  finally show ?thesis by (simp add: ips_at_def)
qed

lemma ips_at_no_key: "k \<notin> key_at inet_ntop st ` set networks \<Longrightarrow> ips_at inet_ntop st networks k = []"
  by (auto simp: ips_at_def image_iff filter_empty_conv)

lemma ips_at_add:
  assumes "inj_on (key_at inet_ntop st) (set networks)" "distinct networks" "p \<in> set networks"
    and "key_at inet_ntop st' = key_at inet_ntop st" and "\<And>q. q \<noteq> p \<Longrightarrow> st' q = st q" and "nw_ips (the (st' p)) = nw_ips (the (st p)) @ ips"
  shows "ips_at inet_ntop st' networks k = ips_at inet_ntop st networks k @ (if k = key_at inet_ntop st p then ips else [])"
proof (cases "k \<in> key_at inet_ntop st ` set networks")
  case True
  then obtain q where q: "q \<in> set networks" "k = key_at inet_ntop st q" by blast
  have "ips_at inet_ntop st' networks k = nw_ips (the (st' q))" using ips_at_key [of inet_ntop st' networks q] assms(1,2,4) q by simp
  moreover have "ips_at inet_ntop st networks k = nw_ips (the (st q))" using ips_at_key [of inet_ntop st networks q] assms(1,2) q by simp
  moreover have "q = p \<longleftrightarrow> k = key_at inet_ntop st p" using assms(1,3) q by (auto simp: inj_on_def)
  ultimately show ?thesis using assms(5) [of q] assms(6) by auto
next
  case False
  then show ?thesis using assms(3,4) ips_at_no_key [of k inet_ntop st networks] ips_at_no_key [of k inet_ntop st' networks] by auto
qed

lemma converted_update:
  assumes c: "converted inet_ntop idents st0 nxt0 st nxt networks" "tracked inet_ntop st networks current" and p: "p \<in> set networks"
    and f: "\<And>net. new_network inet_ntop idents net \<Longrightarrow> new_network inet_ntop idents (f net) \<and> key_of inet_ntop (f net) = key_of inet_ntop net"
  obtains st' where "update_network st p f = Some st'" "st' = st(p \<mapsto> f (the (st p)))" "key_at inet_ntop st' = key_at inet_ntop st" "converted inet_ntop idents st0 nxt0 st' nxt networks" "tracked inet_ntop st' networks current"
proof -
  obtain net where net: "st p = Some net" "new_network inet_ntop idents net" using c(1) p unfolding converted_def by blast
  let ?st = "st(p \<mapsto> f net)"
  have k: "key_at inet_ntop ?st = key_at inet_ntop st" using net f by (auto simp: key_at_def)
  have "converted inet_ntop idents st0 nxt0 ?st nxt networks" using c(1) p net(2) f unfolding converted_def k by auto
  moreover have "tracked inet_ntop ?st networks current" using c(2) unfolding tracked_def k .
  ultimately show ?thesis using that k net by (simp add: update_network_def)
qed

lemma converted_new:
  assumes c: "converted inet_ntop idents st0 nxt0 st nxt networks" "tracked inet_ntop st networks current"
    and k: "map_of current (key_of inet_ntop net) = None" and net: "new_network inet_ntop idents net"
  shows "converted inet_ntop idents st0 nxt0 (st(nxt \<mapsto> net)) (nxt + 1) (networks @ [nxt])"
    and "tracked inet_ntop (st(nxt \<mapsto> net)) (networks @ [nxt]) (smap_put (key_of inet_ntop net) nxt current)"
proof -
  let ?st = "st(nxt \<mapsto> net)"
  have nx: "nxt \<notin> set networks" "nxt0 \<le> nxt" using c(1) unfolding converted_def by auto
  have old: "key_at inet_ntop ?st p = key_at inet_ntop st p" if "p \<in> set networks" for p using that nx(1) by (auto simp: key_at_def)
  have new: "key_at inet_ntop ?st nxt = key_of inet_ntop net" by (simp add: key_at_def)
  have fresh: "key_at inet_ntop st p \<noteq> key_of inet_ntop net" if "p \<in> set networks" for p
    using c(2) k that unfolding tracked_def by (metis option.distinct(1))
  have "inj_on (key_at inet_ntop st) (set networks)" using c(1) by (simp add: converted_def)
  then have "inj_on (key_at inet_ntop ?st) (set networks)" using old by (simp add: inj_on_def)
  then have "inj_on (key_at inet_ntop ?st) (set (networks @ [nxt]))"
  proof -
    have "key_at inet_ntop ?st nxt \<notin> key_at inet_ntop ?st ` set networks" unfolding new using old fresh by (metis imageE)
    then show ?thesis using \<open>inj_on (key_at inet_ntop ?st) (set networks)\<close> by (auto simp: inj_on_insert)
  qed
  moreover have "?st q = st0 q" if "q \<notin> set (networks @ [nxt])" for q using c(1) that by (simp add: converted_def)
  moreover have "\<forall>p \<in> set (networks @ [nxt]). nxt0 \<le> p \<and> p < nxt + 1 \<and> (\<exists>net. ?st p = Some net \<and> new_network inet_ntop idents net)"
    using c(1) nx net unfolding converted_def by (auto simp: less_Suc_eq)
  ultimately show "converted inet_ntop idents st0 nxt0 ?st (nxt + 1) (networks @ [nxt])"
    using c(1) nx unfolding converted_def by auto
  show "tracked inet_ntop ?st (networks @ [nxt]) (smap_put (key_of inet_ntop net) nxt current)"
    unfolding tracked_def
  proof (intro allI)
    fix k' p
    show "map_of (smap_put (key_of inet_ntop net) nxt current) k' = Some p \<longleftrightarrow> p \<in> set (networks @ [nxt]) \<and> key_at inet_ntop ?st p = k'"
      using c(2) old [of p] new fresh nx(1) unfolding tracked_def by (cases "k' = key_of inet_ntop net"; cases "p = nxt") auto
  qed
qed

definition grown :: "endian \<Rightarrow> ntop \<Rightarrow> network_manager \<Rightarrow> bool \<Rightarrow> ifaddrs list \<Rightarrow> net_store \<Rightarrow> nat list \<Rightarrow> net_store \<Rightarrow> nat list \<Rightarrow> bool" where
  "grown he inet_ntop m include_ignored ifas st networks st' networks' \<longleftrightarrow>
     key_at inet_ntop st' ` set networks' =
       key_at inet_ntop st ` set networks \<union> ident_key inet_ntop ` interface_idents he m include_ignored ifas \<and>
     (\<forall>k. key_wanted he inet_ntop m include_ignored ifas k \<longrightarrow>
       ips_at inet_ntop st' networks' k = ips_at inet_ntop st networks k @ interface_IPs he inet_ntop m k ifas)"

lemma grown_Nil: "grown he inet_ntop m include_ignored [] st networks st networks"
  by (simp add: grown_def interface_idents_def interface_IPs_def)

lemma grown_Cons:
  assumes "grown he inet_ntop m include_ignored [ifa] st networks st1 networks1" "grown he inet_ntop m include_ignored ifas st1 networks1 st' networks'"
  shows "grown he inet_ntop m include_ignored (ifa # ifas) st networks st' networks'"
proof -
  have i: "interface_idents he m include_ignored (ifa # ifas) = interface_idents he m include_ignored [ifa] \<union> interface_idents he m include_ignored ifas"
    by (auto simp: interface_idents_def)
  have w: "key_wanted he inet_ntop m include_ignored (ifa # ifas) k \<longleftrightarrow> key_wanted he inet_ntop m include_ignored [ifa] k \<and> key_wanted he inet_ntop m include_ignored ifas k" for k
    by (simp add: key_wanted_def)
  have p: "interface_IPs he inet_ntop m k (ifa # ifas) = interface_IPs he inet_ntop m k [ifa] @ interface_IPs he inet_ntop m k ifas" for k
    by (simp add: interface_IPs_def)
  show ?thesis using assms unfolding grown_def i w p image_Un by (metis Un_assoc append_assoc)
qed

lemma grown_skip:
  assumes "interface_ident he m ifa = None \<or> \<not> include_ignored \<and> ident_ignored he m (the (interface_ident he m ifa))"
  shows "grown he inet_ntop m include_ignored [ifa] st networks st networks"
  using assms by (auto simp: grown_def interface_idents_def interface_IPs_def key_wanted_def has_key_def)

lemma grown_use:
  assumes "interface_ident he m ifa = Some i"
    and "key_at inet_ntop st' ` set networks' = insert (ident_key inet_ntop i) (key_at inet_ntop st ` set networks)"
    and "include_ignored \<or> \<not> ident_ignored he m i \<or> ident_key inet_ntop i \<in> key_at inet_ntop st ` set networks"
    and "\<And>k. ips_at inet_ntop st' networks' k = ips_at inet_ntop st networks k @ (if k = ident_key inet_ntop i then [interface_IP he m ifa] else [])"
  shows "grown he inet_ntop m include_ignored [ifa] st networks st' networks'"
  using assms unfolding grown_def by (auto simp: interface_idents_def interface_IPs_def has_key_def)

lemma grown_new:
  assumes c: "converted inet_ntop idents st0 nxt0 st nxt networks" and k: "key_of inet_ntop net \<notin> key_at inet_ntop st ` set networks"
    and net: "nw_ips net = [interface_IP he m ifa]" and i: "interface_ident he m ifa = Some (network_ident net)"
    and wanted: "include_ignored \<or> \<not> ident_ignored he m (network_ident net)"
  shows "grown he inet_ntop m include_ignored [ifa] st networks (st(nxt \<mapsto> net)) (networks @ [nxt])"
proof (rule grown_use [OF i])
  have nx: "nxt \<notin> set networks" using c unfolding converted_def by auto
  have old: "key_at inet_ntop (st(nxt \<mapsto> net)) p = key_at inet_ntop st p" if "p \<in> set networks" for p using that nx by (auto simp: key_at_def)
  have new: "key_at inet_ntop (st(nxt \<mapsto> net)) nxt = ident_key inet_ntop (network_ident net)" by (simp add: key_at_def key_of_ident)
  show "key_at inet_ntop (st(nxt \<mapsto> net)) ` set (networks @ [nxt]) = insert (ident_key inet_ntop (network_ident net)) (key_at inet_ntop st ` set networks)"
    using old new by (auto simp: image_iff)
  have "ips_at inet_ntop (st(nxt \<mapsto> net)) networks = ips_at inet_ntop st networks" by (rule at_cong) (use nx in auto)
  then show "ips_at inet_ntop (st(nxt \<mapsto> net)) (networks @ [nxt]) k =
      ips_at inet_ntop st networks k @ (if k = ident_key inet_ntop (network_ident net) then [interface_IP he m ifa] else [])" for k
    using new net by (auto simp: ips_at_def fun_eq_iff)
qed (use wanted in blast)

lemma convert_step:
  assumes ok: "ifaddrs_ok ifa" and ids: "interface_idents he m include_ignored [ifa] \<subseteq> idents"
    and c: "converted inet_ntop idents st0 nxt0 st nxt networks" "tracked inet_ntop st networks current"
  shows "\<exists>st' nxt' current' networks'. (\<forall>ifas. convert_loop he inet_ntop m include_ignored (ifa # ifas) st nxt current networks =
      convert_loop he inet_ntop m include_ignored ifas st' nxt' current' networks') \<and>
    converted inet_ntop idents st0 nxt0 st' nxt' networks' \<and> tracked inet_ntop st' networks' current' \<and>
    grown he inet_ntop m include_ignored [ifa] st networks st' networks'"
proof (rule usable_interface_ok [OF ok, of he m])
  assume u: "usable_interface he m ifa = Some None"
  then have "grown he inet_ntop m include_ignored [ifa] st networks st networks" by (intro grown_skip) (simp add: interface_ident_def)
  then show ?thesis using u c by auto
next
  fix ip msk scope assume u: "usable_interface he m ifa = Some (Some (ip, msk, scope))" and v: "ip_valid (interface_address_ip ip)"
  define n where "n = int (count_IP_mask_bits he msk)"
  define prefix where "prefix = truncate_IP he (interface_address_ip ip) n"
  define key where "key = make_network_key inet_ntop (ifa_name ifa) prefix n"
  have i: "interface_ident he m ifa = Some (ifa_name ifa, prefix, n)" using u by (simp add: interface_ident_def Let_def prefix_def n_def)
  have ik: "ident_key inet_ntop (ifa_name ifa, prefix, n) = key" by (simp add: ident_key_def key_def)
  have iip: "interface_IP he m ifa = ip" using u by (simp add: interface_IP_def)
  show ?thesis
  proof (cases "map_of current key")
    case None
    define net0 where "net0 = add_IP (set_scope_id (set_default_local_address_provider
      (network_new inet_ntop (ifa_name ifa) (ifa_name ifa) prefix n (interface_type ifa))) scope) ip"
    define net where "net = set_ignored net0 (is_ignored_network he m net0)"
    have id: "network_ident net = (ifa_name ifa, prefix, n)" "nw_ips net = [ip]"
      "nw_key net = key_of inet_ntop net" "nw_prefix net = prefix"
      by (simp_all add: net_def net0_def network_ident_def set_ignored_def add_IP_def set_scope_id_def set_default_local_address_provider_def network_new_def key_of_def)
    have k: "key_of inet_ntop net = key" unfolding key_of_ident id(1) by (rule ik)
    have ign: "nw_ignored net \<longleftrightarrow> ident_ignored he m (network_ident net)" by (simp add: net_def set_ignored_def is_ignored_ident network_ident_def)
    have step: "convert_loop he inet_ntop m include_ignored (ifa # ifas) st nxt current networks =
      (if include_ignored \<or> \<not> nw_ignored net
       then convert_loop he inet_ntop m include_ignored ifas (st(nxt \<mapsto> net)) (nxt + 1) (smap_put key nxt current) (networks @ [nxt])
       else convert_loop he inet_ntop m include_ignored ifas st (nxt + 1) current networks)" for ifas
      using u None by (simp add: Let_def net_def net0_def key_def prefix_def n_def)
    show ?thesis
    proof (cases "include_ignored \<or> \<not> nw_ignored net")
      case True
      then have "network_ident net \<in> idents" using ids i id(1) ign by (auto simp: interface_idents_def)
      then have nn: "new_network inet_ntop idents net" using id truncate_valid [OF v] by (simp add: new_network_def prefix_def)
      note new = converted_new [OF c _ nn, unfolded k, OF None]
      have "key_of inet_ntop net \<notin> key_at inet_ntop st ` set networks" using c(2) None unfolding tracked_def k by (metis imageE option.distinct(1))
      then have "grown he inet_ntop m include_ignored [ifa] st networks (st(nxt \<mapsto> net)) (networks @ [nxt])"
        by (rule grown_new [OF c(1)]) (use True ign i id iip in simp_all)
      then show ?thesis using new step True by (simp only: if_True) blast
    next
      case False
      have "converted inet_ntop idents st0 nxt0 st (nxt + 1) networks" using c(1) unfolding converted_def by auto
      moreover have "grown he inet_ntop m include_ignored [ifa] st networks st networks" using False ign i id(1) by (intro grown_skip) simp
      ultimately show ?thesis using step False c(2) by (simp only: if_False) blast
    qed
  next
    case (Some p)
    have p: "p \<in> set networks" "key_at inet_ntop st p = key" using c(2) Some unfolding tracked_def by blast+
    have inj: "inj_on (key_at inet_ntop st) (set networks)" "distinct networks" using c(1) by (simp_all add: converted_def)
    obtain st1 where 1: "update_network st p (\<lambda>net. add_IP net ip) = Some st1" "st1 = st(p \<mapsto> add_IP (the (st p)) ip)"
      "key_at inet_ntop st1 = key_at inet_ntop st" "converted inet_ntop idents st0 nxt0 st1 nxt networks" "tracked inet_ntop st1 networks current"
      by (rule converted_update [OF c p(1), where f = "\<lambda>net. add_IP net ip"]) (simp_all add: new_network_add)
    obtain st2 where 2: "update_network st1 p (\<lambda>net. set_type net (interface_type ifa)) = Some st2" "st2 = st1(p \<mapsto> set_type (the (st1 p)) (interface_type ifa))"
      "key_at inet_ntop st2 = key_at inet_ntop st1" "converted inet_ntop idents st0 nxt0 st2 nxt networks" "tracked inet_ntop st2 networks current"
      by (rule converted_update [OF 1(4,5) p(1), where f = "\<lambda>net. set_type net (interface_type ifa)"]) (simp_all add: new_network_add)
    define st' where "st' = (if interface_type ifa \<noteq> ADAPTER_TYPE_UNKNOWN then st2 else st1)"
    have step: "convert_loop he inet_ntop m include_ignored (ifa # ifas) st nxt current networks =
      convert_loop he inet_ntop m include_ignored ifas st' nxt current networks" for ifas
      using u Some 1(1) 2(1) by (simp add: Let_def key_def prefix_def n_def st'_def)
    have keys: "key_at inet_ntop st' = key_at inet_ntop st" using 1(3) 2(3) by (simp add: st'_def)
    have "ips_at inet_ntop st' networks k = ips_at inet_ntop st networks k @ (if k = key then [ip] else [])" for k
      unfolding p(2) [symmetric]
      by (rule ips_at_add [OF inj p(1) keys]) (auto simp: st'_def 1(2) 2(2) add_IP_def set_type_def)
    then have "grown he inet_ntop m include_ignored [ifa] st networks st' networks"
      by (intro grown_use [OF i]) (use keys p iip ik in auto)
    moreover have "converted inet_ntop idents st0 nxt0 st' nxt networks" "tracked inet_ntop st' networks current"
      using 1(4,5) 2(4,5) by (simp_all add: st'_def)
    ultimately show ?thesis using step by blast
  qed
qed

lemma convert_loop_ok:
  assumes "\<forall>ifa \<in> set ifas. ifaddrs_ok ifa" and "interface_idents he m include_ignored ifas \<subseteq> idents"
    and "converted inet_ntop idents st0 nxt0 st nxt networks" and "tracked inet_ntop st networks current"
  shows "\<exists>st' nxt' networks'. convert_loop he inet_ntop m include_ignored ifas st nxt current networks = Some (st', nxt', networks') \<and>
    converted inet_ntop idents st0 nxt0 st' nxt' networks' \<and> grown he inet_ntop m include_ignored ifas st networks st' networks'"
  using assms
proof (induction ifas arbitrary: st nxt networks current)
  case Nil
  then show ?case using grown_Nil by auto
next
  case (Cons ifa ifas)
  have ids: "interface_idents he m include_ignored [ifa] \<subseteq> idents" "interface_idents he m include_ignored ifas \<subseteq> idents"
    using Cons.prems(2) by (auto simp: interface_idents_def)
  have ok: "ifaddrs_ok ifa" "\<forall>ifa \<in> set ifas. ifaddrs_ok ifa" using Cons.prems(1) by simp_all
  obtain st1 nxt1 current1 networks1 where 1: "\<forall>ifas. convert_loop he inet_ntop m include_ignored (ifa # ifas) st nxt current networks =
      convert_loop he inet_ntop m include_ignored ifas st1 nxt1 current1 networks1"
    "converted inet_ntop idents st0 nxt0 st1 nxt1 networks1" "tracked inet_ntop st1 networks1 current1"
    "grown he inet_ntop m include_ignored [ifa] st networks st1 networks1"
    using convert_step [OF ok(1) ids(1) Cons.prems(3,4)] by blast
  from Cons.IH [OF ok(2) ids(2) 1(2,3)] show ?case using 1(1) grown_Cons [OF 1(4)] by (elim exE conjE) (intro exI conjI, simp_all)
qed

text \<open>What the platform is expected to report: well-formed structures, with prefixes that can be ordered.\<close>

definition interfaces_ok :: "endian \<Rightarrow> network_manager \<Rightarrow> ifaddrs list option \<Rightarrow> bool" where
  "interfaces_ok he m gifs \<longleftrightarrow> (\<forall>ifas. gifs = Some ifas \<longrightarrow> (\<forall>ifa \<in> set ifas. ifaddrs_ok ifa) \<and> unambiguous (interface_idents he m False ifas))"

text \<open>The objects alive are those the manager owns.\<close>

definition nm_owned :: "net_store \<Rightarrow> nat \<Rightarrow> network_manager \<Rightarrow> bool" where
  "nm_owned st nxt m \<longleftrightarrow> (\<forall>q. st q \<noteq> None \<longleftrightarrow> q \<in> ran (map_of (nm_networks_map m))) \<and> (\<forall>q \<ge> nxt. st q = None)"

lemma convert_if_addrs_ok:
  assumes "\<forall>ifa \<in> set ifas. ifaddrs_ok ifa"
  shows "\<exists>st' nxt' networks. convert_if_addrs he inet_ntop m include_ignored ifas st nxt = Some (st', nxt', networks) \<and>
    converted inet_ntop (interface_idents he m include_ignored ifas) st nxt st' nxt' networks \<and>
    grown he inet_ntop m include_ignored ifas st [] st' networks"
  unfolding convert_if_addrs_def
  by (rule convert_loop_ok) (use assms in \<open>auto simp: converted_def tracked_def\<close>)

lemma converted_fresh:
  assumes inv: "nm_inv inet_ntop st m" and own: "nm_owned st nxt m" and c: "converted inet_ntop idents st nxt st' nxt' networks"
  shows "nm_inv inet_ntop st' m" "fresh_networks inet_ntop st' m networks"
    "unambiguous idents \<Longrightarrow> strict_weak (\<lambda>p q. compare_networks he (the (st' p)) (the (st' q))) (set networks)"
proof -
  have old: "st' q = st q" if "q < nxt" for q using c that unfolding converted_def by (metis not_le)
  have lt: "q < nxt" if "q \<in> ran (map_of (nm_networks_map m))" for q using own that unfolding nm_owned_def by (metis not_le)
  have keep: "st' p = st p" if "map_of (nm_networks_map m) k = Some p" for k p using old lt that by (metis ranI)
  then show "nm_inv inet_ntop st' m" using inv unfolding nm_inv_def by simp
  have "set networks \<inter> ran (map_of (nm_networks_map m)) = {}" using c lt unfolding converted_def by (meson disjoint_iff not_le)
  then show "fresh_networks inet_ntop st' m networks" using c unfolding fresh_networks_def converted_def new_network_def by blast
  assume "unambiguous idents"
  moreover have "network_ident ` the ` st' ` set networks \<subseteq> idents" "\<forall>net \<in> the ` st' ` set networks. ip_valid (nw_prefix net)"
    using c unfolding converted_def new_network_def by force+
  ultimately show "strict_weak (\<lambda>p q. compare_networks he (the (st' p)) (the (st' q))) (set networks)"
    by (intro strict_weak_store compare_networks_strict_weak) (rule unambiguous_mono)
qed

lemma nm_owned_merge:
  assumes own: "nm_owned st nxt m" and c: "converted inet_ntop idents st nxt st1 nxt' ps" and ms: "merge_spec inet_ntop he ps st1 m st' m' changed"
  shows "nm_owned st' nxt' m'"
proof -
  let ?map = "map_of (nm_networks_map m)" and ?map' = "map_of (nm_networks_map m')"
  have le: "?map \<subseteq>\<^sub>m ?map'" and inv: "nm_inv inet_ntop st' m'" and dead: "\<And>p. p \<in> set ps \<Longrightarrow> st' p \<noteq> None \<longleftrightarrow> p \<in> ran ?map'"
    and same: "\<And>q. q \<notin> set ps \<Longrightarrow> q \<notin> ran ?map \<Longrightarrow> st' q = st1 q"
    using ms unfolding merge_spec_def by simp_all
  have sub: "ran ?map \<subseteq> ran ?map'" 
  proof
    fix p assume "p \<in> ran ?map"
    then obtain k where "?map k = Some p" by (auto simp: ran_def)
    then have "?map' k = Some p" using le by (metis domI map_le_def)
    then show "p \<in> ran ?map'" by (rule ranI)
  qed
  have live: "st' q \<noteq> None" if "q \<in> ran ?map'" for q using that inv unfolding nm_inv_def ran_def by fastforce
  have none: "st' q = None" if q: "q \<notin> ran ?map'" for q
  proof (cases "q \<in> set ps")
    case False
    have "q \<notin> ran ?map" using q sub by blast
    then have "st q = None" using own unfolding nm_owned_def by blast
    then show ?thesis using same [OF False \<open>q \<notin> ran ?map\<close>] c False unfolding converted_def by simp
  qed (use dead q in blast)
  have "st' q = None" if q: "nxt' \<le> q" for q
  proof -
    have "q \<notin> set ps" "nxt \<le> q" using c q unfolding converted_def by (meson not_le, meson le_trans)
    moreover from this have "st q = None" using own unfolding nm_owned_def by blast
    moreover from this have "q \<notin> ran ?map" using own unfolding nm_owned_def by blast
    ultimately show ?thesis using same c unfolding converted_def by simp
  qed
  then have free: "\<forall>q \<ge> nxt'. st' q = None" by blast
  have "\<forall>q. st' q \<noteq> None \<longleftrightarrow> q \<in> ran ?map'"
  proof
    show "st' q \<noteq> None \<longleftrightarrow> q \<in> ran ?map'" for q using live [of q] none [of q] by (cases "q \<in> ran ?map'") simp_all
  qed
  then show ?thesis unfolding nm_owned_def using free by (rule conjI)
qed

section \<open>The whole update\<close>

definition updated :: "endian \<Rightarrow> ntop \<Rightarrow> ifaddrs list \<Rightarrow> network_manager \<Rightarrow> net_store \<Rightarrow> network_manager \<Rightarrow> nm_event list \<Rightarrow> bool" where
  "updated he inet_ntop ifas m st' m' events \<longleftrightarrow>
     key_at inet_ntop st' ` set (nm_networks m') = ident_key inet_ntop ` interface_idents he m False ifas \<and>
     (\<forall>p \<in> set (nm_networks m'). key_wanted he inet_ntop m False ifas (key_at inet_ntop st' p) \<longrightarrow>
       mset (nw_ips (the (st' p))) = mset (interface_IPs he inet_ntop m (key_at inet_ntop st' p) ifas)) \<and>
     nm_sent_first_update m' \<and>
     (events = [NetworksChanged] \<or> events = [] \<and> nm_sent_first_update m \<and> nm_networks m' = nm_networks m)"

lemma updated_merge:
  assumes g: "grown he inet_ntop m False ifas st [] st1 ps" and ms: "merge_spec inet_ntop he ps st1 m st' m' changed"
  shows "updated he inet_ntop ifas m st' (m'\<lparr>nm_sent_first_update := True\<rparr>) [NetworksChanged]"
    and "\<not> changed \<Longrightarrow> nm_sent_first_update m' \<Longrightarrow> updated he inet_ntop ifas m st' m' []"
proof -
  let ?map = "map_of (nm_networks_map m)" and ?map' = "map_of (nm_networks_map m')"
  have m': "m' = m\<lparr>nm_networks := nm_networks m', nm_networks_map := nm_networks_map m', nm_next_available_network_id := nm_next_available_network_id m'\<rparr>"
    and keys: "key_at inet_ntop st' ` set (nm_networks m') = key_at inet_ntop st1 ` set ps"
    and ips: "\<And>p. p \<in> set (nm_networks m') \<Longrightarrow> mset (nw_ips (the (st' p))) = mset (ips_at inet_ntop st1 ps (key_at inet_ntop st' p))"
    and un: "\<not> changed \<Longrightarrow> nm_networks m' = nm_networks m"
    using ms unfolding merge_spec_def by simp_all
  have k: "key_at inet_ntop st1 ` set ps = ident_key inet_ntop ` interface_idents he m False ifas" using g by (simp add: grown_def)
  have i: "ips_at inet_ntop st1 ps k = interface_IPs he inet_ntop m k ifas" if "key_wanted he inet_ntop m False ifas k" for k
    using g that by (simp add: grown_def ips_at_def)
  have sent: "nm_sent_first_update m' = nm_sent_first_update m" by (subst m') simp
  show "updated he inet_ntop ifas m st' (m'\<lparr>nm_sent_first_update := True\<rparr>) [NetworksChanged]"
    using keys k ips i unfolding updated_def by simp
  assume "\<not> changed" "nm_sent_first_update m'"
  then show "updated he inet_ntop ifas m st' m' []" using keys k ips i un sent unfolding updated_def by simp
qed

lemma nm_sent_irrelevant:
  "nm_inv inet_ntop st (m\<lparr>nm_sent_first_update := b\<rparr>) = nm_inv inet_ntop st m"
  "nm_owned st nxt (m\<lparr>nm_sent_first_update := b\<rparr>) = nm_owned st nxt m"
  by (simp_all add: nm_inv_def nm_owned_def)

lemma update_networks_once_ok:
  assumes "std_sort srt" and "nm_inv inet_ntop st m" and "nm_owned st nxt m" and "interfaces_ok he m gifs"
  shows "\<exists>st' nxt' m' events. update_networks_once srt he inet_ntop gifs st nxt m = Some (st', nxt', m', events) \<and>
    nm_inv inet_ntop st' m' \<and> nm_owned st' nxt' m' \<and>
    (case gifs of None \<Rightarrow> events = [NetworksError] \<and> st' = st \<and> m' = m | Some ifas \<Rightarrow> updated he inet_ntop ifas m st' m' events)"
proof (cases gifs)
  case None
  then show ?thesis using assms(2,3) by (simp add: update_networks_once_def create_networks_def)
next
  case (Some ifas)
  have ok: "\<forall>ifa \<in> set ifas. ifaddrs_ok ifa" "unambiguous (interface_idents he m False ifas)" using assms(4) Some by (simp_all add: interfaces_ok_def)
  obtain st1 nxt1 ps where c: "convert_if_addrs he inet_ntop m False ifas st nxt = Some (st1, nxt1, ps)"
    "converted inet_ntop (interface_idents he m False ifas) st nxt st1 nxt1 ps" "grown he inet_ntop m False ifas st [] st1 ps"
    using convert_if_addrs_ok [OF ok(1), of he inet_ntop m False st nxt] by blast
  note fresh = converted_fresh [OF assms(2,3) c(2)]
  obtain st' m' changed stats where r: "merge_network_list srt he inet_ntop ps st1 m nm_stats_new = Some (st', m', changed, stats)"
    "merge_spec inet_ntop he ps st1 m st' m' changed"
    using merge_network_list_ok [OF assms(1) fresh(1,2) fresh(3) [OF ok(2)], where stats = nm_stats_new] by blast
  have inv: "nm_inv inet_ntop st' m'" "nm_owned st' nxt1 m'" using r(2) nm_owned_merge [OF assms(3) c(2) r(2)] by (simp_all add: merge_spec_def)
  note up = updated_merge [OF c(3) r(2)]
  show ?thesis
  proof (cases "changed \<or> \<not> nm_sent_first_update m'")
    case True
    then have "update_networks_once srt he inet_ntop gifs st nxt m = Some (st', nxt1, m'\<lparr>nm_sent_first_update := True\<rparr>, [NetworksChanged])"
      using c(1) r(1) Some by (simp add: update_networks_once_def create_networks_def)
    then show ?thesis using up(1) inv Some by (simp add: nm_sent_irrelevant)
  next
    case False
    then have "update_networks_once srt he inet_ntop gifs st nxt m = Some (st', nxt1, m', [])"
      using c(1) r(1) Some by (simp add: update_networks_once_def create_networks_def)
    then show ?thesis using up(2) False inv Some by simp
  qed
qed

section \<open>The manager from its construction to its destruction\<close>

text \<open>The states a manager can be in, for what the platform reports at each update.\<close>

inductive nm_reach :: "((nat \<Rightarrow> nat \<Rightarrow> bool) \<Rightarrow> nat list \<Rightarrow> nat list) \<Rightarrow> endian \<Rightarrow> ntop \<Rightarrow> net_store \<Rightarrow> nat \<Rightarrow> network_manager \<Rightarrow> bool"
  for srt he inet_ntop where
  reach_new: "nm_reach srt he inet_ntop (\<lambda>_. None) nxt network_manager_new"
| reach_start: "nm_reach srt he inet_ntop st nxt m \<Longrightarrow> interfaces_ok he m gifs \<Longrightarrow>
    start_updating srt he inet_ntop gifs st nxt m = Some (st', nxt', m', events) \<Longrightarrow> nm_reach srt he inet_ntop st' nxt' m'"
| reach_stop: "nm_reach srt he inet_ntop st nxt m \<Longrightarrow> nm_reach srt he inet_ntop st nxt (stop_updating m)"

lemma start_updating_ok:
  assumes "std_sort srt" and "nm_inv inet_ntop st m" and "nm_owned st nxt m" and "interfaces_ok he m gifs"
  shows "\<exists>st' nxt' m' events. start_updating srt he inet_ntop gifs st nxt m = Some (st', nxt', m', events) \<and>
    nm_inv inet_ntop st' m' \<and> nm_owned st' nxt' m'"
  using update_networks_once_ok [OF assms] assms(2,3) by (auto simp: start_updating_def)

lemma nm_reach_inv:
  assumes "nm_reach srt he inet_ntop st nxt m" and "std_sort srt"
  shows "nm_inv inet_ntop st m \<and> nm_owned st nxt m"
  using assms(1)
proof induction
  case (reach_new nxt)
  then show ?case by (simp add: nm_inv_def nm_owned_def network_manager_new_def smap_ok_def)
next
  case (reach_start st nxt m gifs st' nxt' m' events)
  then show ?case using start_updating_ok [OF assms(2), of inet_ntop st m nxt he gifs] by auto
next
  case (reach_stop st nxt m)
  then show ?case by (simp add: stop_updating_def nm_sent_irrelevant)
qed

lemma delete_networks_ok:
  assumes "distinct ps" and "\<forall>p \<in> set ps. st p \<noteq> None"
  shows "delete_networks st ps = Some (\<lambda>q. if q \<in> set ps then None else st q)"
  using assms
proof (induction ps arbitrary: st)
  case (Cons p ps)
  obtain net where net: "st p = Some net" using Cons.prems(2) by auto
  have "\<forall>q \<in> set ps. (st(p := None)) q \<noteq> None" using Cons.prems by auto
  from Cons.IH [OF _ this] have "delete_networks (st(p := None)) ps = Some (\<lambda>q. if q \<in> set ps then None else (st(p := None)) q)"
    using Cons.prems(1) by (simp del: fun_upd_apply)
  moreover have "(\<lambda>q. if q \<in> set ps then None else (st(p := None)) q) = (\<lambda>q. if q \<in> set (p # ps) then None else st q)" by auto
  ultimately show ?case using net by (simp add: delete_network_def del: fun_upd_apply)
qed simp

lemma nm_inv_distinct: "nm_inv inet_ntop st m \<Longrightarrow> distinct (map snd (nm_networks_map m))"
proof -
  assume inv: "nm_inv inet_ntop st m"
  then have ok: "smap_ok (nm_networks_map m)" by (simp add: nm_inv_def)
  have d: "distinct (nm_networks_map m)" using smap_distinct [OF ok] by (simp add: distinct_map)
  moreover have "inj_on snd (set (nm_networks_map m))"
  proof (rule inj_onI)
    fix x y assume xy: "x \<in> set (nm_networks_map m)" "y \<in> set (nm_networks_map m)" "snd x = snd y"
    then have "map_of (nm_networks_map m) (fst x) = Some (snd x)" "map_of (nm_networks_map m) (fst y) = Some (snd x)"
      using smap_map_of [OF ok] by (metis prod.collapse)+
    then have "fst x = fst y" using nm_inv_object [OF inv] by (metis option.inject)
    then show "x = y" using xy(3) by (rule prod_eqI)
  qed
  ultimately show ?thesis by (simp add: distinct_map)
qed

lemma network_manager_destroy_ok:
  assumes inv: "nm_inv inet_ntop st m" and own: "nm_owned st nxt m"
  shows "network_manager_destroy st m = Some (\<lambda>_. None)"
proof -
  have ran: "snd ` set (nm_networks_map m) = ran (map_of (nm_networks_map m))"
    using inv ran_distinct [OF smap_distinct, of "nm_networks_map m"] by (simp add: nm_inv_def)
  have live: "st q \<noteq> None \<longleftrightarrow> q \<in> ran (map_of (nm_networks_map m))" for q using own by (simp add: nm_owned_def)
  have "\<forall>p \<in> set (map snd (nm_networks_map m)). st p \<noteq> None" using live unfolding set_map ran by blast
  from delete_networks_ok [OF nm_inv_distinct [OF inv] this]
  have "network_manager_destroy st m = Some (\<lambda>q. if q \<in> ran (map_of (nm_networks_map m)) then None else st q)"
    by (simp add: network_manager_destroy_def ran)
  also have "(\<lambda>q. if q \<in> ran (map_of (nm_networks_map m)) then None else st q) = (\<lambda>_. None)" using live by (intro ext) (metis)
  finally show ?thesis .
qed

section \<open>What the clients read\<close>

definition is_v6_network :: "net_store \<Rightarrow> nat \<Rightarrow> bool" where
  "is_v6_network st p \<longleftrightarrow> ip_family (nw_prefix (the (st p))) = AF_INET6"

lemma get_networks_loop_ok:
  assumes "\<forall>p \<in> set ps. st p \<noteq> None"
  shows "\<exists>ns. get_networks_loop st max_ipv6 ps n = Some ns \<and> subseq ns ps \<and>
    filter (\<lambda>p. \<not> is_v6_network st p) ns = filter (\<lambda>p. \<not> is_v6_network st p) ps \<and>
    filter (is_v6_network st) ns = take (nat (max_ipv6 - n)) (filter (is_v6_network st) ps)"
  using assms
proof (induction ps arbitrary: n)
  case (Cons p ps)
  obtain net where net: "st p = Some net" using Cons.prems by auto
  have rest: "\<forall>p \<in> set ps. st p \<noteq> None" using Cons.prems by simp
  have v6: "is_v6_network st p \<longleftrightarrow> ip_family (nw_prefix net) = AF_INET6" by (simp add: is_v6_network_def net)
  consider (skip) "is_v6_network st p" "n \<ge> max_ipv6" | (take6) "is_v6_network st p" "n < max_ipv6" | (take4) "\<not> is_v6_network st p" by linarith
  then show ?case
  proof cases
    case skip
    then show ?thesis using Cons.IH [OF rest, of n] net v6 by (auto intro: subseq_Cons')
  next
    case take6
    then have "nat (max_ipv6 - n) = Suc (nat (max_ipv6 - (n + 1)))" by simp
    then show ?thesis using Cons.IH [OF rest, of "n + 1"] net v6 take6 by auto
  next
    case take4
    then show ?thesis using Cons.IH [OF rest, of n] net v6 by auto
  qed
qed simp

text \<open>The order in which \<open>get_best_IP\<close> prefers the addresses of an IPv6 network.\<close>

definition usable_global :: "interface_address \<Rightarrow> bool" where
  "usable_global ip \<longleftrightarrow> ipv6_flags ip AND IPV6_ADDRESS_FLAG_DEPRECATED = 0 \<and> \<not> IP_is_ULA (interface_address_ip ip)"

definition usable_ULA :: "interface_address \<Rightarrow> bool" where
  "usable_ULA ip \<longleftrightarrow> ipv6_flags ip AND IPV6_ADDRESS_FLAG_DEPRECATED = 0 \<and> IP_is_ULA (interface_address_ip ip)"

definition preferred_IP :: "interface_address list \<Rightarrow> interface_address" where
  "preferred_IP ips =
     (case find (\<lambda>ip. usable_global ip \<and> ipv6_flags ip AND IPV6_ADDRESS_FLAG_TEMPORARY \<noteq> 0) ips of
        Some ip \<Rightarrow> ip
      | None \<Rightarrow> if filter usable_global ips \<noteq> [] then last (filter usable_global ips)
          else if filter usable_ULA ips \<noteq> [] then last (filter usable_ULA ips) else interface_address_nil)"

lemma best_IP_loop_selected:
  "fst (best_IP_loop ips sel ula) =
     (case find (\<lambda>ip. usable_global ip \<and> ipv6_flags ip AND IPV6_ADDRESS_FLAG_TEMPORARY \<noteq> 0) ips of
        Some ip \<Rightarrow> ip | None \<Rightarrow> if filter usable_global ips \<noteq> [] then last (filter usable_global ips) else sel)"
  by (induction ips arbitrary: sel ula) (auto simp: usable_global_def split: option.splits)

lemma best_IP_loop_ULA:
  "filter usable_global ips = [] \<Longrightarrow>
    snd (best_IP_loop ips sel ula) = (if filter usable_ULA ips \<noteq> [] then last (filter usable_ULA ips) else ula)"
  by (induction ips arbitrary: sel ula) (auto simp: usable_global_def usable_ULA_def split: if_splits)

lemma find_filter: "filter P xs = [] \<Longrightarrow> find (\<lambda>x. P x \<and> Q x) xs = None"
  by (induction xs) (auto split: if_splits)

lemma preferred_IP_in: "preferred_IP ips \<in> set ips \<or> preferred_IP ips = interface_address_nil"
  using last_in_set [of "filter usable_global ips"] last_in_set [of "filter usable_ULA ips"]
  by (auto simp: preferred_IP_def find_Some_iff split: option.splits)

lemma preferred_global: "filter usable_global ips \<noteq> [] \<Longrightarrow> preferred_IP ips \<in> set ips"
  using last_in_set [of "filter usable_global ips"]
  by (auto simp: preferred_IP_def find_Some_iff split: option.splits)

section \<open>Properties\<close>

text \<open>
  C3. A network manager after any sequence of \<open>start_updating\<close> and \<open>stop_updating\<close> calls, each update of which found well-formed interfaces
  with unambiguous prefixes: no interface with two prefixes of one length and a third prefix of another length, for which the comparison \<open>compare_networks\<close> handed
  to \<open>std::sort\<close> is not an order.  Then the manager is consistent (map keys, object keys, active flags and
  the current list agree) and owns exactly the live \<open>Network\<close> objects; a further update that finds such interfaces succeeds; and the
  destructor deletes each object once and leaves none behind.
\<close>

theorem network_manager_lifecycle:
  assumes "std_sort srt" and "nm_reach srt he inet_ntop st nxt m"
  shows "nm_inv inet_ntop st m \<and> nm_owned st nxt m \<and> network_manager_destroy st m = Some (\<lambda>_. None) \<and>
    (\<forall>gifs. interfaces_ok he m gifs \<longrightarrow> start_updating srt he inet_ntop gifs st nxt m \<noteq> None)"
  using nm_reach_inv [OF assms(2,1)] network_manager_destroy_ok start_updating_ok [OF assms(1)] by fastforce



text \<open>
  \<open>get_networks\<close> returns the current list without the IPv6 networks beyond the first
  \<open>_max_ipv6_networks\<close>: all other networks, all in their order.
\<close>

theorem get_networks_correct:
  assumes "nm_inv inet_ntop st m"
  shows "\<exists>ns. get_networks st m = Some ns \<and> subseq ns (nm_networks m) \<and>
    filter (\<lambda>p. \<not> is_v6_network st p) ns = filter (\<lambda>p. \<not> is_v6_network st p) (nm_networks m) \<and>
    filter (is_v6_network st) ns = take (nat (nm_max_ipv6_networks m)) (filter (is_v6_network st) (nm_networks m))"
proof -
  have "\<forall>p \<in> set (nm_networks m). st p \<noteq> None"
  proof
    fix p assume "p \<in> set (nm_networks m)"
    then obtain k where k: "map_of (nm_networks_map m) k = Some p" using assms by (auto simp: nm_inv_def ran_def)
    show "st p \<noteq> None" by (rule nm_inv_object [OF assms k]) simp
  qed
  from get_networks_loop_ok [OF this, of "nm_max_ipv6_networks m" 0] show ?thesis by (simp add: get_networks_def)
qed

text \<open>
  \<open>get_best_IP\<close> of a network that is not IPv4: the first temporary address that is neither deprecated
  nor unique local; without one the last global address that is not deprecated; then the last unique
  local one; and the unspecified address when there is none of them.
\<close>

theorem get_best_IP_correct:
  assumes "ip_family (nw_prefix net) \<noteq> AF_INET" and "\<forall>ip \<in> set (nw_ips net). ip_family ip \<noteq> AF_UNSPEC"
  shows "get_best_IP net = interface_address_ip (preferred_IP (nw_ips net))"
proof -
  let ?ips = "nw_ips net"
  obtain sel ula where r: "best_IP_loop ?ips interface_address_nil interface_address_nil = (sel, ula)" by fastforce
  have unspec: "IP_is_unspec (interface_address_ip interface_address_nil)" "\<And>ip. ip \<in> set ?ips \<Longrightarrow> \<not> IP_is_unspec (interface_address_ip ip)"
    using assms(2) by (simp_all add: interface_address_nil_def IP_is_unspec_def ip_nil_def interface_address_ip_def interface_address_of_def)
  have s: "sel = (if filter usable_global ?ips \<noteq> [] then preferred_IP ?ips else interface_address_nil)"
    using best_IP_loop_selected [of ?ips interface_address_nil interface_address_nil] r
    by (auto simp: preferred_IP_def find_filter split: option.splits)
  show ?thesis
  proof (cases "filter usable_global ?ips = []")
    case True
    have "ula = preferred_IP ?ips" using best_IP_loop_ULA [OF True, of interface_address_nil interface_address_nil] r True
      by (simp add: preferred_IP_def find_filter)
    moreover have "preferred_IP ?ips = interface_address_nil \<or> \<not> IP_is_unspec (interface_address_ip (preferred_IP ?ips))"
      using preferred_IP_in [of ?ips] unspec(2) by blast
    moreover have "nw_ips net = [] \<Longrightarrow> preferred_IP ?ips = interface_address_nil" by (simp add: preferred_IP_def)
    moreover have "interface_address_ip interface_address_nil = ip_nil" by (simp add: interface_address_nil_def)
    ultimately show ?thesis using assms(1) r s True unspec(1) by (auto simp: get_best_IP_def)
  next
    case False
    then have "\<not> IP_is_unspec (interface_address_ip sel)" using s preferred_global [OF False] unspec(2) by simp
    then show ?thesis using assms(1) r s False by (auto simp: get_best_IP_def)
  qed
qed

section \<open>Examples\<close>

definition no_ntop :: ntop where "no_ntop = (\<lambda>_ _. None)"

definition eth0_ifaddrs :: ifaddrs where
  "eth0_ifaddrs = \<lparr>ifa_name = str ''eth0'', ifa_flags = 0x41, ifa_addr = Some (Sockaddr_in 0 0x0100000A), ifa_netmask = Some (Sockaddr_in 0 0x00FFFFFF)\<rparr>"

definition eth0_network :: network where
  "eth0_network = add_IP (network_new no_ntop (str ''eth0'') (str ''eth0'') (ip_of_in_addr LittleEndian 0x0000000A) 24 ADAPTER_TYPE_ETHERNET)
     (interface_address_of (ip_of_in_addr LittleEndian 0x0100000A) 0)"

lemma eth0_interfaces_ok: "interfaces_ok he m (Some [eth0_ifaddrs])"
  by (auto simp: interfaces_ok_def eth0_ifaddrs_def ifaddrs_ok_def unambiguous_def interface_idents_def)

lemma network_manager_new_inv: "nm_inv inet_ntop (\<lambda>_. None) network_manager_new" "nm_owned (\<lambda>_. None) nxt network_manager_new"
  by (simp_all add: nm_inv_def nm_owned_def network_manager_new_def smap_ok_def)

theorem network_manager_lifecycle_witness:
  "\<exists>gifs. interfaces_ok LittleEndian (stop_updating network_manager_new) gifs \<and>
     start_updating insertion_sort LittleEndian no_ntop gifs (\<lambda>_. None) 0 (stop_updating network_manager_new) \<noteq> None"
  using network_manager_lifecycle [OF insertion_sort_std reach_stop [OF reach_new], where he = LittleEndian and inet_ntop = no_ntop and nxt = 0] eth0_interfaces_ok by blast



definition one_network_manager :: network_manager where
  "one_network_manager = network_manager_new\<lparr>nm_networks := [7], nm_networks_map := [(nw_key eth0_network, 7)]\<rparr>"

theorem get_networks_correct_witness:
  "get_networks [7 \<mapsto> eth0_network] one_network_manager = Some [7]"
proof -
  have "nm_inv no_ntop [7 \<mapsto> eth0_network] one_network_manager"
    by (simp add: nm_inv_def one_network_manager_def network_manager_new_def smap_ok_def eth0_network_def key_of_def network_new_def add_IP_def)
  moreover have "\<not> is_v6_network [7 \<mapsto> eth0_network] 7"
    by (simp add: is_v6_network_def eth0_network_def network_new_def add_IP_def ip_of_in_addr_def)
  ultimately obtain ns where ns: "get_networks [7 \<mapsto> eth0_network] one_network_manager = Some ns" "subseq ns [7]"
    "filter (\<lambda>p. \<not> is_v6_network [7 \<mapsto> eth0_network] p) ns = [7]"
    using get_networks_correct [of no_ntop "[7 \<mapsto> eth0_network]" one_network_manager] by (auto simp: one_network_manager_def)
  have "length ns \<le> 1" using list_emb_length [OF ns(2)] by simp
  then have "ns = [7]" using ns(3) by (cases ns) (auto split: if_splits)
  then show ?thesis using ns(1) by simp
qed

definition v6_network :: "interface_address list \<Rightarrow> network" where
  "v6_network ips = (network_new no_ntop [] [] (ip_of_in6_addr (replicate 16 0)) 64 ADAPTER_TYPE_WIFI)\<lparr>nw_ips := ips\<rparr>"

theorem get_best_IP_correct_witness:
  "get_best_IP (v6_network [interface_address_of (ip_of_in6_addr (0x20 # replicate 15 1)) 0, interface_address_of (ip_of_in6_addr (0x20 # replicate 15 2)) 1]) =
     ip_of_in6_addr (0x20 # replicate 15 2)"
proof -
  let ?a = "interface_address_of (ip_of_in6_addr (0x20 # replicate 15 1)) 0" and ?b = "interface_address_of (ip_of_in6_addr (0x20 # replicate 15 2)) 1"
  have p: "preferred_IP [?a, ?b] = ?b" by code_simp
  have "ip_family (nw_prefix (v6_network [?a, ?b])) \<noteq> AF_INET" "\<forall>ip \<in> set (nw_ips (v6_network [?a, ?b])). ip_family ip \<noteq> AF_UNSPEC" by code_simp+
  from get_best_IP_correct [OF this] show ?thesis by (simp add: v6_network_def p)
qed

section \<open>What the code does not do\<close>

text \<open>
  With three prefixes of one interface, two of them of one length, the comparison of the first sort is not
  a strict weak order: the first and the last differ although both are equivalent to the middle one.
\<close>

definition eth0_prefix :: "u32 \<Rightarrow> int \<Rightarrow> network" where
  "eth0_prefix a n = network_new no_ntop (str ''eth0'') [] (ip_of_host_order BigEndian a) n ADAPTER_TYPE_ETHERNET"

lemma compare_networks_not_weak:
  "\<not> strict_weak (compare_networks BigEndian) {eth0_prefix 0x0A000000 24, eth0_prefix 0x0B000000 16, eth0_prefix 0x0A000100 24}"
proof
  let ?a = "eth0_prefix 0x0A000000 24" and ?b = "eth0_prefix 0x0B000000 16" and ?c = "eth0_prefix 0x0A000100 24"
  have 1: "\<not> compare_networks BigEndian ?a ?b" "\<not> compare_networks BigEndian ?b ?a" "\<not> compare_networks BigEndian ?b ?c" "\<not> compare_networks BigEndian ?c ?b"
    by code_simp+
  have 2: "compare_networks BigEndian ?a ?c" by code_simp
  assume "strict_weak (compare_networks BigEndian) {?a, ?b, ?c}"
  then show False using 1 2 unfolding strict_weak_def by blast
qed

text \<open>\<open>set_IPs\<close> does not notice that one of two addresses is gone when the other one is reported twice.\<close>

lemma set_IPs_misses_removal:
  "\<not> fst (set_IPs (v6_network [interface_address_of (ip_of_in6_addr (replicate 16 1)) 0, interface_address_of (ip_of_in6_addr (replicate 16 2)) 0])
     [interface_address_of (ip_of_in6_addr (replicate 16 1)) 0, interface_address_of (ip_of_in6_addr (replicate 16 1)) 0] False)"
  by code_simp

end
