(* ===== verification/NetworkText.thy ===== *)
theory NetworkText
  imports Network StringEncode
begin

text \<open>
  The anonymised texts of \<open>IPAddress\<close>, \<open>SocketAddress\<close> and \<open>Network\<close> (\<open>to_sensitive_string\<close>, \<open>host_as_sensitive_URI_string\<close>,
  \<open>Network::to_string\<close>).  \<open>ndebug\<close> says whether the file is compiled with \<open>NDEBUG\<close>; without it the texts are
  not anonymised.
\<close>

section \<open>Formatting\<close>

text \<open>The conversion \<open>%x\<close>, and \<open>sprintfn\<close> into a buffer: at most \<open>buflen - 1\<close> characters of the formatted text.\<close>

fun hex_nat :: "nat \<Rightarrow> byte list" where
  "hex_nat n = (if n < 16 then [HEX ! n] else hex_nat (n div 16) @ [HEX ! (n mod 16)])"

declare hex_nat.simps [simp del]

definition sprintfn :: "nat \<Rightarrow> byte list \<Rightarrow> byte list" where
  "sprintfn buflen formatted = (if length formatted \<ge> buflen then take (buflen - 1) formatted else formatted)"

text \<open>\<open>rfind\<close> and \<open>find\<close> of a character; \<open>None\<close> is \<open>npos\<close>.\<close>

fun rfind_char :: "byte \<Rightarrow> byte list \<Rightarrow> nat option" where
  "rfind_char c [] = None"
| "rfind_char c (x # xs) = (case rfind_char c xs of Some i \<Rightarrow> Some (Suc i) | None \<Rightarrow> if x = c then Some 0 else None)"

fun find_char :: "byte \<Rightarrow> byte list \<Rightarrow> nat option" where
  "find_char c [] = None"
| "find_char c (x # xs) = (if x = c then Some 0 else map_option Suc (find_char c xs))"

section \<open>Addresses\<close>

definition INET6_ADDRSTRLEN :: nat where "INET6_ADDRSTRLEN = 46"

definition group_value :: "byte list \<Rightarrow> nat \<Rightarrow> nat" where
  "group_value bs i = unat (bs ! i) * 256 + unat (bs ! (i + 1))"

definition ip_to_sensitive_string :: "bool \<Rightarrow> ntop \<Rightarrow> ip_address \<Rightarrow> bstring" where
  "ip_to_sensitive_string ndebug inet_ntop ip =
     (if \<not> ndebug then ip_to_string inet_ntop ip
      else case ip_family ip of
        AF_INET \<Rightarrow>
          (let address = ip_to_string inet_ntop ip
           in case rfind_char (of_char CHR ''.'') address of
                None \<Rightarrow> []
              | Some find_pos \<Rightarrow> take find_pos address @ str ''.x'')
      | AF_INET6 \<Rightarrow>
          (let addr = ipv6_address ip
           in sprintfn INET6_ADDRSTRLEN (hex_nat (group_value addr 0) @ str '':'' @ hex_nat (group_value addr 2) @ str '':'' @
                hex_nat (group_value addr 4) @ str '':x:x:x:x:x''))
      | AF_UNSPEC \<Rightarrow> [])"

definition sa_host_as_sensitive_URI_string :: "bool \<Rightarrow> ntop \<Rightarrow> socket_address \<Rightarrow> bstring" where
  "sa_host_as_sensitive_URI_string ndebug inet_ntop a =
     (if \<not> sa_literal a \<and> sa_hostname a \<noteq> [] then sa_hostname a
      else if ip_family (sa_ip a) = AF_INET6 then str ''['' @ ip_to_sensitive_string ndebug inet_ntop (sa_ip a) @ str '']''
      else ip_to_sensitive_string ndebug inet_ntop (sa_ip a))"

definition sa_to_sensitive_string :: "bool \<Rightarrow> ntop \<Rightarrow> socket_address \<Rightarrow> bstring" where
  "sa_to_sensitive_string ndebug inet_ntop a =
     sa_host_as_sensitive_URI_string ndebug inet_ntop a @ str '':'' @ dec_nat (unat (sa_port a))"

section \<open>Networks\<close>

definition adapter_type_to_string :: "adapter_type \<Rightarrow> bstring" where
  "adapter_type_to_string type =
     (case type of
        ADAPTER_TYPE_UNKNOWN \<Rightarrow> str ''Unknown'' | ADAPTER_TYPE_ETHERNET \<Rightarrow> str ''Ethernet'' | ADAPTER_TYPE_WIFI \<Rightarrow> str ''Wifi''
      | ADAPTER_TYPE_CELLULAR \<Rightarrow> str ''Cellular'' | ADAPTER_TYPE_VPN \<Rightarrow> str ''VPN'' | ADAPTER_TYPE_LOOPBACK \<Rightarrow> str ''Loopback''
      | ADAPTER_TYPE_ANY \<Rightarrow> [])"

definition network_to_string :: "bool \<Rightarrow> ntop \<Rightarrow> network \<Rightarrow> bstring" where
  "network_to_string ndebug inet_ntop net =
     (let desc = (case find_char (of_char CHR '' '') (nw_description net) of None \<Rightarrow> nw_description net | Some n \<Rightarrow> take n (nw_description net))
      in str ''Net['' @ desc @ str '':'' @ ip_to_sensitive_string ndebug inet_ntop (nw_prefix net) @ str ''/'' @
         dec_int (nw_prefix_length net) @ str '':'' @ adapter_type_to_string (nw_type net) @ str '']'')"

section \<open>What the texts show\<close>

lemma hex_nat_length:
  assumes "n < 16 ^ Suc k"
  shows "length (hex_nat n) \<le> Suc k"
  using assms
proof (induction k arbitrary: n)
  case (Suc k)
  show ?case
  proof (cases "n < 16")
    case False
    have "n div 16 < 16 ^ Suc k" using Suc.prems by (simp add: less_mult_imp_div_less)
    from Suc.IH [OF this] show ?thesis using False by (simp add: hex_nat.simps [of n])
  qed (simp add: hex_nat.simps)
qed (simp add: hex_nat.simps)

lemma group_value_bound: "group_value bs i < 16 ^ Suc 3"
  using unsigned_less [of "bs ! i", where 'a = nat] unsigned_less [of "bs ! (i + 1)", where 'a = nat] by (simp add: group_value_def)

lemma rfind_char_split:
  assumes "c \<notin> set ys"
  shows "rfind_char c (xs @ c # ys) = Some (length xs)"
proof -
  have "rfind_char c ys = None" using assms by (induction ys) auto
  then show ?thesis by (induction xs) simp_all
qed

text \<open>The anonymised text of an IPv6 address fits the buffer: \<open>sprintfn\<close> cuts nothing off.\<close>

lemma sensitive_v6:
  assumes "ip_family ip = AF_INET6"
  shows "ip_to_sensitive_string True inet_ntop ip =
    hex_nat (group_value (ip_u ip) 0) @ str '':'' @ hex_nat (group_value (ip_u ip) 2) @ str '':'' @ hex_nat (group_value (ip_u ip) 4) @ str '':x:x:x:x:x''"
proof -
  have "length (hex_nat (group_value (ip_u ip) i)) \<le> 4" for i using hex_nat_length [OF group_value_bound, of "ip_u ip" i] by simp
  from this [of 0] this [of 2] this [of 4] show ?thesis
    using assms by (simp add: ip_to_sensitive_string_def sprintfn_def INET6_ADDRSTRLEN_def ipv6_address_def str_def Let_def)
qed

text \<open>
  Compiled with \<open>NDEBUG\<close>, the text for logs shows no more of an address than its network: it is the same for
  two IPv6 addresses with the same first six bytes, and it replaces what follows the last dot of an IPv4
  address by \<open>x\<close>.
\<close>

theorem to_sensitive_string_anonymous:
  "(ip_family a = AF_INET6 \<and> ip_family b = AF_INET6 \<and> length (ip_u a) = 16 \<and> length (ip_u b) = 16 \<and> take 6 (ip_u a) = take 6 (ip_u b) \<longrightarrow>
      ip_to_sensitive_string True inet_ntop a = ip_to_sensitive_string True inet_ntop b) \<and>
   (\<forall>front tail. ip_family a = AF_INET \<and> of_char CHR ''.'' \<notin> set tail \<and> ip_to_string inet_ntop a = front @ of_char CHR ''.'' # tail \<longrightarrow>
      ip_to_sensitive_string True inet_ntop a = front @ str ''.x'')"
proof (intro conjI impI allI)
  assume h: "ip_family a = AF_INET6 \<and> ip_family b = AF_INET6 \<and> length (ip_u a) = 16 \<and> length (ip_u b) = 16 \<and> take 6 (ip_u a) = take 6 (ip_u b)"
  have n: "ip_u a ! i = ip_u b ! i" if "i < 6" for i using h that nth_take [of i 6 "ip_u a"] nth_take [of i 6 "ip_u b"] by simp
  show "ip_to_sensitive_string True inet_ntop a = ip_to_sensitive_string True inet_ntop b"
    using h n by (simp add: sensitive_v6 group_value_def)
next
  fix front tail assume h: "ip_family a = AF_INET \<and> of_char CHR ''.'' \<notin> set tail \<and> ip_to_string inet_ntop a = front @ of_char CHR ''.'' # tail"
  then show "ip_to_sensitive_string True inet_ntop a = front @ str ''.x''"
    using rfind_char_split [of "of_char CHR ''.''" tail front] by (simp add: ip_to_sensitive_string_def)
qed

theorem to_sensitive_string_anonymous_witness:
  "ip_to_sensitive_string True (\<lambda>_ _. None) (ip_of_in6_addr (replicate 6 1 @ replicate 10 2)) =
     ip_to_sensitive_string True (\<lambda>_ _. None) (ip_of_in6_addr (replicate 6 1 @ replicate 10 3))"
  using to_sensitive_string_anonymous [of "ip_of_in6_addr (replicate 6 1 @ replicate 10 2)" "ip_of_in6_addr (replicate 6 1 @ replicate 10 3)" "\<lambda>_ _. None"]
  by (simp add: ip_of_in6_addr_def)

end
