(* ===== verification/StreamAdapter.thy ===== *)
theory StreamAdapter
  imports MessageDigest
begin

text \<open>
  The streams of \<open>src/stream.{h,cpp}\<close> and the SRTP crypto suites of \<open>src/ssl_stream_adapter.{h,cpp}\<close>.  A stream
  is its state and its two operations, which are parameters: the class \<open>StreamInterface\<close> is abstract.
\<close>

section \<open>Streams\<close>

datatype stream_state = SS_CLOSED | SS_OPENING | SS_OPEN
datatype stream_result = SR_ERROR | SR_SUCCESS | SR_BLOCK | SR_EOS

text \<open>A combination of \<open>StreamEvent\<close> flags.\<close>

record stream_events =
  se_open :: bool
  se_read :: bool
  se_write :: bool
  se_close :: bool

definition no_events :: stream_events where
  "no_events = \<lparr>se_open = False, se_read = False, se_write = False, se_close = False\<rparr>"

text \<open>
  \<open>write\<close> of a stream: the result, what it stores behind \<open>written\<close> and \<open>error\<close>, and the stream after the call.
  The loop of \<open>write_all\<close> does not end when \<open>write\<close> keeps reporting success without writing: \<open>None\<close>.
\<close>

type_synonym 's stream_write = "byte list \<Rightarrow> 's \<Rightarrow> stream_result \<times> nat \<times> int \<times> 's"
type_synonym 's stream_read = "nat \<Rightarrow> 's \<Rightarrow> stream_result \<times> byte list \<times> int \<times> 's"

partial_function (option) write_all_loop ::
  "'s stream_write \<Rightarrow> byte list \<Rightarrow> nat \<Rightarrow> int \<Rightarrow> 's \<Rightarrow> (stream_result \<times> nat \<times> int \<times> 's) option" where
  "write_all_loop write data total_written error s =
     (if total_written < length data
      then (let (result, current_written, error, s) = write (drop total_written data) s
            in if result \<noteq> SR_SUCCESS then Some (result, total_written, error, s)
               else write_all_loop write data (total_written + current_written) error s)
      else Some (SR_SUCCESS, total_written, error, s))"

definition write_all :: "'s stream_write \<Rightarrow> byte list \<Rightarrow> int \<Rightarrow> 's \<Rightarrow> (stream_result \<times> nat \<times> int \<times> 's) option" where
  "write_all write data error s = write_all_loop write data 0 error s"

section \<open>Stream adapters\<close>

text \<open>An adapter: the adapted stream, or \<open>None\<close> for a null pointer or a deleted stream, and whether it owns it.\<close>

record 's stream_adapter =
  ad_stream :: "'s option"
  ad_owned :: bool

definition adapter_read :: "'s stream_read \<Rightarrow> nat \<Rightarrow> 's stream_adapter \<Rightarrow> (stream_result \<times> byte list \<times> int \<times> 's stream_adapter) option" where
  "adapter_read read buffer_len a = do {
     s \<leftarrow> ad_stream a;
     let (result, bytes, error, s) = read buffer_len s;
     Some (result, bytes, error, a\<lparr>ad_stream := Some s\<rparr>) }"

definition adapter_write :: "'s stream_write \<Rightarrow> byte list \<Rightarrow> 's stream_adapter \<Rightarrow> (stream_result \<times> nat \<times> int \<times> 's stream_adapter) option" where
  "adapter_write write data a = do {
     s \<leftarrow> ad_stream a;
     let (result, written, error, s) = write data s;
     Some (result, written, error, a\<lparr>ad_stream := Some s\<rparr>) }"

definition adapter_get_state :: "('s \<Rightarrow> stream_state) \<Rightarrow> 's stream_adapter \<Rightarrow> stream_state option" where
  "adapter_get_state get_state a = map_option get_state (ad_stream a)"

section \<open>SRTP crypto suites\<close>

definition SRTP_INVALID_CRYPTO_SUITE :: int where "SRTP_INVALID_CRYPTO_SUITE = 0"
definition SRTP_AES128_CM_SHA1_80 :: int where "SRTP_AES128_CM_SHA1_80 = 0x0001"
definition SRTP_AES128_CM_SHA1_32 :: int where "SRTP_AES128_CM_SHA1_32 = 0x0002"
definition SRTP_AEAD_AES_128_GCM :: int where "SRTP_AEAD_AES_128_GCM = 0x0007"
definition SRTP_AEAD_AES_256_GCM :: int where "SRTP_AEAD_AES_256_GCM = 0x0008"

definition CS_AES_CM_128_HMAC_SHA1_80 :: string where "CS_AES_CM_128_HMAC_SHA1_80 = ''AES_CM_128_HMAC_SHA1_80''"
definition CS_AES_CM_128_HMAC_SHA1_32 :: string where "CS_AES_CM_128_HMAC_SHA1_32 = ''AES_CM_128_HMAC_SHA1_32''"
definition CS_AEAD_AES_128_GCM :: string where "CS_AEAD_AES_128_GCM = ''AEAD_AES_128_GCM''"
definition CS_AEAD_AES_256_GCM :: string where "CS_AEAD_AES_256_GCM = ''AEAD_AES_256_GCM''"

definition srtp_crypto_suite_to_name :: "int \<Rightarrow> string" where
  "srtp_crypto_suite_to_name crypto_suite =
     (if crypto_suite = SRTP_AES128_CM_SHA1_32 then CS_AES_CM_128_HMAC_SHA1_32
      else if crypto_suite = SRTP_AES128_CM_SHA1_80 then CS_AES_CM_128_HMAC_SHA1_80
      else if crypto_suite = SRTP_AEAD_AES_128_GCM then CS_AEAD_AES_128_GCM
      else if crypto_suite = SRTP_AEAD_AES_256_GCM then CS_AEAD_AES_256_GCM
      else [])"

definition srtp_crypto_suite_from_name :: "string \<Rightarrow> int" where
  "srtp_crypto_suite_from_name crypto_suite =
     (if crypto_suite = CS_AES_CM_128_HMAC_SHA1_32 then SRTP_AES128_CM_SHA1_32
      else if crypto_suite = CS_AES_CM_128_HMAC_SHA1_80 then SRTP_AES128_CM_SHA1_80
      else if crypto_suite = CS_AEAD_AES_128_GCM then SRTP_AEAD_AES_128_GCM
      else if crypto_suite = CS_AEAD_AES_256_GCM then SRTP_AEAD_AES_256_GCM
      else SRTP_INVALID_CRYPTO_SUITE)"

text \<open>The key length and the salt length; \<open>None\<close> when the function returns false.\<close>

definition get_srtp_key_and_salt_lengths :: "int \<Rightarrow> (nat \<times> nat) option" where
  "get_srtp_key_and_salt_lengths crypto_suite =
     (if crypto_suite = SRTP_AES128_CM_SHA1_32 \<or> crypto_suite = SRTP_AES128_CM_SHA1_80 then Some (16, 14)
      else if crypto_suite = SRTP_AEAD_AES_128_GCM then Some (16, 12)
      else if crypto_suite = SRTP_AEAD_AES_256_GCM then Some (32, 12)
      else None)"

definition is_gcm_crypto_suite_name :: "string \<Rightarrow> bool" where
  "is_gcm_crypto_suite_name crypto_suite \<longleftrightarrow> crypto_suite = CS_AEAD_AES_256_GCM \<or> crypto_suite = CS_AEAD_AES_128_GCM"

record crypto_options =
  enable_gcm_crypto_suites :: bool
  enable_encrypted_rtp_header_extensions :: bool

definition crypto_options_new :: crypto_options where
  "crypto_options_new = \<lparr>enable_gcm_crypto_suites = False, enable_encrypted_rtp_header_extensions = False\<rparr>"

definition no_gcm :: crypto_options where
  "no_gcm = crypto_options_new\<lparr>enable_gcm_crypto_suites := False\<rparr>"

definition get_supported_dtls_srtp_crypto_suites :: "crypto_options \<Rightarrow> int list" where
  "get_supported_dtls_srtp_crypto_suites crypto_options =
     (if enable_gcm_crypto_suites crypto_options then [SRTP_AEAD_AES_256_GCM, SRTP_AEAD_AES_128_GCM] else []) @
     [SRTP_AES128_CM_SHA1_32, SRTP_AES128_CM_SHA1_80]"

lemmas srtp_suites = SRTP_INVALID_CRYPTO_SUITE_def SRTP_AES128_CM_SHA1_80_def SRTP_AES128_CM_SHA1_32_def
  SRTP_AEAD_AES_128_GCM_def SRTP_AEAD_AES_256_GCM_def
lemmas srtp_names = CS_AES_CM_128_HMAC_SHA1_80_def CS_AES_CM_128_HMAC_SHA1_32_def CS_AEAD_AES_128_GCM_def CS_AEAD_AES_256_GCM_def

text \<open>
  Every suite offered to the peer has a name that leads back to it and a key and salt length, the names are
  different, and the GCM suites are offered first and only when they are enabled.
\<close>

lemma srtp_suites_consistent:
  assumes "suite \<in> set (get_supported_dtls_srtp_crypto_suites opts)"
  shows "srtp_crypto_suite_from_name (srtp_crypto_suite_to_name suite) = suite"
    and "get_srtp_key_and_salt_lengths suite \<noteq> None"
    and "is_gcm_crypto_suite_name (srtp_crypto_suite_to_name suite) \<Longrightarrow> enable_gcm_crypto_suites opts"
  using assms by (simp_all add: get_supported_dtls_srtp_crypto_suites_def srtp_crypto_suite_to_name_def srtp_crypto_suite_from_name_def
    get_srtp_key_and_salt_lengths_def is_gcm_crypto_suite_name_def srtp_suites srtp_names split: if_splits, auto)

section \<open>Writing everything\<close>

text \<open>
  What the interface promises of \<open>write\<close>: success means that a number of bytes between one and all were
  taken from the front of the data; anything else means that none was.  \<open>sent\<close> is what the stream has
  taken so far.
\<close>

definition write_contract :: "'s stream_write \<Rightarrow> ('s \<Rightarrow> byte list) \<Rightarrow> bool" where
  "write_contract write sent \<longleftrightarrow> (\<forall>data s result n e s'. data \<noteq> [] \<longrightarrow> write data s = (result, n, e, s') \<longrightarrow>
     (if result = SR_SUCCESS then 0 < n \<and> n \<le> length data \<and> sent s' = sent s @ take n data else sent s' = sent s))"

lemma write_contractD:
  assumes "write_contract write sent" "data \<noteq> []" "write data s = (result, n, e, s')"
  shows "result = SR_SUCCESS \<Longrightarrow> 0 < n \<and> n \<le> length data \<and> sent s' = sent s @ take n data"
    and "result \<noteq> SR_SUCCESS \<Longrightarrow> sent s' = sent s"
  using assms unfolding write_contract_def by metis+

lemma write_all_loop_ok:
  assumes "write_contract write sent" and "tot \<le> length data"
  shows "\<exists>result n e s'. write_all_loop write data tot err s = Some (result, n, e, s') \<and> tot \<le> n \<and> n \<le> length data \<and>
    (result = SR_SUCCESS \<longleftrightarrow> n = length data) \<and> sent s' = sent s @ take (n - tot) (drop tot data)"
  using assms(2)
proof (induction "length data - tot" arbitrary: tot err s rule: less_induct)
  case less
  show ?case
  proof (cases "tot < length data")
    case False
    then show ?thesis using less.prems by (simp add: write_all_loop.simps)
  next
    case True
    obtain result n e s1 where w: "write (drop tot data) s = (result, n, e, s1)" by (cases "write (drop tot data) s") 
    have ne: "drop tot data \<noteq> []" using True by simp
    note c = write_contractD [OF assms(1) ne w]
    show ?thesis
    proof (cases "result = SR_SUCCESS")
      case False
      then have "write_all_loop write data tot err s = Some (result, tot, e, s1)" using True w by (simp add: write_all_loop.simps)
      then show ?thesis using c(2) [OF False] True False by auto
    next
      case ok: True
      have n: "0 < n" "n \<le> length data - tot" "sent s1 = sent s @ take n (drop tot data)" using c(1) [OF ok] by simp_all
      then have "length data - (tot + n) < length data - tot" "tot + n \<le> length data" using True by simp_all
      from less.hyps [OF this, of e s1] obtain r m e' s' where IH: "write_all_loop write data (tot + n) e s1 = Some (r, m, e', s')"
        "tot + n \<le> m" "m \<le> length data" "r = SR_SUCCESS \<longleftrightarrow> m = length data" "sent s' = sent s1 @ take (m - (tot + n)) (drop (tot + n) data)" by blast
      have "take n (drop tot data) @ take (m - (tot + n)) (drop (tot + n) data) = take (m - tot) (drop tot data)"
        using IH(2) take_add [of n "m - (tot + n)" "drop tot data"] by (simp add: add.commute)
      moreover have "write_all_loop write data tot err s = Some (r, m, e', s')" using True w ok IH(1) by (simp add: write_all_loop.simps)
      ultimately show ?thesis using IH n by auto
    qed
  qed
qed

text \<open>
  C28. \<open>write_all\<close> on a stream that keeps the promise of \<open>write\<close> returns; it reports as written exactly the
  bytes the stream has taken, a prefix of the data, and success exactly when that is all of it.
\<close>

theorem write_all_correct:
  assumes "write_contract write sent"
  shows "\<exists>result n e s'. write_all write data err s = Some (result, n, e, s') \<and> n \<le> length data \<and>
    (result = SR_SUCCESS \<longleftrightarrow> n = length data) \<and> sent s' = sent s @ take n data"
  using write_all_loop_ok [OF assms, of 0 data err s] by (auto simp: write_all_def)

text \<open>A stream that takes two bytes at a time and has room for four.\<close>

definition small_write :: "byte list stream_write" where
  "small_write data s = (if length s < 4 then (SR_SUCCESS, min 2 (length data), 0, s @ take 2 data) else (SR_BLOCK, 0, 0, s))"

theorem write_all_correct_witness:
  "\<exists>result n e s'. write_all small_write [1, 2, 3, 4, 5] 0 [] = Some (result, n, e, s') \<and> s' = take n [1, 2, 3, 4, 5]"
proof -
  have "write_contract small_write (\<lambda>s. s)" by (auto simp: write_contract_def small_write_def min_def split: if_splits)
  from write_all_correct [OF this, of "[1, 2, 3, 4, 5]" 0 "[]"] show ?thesis by auto
qed

text \<open>A \<open>write\<close> that reports success without progress makes \<open>write_all\<close> loop for ever.\<close>

lemma write_all_stuck: "write_all (\<lambda>data s. (SR_SUCCESS, 0, 0, s)) [1] 0 s = None"
proof -
  let ?W = "\<lambda>data s. (SR_SUCCESS, 0, 0, s)"
  let ?P = "\<lambda>wr data tot e s r. wr = ?W \<longrightarrow> data = [1] \<longrightarrow> tot = 0 \<longrightarrow> False"
  have never: "?P wr data tot e s r" if "write_all_loop wr data tot e s = Some r" for wr data tot e s r
    by (rule write_all_loop.raw_induct [where P = ?P, OF _ that]) (auto split: if_splits, metis less_irrefl)
  show ?thesis
  proof (cases "write_all_loop ?W [1] 0 0 s")
    case (Some r)
    from never [OF this] show ?thesis by simp
  qed (simp add: write_all_def)
qed

end
