(* ===== verification/OpenSSLStream.thy ===== *)
theory OpenSSLStream
  imports StreamAdapter
begin

text \<open>
  The class \<open>OpenSSLStreamAdapter\<close> of \<open>src/openssl_stream_adapter.{h,cpp}\<close> with \<open>OpenSSLDigest\<close>
  (\<open>src/openssl_digest.cpp\<close>) and the digest of a certificate (\<open>src/openssl_identity.cpp\<close>).  OpenSSL and the
  event loop are outside: what their calls return is an argument of the operations, and their objects are
  handles in a store of live objects, so that a use of a dead or null handle is \<open>None\<close>.  A slot that calls
  back into the adapter while it signals an event is not modelled.
\<close>

section \<open>Digests of certificates\<close>

datatype evp_md = EVP_md5 | EVP_sha1 | EVP_sha224 | EVP_sha256 | EVP_sha384 | EVP_sha512

definition get_digest_EVP :: "string \<Rightarrow> evp_md option" where
  "get_digest_EVP algorithm =
     (if algorithm = DIGEST_MD5 then Some EVP_md5
      else if algorithm = DIGEST_SHA_1 then Some EVP_sha1
      else if algorithm = DIGEST_SHA_224 then Some EVP_sha224
      else if algorithm = DIGEST_SHA_256 then Some EVP_sha256
      else if algorithm = DIGEST_SHA_384 then Some EVP_sha384
      else if algorithm = DIGEST_SHA_512 then Some EVP_sha512
      else None)"

text \<open>\<open>EVP_MD_size\<close> and \<open>X509_digest\<close> of OpenSSL.\<close>

record 'c evp =
  EVP_MD_size :: "evp_md \<Rightarrow> nat"
  X509_digest :: "evp_md \<Rightarrow> 'c \<Rightarrow> byte list"

definition get_digest_size :: "'c evp \<Rightarrow> string \<Rightarrow> nat option" where
  "get_digest_size evp algorithm = map_option (EVP_MD_size evp) (get_digest_EVP algorithm)"

definition certificate_compute_digest :: "'c evp \<Rightarrow> 'c \<Rightarrow> string \<Rightarrow> nat \<Rightarrow> byte list option" where
  "certificate_compute_digest evp x509 algorithm sz =
     (case get_digest_EVP algorithm of
        None \<Rightarrow> None
      | Some md \<Rightarrow> if sz < EVP_MD_size evp md then None else Some (X509_digest evp md x509))"

section \<open>The adapter and the objects outside\<close>

datatype ssl_state = SSL_NONE | SSL_WAIT | SSL_CONNECTING | SSL_CONNECTED | SSL_ERROR | SSL_CLOSED
datatype ssl_role = SSL_CLIENT | SSL_SERVER
datatype ssl_mode = SSL_MODE_TLS | SSL_MODE_DTLS
datatype ssl_protocol_version = SSL_PROTOCOL_TLS_10 | SSL_PROTOCOL_TLS_11 | SSL_PROTOCOL_TLS_12
datatype digest_error = DigestErrorNone | UnknownAlgorithm | InvalidLength | VerificationFailed
datatype ssl_handshake_error = HandshakeUnknown | IncompatibleCiphersuite

record 'c ssl_adapter =
  oa_state :: ssl_state
  oa_role :: ssl_role
  oa_error_code :: int
  oa_read_needs_write :: bool
  oa_write_needs_read :: bool
  oa_ssl :: "nat option"
  oa_ctx :: "nat option"
  oa_identity :: "nat option"
  oa_peer_certificate :: "'c option"
  oa_verified :: bool
  oa_digest_value :: "byte list"
  oa_digest_algorithm :: string
  oa_srtp_ciphers :: string
  oa_mode :: ssl_mode
  oa_max_version :: ssl_protocol_version
  oa_timeout_ms :: int
  oa_el :: bool
  oa_timer :: "nat option"
  oa_client_auth :: bool

text \<open>
  Live objects: contexts, connections with the BIO attached to them, BIOs, identities, and timers with
  whether they are running.
\<close>

datatype ssl_method =
    DTLSv1_client | DTLSv1_server | TLSv1_client | TLSv1_server | DTLS_client | DTLS_server
  | TLS_client | TLS_server | SSLv23_client | SSLv23_server

record ssl_ctx =
  ctx_method :: ssl_method
  ctx_fail_if_no_peer_cert :: bool
  ctx_srtp :: string

record ssl_lib =
  lib_next :: nat
  lib_ctx :: "nat \<Rightarrow> ssl_ctx option"
  lib_ssl :: "nat \<Rightarrow> nat option option"
  lib_bio :: "nat set"
  lib_identity :: "nat set"
  lib_timer :: "nat \<Rightarrow> bool option"

datatype ssl_event = Signalled stream_events int | HandshakeFailed ssl_handshake_error

text \<open>
  What OpenSSL does in one call of \<open>SSL_connect\<close> or \<open>SSL_accept\<close>: the certificates for which it calls the
  verification callback, with their depths, as long as the callback accepts; the value \<open>SSL_get_error\<close> then
  has, given the answers of the callback; the retransmission timeout; the reason of the last error.
\<close>

record 'c handshake =
  hs_certs :: "(nat \<times> 'c) list"
  hs_error :: "bool list \<Rightarrow> int"
  hs_timeout :: "(int \<times> int) option"
  hs_no_shared_cipher :: bool

text \<open>Whether the calls that set up a connection succeed.\<close>

record ssl_setup =
  openssl_version :: nat
  ok_ctx_new :: "ssl_method \<Rightarrow> bool"
  ok_configure_identity :: bool
  ok_use_srtp :: bool
  ok_bio_new :: bool
  ok_ssl_new :: bool
  ok_ecdh :: bool

definition SSL_ERROR_NONE :: int where "SSL_ERROR_NONE = 0"
definition SSL_ERROR_WANT_READ :: int where "SSL_ERROR_WANT_READ = 2"
definition SSL_ERROR_WANT_WRITE :: int where "SSL_ERROR_WANT_WRITE = 3"
definition EVP_MAX_MD_SIZE :: nat where "EVP_MAX_MD_SIZE = 64"

section \<open>Calls to the outside\<close>

definition lib_free_ctx :: "ssl_lib \<Rightarrow> nat \<Rightarrow> ssl_lib option" where
  "lib_free_ctx lib c = do { _ \<leftarrow> lib_ctx lib c; Some (lib\<lparr>lib_ctx := (lib_ctx lib)(c := None)\<rparr>) }"

definition lib_free_bio :: "ssl_lib \<Rightarrow> nat \<Rightarrow> ssl_lib option" where
  "lib_free_bio lib b = (if b \<in> lib_bio lib then Some (lib\<lparr>lib_bio := lib_bio lib - {b}\<rparr>) else None)"

text \<open>\<open>SSL_free\<close> also frees the BIO attached to the connection.\<close>

definition lib_free_ssl :: "ssl_lib \<Rightarrow> nat \<Rightarrow> ssl_lib option" where
  "lib_free_ssl lib s = do {
     attached \<leftarrow> lib_ssl lib s;
     lib \<leftarrow> (case attached of None \<Rightarrow> Some lib | Some b \<Rightarrow> lib_free_bio lib b);
     Some (lib\<lparr>lib_ssl := (lib_ssl lib)(s := None)\<rparr>) }"

definition lib_delete_identity :: "ssl_lib \<Rightarrow> nat option \<Rightarrow> ssl_lib option" where
  "lib_delete_identity lib i =
     (case i of
        None \<Rightarrow> Some lib
      | Some i \<Rightarrow> if i \<in> lib_identity lib then Some (lib\<lparr>lib_identity := lib_identity lib - {i}\<rparr>) else None)"

definition lib_set_timer :: "ssl_lib \<Rightarrow> 'c ssl_adapter \<Rightarrow> bool \<Rightarrow> ssl_lib option" where
  "lib_set_timer lib a running = (if \<not> oa_el a then None else do {
     t \<leftarrow> oa_timer a;
     _ \<leftarrow> lib_timer lib t;
     Some (lib\<lparr>lib_timer := (lib_timer lib)(t \<mapsto> running)\<rparr>) })"

section \<open>Construction and settings\<close>

definition ssl_adapter_new :: "int \<Rightarrow> bool \<Rightarrow> ssl_lib \<Rightarrow> ssl_lib \<times> 'c ssl_adapter" where
  "ssl_adapter_new raw_error_code el lib =
     (let a = \<lparr>oa_state = SSL_NONE, oa_role = SSL_CLIENT, oa_error_code = raw_error_code, oa_read_needs_write = False,
        oa_write_needs_read = False, oa_ssl = None, oa_ctx = None, oa_identity = None, oa_peer_certificate = None,
        oa_verified = False, oa_digest_value = [], oa_digest_algorithm = [], oa_srtp_ciphers = [], oa_mode = SSL_MODE_TLS,
        oa_max_version = SSL_PROTOCOL_TLS_12, oa_timeout_ms = 50, oa_el = el, oa_timer = None, oa_client_auth = True\<rparr>
      in if el
         then (lib\<lparr>lib_timer := (lib_timer lib)(lib_next lib \<mapsto> False), lib_next := lib_next lib + 1\<rparr>, a\<lparr>oa_timer := Some (lib_next lib)\<rparr>)
         else (lib, a))"

definition oa_set_identity :: "nat option \<Rightarrow> ssl_lib \<Rightarrow> 'c ssl_adapter \<Rightarrow> (ssl_lib \<times> 'c ssl_adapter) option" where
  "oa_set_identity identity lib a = do {
     lib \<leftarrow> (if oa_identity a = identity then Some lib else lib_delete_identity lib (oa_identity a));
     Some (lib, a\<lparr>oa_identity := identity\<rparr>) }"

definition set_server_role :: "ssl_role \<Rightarrow> 'c ssl_adapter \<Rightarrow> 'c ssl_adapter" where
  "set_server_role role a = a\<lparr>oa_role := role\<rparr>"

definition oa_set_mode :: "ssl_mode \<Rightarrow> 'c ssl_adapter \<Rightarrow> 'c ssl_adapter" where
  "oa_set_mode mode a = a\<lparr>oa_mode := mode\<rparr>"

definition set_max_protocol_version :: "ssl_protocol_version \<Rightarrow> 'c ssl_adapter \<Rightarrow> 'c ssl_adapter" where
  "set_max_protocol_version version a = a\<lparr>oa_max_version := version\<rparr>"

definition set_initial_retransmission_timeout :: "int \<Rightarrow> 'c ssl_adapter \<Rightarrow> 'c ssl_adapter" where
  "set_initial_retransmission_timeout timeout_ms a = a\<lparr>oa_timeout_ms := timeout_ms\<rparr>"

definition set_client_auth_enabled :: "bool \<Rightarrow> 'c ssl_adapter \<Rightarrow> 'c ssl_adapter" where
  "set_client_auth_enabled enabled a = a\<lparr>oa_client_auth := enabled\<rparr>"

definition srtp_cipher_map :: "(int \<times> string) list" where
  "srtp_cipher_map = [(SRTP_AES128_CM_SHA1_80, ''SRTP_AES128_CM_SHA1_80''), (SRTP_AES128_CM_SHA1_32, ''SRTP_AES128_CM_SHA1_32''),
     (SRTP_AEAD_AES_128_GCM, ''SRTP_AEAD_AES_128_GCM''), (SRTP_AEAD_AES_256_GCM, ''SRTP_AEAD_AES_256_GCM'')]"

fun srtp_cipher_names :: "int list \<Rightarrow> string \<Rightarrow> string option" where
  "srtp_cipher_names [] internal_ciphers = Some internal_ciphers"
| "srtp_cipher_names (cipher # ciphers) internal_ciphers =
     (case map_of srtp_cipher_map cipher of
        None \<Rightarrow> None
      | Some name \<Rightarrow> srtp_cipher_names ciphers ((if internal_ciphers \<noteq> [] then internal_ciphers @ '':'' else internal_ciphers) @ name))"

definition set_dtls_srtp_crypto_suites :: "int list \<Rightarrow> 'c ssl_adapter \<Rightarrow> bool \<times> 'c ssl_adapter" where
  "set_dtls_srtp_crypto_suites ciphers a =
     (if oa_state a \<noteq> SSL_NONE then (False, a)
      else case srtp_cipher_names ciphers [] of
        None \<Rightarrow> (False, a)
      | Some internal_ciphers \<Rightarrow>
          if internal_ciphers = [] then (False, a) else (True, a\<lparr>oa_srtp_ciphers := internal_ciphers\<rparr>))"

section \<open>Closing\<close>

definition oa_cleanup :: "ssl_lib \<Rightarrow> 'c ssl_adapter \<Rightarrow> (ssl_lib \<times> 'c ssl_adapter) option" where
  "oa_cleanup lib a = do {
     let a = (if oa_state a \<noteq> SSL_ERROR then a\<lparr>oa_state := SSL_CLOSED, oa_error_code := 0\<rparr> else a);
     lib \<leftarrow> (case oa_ssl a of None \<Rightarrow> Some lib | Some s \<Rightarrow> lib_free_ssl lib s);
     lib \<leftarrow> (case oa_ctx a of None \<Rightarrow> Some lib | Some c \<Rightarrow> lib_free_ctx lib c);
     lib \<leftarrow> lib_delete_identity lib (oa_identity a);
     let a = a\<lparr>oa_ssl := None, oa_ctx := None, oa_identity := None, oa_peer_certificate := None\<rparr>;
     if oa_el a \<and> oa_timer a \<noteq> None
     then do {
       lib \<leftarrow> lib_set_timer lib a False;
       Some (lib\<lparr>lib_timer := (lib_timer lib)(the (oa_timer a) := None)\<rparr>, a\<lparr>oa_timer := None\<rparr>) }
     else Some (lib, a) }"

definition error_info :: "int \<Rightarrow> bool \<Rightarrow> ssl_lib \<Rightarrow> 'c ssl_adapter \<Rightarrow> (ssl_lib \<times> 'c ssl_adapter \<times> ssl_event list) option" where
  "error_info err signal lib a = do {
     (lib, a) \<leftarrow> oa_cleanup lib (a\<lparr>oa_state := SSL_ERROR, oa_error_code := err\<rparr>);
     Some (lib, a, if signal then [Signalled (no_events\<lparr>se_close := True\<rparr>) err] else []) }"

section \<open>Verification of the peer\<close>

definition waiting_to_verify_peer_certificate :: "'c ssl_adapter \<Rightarrow> bool" where
  "waiting_to_verify_peer_certificate a \<longleftrightarrow> oa_client_auth a \<and> \<not> oa_verified a"

definition has_peer_certificate_digest :: "'c ssl_adapter \<Rightarrow> bool" where
  "has_peer_certificate_digest a \<longleftrightarrow> oa_digest_algorithm a \<noteq> [] \<and> oa_digest_value a \<noteq> []"

definition verify_peer_certificate :: "'c evp \<Rightarrow> 'c ssl_adapter \<Rightarrow> bool \<times> 'c ssl_adapter" where
  "verify_peer_certificate evp a =
     (case oa_peer_certificate a of
        None \<Rightarrow> (False, a)
      | Some cert \<Rightarrow>
          if \<not> has_peer_certificate_digest a then (False, a)
          else case certificate_compute_digest evp cert (oa_digest_algorithm a) EVP_MAX_MD_SIZE of
            None \<Rightarrow> (False, a)
          | Some computed_digest \<Rightarrow>
              if computed_digest \<noteq> oa_digest_value a then (False, a) else (True, a\<lparr>oa_verified := True\<rparr>))"

definition SSL_verify_callback :: "'c evp \<Rightarrow> nat \<Rightarrow> 'c \<Rightarrow> 'c ssl_adapter \<Rightarrow> bool \<times> 'c ssl_adapter" where
  "SSL_verify_callback evp depth cert a =
     (if depth > 0 then (True, a)
      else if oa_digest_algorithm a = [] then (True, a)
      else if \<not> oa_verified a then verify_peer_certificate evp (a\<lparr>oa_peer_certificate := Some cert\<rparr>)
      else (True, a))"

text \<open>OpenSSL calls the callback for one certificate after the other until it refuses one.\<close>

fun verify_callbacks :: "'c evp \<Rightarrow> (nat \<times> 'c) list \<Rightarrow> 'c ssl_adapter \<Rightarrow> bool list \<times> 'c ssl_adapter" where
  "verify_callbacks evp [] a = ([], a)"
| "verify_callbacks evp ((depth, cert) # certs) a =
     (let (ok, a) = SSL_verify_callback evp depth cert a
      in if ok then (let (oks, a) = verify_callbacks evp certs a in (ok # oks, a)) else ([ok], a))"

definition set_peer_certificate_digest :: "'c evp \<Rightarrow> string \<Rightarrow> byte list \<Rightarrow> ssl_lib \<Rightarrow> 'c ssl_adapter
    \<Rightarrow> (bool \<times> digest_error \<times> ssl_lib \<times> 'c ssl_adapter \<times> ssl_event list) option" where
  "set_peer_certificate_digest evp digest_alg digest_val lib a =
     (case get_digest_size evp digest_alg of
        None \<Rightarrow> Some (False, UnknownAlgorithm, lib, a, [])
      | Some expected_len \<Rightarrow>
          if expected_len \<noteq> length digest_val then Some (False, InvalidLength, lib, a, [])
          else
            let a = a\<lparr>oa_digest_value := digest_val, oa_digest_algorithm := digest_alg\<rparr>
            in if oa_peer_certificate a = None then Some (True, DigestErrorNone, lib, a, [])
               else
                 let (verified, a) = verify_peer_certificate evp a
                 in if \<not> verified
                    then do {
                      (lib, a, events) \<leftarrow> error_info (- 1) False lib a;
                      Some (False, VerificationFailed, lib, a, events) }
                    else Some (True, DigestErrorNone, lib, a, []))"

section \<open>The handshake\<close>

text \<open>The return value is first; \<open>0\<close> is success.\<close>

definition continue_SSL :: "'c evp \<Rightarrow> 'c handshake \<Rightarrow> ssl_lib \<Rightarrow> 'c ssl_adapter \<Rightarrow> (int \<times> ssl_lib \<times> 'c ssl_adapter \<times> ssl_event list) option" where
  "continue_SSL evp hs lib a = do {
     lib \<leftarrow> lib_set_timer lib a False;
     s \<leftarrow> oa_ssl a;
     _ \<leftarrow> lib_ssl lib s;
     let (answers, a) = verify_callbacks evp (hs_certs hs) a;
     let ssl_error = hs_error hs answers;
     if ssl_error = SSL_ERROR_NONE
     then let a = a\<lparr>oa_state := SSL_CONNECTED\<rparr>
          in Some (0, lib, a, if \<not> waiting_to_verify_peer_certificate a
               then [Signalled (no_events\<lparr>se_open := True, se_read := True, se_write := True\<rparr>) 0] else [])
     else if ssl_error = SSL_ERROR_WANT_READ
     then case hs_timeout hs of
            None \<Rightarrow> Some (0, lib, a, [])
          | Some (tv_sec, tv_usec) \<Rightarrow>
              (let delay = tv_sec * 1000000 + tv_usec
               in if delay > 0 then do { lib \<leftarrow> lib_set_timer lib a True; Some (0, lib, a, []) }
                  else Some (0, lib, a, []))
     else if ssl_error = SSL_ERROR_WANT_WRITE then Some (0, lib, a, [])
     else Some (if ssl_error \<noteq> 0 then ssl_error else - 1, lib, a,
            [HandshakeFailed (if hs_no_shared_cipher hs then IncompatibleCiphersuite else HandshakeUnknown)]) }"

definition context_method :: "nat \<Rightarrow> 'c ssl_adapter \<Rightarrow> ssl_method" where
  "context_method version a =
     (case oa_max_version a of
        SSL_PROTOCOL_TLS_12 \<Rightarrow>
          if oa_mode a = SSL_MODE_DTLS
          then if version \<ge> 0x10002000 then (if oa_role a = SSL_CLIENT then DTLS_client else DTLS_server)
               else (if oa_role a = SSL_CLIENT then DTLSv1_client else DTLSv1_server)
          else if version \<ge> 0x10100000 then (if oa_role a = SSL_CLIENT then TLS_client else TLS_server)
               else (if oa_role a = SSL_CLIENT then SSLv23_client else SSLv23_server)
      | _ \<Rightarrow>
          if oa_mode a = SSL_MODE_DTLS then (if oa_role a = SSL_CLIENT then DTLSv1_client else DTLSv1_server)
          else (if oa_role a = SSL_CLIENT then TLSv1_client else TLSv1_server))"

text \<open>The context, or null.\<close>

definition setup_SSL_context :: "ssl_setup \<Rightarrow> ssl_lib \<Rightarrow> 'c ssl_adapter \<Rightarrow> nat option \<times> ssl_lib" where
  "setup_SSL_context su lib a =
     (let meth = context_method (openssl_version su) a in
      if \<not> ok_ctx_new su meth then (None, lib)
      else
        let ctx = lib_next lib;
            conf = \<lparr>ctx_method = meth, ctx_fail_if_no_peer_cert = False, ctx_srtp = []\<rparr>;
            lib = lib\<lparr>lib_ctx := (lib_ctx lib)(ctx \<mapsto> conf), lib_next := lib_next lib + 1\<rparr>
        in if oa_identity a \<noteq> None \<and> \<not> ok_configure_identity su
           then (None, lib\<lparr>lib_ctx := (lib_ctx lib)(ctx := None)\<rparr>)
           else
             let conf = conf\<lparr>ctx_fail_if_no_peer_cert := oa_client_auth a\<rparr>
             in if oa_srtp_ciphers a \<noteq> []
                then if \<not> ok_use_srtp su then (None, lib\<lparr>lib_ctx := (lib_ctx lib)(ctx := None)\<rparr>)
                     else (Some ctx, lib\<lparr>lib_ctx := (lib_ctx lib)(ctx \<mapsto> conf\<lparr>ctx_srtp := oa_srtp_ciphers a\<rparr>)\<rparr>)
                else (Some ctx, lib\<lparr>lib_ctx := (lib_ctx lib)(ctx \<mapsto> conf)\<rparr>))"

definition begin_SSL :: "'c evp \<Rightarrow> ssl_setup \<Rightarrow> 'c handshake \<Rightarrow> ssl_lib \<Rightarrow> 'c ssl_adapter
    \<Rightarrow> (int \<times> ssl_lib \<times> 'c ssl_adapter \<times> ssl_event list) option" where
  "begin_SSL evp su hs lib a =
     (if oa_state a \<noteq> SSL_CONNECTING then Some (- 1, lib, a, [])
      else
        let (ctx, lib) = setup_SSL_context su lib a;
            a = a\<lparr>oa_ctx := ctx\<rparr>
        in if ctx = None then Some (- 1, lib, a, [])
           else if \<not> ok_bio_new su then Some (- 1, lib, a, [])
           else
             let bio = lib_next lib;
                 lib = lib\<lparr>lib_bio := insert bio (lib_bio lib), lib_next := lib_next lib + 1\<rparr>
             in if \<not> ok_ssl_new su then do { lib \<leftarrow> lib_free_bio lib bio; Some (- 1, lib, a, []) }
                else
                  let s = lib_next lib;
                      lib = lib\<lparr>lib_ssl := (lib_ssl lib)(s \<mapsto> Some bio), lib_next := lib_next lib + 1\<rparr>;
                      a = a\<lparr>oa_ssl := Some s\<rparr>
                  in if \<not> ok_ecdh su then Some (- 1, lib, a, []) else continue_SSL evp hs lib a)"

definition start_SSL :: "'c evp \<Rightarrow> ssl_setup \<Rightarrow> 'c handshake \<Rightarrow> stream_state \<Rightarrow> ssl_lib \<Rightarrow> 'c ssl_adapter
    \<Rightarrow> (int \<times> ssl_lib \<times> 'c ssl_adapter \<times> ssl_event list) option" where
  "start_SSL evp su hs stream lib a =
     (if oa_state a \<noteq> SSL_NONE then Some (- 1, lib, a, [])
      else if stream \<noteq> SS_OPEN then Some (0, lib, a\<lparr>oa_state := SSL_WAIT\<rparr>, [])
      else do {
        (err, lib, a, events) \<leftarrow> begin_SSL evp su hs lib (a\<lparr>oa_state := SSL_CONNECTING\<rparr>);
        if err \<noteq> 0 then do { (lib, a, more) \<leftarrow> error_info err False lib a; Some (err, lib, a, events @ more) }
        else Some (0, lib, a, events) })"

section \<open>Events\<close>

text \<open>
  The three parts of \<open>on_event\<close>: the events to signal so far are threaded through; \<open>True\<close> first means that the
  function has returned.  \<open>hs\<close> is the handshake of \<open>begin_SSL\<close>, \<open>hs'\<close> that of \<open>continue_SSL\<close>.
\<close>

definition on_event_open :: "'c evp \<Rightarrow> ssl_setup \<Rightarrow> 'c handshake \<Rightarrow> stream_events \<Rightarrow> ssl_lib \<Rightarrow> 'c ssl_adapter
    \<Rightarrow> (bool \<times> stream_events \<times> ssl_lib \<times> 'c ssl_adapter \<times> ssl_event list) option" where
  "on_event_open evp su hs events lib a =
     (if \<not> se_open events then Some (False, no_events, lib, a, [])
      else if oa_state a \<noteq> SSL_WAIT then Some (False, no_events\<lparr>se_open := True\<rparr>, lib, a, [])
      else do {
        (err, lib, a, log) \<leftarrow> begin_SSL evp su hs lib (a\<lparr>oa_state := SSL_CONNECTING\<rparr>);
        if err \<noteq> 0 then do { (lib, a, more) \<leftarrow> error_info err True lib a; Some (True, no_events, lib, a, log @ more) }
        else Some (False, no_events, lib, a, log) })"

definition on_event_io :: "'c evp \<Rightarrow> 'c handshake \<Rightarrow> stream_events \<Rightarrow> stream_events \<Rightarrow> ssl_lib \<Rightarrow> 'c ssl_adapter
    \<Rightarrow> (bool \<times> stream_events \<times> ssl_lib \<times> 'c ssl_adapter \<times> ssl_event list) option" where
  "on_event_io evp hs' events sig lib a =
     (if \<not> se_read events \<and> \<not> se_write events then Some (False, sig, lib, a, [])
      else if oa_state a = SSL_NONE
      then Some (False, sig\<lparr>se_read := se_read sig \<or> se_read events, se_write := se_write sig \<or> se_write events\<rparr>, lib, a, [])
      else if oa_state a = SSL_CONNECTING
      then do {
        (err, lib, a, log) \<leftarrow> continue_SSL evp hs' lib a;
        if err \<noteq> 0 then do { (lib, a, more) \<leftarrow> error_info err True lib a; Some (True, sig, lib, a, log @ more) }
        else Some (False, sig, lib, a, log) }
      else if oa_state a = SSL_CONNECTED
      then
        let sig = (if (se_read events \<and> oa_write_needs_read a) \<or> se_write events then sig\<lparr>se_write := True\<rparr> else sig);
            sig = (if (se_write events \<and> oa_read_needs_write a) \<or> se_read events then sig\<lparr>se_read := True\<rparr> else sig)
        in Some (False, sig, lib, a, [])
      else Some (False, sig, lib, a, []))"

definition oa_on_event :: "'c evp \<Rightarrow> ssl_setup \<Rightarrow> 'c handshake \<Rightarrow> 'c handshake \<Rightarrow> stream_events \<Rightarrow> int \<Rightarrow> ssl_lib \<Rightarrow> 'c ssl_adapter
    \<Rightarrow> (ssl_lib \<times> 'c ssl_adapter \<times> ssl_event list) option" where
  "oa_on_event evp su hs hs' events err lib a = do {
     (returned, sig, lib, a, log) \<leftarrow> on_event_open evp su hs events lib a;
     if returned then Some (lib, a, log)
     else do {
       (returned, sig, lib, a, log') \<leftarrow> on_event_io evp hs' events sig lib a;
       if returned then Some (lib, a, log @ log')
       else do {
         (sig, signal_error, lib, a) \<leftarrow>
           (if se_close events
            then do { (lib, a) \<leftarrow> oa_cleanup lib a; Some (sig\<lparr>se_close := True\<rparr>, err, lib, a) }
            else Some (sig, 0, lib, a));
         Some (lib, a, log @ log' @ (if sig \<noteq> no_events then [Signalled sig signal_error] else [])) } } }"

text \<open>The callback of the retransmission timer; the timer does not repeat, so it is not running any more.\<close>

definition dtls_handshake_timeout :: "'c evp \<Rightarrow> 'c handshake \<Rightarrow> ssl_lib \<Rightarrow> 'c ssl_adapter \<Rightarrow> (ssl_lib \<times> 'c ssl_adapter \<times> ssl_event list) option" where
  "dtls_handshake_timeout evp hs lib a = do {
     s \<leftarrow> oa_ssl a;
     _ \<leftarrow> lib_ssl lib s;
     (err, lib, a, log) \<leftarrow> continue_SSL evp hs lib a;
     Some (lib, a, log) }"

section \<open>Keys\<close>

text \<open>\<open>keys\<close>, \<open>cipher\<close> and \<open>profile\<close> are what OpenSSL returns for the connection.\<close>

definition get_ssl_cipher_suite :: "(nat \<Rightarrow> nat option) \<Rightarrow> ssl_lib \<Rightarrow> 'c ssl_adapter \<Rightarrow> u16 option option" where
  "get_ssl_cipher_suite cipher lib a =
     (if oa_state a \<noteq> SSL_CONNECTED then Some None
      else do { s \<leftarrow> oa_ssl a; _ \<leftarrow> lib_ssl lib s; Some (map_option of_nat (cipher s)) })"

definition export_keying_material :: "(nat \<Rightarrow> nat \<Rightarrow> byte list option) \<Rightarrow> nat \<Rightarrow> ssl_lib \<Rightarrow> 'c ssl_adapter \<Rightarrow> byte list option option" where
  "export_keying_material keys result_len lib a = do { s \<leftarrow> oa_ssl a; _ \<leftarrow> lib_ssl lib s; Some (keys s result_len) }"

definition get_dtls_srtp_crypto_suite :: "(nat \<Rightarrow> int option) \<Rightarrow> ssl_lib \<Rightarrow> 'c ssl_adapter \<Rightarrow> int option option" where
  "get_dtls_srtp_crypto_suite profile lib a =
     (if oa_state a \<noteq> SSL_CONNECTED then Some None
      else do { s \<leftarrow> oa_ssl a; _ \<leftarrow> lib_ssl lib s; Some (profile s) })"

section \<open>The stream as a BIO\<close>

text \<open>\<open>num\<close> is 1 at the end of the stream; the retry flags are what \<open>BIO_set_retry_read\<close> and its companions set.\<close>

record bio =
  bio_shutdown :: int
  bio_init :: int
  bio_num :: int
  bio_ptr :: "nat option"
  bio_retry_read :: bool
  bio_retry_write :: bool

definition stream_new :: "bio \<Rightarrow> int \<times> bio" where
  "stream_new b = (1, b\<lparr>bio_shutdown := 0, bio_init := 1, bio_num := 0, bio_ptr := None\<rparr>)"

definition stream_free :: "bio option \<Rightarrow> int" where
  "stream_free b = (if b = None then 0 else 1)"

definition BIO_clear_retry_flags :: "bio \<Rightarrow> bio" where
  "BIO_clear_retry_flags b = b\<lparr>bio_retry_read := False, bio_retry_write := False\<rparr>"

text \<open>\<open>out\<close> and \<open>inp\<close> say whether the buffer is there.  The return value, the bytes read, the BIO and the stream.\<close>

definition bio_stream_read :: "'s stream_read \<Rightarrow> bool \<Rightarrow> nat \<Rightarrow> bio \<Rightarrow> 's \<Rightarrow> int \<times> byte list \<times> bio \<times> 's" where
  "bio_stream_read read out outl b s =
     (if \<not> out then (- 1, [], b, s)
      else
        let b = BIO_clear_retry_flags b;
            (result, bytes, error, s) = read outl s
        in case result of
             SR_SUCCESS \<Rightarrow> (int (length bytes), bytes, b, s)
           | SR_EOS \<Rightarrow> (- 1, [], b\<lparr>bio_num := 1\<rparr>, s)
           | SR_BLOCK \<Rightarrow> (- 1, [], b\<lparr>bio_retry_read := True\<rparr>, s)
           | SR_ERROR \<Rightarrow> (- 1, [], b, s))"

definition bio_stream_write :: "'s stream_write \<Rightarrow> bool \<Rightarrow> byte list \<Rightarrow> bio \<Rightarrow> 's \<Rightarrow> int \<times> bio \<times> 's" where
  "bio_stream_write write inp data b s =
     (if \<not> inp then (- 1, b, s)
      else
        let b = BIO_clear_retry_flags b;
            (result, written, error, s) = write data s
        in case result of
             SR_SUCCESS \<Rightarrow> (int written, b, s)
           | SR_BLOCK \<Rightarrow> (- 1, b\<lparr>bio_retry_write := True\<rparr>, s)
           | _ \<Rightarrow> (- 1, b, s))"

text \<open>The text up to its terminator.\<close>

definition stream_puts :: "'s stream_write \<Rightarrow> byte list \<Rightarrow> bio \<Rightarrow> 's \<Rightarrow> int \<times> bio \<times> 's" where
  "stream_puts write text_bytes b s = bio_stream_write write True (takeWhile (\<lambda>c. c \<noteq> 0) text_bytes) b s"

datatype bio_ctrl = BIO_CTRL_RESET | BIO_CTRL_EOF | BIO_CTRL_WPENDING | BIO_CTRL_PENDING | BIO_CTRL_FLUSH | BIO_CTRL_DGRAM_QUERY_MTU | BIO_CTRL_OTHER

definition stream_ctrl :: "bio \<Rightarrow> bio_ctrl \<Rightarrow> int" where
  "stream_ctrl b cmd =
     (case cmd of
        BIO_CTRL_RESET \<Rightarrow> 0
      | BIO_CTRL_EOF \<Rightarrow> bio_num b
      | BIO_CTRL_WPENDING \<Rightarrow> 0
      | BIO_CTRL_PENDING \<Rightarrow> 0
      | BIO_CTRL_FLUSH \<Rightarrow> 1
      | BIO_CTRL_DGRAM_QUERY_MTU \<Rightarrow> 1200
      | BIO_CTRL_OTHER \<Rightarrow> 0)"

text \<open>
  OpenSSL sees a retry exactly when the stream would block, and the end of the stream exactly when it was
  reached; a read hands over what the stream delivered.
\<close>

lemma bio_stream_read_flags:
  assumes "bio_stream_read read True outl b s = (r, bytes, b', s')" and "read outl s = (result, got, e, s'')"
  shows "bio_retry_read b' \<longleftrightarrow> result = SR_BLOCK" "\<not> bio_retry_write b'" "result = SR_EOS \<Longrightarrow> stream_ctrl b' BIO_CTRL_EOF = 1"
    "result \<noteq> SR_EOS \<Longrightarrow> stream_ctrl b' BIO_CTRL_EOF = stream_ctrl b BIO_CTRL_EOF"
    "r \<ge> 0 \<longleftrightarrow> result = SR_SUCCESS" "result = SR_SUCCESS \<Longrightarrow> bytes = got \<and> r = int (length got)" "s' = s''"
  using assms by (auto simp: bio_stream_read_def Let_def BIO_clear_retry_flags_def stream_ctrl_def split: stream_result.splits)

end
