(* ===== verification/OpenSSLHandshake.thy ===== *)
theory OpenSSLHandshake
  imports OpenSSLStream
begin

text \<open>
  The state machine of \<open>OpenSSLStreamAdapter\<close>: who owns which object of OpenSSL in which state, what the
  verification of the peer guarantees when the stream opens, and the reachable states.
\<close>

section \<open>Ownership\<close>

text \<open>The live objects are those the adapter points to.\<close>

definition owns :: "ssl_lib \<Rightarrow> 'c ssl_adapter \<Rightarrow> bool" where
  "owns lib a \<longleftrightarrow>
     (case oa_ctx a of None \<Rightarrow> lib_ctx lib = Map.empty | Some c \<Rightarrow> \<exists>conf. lib_ctx lib = [c \<mapsto> conf]) \<and>
     (case oa_ssl a of None \<Rightarrow> lib_ssl lib = Map.empty \<and> lib_bio lib = {} | Some s \<Rightarrow> \<exists>b. lib_ssl lib = [s \<mapsto> Some b] \<and> lib_bio lib = {b}) \<and>
     lib_identity lib = set_option (oa_identity a) \<and>
     (case oa_timer a of None \<Rightarrow> lib_timer lib = Map.empty | Some t \<Rightarrow> \<exists>running. lib_timer lib = [t \<mapsto> running])"

definition lib_empty :: "ssl_lib \<Rightarrow> bool" where
  "lib_empty lib \<longleftrightarrow> lib_ctx lib = Map.empty \<and> lib_ssl lib = Map.empty \<and> lib_bio lib = {} \<and> lib_identity lib = {} \<and> lib_timer lib = Map.empty"

definition closed :: "'c ssl_adapter \<Rightarrow> bool" where
  "closed a \<longleftrightarrow> oa_state a = SSL_ERROR \<or> oa_state a = SSL_CLOSED"

definition handshaking :: "'c ssl_adapter \<Rightarrow> bool" where
  "handshaking a \<longleftrightarrow> oa_state a = SSL_CONNECTING \<or> oa_state a = SSL_CONNECTED"

definition running :: "ssl_lib \<Rightarrow> bool" where
  "running lib \<longleftrightarrow> (\<exists>t. lib_timer lib t = Some True)"

definition matches :: "'c evp \<Rightarrow> 'c ssl_adapter \<Rightarrow> bool" where
  "matches evp a \<longleftrightarrow> (\<exists>cert. oa_peer_certificate a = Some cert \<and> has_peer_certificate_digest a \<and>
     certificate_compute_digest evp cert (oa_digest_algorithm a) EVP_MAX_MD_SIZE = Some (oa_digest_value a))"

text \<open>The invariant of an adapter between two operations.\<close>

definition ssl_inv :: "'c evp \<Rightarrow> ssl_lib \<Rightarrow> 'c ssl_adapter \<Rightarrow> bool" where
  "ssl_inv evp lib a \<longleftrightarrow> owns lib a \<and>
     (oa_ssl a \<noteq> None \<longleftrightarrow> handshaking a) \<and> (oa_ctx a \<noteq> None \<longleftrightarrow> handshaking a) \<and>
     (oa_timer a \<noteq> None \<longleftrightarrow> oa_el a \<and> \<not> closed a) \<and>
     (running lib \<longrightarrow> oa_state a = SSL_CONNECTING) \<and>
     (oa_verified a \<and> \<not> closed a \<longrightarrow> matches evp a)"

section \<open>Closing\<close>

lemma cleanup_ok:
  assumes "owns lib a" and "oa_timer a \<noteq> None \<longrightarrow> oa_el a"
  shows "\<exists>lib' a'. oa_cleanup lib a = Some (lib', a') \<and> lib_empty lib' \<and> closed a' \<and> owns lib' a' \<and>
    a' = a\<lparr>oa_state := oa_state a', oa_error_code := oa_error_code a', oa_ssl := None, oa_ctx := None, oa_identity := None, oa_peer_certificate := None, oa_timer := None\<rparr> \<and>
    (oa_state a = SSL_ERROR \<longrightarrow> oa_state a' = SSL_ERROR \<and> oa_error_code a' = oa_error_code a)"
proof -
  have i: "lib_identity lib = set_option (oa_identity a)" using assms(1) by (simp add: owns_def)
  define a1 where "a1 = (if oa_state a \<noteq> SSL_ERROR then a\<lparr>oa_state := SSL_CLOSED, oa_error_code := 0\<rparr> else a)"
  have f: "oa_ssl a1 = oa_ssl a" "oa_ctx a1 = oa_ctx a" "oa_identity a1 = oa_identity a" "oa_el a1 = oa_el a" "oa_timer a1 = oa_timer a"
    by (simp_all add: a1_def)
  define lib1 where "lib1 = lib\<lparr>lib_ssl := Map.empty, lib_bio := {}\<rparr>"
  define lib2 where "lib2 = lib1\<lparr>lib_ctx := Map.empty\<rparr>"
  define lib3 where "lib3 = lib2\<lparr>lib_identity := {}\<rparr>"
  have 1: "(case oa_ssl a of None \<Rightarrow> Some lib | Some s \<Rightarrow> lib_free_ssl lib s) = Some lib1"
    using assms(1) by (auto simp: owns_def lib_free_ssl_def lib_free_bio_def lib1_def split: option.splits)
  have 2: "(case oa_ctx a of None \<Rightarrow> Some lib1 | Some c \<Rightarrow> lib_free_ctx lib1 c) = Some lib2"
    using assms(1) by (auto simp: owns_def lib_free_ctx_def lib1_def lib2_def split: option.splits)
  have 3: "lib_delete_identity lib2 (oa_identity a) = Some lib3"
    using i by (auto simp: lib_delete_identity_def lib1_def lib2_def lib3_def split: option.splits)
  define a2 where "a2 = a1\<lparr>oa_ssl := None, oa_ctx := None, oa_identity := None, oa_peer_certificate := None\<rparr>"
  define lib4 where "lib4 = lib3\<lparr>lib_timer := Map.empty\<rparr>"
  have 4: "(if oa_el a2 \<and> oa_timer a2 \<noteq> None
      then do { lib \<leftarrow> lib_set_timer lib3 a2 False; Some (lib\<lparr>lib_timer := (lib_timer lib)(the (oa_timer a2) := None)\<rparr>, a2\<lparr>oa_timer := None\<rparr>) }
      else Some (lib3, a2)) = Some (lib4, a2\<lparr>oa_timer := None\<rparr>)"
    using assms by (cases "oa_timer a") (auto simp: owns_def lib_set_timer_def lib3_def lib2_def lib1_def lib4_def a2_def f)
  have "oa_cleanup lib a = Some (lib4, a2\<lparr>oa_timer := None\<rparr>)"
    unfolding oa_cleanup_def Let_def a1_def [symmetric] f 1 Option.bind.simps 2 3 a2_def [symmetric] by (rule 4)
  moreover have "lib_empty lib4" by (simp add: lib_empty_def lib4_def lib3_def lib2_def lib1_def)
  moreover have "closed (a2\<lparr>oa_timer := None\<rparr>)" by (simp add: closed_def a2_def a1_def)
  moreover have "owns lib4 (a2\<lparr>oa_timer := None\<rparr>)" by (simp add: owns_def a2_def lib4_def lib3_def lib2_def lib1_def)
  ultimately show ?thesis by (intro exI conjI) (assumption | simp add: a2_def a1_def)+
qed

lemma closed_inv:
  assumes "lib_empty lib" "closed a" "owns lib a"
  shows "ssl_inv evp lib a"
proof -
  have "oa_ssl a = None" "oa_ctx a = None" "oa_timer a = None"
    using assms(1,3) by (auto simp: lib_empty_def owns_def map_upd_nonempty [symmetric] simp del: map_upd_nonempty split: option.splits)
  moreover have "\<not> handshaking a" using assms(2) by (auto simp: closed_def handshaking_def)
  ultimately show ?thesis using assms by (simp add: ssl_inv_def running_def lib_empty_def)
qed

lemma cleanup_inv:
  assumes "owns lib a" and "oa_timer a \<noteq> None \<longrightarrow> oa_el a"
  shows "\<exists>lib' a'. oa_cleanup lib a = Some (lib', a') \<and> lib_empty lib' \<and> closed a' \<and> ssl_inv evp lib' a' \<and> oa_el a' = oa_el a"
proof -
  obtain lib' a' where c: "oa_cleanup lib a = Some (lib', a')" "lib_empty lib'" "closed a'" "owns lib' a'"
    "a' = a\<lparr>oa_state := oa_state a', oa_error_code := oa_error_code a', oa_ssl := None, oa_ctx := None, oa_identity := None, oa_peer_certificate := None, oa_timer := None\<rparr>"
    using cleanup_ok [OF assms] by blast
  have "oa_el a' = oa_el a" by (subst c(5)) simp
  then show ?thesis using c closed_inv by blast
qed

lemma error_info_ok:
  assumes "owns lib a" and "oa_timer a \<noteq> None \<longrightarrow> oa_el a"
  shows "\<exists>lib' a'. error_info err signal lib a = Some (lib', a', if signal then [Signalled (no_events\<lparr>se_close := True\<rparr>) err] else []) \<and>
    lib_empty lib' \<and> oa_state a' = SSL_ERROR \<and> oa_error_code a' = err \<and> ssl_inv evp lib' a' \<and> oa_el a' = oa_el a"
proof -
  let ?a = "a\<lparr>oa_state := SSL_ERROR, oa_error_code := err\<rparr>"
  have "owns lib ?a" "oa_timer ?a \<noteq> None \<longrightarrow> oa_el ?a" using assms by (simp_all add: owns_def)
  from cleanup_ok [OF this] obtain lib' a' where c: "oa_cleanup lib ?a = Some (lib', a')" "lib_empty lib'" "closed a'" "owns lib' a'"
    "a' = ?a\<lparr>oa_state := oa_state a', oa_error_code := oa_error_code a', oa_ssl := None, oa_ctx := None, oa_identity := None, oa_peer_certificate := None, oa_timer := None\<rparr>"
    "oa_state a' = SSL_ERROR" "oa_error_code a' = err" by auto
  have "oa_el a' = oa_el a" by (subst c(5)) simp
  then show ?thesis using c closed_inv [OF c(2-4)] by (simp add: error_info_def)
qed

section \<open>The handshake\<close>

text \<open>The callbacks touch only the recorded certificate and the flag; the flag goes with a matching certificate.\<close>

definition same_but_peer :: "'c ssl_adapter \<Rightarrow> 'c ssl_adapter \<Rightarrow> bool" where
  "same_but_peer a b \<longleftrightarrow> b = a\<lparr>oa_peer_certificate := oa_peer_certificate b, oa_verified := oa_verified b\<rparr>"

lemma same_but_peer_refl: "same_but_peer a a"
  by (cases a) (simp add: same_but_peer_def)

lemma same_but_peer_trans: "same_but_peer a b \<Longrightarrow> same_but_peer b c \<Longrightarrow> same_but_peer a c"
  by (cases a; cases b; cases c) (simp add: same_but_peer_def)

lemma same_but_peerD:
  assumes "same_but_peer a b"
  shows "oa_state b = oa_state a" "oa_ssl b = oa_ssl a" "oa_ctx b = oa_ctx a" "oa_timer b = oa_timer a" "oa_el b = oa_el a"
    "oa_identity b = oa_identity a" "oa_client_auth b = oa_client_auth a" "oa_digest_algorithm b = oa_digest_algorithm a" "oa_digest_value b = oa_digest_value a"
    "closed b = closed a" "handshaking b = handshaking a" "owns lib b = owns lib a"
proof -
  obtain p v where b: "b = a\<lparr>oa_peer_certificate := p, oa_verified := v\<rparr>" using assms unfolding same_but_peer_def by blast
  show "oa_state b = oa_state a" "oa_ssl b = oa_ssl a" "oa_ctx b = oa_ctx a" "oa_timer b = oa_timer a" "oa_el b = oa_el a"
    "oa_identity b = oa_identity a" "oa_client_auth b = oa_client_auth a" "oa_digest_algorithm b = oa_digest_algorithm a" "oa_digest_value b = oa_digest_value a"
    "closed b = closed a" "handshaking b = handshaking a" "owns lib b = owns lib a"
    by (simp_all add: b closed_def handshaking_def owns_def)
qed

lemma verify_peer_certificate_ok:
  assumes "verify_peer_certificate evp a = (ok, b)"
  shows "same_but_peer a b" "oa_peer_certificate b = oa_peer_certificate a" "ok \<longleftrightarrow> matches evp a" "ok \<Longrightarrow> oa_verified b \<and> matches evp b" "\<not> ok \<Longrightarrow> b = a"
  using assms same_but_peer_refl [of a]
  by (auto simp: verify_peer_certificate_def matches_def has_peer_certificate_digest_def same_but_peer_def split: option.splits if_splits)

lemma verify_callback_ok:
  assumes "SSL_verify_callback evp depth cert a = (ok, b)" and "oa_verified a \<longrightarrow> matches evp a"
  shows "same_but_peer a b" "oa_verified b \<longrightarrow> matches evp b" "oa_verified a \<Longrightarrow> b = a"
    "ok \<Longrightarrow> depth = 0 \<Longrightarrow> oa_digest_algorithm a \<noteq> [] \<Longrightarrow> oa_verified b"
proof -
  let ?a = "a\<lparr>oa_peer_certificate := Some cert\<rparr>"
  have s: "same_but_peer a ?a" by (simp add: same_but_peer_def)
  consider (skip) "b = a" "depth > 0 \<or> oa_digest_algorithm a = [] \<or> oa_verified a"
    | (verify) "depth = 0" "oa_digest_algorithm a \<noteq> []" "\<not> oa_verified a" "verify_peer_certificate evp ?a = (ok, b)"
    using assms(1) by (auto simp: SSL_verify_callback_def split: if_splits)
  then have "same_but_peer a b \<and> (oa_verified b \<longrightarrow> matches evp b) \<and> (oa_verified a \<longrightarrow> b = a) \<and>
      (ok \<longrightarrow> depth = 0 \<longrightarrow> oa_digest_algorithm a \<noteq> [] \<longrightarrow> oa_verified b)"
  proof cases
    case skip
    then show ?thesis using assms(2) same_but_peer_refl [of a] by auto
  next
    case verify
    note v = verify_peer_certificate_ok [OF verify(4)]
    show ?thesis using same_but_peer_trans [OF s v(1)] v(4,5) verify(3) by (cases ok) auto
  qed
  then show "same_but_peer a b" "oa_verified b \<longrightarrow> matches evp b" "oa_verified a \<Longrightarrow> b = a"
    "ok \<Longrightarrow> depth = 0 \<Longrightarrow> oa_digest_algorithm a \<noteq> [] \<Longrightarrow> oa_verified b" by blast+
qed

lemma verify_callbacks_ok:
  assumes "verify_callbacks evp certs a = (oks, b)" and "oa_verified a \<longrightarrow> matches evp a"
  shows "same_but_peer a b \<and> (oa_verified b \<longrightarrow> matches evp b) \<and> (oa_verified a \<longrightarrow> oa_verified b) \<and>
    (False \<notin> set oks \<longrightarrow> (\<exists>cert. (0, cert) \<in> set certs) \<longrightarrow> oa_digest_algorithm a \<noteq> [] \<longrightarrow> oa_verified b)"
  using assms
proof (induction certs arbitrary: a oks)
  case Nil
  then show ?case using same_but_peer_refl by auto
next
  case (Cons dc certs)
  obtain depth cert where dc: "dc = (depth, cert)" by (cases dc)
  obtain ok a1 where c: "SSL_verify_callback evp depth cert a = (ok, a1)" by (cases "SSL_verify_callback evp depth cert a")
  note v = verify_callback_ok [OF c Cons.prems(2)]
  show ?case
  proof (cases ok)
    case False
    then have "oks = [False]" "b = a1" using Cons.prems(1) c by (simp_all add: dc)
    then show ?thesis using v by auto
  next
    case True
    obtain oks1 where r: "verify_callbacks evp certs a1 = (oks1, b)" "oks = True # oks1"
      using Cons.prems(1) c True by (auto simp: dc split: prod.splits)
    note IH = Cons.IH [OF r(1) v(2)]
    have "oa_verified b" if "False \<notin> set oks" "(0, x) \<in> set (dc # certs)" "oa_digest_algorithm a \<noteq> []" for x
    proof (cases "depth = 0")
      case d: True
      then show ?thesis using v(4) [OF True d that(3)] IH by blast
    next
      case False
      then show ?thesis using that IH r(2) same_but_peerD(8) [OF v(1)] by (auto simp: dc)
    qed
    then show ?thesis using IH v(1,3) same_but_peer_trans [OF v(1)] by blast
  qed
qed

lemma set_timer_ok:
  assumes "owns lib a" "oa_timer a \<noteq> None" "oa_el a"
  shows "\<exists>lib'. lib_set_timer lib a r = Some lib' \<and> owns lib' a \<and> (running lib' \<longleftrightarrow> r) \<and> lib_ctx lib' = lib_ctx lib \<and> lib_ssl lib' = lib_ssl lib"
  using assms by (auto simp: owns_def lib_set_timer_def running_def split: option.splits)

text \<open>What OpenSSL promises of a handshake: a refused certificate makes it fail.\<close>

definition handshake_ok :: "'c handshake \<Rightarrow> bool" where
  "handshake_ok hs \<longleftrightarrow> (\<forall>answers. False \<in> set answers \<longrightarrow> hs_error hs answers \<noteq> SSL_ERROR_NONE)"

definition opens :: "ssl_event list \<Rightarrow> bool" where
  "opens events \<longleftrightarrow> (\<exists>e err. Signalled e err \<in> set events \<and> se_open e)"

lemma opens_simps [simp]:
  "\<not> opens []" "opens (xs @ ys) \<longleftrightarrow> opens xs \<or> opens ys" "opens [Signalled e err] \<longleftrightarrow> se_open e" "\<not> opens [HandshakeFailed h]"
  by (auto simp: opens_def)

text \<open>The state after a step of the handshake.\<close>

definition stepped :: "'c evp \<Rightarrow> 'c handshake \<Rightarrow> 'c ssl_adapter \<Rightarrow> int \<Rightarrow> ssl_lib \<Rightarrow> 'c ssl_adapter \<Rightarrow> ssl_event list \<Rightarrow> bool" where
  "stepped evp hs a r lib' a' events \<longleftrightarrow> owns lib' a' \<and> oa_el a' = oa_el a \<and> oa_timer a' = oa_timer a \<and>
     (oa_verified a' \<longrightarrow> matches evp a') \<and> (oa_state a' = SSL_CONNECTING \<or> r = 0 \<and> oa_state a' = SSL_CONNECTED) \<and>
     (r = 0 \<or> oa_ssl a \<noteq> None \<and> oa_ctx a \<noteq> None \<longrightarrow> oa_ssl a' \<noteq> None \<and> oa_ctx a' \<noteq> None \<and> (running lib' \<longrightarrow> oa_state a' = SSL_CONNECTING)) \<and>
     (opens events \<longleftrightarrow> r = 0 \<and> oa_state a' = SSL_CONNECTED \<and> \<not> waiting_to_verify_peer_certificate a') \<and>
     (\<forall>e err. Signalled e err \<in> set events \<longrightarrow> \<not> se_close e) \<and>
     (oa_state a' = SSL_CONNECTED \<longrightarrow> handshake_ok hs \<longrightarrow> (\<exists>cert. (0, cert) \<in> set (hs_certs hs)) \<longrightarrow> oa_digest_algorithm a \<noteq> [] \<longrightarrow> oa_verified a')"

lemma continue_SSL_ok:
  assumes "owns lib a" "oa_timer a \<noteq> None" "oa_el a" "oa_ssl a \<noteq> None" "oa_ctx a \<noteq> None" "oa_verified a \<longrightarrow> matches evp a"
    and "oa_state a = SSL_CONNECTING"
  shows "\<exists>r lib' a' events. continue_SSL evp hs lib a = Some (r, lib', a', events) \<and> stepped evp hs a r lib' a' events"
proof -
  obtain lib1 where 1: "lib_set_timer lib a False = Some lib1" "owns lib1 a" "\<not> running lib1" using set_timer_ok [OF assms(1-3), of False] by blast
  obtain s where s: "oa_ssl a = Some s" using assms(4) by blast
  obtain att where att: "lib_ssl lib1 s = Some att" using 1(2) s by (auto simp: owns_def)
  obtain oks b where v: "verify_callbacks evp (hs_certs hs) a = (oks, b)" by (cases "verify_callbacks evp (hs_certs hs) a")
  note vo = verify_callbacks_ok [OF v assms(6)]
  then have sp: "same_but_peer a b" by blast
  note same = same_but_peerD [OF sp]
  have ob: "owns lib1 b" using 1(2) same(12) by simp
  let ?e = "hs_error hs oks"
  have run: "continue_SSL evp hs lib a =
    (if ?e = SSL_ERROR_NONE
     then let a = b\<lparr>oa_state := SSL_CONNECTED\<rparr>
          in Some (0, lib1, a, if \<not> waiting_to_verify_peer_certificate a
               then [Signalled (no_events\<lparr>se_open := True, se_read := True, se_write := True\<rparr>) 0] else [])
     else if ?e = SSL_ERROR_WANT_READ
     then case hs_timeout hs of
            None \<Rightarrow> Some (0, lib1, b, [])
          | Some (tv_sec, tv_usec) \<Rightarrow>
              (let delay = tv_sec * 1000000 + tv_usec
               in if delay > 0 then do { lib \<leftarrow> lib_set_timer lib1 b True; Some (0, lib, b, []) }
                  else Some (0, lib1, b, []))
     else if ?e = SSL_ERROR_WANT_WRITE then Some (0, lib1, b, [])
     else Some (if ?e \<noteq> 0 then ?e else - 1, lib1, b,
            [HandshakeFailed (if hs_no_shared_cipher hs then IncompatibleCiphersuite else HandshakeUnknown)]))"
    unfolding continue_SSL_def 1(1) s att v by (simp add: att)
  have wait: "stepped evp hs a 0 lib2 b []" if "owns lib2 b" for lib2
    using that vo same assms unfolding stepped_def by simp
  consider (none) "?e = SSL_ERROR_NONE" | (want_read) "?e = SSL_ERROR_WANT_READ" "?e \<noteq> SSL_ERROR_NONE"
    | (want_write) "?e = SSL_ERROR_WANT_WRITE" "?e \<noteq> SSL_ERROR_NONE" "?e \<noteq> SSL_ERROR_WANT_READ"
    | (err) "?e \<noteq> SSL_ERROR_NONE" "?e \<noteq> SSL_ERROR_WANT_READ" "?e \<noteq> SSL_ERROR_WANT_WRITE" by blast
  then show ?thesis
  proof cases
    case none
    let ?b = "b\<lparr>oa_state := SSL_CONNECTED\<rparr>"
    have "owns lib1 ?b" using ob by (simp add: owns_def)
    moreover have "oa_verified ?b \<longrightarrow> matches evp ?b" using vo by (simp add: matches_def has_peer_certificate_digest_def)
    moreover have "handshake_ok hs \<longrightarrow> False \<notin> set oks" using none by (auto simp: handshake_ok_def)
    ultimately have "stepped evp hs a 0 lib1 ?b (if \<not> waiting_to_verify_peer_certificate ?b
        then [Signalled (no_events\<lparr>se_open := True, se_read := True, se_write := True\<rparr>) 0] else [])"
      using vo same 1(3) assms unfolding stepped_def by (auto simp: no_events_def)
    then show ?thesis using run none by (simp add: Let_def)
  next
    case want_read
    obtain lib2 where 2: "lib_set_timer lib1 b True = Some lib2" "owns lib2 b" using set_timer_ok [OF ob, of True] same assms by auto
    have "continue_SSL evp hs lib a = Some (0, lib1, b, []) \<or> continue_SSL evp hs lib a = Some (0, lib2, b, [])"
      using run want_read 2(1) by (auto simp: SSL_ERROR_NONE_def SSL_ERROR_WANT_READ_def Let_def split: option.splits)
    then show ?thesis using wait [OF ob] wait [OF 2(2)] by blast
  next
    case want_write
    then have "continue_SSL evp hs lib a = Some (0, lib1, b, [])" using run by simp
    then show ?thesis using wait [OF ob] by blast
  next
    case err
    then have r: "continue_SSL evp hs lib a = Some (?e, lib1, b, [HandshakeFailed (if hs_no_shared_cipher hs then IncompatibleCiphersuite else HandshakeUnknown)])"
      using run by (simp add: SSL_ERROR_NONE_def)
    have "?e \<noteq> 0" using err(1) by (simp add: SSL_ERROR_NONE_def)
    then have "stepped evp hs a ?e lib1 b [HandshakeFailed (if hs_no_shared_cipher hs then IncompatibleCiphersuite else HandshakeUnknown)]"
      using ob vo same assms 1(3) unfolding stepped_def by simp
    then show ?thesis using r by blast
  qed
qed

lemma matches_cong:
  assumes "oa_peer_certificate b = oa_peer_certificate a" "oa_digest_algorithm b = oa_digest_algorithm a" "oa_digest_value b = oa_digest_value a"
  shows "matches evp b = matches evp a"
  using assms by (simp add: matches_def has_peer_certificate_digest_def)

lemma stepped_cong:
  assumes "stepped evp hs b r lib' a' events" and "oa_el b = oa_el a" "oa_timer b = oa_timer a" "oa_digest_algorithm b = oa_digest_algorithm a" "oa_ssl a = None"
  shows "stepped evp hs a r lib' a' events"
  using assms unfolding stepped_def by simp

lemma setup_context_ok:
  assumes "owns lib a" "oa_ctx a = None"
  shows "\<exists>ctx lib'. setup_SSL_context su lib a = (ctx, lib') \<and> owns lib' (a\<lparr>oa_ctx := ctx\<rparr>)"
  using assms by (auto simp: setup_SSL_context_def Let_def owns_def split: option.splits)

lemma begin_SSL_ok:
  assumes o: "owns lib a" and n: "oa_ssl a = None" "oa_ctx a = None" and t: "oa_timer a \<noteq> None" "oa_el a"
    and v: "oa_verified a \<longrightarrow> matches evp a" and st: "oa_state a = SSL_CONNECTING"
  shows "\<exists>r lib' a' events. begin_SSL evp su hs lib a = Some (r, lib', a', events) \<and> stepped evp hs a r lib' a' events"
proof -
  obtain ctx lib1 where c: "setup_SSL_context su lib a = (ctx, lib1)" "owns lib1 (a\<lparr>oa_ctx := ctx\<rparr>)" using setup_context_ok [OF o n(2)] by blast
  let ?a1 = "a\<lparr>oa_ctx := ctx\<rparr>"
  have fail: "stepped evp hs a (- 1) lib' b []" if "owns lib' b" "oa_el b = oa_el a" "oa_timer b = oa_timer a" "oa_state b = oa_state a"
    "oa_verified b = oa_verified a" "matches evp b = matches evp a" for lib' b
    using that v st n unfolding stepped_def by simp
  have m: "matches evp ?a1 = matches evp a" by (rule matches_cong) simp_all
  have f1: "stepped evp hs a (- 1) lib1 ?a1 []" by (rule fail [OF c(2)]) (simp_all add: m)
  show ?thesis
  proof (cases "ctx = None \<or> \<not> ok_bio_new su")
    case True
    then show ?thesis using f1 c(1) st by (auto simp: begin_SSL_def Let_def)
  next
    case False
    then obtain ct where ct: "ctx = Some ct" and ob: "ok_bio_new su" by (cases ctx) auto
    let ?bio = "lib_next lib1"
    let ?lib2 = "lib1\<lparr>lib_bio := insert ?bio (lib_bio lib1), lib_next := ?bio + 1\<rparr>"
    have lb: "lib_bio lib1 = {}" "lib_ssl lib1 = Map.empty" using c(2) n(1) by (simp_all add: owns_def)
    show ?thesis
    proof (cases "ok_ssl_new su")
      case nossl: False
      have "lib_free_bio ?lib2 ?bio = Some (?lib2\<lparr>lib_bio := {}\<rparr>)" using lb by (simp add: lib_free_bio_def)
      then have "begin_SSL evp su hs lib a = Some (- 1, ?lib2\<lparr>lib_bio := {}\<rparr>, ?a1, [])"
        using c(1) st ct ob nossl by (simp add: begin_SSL_def Let_def)
      moreover have "owns (?lib2\<lparr>lib_bio := {}\<rparr>) ?a1" using c(2) lb n(1) by (simp add: owns_def cong: option.case_cong)
      ultimately show ?thesis using fail [of "?lib2\<lparr>lib_bio := {}\<rparr>" ?a1] m by auto
    next
      case ssl: True
      let ?s = "?bio + 1"
      let ?lib3 = "?lib2\<lparr>lib_ssl := (lib_ssl ?lib2)(?s \<mapsto> Some ?bio), lib_next := ?s + 1\<rparr>" and ?a2 = "?a1\<lparr>oa_ssl := Some ?s\<rparr>"
      have o3: "owns ?lib3 ?a2" using c(2) lb by (simp add: owns_def cong: option.case_cong)
      have m2: "matches evp ?a2 = matches evp a" by (rule matches_cong) simp_all
      have run: "begin_SSL evp su hs lib a = (if \<not> ok_ecdh su then Some (- 1, ?lib3, ?a2, []) else continue_SSL evp hs ?lib3 ?a2)"
        using c(1) st ct ob ssl by (simp add: begin_SSL_def Let_def)
      show ?thesis
      proof (cases "ok_ecdh su")
        case noec: False
        then show ?thesis using run fail [OF o3] m2 by auto
      next
        case True
        have "\<exists>r lib' a' events. continue_SSL evp hs ?lib3 ?a2 = Some (r, lib', a', events) \<and> stepped evp hs ?a2 r lib' a' events"
          by (intro continue_SSL_ok o3) (use t v m2 st ct in auto)
        then show ?thesis using run True stepped_cong [of evp hs ?a2 _ _ _ _ a] n(1) by fastforce
      qed
    qed
  qed
qed

text \<open>The three callers turn a failed step into the error state.\<close>

lemma stepped_inv: "stepped evp hs a 0 lib' a' events \<Longrightarrow> oa_timer a \<noteq> None \<Longrightarrow> oa_el a \<Longrightarrow> ssl_inv evp lib' a'"
  unfolding stepped_def ssl_inv_def by (auto simp: handshaking_def closed_def)

lemma stepped_error:
  assumes "stepped evp hs a r lib1 a1 log" "oa_timer a \<noteq> None" "oa_el a"
  shows "\<exists>lib' a'. error_info err signal lib1 a1 = Some (lib', a', if signal then [Signalled (no_events\<lparr>se_close := True\<rparr>) err] else []) \<and>
    lib_empty lib' \<and> oa_state a' = SSL_ERROR \<and> oa_error_code a' = err \<and> ssl_inv evp lib' a' \<and> oa_el a'"
  using error_info_ok [of lib1 a1 err signal evp] assms unfolding stepped_def by auto

section \<open>The operations\<close>

text \<open>
  When an operation establishes the connection, it signals that the stream is open exactly when no
  verification of the peer is pending.
\<close>

definition opened_ok :: "'c ssl_adapter \<Rightarrow> ssl_event list \<Rightarrow> 'c ssl_adapter \<Rightarrow> bool" where
  "opened_ok a events a' \<longleftrightarrow> (oa_state a \<noteq> SSL_CONNECTED \<longrightarrow> oa_state a' = SSL_CONNECTED \<longrightarrow>
     (opens events \<longleftrightarrow> \<not> waiting_to_verify_peer_certificate a'))"

definition op_ok :: "'c evp \<Rightarrow> 'c ssl_adapter \<Rightarrow> ssl_lib \<Rightarrow> 'c ssl_adapter \<Rightarrow> ssl_event list \<Rightarrow> bool" where
  "op_ok evp a lib' a' events \<longleftrightarrow> ssl_inv evp lib' a' \<and> oa_el a' \<and> opened_ok a events a'"

lemma ssl_inv_running:
  assumes "ssl_inv evp lib a" "oa_el a"
  shows "owns lib a" "\<not> closed a \<Longrightarrow> oa_timer a \<noteq> None" "\<not> closed a \<Longrightarrow> oa_verified a \<longrightarrow> matches evp a"
    "oa_timer a \<noteq> None \<longrightarrow> oa_el a" "handshaking a \<Longrightarrow> oa_ssl a \<noteq> None \<and> oa_ctx a \<noteq> None" "\<not> handshaking a \<Longrightarrow> oa_ssl a = None \<and> oa_ctx a = None"
  using assms unfolding ssl_inv_def by blast+

lemma owns_state [simp]: "owns lib (a\<lparr>oa_state := s\<rparr>) = owns lib a" "matches evp (a\<lparr>oa_state := s\<rparr>) = matches evp a"
  by (simp_all add: owns_def matches_def has_peer_certificate_digest_def)

lemma stepped_op_ok:
  assumes "stepped evp hs b 0 lib' a' log" "oa_timer b \<noteq> None" "oa_el b"
  shows "op_ok evp a lib' a' log"
  using stepped_inv [OF assms] assms unfolding op_ok_def opened_ok_def stepped_def by auto

lemma error_op_ok: "ssl_inv evp lib' a' \<Longrightarrow> oa_state a' = SSL_ERROR \<Longrightarrow> oa_el a' \<Longrightarrow> op_ok evp a lib' a' events"
  by (simp add: op_ok_def opened_ok_def)

lemma unchanged_op_ok:
  "ssl_inv evp lib' a' \<Longrightarrow> oa_el a' \<Longrightarrow> oa_state a' = oa_state a \<Longrightarrow> op_ok evp a lib' a' events"
  by (simp add: op_ok_def opened_ok_def)

lemma begin_from:
  assumes inv: "ssl_inv evp lib a" "oa_el a" and st: "oa_state a = SSL_NONE \<or> oa_state a = SSL_WAIT"
  shows "\<exists>r lib' a' events. begin_SSL evp su hs lib (a\<lparr>oa_state := SSL_CONNECTING\<rparr>) = Some (r, lib', a', events) \<and>
    stepped evp hs (a\<lparr>oa_state := SSL_CONNECTING\<rparr>) r lib' a' events"
proof -
  have c: "\<not> closed a" "\<not> handshaking a" using st by (auto simp: closed_def handshaking_def)
  note i = ssl_inv_running [OF inv]
  show ?thesis by (rule begin_SSL_ok) (use i c inv(2) in auto)
qed

lemma start_SSL_ok:
  assumes inv: "ssl_inv evp lib a" "oa_el a"
  shows "\<exists>r lib' a' events. start_SSL evp su hs stream lib a = Some (r, lib', a', events) \<and> op_ok evp a lib' a' events \<and>
    (r \<noteq> 0 \<longrightarrow> oa_state a \<noteq> SSL_NONE \<and> lib' = lib \<and> a' = a \<or> oa_state a' = SSL_ERROR \<and> lib_empty lib')"
proof (cases "oa_state a = SSL_NONE")
  case False
  then show ?thesis using unchanged_op_ok [OF inv] by (auto simp: start_SSL_def)
next
  case none: True
  note i = ssl_inv_running [OF inv]
  show ?thesis
  proof (cases "stream = SS_OPEN")
    case False
    have "ssl_inv evp lib (a\<lparr>oa_state := SSL_WAIT\<rparr>)"
      using inv none unfolding ssl_inv_def by (auto simp: handshaking_def closed_def)
    then show ?thesis using none False inv(2) by (auto simp: start_SSL_def op_ok_def opened_ok_def)
  next
    case True
    obtain r lib1 a1 log where b: "begin_SSL evp su hs lib (a\<lparr>oa_state := SSL_CONNECTING\<rparr>) = Some (r, lib1, a1, log)"
      "stepped evp hs (a\<lparr>oa_state := SSL_CONNECTING\<rparr>) r lib1 a1 log" using begin_from [OF inv] none by blast
    have t: "oa_timer (a\<lparr>oa_state := SSL_CONNECTING\<rparr>) \<noteq> None" "oa_el (a\<lparr>oa_state := SSL_CONNECTING\<rparr>)"
      using i(2) none inv(2) by (auto simp: closed_def)
    show ?thesis
    proof (cases "r = 0")
      case True
      then show ?thesis using b stepped_op_ok [OF _ t] none \<open>stream = SS_OPEN\<close> by (auto simp: start_SSL_def)
    next
      case False
      obtain lib' a' where e: "error_info r False lib1 a1 = Some (lib', a', [])" "lib_empty lib'" "oa_state a' = SSL_ERROR" "ssl_inv evp lib' a'" "oa_el a'"
        using stepped_error [OF b(2) t, of r False] by auto
      have "start_SSL evp su hs stream lib a = Some (r, lib', a', log)" using b(1) e(1) False none True by (simp add: start_SSL_def)
      then show ?thesis using e error_op_ok by blast
    qed
  qed
qed

text \<open>The stream below signals that it is open although the adapter does not wait for that: the event is passed on.\<close>

definition open_passed_on :: "stream_events \<Rightarrow> 'c ssl_adapter \<Rightarrow> bool" where
  "open_passed_on events a \<longleftrightarrow> se_open events \<and> oa_state a \<noteq> SSL_NONE \<and> oa_state a \<noteq> SSL_WAIT"

lemma on_event_open_ok:
  assumes inv: "ssl_inv evp lib a" "oa_el a"
  shows "\<exists>returned sig lib' a' log. on_event_open evp su hs events lib a = Some (returned, sig, lib', a', log) \<and> op_ok evp a lib' a' log \<and>
    (returned \<longrightarrow> oa_state a' = SSL_ERROR) \<and> (se_open sig \<longrightarrow> se_open events \<and> oa_state a \<noteq> SSL_WAIT \<and> a' = a) \<and> (oa_state a = SSL_CONNECTED \<longrightarrow> a' = a) \<and>
    (opens log \<longrightarrow> oa_state a' = SSL_CONNECTED)"
proof (cases "se_open events \<and> oa_state a = SSL_WAIT")
  case False
  then show ?thesis using unchanged_op_ok [OF inv] by (auto simp: on_event_open_def no_events_def)
next
  case True
  note i = ssl_inv_running [OF inv]
  obtain r lib1 a1 log where b: "begin_SSL evp su hs lib (a\<lparr>oa_state := SSL_CONNECTING\<rparr>) = Some (r, lib1, a1, log)"
    "stepped evp hs (a\<lparr>oa_state := SSL_CONNECTING\<rparr>) r lib1 a1 log" using begin_from [OF inv] True by blast
  have t: "oa_timer (a\<lparr>oa_state := SSL_CONNECTING\<rparr>) \<noteq> None" "oa_el (a\<lparr>oa_state := SSL_CONNECTING\<rparr>)"
    using i(2) True inv(2) by (auto simp: closed_def)
  show ?thesis
  proof (cases "r = 0")
    case r: True
    have "opens log \<longrightarrow> oa_state a1 = SSL_CONNECTED" using b(2) by (simp add: stepped_def)
    then show ?thesis using b r stepped_op_ok [OF _ t] True by (auto simp: on_event_open_def no_events_def)
  next
    case False
    obtain lib' a' where e: "error_info r True lib1 a1 = Some (lib', a', [Signalled (no_events\<lparr>se_close := True\<rparr>) r])" "oa_state a' = SSL_ERROR"
      "ssl_inv evp lib' a'" "oa_el a'"
      using stepped_error [OF b(2) t, of r True] by auto
    have "on_event_open evp su hs events lib a = Some (True, no_events, lib', a', log @ [Signalled (no_events\<lparr>se_close := True\<rparr>) r])"
      using b(1) e(1) False True by (simp add: on_event_open_def)
    moreover have "\<not> opens (log @ [Signalled (no_events\<lparr>se_close := True\<rparr>) r])" using b(2) False by (simp add: stepped_def no_events_def)
    moreover have "op_ok evp a lib' a' (log @ [Signalled (no_events\<lparr>se_close := True\<rparr>) r])" by (rule error_op_ok [OF e(3,2,4)])
    ultimately show ?thesis using e(2) True by (intro exI conjI) (assumption | simp add: no_events_def)+
  qed
qed

lemma on_event_io_ok:
  assumes inv: "ssl_inv evp lib a" "oa_el a"
  shows "\<exists>returned sig' lib' a' log. on_event_io evp hs' events sig lib a = Some (returned, sig', lib', a', log) \<and> op_ok evp a lib' a' log \<and>
    (returned \<longrightarrow> oa_state a' = SSL_ERROR) \<and> se_open sig' = se_open sig \<and> (oa_state a \<noteq> SSL_CONNECTING \<longrightarrow> a' = a \<and> log = [])"
proof (cases "(se_read events \<or> se_write events) \<and> oa_state a = SSL_CONNECTING")
  case False
  then show ?thesis using unchanged_op_ok [OF inv, of a "[]"] inv by (auto simp: on_event_io_def Let_def)
next
  case True
  note i = ssl_inv_running [OF inv]
  have t: "\<not> closed a" "handshaking a" using True by (auto simp: closed_def handshaking_def)
  obtain r lib1 a1 log where b: "continue_SSL evp hs' lib a = Some (r, lib1, a1, log)" "stepped evp hs' a r lib1 a1 log"
    using continue_SSL_ok [OF i(1) i(2) [OF t(1)] inv(2), of evp hs'] i(3,5) t True by blast
  have tt: "oa_timer a \<noteq> None" by (rule i(2) [OF t(1)])
  show ?thesis
  proof (cases "r = 0")
    case r: True
    then show ?thesis using b stepped_op_ok [OF _ tt inv(2)] True by (auto simp: on_event_io_def)
  next
    case False
    obtain lib' a' where e: "error_info r True lib1 a1 = Some (lib', a', [Signalled (no_events\<lparr>se_close := True\<rparr>) r])" "oa_state a' = SSL_ERROR"
      "ssl_inv evp lib' a'" "oa_el a'"
      using stepped_error [OF b(2) tt inv(2), of r True] by auto
    have "on_event_io evp hs' events sig lib a = Some (True, sig, lib', a', log @ [Signalled (no_events\<lparr>se_close := True\<rparr>) r])"
      using b(1) e(1) False True by (auto simp: on_event_io_def)
    then show ?thesis using e(2-4) error_op_ok True by fastforce
  qed
qed

lemma on_event_ok:
  assumes inv: "ssl_inv evp lib a" "oa_el a"
  shows "\<exists>lib' a' log. oa_on_event evp su hs hs' events err lib a = Some (lib', a', log) \<and> ssl_inv evp lib' a' \<and> oa_el a' \<and>
    (\<not> open_passed_on events a \<longrightarrow> opened_ok a log a')"
proof -
  obtain ret1 sig1 lib1 a1 log1 where 1: "on_event_open evp su hs events lib a = Some (ret1, sig1, lib1, a1, log1)" "op_ok evp a lib1 a1 log1"
    "ret1 \<longrightarrow> oa_state a1 = SSL_ERROR" "se_open sig1 \<longrightarrow> se_open events \<and> oa_state a \<noteq> SSL_WAIT \<and> a1 = a" "oa_state a = SSL_CONNECTED \<longrightarrow> a1 = a"
    "opens log1 \<longrightarrow> oa_state a1 = SSL_CONNECTED"
    using on_event_open_ok [OF assms, of su hs events] by blast
  show ?thesis
  proof (cases ret1)
    case True
    then show ?thesis using 1(1,2) by (auto simp: oa_on_event_def op_ok_def)
  next
    case False
    have inv1: "ssl_inv evp lib1 a1" "oa_el a1" using 1(2) by (simp_all add: op_ok_def)
    obtain ret2 sig2 lib2 a2 log2 where 2: "on_event_io evp hs' events sig1 lib1 a1 = Some (ret2, sig2, lib2, a2, log2)" "op_ok evp a1 lib2 a2 log2"
      "ret2 \<longrightarrow> oa_state a2 = SSL_ERROR" "se_open sig2 = se_open sig1" "oa_state a1 \<noteq> SSL_CONNECTING \<longrightarrow> a2 = a1 \<and> log2 = []"
      using on_event_io_ok [OF inv1] by blast
    have inv2: "ssl_inv evp lib2 a2" "oa_el a2" using 2(2) by (simp_all add: op_ok_def)
    show ?thesis
    proof (cases ret2)
      case True
      then have "oa_on_event evp su hs hs' events err lib a = Some (lib2, a2, log1 @ log2)" using 1(1) 2(1) False by (simp add: oa_on_event_def)
      then show ?thesis using error_op_ok [OF inv2(1) _ inv2(2), of a "log1 @ log2"] 2(3) True by (auto simp: op_ok_def)
    next
      case nr: False
      show ?thesis
      proof (cases "se_close events")
        case True
        obtain lib3 a3 where c: "oa_cleanup lib2 a2 = Some (lib3, a3)" "closed a3" "ssl_inv evp lib3 a3" "oa_el a3"
          using cleanup_inv [OF ssl_inv_running(1,4) [OF inv2], of evp] inv2(2) by auto
        have "\<exists>log. oa_on_event evp su hs hs' events err lib a = Some (lib3, a3, log)" using 1(1) 2(1) False nr True c(1) by (simp add: oa_on_event_def)
        then show ?thesis using c(2-4) by (auto simp: op_ok_def opened_ok_def closed_def)
      next
        case nc: False
        let ?log = "log1 @ log2 @ (if sig2 \<noteq> no_events then [Signalled sig2 0] else [])"
        have run: "oa_on_event evp su hs hs' events err lib a = Some (lib2, a2, ?log)" using 1(1) 2(1) False nr nc by (simp add: oa_on_event_def)
        have "opens ?log \<longleftrightarrow> \<not> waiting_to_verify_peer_certificate a2" if "oa_state a \<noteq> SSL_CONNECTED" "oa_state a2 = SSL_CONNECTED" "\<not> open_passed_on events a"
        proof -
          have ns: "\<not> se_open sig2" using 1(4) 2(4,5) that(2,3) by (auto simp: open_passed_on_def)
          then have so: "opens ?log \<longleftrightarrow> opens log1 \<or> opens log2" by (simp add: no_events_def)
          have o1: "oa_state a1 = SSL_CONNECTED \<Longrightarrow> opens log1 \<longleftrightarrow> \<not> waiting_to_verify_peer_certificate a1"
            using 1(2) that(1) by (simp add: op_ok_def opened_ok_def)
          show ?thesis
          proof (cases "oa_state a1 = SSL_CONNECTED")
            case True
            then show ?thesis using so o1 2(5) by simp
          next
            case False
            have "opens log2 \<longleftrightarrow> \<not> waiting_to_verify_peer_certificate a2" using 2(2) False that(2) by (simp add: op_ok_def opened_ok_def)
            moreover have "\<not> opens log1" using 1(6) False by blast
            ultimately show ?thesis using so by blast
          qed
        qed
        then have "\<not> open_passed_on events a \<longrightarrow> opened_ok a ?log a2" unfolding opened_ok_def by blast
        then show ?thesis using run inv2 by blast
      qed
    qed
  qed
qed

lemma set_peer_certificate_digest_ok:
  assumes inv: "ssl_inv evp lib a" "oa_el a"
  shows "\<exists>ok e lib' a' log. set_peer_certificate_digest evp alg val lib a = Some (ok, e, lib', a', log) \<and> op_ok evp a lib' a' log \<and>
    (ok \<longrightarrow> oa_digest_algorithm a' = alg \<and> oa_digest_value a' = val \<and> oa_state a' = oa_state a \<and>
      (oa_peer_certificate a \<noteq> None \<longrightarrow> oa_verified a' \<and> matches evp a')) \<and>
    (\<not> ok \<longrightarrow> lib' = lib \<and> a' = a \<or> oa_state a' = SSL_ERROR \<and> lib_empty lib')"
proof (cases "get_digest_size evp alg = Some (length val)")
  case False
  then show ?thesis using unchanged_op_ok [OF inv, of a "[]"] by (auto simp: set_peer_certificate_digest_def split: option.splits)
next
  case True
  let ?a = "a\<lparr>oa_digest_value := val, oa_digest_algorithm := alg\<rparr>"
  have own: "owns lib ?a" using inv(1) by (simp add: ssl_inv_def owns_def)
  have fields: "handshaking ?a = handshaking a" "closed ?a = closed a" by (simp_all add: handshaking_def closed_def)
  have invm: "ssl_inv evp lib b" if "same_but_peer ?a b" "oa_verified b \<and> \<not> closed b \<longrightarrow> matches evp b" for b
    using inv own that same_but_peerD [OF that(1)] unfolding ssl_inv_def by (simp add: fields)
  show ?thesis
  proof (cases "oa_peer_certificate a")
    case None
    have "oa_verified ?a \<and> \<not> closed ?a \<longrightarrow> matches evp ?a" using inv(1) None unfolding ssl_inv_def by (auto simp: matches_def closed_def)
    then have "ssl_inv evp lib ?a" by (rule invm [OF same_but_peer_refl])
    then have "op_ok evp a lib ?a []" using inv(2) by (intro unchanged_op_ok) simp_all
    moreover have "set_peer_certificate_digest evp alg val lib a = Some (True, DigestErrorNone, lib, ?a, [])"
      using True None by (simp add: set_peer_certificate_digest_def)
    ultimately show ?thesis using None by (intro exI conjI) (assumption | simp)+
  next
    case (Some cert)
    obtain ok b where v: "verify_peer_certificate evp ?a = (ok, b)" by (cases "verify_peer_certificate evp ?a")
    note vo = verify_peer_certificate_ok [OF v] and sb = same_but_peerD [OF verify_peer_certificate_ok(1) [OF v]]
    show ?thesis
    proof (cases ok)
      case ok: True
      have "ssl_inv evp lib b" by (rule invm [OF vo(1)]) (use vo(4) [OF ok] in blast)
      then have "op_ok evp a lib b []" using sb inv(2) by (intro unchanged_op_ok) simp_all
      moreover have "set_peer_certificate_digest evp alg val lib a = Some (True, DigestErrorNone, lib, b, [])"
        using True Some v ok by (simp add: set_peer_certificate_digest_def)
      ultimately show ?thesis using vo(4) [OF ok] sb by (intro exI conjI) (assumption | simp)+
    next
      case False
      then have b: "b = ?a" by (rule vo(5))
      have "oa_timer ?a \<noteq> None \<longrightarrow> oa_el ?a" using inv(2) by simp
      from error_info_ok [OF own this, of "- 1" False evp]
      obtain lib' a' where e: "error_info (- 1) False lib ?a = Some (lib', a', [])" "lib_empty lib'" "oa_state a' = SSL_ERROR" "ssl_inv evp lib' a'" "oa_el a'"
        using inv(2) by auto
      have "set_peer_certificate_digest evp alg val lib a = Some (False, VerificationFailed, lib', a', [])"
        using True Some v False b e(1) by (simp add: set_peer_certificate_digest_def)
      then show ?thesis using e error_op_ok [OF e(4,3,5), of a "[]"] by blast
    qed
  qed
qed

definition stop_all_timers :: "ssl_lib \<Rightarrow> ssl_lib" where
  "stop_all_timers lib = lib\<lparr>lib_timer := (\<lambda>t. map_option (\<lambda>_. False) (lib_timer lib t))\<rparr>"

lemma stop_all_timers_owns: "owns lib a \<Longrightarrow> owns (stop_all_timers lib) a" "\<not> running (stop_all_timers lib)"
  by (auto simp: owns_def stop_all_timers_def running_def fun_eq_iff split: option.splits)

lemma dtls_handshake_timeout_ok:
  assumes inv: "ssl_inv evp lib a" "oa_el a" and r: "running lib"
  shows "\<exists>lib' a' log. dtls_handshake_timeout evp hs (stop_all_timers lib) a = Some (lib', a', log) \<and> op_ok evp a lib' a' log"
proof -
  note i = ssl_inv_running [OF inv]
  have st: "oa_state a = SSL_CONNECTING" using inv(1) r by (simp add: ssl_inv_def)
  then have h: "handshaking a" "\<not> closed a" by (auto simp: closed_def handshaking_def)
  note own = stop_all_timers_owns(1) [OF i(1)]
  have sc: "oa_ssl a \<noteq> None" "oa_ctx a \<noteq> None" using i(5) [OF h(1)] by blast+
  obtain s where s: "oa_ssl a = Some s" using sc(1) by blast
  obtain att where att: "lib_ssl (stop_all_timers lib) s = Some att" using own s by (auto simp: owns_def)
  obtain e lib' a' log where c: "continue_SSL evp hs (stop_all_timers lib) a = Some (e, lib', a', log)" "stepped evp hs a e lib' a' log"
    using continue_SSL_ok [OF own i(2) [OF h(2)] inv(2) sc i(3) [OF h(2)] st] by blast
  have "ssl_inv evp lib' a'" using c(2) sc i(2) [OF h(2)] inv(2) unfolding stepped_def ssl_inv_def by (auto simp: handshaking_def closed_def)
  moreover have "oa_el a'" using c(2) inv(2) by (simp add: stepped_def)
  moreover have "opened_ok a log a'"
  proof (cases "e = 0")
    case True
    then show ?thesis using c(2) by (simp add: stepped_def opened_ok_def)
  next
    case False
    then have "oa_state a' = SSL_CONNECTING" using c(2) by (simp add: stepped_def)
    then show ?thesis by (simp add: opened_ok_def)
  qed
  ultimately show ?thesis using c(1) s att by (simp add: dtls_handshake_timeout_def op_ok_def)
qed

lemma set_identity_ok:
  assumes inv: "ssl_inv evp lib a" "oa_el a" and fresh: "i \<notin> lib_identity lib"
  shows "\<exists>lib' a'. oa_set_identity (Some i) (lib\<lparr>lib_identity := insert i (lib_identity lib)\<rparr>) a = Some (lib', a') \<and> op_ok evp a lib' a' []"
proof -
  have o: "lib_identity lib = set_option (oa_identity a)" using inv(1) by (simp add: ssl_inv_def owns_def)
  have ne: "oa_identity a \<noteq> Some i" using fresh o by auto
  let ?lib = "lib\<lparr>lib_identity := {i}\<rparr>" and ?a = "a\<lparr>oa_identity := Some i\<rparr>"
  have "oa_set_identity (Some i) (lib\<lparr>lib_identity := insert i (lib_identity lib)\<rparr>) a = Some (?lib, ?a)"
    using ne o by (cases "oa_identity a") (simp_all add: oa_set_identity_def lib_delete_identity_def insert_Diff_if eq_commute [of i])
  moreover have "ssl_inv evp ?lib ?a"
  proof -
    have "owns ?lib ?a" using inv(1) by (simp add: ssl_inv_def owns_def cong: option.case_cong)
    moreover have "matches evp ?a = matches evp a" by (rule matches_cong) simp_all
    ultimately show ?thesis using inv(1) unfolding ssl_inv_def by (simp add: handshaking_def closed_def running_def)
  qed
  ultimately show ?thesis using inv(2) unchanged_op_ok [of evp ?lib ?a a] by auto
qed

lemma setting_ok:
  assumes inv: "ssl_inv evp lib a" "oa_el a"
    and "a' = a\<lparr>oa_role := oa_role a', oa_mode := oa_mode a', oa_max_version := oa_max_version a', oa_timeout_ms := oa_timeout_ms a',
      oa_client_auth := oa_client_auth a', oa_srtp_ciphers := oa_srtp_ciphers a'\<rparr>"
  shows "op_ok evp a lib a' []"
proof -
  obtain r m v ti c s where a': "a' = a\<lparr>oa_role := r, oa_mode := m, oa_max_version := v, oa_timeout_ms := ti, oa_client_auth := c, oa_srtp_ciphers := s\<rparr>"
    using assms(3) by blast
  have m: "matches evp a' = matches evp a" unfolding a' by (rule matches_cong) simp_all
  have o: "owns lib a' = owns lib a" by (simp add: a' owns_def)
  have "ssl_inv evp lib a' = ssl_inv evp lib a" unfolding ssl_inv_def m o by (simp add: a' handshaking_def closed_def)
  then show ?thesis using inv by (intro unchanged_op_ok) (simp_all add: a')
qed

section \<open>Reachable states\<close>

text \<open>
  The steps of an adapter with an event loop.  A new identity is not one that is already in use.  The flag \<open>passed\<close> tells that the step is an event by which the stream
  below signals that it is open although the adapter is already past that point; such an event is passed on, whatever the state of the handshake is.
\<close>

inductive ssl_step :: "'c evp \<Rightarrow> bool \<Rightarrow> ssl_lib \<Rightarrow> 'c ssl_adapter \<Rightarrow> ssl_event list \<Rightarrow> ssl_lib \<Rightarrow> 'c ssl_adapter \<Rightarrow> bool" for evp where
  step_identity: "i \<notin> lib_identity lib \<Longrightarrow>
    oa_set_identity (Some i) (lib\<lparr>lib_identity := insert i (lib_identity lib)\<rparr>) a = Some (lib', a') \<Longrightarrow> ssl_step evp False lib a [] lib' a'"
| step_role: "ssl_step evp False lib a [] lib (set_server_role r a)"
| step_mode: "ssl_step evp False lib a [] lib (oa_set_mode m a)"
| step_version: "ssl_step evp False lib a [] lib (set_max_protocol_version v a)"
| step_initial_timeout: "ssl_step evp False lib a [] lib (set_initial_retransmission_timeout ti a)"
| step_client_auth: "ssl_step evp False lib a [] lib (set_client_auth_enabled c a)"
| step_srtp: "set_dtls_srtp_crypto_suites cs a = (ok, a') \<Longrightarrow> ssl_step evp False lib a [] lib a'"
| step_start: "start_SSL evp su hs stream lib a = Some (r, lib', a', log) \<Longrightarrow> ssl_step evp False lib a log lib' a'"
| step_digest: "set_peer_certificate_digest evp alg val lib a = Some (ok, e, lib', a', log) \<Longrightarrow> ssl_step evp False lib a log lib' a'"
| step_event: "oa_on_event evp su hs hs' events err lib a = Some (lib', a', log) \<Longrightarrow>
    passed = (se_open events \<and> oa_state a \<noteq> SSL_NONE \<and> oa_state a \<noteq> SSL_WAIT) \<Longrightarrow> ssl_step evp passed lib a log lib' a'"
| step_timeout: "running lib \<Longrightarrow> dtls_handshake_timeout evp hs (stop_all_timers lib) a = Some (lib', a', log) \<Longrightarrow> ssl_step evp False lib a log lib' a'"

inductive ssl_reach :: "'c evp \<Rightarrow> ssl_lib \<Rightarrow> 'c ssl_adapter \<Rightarrow> bool" for evp where
  reach_new: "lib_empty lib \<Longrightarrow> ssl_adapter_new raw True lib = (lib', a) \<Longrightarrow> ssl_reach evp lib' a"
| reach_step: "ssl_reach evp lib a \<Longrightarrow> ssl_step evp passed lib a log lib' a' \<Longrightarrow> ssl_reach evp lib' a'"

lemma ssl_step_ok:
  assumes "ssl_step evp passed lib a log lib' a'" and inv: "ssl_inv evp lib a" "oa_el a"
  shows "ssl_inv evp lib' a' \<and> oa_el a' \<and> (\<not> passed \<longrightarrow> opened_ok a log a')"
proof -
  have "op_ok evp a lib' a' log \<or> ssl_inv evp lib' a' \<and> oa_el a' \<and> (\<not> passed \<longrightarrow> opened_ok a log a')"
    using assms(1)
  proof cases
    case (step_identity i)
    then show ?thesis using set_identity_ok [OF inv] by fastforce
  next
    case (step_role r)
    then show ?thesis using inv by (auto simp: set_server_role_def intro!: setting_ok)
  next
    case (step_mode m)
    then show ?thesis using inv by (auto simp: oa_set_mode_def intro!: setting_ok)
  next
    case (step_version v)
    then show ?thesis using inv by (auto simp: set_max_protocol_version_def intro!: setting_ok)
  next
    case (step_initial_timeout ti)
    then show ?thesis using inv by (auto simp: set_initial_retransmission_timeout_def intro!: setting_ok)
  next
    case (step_client_auth c)
    then show ?thesis using inv by (auto simp: set_client_auth_enabled_def intro!: setting_ok)
  next
    case (step_srtp cs ok)
    then show ?thesis using inv unchanged_op_ok [OF inv, of a "[]"]
      by (auto simp: set_dtls_srtp_crypto_suites_def split: if_splits option.splits intro!: setting_ok)
  next
    case (step_start su hs stream r)
    then show ?thesis using start_SSL_ok [OF inv, of su hs stream] by auto
  next
    case (step_digest alg val ok e)
    then show ?thesis using set_peer_certificate_digest_ok [OF inv, of alg val] by auto
  next
    case (step_event su hs hs' events err)
    then show ?thesis using on_event_ok [OF inv, of su hs hs' events err] by (auto simp: open_passed_on_def)
  next
    case (step_timeout hs)
    then show ?thesis using dtls_handshake_timeout_ok [OF inv, of hs] by auto
  qed
  then show ?thesis by (auto simp: op_ok_def)
qed

lemma ssl_reach_inv: "ssl_reach evp lib a \<Longrightarrow> ssl_inv evp lib a \<and> oa_el a"
proof (induction rule: ssl_reach.induct)
  case (reach_new lib raw lib' a)
  then show ?case
    by (auto simp: ssl_adapter_new_def Let_def ssl_inv_def owns_def lib_empty_def handshaking_def closed_def running_def split: if_splits)
next
  case (reach_step lib a passed log lib' a')
  then show ?case using ssl_step_ok [OF reach_step.hyps(2)] by simp
qed

section \<open>Opening\<close>

lemma continue_SSL_connects:
  assumes "continue_SSL evp hs lib a = Some (r, lib', a', log)" and "verify_callbacks evp (hs_certs hs) a = (oks, b)" and "hs_error hs oks = SSL_ERROR_NONE"
  shows "r = 0 \<and> a' = b\<lparr>oa_state := SSL_CONNECTED\<rparr>"
  using assms by (auto simp: continue_SSL_def Let_def split: Option.bind_splits)

lemma begin_SSL_continues:
  assumes "begin_SSL evp su hs lib a = Some (r, lib', a', log)" and "oa_state a = SSL_CONNECTING"
    and "ok_ctx_new su (context_method (openssl_version su) a)" "ok_configure_identity su" "ok_use_srtp su" "ok_bio_new su" "ok_ssl_new su" "ok_ecdh su"
  shows "\<exists>lib0 c s. continue_SSL evp hs lib0 (a\<lparr>oa_ctx := Some c, oa_ssl := Some s\<rparr>) = Some (r, lib', a', log)"
  using assms by (fastforce simp: begin_SSL_def setup_SSL_context_def Let_def split: if_splits)

lemma good_certificate:
  assumes "oa_digest_algorithm a \<noteq> []" "oa_digest_value a \<noteq> []"
    and "certificate_compute_digest evp cert (oa_digest_algorithm a) EVP_MAX_MD_SIZE = Some (oa_digest_value a)"
  shows "\<exists>b. verify_callbacks evp [(0, cert)] a = ([True], b) \<and> oa_verified b"
  using assms by (auto simp: SSL_verify_callback_def verify_peer_certificate_def has_peer_certificate_digest_def)

lemma handshake_opens_ok:
  assumes reach: "ssl_reach evp lib a" and wait: "oa_state a = SSL_WAIT" and digest: "oa_digest_algorithm a \<noteq> []" "oa_digest_value a \<noteq> []"
    and peer: "certificate_compute_digest evp cert (oa_digest_algorithm a) EVP_MAX_MD_SIZE = Some (oa_digest_value a)"
    and su_ok: "\<And>m. ok_ctx_new su m" "ok_configure_identity su" "ok_use_srtp su" "ok_bio_new su" "ok_ssl_new su" "ok_ecdh su"
    and hs: "hs_certs hs = [(0, cert)]" "hs_error hs [True] = SSL_ERROR_NONE"
  shows "\<exists>lib' a' events. oa_on_event evp su hs hs' (no_events\<lparr>se_open := True\<rparr>) 0 lib a = Some (lib', a', events) \<and>
    oa_state a' = SSL_CONNECTED \<and> opens events"
proof -
  have inv: "ssl_inv evp lib a" "oa_el a" using ssl_reach_inv [OF reach] by simp_all
  let ?a = "a\<lparr>oa_state := SSL_CONNECTING\<rparr>"
  obtain r lib1 a1 log where b: "begin_SSL evp su hs lib ?a = Some (r, lib1, a1, log)" "stepped evp hs ?a r lib1 a1 log"
    using begin_from [OF inv, of su hs] wait by auto
  obtain lib0 c s where cont: "continue_SSL evp hs lib0 (?a\<lparr>oa_ctx := Some c, oa_ssl := Some s\<rparr>) = Some (r, lib1, a1, log)"
    using begin_SSL_continues [OF b(1)] su_ok by auto
  obtain d where d: "verify_callbacks evp (hs_certs hs) (?a\<lparr>oa_ctx := Some c, oa_ssl := Some s\<rparr>) = ([True], d)" "oa_verified d"
    using good_certificate [of "?a\<lparr>oa_ctx := Some c, oa_ssl := Some s\<rparr>" evp cert] digest peer unfolding hs(1) by auto
  have r: "r = 0" "a1 = d\<lparr>oa_state := SSL_CONNECTED\<rparr>" using continue_SSL_connects [OF cont d(1) hs(2)] by simp_all
  have "opens log" using b(2) r d(2) by (simp add: stepped_def waiting_to_verify_peer_certificate_def)
  moreover have "oa_on_event evp su hs hs' (no_events\<lparr>se_open := True\<rparr>) 0 lib a = Some (lib1, a1, log)"
    using b(1) r wait by (simp add: oa_on_event_def on_event_open_def on_event_io_def no_events_def)
  ultimately show ?thesis using r(2) by auto
qed

section \<open>Properties\<close>

text \<open>
  C24. In every reachable state an adapter with an event loop owns exactly the OpenSSL objects that are alive
  (none before the handshake and after the end of the stream), and its retransmission timer runs only during
  the handshake.  In each of these states \<open>start_SSL\<close>, \<open>set_peer_certificate_digest\<close>, \<open>set_identity\<close> with a new identity, every event of the stream below, the timeout of a running timer
  and the questions for the cipher and the SRTP profile use only live objects, as does \<open>export_keying_material\<close> once the handshake has begun (before that it uses the null
  pointer); and the cleanup of the destructor frees each object once.
\<close>

theorem ssl_adapter_safe:
  assumes "ssl_reach evp lib a"
  shows "ssl_inv evp lib a \<and>
    (\<forall>su hs stream. start_SSL evp su hs stream lib a \<noteq> None) \<and>
    (\<forall>alg val. set_peer_certificate_digest evp alg val lib a \<noteq> None) \<and>
    (\<forall>i. i \<notin> lib_identity lib \<longrightarrow> oa_set_identity (Some i) (lib\<lparr>lib_identity := insert i (lib_identity lib)\<rparr>) a \<noteq> None) \<and>
    (\<forall>su hs hs' events err. oa_on_event evp su hs hs' events err lib a \<noteq> None) \<and>
    (running lib \<longrightarrow> (\<forall>hs. dtls_handshake_timeout evp hs (stop_all_timers lib) a \<noteq> None)) \<and>
    get_ssl_cipher_suite cipher lib a \<noteq> None \<and> get_dtls_srtp_crypto_suite profile lib a \<noteq> None \<and>
    (oa_state a = SSL_CONNECTING \<or> oa_state a = SSL_CONNECTED \<longrightarrow> export_keying_material keys n lib a \<noteq> None) \<and>
    (\<exists>lib' a'. oa_cleanup lib a = Some (lib', a') \<and> lib_empty lib' \<and> closed a')"
proof -
  have inv: "ssl_inv evp lib a" "oa_el a" using ssl_reach_inv [OF assms] by simp_all
  have 1: "start_SSL evp su hs stream lib a \<noteq> None" for su hs stream using start_SSL_ok [OF inv, of su hs stream] by auto
  have 2: "set_peer_certificate_digest evp alg val lib a \<noteq> None" for alg val using set_peer_certificate_digest_ok [OF inv, of alg val] by auto
  have 3: "oa_on_event evp su hs hs' events err lib a \<noteq> None" for su hs hs' events err using on_event_ok [OF inv, of su hs hs' events err] by auto
  have 4: "dtls_handshake_timeout evp hs (stop_all_timers lib) a \<noteq> None" if "running lib" for hs using dtls_handshake_timeout_ok [OF inv that, of hs] by auto
  have 5: "\<exists>lib' a'. oa_cleanup lib a = Some (lib', a') \<and> lib_empty lib' \<and> closed a'"
    using cleanup_inv [OF ssl_inv_running(1,4) [OF inv], of evp] by blast
  have 6: "oa_set_identity (Some i) (lib\<lparr>lib_identity := insert i (lib_identity lib)\<rparr>) a \<noteq> None" if "i \<notin> lib_identity lib" for i
    using set_identity_ok [OF inv that] by auto
  have 7: "\<exists>s b. oa_ssl a = Some s \<and> lib_ssl lib s = Some b" if "oa_state a = SSL_CONNECTING \<or> oa_state a = SSL_CONNECTED"
    using ssl_inv_running(1,5) [OF inv] that by (auto simp: handshaking_def owns_def)
  have 8: "get_ssl_cipher_suite cipher lib a \<noteq> None" "get_dtls_srtp_crypto_suite profile lib a \<noteq> None"
    "oa_state a = SSL_CONNECTING \<or> oa_state a = SSL_CONNECTED \<longrightarrow> export_keying_material keys n lib a \<noteq> None"
    using 7 by (auto simp: get_ssl_cipher_suite_def get_dtls_srtp_crypto_suite_def export_keying_material_def)
  show ?thesis using inv(1) 1 2 3 4 5 6 8 by blast
qed

text \<open>
  C23. Whenever an operation of an adapter with an event loop establishes the connection, a peer that counts as verified presented a certificate with
  the digest that was configured for it.  Unless the operation is an event by which the stream below signals once more that it is
  open (in a state other than \<open>SSL_NONE\<close> and \<open>SSL_WAIT\<close>; that is passed on), the adapter signals that it is open exactly when client authentication is off or the peer is verified.
\<close>

theorem ssl_open_authenticated:
  assumes "ssl_reach evp lib a" and "ssl_step evp passed lib a events lib' a'" and "oa_state a \<noteq> SSL_CONNECTED" and "oa_state a' = SSL_CONNECTED"
  shows "(\<not> passed \<longrightarrow> (opens events \<longleftrightarrow> \<not> oa_client_auth a' \<or> oa_verified a')) \<and>
    (oa_verified a' \<longrightarrow> (\<exists>cert. oa_peer_certificate a' = Some cert \<and>
       certificate_compute_digest evp cert (oa_digest_algorithm a') EVP_MAX_MD_SIZE = Some (oa_digest_value a')))"
proof -
  have inv: "ssl_inv evp lib a" "oa_el a" using ssl_reach_inv [OF assms(1)] by simp_all
  have "ssl_inv evp lib' a' \<and> oa_el a' \<and> (\<not> passed \<longrightarrow> opened_ok a events a')" by (rule ssl_step_ok [OF assms(2) inv])
  then have "\<not> passed \<longrightarrow> opened_ok a events a'" "oa_verified a' \<longrightarrow> matches evp a'"
    using assms(4) by (auto simp: ssl_inv_def closed_def)
  then show ?thesis using assms(3,4) by (auto simp: opened_ok_def waiting_to_verify_peer_certificate_def matches_def)
qed

text \<open>
  C25. An adapter that waits for its stream and knows the digest of the peer's certificate gets connected and
  signals that it is open, when the stream opens, OpenSSL completes the handshake at once and the peer
  presents a certificate with that digest.
\<close>

theorem ssl_handshake_opens:
  assumes reach: "ssl_reach evp lib a" and wait: "oa_state a = SSL_WAIT" and digest: "oa_digest_algorithm a \<noteq> []" "oa_digest_value a \<noteq> []"
    and peer: "certificate_compute_digest evp cert (oa_digest_algorithm a) EVP_MAX_MD_SIZE = Some (oa_digest_value a)"
    and su_ok: "\<And>m. ok_ctx_new su m" "ok_configure_identity su" "ok_use_srtp su" "ok_bio_new su" "ok_ssl_new su" "ok_ecdh su"
    and hs: "hs_certs hs = [(0, cert)]" "hs_error hs [True] = SSL_ERROR_NONE"
  shows "\<exists>lib' a' events. oa_on_event evp su hs hs' (no_events\<lparr>se_open := True\<rparr>) 0 lib a = Some (lib', a', events) \<and>
    oa_state a' = SSL_CONNECTED \<and> opens events"
  by (rule handshake_opens_ok [OF assms])

section \<open>An example\<close>

text \<open>Certificates are byte strings and their own digests.\<close>

definition demo_evp :: "byte list evp" where
  "demo_evp = \<lparr>EVP_MD_size = (\<lambda>_. 1), X509_digest = (\<lambda>_ cert. cert)\<rparr>"

definition empty_lib :: ssl_lib where
  "empty_lib = \<lparr>lib_next = 0, lib_ctx = Map.empty, lib_ssl = Map.empty, lib_bio = {}, lib_identity = {}, lib_timer = Map.empty\<rparr>"

definition demo_lib :: ssl_lib where
  "demo_lib = fst (ssl_adapter_new 0 True empty_lib :: ssl_lib \<times> byte list ssl_adapter)"

definition demo_adapter :: "byte list ssl_adapter" where
  "demo_adapter = (snd (ssl_adapter_new 0 True empty_lib))\<lparr>oa_digest_value := [7], oa_digest_algorithm := DIGEST_SHA_1, oa_state := SSL_WAIT\<rparr>"

definition demo_setup :: ssl_setup where
  "demo_setup = \<lparr>openssl_version = 0x10100000, ok_ctx_new = (\<lambda>_. True), ok_configure_identity = True, ok_use_srtp = True, ok_bio_new = True,
     ok_ssl_new = True, ok_ecdh = True\<rparr>"

definition demo_handshake :: "byte list \<Rightarrow> byte list handshake" where
  "demo_handshake cert = \<lparr>hs_certs = [(0, cert)], hs_error = (\<lambda>answers. if False \<in> set answers then 1 else 0), hs_timeout = None, hs_no_shared_cipher = False\<rparr>"

lemma demo_reach: "ssl_reach demo_evp demo_lib demo_adapter"
proof -
  let ?a = "snd (ssl_adapter_new 0 True empty_lib) :: byte list ssl_adapter"
  have "lib_empty empty_lib" by (simp add: lib_empty_def empty_lib_def)
  moreover have "ssl_adapter_new 0 True empty_lib = (demo_lib, ?a)" by (simp add: demo_lib_def ssl_adapter_new_def Let_def)
  ultimately have 0: "ssl_reach demo_evp demo_lib ?a" by (rule reach_new)
  have "set_peer_certificate_digest demo_evp DIGEST_SHA_1 [7] demo_lib ?a =
      Some (True, DigestErrorNone, demo_lib, ?a\<lparr>oa_digest_value := [7], oa_digest_algorithm := DIGEST_SHA_1\<rparr>, [])"
    by (simp add: set_peer_certificate_digest_def get_digest_size_def get_digest_EVP_def demo_evp_def ssl_adapter_new_def Let_def DIGEST_MD5_def DIGEST_SHA_1_def)
  from reach_step [OF 0 step_digest [OF this]]
  have 1: "ssl_reach demo_evp demo_lib (?a\<lparr>oa_digest_value := [7], oa_digest_algorithm := DIGEST_SHA_1\<rparr>)" .
  have "start_SSL demo_evp demo_setup (demo_handshake [7]) SS_OPENING demo_lib (?a\<lparr>oa_digest_value := [7], oa_digest_algorithm := DIGEST_SHA_1\<rparr>) =
      Some (0, demo_lib, demo_adapter, [])"
    by (simp add: start_SSL_def demo_adapter_def ssl_adapter_new_def Let_def)
  from reach_step [OF 1 step_start [OF this]] show ?thesis .
qed

lemma demo_digest:
  "oa_state demo_adapter = SSL_WAIT" "oa_digest_algorithm demo_adapter \<noteq> []" "oa_digest_value demo_adapter \<noteq> []"
  "certificate_compute_digest demo_evp [7] (oa_digest_algorithm demo_adapter) EVP_MAX_MD_SIZE = Some (oa_digest_value demo_adapter)"
  by (simp_all add: demo_adapter_def certificate_compute_digest_def get_digest_EVP_def demo_evp_def EVP_MAX_MD_SIZE_def DIGEST_MD5_def DIGEST_SHA_1_def)

lemma demo_setup_ok:
  "\<And>m. ok_ctx_new demo_setup m" "ok_configure_identity demo_setup" "ok_use_srtp demo_setup" "ok_bio_new demo_setup" "ok_ssl_new demo_setup" "ok_ecdh demo_setup"
  "hs_certs (demo_handshake [7]) = [(0, [7])]" "hs_error (demo_handshake [7]) [True] = SSL_ERROR_NONE"
  by (simp_all add: demo_setup_def demo_handshake_def SSL_ERROR_NONE_def)

theorem ssl_adapter_safe_witness:
  "\<exists>lib' a'. oa_cleanup demo_lib demo_adapter = Some (lib', a') \<and> lib_empty lib' \<and> closed a'"
  using ssl_adapter_safe [OF demo_reach] by blast

theorem ssl_open_authenticated_witness:
  "\<exists>lib' a' events. oa_on_event demo_evp demo_setup (demo_handshake [7]) (demo_handshake [7]) (no_events\<lparr>se_open := True\<rparr>) 0 demo_lib demo_adapter =
       Some (lib', a', events) \<and> (\<not> oa_client_auth a' \<or> oa_verified a')"
proof -
  obtain lib' a' events where e: "oa_on_event demo_evp demo_setup (demo_handshake [7]) (demo_handshake [7]) (no_events\<lparr>se_open := True\<rparr>) 0 demo_lib demo_adapter =
      Some (lib', a', events)" "oa_state a' = SSL_CONNECTED" "opens events"
    using handshake_opens_ok [OF demo_reach demo_digest demo_setup_ok] by blast
  have s: "ssl_step demo_evp False demo_lib demo_adapter events lib' a'" by (rule step_event [OF e(1)]) (simp add: demo_digest(1))
  show ?thesis using ssl_open_authenticated [OF demo_reach s _ e(2)] e(1,3) demo_digest(1) by auto
qed

theorem ssl_handshake_opens_witness:
  "\<exists>lib' a' events. oa_on_event demo_evp demo_setup (demo_handshake [7]) (demo_handshake [7]) (no_events\<lparr>se_open := True\<rparr>) 0 demo_lib demo_adapter =
       Some (lib', a', events) \<and> oa_state a' = SSL_CONNECTED \<and> opens events"
  by (rule ssl_handshake_opens [OF demo_reach demo_digest demo_setup_ok])

section \<open>What the code does not do\<close>

text \<open>
  A digest that is configured after the handshake is not compared with anything: as long as no digest is
  known the callback accepts every certificate without recording it, and the later call succeeds, verifies
  nothing and signals nothing.
\<close>

lemma unknown_digest_accepts_all:
  "oa_digest_algorithm a = [] \<Longrightarrow> verify_callbacks evp certs a = (replicate (length certs) True, a)"
  by (induction evp certs a rule: verify_callbacks.induct) (simp_all add: SSL_verify_callback_def)

lemma late_digest_not_verified:
  assumes "oa_state a = SSL_CONNECTED" "oa_peer_certificate a = None" "get_digest_size evp alg = Some (length val)"
  shows "set_peer_certificate_digest evp alg val lib a =
    Some (True, DigestErrorNone, lib, a\<lparr>oa_digest_value := val, oa_digest_algorithm := alg\<rparr>, [])"
  using assms by (simp add: set_peer_certificate_digest_def)

text \<open>An open event of the underlying stream during the handshake is passed on as if the handshake were over.\<close>

lemma open_event_passed_on:
  assumes "oa_state a = SSL_CONNECTING"
  shows "oa_on_event evp su hs hs' (no_events\<lparr>se_open := True\<rparr>) err lib a = Some (lib, a, [Signalled (no_events\<lparr>se_open := True\<rparr>) 0])"
  using assms by (simp add: oa_on_event_def on_event_open_def on_event_io_def no_events_def)

text \<open>A handshake error found on a retransmission timeout neither closes the stream nor is it signalled as a close event.\<close>

lemma timeout_error_ignored:
  assumes "ssl_inv evp lib a" "oa_el a" "running lib" "dtls_handshake_timeout evp hs (stop_all_timers lib) a = Some (lib', a', log)"
  shows "\<not> closed a' \<and> (\<forall>e err. Signalled e err \<in> set log \<longrightarrow> \<not> se_close e)"
proof -
  note i = ssl_inv_running [OF assms(1,2)]
  have st: "oa_state a = SSL_CONNECTING" using assms(1,3) by (simp add: ssl_inv_def)
  then have h: "handshaking a" "\<not> closed a" by (auto simp: closed_def handshaking_def)
  have sc: "oa_ssl a \<noteq> None" "oa_ctx a \<noteq> None" using i(5) [OF h(1)] by blast+
  obtain e l b g where c: "continue_SSL evp hs (stop_all_timers lib) a = Some (e, l, b, g)" "stepped evp hs a e l b g"
    using continue_SSL_ok [OF stop_all_timers_owns(1) [OF i(1)] i(2) [OF h(2)] assms(2) sc i(3) [OF h(2)] st] by blast
  obtain s where s: "oa_ssl a = Some s" using sc(1) by blast
  obtain att where att: "lib_ssl (stop_all_timers lib) s = Some att" using stop_all_timers_owns(1) [OF i(1)] s by (auto simp: owns_def)
  have "dtls_handshake_timeout evp hs (stop_all_timers lib) a = Some (l, b, g)" using c(1) s att by (simp add: dtls_handshake_timeout_def)
  then have "b = a' \<and> g = log" using assms(4) by simp
  moreover have "oa_state b = SSL_CONNECTING \<or> oa_state b = SSL_CONNECTED" "\<forall>e err. Signalled e err \<in> set g \<longrightarrow> \<not> se_close e"
    using c(2) unfolding stepped_def by blast+
  ultimately show ?thesis unfolding closed_def by (metis ssl_state.distinct)
qed

end
