(* ===== verification/SslIdentity.thy ===== *)
theory SslIdentity
  imports OpenSSLStream StringEncode TimeUtils
begin

text \<open>
  Certificates and identities as far as they are the code of the library: the time format of certificates
  (\<open>ASN1_time_to_sec\<close> in \<open>src/ssl_identity.cpp\<close>), key parameters and validity periods (\<open>src/ssl_identity.{h,cpp}\<close>,
  \<open>src/openssl_identity.cpp\<close>, \<open>src/rtccertificate.cpp\<close>) and fingerprints (\<open>src/ssl_fingerprint.{h,cpp}\<close>).
\<close>

section \<open>Times in certificates\<close>

definition ascii_digit :: "byte \<Rightarrow> bool" where
  "ascii_digit c \<longleftrightarrow> 48 \<le> c \<and> c \<le> 57"

text \<open>
  The memory behind the pointer, the position, and the bytes left, which may wrap.  \<open>None\<close>: a read outside
  the memory.
\<close>

fun asn1_digits :: "byte list \<Rightarrow> nat \<Rightarrow> nat \<Rightarrow> int \<Rightarrow> int option" where
  "asn1_digits s pos 0 x = Some x"
| "asn1_digits s pos (Suc n) x = (if pos < length s then asn1_digits s (pos + 1) n (10 * x + uint (s ! pos) - 48) else None)"

definition ASN1_read_int :: "byte list \<Rightarrow> nat \<Rightarrow> u64 \<Rightarrow> nat \<Rightarrow> (int \<times> nat \<times> u64) option" where
  "ASN1_read_int s pos bytes_left n = do { x \<leftarrow> asn1_digits s pos n 0; Some (x, pos + n, bytes_left - of_nat n) }"

definition strspn_digits :: "byte list \<Rightarrow> nat" where
  "strspn_digits s = length (takeWhile ascii_digit s)"

definition ASN1_time_to_sec :: "byte list \<Rightarrow> nat \<Rightarrow> bool \<Rightarrow> int option" where
  "ASN1_time_to_sec s len long_format =
     (if len = 0 then Some (- 1)
      else if len > length s then None
      else if s ! (len - 1) \<noteq> 90 then Some (- 1)
      else if strspn_digits s + 1 \<noteq> len then Some (- 1)
      else if long_format \<and> len < 11 then Some (- 1)
      else if \<not> long_format \<and> len < 9 then Some (- 1)
      else do {
        (year, pos, left) \<leftarrow>
          (if long_format then do { (y, pos, left) \<leftarrow> ASN1_read_int s 0 (of_nat len) 4; Some (y - 1900, pos, left) }
           else do { (y, pos, left) \<leftarrow> ASN1_read_int s 0 (of_nat len) 2; Some (if y < 50 then y + 100 else y, pos, left) });
        (mon, pos, left) \<leftarrow> ASN1_read_int s pos left 2;
        (mday, pos, left) \<leftarrow> ASN1_read_int s pos left 2;
        (hour, pos, left) \<leftarrow> ASN1_read_int s pos left 2;
        (minute, pos, left) \<leftarrow> ASN1_read_int s pos left 2;
        (sec, pos, left) \<leftarrow> ASN1_read_int s pos left 2;
        if left \<noteq> 1 then Some (- 1)
        else Some (tm_to_seconds \<lparr>tm_year = year, tm_mon = mon - 1, tm_mday = mday, tm_hour = hour, tm_min = minute, tm_sec = sec\<rparr>) })"

datatype asn1_time_type = V_ASN1_UTCTIME | V_ASN1_GENERALIZEDTIME | V_ASN1_OTHER

definition certificate_expiration_time :: "asn1_time_type \<Rightarrow> byte list \<Rightarrow> nat \<Rightarrow> int option" where
  "certificate_expiration_time type data len =
     (case type of
        V_ASN1_UTCTIME \<Rightarrow> ASN1_time_to_sec data len False
      | V_ASN1_GENERALIZEDTIME \<Rightarrow> ASN1_time_to_sec data len True
      | V_ASN1_OTHER \<Rightarrow> Some (- 1))"

text \<open>\<open>RTCCertificate::expires\<close> and \<open>has_expired\<close> of an expiration time.\<close>

definition expires :: "int \<Rightarrow> u64" where
  "expires expiration = (if expiration \<noteq> - 1 then of_int expiration * 1000 else 0)"

definition has_expired :: "int \<Rightarrow> u64 \<Rightarrow> bool" where
  "has_expired expiration now \<longleftrightarrow> expires expiration \<le> now"

section \<open>Key parameters and validity\<close>

datatype key_type = KT_RSA | KT_ECDSA | KT_LAST
datatype ec_curve = EC_NIST_P256 | EC_LAST

definition k_rsa_default_mod_size :: u32 where "k_rsa_default_mod_size = 1024"
definition k_rsa_default_exponent :: u32 where "k_rsa_default_exponent = 0x10001"
definition k_rsa_min_mod_size :: u32 where "k_rsa_min_mod_size = 1024"
definition k_rsa_max_mod_size :: u32 where "k_rsa_max_mod_size = 8192"
definition k_default_certificate_lifetime_in_seconds :: int where "k_default_certificate_lifetime_in_seconds = 60 * 60 * 24 * 30"
definition k_certificate_window_in_seconds :: int where "k_certificate_window_in_seconds = - 60 * 60 * 24"
definition k_year_in_seconds :: u64 where "k_year_in_seconds = 365 * 24 * 60 * 60"

text \<open>The union of the parameters by its member; \<open>KeyParams(KT_LAST)\<close> leaves everything uninitialised.\<close>

datatype key_params = RSA_params (mod_size: u32) (pub_exp: u32) | EC_params ec_curve | Uninitialised_params

definition key_params_new :: "key_type \<Rightarrow> key_params" where
  "key_params_new type =
     (case type of
        KT_ECDSA \<Rightarrow> EC_params EC_NIST_P256
      | KT_RSA \<Rightarrow> RSA_params k_rsa_default_mod_size k_rsa_default_exponent
      | KT_LAST \<Rightarrow> Uninitialised_params)"

definition key_params_is_valid :: "key_params \<Rightarrow> bool option" where
  "key_params_is_valid p =
     (case p of
        RSA_params m e \<Rightarrow> Some (m \<ge> k_rsa_min_mod_size \<and> m \<le> k_rsa_max_mod_size \<and> e > m)
      | EC_params c \<Rightarrow> Some (c = EC_NIST_P256)
      | Uninitialised_params \<Rightarrow> None)"

section \<open>Fingerprints\<close>

record ssl_fingerprint =
  fp_algorithm :: string
  fp_digest :: "byte list"

definition k_max_size :: nat where "k_max_size = 64"

definition fingerprint_of_certificate :: "'c evp \<Rightarrow> string \<Rightarrow> 'c \<Rightarrow> ssl_fingerprint option" where
  "fingerprint_of_certificate evp algorithm cert =
     (case certificate_compute_digest evp cert algorithm 64 of
        None \<Rightarrow> None
      | Some digest_val \<Rightarrow> Some \<lparr>fp_algorithm = algorithm, fp_digest = digest_val\<rparr>)"

definition fingerprint_of_identity :: "'c evp \<Rightarrow> string \<Rightarrow> 'c option \<Rightarrow> ssl_fingerprint option" where
  "fingerprint_of_identity evp algorithm identity =
     (case identity of None \<Rightarrow> None | Some cert \<Rightarrow> fingerprint_of_certificate evp algorithm cert)"

text \<open>\<open>raw\<close> is the uninitialised array of 64 characters; \<open>None\<close> is a write outside it, \<open>Some None\<close> a null result.\<close>

definition create_from_rfc4572 :: "byte list \<Rightarrow> string \<Rightarrow> byte list \<Rightarrow> ssl_fingerprint option option" where
  "create_from_rfc4572 raw algorithm fingerprint =
     (if algorithm = [] \<or> \<not> is_fips180_digest_algorithm algorithm then Some None
      else if fingerprint = [] then Some None
      else do {
        (value_len, value) \<leftarrow> hex_decode_with_delimiter (Some raw) k_max_size fingerprint 58;
        if value_len = 0 then Some None
        else do {
          value \<leftarrow> value;
          digest \<leftarrow> mem_read value 0 value_len;
          Some (Some \<lparr>fp_algorithm = algorithm, fp_digest = digest\<rparr>) } })"

definition fingerprint_copy :: "ssl_fingerprint \<Rightarrow> ssl_fingerprint" where
  "fingerprint_copy from = \<lparr>fp_algorithm = fp_algorithm from, fp_digest = fp_digest from\<rparr>"

definition fingerprint_eq :: "ssl_fingerprint \<Rightarrow> ssl_fingerprint \<Rightarrow> bool" where
  "fingerprint_eq a b \<longleftrightarrow> fp_algorithm a = fp_algorithm b \<and> length (fp_digest a) = length (fp_digest b) \<and>
     take (length (fp_digest a)) (fp_digest a) = take (length (fp_digest a)) (fp_digest b)"

definition ascii_toupper :: "byte \<Rightarrow> byte" where
  "ascii_toupper c = (if 97 \<le> c \<and> c \<le> 122 then c - 32 else c)"

definition get_rfc4572_fingerprint :: "ssl_fingerprint \<Rightarrow> byte list option" where
  "get_rfc4572_fingerprint fp = map_option (map ascii_toupper) (hex_encode_with_delimiter_string (fp_digest fp) 58)"

definition fingerprint_to_string :: "ssl_fingerprint \<Rightarrow> byte list option" where
  "fingerprint_to_string fp = do {
     t \<leftarrow> get_rfc4572_fingerprint fp;
     Some (map of_char (fp_algorithm fp) @ map of_char '' '' @ t) }"

section \<open>Reading times\<close>

definition digits_value :: "byte list \<Rightarrow> int" where
  "digits_value ds = foldl (\<lambda>x c. 10 * x + uint c - 48) 0 ds"

lemma asn1_digits_ok: "pos + n \<le> length s \<Longrightarrow> asn1_digits s pos n x = Some (foldl (\<lambda>x c. 10 * x + uint c - 48) x (take n (drop pos s)))"
proof (induction n arbitrary: pos x)
  case (Suc n)
  then have "drop pos s = s ! pos # drop (Suc pos) s" by (simp add: Cons_nth_drop_Suc)
  then show ?case using Suc by simp
qed simp

lemma ASN1_read_int_ok:
  "pos + n \<le> length s \<Longrightarrow> ASN1_read_int s pos left n = Some (digits_value (take n (drop pos s)), pos + n, left - of_nat n)"
  by (simp add: ASN1_read_int_def asn1_digits_ok digits_value_def)

lemma strspn_digits_iff:
  assumes "0 < len" "len \<le> length s" "\<not> ascii_digit (s ! (len - 1))"
  shows "strspn_digits s + 1 = len \<longleftrightarrow> list_all ascii_digit (take (len - 1) s)"
proof
  assume "strspn_digits s + 1 = len"
  then have "len - 1 = length (takeWhile ascii_digit s)" by (simp add: strspn_digits_def)
  then have "take (len - 1) s = takeWhile ascii_digit s" using takeWhile_eq_take [of ascii_digit s] by argo
  then show "list_all ascii_digit (take (len - 1) s)" by (metis list_all_iff set_takeWhileD)
next
  assume "list_all ascii_digit (take (len - 1) s)"
  then have all: "ascii_digit c" if "c \<in> set (take (len - 1) s)" for c using that by (simp add: list_all_iff)
  have "s = take (len - 1) s @ s ! (len - 1) # drop (Suc (len - 1)) s" using assms by (intro id_take_nth_drop) simp
  then have "takeWhile ascii_digit s = takeWhile ascii_digit (take (len - 1) s @ s ! (len - 1) # drop (Suc (len - 1)) s)" by (rule arg_cong)
  also have "\<dots> = take (len - 1) s @ takeWhile ascii_digit (s ! (len - 1) # drop (Suc (len - 1)) s)" using all by (rule takeWhile_append2)
  finally have "takeWhile ascii_digit s = take (len - 1) s" using assms(3) by simp
  then show "strspn_digits s + 1 = len" using assms by (simp add: strspn_digits_def)
qed

text \<open>The fields of a text, and the only texts RFC 5280 allows.\<close>

definition asn1_fields :: "byte list \<Rightarrow> bool \<Rightarrow> tm" where
  "asn1_fields s long_format =
     (let k = (if long_format then 4 else 2);
          y = digits_value (take k s);
          f = (\<lambda>i. digits_value (take 2 (drop (k + 2 * i) s)))
      in \<lparr>tm_year = (if long_format then y - 1900 else if y < 50 then y + 100 else y),
          tm_mon = f 0 - 1, tm_mday = f 1, tm_hour = f 2, tm_min = f 3, tm_sec = f 4\<rparr>)"

definition asn1_well_formed :: "byte list \<Rightarrow> nat \<Rightarrow> bool \<Rightarrow> bool" where
  "asn1_well_formed s len long_format \<longleftrightarrow> len = (if long_format then 15 else 13) \<and> s ! (len - 1) = 90 \<and> list_all ascii_digit (take (len - 1) s)"

lemma of_nat_eq_iff_u64: "a < 2 ^ 64 \<Longrightarrow> b < 2 ^ 64 \<Longrightarrow> (of_nat a :: u64) = of_nat b \<longleftrightarrow> a = b"
  by (simp add: word_of_nat_eq_iff take_bit_nat_eq_self)

lemma ASN1_time_to_sec_ok:
  assumes "len \<le> length s" and "(if long_format then 14 else 12) \<le> length s" and "len < 2 ^ 64"
  shows "ASN1_time_to_sec s len long_format = Some (if asn1_well_formed s len long_format then tm_to_seconds (asn1_fields s long_format) else - 1)"
proof -
  let ?k = "if long_format then 4 else 2 :: nat"
  have z: "\<not> ascii_digit (90 :: byte)" by (simp add: ascii_digit_def)
  show ?thesis
  proof (cases "0 < len \<and> s ! (len - 1) = 90 \<and> list_all ascii_digit (take (len - 1) s)")
    case False
    then have "\<not> asn1_well_formed s len long_format" by (auto simp: asn1_well_formed_def)
    moreover have "ASN1_time_to_sec s len long_format = Some (- 1)"
      using False assms(1) strspn_digits_iff [of len s] z by (auto simp: ASN1_time_to_sec_def)
    ultimately show ?thesis by simp
  next
    case True
    then have sp: "strspn_digits s + 1 = len" using strspn_digits_iff [of len s] assms(1) z by simp
    have wf: "asn1_well_formed s len long_format \<longleftrightarrow> len = ?k + 11" using True by (auto simp: asn1_well_formed_def)
    have left: "(of_nat len - of_nat ?k - 2 - 2 - 2 - 2 - 2 :: u64) = 1 \<longleftrightarrow> len = ?k + 11"
    proof -
      have "(of_nat len - of_nat ?k - 2 - 2 - 2 - 2 - 2 :: u64) = 1 \<longleftrightarrow> (of_nat len :: u64) = of_nat (?k + 11)" by (auto simp: algebra_simps)
      also have "\<dots> \<longleftrightarrow> len = ?k + 11" using assms(3) by (intro of_nat_eq_iff_u64) simp_all
      finally show ?thesis .
    qed
    have rd: "ASN1_read_int s p l n = Some (digits_value (take n (drop p s)), p + n, l - of_nat n)" if "p + n \<le> ?k + 10" for p l n
      using that assms(2) by (intro ASN1_read_int_ok) (simp split: if_splits)
    show ?thesis
    proof (cases "len < ?k + 7")
      case True
      then have "ASN1_time_to_sec s len long_format = Some (- 1)"
        using \<open>0 < len \<and> _\<close> sp assms(1) by (auto simp: ASN1_time_to_sec_def split: if_splits)
      then show ?thesis using wf True by simp
    next
      case False
      have "ASN1_time_to_sec s len long_format =
          (if len \<noteq> ?k + 11 then Some (- 1) else Some (tm_to_seconds (asn1_fields s long_format)))"
        using \<open>0 < len \<and> _\<close> sp assms(1) False left rd
        by (cases long_format) (simp_all add: ASN1_time_to_sec_def asn1_fields_def Let_def numeral_eq_Suc)
      then show ?thesis using wf by simp
    qed
  qed
qed

text \<open>The text of a time.\<close>

definition two_digits :: "int \<Rightarrow> byte list" where
  "two_digits n = [48 + of_int (n div 10), 48 + of_int (n mod 10)]"

definition asn1_print :: "bool \<Rightarrow> tm \<Rightarrow> byte list" where
  "asn1_print long_format t =
     (if long_format then two_digits ((tm_year t + 1900) div 100) @ two_digits ((tm_year t + 1900) mod 100)
      else two_digits (tm_year t mod 100)) @
     two_digits (tm_mon t + 1) @ two_digits (tm_mday t) @ two_digits (tm_hour t) @ two_digits (tm_min t) @ two_digits (tm_sec t) @ [90]"

lemma uint_digit: "0 \<le> k \<Longrightarrow> k < 10 \<Longrightarrow> uint (48 + of_int k :: byte) = 48 + k"
  by (simp add: uint_word_arith_bintrs(1) unsigned_of_int take_bit_int_eq_self)

lemma two_digits_ok:
  assumes "0 \<le> n" "n < 100"
  shows "list_all ascii_digit (two_digits n)" "length (two_digits n) = 2"
    "foldl (\<lambda>x c. 10 * x + uint c - 48) x (two_digits n) = 100 * x + n"
proof -
  have d: "0 \<le> n div 10" "n div 10 < 10" "0 \<le> n mod 10" "n mod 10 < 10" using assms by simp_all
  show "list_all ascii_digit (two_digits n)"
    using d by (simp add: two_digits_def ascii_digit_def word_le_def uint_digit)
  show "length (two_digits n) = 2" by (simp add: two_digits_def)
  show "foldl (\<lambda>x c. 10 * x + uint c - 48) x (two_digits n) = 100 * x + n"
    using d by (simp add: two_digits_def uint_digit)
qed

lemma digits_value_two: "0 \<le> n \<Longrightarrow> n < 100 \<Longrightarrow> digits_value (two_digits n) = n"
  by (simp add: digits_value_def two_digits_ok)

lemma digits_value_four: "0 \<le> n \<Longrightarrow> n < 10000 \<Longrightarrow> digits_value (two_digits (n div 100) @ two_digits (n mod 100)) = n"
  by (simp add: digits_value_def two_digits_ok)

lemma length_two_digits [simp]: "length (two_digits n) = 2" by (simp add: two_digits_def)

lemma days_in_month_le: "m \<le> 11 \<Longrightarrow> days_in_month y m \<le> 31"
  by (cases m; (simp add: days_in_month_def mdays_def)?) (auto simp: days_in_month_def mdays_def numeral_eq_Suc le_Suc_eq)

lemma tm_valid_fields:
  assumes "tm_valid t"
  shows "0 \<le> tm_mon t + 1" "tm_mon t + 1 < 100" "0 \<le> tm_mday t" "tm_mday t < 100" "0 \<le> tm_hour t" "tm_hour t < 100"
    "0 \<le> tm_min t" "tm_min t < 100" "0 \<le> tm_sec t" "tm_sec t < 100"
proof -
  have "days_in_month (tm_year t + 1900) (nat (tm_mon t)) \<le> 31" using assms by (intro days_in_month_le) (simp add: tm_valid_def nat_le_iff)
  then show "0 \<le> tm_mon t + 1" "tm_mon t + 1 < 100" "0 \<le> tm_mday t" "tm_mday t < 100" "0 \<le> tm_hour t" "tm_hour t < 100"
    "0 \<le> tm_min t" "tm_min t < 100" "0 \<le> tm_sec t" "tm_sec t < 100"
    using assms by (simp_all add: tm_valid_def)
qed

text \<open>The seconds since 1970, by the lengths of the years and months before.\<close>

definition civil_seconds :: "tm \<Rightarrow> int" where
  "civil_seconds t = ((days_since_epoch (tm_year t + 1900) (nat (tm_mon t)) (tm_mday t - 1) * 24 + tm_hour t) * 60 + tm_min t) * 60 + tm_sec t"

definition printable :: "bool \<Rightarrow> tm \<Rightarrow> bool" where
  "printable long_format t \<longleftrightarrow> tm_valid t \<and> tm_year t \<le> (if long_format then 9999 - 1900 else 149)"

lemma asn1_print_well_formed:
  assumes "printable long_format t"
  shows "asn1_well_formed (asn1_print long_format t) (length (asn1_print long_format t)) long_format"
    "length (asn1_print long_format t) = (if long_format then 15 else 13)"
proof -
  have y: "70 \<le> tm_year t" "tm_year t \<le> (if long_format then 8099 else 149)" using assms by (auto simp: printable_def tm_valid_def split: if_splits)
  note f = tm_valid_fields [of t] assms [unfolded printable_def]
  show l: "length (asn1_print long_format t) = (if long_format then 15 else 13)" by (simp add: asn1_print_def)
  have "0 \<le> (tm_year t + 1900) div 100" "(tm_year t + 1900) div 100 < 100" if long_format using y that by auto
  then have "list_all ascii_digit (butlast (asn1_print long_format t))"
    using f by (auto simp: asn1_print_def butlast_append two_digits_ok)
  moreover have "butlast (asn1_print long_format t) = take (length (asn1_print long_format t) - 1) (asn1_print long_format t)"
    by (simp add: butlast_conv_take)
  moreover have "asn1_print long_format t ! (length (asn1_print long_format t) - 1) = 90"
    by (simp add: asn1_print_def nth_append)
  ultimately show "asn1_well_formed (asn1_print long_format t) (length (asn1_print long_format t)) long_format"
    using l by (simp add: asn1_well_formed_def)
qed

lemma asn1_fields_print:
  assumes "printable long_format t"
  shows "asn1_fields (asn1_print long_format t) long_format = t"
proof -
  have y: "70 \<le> tm_year t" "tm_year t \<le> (if long_format then 8099 else 149)" using assms by (auto simp: printable_def tm_valid_def split: if_splits)
  note f = tm_valid_fields [of t] assms [unfolded printable_def]
  have e: "(tm_year t mod 100 < 50 \<longrightarrow> tm_year t mod 100 + 100 = tm_year t) \<and> (\<not> tm_year t mod 100 < 50 \<longrightarrow> tm_year t mod 100 = tm_year t)" if "\<not> long_format"
    using y that by presburger
  show ?thesis
  proof (cases long_format)
    case True
    then show ?thesis using f y digits_value_four [of "tm_year t + 1900"]
      by (simp add: asn1_fields_def asn1_print_def Let_def digits_value_two)
  next
    case False
    then show ?thesis using f y e
      by (simp add: asn1_fields_def asn1_print_def Let_def digits_value_two)
  qed
qed

section \<open>Texts of fingerprints\<close>

lemma hex_decode_char_toupper [simp]: "hex_decode_char (ascii_toupper c) = hex_decode_char c"
proof (cases "97 \<le> c \<and> c \<le> 122")
  case True
  then have u: "97 \<le> unat c" "unat c \<le> 122" by (simp_all add: word_le_nat_alt)
  then have s: "unat (c - 32) = unat c - 32" by (subst unat_sub) (simp_all add: word_le_nat_alt)
  have "c - 32 - 65 = c - 97" by simp
  moreover have "\<not> 97 \<le> unat c - 32" "65 \<le> unat c - 32" "unat c - 32 \<le> 90" "\<not> unat c - 32 \<le> 57" using u by linarith+
  ultimately show ?thesis using True u s by (simp add: ascii_toupper_def hex_decode_char_def word_le_nat_alt)
qed (auto simp: ascii_toupper_def)

lemma toupper_colon [simp]: "ascii_toupper c = 58 \<longleftrightarrow> c = 58"
proof (cases "97 \<le> c \<and> c \<le> 122")
  case True
  then have u: "97 \<le> unat c" "unat c \<le> 122" by (simp_all add: word_le_nat_alt)
  have "c - 32 \<noteq> 58"
  proof
    assume "c - 32 = 58"
    then have "c = 90" by (simp add: diff_eq_eq)
    then show False using u by simp
  qed
  then show ?thesis using True by (auto simp: ascii_toupper_def)
qed (auto simp: ascii_toupper_def)

lemma hex_decode_loop_toupper: "d = 58 \<Longrightarrow> hex_decode_loop d (map ascii_toupper s) buf pos = hex_decode_loop d s buf pos"
proof (induction d s buf pos rule: hex_decode_loop.induct)
  case (3 d c1 c2 rest buf pos)
  have "hd (map ascii_toupper rest) = 58 \<longleftrightarrow> hd rest = 58" "map ascii_toupper (tl rest) = tl (map ascii_toupper rest)" if "1 < length rest"
    using that by (cases rest; simp)+
  then show ?case using 3
    by (auto intro!: Option.bind_cong [OF refl] simp flip: map_tl split: option.splits)
qed simp_all

lemma get_rfc4572_fingerprint_ok:
  assumes "fp_digest fp \<noteq> []"
  shows "get_rfc4572_fingerprint fp = Some (map ascii_toupper (hex_text 58 (fp_digest fp)))"
proof -
  let ?d = "fp_digest fp"
  have n: "0 < length ?d" "\<not> 3 * length ?d \<le> Suc 0" using assms by (cases ?d; simp)+
  have "hex_encode_with_delimiter (Some (replicate (length ?d * 3) 0)) (length ?d * 3) ?d 58 =
      Some (length (hex_text 58 ?d), Some (hex_text 58 ?d @ [0] @ drop (length (hex_text 58 ?d) + 1) (replicate (length ?d * 3) 0)))"
    using n by (intro hex_encode_with_delimiter_spec) simp_all
  then show ?thesis using n
    by (simp add: get_rfc4572_fingerprint_def hex_encode_with_delimiter_string_def length_hex_text mem_read_def)
qed

lemma create_from_rfc4572_ok:
  assumes "is_fips180_digest_algorithm alg" and "length raw = 64" and "0 < length digest" and "length digest \<le> 64"
  shows "create_from_rfc4572 raw alg (map ascii_toupper (hex_text 58 digest)) = Some (Some \<lparr>fp_algorithm = alg, fp_digest = digest\<rparr>)"
proof -
  let ?t = "map ascii_toupper (hex_text 58 digest)"
  have alg: "alg \<noteq> []" using assms(1) by (auto simp: is_fips180_digest_algorithm_def DIGEST_SHA_1_def DIGEST_SHA_224_def DIGEST_SHA_256_def DIGEST_SHA_384_def DIGEST_SHA_512_def)
  have ne: "?t \<noteq> []" using assms(3) by (cases digest) simp_all
  have "(length ?t + 1) div 3 = length digest" using assms(3) by (simp add: length_hex_text)
  then have "hex_decode_with_delimiter (Some raw) k_max_size ?t 58 = Some (length digest, Some (digest @ drop (length digest) raw))"
    using assms hex_decode_loop_text [of "[]" 0 digest raw 58]
    by (simp add: hex_decode_with_delimiter_def k_max_size_def hex_decode_loop_toupper Let_def)
  then show ?thesis using alg ne assms by (simp add: create_from_rfc4572_def mem_read_def)
qed

section \<open>Properties\<close>

text \<open>
  What the code relies on of OpenSSL's digests: \<open>X509_digest\<close> gives as many bytes as \<open>EVP_MD_size\<close> says,
  more than none and not more than \<open>EVP_MAX_MD_SIZE\<close>.
\<close>

definition evp_sizes :: "'c evp \<Rightarrow> bool" where
  "evp_sizes evp \<longleftrightarrow> (\<forall>md. 0 < EVP_MD_size evp md \<and> EVP_MD_size evp md \<le> 64 \<and> (\<forall>c. length (X509_digest evp md c) = EVP_MD_size evp md))"

lemma fips180_EVP: "is_fips180_digest_algorithm alg \<Longrightarrow> alg \<noteq> [] \<and> (\<exists>md. get_digest_EVP alg = Some md)"
  by (auto simp: is_fips180_digest_algorithm_def DIGEST_SHA_1_def DIGEST_SHA_224_def DIGEST_SHA_256_def DIGEST_SHA_384_def
      DIGEST_SHA_512_def get_digest_EVP_def DIGEST_MD5_def)

text \<open>
  C26. Exchange of fingerprints: for each of the algorithms an offer may name, the fingerprint of a certificate can be made and
  printed, the peer that parses the text gets the same fingerprint, an adapter without a peer certificate accepts its digest,
  and then the verification of a peer succeeds exactly for certificates with the digest of the fingerprint.
\<close>

theorem fingerprint_exchange:
  assumes evp: "evp_sizes evp" and alg: "is_fips180_digest_algorithm alg" and raw: "length raw = 64"
    and a: "oa_peer_certificate a = None" "\<not> oa_verified a"
  shows "\<exists>md fp t a'. get_digest_EVP alg = Some md \<and> fingerprint_of_certificate evp alg cert = Some fp \<and>
    get_rfc4572_fingerprint fp = Some t \<and> create_from_rfc4572 raw alg t = Some (Some fp) \<and>
    set_peer_certificate_digest evp alg (fp_digest fp) lib a = Some (True, DigestErrorNone, lib, a', []) \<and>
    (\<forall>cert'. fst (SSL_verify_callback evp 0 cert' a') \<longleftrightarrow> X509_digest evp md cert' = X509_digest evp md cert)"
proof -
  obtain md where md: "get_digest_EVP alg = Some md" "alg \<noteq> []" using fips180_EVP [OF alg] by blast
  define d where "d = X509_digest evp md cert"
  have sz: "0 < EVP_MD_size evp md" "EVP_MD_size evp md \<le> 64" "length d = EVP_MD_size evp md"
    using evp by (auto simp: evp_sizes_def d_def)
  then have ne: "d \<noteq> []" by auto
  define fp where "fp = \<lparr>fp_algorithm = alg, fp_digest = d\<rparr>"
  define a' where "a' = a\<lparr>oa_digest_value := d, oa_digest_algorithm := alg\<rparr>"
  have mk: "fingerprint_of_certificate evp alg cert = Some fp"
    using md sz by (simp add: fingerprint_of_certificate_def certificate_compute_digest_def fp_def d_def)
  have pr: "get_rfc4572_fingerprint fp = Some (map ascii_toupper (hex_text 58 d))"
    using get_rfc4572_fingerprint_ok [of fp] ne by (simp add: fp_def)
  have ps: "create_from_rfc4572 raw alg (map ascii_toupper (hex_text 58 d)) = Some (Some fp)"
    using create_from_rfc4572_ok [OF alg raw, of d] sz ne by (simp add: fp_def)
  have st: "set_peer_certificate_digest evp alg (fp_digest fp) lib a = Some (True, DigestErrorNone, lib, a', [])"
    using md sz a by (simp add: set_peer_certificate_digest_def get_digest_size_def fp_def a'_def)
  have "fst (SSL_verify_callback evp 0 cert' a') \<longleftrightarrow> X509_digest evp md cert' = d" for cert'
    using md sz a ne by (simp add: SSL_verify_callback_def verify_peer_certificate_def has_peer_certificate_digest_def
        certificate_compute_digest_def a'_def EVP_MAX_MD_SIZE_def)
  then have vf: "\<forall>cert'. fst (SSL_verify_callback evp 0 cert' a') \<longleftrightarrow> X509_digest evp md cert' = X509_digest evp md cert"
    by (simp add: d_def)
  show ?thesis by (intro exI conjI) (rule md(1) mk pr ps st vf)+
qed

text \<open>
  C27. Times in certificates.  The text, of \<open>len\<close> bytes, lies in memory of at least 14 (12) bytes, as many as are read before its length is known to be right.
  If it is exactly \<open>yyyymmddhhmmssZ\<close> (or \<open>yymmddhhmmssZ\<close>) and its fields are a date and time from 1970 on, the result is the seconds since 1970 by the
  lengths of years and months; otherwise it is \<open>-1\<close>, also for the times of 1950 to 1969 of the short format.  The text of a time from 1970 on that a format can express
  gives the time back.
\<close>

theorem ASN1_time_correct:
  assumes "len \<le> length s" and "(if long_format then 14 else 12) \<le> length s" and "len < 2 ^ 64" and "printable long_format t"
  shows "ASN1_time_to_sec s len long_format =
      Some (if asn1_well_formed s len long_format \<and> tm_valid (asn1_fields s long_format) then civil_seconds (asn1_fields s long_format) else - 1) \<and>
    ASN1_time_to_sec (asn1_print long_format t) (length (asn1_print long_format t)) long_format = Some (civil_seconds t)"
proof
  show "ASN1_time_to_sec s len long_format =
      Some (if asn1_well_formed s len long_format \<and> tm_valid (asn1_fields s long_format) then civil_seconds (asn1_fields s long_format) else - 1)"
    using ASN1_time_to_sec_ok [OF assms(1-3)] tm_to_seconds_valid tm_to_seconds_invalid by (auto simp: civil_seconds_def)
  have v: "tm_valid t" using assms(4) by (simp add: printable_def)
  have "ASN1_time_to_sec (asn1_print long_format t) (length (asn1_print long_format t)) long_format = Some (tm_to_seconds t)"
    using ASN1_time_to_sec_ok [of "length (asn1_print long_format t)" "asn1_print long_format t" long_format]
      asn1_print_well_formed [OF assms(4)] asn1_fields_print [OF assms(4)] by (simp split: if_splits)
  then show "ASN1_time_to_sec (asn1_print long_format t) (length (asn1_print long_format t)) long_format = Some (civil_seconds t)"
    using tm_to_seconds_valid [OF v] by (simp add: civil_seconds_def)
qed

text \<open>Digests of fixed sizes that keep the first byte of a certificate, to show that the hypotheses can hold.\<close>

definition sample_evp :: "byte evp" where
  "sample_evp = \<lparr>EVP_MD_size = (\<lambda>md. case md of EVP_sha1 \<Rightarrow> 20 | _ \<Rightarrow> 64),
     X509_digest = (\<lambda>md c. replicate (case md of EVP_sha1 \<Rightarrow> 20 | _ \<Rightarrow> 64) c)\<rparr>"

lemma sample_evp_sizes: "evp_sizes sample_evp"
  by (simp add: evp_sizes_def sample_evp_def split: evp_md.split)

theorem fingerprint_exchange_witness:
  "\<exists>fp t. fingerprint_of_certificate sample_evp DIGEST_SHA_1 7 = Some fp \<and> get_rfc4572_fingerprint fp = Some t \<and>
     create_from_rfc4572 (replicate 64 0) DIGEST_SHA_1 t = Some (Some fp)"
  using fingerprint_exchange [OF sample_evp_sizes, of DIGEST_SHA_1 "replicate 64 0" "snd (ssl_adapter_new 0 True undefined)" 7 undefined]
  by (auto simp: is_fips180_digest_algorithm_def ssl_adapter_new_def Let_def)

theorem ASN1_time_correct_witness:
  "ASN1_time_to_sec (map of_char ''20380119031407Z'') 15 True = Some 2147483647 \<and>
   ASN1_time_to_sec (map of_char ''650101000000Z'') 13 False = Some (- 1) \<and>
   ASN1_time_to_sec (asn1_print False \<lparr>tm_year = 70, tm_mon = 0, tm_mday = 1, tm_hour = 0, tm_min = 0, tm_sec = 9\<rparr>)
     (length (asn1_print False \<lparr>tm_year = 70, tm_mon = 0, tm_mday = 1, tm_hour = 0, tm_min = 0, tm_sec = 9\<rparr>)) False = Some 9"
proof -
  let ?t = "\<lparr>tm_year = 70, tm_mon = 0, tm_mday = 1, tm_hour = 0, tm_min = 0, tm_sec = 9\<rparr>"
  have p: "printable l ?t" for l by (simp add: printable_def tm_valid_def days_in_month_def mdays_def)
  have s: "asn1_well_formed (map of_char ''20380119031407Z'') 15 True" "tm_valid (asn1_fields (map of_char ''20380119031407Z'') True)"
    "civil_seconds (asn1_fields (map of_char ''20380119031407Z'') True) = 2147483647"
    "\<not> tm_valid (asn1_fields (map of_char ''650101000000Z'') False)"
    by (code_simp, code_simp, code_simp, code_simp)
  have "ASN1_time_to_sec (map of_char ''20380119031407Z'') 15 True = Some 2147483647"
    using ASN1_time_correct [of 15 "map of_char ''20380119031407Z''" True, OF _ _ _ p] s by simp
  moreover have "ASN1_time_to_sec (map of_char ''650101000000Z'') 13 False = Some (- 1)"
    using ASN1_time_correct [of 13 "map of_char ''650101000000Z''" False, OF _ _ _ p] s(4) by simp
  moreover have "ASN1_time_to_sec (asn1_print False ?t) (length (asn1_print False ?t)) False = Some 9"
    using ASN1_time_correct [of 0 "replicate 12 0" False ?t] p by (simp add: civil_seconds_def days_since_epoch_def)
  ultimately show ?thesis by simp
qed

section \<open>What the code does not do\<close>

text \<open>
  The minimal lengths that are checked (11 and 9) are those of the format without minutes or seconds, but all of the
  fields are read: a text of 11 bytes alone in its memory is read beyond its end.
\<close>

lemma ASN1_time_over_read:
  "ASN1_time_to_sec (map of_char ''2038011903Z'') 11 True = None" "ASN1_time_to_sec (map of_char ''38011903Z'') 9 False = None"
  by (code_simp, code_simp)

end
