(* ===== verification/RandomNumbers.thy ===== *)
theory RandomNumbers
  imports Float32
begin

text \<open>
  Random numbers and strings (\<open>src/random.{h,cpp}\<close>): the xorshift generator \<open>Random\<close> with its integer and floating
  point variates, and the strings, identifiers and UUIDs made from the bytes of a secure generator, which is
  a parameter.  The gaussian and exponential variates need transcendental functions and are not modelled.
\<close>

section \<open>The generator\<close>

record random_gen =
  rg_state :: u64

definition random_new :: "u64 \<Rightarrow> random_gen" where
  "random_new seed = \<lparr>rg_state = seed\<rparr>"

definition next_output :: "random_gen \<Rightarrow> u64 \<times> random_gen" where
  "next_output g =
     (let s = rg_state g;
          s = s XOR drop_bit 12 s;
          s = s XOR push_bit 25 s;
          s = s XOR drop_bit 27 s
      in (s * 2685821657736338717, g\<lparr>rg_state := s\<rparr>))"

text \<open>\<open>rand<T>()\<close> for an unsigned type; the signed value is \<open>sint\<close> of the same word.\<close>

definition rand_int :: "random_gen \<Rightarrow> 'a::len word \<times> random_gen" where
  "rand_int g = (let (x, g) = next_output g in (ucast x, g))"

definition rand_upto :: "u32 \<Rightarrow> random_gen \<Rightarrow> u32 \<times> random_gen" where
  "rand_upto t g =
     (let (out, g) = next_output g;
          x = ucast out :: u32;
          result = ucast x * (ucast t + 1) :: u64;
          result = drop_bit 32 result
      in (ucast result, g))"

definition rand_unsigned :: "u32 \<Rightarrow> u32 \<Rightarrow> random_gen \<Rightarrow> u32 \<times> random_gen" where
  "rand_unsigned low high g = (let (x, g) = rand_upto (high - low) g in (x + low, g))"

text \<open>The arguments are values of \<open>int32_t\<close>; the sum is a value of \<open>int64_t\<close> that is converted to \<open>int32_t\<close>.\<close>

definition rand_signed :: "int \<Rightarrow> int \<Rightarrow> random_gen \<Rightarrow> int \<times> random_gen" where
  "rand_signed low high g =
     (let (x, g) = rand_upto (of_int (high - low)) g in (sint (of_int (uint x + low) :: u32), g))"

definition rand_bool :: "random_gen \<Rightarrow> bool \<times> random_gen" where
  "rand_bool g = (let (x, g) = rand_signed 0 1 g in (x = 1, g))"

text \<open>
  Floating point: a number of 53 or 24 bits and an exponent (the ranges of the exponents are not reached).
  \<open>0xFFFFFFFFFFFFFFFE\<close> is converted to \<open>double\<close> before the division.
\<close>

definition f_round :: "nat \<Rightarrow> nat \<Rightarrow> int \<Rightarrow> f32" where
  "f_round p m e =
     (if nbits m \<le> p then \<lparr>mant = m, expo = e\<rparr>
      else let k = nbits m - p in \<lparr>mant = round_half_even m k, expo = e + int k\<rparr>)"

definition f64_div :: "f32 \<Rightarrow> f32 \<Rightarrow> f32" where
  "f64_div a b =
     (let s = 55 + nbits (mant b); n = mant a * 2 ^ s
      in f_round 53 (2 * (n div mant b) + (if n mod mant b = 0 then 0 else 1)) (expo a - expo b - int s - 1))"

definition rand_double :: "random_gen \<Rightarrow> f32 \<times> random_gen" where
  "rand_double g =
     (let (x, g) = next_output g;
          result = f_round 53 (unat (x - 1)) 0
      in (f64_div result (f_round 53 0xFFFFFFFFFFFFFFFE 0), g))"

definition rand_float :: "random_gen \<Rightarrow> f32 \<times> random_gen" where
  "rand_float g = (let (r, g) = rand_double g in (f_round 24 (mant r) (expo r), g))"

section \<open>Strings and identifiers\<close>

text \<open>
  \<open>RandomGenerator::generate\<close>: from the bytes of the buffer before to its success, the bytes after and its
  next state.
\<close>

type_synonym 's rng = "byte list \<Rightarrow> 's \<Rightarrow> bool \<times> byte list \<times> 's"

definition rng_contract :: "'s rng \<Rightarrow> bool" where
  "rng_contract generate \<longleftrightarrow> (\<forall>buf s. length (fst (snd (generate buf s))) = length buf)"

definition random_base64 :: string where
  "random_base64 = ''ABCDEFGHIJKLMNOPQRSTUVWXYZabcdefghijklmnopqrstuvwxyz0123456789+/''"

definition k_hex :: string where "k_hex = ''0123456789abcdef''"
definition k_uuid_digit17 :: string where "k_uuid_digit17 = ''89ab''"

text \<open>\<open>raw\<close> is the new array of \<open>len\<close> bytes, which is not initialised.\<close>

definition create_random_string_table :: "'s rng \<Rightarrow> byte list \<Rightarrow> nat \<Rightarrow> string \<Rightarrow> 's \<Rightarrow> bool \<times> string \<times> 's" where
  "create_random_string_table generate raw len table s =
     (if 256 mod length table \<noteq> 0 then (False, [], s)
      else
        let (ok, bytes, s) = generate raw s
        in if \<not> ok then (False, [], s)
           else (True, map (\<lambda>i. table ! (unat (bytes ! i) mod length table)) [0..<len], s))"

definition create_random_string_ok :: "'s rng \<Rightarrow> byte list \<Rightarrow> nat \<Rightarrow> 's \<Rightarrow> bool \<times> string \<times> 's" where
  "create_random_string_ok generate raw len s = create_random_string_table generate raw len random_base64 s"

definition create_random_string :: "'s rng \<Rightarrow> byte list \<Rightarrow> nat \<Rightarrow> 's \<Rightarrow> string \<times> 's" where
  "create_random_string generate raw len s =
     (let (ok, str, s) = create_random_string_ok generate raw len s in (str, s))"

text \<open>\<open>data->at(0)\<close> throws on an empty string; \<open>resize\<close> keeps a prefix and fills up with zeros.\<close>

definition create_random_data :: "'s rng \<Rightarrow> nat \<Rightarrow> byte list \<Rightarrow> 's \<Rightarrow> (bool \<times> byte list \<times> 's) option" where
  "create_random_data generate len data s =
     (let data = take len data @ replicate (len - length data) 0
      in if data = [] then None else Some (generate data s))"

definition create_random_uuid :: "'s rng \<Rightarrow> byte list \<Rightarrow> 's \<Rightarrow> string \<times> 's" where
  "create_random_uuid generate raw s =
     (let (ok, bytes, s) = generate raw s;
          hex = (\<lambda>i. k_hex ! (unat (bytes ! i) mod 16))
      in (map hex [0..<8] @ ''-'' @ map hex [8..<12] @ ''-'' @ ''4'' @ map hex [12..<15] @ ''-'' @
          [k_uuid_digit17 ! (unat (bytes ! 15) mod 4)] @ map hex [16..<19] @ ''-'' @ map hex [19..<31], s))"

definition create_random_id :: "endian \<Rightarrow> 's rng \<Rightarrow> byte list \<Rightarrow> 's \<Rightarrow> u32 \<times> 's" where
  "create_random_id he generate raw s = (let (ok, bytes, s) = generate raw s in (mem_to_word he bytes, s))"

text \<open>The order in which the operands of \<open>|\<close> are evaluated is not specified.\<close>

definition create_random_id64 :: "endian \<Rightarrow> bool \<Rightarrow> 's rng \<Rightarrow> byte list \<Rightarrow> 's \<Rightarrow> u64 \<times> 's" where
  "create_random_id64 he left_first generate raw s =
     (let (x, s) = create_random_id he generate raw s;
          (y, s) = create_random_id he generate raw s;
          (high, low) = (if left_first then (x, y) else (y, x))
      in (push_bit 32 (ucast high) OR ucast low, s))"

partial_function (option) create_random_non_zero_id :: "endian \<Rightarrow> 's rng \<Rightarrow> byte list \<Rightarrow> 's \<Rightarrow> (u32 \<times> 's) option" where
  "create_random_non_zero_id he generate raw s =
     (let (id, s) = create_random_id he generate raw s
      in if id = 0 then create_random_non_zero_id he generate raw s else Some (id, s))"

section \<open>The states of the generator\<close>

lemma shift_right_fixed:
  fixes d :: "'a::len word"
  assumes "0 < k" and "drop_bit k d = d"
  shows "d = 0"
proof (rule bit_word_eqI)
  have "\<not> bit d n" for n
  proof (induction "LENGTH('a) - n" arbitrary: n rule: less_induct)
    case less
    have "bit d n \<longleftrightarrow> bit d (n + k)" using arg_cong [OF assms(2), of "\<lambda>w. bit w n"] by (simp add: bit_drop_bit_eq add.commute)
    then show ?case using less [of "n + k"] assms(1) bit_imp_le_length [of d n] by fastforce
  qed
  then show "bit d n \<longleftrightarrow> bit (0 :: 'a word) n" for n by simp
qed

lemma shift_left_fixed:
  fixes d :: "'a::len word"
  assumes "0 < k" and "push_bit k d = d"
  shows "d = 0"
proof (rule bit_word_eqI)
  have "\<not> bit d n" for n
  proof (induction n rule: less_induct)
    case (less n)
    have "bit d n \<longleftrightarrow> k \<le> n \<and> n < LENGTH('a) \<and> bit d (n - k)"
      using arg_cong [OF assms(2), of "\<lambda>w. bit w n"] by (auto simp: bit_push_bit_iff)
    then show ?case using less [of "n - k"] assms(1) by auto
  qed
  then show "bit d n \<longleftrightarrow> bit (0 :: 'a word) n" for n by simp
qed

lemma xor_eq_0_eq: "s XOR t = 0 \<Longrightarrow> s = t" for s t :: "'a::len word"
  by (metis xor.assoc xor.left_neutral xor.right_neutral xor_self_eq)

lemma xorshift_right_eq:
  fixes s :: "'a::len word"
  assumes "0 < k" shows "s XOR drop_bit k s = t XOR drop_bit k t \<longleftrightarrow> s = t"
proof
  assume a: "s XOR drop_bit k s = t XOR drop_bit k t"
  have "drop_bit k (s XOR t) = s XOR t" 
    by (rule bit_word_eqI) (use arg_cong [OF a, of "\<lambda>w. bit w n" for n] in \<open>auto simp: bit_simps\<close>)
  then have "s XOR t = 0" by (rule shift_right_fixed [OF assms])
  then show "s = t" by (rule xor_eq_0_eq)
qed simp

lemma xorshift_left_eq:
  fixes s :: "'a::len word"
  assumes "0 < k" shows "s XOR push_bit k s = t XOR push_bit k t \<longleftrightarrow> s = t"
proof
  assume a: "s XOR push_bit k s = t XOR push_bit k t"
  have "push_bit k (s XOR t) = s XOR t"
    by (rule bit_word_eqI) (use arg_cong [OF a, of "\<lambda>w. bit w n" for n] in \<open>auto simp: bit_simps\<close>)
  then have "s XOR t = 0" by (rule shift_left_fixed [OF assms])
  then show "s = t" by (rule xor_eq_0_eq)
qed simp

lemma multiplier_inverse: "x * 2685821657736338717 = y \<longleftrightarrow> x = y * 6415128727920758069" for x y :: u64
proof -
  have i: "(2685821657736338717 :: u64) * 6415128727920758069 = 1" by simp
  define c d :: u64 where "c = 2685821657736338717" and "d = 6415128727920758069"
  have "x * c * d = x" "y * d * c = y" using i unfolding c_def [symmetric] d_def [symmetric] by (simp_all add: mult.assoc mult.commute [of d c])
  then have "x * c = y \<longleftrightarrow> x = y * d" by metis
  then show ?thesis by (simp only: c_def d_def)
qed

lemma xorshift_inj:
  fixes s t :: u64
  defines "f \<equiv> \<lambda>s :: u64. s XOR drop_bit 12 s" and "g \<equiv> \<lambda>s :: u64. s XOR push_bit 25 s" and "h \<equiv> \<lambda>s :: u64. s XOR drop_bit 27 s"
  shows "h (g (f s)) = h (g (f t)) \<longleftrightarrow> s = t"
  unfolding f_def g_def h_def by (subst xorshift_right_eq, simp, subst xorshift_left_eq, simp, subst xorshift_right_eq) simp_all

lemma next_output_state_inj: "snd (next_output g) = snd (next_output h) \<longleftrightarrow> g = h"
  using xorshift_inj [of "rg_state g" "rg_state h"]
  by (cases g; cases h) (simp add: next_output_def Let_def del: drop_bit_xor push_bit_xor)

lemma next_output_value: "fst (next_output g) = rg_state (snd (next_output g)) * 2685821657736338717"
  by (simp add: next_output_def Let_def)

lemma next_output_inj: "fst (next_output g) = fst (next_output h) \<longleftrightarrow> g = h"
proof -
  have "fst (next_output g) = fst (next_output h) \<longleftrightarrow> rg_state (snd (next_output g)) = rg_state (snd (next_output h))"
    by (metis multiplier_inverse next_output_value)
  then show ?thesis using next_output_state_inj [of g h] by (cases "snd (next_output g)"; cases "snd (next_output h)") simp
qed

lemma next_output_zero: "next_output (random_new 0) = (0, random_new 0)"
  by (simp add: next_output_def random_new_def)

lemma next_output_nonzero:
  assumes "rg_state g \<noteq> 0"
  shows "fst (next_output g) \<noteq> 0" "rg_state (snd (next_output g)) \<noteq> 0"
proof -
  have "g \<noteq> random_new 0" using assms by (auto simp: random_new_def)
  then show v: "fst (next_output g) \<noteq> 0" using next_output_inj [of g "random_new 0"] by (simp add: next_output_zero)
  then show "rg_state (snd (next_output g)) \<noteq> 0" using next_output_value [of g] by auto
qed

lemma next_output_bij: "bij_betw (\<lambda>seed. fst (next_output (random_new seed))) (- {0}) (- {0})"
proof -
  let ?f = "\<lambda>seed. fst (next_output (random_new seed))"
  have inj: "inj ?f" by (rule injI) (simp add: next_output_inj random_new_def)
  then have "bij ?f" by (simp add: bij_def finite_UNIV_inj_surj)
  moreover have "?f 0 = 0" by (simp add: next_output_zero)
  ultimately have "?f ` (- {0}) = - {0}" by (simp add: bij_image_Compl_eq)
  then show ?thesis using inj by (simp add: bij_betw_def inj_on_def inj_def)
qed

lemma next_state_bij: "bij_betw (\<lambda>seed. rg_state (snd (next_output (random_new seed)))) (- {0}) (- {0})"
proof -
  let ?f = "\<lambda>seed. rg_state (snd (next_output (random_new seed)))"
  have inj: "inj ?f" by (rule injI) (metis next_output_inj next_output_value random_gen.ext_inject random_new_def)
  then have "bij ?f" by (simp add: bij_def finite_UNIV_inj_surj)
  moreover have "?f 0 = 0" by (simp add: next_output_zero) (simp add: random_new_def)
  ultimately have "?f ` (- {0}) = - {0}" by (simp add: bij_image_Compl_eq)
  then show ?thesis using inj by (simp add: bij_betw_def inj_on_def inj_def)
qed

text \<open>
  The generator xorshift64* with the shifts 12, 25 and 27, as a map of the 64 bits of the state.
\<close>

definition xorshift_right :: "nat \<Rightarrow> (nat \<Rightarrow> bool) \<Rightarrow> nat \<Rightarrow> bool" where
  "xorshift_right n f k \<longleftrightarrow> f k \<noteq> f (k + n)"

definition xorshift_left :: "nat \<Rightarrow> (nat \<Rightarrow> bool) \<Rightarrow> nat \<Rightarrow> bool" where
  "xorshift_left n f k \<longleftrightarrow> k < 64 \<and> f k \<noteq> (n \<le> k \<and> f (k - n))"

definition xorshift_bits :: "(nat \<Rightarrow> bool) \<Rightarrow> nat \<Rightarrow> bool" where
  "xorshift_bits f = xorshift_right 27 (xorshift_left 25 (xorshift_right 12 f))"

lemma bit_xorshift_right: "bit (s XOR drop_bit n s) = xorshift_right n (bit s)" for s :: u64
  by (rule ext) (simp add: xorshift_right_def bit_xor_iff bit_drop_bit_eq add.commute)

lemma bit_xorshift_left: "bit (s XOR push_bit n s) = xorshift_left n (bit s)" for s :: u64
  by (rule ext) (auto simp: xorshift_left_def bit_xor_iff bit_push_bit_iff dest: bit_imp_le_length)

lemma next_state_bits: "bit (rg_state (snd (next_output g))) = xorshift_bits (bit (rg_state g))"
  by (simp add: next_output_def Let_def xorshift_bits_def bit_xorshift_right bit_xorshift_left del: drop_bit_xor push_bit_xor)

section \<open>Scaling\<close>

lemma card_scaled:
  fixes N m k :: nat
  assumes "0 < m" "k < m" "0 < N"
  shows "card {x. x < N \<and> x * m div N = k} \<in> {N div m, N div m + 1}"
proof -
  define c where "c j = (j * N + (m - 1)) div m" for j
  have c: "c j \<le> x \<longleftrightarrow> j * N \<le> x * m" for j x
  proof -
    have "c j \<le> x \<longleftrightarrow> j * N + (m - 1) < Suc x * m"
      unfolding c_def less_Suc_eq_le [symmetric] by (rule div_less_iff_less_mult [OF assms(1)])
    also have "\<dots> \<longleftrightarrow> j * N \<le> x * m" using assms(1) by auto
    finally show ?thesis .
  qed
  have "c m \<le> N" using c [of m N] by (simp add: mult.commute)
  moreover have "c (k + 1) \<le> c m" unfolding c_def using assms(2) by (intro div_le_mono add_mono mult_le_mono) simp_all
  ultimately have top: "c (k + 1) \<le> N" by simp
  have "{x. x < N \<and> x * m div N = k} = {c k ..< c (k + 1)}"
  proof (rule set_eqI)
    fix x
    have "x * m div N = k \<longleftrightarrow> k * N \<le> x * m \<and> \<not> (k + 1) * N \<le> x * m"
      using assms(3) less_eq_div_iff_mult_less_eq [of N k "x * m"] less_eq_div_iff_mult_less_eq [of N "k + 1" "x * m"]
      by (auto simp: not_le)
    then show "x \<in> {x. x < N \<and> x * m div N = k} \<longleftrightarrow> x \<in> {c k ..< c (k + 1)}"
      using c [of k x] c [of "k + 1" x] top by auto
  qed
  then have "card {x. x < N \<and> x * m div N = k} = c (k + 1) - c k" by simp
  moreover have "c (k + 1) = ((k * N + (m - 1)) + N) div m" by (simp add: c_def algebra_simps)
  moreover have "(a + N) div m - a div m \<in> {N div m, N div m + 1}" for a
  proof -
    have "a mod m < m" "N mod m < m" using assms(1) by simp_all
    then have "(a mod m + N mod m) div m < 2" by (subst div_less_iff_less_mult [OF assms(1)]) linarith
    then have "(a mod m + N mod m) div m \<in> {0, 1}" by (simp add: less_2_cases)
    then show ?thesis using div_add1_eq [of a N m] by auto
  qed
  ultimately show ?thesis unfolding c_def by simp
qed

text \<open>What \<open>rand(t)\<close> makes of the lower half of an output.\<close>

definition scaled :: "u32 \<Rightarrow> u32 \<Rightarrow> u32" where
  "scaled t x = ucast (drop_bit 32 (ucast x * (ucast t + 1) :: u64))"

lemma rand_upto_scaled: "rand_upto t g = (scaled t (ucast (fst (next_output g))), snd (next_output g))"
  by (simp add: rand_upto_def scaled_def Let_def split: prod.split)

lemma unat_word_eqI: "unat x = unat y \<Longrightarrow> x = y" for x y :: "'a::len word"
  by (simp add: unsigned_word_eqI)

lemma unat_u32_less: "unat x < 4294967296" for x :: u32
  using unsigned_less [of x] by simp

lemma unat_scaled: "unat (scaled t x) = unat x * (unat t + 1) div 2 ^ 32"
proof -
  note t = unat_u32_less [of t] and x = unat_u32_less [of x]
  have "unat (ucast t + 1 :: u64) = unat t + 1"
    using t by (simp add: unat_word_ariths(1) unsigned_ucast_eq take_bit_nat_eq_self)
  moreover have p: "unat x * (unat t + 1) \<le> 4294967295 * 4294967296" using t x by (intro mult_le_mono) simp_all
  ultimately have "unat (ucast x * (ucast t + 1) :: u64) = unat x * (unat t + 1)"
    using x by (simp add: unat_word_ariths(2) unsigned_ucast_eq take_bit_nat_eq_self)
  moreover have "unat x * (unat t + 1) div 4294967296 < 4294967296"
    using p by (intro less_mult_imp_div_less) simp
  ultimately show ?thesis by (simp add: scaled_def unsigned_ucast_eq take_bit_nat_eq_self unat_drop_bit_eq drop_bit_eq_div unat_div)
qed

lemma scaled_le: "scaled t x \<le> t"
proof -
  have "unat x * (unat t + 1) < 4294967296 * (unat t + 1)" using unat_u32_less [of x] by (intro mult_strict_right_mono) simp_all
  then have "unat x * (unat t + 1) div 4294967296 < unat t + 1" by (intro less_mult_imp_div_less) (simp add: mult.commute)
  then show ?thesis by (simp add: word_le_nat_alt unat_scaled)
qed

lemma card_scaled_word:
  assumes "k \<le> t"
  shows "card {x. scaled t x = k} \<in> {2 ^ 32 div (unat t + 1), 2 ^ 32 div (unat t + 1) + 1}"
proof -
  have "bij_betw unat {x. scaled t x = k} {x. x < 2 ^ 32 \<and> x * (unat t + 1) div 2 ^ 32 = unat k}"
  proof (rule bij_betw_byWitness [where f' = of_nat])
    show "unat ` {x. scaled t x = k} \<subseteq> {x. x < 2 ^ 32 \<and> x * (unat t + 1) div 2 ^ 32 = unat k}"
      using unat_u32_less unat_scaled [of t] by force
    show "of_nat ` {x. x < 2 ^ 32 \<and> x * (unat t + 1) div 2 ^ 32 = unat k} \<subseteq> {x. scaled t x = k}"
      using unat_scaled [of t] by (auto intro!: unat_word_eqI simp: unat_of_nat)
  qed (auto simp: unat_of_nat)
  then have "card {x. scaled t x = k} = card {x. x < 2 ^ 32 \<and> x * (unat t + 1) div 2 ^ 32 = unat k}" by (rule bij_betw_same_card)
  moreover have "unat k < unat t + 1" using assms by (simp add: word_le_nat_alt)
  ultimately show ?thesis using card_scaled [of "unat t + 1" "unat k" "2 ^ 32"] by simp
qed

lemma rand_unsigned_range:
  assumes "low \<le> high"
  shows "low \<le> fst (rand_unsigned low high g) \<and> fst (rand_unsigned low high g) \<le> high"
proof -
  obtain x where x: "fst (rand_unsigned low high g) = x + low" "x \<le> high - low"
    by (simp add: rand_unsigned_def rand_upto_scaled scaled_le)
  have h: "unat (high - low) = unat high - unat low" using assms by (rule unat_sub)
  have le: "unat low \<le> unat high" using assms by (simp add: word_le_nat_alt)
  have "unat x + unat low \<le> unat high" using x(2) h le by (simp add: word_le_nat_alt)
  moreover from this have "unat (x + low) = unat x + unat low"
    using unat_u32_less [of high] by (simp add: unat_word_ariths(1))
  ultimately show ?thesis using x(1) by (simp add: word_le_nat_alt)
qed

lemma rand_signed_range:
  assumes "- (2 ^ 31) \<le> low" "low \<le> high" "high < 2 ^ 31"
  shows "low \<le> fst (rand_signed low high g) \<and> fst (rand_signed low high g) \<le> high"
proof -
  define x where "x = scaled (of_int (high - low)) (ucast (fst (next_output g)))"
  have x: "fst (rand_signed low high g) = sint (of_int (uint x + low) :: u32)" "x \<le> of_int (high - low)"
    unfolding x_def by (simp only: rand_signed_def rand_upto_scaled Let_def prod.case fst_conv, rule scaled_le)
  have "uint (of_int (high - low) :: u32) = high - low"
    unfolding unsigned_of_int using assms by (simp add: take_bit_int_eq_self)
  then have r: "low \<le> uint x + low" "uint x + low \<le> high" using x(2) by (simp_all add: word_le_def)
  then have "sint (of_int (uint x + low) :: u32) = uint x + low"
    unfolding signed_of_int using assms order_trans [OF assms(1) r(1)] by (simp add: signed_take_bit_int_eq_self)
  then show ?thesis using x(1) r by simp
qed

section \<open>Characters\<close>

lemma card_byte_mod:
  assumes "256 mod n = 0" "k < n" "0 < n"
  shows "card {b :: byte. unat b mod n = k} = 256 div n"
proof -
  obtain q where q: "256 = n * q" using assms(1) by (metis mod_0_imp_dvd dvd_def)
  have b: "unat b < 256" for b :: byte using unsigned_less [of b] by simp
  have "bij_betw unat {b :: byte. unat b mod n = k} {x. x < 256 \<and> x mod n = k}"
  proof (rule bij_betw_byWitness [where f' = of_nat])
    show "unat ` {b :: byte. unat b mod n = k} \<subseteq> {x. x < 256 \<and> x mod n = k}" using b by auto
  qed (auto simp: unat_of_nat)
  then have "card {b :: byte. unat b mod n = k} = card {x. x < 256 \<and> x mod n = k}" by (rule bij_betw_same_card)
  also have "{x. x < 256 \<and> x mod n = k} = (\<lambda>i. n * i + k) ` {..<q}"
  proof (intro equalityI subsetI)
    fix x assume "x \<in> {x. x < 256 \<and> x mod n = k}"
    then have x: "x < n * q" "x = n * (x div n) + k" using q by (auto simp: mult_div_mod_eq)
    then have "x div n < q" by (simp add: less_mult_imp_div_less mult.commute)
    then show "x \<in> (\<lambda>i. n * i + k) ` {..<q}" using x(2) by blast
  next
    fix x assume "x \<in> (\<lambda>i. n * i + k) ` {..<q}"
    then obtain i where i: "x = n * i + k" "i < q" by auto
    have "n * i + k < n * i + n" using assms(2) by simp
    also have "\<dots> \<le> n * q" using i(2) mult_le_mono2 [of "Suc i" q n] by simp
    finally show "x \<in> {x. x < 256 \<and> x mod n = k}" using i(1) assms(2) q by simp
  qed
  also have "card ((\<lambda>i. n * i + k) ` {..<q}) = q" using assms(3) by (subst card_image) (auto simp: inj_on_def)
  finally show ?thesis using q assms(3) by (metis nonzero_mult_div_cancel_left less_numeral_extra(3))
qed

text \<open>\<open>xxxxxxxx-xxxx-4xxx-yxxx-xxxxxxxxxxxx\<close>, by the characters allowed at each position.\<close>

definition uuid_pattern :: "string list" where
  "uuid_pattern = (let x = ''0123456789abcdef'' in
     replicate 8 x @ [''-''] @ replicate 4 x @ [''-''] @ [''4''] @ replicate 3 x @ [''-''] @ [''89ab''] @ replicate 3 x @ [''-''] @ replicate 12 x)"

definition uuid_shape :: "string \<Rightarrow> bool" where
  "uuid_shape s \<longleftrightarrow> list_all2 (\<lambda>c cs. c \<in> set cs) s uuid_pattern"

lemma k_hex_nth: "n < 16 \<Longrightarrow> k_hex ! n \<in> set ''0123456789abcdef''"
  using nth_mem [of n k_hex] by (simp add: k_hex_def)

lemma k_uuid_nth: "n < 4 \<Longrightarrow> k_uuid_digit17 ! n \<in> set ''89ab''"
  using nth_mem [of n k_uuid_digit17] by (simp add: k_uuid_digit17_def)

lemma uuid_shape_ok: "uuid_shape (fst (create_random_uuid generate raw s))"
proof -
  obtain ok bytes s' where g: "generate raw s = (ok, bytes, s')" by (cases "generate raw s")
  define hex where "hex i = k_hex ! (unat (bytes ! i) mod 16)" for i
  define v where "v = k_uuid_digit17 ! (unat (bytes ! 15) mod 4)"
  have h: "hex i \<in> set ''0123456789abcdef''" for i unfolding hex_def by (rule k_hex_nth) simp
  have u: "v \<in> set ''89ab''" unfolding v_def by (rule k_uuid_nth) simp
  have "fst (create_random_uuid generate raw s) =
      map hex [0..<8] @ ''-'' @ map hex [8..<12] @ ''-'' @ ''4'' @ map hex [12..<15] @ ''-'' @ [v] @ map hex [16..<19] @ ''-'' @ map hex [19..<31]"
    by (simp add: create_random_uuid_def g hex_def [abs_def] v_def)
  moreover have "list_all2 (\<lambda>c cs. c \<in> set cs) (map hex [i..<j]) (replicate n ''0123456789abcdef'')" if "n = j - i" for i j n
    using h that by (simp add: list_all2_conv_all_nth)
  moreover note runs = this
  have "list_all2 (\<lambda>c cs. c \<in> set cs) (map hex [0..<8] @ ''-'' @ map hex [8..<12] @ ''-'' @ ''4'' @ map hex [12..<15] @ ''-'' @ [v] @
      map hex [16..<19] @ ''-'' @ map hex [19..<31]) uuid_pattern"
    unfolding uuid_pattern_def Let_def
    by (intro list_all2_appendI runs) (use u in \<open>simp_all del: upt_rec_numeral upt_Suc\<close>)
  ultimately show ?thesis unfolding uuid_shape_def by (simp only:)
qed

section \<open>Properties\<close>



text \<open>
  Random strings: a UUID has the shape of version 4 whatever the bytes are; a random string that is made has the
  length that was asked for and characters of the table, each of which comes from equally many bytes; a table whose size
  does not divide 256 and a generator that fails are refused.
\<close>

theorem random_strings_correct:
  assumes "rng_contract generate" and "length raw = len" and "0 < length table"
  shows "uuid_shape (fst (create_random_uuid generate raw' s)) \<and>
    (fst (create_random_string_table generate raw len table s) \<longleftrightarrow> 256 mod length table = 0 \<and> fst (generate raw s)) \<and>
    (fst (create_random_string_table generate raw len table s) \<longrightarrow>
       (let bytes = fst (snd (generate raw s)); str = fst (snd (create_random_string_table generate raw len table s))
        in length str = len \<and> (\<forall>i < len. str ! i = table ! (unat (bytes ! i) mod length table)) \<and> set str \<subseteq> set table \<and>
           (\<forall>j < length table. card {b :: byte. unat b mod length table = j} = 256 div length table)))"
proof -
  obtain ok bytes s' where g: "generate raw s = (ok, bytes, s')" by (cases "generate raw s")
  have c: "create_random_string_table generate raw len table s =
      (if 256 mod length table \<noteq> 0 then (False, [], s) else if \<not> ok then (False, [], s')
       else (True, map (\<lambda>i. table ! (unat (bytes ! i) mod length table)) [0..<len], s'))"
    by (simp add: create_random_string_table_def g)
  have m: "table ! (n mod length table) \<in> set table" for n using assms(3) by simp
  show ?thesis using uuid_shape_ok [of generate raw' s] card_byte_mod [of "length table"] assms(3) m
    by (auto simp: c g Let_def)
qed

definition sample_rng :: "u32 rng" where
  "sample_rng buf s = (True, map (\<lambda>i. ucast s + of_nat i) [0..<length buf], s + 1)"

theorem random_strings_correct_witness:
  "fst (snd (create_random_string_table sample_rng [0, 0, 0] 3 random_base64 25)) = ''Zab'' \<and>
   uuid_shape (fst (create_random_uuid sample_rng (replicate 31 0) 7))"
proof -
  have t: "length random_base64 = 64" by (simp add: random_base64_def)
  have "rng_contract sample_rng" by (simp add: rng_contract_def sample_rng_def)
  then have r: "fst (create_random_string_table sample_rng [0, 0, 0] 3 random_base64 25) \<longrightarrow>
      (let bytes = fst (snd (sample_rng [0, 0, 0] 25)); str = fst (snd (create_random_string_table sample_rng [0, 0, 0] 3 random_base64 25))
       in length str = 3 \<and> (\<forall>i < 3. str ! i = random_base64 ! (unat (bytes ! i) mod 64)))"
    "uuid_shape (fst (create_random_uuid sample_rng (replicate 31 0) 7))"
    using random_strings_correct [of sample_rng "[0, 0, 0]" 3 random_base64 "replicate 31 0" 25]
      random_strings_correct [of sample_rng "[0, 0, 0]" 3 random_base64 "replicate 31 0" 7] t by (simp_all add: Let_def)
  have "fst (snd (create_random_string_table sample_rng [0, 0, 0] 3 random_base64 25)) = ''Zab''"
    by (simp add: create_random_string_table_def t sample_rng_def upt_rec) (simp add: random_base64_def)
  then show ?thesis using r(2) by simp
qed

text \<open>
  \<open>create_random_non_zero_id\<close> returns an identifier that is not zero as soon as the generator gives one,
  after as many calls as it takes, on hosts of either byte order.
\<close>

fun rng_states :: "endian \<Rightarrow> 's rng \<Rightarrow> byte list \<Rightarrow> nat \<Rightarrow> 's \<Rightarrow> 's" where
  "rng_states he generate raw 0 s = s"
| "rng_states he generate raw (Suc n) s = rng_states he generate raw n (snd (create_random_id he generate raw s))"

lemma non_zero_id_ok:
  assumes "\<forall>i < n. fst (create_random_id he generate raw (rng_states he generate raw i s)) = 0"
    and "fst (create_random_id he generate raw (rng_states he generate raw n s)) \<noteq> 0"
  shows "create_random_non_zero_id he generate raw s = Some (create_random_id he generate raw (rng_states he generate raw n s))"
  using assms
proof (induction n arbitrary: s)
  case 0
  then show ?case by (cases "create_random_id he generate raw s") (subst create_random_non_zero_id.simps, simp)
next
  case (Suc n)
  let ?s = "snd (create_random_id he generate raw s)"
  have z: "fst (create_random_id he generate raw s) = 0" using Suc.prems(1) by force
  have "create_random_non_zero_id he generate raw ?s = Some (create_random_id he generate raw (rng_states he generate raw n ?s))"
  proof (rule Suc.IH)
    show "\<forall>i < n. fst (create_random_id he generate raw (rng_states he generate raw i ?s)) = 0"
      using Suc.prems(1) by (metis Suc_less_eq rng_states.simps(2))
  qed (use Suc.prems(2) in simp)
  then show ?case using z by (cases "create_random_id he generate raw s") (subst create_random_non_zero_id.simps, simp)
qed

lemma non_zero_id_not_zero: "create_random_non_zero_id he generate raw s = Some r \<Longrightarrow> fst r \<noteq> 0"
  by (rule create_random_non_zero_id.raw_induct [of "\<lambda>he generate raw s r. fst r \<noteq> 0"]) (auto split: prod.splits if_splits)

theorem random_non_zero_id:
  "(\<forall>r. create_random_non_zero_id he generate raw s = Some r \<longrightarrow> fst r \<noteq> 0) \<and>
   ((\<exists>n. fst (create_random_id he generate raw (rng_states he generate raw n s)) \<noteq> 0) \<longrightarrow>
     create_random_non_zero_id he generate raw s \<noteq> None)"
proof (intro conjI impI allI)
  assume "\<exists>n. fst (create_random_id he generate raw (rng_states he generate raw n s)) \<noteq> 0"
  then obtain n where n: "\<forall>i < n. fst (create_random_id he generate raw (rng_states he generate raw i s)) = 0"
    "fst (create_random_id he generate raw (rng_states he generate raw n s)) \<noteq> 0"
    unfolding exists_least_iff [of "\<lambda>n. fst (create_random_id he generate raw (rng_states he generate raw n s)) \<noteq> 0"] by blast
  show "create_random_non_zero_id he generate raw s \<noteq> None" by (simp add: non_zero_id_ok [OF n])
qed (rule non_zero_id_not_zero)

theorem random_non_zero_id_witness: "create_random_non_zero_id LittleEndian sample_rng [0, 0, 0, 0] 7 \<noteq> None"
proof -
  have "fst (create_random_id LittleEndian sample_rng [0, 0, 0, 0] (rng_states LittleEndian sample_rng [0, 0, 0, 0] 0 7)) \<noteq> 0"
    by (simp add: create_random_id_def sample_rng_def mem_to_word_def upt_rec)
  then show ?thesis using random_non_zero_id [of LittleEndian sample_rng "[0, 0, 0, 0]" 7] by blast
qed

section \<open>What the code does not do\<close>

lemma nbits_numeral:
  "nbits (numeral (num.Bit0 n)) = nbits (numeral n) + 1" "nbits (numeral (num.Bit1 n)) = nbits (numeral n) + 1"
  "nbits (numeral num.One) = 1" "nbits 1 = 1" "nbits (Suc 0) = 1"
  by (subst nbits.simps, simp add: nbits.simps [of 0])+

text \<open>\<open>rand<double>\<close> is documented to stay below 1.0; the largest output, which some seed gives, becomes 1.0.\<close>

lemma rand_double_reaches_one: "\<exists>seed. seed \<noteq> 0 \<and> fst (rand_double (random_new seed)) = \<lparr>mant = 2 ^ 52, expo = - 52\<rparr>"
proof -
  obtain seed where s: "seed \<noteq> 0" "fst (next_output (random_new seed)) = - 1"
    using bij_betwE [OF bij_betw_inv_into [OF next_output_bij]] bij_betw_inv_into_right [OF next_output_bij, of "- 1"] by force
  have "f64_div (f_round 53 (unat (- 1 - 1 :: u64)) 0) (f_round 53 0xFFFFFFFFFFFFFFFE 0) = \<lparr>mant = 2 ^ 52, expo = - 52\<rparr>"
    by (simp add: f64_div_def f_round_def round_half_even_def nbits_numeral Let_def)
  then have "fst (rand_double (random_new seed)) = \<lparr>mant = 2 ^ 52, expo = - 52\<rparr>"
    using s(2) by (cases "next_output (random_new seed)") (simp add: rand_double_def)
  then show ?thesis using s(1) by blast
qed

text \<open>Random data of length zero throws instead of giving an empty string.\<close>

lemma create_random_data_empty: "create_random_data generate 0 data s = None"
  by (simp add: create_random_data_def)

end
