(* ===== verification/IdentityObjects.thy ===== *)
theory IdentityObjects
  imports SslIdentity RandomNumbers
begin

text \<open>
  Keys, certificates and identities as owners of OpenSSL objects (\<open>src/openssl_identity.{h,cpp}\<close>, the certificate chains
  of \<open>src/ssl_identity.cpp\<close>, \<open>src/rtccertificate_generator.cpp\<close>).  OpenSSL is a parameter: which of its calls succeed
  and which errors a failing one adds to the error queue.  Its objects are a store with reference counts.
\<close>

section \<open>OpenSSL objects\<close>

record pkey_obj =
  pk_refs :: nat
  pk_inner :: "nat option"

text \<open>A certificate by its reference count and what is set in it; unset fields are \<open>None\<close>.\<close>

record x509_obj =
  x5_refs :: nat
  x5_pubkey :: "nat option"
  x5_subject :: "string option"
  x5_issuer :: "string option"
  x5_not_before :: "int option"
  x5_not_after :: "int option"
  x5_signed :: "nat option"

text \<open>\<open>os_small\<close>: the live objects without a reference count that the code uses (big numbers, RSA and EC keys, names).\<close>

record ossl =
  os_pkey :: "nat \<Rightarrow> pkey_obj option"
  os_x509 :: "nat \<Rightarrow> x509_obj option"
  os_small :: "nat set"
  os_next :: nat
  os_errors :: "nat list"

datatype ossl_call =
    EVP_PKEY_new | BN_new | RSA_new | BN_set_word | RSA_generate_key_ex | EVP_PKEY_assign_RSA
  | EC_KEY_new_by_curve_name | EC_KEY_generate_key | EVP_PKEY_assign_EC_KEY
  | X509_new | X509_set_pubkey | BN_new_serial | BN_pseudo_rand | X509_get_serialNumber | BN_to_ASN1_INTEGER | X509_set_version
  | X509_NAME_new | X509_NAME_add_entry_by_NID | X509_set_subject_name | X509_set_issuer_name
  | X509_time_adj_not_before | X509_time_adj_not_after | X509_sign | BIO_new_mem
  | SSL_CTX_use_certificate | SSL_CTX_use_PrivateKey

record ossl_api =
  api_ok :: "ossl_call \<Rightarrow> bool"
  api_errors :: "ossl_call \<Rightarrow> nat list"

definition ossl_call :: "ossl_api \<Rightarrow> ossl_call \<Rightarrow> ossl \<Rightarrow> bool \<times> ossl" where
  "ossl_call api c st = (if api_ok api c then (True, st) else (False, st\<lparr>os_errors := os_errors st @ api_errors api c\<rparr>))"

fun ossl_calls :: "ossl_api \<Rightarrow> ossl_call list \<Rightarrow> ossl \<Rightarrow> bool \<times> ossl" where
  "ossl_calls api [] st = (True, st)"
| "ossl_calls api (c # cs) st = (let (ok, st) = ossl_call api c st in if ok then ossl_calls api cs st else (False, st))"

definition new_small :: "ossl_api \<Rightarrow> ossl_call \<Rightarrow> ossl \<Rightarrow> nat option \<times> ossl" where
  "new_small api c st =
     (let (ok, st) = ossl_call api c st
      in if ok then (Some (os_next st), st\<lparr>os_small := insert (os_next st) (os_small st), os_next := os_next st + 1\<rparr>) else (None, st))"

definition new_pkey :: "ossl_api \<Rightarrow> ossl \<Rightarrow> nat option \<times> ossl" where
  "new_pkey api st =
     (let (ok, st) = ossl_call api EVP_PKEY_new st
      in if ok then (Some (os_next st), st\<lparr>os_pkey := (os_pkey st)(os_next st \<mapsto> \<lparr>pk_refs = 1, pk_inner = None\<rparr>), os_next := os_next st + 1\<rparr>)
         else (None, st))"

definition new_x509 :: "ossl_api \<Rightarrow> ossl \<Rightarrow> nat option \<times> ossl" where
  "new_x509 api st =
     (let (ok, st) = ossl_call api X509_new st
      in if ok then (Some (os_next st), st\<lparr>os_x509 := (os_x509 st)(os_next st \<mapsto>
           \<lparr>x5_refs = 1, x5_pubkey = None, x5_subject = None, x5_issuer = None, x5_not_before = None, x5_not_after = None, x5_signed = None\<rparr>),
           os_next := os_next st + 1\<rparr>)
         else (None, st))"

text \<open>The free functions accept null; \<open>None\<close> is a use or free of an object that is not alive.\<close>

definition free_small :: "nat option \<Rightarrow> ossl \<Rightarrow> ossl option" where
  "free_small q st =
     (case q of
        None \<Rightarrow> Some st
      | Some p \<Rightarrow> if p \<in> os_small st then Some (st\<lparr>os_small := os_small st - {p}\<rparr>) else None)"

definition pkey_free :: "nat option \<Rightarrow> ossl \<Rightarrow> ossl option" where
  "pkey_free q st =
     (case q of
        None \<Rightarrow> Some st
      | Some p \<Rightarrow>
          (case os_pkey st p of
             None \<Rightarrow> None
           | Some k \<Rightarrow>
               if pk_refs k > 1 then Some (st\<lparr>os_pkey := (os_pkey st)(p \<mapsto> k\<lparr>pk_refs := pk_refs k - 1\<rparr>)\<rparr>)
               else free_small (pk_inner k) (st\<lparr>os_pkey := (os_pkey st)(p := None)\<rparr>)))"

definition x509_free :: "nat option \<Rightarrow> ossl \<Rightarrow> ossl option" where
  "x509_free q st =
     (case q of
        None \<Rightarrow> Some st
      | Some p \<Rightarrow>
          (case os_x509 st p of
             None \<Rightarrow> None
           | Some x \<Rightarrow>
               if x5_refs x > 1 then Some (st\<lparr>os_x509 := (os_x509 st)(p \<mapsto> x\<lparr>x5_refs := x5_refs x - 1\<rparr>)\<rparr>)
               else Some (st\<lparr>os_x509 := (os_x509 st)(p := None)\<rparr>)))"

definition upd_pkey :: "nat \<Rightarrow> (pkey_obj \<Rightarrow> pkey_obj) \<Rightarrow> ossl \<Rightarrow> ossl option" where
  "upd_pkey p f st = (case os_pkey st p of None \<Rightarrow> None | Some k \<Rightarrow> Some (st\<lparr>os_pkey := (os_pkey st)(p \<mapsto> f k)\<rparr>))"

definition upd_x509 :: "nat \<Rightarrow> (x509_obj \<Rightarrow> x509_obj) \<Rightarrow> ossl \<Rightarrow> ossl option" where
  "upd_x509 p f st = (case os_x509 st p of None \<Rightarrow> None | Some x \<Rightarrow> Some (st\<lparr>os_x509 := (os_x509 st)(p \<mapsto> f x)\<rparr>))"

section \<open>Keys\<close>

text \<open>
  \<open>log_ssl_errors\<close>: \<open>err\<close> is 0 and is compared with the next error instead of being assigned; an empty queue
  gives 0.
\<close>

definition ERR_get_error :: "nat list \<Rightarrow> nat \<times> nat list" where
  "ERR_get_error q = (case q of [] \<Rightarrow> (0, []) | e # es \<Rightarrow> (e, es))"

partial_function (option) log_ssl_errors_loop :: "nat list \<Rightarrow> nat list option" where
  "log_ssl_errors_loop q = (let (e, q) = ERR_get_error q in if (0 = e) \<noteq> False then log_ssl_errors_loop q else Some q)"

definition log_ssl_errors :: "ossl \<Rightarrow> ossl option" where
  "log_ssl_errors st = map_option (\<lambda>q. st\<lparr>os_errors := q\<rparr>) (log_ssl_errors_loop (os_errors st))"

definition make_key :: "ossl_api \<Rightarrow> key_params \<Rightarrow> ossl \<Rightarrow> (nat option \<times> ossl) option" where
  "make_key api kp st =
     (let (pkey, st) = new_pkey api st
      in case kp of
           RSA_params m e \<Rightarrow>
             let (exponent, st) = new_small api BN_new st;
                 (rsa, st) = new_small api RSA_new st;
                 (ok, st) = (if pkey = None \<or> exponent = None \<or> rsa = None then (False, st)
                             else ossl_calls api [BN_set_word, RSA_generate_key_ex, EVP_PKEY_assign_RSA] st)
             in if \<not> ok then do {
                  st \<leftarrow> pkey_free pkey st;
                  st \<leftarrow> free_small exponent st;
                  st \<leftarrow> free_small rsa st;
                  Some (None, st) }
                else do {
                  st \<leftarrow> upd_pkey (the pkey) (pk_inner_update (\<lambda>_. rsa)) st;
                  st \<leftarrow> free_small exponent st;
                  Some (pkey, st) }
         | EC_params curve \<Rightarrow>
             if curve = EC_NIST_P256 then
               let (ec_key, st) = new_small api EC_KEY_new_by_curve_name st
               in if ec_key = None then None
                  else
                    let (ok, st) = (if pkey = None then (False, st)
                                    else ossl_calls api [EC_KEY_generate_key, EVP_PKEY_assign_EC_KEY] st)
                    in if \<not> ok then do {
                         st \<leftarrow> pkey_free pkey st;
                         st \<leftarrow> free_small ec_key st;
                         Some (None, st) }
                       else do {
                         st \<leftarrow> upd_pkey (the pkey) (pk_inner_update (\<lambda>_. ec_key)) st;
                         Some (pkey, st) }
             else do {
               st \<leftarrow> pkey_free pkey st;
               Some (None, st) }
         | Uninitialised_params \<Rightarrow> None)"

definition key_pair_generate :: "ossl_api \<Rightarrow> key_params \<Rightarrow> ossl \<Rightarrow> (nat option \<times> ossl) option" where
  "key_pair_generate api kp st = do {
     (pkey, st) \<leftarrow> make_key api kp st;
     if pkey = None then do { st \<leftarrow> log_ssl_errors st; Some (None, st) }
     else Some (pkey, st) }"

definition key_pair_get_reference :: "nat \<Rightarrow> ossl \<Rightarrow> (nat \<times> ossl) option" where
  "key_pair_get_reference p st = do { st \<leftarrow> upd_pkey p (\<lambda>k. k\<lparr>pk_refs := pk_refs k + 1\<rparr>) st; Some (p, st) }"

definition key_pair_destroy :: "nat \<Rightarrow> ossl \<Rightarrow> ossl option" where
  "key_pair_destroy p st = pkey_free (Some p) st"

section \<open>Certificates\<close>

record identity_params =
  ip_common_name :: string
  ip_not_before :: int
  ip_not_after :: int
  ip_key_params :: key_params

definition c_str :: "string \<Rightarrow> string" where
  "c_str s = takeWhile (\<lambda>c. c \<noteq> CHR 0x00) s"

text \<open>The label \<open>error\<close> and the code behind it.\<close>

definition make_certificate_error :: "nat option \<Rightarrow> nat option \<Rightarrow> nat option \<Rightarrow> ossl \<Rightarrow> (nat option \<times> ossl) option" where
  "make_certificate_error serial_number name x509 st = do {
     st \<leftarrow> free_small serial_number st;
     st \<leftarrow> free_small name st;
     st \<leftarrow> x509_free x509 st;
     Some (None, st) }"

text \<open>The part of \<open>make_certificate\<close> from the name on.\<close>

definition make_certificate_named :: "ossl_api \<Rightarrow> nat \<Rightarrow> identity_params \<Rightarrow> nat \<Rightarrow> nat option \<Rightarrow> ossl \<Rightarrow> (nat option \<times> ossl) option" where
  "make_certificate_named api pkey params x serial_number st =
     (let (name, st) = new_small api X509_NAME_new st
      in if name = None then make_certificate_error serial_number name (Some x) st
         else let (ok, st) = ossl_calls api [X509_NAME_add_entry_by_NID, X509_set_subject_name] st
         in if \<not> ok then make_certificate_error serial_number name (Some x) st
         else do {
           st \<leftarrow> upd_x509 x (x5_subject_update (\<lambda>_. Some (c_str (ip_common_name params)))) st;
           let (ok, st) = ossl_call api X509_set_issuer_name st;
           if \<not> ok then make_certificate_error serial_number name (Some x) st
           else do {
             st \<leftarrow> upd_x509 x (x5_issuer_update (\<lambda>_. Some (c_str (ip_common_name params)))) st;
             let (ok, st) = ossl_call api X509_time_adj_not_before st;
             if \<not> ok then make_certificate_error serial_number name (Some x) st
             else do {
               st \<leftarrow> upd_x509 x (x5_not_before_update (\<lambda>_. Some (ip_not_before params))) st;
               let (ok, st) = ossl_call api X509_time_adj_not_after st;
               if \<not> ok then make_certificate_error serial_number name (Some x) st
               else do {
                 st \<leftarrow> upd_x509 x (x5_not_after_update (\<lambda>_. Some (ip_not_after params))) st;
                 let (ok, st) = ossl_call api X509_sign st;
                 if \<not> ok then make_certificate_error serial_number name (Some x) st
                 else do {
                   st \<leftarrow> upd_x509 x (x5_signed_update (\<lambda>_. Some pkey)) st;
                   st \<leftarrow> free_small serial_number st;
                   st \<leftarrow> free_small name st;
                   Some (Some x, st) } } } } })"

definition make_certificate :: "ossl_api \<Rightarrow> nat \<Rightarrow> identity_params \<Rightarrow> ossl \<Rightarrow> (nat option \<times> ossl) option" where
  "make_certificate api pkey params st =
     (let (x509, st) = new_x509 api st
      in case x509 of
           None \<Rightarrow> make_certificate_error None None None st
         | Some x \<Rightarrow>
             let (ok, st) = ossl_call api X509_set_pubkey st
             in if \<not> ok then make_certificate_error None None (Some x) st
                else do {
                  st \<leftarrow> upd_x509 x (x5_pubkey_update (\<lambda>_. Some pkey)) st;
                  let (serial_number, st) = new_small api BN_new_serial st;
                  if serial_number = None then make_certificate_error None None (Some x) st
                  else
                    let (ok, st) = ossl_calls api [BN_pseudo_rand, X509_get_serialNumber, BN_to_ASN1_INTEGER, X509_set_version] st
                    in if \<not> ok then make_certificate_error serial_number None (Some x) st
                       else make_certificate_named api pkey params x serial_number st })"

text \<open>\<open>print_cert\<close> makes a temporary object and prints.\<close>

definition print_cert :: "ossl_api \<Rightarrow> ossl \<Rightarrow> ossl option" where
  "print_cert api st = (let (temp_memory_bio, st) = new_small api BIO_new_mem st in if temp_memory_bio = None then Some st else free_small temp_memory_bio st)"

definition certificate_new :: "nat \<Rightarrow> ossl \<Rightarrow> (nat \<times> ossl) option" where
  "certificate_new x st = do { st \<leftarrow> upd_x509 x (\<lambda>c. c\<lparr>x5_refs := x5_refs c + 1\<rparr>) st; Some (x, st) }"

definition certificate_destroy :: "nat \<Rightarrow> ossl \<Rightarrow> ossl option" where
  "certificate_destroy x st = x509_free (Some x) st"

definition certificate_get_reference :: "nat \<Rightarrow> ossl \<Rightarrow> (nat \<times> ossl) option" where
  "certificate_get_reference x st = certificate_new x st"

text \<open>\<open>rnd\<close> is the result of \<open>create_random_string(8)\<close>.\<close>

definition certificate_generate :: "ossl_api \<Rightarrow> string \<Rightarrow> nat \<Rightarrow> identity_params \<Rightarrow> ossl \<Rightarrow> (nat option \<times> ossl) option" where
  "certificate_generate api rnd pkey params st = do {
     let actual_params = (if ip_common_name params = [] then params\<lparr>ip_common_name := rnd\<rparr> else params);
     (x509, st) \<leftarrow> make_certificate api pkey actual_params st;
     case x509 of
       None \<Rightarrow> do { st \<leftarrow> log_ssl_errors st; Some (None, st) }
     | Some x \<Rightarrow> do {
         st \<leftarrow> print_cert api st;
         (ret, st) \<leftarrow> certificate_new x st;
         st \<leftarrow> x509_free (Some x) st;
         Some (Some ret, st) } }"

datatype signature_nid =
    NID_md5WithRSA | NID_md5WithRSAEncryption
  | NID_ecdsa_with_SHA1 | NID_dsaWithSHA1 | NID_dsaWithSHA1_2 | NID_sha1WithRSA | NID_sha1WithRSAEncryption
  | NID_ecdsa_with_SHA224 | NID_sha224WithRSAEncryption | NID_dsa_with_SHA224
  | NID_ecdsa_with_SHA256 | NID_sha256WithRSAEncryption | NID_dsa_with_SHA256
  | NID_ecdsa_with_SHA384 | NID_sha384WithRSAEncryption | NID_ecdsa_with_SHA512 | NID_sha512WithRSAEncryption | NID_other

definition get_signature_digest_algorithm :: "signature_nid \<Rightarrow> bool \<times> string" where
  "get_signature_digest_algorithm nid =
     (if nid \<in> {NID_md5WithRSA, NID_md5WithRSAEncryption} then (True, DIGEST_MD5)
      else if nid \<in> {NID_ecdsa_with_SHA1, NID_dsaWithSHA1, NID_dsaWithSHA1_2, NID_sha1WithRSA, NID_sha1WithRSAEncryption} then (True, DIGEST_SHA_1)
      else if nid \<in> {NID_ecdsa_with_SHA224, NID_sha224WithRSAEncryption, NID_dsa_with_SHA224} then (True, DIGEST_SHA_224)
      else if nid \<in> {NID_ecdsa_with_SHA256, NID_sha256WithRSAEncryption, NID_dsa_with_SHA256} then (True, DIGEST_SHA_256)
      else if nid \<in> {NID_ecdsa_with_SHA384, NID_sha384WithRSAEncryption} then (True, DIGEST_SHA_384)
      else if nid \<in> {NID_ecdsa_with_SHA512, NID_sha512WithRSAEncryption} then (True, DIGEST_SHA_512)
      else (False, []))"

section \<open>Chains and identities\<close>

fun chain_references :: "nat list \<Rightarrow> ossl \<Rightarrow> (nat list \<times> ossl) option" where
  "chain_references [] st = Some ([], st)"
| "chain_references (x # xs) st = do {
     (y, st) \<leftarrow> certificate_get_reference x st;
     (ys, st) \<leftarrow> chain_references xs st;
     Some (y # ys, st) }"

definition chain_of_certs :: "nat list \<Rightarrow> ossl \<Rightarrow> (nat list \<times> ossl) option" where
  "chain_of_certs certs st = chain_references certs st"

definition chain_of_cert :: "nat \<Rightarrow> ossl \<Rightarrow> (nat list \<times> ossl) option" where
  "chain_of_cert cert st = do { (y, st) \<leftarrow> certificate_get_reference cert st; Some ([y], st) }"

definition chain_copy :: "nat list \<Rightarrow> ossl \<Rightarrow> (nat list \<times> ossl) option" where
  "chain_copy certs st = chain_references certs st"

fun chain_destroy :: "nat list \<Rightarrow> ossl \<Rightarrow> ossl option" where
  "chain_destroy [] st = Some st"
| "chain_destroy (x # xs) st = do { st \<leftarrow> certificate_destroy x st; chain_destroy xs st }"

record ssl_identity =
  id_key_pair :: nat
  id_cert_chain :: "nat list"

definition identity_certificate :: "ssl_identity \<Rightarrow> nat option" where
  "identity_certificate i = (case id_cert_chain i of [] \<Rightarrow> None | x # xs \<Rightarrow> Some x)"

definition generate_internal :: "ossl_api \<Rightarrow> string \<Rightarrow> identity_params \<Rightarrow> ossl \<Rightarrow> (ssl_identity option \<times> ossl) option" where
  "generate_internal api rnd params st = do {
     (key_pair, st) \<leftarrow> key_pair_generate api (ip_key_params params) st;
     case key_pair of
       None \<Rightarrow> Some (None, st)
     | Some p \<Rightarrow> do {
         (certificate, st) \<leftarrow> certificate_generate api rnd p params st;
         case certificate of
           None \<Rightarrow> do { st \<leftarrow> key_pair_destroy p st; Some (None, st) }
         | Some x \<Rightarrow> Some (Some \<lparr>id_key_pair = p, id_cert_chain = [x]\<rparr>, st) } }"

definition generate_with_expiration ::
  "ossl_api \<Rightarrow> string \<Rightarrow> int \<Rightarrow> string \<Rightarrow> key_params \<Rightarrow> int \<Rightarrow> ossl \<Rightarrow> (ssl_identity option \<times> ossl) option" where
  "generate_with_expiration api rnd now common_name kp certificate_lifetime st =
     (let params = \<lparr>ip_common_name = common_name, ip_not_before = now + k_certificate_window_in_seconds,
            ip_not_after = now + certificate_lifetime, ip_key_params = kp\<rparr>
      in if ip_not_before params > ip_not_after params then Some (None, st) else generate_internal api rnd params st)"

definition identity_generate :: "ossl_api \<Rightarrow> string \<Rightarrow> int \<Rightarrow> string \<Rightarrow> key_params \<Rightarrow> ossl \<Rightarrow> (ssl_identity option \<times> ossl) option" where
  "identity_generate api rnd now common_name kp st =
     generate_with_expiration api rnd now common_name kp k_default_certificate_lifetime_in_seconds st"

definition identity_get_reference :: "ssl_identity \<Rightarrow> ossl \<Rightarrow> (ssl_identity \<times> ossl) option" where
  "identity_get_reference i st = do {
     (p, st) \<leftarrow> key_pair_get_reference (id_key_pair i) st;
     (xs, st) \<leftarrow> chain_copy (id_cert_chain i) st;
     Some (\<lparr>id_key_pair = p, id_cert_chain = xs\<rparr>, st) }"

text \<open>The members are destroyed in the reverse order of their declaration.\<close>

definition identity_destroy :: "ssl_identity \<Rightarrow> ossl \<Rightarrow> ossl option" where
  "identity_destroy i st = do {
     st \<leftarrow> chain_destroy (id_cert_chain i) st;
     key_pair_destroy (id_key_pair i) st }"

text \<open>
  A context takes references of its own to the certificate and the key, which it releases when it is freed: they are
  returned beside the result.
\<close>

definition configure_identity :: "ossl_api \<Rightarrow> ssl_identity \<Rightarrow> ossl \<Rightarrow> (bool \<times> (nat option \<times> nat option) \<times> ossl) option" where
  "configure_identity api i st = do {
     x \<leftarrow> identity_certificate i;
     let (ok, st) = ossl_call api SSL_CTX_use_certificate st;
     if \<not> ok then do { st \<leftarrow> log_ssl_errors st; Some (False, (None, None), st) }
     else do {
       st \<leftarrow> upd_x509 x (\<lambda>c. c\<lparr>x5_refs := x5_refs c + 1\<rparr>) st;
       let (ok, st) = ossl_call api SSL_CTX_use_PrivateKey st;
       if \<not> ok then do { st \<leftarrow> log_ssl_errors st; Some (False, (Some x, None), st) }
       else do {
         st \<leftarrow> upd_pkey (id_key_pair i) (\<lambda>k. k\<lparr>pk_refs := pk_refs k + 1\<rparr>) st;
         Some (True, (Some x, Some (id_key_pair i)), st) } } }"

definition ctx_free :: "nat option \<times> nat option \<Rightarrow> ossl \<Rightarrow> ossl option" where
  "ctx_free ctx st = do { st \<leftarrow> x509_free (fst ctx) st; pkey_free (snd ctx) st }"

section \<open>The certificate generator\<close>

definition k_identity_name :: string where "k_identity_name = ''WebRTC''"

text \<open>A certificate for use in a connection is its identity.\<close>

definition generate_certificate :: "ossl_api \<Rightarrow> string \<Rightarrow> int \<Rightarrow> key_params \<Rightarrow> u64 \<Rightarrow> ossl \<Rightarrow> (ssl_identity option \<times> ossl) option" where
  "generate_certificate api rnd now kp expires_ms st = do {
     valid \<leftarrow> key_params_is_valid kp;
     if \<not> valid then Some (None, st)
     else if expires_ms = 0 then identity_generate api rnd now k_identity_name kp st
     else
       let expires_s = expires_ms div 1000;
           expires_s = min expires_s k_year_in_seconds;
           cert_lifetime_s = sint expires_s
       in generate_with_expiration api rnd now k_identity_name kp cert_lifetime_s st }"

end
