(* ===== verification/IdentityOwnership.thy ===== *)
theory IdentityOwnership
  imports IdentityObjects "HOL-Library.Multiset"
begin

text \<open>
  Who holds which references to keys and certificates: the reference counts of OpenSSL agree with the holders in
  every state a program with identities, certificates and contexts can reach, whichever calls of OpenSSL fail;
  and what is in a certificate that is generated.
\<close>

section \<open>Ownership\<close>

text \<open>A store of objects with reference counts against the multiset \<open>M\<close> of the references that are held.\<close>

definition refs_inv :: "('o \<Rightarrow> nat) \<Rightarrow> (nat \<Rightarrow> 'o option) \<Rightarrow> nat multiset \<Rightarrow> nat \<Rightarrow> bool" where
  "refs_inv refs m M n \<longleftrightarrow> (\<forall>p. (case m p of None \<Rightarrow> 0 | Some k \<Rightarrow> refs k) = count M p) \<and> (\<forall>p k. m p = Some k \<longrightarrow> 0 < refs k \<and> p < n)"

lemma refs_invD:
  assumes "refs_inv refs m M n"
  shows "p \<in># M \<Longrightarrow> \<exists>k. m p = Some k \<and> refs k = count M p" "m p = Some k \<Longrightarrow> refs k = count M p"
    "m p = Some k \<Longrightarrow> 0 < refs k" "m p = Some k \<Longrightarrow> p < n" "m n = None" "n \<notin># M"
proof -
  have c: "(case m p of None \<Rightarrow> 0 | Some k \<Rightarrow> refs k) = count M p" for p using assms by (simp add: refs_inv_def)
  show 1: "p \<in># M \<Longrightarrow> \<exists>k. m p = Some k \<and> refs k = count M p" for p using c [of p] by (cases "m p") (auto simp: count_eq_zero_iff)
  show "m p = Some k \<Longrightarrow> refs k = count M p" using c [of p] by simp
  show "m p = Some k \<Longrightarrow> 0 < refs k" "m p = Some k \<Longrightarrow> p < n" using assms by (simp_all add: refs_inv_def)
  show n: "m n = None" using assms unfolding refs_inv_def by (metis less_irrefl not_None_eq)
  show "n \<notin># M" using 1 [of n] n by auto
qed

lemma refs_inv_same: "refs_inv refs m M n \<Longrightarrow> m p = Some k \<Longrightarrow> refs k' = refs k \<Longrightarrow> refs_inv refs (m(p \<mapsto> k')) M n"
  unfolding refs_inv_def by (auto split: option.splits if_splits)

lemma refs_inv_up: "refs_inv refs m M n \<Longrightarrow> m p = Some k \<Longrightarrow> refs k' = refs k + 1 \<Longrightarrow> refs_inv refs (m(p \<mapsto> k')) (add_mset p M) n"
  unfolding refs_inv_def by (auto split: option.splits if_splits)

lemma refs_inv_down:
  "refs_inv refs m M n \<Longrightarrow> m p = Some k \<Longrightarrow> 1 < refs k \<Longrightarrow> refs k' = refs k - 1 \<Longrightarrow> refs_inv refs (m(p \<mapsto> k')) (M - {#p#}) n"
  unfolding refs_inv_def by (auto split: option.splits if_splits)

lemma refs_inv_remove: "refs_inv refs m M n \<Longrightarrow> m p = Some k \<Longrightarrow> \<not> 1 < refs k \<Longrightarrow> refs_inv refs (m(p := None)) (M - {#p#}) n"
  unfolding refs_inv_def by (auto split: option.splits if_splits)

lemma refs_inv_new: "refs_inv refs m M n \<Longrightarrow> refs k = 1 \<Longrightarrow> refs_inv refs (m(n \<mapsto> k)) (add_mset n M) (Suc n)"
  using refs_invD(5,6) [of refs m M n] count_eq_zero_iff [of M n] unfolding refs_inv_def by (auto split: option.splits if_splits)

lemma refs_inv_next: "refs_inv refs m M n \<Longrightarrow> n \<le> n' \<Longrightarrow> refs_inv refs m M n'"
  unfolding refs_inv_def by (meson less_le_trans)

text \<open>The objects that keys own, and the temporary ones \<open>S\<close>.\<close>

definition inner :: "(nat \<Rightarrow> pkey_obj option) \<Rightarrow> nat \<Rightarrow> nat option" where
  "inner m p = (case m p of None \<Rightarrow> None | Some k \<Rightarrow> pk_inner k)"

lemma inner_upd [simp]: "inner (m(p \<mapsto> k)) = (inner m)(p := pk_inner k)" "inner (m(p := None)) = (inner m)(p := None)"
  by (auto simp: inner_def fun_eq_iff)

definition inner_inv :: "(nat \<Rightarrow> nat option) \<Rightarrow> nat set \<Rightarrow> nat set \<Rightarrow> nat \<Rightarrow> bool" where
  "inner_inv f small S n \<longleftrightarrow> small = S \<union> ran f \<and> S \<inter> ran f = {} \<and> (\<forall>i \<in> small. i < n) \<and> inj_on f (dom f)"

lemma inner_inv_new: "inner_inv f small S n \<Longrightarrow> inner_inv f (insert n small) (insert n S) (Suc n)"
  unfolding inner_inv_def by (auto simp: less_Suc_eq)

lemma inner_inv_free: "inner_inv f small S n \<Longrightarrow> i \<in> S \<Longrightarrow> i \<in> small \<and> inner_inv f (small - {i}) (S - {i}) n"
  unfolding inner_inv_def by auto

lemma inner_inv_next: "inner_inv f small S n \<Longrightarrow> n \<le> n' \<Longrightarrow> inner_inv f small S n'"
  unfolding inner_inv_def by (meson less_le_trans)

lemma inner_inv_assign:
  assumes "inner_inv f small S n" and "f p = None" and "i \<in> S"
  shows "inner_inv (f(p \<mapsto> i)) small (S - {i}) n"
proof -
  have r: "ran (f(p \<mapsto> i)) = insert i (ran f)" using assms(2) by (rule ran_map_upd)
  have "inj_on (f(p \<mapsto> i)) (dom (f(p \<mapsto> i)))"
    using assms unfolding inner_inv_def inj_on_def by (auto simp: ran_def dom_def split: if_splits)
  then show ?thesis using assms unfolding inner_inv_def r by auto
qed

lemma inner_inv_remove:
  assumes "inner_inv f small S n" and "f p = Some i"
  shows "i \<in> small \<and> inner_inv (f(p := None)) (small - {i}) S n"
proof -
  have i: "i \<in> ran f" using assms(2) by (rule ranI)
  have r: "ran (f(p := None)) = ran f - {i}"
  proof (intro equalityI subsetI)
    fix j assume "j \<in> ran f - {i}"
    then obtain q where "f q = Some j" "j \<noteq> i" by (auto simp: ran_def)
    then have "(f(p := None)) q = Some j" using assms(2) by auto
    then show "j \<in> ran (f(p := None))" by (rule ranI)
  qed (use assms in \<open>auto simp: inner_inv_def inj_on_def ran_def dom_def split: if_splits\<close>)
  have "inj_on (f(p := None)) (dom (f(p := None)))"
    using assms unfolding inner_inv_def inj_on_def by (auto split: if_splits)
  then show ?thesis using assms(1) i unfolding inner_inv_def r by auto
qed

definition st_inv :: "ossl \<Rightarrow> nat multiset \<Rightarrow> nat multiset \<Rightarrow> nat set \<Rightarrow> bool" where
  "st_inv st K X S \<longleftrightarrow> refs_inv pk_refs (os_pkey st) K (os_next st) \<and> refs_inv x5_refs (os_x509 st) X (os_next st) \<and>
     inner_inv (inner (os_pkey st)) (os_small st) S (os_next st)"

definition has_error :: "ossl \<Rightarrow> bool" where
  "has_error st \<longleftrightarrow> (\<exists>e \<in> set (os_errors st). e \<noteq> 0)"

text \<open>What the code relies on: a call that fails leaves an error in the queue.\<close>

definition api_reports :: "ossl_api \<Rightarrow> bool" where
  "api_reports api \<longleftrightarrow> (\<forall>c. \<not> api_ok api c \<longrightarrow> (\<exists>e \<in> set (api_errors api c). e \<noteq> 0))"

text \<open>An operation that keeps the error queue or reports into it.\<close>

definition errors_grow :: "ossl \<Rightarrow> ossl \<Rightarrow> bool" where
  "errors_grow st st' \<longleftrightarrow> (has_error st \<longrightarrow> has_error st')"

lemma errors_grow_trans: "errors_grow st st' \<Longrightarrow> errors_grow st' st'' \<Longrightarrow> errors_grow st st''"
  by (simp add: errors_grow_def)

lemma ossl_calls_cases:
  assumes "api_reports api"
  obtains (ok) "ossl_calls api cs st = (True, st)" "\<forall>c \<in> set cs. api_ok api c"
  | (failed) q where "ossl_calls api cs st = (False, st\<lparr>os_errors := q\<rparr>)" "has_error (st\<lparr>os_errors := q\<rparr>)"
proof (induction cs)
  case (Cons c cs)
  show ?case
  proof (cases "api_ok api c")
    case True
    then show ?thesis using Cons by (auto simp: ossl_call_def)
  next
    case False
    then have "has_error (st\<lparr>os_errors := os_errors st @ api_errors api c\<rparr>)"
      using assms by (auto simp: has_error_def api_reports_def)
    then show ?thesis using False Cons.prems(2) by (simp add: ossl_call_def)
  qed
qed auto

lemma ossl_call_calls: "ossl_call api c st = ossl_calls api [c] st"
  by (simp add: split: prod.split)

lemma st_inv_errors [simp]: "st_inv (st\<lparr>os_errors := q\<rparr>) K X S = st_inv st K X S"
  by (simp add: st_inv_def)

text \<open>The operations on the store.\<close>

lemma new_small_ok:
  assumes "api_reports api" and "st_inv st K X S"
  obtains (null) st' where "new_small api c st = (None, st')" "st_inv st' K X S" "has_error st'" "os_pkey st' = os_pkey st" "os_x509 st' = os_x509 st"
  | (new) i st' where "new_small api c st = (Some i, st')" "st_inv st' K X (insert i S)" "i \<notin> S" "os_errors st' = os_errors st" "os_pkey st' = os_pkey st" "os_x509 st' = os_x509 st"
proof (cases "api_ok api c")
  case False
  then show ?thesis using assms
    by (intro null [of "st\<lparr>os_errors := os_errors st @ api_errors api c\<rparr>"])
      (auto simp: new_small_def ossl_call_def has_error_def api_reports_def)
next
  case True
  have "os_next st \<notin> S" using assms(2) unfolding st_inv_def inner_inv_def by blast
  then show ?thesis using True assms(2)
    by (intro new [of "os_next st" "st\<lparr>os_small := insert (os_next st) (os_small st), os_next := os_next st + 1\<rparr>"])
      (auto simp: new_small_def ossl_call_def st_inv_def intro: refs_inv_next inner_inv_new)
qed

lemma free_small_ok:
  assumes "st_inv st K X S" and "i \<in> S"
  obtains st' where "free_small (Some i) st = Some st'" "st_inv st' K X (S - {i})" "os_errors st' = os_errors st"
    "os_pkey st' = os_pkey st" "os_x509 st' = os_x509 st"
  using assms inner_inv_free [of "inner (os_pkey st)" "os_small st" S "os_next st" i]
  by (auto simp: free_small_def st_inv_def intro: that)

lemma new_pkey_ok:
  assumes "api_reports api" and "st_inv st K X S"
  obtains (null) st' where "new_pkey api st = (None, st')" "st_inv st' K X S" "has_error st'"
  | (new) p st' where "new_pkey api st = (Some p, st')" "st_inv st' (add_mset p K) X S" "p \<notin># K" "os_errors st' = os_errors st"
      "os_pkey st' p = Some \<lparr>pk_refs = 1, pk_inner = None\<rparr>"
proof (cases "api_ok api EVP_PKEY_new")
  case False
  then show ?thesis using assms
    by (intro null [of "st\<lparr>os_errors := os_errors st @ api_errors api EVP_PKEY_new\<rparr>"])
      (auto simp: new_pkey_def ossl_call_def has_error_def api_reports_def)
next
  case True
  let ?st = "st\<lparr>os_pkey := (os_pkey st)(os_next st \<mapsto> \<lparr>pk_refs = 1, pk_inner = None\<rparr>), os_next := os_next st + 1\<rparr>"
  have n: "os_pkey st (os_next st) = None" "os_next st \<notin># K" using assms(2) unfolding st_inv_def by (auto dest: refs_invD(5,6))
  then have "(inner (os_pkey st))(os_next st := None) = inner (os_pkey st)" by (auto simp: inner_def fun_eq_iff)
  then have "st_inv ?st (add_mset (os_next st) K) X S"
    using assms(2) by (auto simp: st_inv_def intro: refs_inv_next inner_inv_next refs_inv_new)
  then show ?thesis using True n by (intro new [of "os_next st" ?st]) (auto simp: new_pkey_def ossl_call_def)
qed

lemma new_x509_ok:
  assumes "api_reports api" and "st_inv st K X S"
  obtains (null) st' where "new_x509 api st = (None, st')" "st_inv st' K X S" "has_error st'"
  | (new) x st' c where "new_x509 api st = (Some x, st')" "st_inv st' K (add_mset x X) S" "x \<notin># X" "os_x509 st' x = Some c"
proof (cases "api_ok api X509_new")
  case False
  then show ?thesis using assms
    by (intro null [of "st\<lparr>os_errors := os_errors st @ api_errors api X509_new\<rparr>"])
      (auto simp: new_x509_def ossl_call_def has_error_def api_reports_def)
next
  case True
  let ?c = "\<lparr>x5_refs = 1, x5_pubkey = None, x5_subject = None, x5_issuer = None, x5_not_before = None, x5_not_after = None, x5_signed = None\<rparr>"
  let ?st = "st\<lparr>os_x509 := (os_x509 st)(os_next st \<mapsto> ?c), os_next := os_next st + 1\<rparr>"
  have n: "os_next st \<notin># X" using assms(2) unfolding st_inv_def by (auto dest: refs_invD(6))
  have "st_inv ?st K (add_mset (os_next st) X) S"
    using assms(2) by (auto simp: st_inv_def intro: refs_inv_next inner_inv_next refs_inv_new)
  then show ?thesis using True n by (intro new [of "os_next st" ?st ?c]) (auto simp: new_x509_def ossl_call_def)
qed

lemma pkey_free_ok:
  assumes "st_inv st K X S" and "p \<in># K"
  obtains st' where "pkey_free (Some p) st = Some st'" "st_inv st' (K - {#p#}) X S" "os_errors st' = os_errors st" "os_x509 st' = os_x509 st"
proof -
  have inv: "refs_inv pk_refs (os_pkey st) K (os_next st)" "refs_inv x5_refs (os_x509 st) X (os_next st)"
    "inner_inv (inner (os_pkey st)) (os_small st) S (os_next st)" using assms(1) by (simp_all add: st_inv_def)
  obtain k where k: "os_pkey st p = Some k" using refs_invD(1) [OF inv(1) assms(2)] by blast
  then have ik: "inner (os_pkey st) p = pk_inner k" by (simp add: inner_def)
  show thesis
  proof (cases "1 < pk_refs k")
    case True
    have "(inner (os_pkey st))(p := pk_inner k) = inner (os_pkey st)" using ik by auto
    then have s: "st_inv (st\<lparr>os_pkey := (os_pkey st)(p \<mapsto> k\<lparr>pk_refs := pk_refs k - 1\<rparr>)\<rparr>) (K - {#p#}) X S"
      using inv refs_inv_down [OF inv(1) k True] by (simp add: st_inv_def)
    show ?thesis by (rule that [OF _ s]) (use True k in \<open>auto simp: pkey_free_def\<close>)
  next
    case False
    note rm = refs_inv_remove [OF inv(1) k False]
    show ?thesis
    proof (cases "pk_inner k")
      case None
      have "(inner (os_pkey st))(p := None) = inner (os_pkey st)" using ik None by auto
      then have s: "st_inv (st\<lparr>os_pkey := (os_pkey st)(p := None)\<rparr>) (K - {#p#}) X S" using inv rm by (simp add: st_inv_def)
      show ?thesis by (rule that [OF _ s]) (use False None k in \<open>auto simp: pkey_free_def free_small_def\<close>)
    next
      case (Some i)
      then have s: "i \<in> os_small st" "st_inv (st\<lparr>os_pkey := (os_pkey st)(p := None), os_small := os_small st - {i}\<rparr>) (K - {#p#}) X S"
        using inv rm inner_inv_remove [OF inv(3), of p i] ik by (simp_all add: st_inv_def)
      show ?thesis by (rule that [OF _ s(2)]) (use False Some k s(1) in \<open>auto simp: pkey_free_def free_small_def\<close>)
    qed
  qed
qed

lemma x509_free_ok:
  assumes "st_inv st K X S" and "x \<in># X"
  obtains st' where "x509_free (Some x) st = Some st'" "st_inv st' K (X - {#x#}) S" "os_errors st' = os_errors st" "os_pkey st' = os_pkey st"
    "\<And>c. os_x509 st x = Some c \<Longrightarrow> 1 < x5_refs c \<Longrightarrow> os_x509 st' x = Some (c\<lparr>x5_refs := x5_refs c - 1\<rparr>)"
proof -
  have inv: "refs_inv pk_refs (os_pkey st) K (os_next st)" "refs_inv x5_refs (os_x509 st) X (os_next st)"
    "inner_inv (inner (os_pkey st)) (os_small st) S (os_next st)" using assms(1) by (simp_all add: st_inv_def)
  obtain c where c: "os_x509 st x = Some c" using refs_invD(1) [OF inv(2) assms(2)] by blast
  show thesis
  proof (cases "1 < x5_refs c")
    case True
    have s: "st_inv (st\<lparr>os_x509 := (os_x509 st)(x \<mapsto> c\<lparr>x5_refs := x5_refs c - 1\<rparr>)\<rparr>) K (X - {#x#}) S"
      using inv refs_inv_down [OF inv(2) c True] by (simp add: st_inv_def)
    show ?thesis by (rule that [OF _ s]) (use True c in \<open>auto simp: x509_free_def\<close>)
  next
    case False
    have s: "st_inv (st\<lparr>os_x509 := (os_x509 st)(x := None)\<rparr>) K (X - {#x#}) S"
      using inv refs_inv_remove [OF inv(2) c False] by (simp add: st_inv_def)
    show ?thesis by (rule that [OF _ s]) (use False c in \<open>auto simp: x509_free_def\<close>)
  qed
qed

lemma upd_x509_ok:
  assumes "st_inv st K X S" and "os_x509 st x = Some c" and "x5_refs (f c) = x5_refs c"
  obtains st' where "upd_x509 x f st = Some st'" "st_inv st' K X S" "os_errors st' = os_errors st" "os_pkey st' = os_pkey st" "os_x509 st' x = Some (f c)"
  using assms refs_inv_same [of x5_refs "os_x509 st" X "os_next st" x c "f c"]
  by (auto simp: upd_x509_def st_inv_def intro: that)

lemma certificate_new_ok:
  assumes "st_inv st K X S" and "x \<in># X"
  obtains st' where "certificate_new x st = Some (x, st')" "st_inv st' K (add_mset x X) S" "os_errors st' = os_errors st" "os_pkey st' = os_pkey st"
    "\<And>c. os_x509 st x = Some c \<Longrightarrow> os_x509 st' x = Some (c\<lparr>x5_refs := x5_refs c + 1\<rparr>)"
proof -
  obtain c where c: "os_x509 st x = Some c" using assms unfolding st_inv_def by (blast dest: refs_invD(1))
  show thesis
    using assms c refs_inv_up [of x5_refs "os_x509 st" X "os_next st" x c "c\<lparr>x5_refs := x5_refs c + 1\<rparr>"]
    by (auto simp: certificate_new_def upd_x509_def st_inv_def intro: that)
qed

lemma key_pair_get_reference_ok:
  assumes "st_inv st K X S" and "p \<in># K"
  obtains st' where "key_pair_get_reference p st = Some (p, st')" "st_inv st' (add_mset p K) X S" "os_errors st' = os_errors st" "os_x509 st' = os_x509 st"
proof -
  obtain k where k: "os_pkey st p = Some k" using assms unfolding st_inv_def by (blast dest: refs_invD(1))
  then have "(inner (os_pkey st))(p := pk_inner k) = inner (os_pkey st)" by (auto simp: inner_def)
  then show thesis
    using assms k refs_inv_up [of pk_refs "os_pkey st" K "os_next st" p k "k\<lparr>pk_refs := pk_refs k + 1\<rparr>"]
    by (auto simp: key_pair_get_reference_def upd_pkey_def st_inv_def intro: that)
qed

lemma assign_ok:
  assumes "st_inv st K X S" and "os_pkey st p = Some k" and "pk_inner k = None" and "i \<in> S"
  obtains st' where "upd_pkey p (pk_inner_update (\<lambda>_. Some i)) st = Some st'" "st_inv st' K X (S - {i})" "os_errors st' = os_errors st"
  using assms refs_inv_same [of pk_refs "os_pkey st" K "os_next st" p k "k\<lparr>pk_inner := Some i\<rparr>"]
    inner_inv_assign [of "inner (os_pkey st)" "os_small st" S "os_next st" p i]
  by (auto simp: upd_pkey_def st_inv_def inner_def intro: that)

text \<open>The same for pointers that may be null.\<close>

abbreviation opt_mset :: "nat option \<Rightarrow> nat multiset" where
  "opt_mset q \<equiv> mset_set (set_option q)"

lemma new_small_opt:
  assumes "api_reports api" and "st_inv st K X S"
  obtains q st' where "new_small api c st = (q, st')" "st_inv st' K X (S \<union> set_option q)" "set_option q \<inter> S = {}"
    "q = None \<longrightarrow> has_error st'" "errors_grow st st'" "os_pkey st' = os_pkey st" "os_x509 st' = os_x509 st"
  by (rule new_small_ok [OF assms, of c]) (auto intro: that simp: errors_grow_def has_error_def)

lemma free_small_opt:
  assumes "st_inv st K X (S \<union> set_option q)" and "set_option q \<inter> S = {}"
  obtains st' where "free_small q st = Some st'" "st_inv st' K X S" "os_errors st' = os_errors st" "os_pkey st' = os_pkey st" "os_x509 st' = os_x509 st"
proof (cases q)
  case None
  then show ?thesis using assms by (intro that [of st]) (simp_all add: free_small_def)
next
  case (Some i)
  then obtain st' where "free_small q st = Some st'" "st_inv st' K X (S \<union> set_option q - {i})" "os_errors st' = os_errors st" "os_pkey st' = os_pkey st" "os_x509 st' = os_x509 st"
    using free_small_ok [OF assms(1), of i] by auto
  then show ?thesis using assms(2) Some by (intro that [of st']) auto
qed

lemma new_pkey_opt:
  assumes "api_reports api" and "st_inv st K X S"
  obtains q st' where "new_pkey api st = (q, st')" "st_inv st' (opt_mset q + K) X S" "q = None \<longrightarrow> has_error st'"
    "\<forall>p. q = Some p \<longrightarrow> os_pkey st' p = Some \<lparr>pk_refs = 1, pk_inner = None\<rparr>"
  by (rule new_pkey_ok [OF assms]) (auto intro: that)

lemma pkey_free_opt:
  assumes "st_inv st (opt_mset q + K) X S"
  obtains st' where "pkey_free q st = Some st'" "st_inv st' K X S" "os_errors st' = os_errors st"
proof (cases q)
  case None
  then show ?thesis using assms by (intro that [of st]) (simp_all add: pkey_free_def)
next
  case (Some p)
  then show ?thesis using pkey_free_ok [OF assms, of p] that by auto
qed

lemma x509_free_opt:
  assumes "st_inv st K (opt_mset q + X) S"
  obtains st' where "x509_free q st = Some st'" "st_inv st' K X S" "os_errors st' = os_errors st"
proof (cases q)
  case None
  then show ?thesis using assms by (intro that [of st]) (simp_all add: x509_free_def)
next
  case (Some x)
  then show ?thesis using x509_free_ok [OF assms, of x] that by auto
qed

lemma has_error_cong: "os_errors st' = os_errors st \<Longrightarrow> has_error st' = has_error st"
  by (simp add: has_error_def)

section \<open>Keys and certificates\<close>

lemma log_ssl_errors_loop_ok: "\<exists>e \<in> set q. e \<noteq> 0 \<Longrightarrow> \<exists>q'. log_ssl_errors_loop q = Some q'"
proof (induction q)
  case (Cons e q)
  then show ?case by (subst log_ssl_errors_loop.simps) (auto simp: ERR_get_error_def)
qed simp

lemma log_ssl_errors_ok:
  assumes "has_error st"
  obtains q where "log_ssl_errors st = Some (st\<lparr>os_errors := q\<rparr>)"
  using log_ssl_errors_loop_ok [of "os_errors st"] assms that by (auto simp: log_ssl_errors_def has_error_def)

lemma make_key_rsa:
  assumes rep: "api_reports api" and inv: "st_inv st K X {}"
  obtains (null) st' where "make_key api (RSA_params m e) st = Some (None, st')" "st_inv st' K X {}" "has_error st'"
  | (made) p st' where "make_key api (RSA_params m e) st = Some (Some p, st')" "st_inv st' (add_mset p K) X {}"
proof -
  obtain pkey st1 where 1: "new_pkey api st = (pkey, st1)" "st_inv st1 (opt_mset pkey + K) X {}" "pkey = None \<longrightarrow> has_error st1"
    "\<forall>p. pkey = Some p \<longrightarrow> os_pkey st1 p = Some \<lparr>pk_refs = 1, pk_inner = None\<rparr>" by (rule new_pkey_opt [OF rep inv])
  obtain ex st2 where 2: "new_small api BN_new st1 = (ex, st2)" "st_inv st2 (opt_mset pkey + K) X ({} \<union> set_option ex)"
    "ex = None \<longrightarrow> has_error st2" "errors_grow st1 st2" "os_pkey st2 = os_pkey st1" by (rule new_small_opt [OF rep 1(2), of BN_new])
  obtain rsa st3 where 3: "new_small api RSA_new st2 = (rsa, st3)" "st_inv st3 (opt_mset pkey + K) X ({} \<union> set_option ex \<union> set_option rsa)"
    "set_option rsa \<inter> ({} \<union> set_option ex) = {}" "rsa = None \<longrightarrow> has_error st3" "errors_grow st2 st3" "os_pkey st3 = os_pkey st2"
    by (rule new_small_opt [OF rep 2(2), of RSA_new])
  define r where "r = (if pkey = None \<or> ex = None \<or> rsa = None then (False, st3)
    else ossl_calls api [BN_set_word, RSA_generate_key_ex, EVP_PKEY_assign_RSA] st3)"
  show thesis
  proof (cases "r = (True, st3)")
    case True
    then obtain p x y where n: "pkey = Some p" "ex = Some x" "rsa = Some y" by (auto simp: r_def split: if_splits)
    obtain st4 where 4: "upd_pkey p (pk_inner_update (\<lambda>_. rsa)) st3 = Some st4" "st_inv st4 (add_mset p K) X ({x, y} - {y})"
      using assign_ok [of st3 "add_mset p K" X "{x, y}" p "\<lparr>pk_refs = 1, pk_inner = None\<rparr>" y] 1(4) 2(5) 3(2,6) n by (auto simp: insert_commute)
    have "{x, y} - {y} = {} \<union> set_option ex" using 3(3) n by auto
    then have 5: "st_inv st4 (add_mset p K) X ({} \<union> set_option ex)" using 4(2) by simp
    obtain st5 where "free_small ex st4 = Some st5" "st_inv st5 (add_mset p K) X {}" by (rule free_small_opt [OF 5]) simp
    moreover have "ossl_calls api [BN_set_word, RSA_generate_key_ex, EVP_PKEY_assign_RSA] st3 = (True, st3)"
      using True n by (simp add: r_def del: ossl_calls.simps)
    ultimately show thesis using 4(1) n
      by (intro made) (auto simp: make_key_def 1(1) 2(1) 3(1) simp del: ossl_calls.simps)
  next
    case False
    then obtain q where f: "r = (False, st3\<lparr>os_errors := q\<rparr>)" "has_error (st3\<lparr>os_errors := q\<rparr>)"
    proof (cases "pkey = None \<or> ex = None \<or> rsa = None")
      case True
      then have "has_error st3" using 1(3) 2(3,4) 3(4,5) by (auto simp: errors_grow_def)
      then show ?thesis using True by (intro that [of "os_errors st3"]) (auto simp: r_def)
    next
      case nn: False
      show ?thesis
        by (rule ossl_calls_cases [OF rep, of "[BN_set_word, RSA_generate_key_ex, EVP_PKEY_assign_RSA]" st3])
          (use False nn that in \<open>auto simp: r_def simp del: ossl_calls.simps\<close>)
    qed
    have i4: "st_inv (st3\<lparr>os_errors := q\<rparr>) (opt_mset pkey + K) X (set_option rsa \<union> set_option ex)" using 3(2) by (simp add: Un_commute)
    obtain st4 where 4: "pkey_free pkey (st3\<lparr>os_errors := q\<rparr>) = Some st4" "st_inv st4 K X (set_option rsa \<union> set_option ex)" "os_errors st4 = q"
      by (rule pkey_free_opt [OF i4]) simp
    obtain st5 where 5: "free_small ex st4 = Some st5" "st_inv st5 K X (set_option rsa)" "os_errors st5 = q"
      by (rule free_small_opt [OF 4(2)]) (use 3(3) 4(3) in auto)
    then have i5: "st_inv st5 K X ({} \<union> set_option rsa)" by simp
    obtain st6 where 6: "free_small rsa st5 = Some st6" "st_inv st6 K X {}" "os_errors st6 = q"
      by (rule free_small_opt [OF i5]) (use 5(3) in auto)
    show thesis
    proof (rule null [of st6])
      show "make_key api (RSA_params m e) st = Some (None, st6)"
        using 4(1) 5(1) 6(1) f(1) by (auto simp: make_key_def 1(1) 2(1) 3(1) r_def [symmetric] simp del: ossl_calls.simps)
      show "has_error st6" using f(2) 6(3) by (simp add: has_error_def)
    qed (rule 6(2))
  qed
qed

lemma make_key_ec:
  assumes rep: "api_reports api" and inv: "st_inv st K X {}" and curve: "api_ok api EC_KEY_new_by_curve_name"
  obtains (null) st' where "make_key api (EC_params EC_NIST_P256) st = Some (None, st')" "st_inv st' K X {}" "has_error st'"
  | (made) p st' where "make_key api (EC_params EC_NIST_P256) st = Some (Some p, st')" "st_inv st' (add_mset p K) X {}"
proof -
  obtain pkey st1 where 1: "new_pkey api st = (pkey, st1)" "st_inv st1 (opt_mset pkey + K) X {}" "pkey = None \<longrightarrow> has_error st1"
    "\<forall>p. pkey = Some p \<longrightarrow> os_pkey st1 p = Some \<lparr>pk_refs = 1, pk_inner = None\<rparr>" by (rule new_pkey_opt [OF rep inv])
  obtain ec st2 where 2: "new_small api EC_KEY_new_by_curve_name st1 = (ec, st2)" "st_inv st2 (opt_mset pkey + K) X ({} \<union> set_option ec)"
    "errors_grow st1 st2" "os_pkey st2 = os_pkey st1" by (rule new_small_opt [OF rep 1(2), of EC_KEY_new_by_curve_name])
  obtain y where y: "ec = Some y" using 2(1) curve by (auto simp: new_small_def ossl_call_def)
  define r where "r = (if pkey = None then (False, st2) else ossl_calls api [EC_KEY_generate_key, EVP_PKEY_assign_EC_KEY] st2)"
  show thesis
  proof (cases "r = (True, st2)")
    case True
    then obtain p where n: "pkey = Some p" by (auto simp: r_def split: if_splits)
    obtain st4 where "upd_pkey p (pk_inner_update (\<lambda>_. ec)) st2 = Some st4" "st_inv st4 (add_mset p K) X ({y} - {y})"
      using assign_ok [of st2 "add_mset p K" X "{y}" p "\<lparr>pk_refs = 1, pk_inner = None\<rparr>" y] 1(4) 2(2,4) n y by auto
    moreover have "ossl_calls api [EC_KEY_generate_key, EVP_PKEY_assign_EC_KEY] st2 = (True, st2)"
      using True n by (simp add: r_def del: ossl_calls.simps)
    ultimately show thesis using n y
      by (intro made) (auto simp: make_key_def 1(1) 2(1) simp del: ossl_calls.simps)
  next
    case False
    then obtain q where f: "r = (False, st2\<lparr>os_errors := q\<rparr>)" "has_error (st2\<lparr>os_errors := q\<rparr>)"
    proof (cases "pkey = None")
      case True
      then have "has_error st2" using 1(3) 2(3) by (auto simp: errors_grow_def)
      then show ?thesis using True by (intro that [of "os_errors st2"]) (auto simp: r_def)
    next
      case nn: False
      show ?thesis
        by (rule ossl_calls_cases [OF rep, of "[EC_KEY_generate_key, EVP_PKEY_assign_EC_KEY]" st2])
          (use False nn that in \<open>auto simp: r_def simp del: ossl_calls.simps\<close>)
    qed
    have i4: "st_inv (st2\<lparr>os_errors := q\<rparr>) (opt_mset pkey + K) X ({} \<union> set_option ec)" using 2(2) by simp
    obtain st4 where 4: "pkey_free pkey (st2\<lparr>os_errors := q\<rparr>) = Some st4" "st_inv st4 K X ({} \<union> set_option ec)" "os_errors st4 = q"
      by (rule pkey_free_opt [OF i4]) simp
    obtain st5 where 5: "free_small ec st4 = Some st5" "st_inv st5 K X {}" "os_errors st5 = q"
      by (rule free_small_opt [OF 4(2)]) (use 4(3) in auto)
    show thesis
    proof (rule null [of st5])
      show "make_key api (EC_params EC_NIST_P256) st = Some (None, st5)"
        using 4(1) 5(1) f(1) y by (auto simp: make_key_def 1(1) 2(1) r_def [symmetric] simp del: ossl_calls.simps)
      show "has_error st5" using f(2) 5(3) by (simp add: has_error_def)
    qed (rule 5(2))
  qed
qed

lemma key_pair_generate_ok:
  assumes rep: "api_reports api" and inv: "st_inv st K X {}" and valid: "key_params_is_valid kp = Some True"
    and curve: "api_ok api EC_KEY_new_by_curve_name"
  obtains (null) st' where "key_pair_generate api kp st = Some (None, st')" "st_inv st' K X {}"
  | (made) p st' where "key_pair_generate api kp st = Some (Some p, st')" "st_inv st' (add_mset p K) X {}"
proof -
  consider (null) st' where "make_key api kp st = Some (None, st')" "st_inv st' K X {}" "has_error st'"
    | (made) p st' where "make_key api kp st = Some (Some p, st')" "st_inv st' (add_mset p K) X {}"
  proof (cases kp)
    case (RSA_params m e)
    then show ?thesis using that by (blast intro: make_key_rsa [OF rep inv, of m e])
  next
    case (EC_params c)
    then have "c = EC_NIST_P256" using valid by (simp add: key_params_is_valid_def)
    then show ?thesis using EC_params that by (blast intro: make_key_ec [OF rep inv curve])
  next
    case Uninitialised_params
    then show ?thesis using valid by (simp add: key_params_is_valid_def)
  qed
  then show thesis
  proof cases
    case null
    obtain q where "log_ssl_errors st' = Some (st'\<lparr>os_errors := q\<rparr>)" by (rule log_ssl_errors_ok [OF null(3)])
    then show ?thesis using null(1,2) by (intro that(1) [of "st'\<lparr>os_errors := q\<rparr>"]) (simp_all add: key_pair_generate_def)
  next
    case made
    then show ?thesis by (intro that(2) [of p st']) (simp_all add: key_pair_generate_def)
  qed
qed

lemma make_certificate_error_ok:
  assumes "st_inv st K (add_mset x X) (set_option serial \<union> set_option name)" and "set_option serial \<inter> set_option name = {}" and "has_error st"
  obtains st' where "make_certificate_error serial name (Some x) st = Some (None, st')" "st_inv st' K X {}" "has_error st'"
proof -
  have 0: "st_inv st K (add_mset x X) (set_option name \<union> set_option serial)" using assms(1) by (simp add: Un_commute)
  obtain st1 where 1: "free_small serial st = Some st1" "st_inv st1 K (add_mset x X) ({} \<union> set_option name)" "os_errors st1 = os_errors st"
    by (rule free_small_opt [OF 0]) (use assms(2) in auto)
  obtain st2 where 2: "free_small name st1 = Some st2" "st_inv st2 K (add_mset x X) {}" "os_errors st2 = os_errors st1"
    by (rule free_small_opt [OF 1(2)]) auto
  then have i2: "st_inv st2 K (opt_mset (Some x) + X) {}" by simp
  obtain st3 where 3: "x509_free (Some x) st2 = Some st3" "st_inv st3 K X {}" "os_errors st3 = os_errors st2"
    by (rule x509_free_opt [OF i2])
  show thesis using 1 2 3 assms(3) by (intro that [of st3]) (simp_all add: make_certificate_error_def has_error_def)
qed

text \<open>A certificate with everything set.\<close>

definition cert_complete :: "nat \<Rightarrow> identity_params \<Rightarrow> x509_obj \<Rightarrow> bool" where
  "cert_complete pkey params c \<longleftrightarrow> x5_pubkey c = Some pkey \<and> x5_subject c = Some (c_str (ip_common_name params)) \<and>
     x5_issuer c = Some (c_str (ip_common_name params)) \<and> x5_not_before c = Some (ip_not_before params) \<and>
     x5_not_after c = Some (ip_not_after params) \<and> x5_signed c = Some pkey"

text \<open>
  Each step of \<open>make_certificate\<close> that sets a field: it fails and the code behind \<open>error\<close> frees everything, or the
  rest continues with the field set.
\<close>

definition cert_result :: "nat \<Rightarrow> identity_params \<Rightarrow> nat multiset \<Rightarrow> nat multiset \<Rightarrow> nat \<Rightarrow> (nat option \<times> ossl) option \<Rightarrow> bool" where
  "cert_result pkey params K X x r \<longleftrightarrow>
     (\<exists>st'. r = Some (None, st') \<and> st_inv st' K X {} \<and> has_error st') \<or>
     (\<exists>st' c. r = Some (Some x, st') \<and> st_inv st' K (add_mset x X) {} \<and> os_x509 st' x = Some c \<and> cert_complete pkey params c)"

lemma cert_error_result:
  assumes "st_inv st K (add_mset x X) (set_option serial \<union> set_option name)" and "set_option serial \<inter> set_option name = {}" and "has_error st"
  shows "cert_result pkey params K X x (make_certificate_error serial name (Some x) st)"
  by (rule make_certificate_error_ok [OF assms]) (auto simp: cert_result_def)

lemma cert_set_field:
  assumes rep: "api_reports api" and inv: "st_inv st K (add_mset x X) (set_option serial \<union> set_option name)" and dis: "set_option serial \<inter> set_option name = {}"
    and c: "os_x509 st x = Some c" and f: "x5_refs (f c) = x5_refs c"
    and rest: "\<And>st'. st_inv st' K (add_mset x X) (set_option serial \<union> set_option name) \<Longrightarrow> os_x509 st' x = Some (f c) \<Longrightarrow> cert_result pkey params K X x (k st')"
  shows "cert_result pkey params K X x (case ossl_calls api cs st of (ok, st) \<Rightarrow>
    if \<not> ok then make_certificate_error serial name (Some x) st else upd_x509 x f st \<bind> k)"
proof (rule ossl_calls_cases [OF rep, of cs st])
  assume ok: "ossl_calls api cs st = (True, st)"
  obtain st' where "upd_x509 x f st = Some st'" "st_inv st' K (add_mset x X) (set_option serial \<union> set_option name)" "os_x509 st' x = Some (f c)"
    by (rule upd_x509_ok [where f = f, OF inv c f])
  then show ?thesis using rest ok by simp
next
  fix q assume f: "ossl_calls api cs st = (False, st\<lparr>os_errors := q\<rparr>)" "has_error (st\<lparr>os_errors := q\<rparr>)"
  then show ?thesis using cert_error_result [of "st\<lparr>os_errors := q\<rparr>"] inv dis by simp
qed

lemma make_certificate_named_ok:
  assumes rep: "api_reports api" and inv: "st_inv st K (add_mset x X) (set_option serial)" and c: "os_x509 st x = Some c" "x5_pubkey c = Some pkey"
  shows "cert_result pkey params K X x (make_certificate_named api pkey params x serial st)"
proof -
  obtain name st1 where 1: "new_small api X509_NAME_new st = (name, st1)" "st_inv st1 K (add_mset x X) (set_option serial \<union> set_option name)"
    "set_option name \<inter> set_option serial = {}" "name = None \<longrightarrow> has_error st1" "os_x509 st1 = os_x509 st"
    by (rule new_small_opt [OF rep inv, of X509_NAME_new])
  have dis: "set_option serial \<inter> set_option name = {}" using 1(3) by blast
  show ?thesis
  proof (cases "name = None")
    case True
    then show ?thesis using 1 cert_error_result [OF 1(2) dis] by (simp add: make_certificate_named_def)
  next
    case False
    let ?cn = "c_str (ip_common_name params)"
    have final: "cert_result pkey params K X x (do { st \<leftarrow> free_small serial st; st \<leftarrow> free_small name st; Some (Some x, st) })"
      if i: "st_inv st K (add_mset x X) (set_option serial \<union> set_option name)" and o: "os_x509 st x = Some d" "cert_complete pkey params d" for st d
    proof -
      have i0: "st_inv st K (add_mset x X) (set_option name \<union> set_option serial)" using i by (simp add: Un_commute)
      obtain st1 where a: "free_small serial st = Some st1" "st_inv st1 K (add_mset x X) ({} \<union> set_option name)" "os_x509 st1 = os_x509 st"
        by (rule free_small_opt [OF i0]) (use dis in auto)
      obtain st2 where b: "free_small name st1 = Some st2" "st_inv st2 K (add_mset x X) {}" "os_x509 st2 = os_x509 st1"
        by (rule free_small_opt [OF a(2)]) auto
      show ?thesis using a b o by (auto simp: cert_result_def)
    qed
    show ?thesis unfolding make_certificate_named_def Let_def ossl_call_calls
      apply (simp add: 1(1) False del: ossl_calls.simps)
      apply (rule cert_set_field [OF rep 1(2) dis], simp add: 1(5) c, simp)
      apply (rule cert_set_field [OF rep _ dis], assumption, assumption, simp)+
      apply (rule final, assumption, assumption, simp add: cert_complete_def c)
      done
  qed
qed

lemma make_certificate_ok:
  assumes rep: "api_reports api" and inv: "st_inv st K X {}"
  obtains (null) st' where "make_certificate api pkey params st = Some (None, st')" "st_inv st' K X {}" "has_error st'"
  | (made) x st' c where "make_certificate api pkey params st = Some (Some x, st')" "st_inv st' K (add_mset x X) {}"
      "os_x509 st' x = Some c" "cert_complete pkey params c"
proof (rule new_x509_ok [OF rep inv])
  fix st1 assume "new_x509 api st = (None, st1)" "st_inv st1 K X {}" "has_error st1"
  then show thesis
    by (intro null [of st1]) (simp_all add: make_certificate_def make_certificate_error_def free_small_def x509_free_def)
next
  fix x st1 c assume n: "new_x509 api st = (Some x, st1)" "st_inv st1 K (add_mset x X) {}" "os_x509 st1 x = Some c"
  have i1: "st_inv st1 K (add_mset x X) (set_option None \<union> set_option None)" using n(2) by simp
  have "cert_result pkey params K X x (make_certificate api pkey params st)"
    unfolding make_certificate_def Let_def ossl_call_calls
  proof (simp add: n(1) del: ossl_calls.simps, rule cert_set_field [OF rep i1 _ n(3)])
    fix st2 assume s2: "st_inv st2 K (add_mset x X) (set_option None \<union> set_option None)" "os_x509 st2 x = Some (c\<lparr>x5_pubkey := Some pkey\<rparr>)"
    then have i2: "st_inv st2 K (add_mset x X) {}" by simp
    obtain sn st3 where 3: "new_small api BN_new_serial st2 = (sn, st3)" "st_inv st3 K (add_mset x X) ({} \<union> set_option sn)"
      "sn = None \<longrightarrow> has_error st3" "os_x509 st3 = os_x509 st2" by (rule new_small_opt [OF rep i2, of BN_new_serial])
    show "cert_result pkey params K X x (case new_small api BN_new_serial st2 of (serial_number, st) \<Rightarrow>
        if serial_number = None then make_certificate_error None None (Some x) st
        else case ossl_calls api [BN_pseudo_rand, X509_get_serialNumber, BN_to_ASN1_INTEGER, X509_set_version] st of (ok, st) \<Rightarrow>
          if \<not> ok then make_certificate_error serial_number None (Some x) st else make_certificate_named api pkey params x serial_number st)"
    proof (cases "sn = None")
      case True
      then show ?thesis using 3 cert_error_result [of st3 K x X None None] by simp
    next
      case False
      then obtain y where y: "sn = Some y" by blast
      show ?thesis
      proof (rule ossl_calls_cases [OF rep, of "[BN_pseudo_rand, X509_get_serialNumber, BN_to_ASN1_INTEGER, X509_set_version]" st3])
        assume "ossl_calls api [BN_pseudo_rand, X509_get_serialNumber, BN_to_ASN1_INTEGER, X509_set_version] st3 = (True, st3)"
        then show ?thesis using y 3 s2(2) make_certificate_named_ok [OF rep, of st3 K x X sn "c\<lparr>x5_pubkey := Some pkey\<rparr>" pkey params]
          by (simp del: ossl_calls.simps)
      next
        fix q assume "ossl_calls api [BN_pseudo_rand, X509_get_serialNumber, BN_to_ASN1_INTEGER, X509_set_version] st3 = (False, st3\<lparr>os_errors := q\<rparr>)"
          "has_error (st3\<lparr>os_errors := q\<rparr>)"
        then show ?thesis using y 3 cert_error_result [of "st3\<lparr>os_errors := q\<rparr>" K x X sn None] by (simp del: ossl_calls.simps)
      qed
    qed
  qed simp_all
  then show thesis using that by (auto simp: cert_result_def)
qed

lemma print_cert_ok:
  assumes "api_reports api" and "st_inv st K X {}"
  obtains st' where "print_cert api st = Some st'" "st_inv st' K X {}" "os_x509 st' = os_x509 st"
proof (rule new_small_ok [OF assms, of BIO_new_mem])
  fix st1 assume "new_small api BIO_new_mem st = (None, st1)" "st_inv st1 K X {}" "os_x509 st1 = os_x509 st"
  then show thesis by (intro that [of st1]) (simp_all add: print_cert_def)
next
  fix i st1 assume a: "new_small api BIO_new_mem st = (Some i, st1)" "st_inv st1 K X (insert i {})" "os_x509 st1 = os_x509 st"
  obtain st2 where "free_small (Some i) st1 = Some st2" "st_inv st2 K X (insert i {} - {i})" "os_x509 st2 = os_x509 st1"
    by (rule free_small_ok [OF a(2), of i]) simp_all
  then show thesis using a by (intro that [of st2]) (simp_all add: print_cert_def)
qed

text \<open>The name a certificate gets: a random one if none is asked for.\<close>

abbreviation actual_params :: "string \<Rightarrow> identity_params \<Rightarrow> identity_params" where
  "actual_params rnd params \<equiv> (if ip_common_name params = [] then params\<lparr>ip_common_name := rnd\<rparr> else params)"

lemma certificate_generate_ok:
  assumes rep: "api_reports api" and inv: "st_inv st K X {}"
  obtains (null) st' where "certificate_generate api rnd pkey params st = Some (None, st')" "st_inv st' K X {}"
  | (made) x st' c where "certificate_generate api rnd pkey params st = Some (Some x, st')" "st_inv st' K (add_mset x X) {}"
      "os_x509 st' x = Some c" "cert_complete pkey (actual_params rnd params) c"
proof (rule make_certificate_ok [OF rep inv, of pkey "actual_params rnd params"])
  fix st1 assume a: "make_certificate api pkey (actual_params rnd params) st = Some (None, st1)" "st_inv st1 K X {}" "has_error st1"
  obtain q where "log_ssl_errors st1 = Some (st1\<lparr>os_errors := q\<rparr>)" by (rule log_ssl_errors_ok [OF a(3)])
  then show thesis using a by (intro null [of "st1\<lparr>os_errors := q\<rparr>"]) (simp_all add: certificate_generate_def Let_def)
next
  fix x st1 c assume a: "make_certificate api pkey (actual_params rnd params) st = Some (Some x, st1)" "st_inv st1 K (add_mset x X) {}"
    "os_x509 st1 x = Some c" "cert_complete pkey (actual_params rnd params) c"
  obtain st2 where 2: "print_cert api st1 = Some st2" "st_inv st2 K (add_mset x X) {}" "os_x509 st2 = os_x509 st1" by (rule print_cert_ok [OF rep a(2)])
  obtain st3 where 3: "certificate_new x st2 = Some (x, st3)" "st_inv st3 K (add_mset x (add_mset x X)) {}"
    "os_x509 st3 x = Some (c\<lparr>x5_refs := x5_refs c + 1\<rparr>)"
    by (rule certificate_new_ok [OF 2(2), of x]) (use 2(3) a(3) in auto)
  have pos: "0 < x5_refs c" using a(2,3) refs_invD(3) [of x5_refs "os_x509 st1" "add_mset x X" "os_next st1" x c] by (simp add: st_inv_def)
  obtain st4 where 4: "x509_free (Some x) st3 = Some st4" "st_inv st4 K (add_mset x (add_mset x X) - {#x#}) {}" "os_x509 st4 x = Some c"
    by (rule x509_free_ok [OF 3(2), of x]) (use 3(3) pos in auto)
  show thesis using a 2 3 4 by (intro made [of x st4 c]) (simp_all add: certificate_generate_def Let_def)
qed

section \<open>Identities\<close>

lemma generate_internal_ok:
  assumes rep: "api_reports api" and inv: "st_inv st K X {}" and valid: "key_params_is_valid (ip_key_params params) = Some True"
    and curve: "api_ok api EC_KEY_new_by_curve_name"
  obtains (null) st' where "generate_internal api rnd params st = Some (None, st')" "st_inv st' K X {}"
  | (made) p x st' c where "generate_internal api rnd params st = Some (Some \<lparr>id_key_pair = p, id_cert_chain = [x]\<rparr>, st')"
      "st_inv st' (add_mset p K) (add_mset x X) {}" "os_x509 st' x = Some c" "cert_complete p (actual_params rnd params) c"
proof (rule key_pair_generate_ok [OF rep inv valid curve])
  fix st1 assume "key_pair_generate api (ip_key_params params) st = Some (None, st1)" "st_inv st1 K X {}"
  then show thesis by (intro null [of st1]) (simp_all add: generate_internal_def)
next
  fix p st1 assume a: "key_pair_generate api (ip_key_params params) st = Some (Some p, st1)" "st_inv st1 (add_mset p K) X {}"
  show thesis
  proof (rule certificate_generate_ok [OF rep a(2), of rnd p params])
    fix st2 assume b: "certificate_generate api rnd p params st1 = Some (None, st2)" "st_inv st2 (add_mset p K) X {}"
    obtain st3 where "pkey_free (Some p) st2 = Some st3" "st_inv st3 (add_mset p K - {#p#}) X {}" by (rule pkey_free_ok [OF b(2), of p]) simp_all
    then show thesis using a b by (intro null [of st3]) (simp_all add: generate_internal_def key_pair_destroy_def)
  next
    fix x st2 c assume "certificate_generate api rnd p params st1 = Some (Some x, st2)" "st_inv st2 (add_mset p K) (add_mset x X) {}"
      "os_x509 st2 x = Some c" "cert_complete p (actual_params rnd params) c"
    then show thesis using a by (intro made [of p x st2 c]) (simp_all add: generate_internal_def)
  qed
qed

lemma chain_references_ok:
  assumes "st_inv st K X S" and "set xs \<subseteq> set_mset X"
  obtains st' where "chain_references xs st = Some (xs, st')" "st_inv st' K (mset xs + X) S"
proof -
  have "\<exists>st'. chain_references xs st = Some (xs, st') \<and> st_inv st' K (mset xs + X) S"
    using assms
  proof (induction xs arbitrary: st X)
    case (Cons x xs)
    obtain st1 where 1: "certificate_new x st = Some (x, st1)" "st_inv st1 K (add_mset x X) S"
      by (rule certificate_new_ok [OF Cons.prems(1), of x]) (use Cons.prems(2) in auto)
    obtain st2 where "chain_references xs st1 = Some (xs, st2)" "st_inv st2 K (mset xs + add_mset x X) S"
      using Cons.IH [OF 1(2)] Cons.prems(2) by auto
    then show ?case using 1(1) by (simp add: certificate_get_reference_def)
  qed simp
  then show thesis using that by blast
qed

lemma chain_destroy_ok:
  assumes "st_inv st K (mset xs + X) S"
  obtains st' where "chain_destroy xs st = Some st'" "st_inv st' K X S" "os_pkey st' = os_pkey st"
proof -
  have "\<exists>st'. chain_destroy xs st = Some st' \<and> st_inv st' K X S \<and> os_pkey st' = os_pkey st"
    using assms
  proof (induction xs arbitrary: st)
    case (Cons x xs)
    obtain st1 where 1: "x509_free (Some x) st = Some st1" "st_inv st1 K (mset (x # xs) + X - {#x#}) S" "os_pkey st1 = os_pkey st"
      by (rule x509_free_ok [OF Cons.prems(1), of x]) simp_all
    then show ?case using Cons.IH [of st1] by (simp add: certificate_destroy_def)
  qed simp
  then show thesis using that by blast
qed

text \<open>The references that identities hold.\<close>

abbreviation key_refs :: "ssl_identity list \<Rightarrow> nat multiset" where
  "key_refs ids \<equiv> mset (map id_key_pair ids)"

abbreviation cert_refs :: "ssl_identity list \<Rightarrow> nat multiset" where
  "cert_refs ids \<equiv> mset (concat (map id_cert_chain ids))"

lemma identity_get_reference_ok:
  assumes "st_inv st K X S" and "id_key_pair i \<in># K" and "set (id_cert_chain i) \<subseteq> set_mset X"
  obtains st' where "identity_get_reference i st = Some (i, st')" "st_inv st' (add_mset (id_key_pair i) K) (mset (id_cert_chain i) + X) S"
proof -
  obtain st1 where 1: "key_pair_get_reference (id_key_pair i) st = Some (id_key_pair i, st1)" "st_inv st1 (add_mset (id_key_pair i) K) X S"
    by (rule key_pair_get_reference_ok [OF assms(1,2)])
  obtain st2 where "chain_references (id_cert_chain i) st1 = Some (id_cert_chain i, st2)" "st_inv st2 (add_mset (id_key_pair i) K) (mset (id_cert_chain i) + X) S"
    by (rule chain_references_ok [OF 1(2) assms(3)])
  then show thesis using 1(1) by (intro that [of st2]) (simp_all add: identity_get_reference_def chain_copy_def)
qed

lemma identity_destroy_ok:
  assumes "st_inv st (add_mset (id_key_pair i) K) (mset (id_cert_chain i) + X) S"
  obtains st' where "identity_destroy i st = Some st'" "st_inv st' K X S"
proof -
  obtain st1 where 1: "chain_destroy (id_cert_chain i) st = Some st1" "st_inv st1 (add_mset (id_key_pair i) K) X S" by (rule chain_destroy_ok [OF assms])
  obtain st2 where "pkey_free (Some (id_key_pair i)) st1 = Some st2" "st_inv st2 (add_mset (id_key_pair i) K - {#id_key_pair i#}) X S"
    by (rule pkey_free_ok [OF 1(2), of "id_key_pair i"]) simp_all
  then show thesis using 1(1) by (intro that [of st2]) (simp_all add: identity_destroy_def key_pair_destroy_def)
qed

lemma generate_with_expiration_ok:
  assumes rep: "api_reports api" and inv: "st_inv st K X {}" and valid: "key_params_is_valid kp = Some True"
    and curve: "api_ok api EC_KEY_new_by_curve_name" and now: "- 60 * 60 * 24 \<le> life" and name: "common_name \<noteq> []"
  obtains (null) st' where "generate_with_expiration api rnd now common_name kp life st = Some (None, st')" "st_inv st' K X {}"
  | (made) p x st' c where "generate_with_expiration api rnd now common_name kp life st = Some (Some \<lparr>id_key_pair = p, id_cert_chain = [x]\<rparr>, st')"
      "st_inv st' (add_mset p K) (add_mset x X) {}" "os_x509 st' x = Some c" "x5_subject c = Some (c_str common_name)"
      "x5_not_before c = Some (now - 60 * 60 * 24)" "x5_not_after c = Some (now + life)" "x5_pubkey c = Some p" "x5_signed c = Some p"
proof -
  let ?params = "\<lparr>ip_common_name = common_name, ip_not_before = now + k_certificate_window_in_seconds,
      ip_not_after = now + life, ip_key_params = kp\<rparr>"
  have v: "key_params_is_valid (ip_key_params ?params) = Some True" using valid by simp
  have g: "generate_with_expiration api rnd now common_name kp life st = generate_internal api rnd ?params st"
    using now by (simp add: generate_with_expiration_def k_certificate_window_in_seconds_def Let_def)
  show thesis
    by (rule generate_internal_ok [OF rep inv v curve, of rnd])
      (use that name in \<open>auto simp: g cert_complete_def k_certificate_window_in_seconds_def\<close>)
qed

text \<open>The lifetime of a certificate.\<close>

definition lifetime :: "u64 \<Rightarrow> int" where
  "lifetime expires_ms = (if expires_ms = 0 then 30 * 24 * 60 * 60 else min (uint expires_ms div 1000) (365 * 24 * 60 * 60))"

lemma generate_certificate_eq:
  assumes "key_params_is_valid kp = Some True"
  shows "generate_certificate api rnd now kp expires_ms st = generate_with_expiration api rnd now k_identity_name kp (lifetime expires_ms) st"
proof (cases "expires_ms = 0")
  case True
  then show ?thesis using assms
    by (simp add: generate_certificate_def identity_generate_def k_default_certificate_lifetime_in_seconds_def lifetime_def)
next
  case False
  define e where "e = min (expires_ms div 1000) k_year_in_seconds"
  have u: "uint e = min (uint expires_ms div 1000) (365 * 24 * 60 * 60)"
    by (simp add: e_def k_year_in_seconds_def min_def word_le_def uint_div)
  have b: "0 \<le> uint e" "uint e \<le> 31536000" by (rule uint_ge_0) (simp add: u)
  have "uint e < 2 ^ 63" by (rule le_less_trans [OF b(2)]) simp
  then have "sint e = uint e" by (subst sint_uint) (simp add: signed_take_bit_int_eq_self_iff order_trans [OF _ b(1)])
  then have "sint (min (expires_ms div 1000) k_year_in_seconds) = lifetime expires_ms"
    using u False by (simp add: e_def lifetime_def)
  then show ?thesis using False assms by (simp add: generate_certificate_def Let_def)
qed

lemma lifetime_range: "0 \<le> lifetime e" "lifetime e \<le> 365 * 24 * 60 * 60"
  using uint_ge_0 [of e] by (auto simp: lifetime_def pos_imp_zdiv_nonneg_iff)

lemma k_identity_name_simps: "k_identity_name \<noteq> []" "c_str k_identity_name = k_identity_name"
  by (simp_all add: k_identity_name_def c_str_def)

lemma generate_certificate_ok:
  assumes rep: "api_reports api" and inv: "st_inv st K X {}" and valid: "key_params_is_valid kp = Some True"
    and curve: "api_ok api EC_KEY_new_by_curve_name"
  obtains (null) st' where "generate_certificate api rnd now kp ms st = Some (None, st')" "st_inv st' K X {}"
  | (made) p x st' c where "generate_certificate api rnd now kp ms st = Some (Some \<lparr>id_key_pair = p, id_cert_chain = [x]\<rparr>, st')"
      "st_inv st' (add_mset p K) (add_mset x X) {}" "os_x509 st' x = Some c" "x5_subject c = Some k_identity_name"
      "x5_not_before c = Some (now - 60 * 60 * 24)" "x5_not_after c = Some (now + lifetime ms)" "x5_pubkey c = Some p" "x5_signed c = Some p"
proof -
  have l: "- 60 * 60 * 24 \<le> lifetime ms" using lifetime_range(1) [of ms] by linarith
  show thesis
    by (rule generate_with_expiration_ok [OF rep inv valid curve l k_identity_name_simps(1), of rnd now])
      (use that in \<open>auto simp: generate_certificate_eq [OF valid] k_identity_name_simps\<close>)
qed

text \<open>When every call of OpenSSL succeeds the identity is made.\<close>

lemma ossl_all_ok:
  assumes "\<forall>c. api_ok api c"
  shows "ossl_call api c st = (True, st)" "ossl_calls api cs st = (True, st)"
proof -
  show c: "ossl_call api c st = (True, st)" for c using assms by (simp add: ossl_call_def)
  show "ossl_calls api cs st = (True, st)" by (induction cs) (simp_all add: c)
qed

lemma make_key_all_ok:
  assumes "\<forall>c. api_ok api c" and "key_params_is_valid kp = Some True"
  shows "\<exists>p st'. make_key api kp st = Some (Some p, st')"
  using assms(2) ossl_all_ok [OF assms(1)]
  by (cases kp) (auto simp: make_key_def key_params_is_valid_def new_pkey_def new_small_def upd_pkey_def free_small_def Let_def
      simp del: ossl_calls.simps)

lemma make_certificate_all_ok:
  assumes "\<forall>c. api_ok api c"
  shows "\<exists>x st' c. make_certificate api pkey params st = Some (Some x, st') \<and> os_x509 st' x = Some c \<and> x5_refs c = 1"
  using ossl_all_ok [OF assms]
  by (auto simp: make_certificate_def make_certificate_named_def new_x509_def new_small_def upd_x509_def free_small_def Let_def
      simp del: ossl_calls.simps)

lemma generate_internal_all_ok:
  assumes "\<forall>c. api_ok api c" and "key_params_is_valid (ip_key_params params) = Some True"
  shows "\<exists>i st'. generate_internal api rnd params st = Some (Some i, st')"
proof -
  obtain p st1 where 1: "make_key api (ip_key_params params) st = Some (Some p, st1)" using make_key_all_ok [OF assms] by blast
  obtain x st2 c where "make_certificate api p (actual_params rnd params) st1 = Some (Some x, st2)" "os_x509 st2 x = Some c" "x5_refs c = 1"
    using make_certificate_all_ok [OF assms(1)] by blast
  then show ?thesis using 1 ossl_all_ok [OF assms(1)]
    by (auto simp: generate_internal_def key_pair_generate_def certificate_generate_def print_cert_def new_small_def free_small_def
        certificate_new_def upd_x509_def x509_free_def Let_def)
qed

lemma generate_certificate_all_ok:
  assumes "\<forall>c. api_ok api c" and valid: "key_params_is_valid kp = Some True"
  shows "\<exists>i st'. generate_certificate api rnd now kp ms st = Some (Some i, st')"
proof -
  have "- 60 * 60 * 24 \<le> lifetime ms" using lifetime_range(1) [of ms] by linarith
  then have "\<exists>i st'. generate_with_expiration api rnd now k_identity_name kp (lifetime ms) st = Some (Some i, st')"
    using generate_internal_all_ok [OF assms(1)] valid by (simp add: generate_with_expiration_def k_certificate_window_in_seconds_def Let_def)
  then show ?thesis by (simp add: generate_certificate_eq [OF valid])
qed

section \<open>Use of identities\<close>

text \<open>
  A program that holds identities, single certificates and TLS contexts: it makes identities, takes further references,
  configures contexts and destroys what it holds, in any order.
\<close>

record id_state =
  is_st :: ossl
  is_ids :: "ssl_identity list"
  is_certs :: "nat list"
  is_ctxs :: "(nat option \<times> nat option) list"

definition held_keys :: "id_state \<Rightarrow> nat multiset" where
  "held_keys s = key_refs (is_ids s) + sum_list (map (\<lambda>c. opt_mset (snd c)) (is_ctxs s))"

definition held_certs :: "id_state \<Rightarrow> nat multiset" where
  "held_certs s = cert_refs (is_ids s) + mset (is_certs s) + sum_list (map (\<lambda>c. opt_mset (fst c)) (is_ctxs s))"

definition id_start :: "ossl \<Rightarrow> bool" where
  "id_start st \<longleftrightarrow> os_pkey st = Map.empty \<and> os_x509 st = Map.empty \<and> os_small st = {}"

text \<open>
  The steps of a program whose calls of OpenSSL behave in one of the ways \<open>A\<close>.  What the code needs of them: every call that fails leaves an error
  in the queue (or \<open>log_ssl_errors\<close> does not return), and \<open>EC_KEY_new_by_curve_name\<close> does not fail (or \<open>make_key\<close> uses the null pointer).
\<close>

definition api_usable :: "ossl_api \<Rightarrow> bool" where
  "api_usable api \<longleftrightarrow> api_reports api \<and> api_ok api EC_KEY_new_by_curve_name"

inductive id_step :: "ossl_api set \<Rightarrow> id_state \<Rightarrow> id_state \<Rightarrow> bool" for A where
  made: "api \<in> A \<Longrightarrow> key_params_is_valid kp = Some True \<Longrightarrow>
    generate_certificate api rnd now kp ms (is_st s) = Some (Some i, st') \<Longrightarrow> id_step A s (s\<lparr>is_st := st', is_ids := i # is_ids s\<rparr>)"
| failed: "api \<in> A \<Longrightarrow> key_params_is_valid kp = Some True \<Longrightarrow>
    generate_certificate api rnd now kp ms (is_st s) = Some (None, st') \<Longrightarrow> id_step A s (s\<lparr>is_st := st'\<rparr>)"
| refer: "i \<in> set (is_ids s) \<Longrightarrow> identity_get_reference i (is_st s) = Some (j, st') \<Longrightarrow> id_step A s (s\<lparr>is_st := st', is_ids := j # is_ids s\<rparr>)"
| destroy: "i \<in> set (is_ids s) \<Longrightarrow> identity_destroy i (is_st s) = Some st' \<Longrightarrow> id_step A s (s\<lparr>is_st := st', is_ids := remove1 i (is_ids s)\<rparr>)"
| cert_refer: "x \<in># held_certs s \<Longrightarrow> certificate_get_reference x (is_st s) = Some (y, st') \<Longrightarrow> id_step A s (s\<lparr>is_st := st', is_certs := y # is_certs s\<rparr>)"
| cert_destroy: "x \<in> set (is_certs s) \<Longrightarrow> certificate_destroy x (is_st s) = Some st' \<Longrightarrow> id_step A s (s\<lparr>is_st := st', is_certs := remove1 x (is_certs s)\<rparr>)"
| configure: "api \<in> A \<Longrightarrow> i \<in> set (is_ids s) \<Longrightarrow> configure_identity api i (is_st s) = Some (ok, ctx, st') \<Longrightarrow> id_step A s (s\<lparr>is_st := st', is_ctxs := ctx # is_ctxs s\<rparr>)"
| ctx_free: "ctx \<in> set (is_ctxs s) \<Longrightarrow> ctx_free ctx (is_st s) = Some st' \<Longrightarrow> id_step A s (s\<lparr>is_st := st', is_ctxs := remove1 ctx (is_ctxs s)\<rparr>)"

inductive id_reach :: "ossl_api set \<Rightarrow> id_state \<Rightarrow> bool" for A where
  start: "id_start st \<Longrightarrow> id_reach A \<lparr>is_st = st, is_ids = [], is_certs = [], is_ctxs = []\<rparr>"
| step: "id_reach A s \<Longrightarrow> id_step A s s' \<Longrightarrow> id_reach A s'"

definition id_inv :: "id_state \<Rightarrow> bool" where
  "id_inv s \<longleftrightarrow> st_inv (is_st s) (held_keys s) (held_certs s) {} \<and> (\<forall>i \<in> set (is_ids s). id_cert_chain i \<noteq> [])"

lemma log_ssl_errors_state: "log_ssl_errors st = Some st' \<Longrightarrow> \<exists>q. st' = st\<lparr>os_errors := q\<rparr>"
  by (auto simp: log_ssl_errors_def)

lemma ossl_call_state: "ossl_call api c st = (ok, st') \<Longrightarrow> \<exists>q. st' = st\<lparr>os_errors := q\<rparr>"
  by (cases "api_ok api c") (auto simp: ossl_call_def intro: exI [of _ "os_errors st"])

lemma configure_identity_inv:
  assumes inv: "st_inv st K X S" and k: "id_key_pair i \<in># K" and x: "set (id_cert_chain i) \<subseteq> set_mset X"
    and e: "configure_identity api i st = Some (ok, ctx, st')"
  shows "st_inv st' (opt_mset (snd ctx) + K) (opt_mset (fst ctx) + X) S"
proof -
  obtain y where y: "identity_certificate i = Some y" "y \<in># X"
    using e x by (auto simp: configure_identity_def identity_certificate_def split: list.splits option.splits)
  obtain ok1 st1 where 1: "ossl_call api SSL_CTX_use_certificate st = (ok1, st1)" by (cases "ossl_call api SSL_CTX_use_certificate st")
  then obtain q1 where q1: "st1 = st\<lparr>os_errors := q1\<rparr>" using ossl_call_state by blast
  show ?thesis
  proof (cases ok1)
    case False
    then obtain st2 where "log_ssl_errors st1 = Some st2" "st' = st2" "ctx = (None, None)"
      using e y 1 by (auto simp: configure_identity_def split: Option.bind_splits)
    then show ?thesis using inv q1 by (auto dest!: log_ssl_errors_state)
  next
    case True
    have i1: "st_inv st1 K X S" using inv q1 by simp
    obtain st2 where 2: "certificate_new y st1 = Some (y, st2)" "st_inv st2 K (add_mset y X) S" by (rule certificate_new_ok [OF i1 y(2)])
    then have u2: "upd_x509 y (\<lambda>c. c\<lparr>x5_refs := x5_refs c + 1\<rparr>) st1 = Some st2"
      by (auto simp: certificate_new_def split: Option.bind_splits)
    obtain ok2 st3 where 3: "ossl_call api SSL_CTX_use_PrivateKey st2 = (ok2, st3)" by (cases "ossl_call api SSL_CTX_use_PrivateKey st2")
    then obtain q3 where q3: "st3 = st2\<lparr>os_errors := q3\<rparr>" using ossl_call_state by blast
    show ?thesis
    proof (cases ok2)
      case False
      then obtain st4 where "log_ssl_errors st3 = Some st4" "st' = st4" "ctx = (Some y, None)"
        using e y 1 True u2 3 by (auto simp: configure_identity_def split: Option.bind_splits)
      then show ?thesis using 2 q3 by (auto dest!: log_ssl_errors_state)
    next
      case ok2: True
      have i3: "st_inv st3 K (add_mset y X) S" using 2 q3 by simp
      obtain st4 where 4: "key_pair_get_reference (id_key_pair i) st3 = Some (id_key_pair i, st4)" "st_inv st4 (add_mset (id_key_pair i) K) (add_mset y X) S"
        by (rule key_pair_get_reference_ok [OF i3 k])
      then have "upd_pkey (id_key_pair i) (\<lambda>k. k\<lparr>pk_refs := pk_refs k + 1\<rparr>) st3 = Some st4"
        by (auto simp: key_pair_get_reference_def split: Option.bind_splits)
      then show ?thesis using e y 1 True u2 3 ok2 4(2) by (auto simp: configure_identity_def)
    qed
  qed
qed

lemma ctx_free_inv:
  assumes "st_inv st (opt_mset (snd ctx) + K) (opt_mset (fst ctx) + X) S"
  obtains st' where "ctx_free ctx st = Some st'" "st_inv st' K X S"
proof -
  obtain st1 where 1: "x509_free (fst ctx) st = Some st1" "st_inv st1 (opt_mset (snd ctx) + K) X S" by (rule x509_free_opt [OF assms])
  obtain st2 where "pkey_free (snd ctx) st1 = Some st2" "st_inv st2 K X S" by (rule pkey_free_opt [OF 1(2)])
  then show thesis using 1(1) by (intro that [of st2]) (simp_all add: ctx_free_def)
qed

text \<open>What one of the things a program holds contributes to the references.\<close>

lemma sum_list_remove1: "c \<in> set cs \<Longrightarrow> sum_list (map f cs) = f c + sum_list (map f (remove1 c cs))" for f :: "'c \<Rightarrow> nat multiset"
  by (induction cs) auto

lemma held_remove:
  "i \<in> set ids \<Longrightarrow> key_refs ids = add_mset (id_key_pair i) (key_refs (remove1 i ids))"
  "i \<in> set ids \<Longrightarrow> cert_refs ids = mset (id_cert_chain i) + cert_refs (remove1 i ids)"
  by (induction ids) auto

lemma id_step_inv:
  assumes "id_step A s s'" and "\<forall>api \<in> A. api_usable api" and "id_inv s"
  shows "id_inv s'"
  using assms(1,3)
proof (induction rule: id_step.induct)
  case (made api kp rnd now ms s i st')
  then have inv: "st_inv (is_st s) (held_keys s) (held_certs s) {}" by (simp add: id_inv_def)
  have u: "api_reports api" "api_ok api EC_KEY_new_by_curve_name" using made(1) assms(2) by (auto simp: api_usable_def)
  show ?case
    by (rule generate_certificate_ok [OF u(1) inv made(2) u(2), of rnd now ms])
      (use made(3,4) in \<open>auto simp: id_inv_def held_keys_def held_certs_def\<close>)
next
  case (failed api kp rnd now ms s st')
  then have inv: "st_inv (is_st s) (held_keys s) (held_certs s) {}" by (simp add: id_inv_def)
  have u: "api_reports api" "api_ok api EC_KEY_new_by_curve_name" using failed(1) assms(2) by (auto simp: api_usable_def)
  show ?case
    by (rule generate_certificate_ok [OF u(1) inv failed(2) u(2), of rnd now ms])
      (use failed(3,4) in \<open>auto simp: id_inv_def held_keys_def held_certs_def\<close>)
next
  case (refer i s j st')
  then have inv: "st_inv (is_st s) (held_keys s) (held_certs s) {}" by (simp add: id_inv_def)
  have "id_key_pair i \<in># held_keys s" "set (id_cert_chain i) \<subseteq> set_mset (held_certs s)"
    using refer(1) by (auto simp: held_keys_def held_certs_def)
  then obtain st1 where "identity_get_reference i (is_st s) = Some (i, st1)"
    "st_inv st1 (add_mset (id_key_pair i) (held_keys s)) (mset (id_cert_chain i) + held_certs s) {}"
    using identity_get_reference_ok [OF inv, of i] by blast
  then show ?case using refer by (auto simp: id_inv_def held_keys_def held_certs_def ac_simps)
next
  case (destroy i s st')
  then have "st_inv (is_st s) (add_mset (id_key_pair i) (held_keys (s\<lparr>is_ids := remove1 i (is_ids s)\<rparr>)))
      (mset (id_cert_chain i) + held_certs (s\<lparr>is_ids := remove1 i (is_ids s)\<rparr>)) {}"
    using held_remove [OF destroy(1)] by (simp add: id_inv_def held_keys_def held_certs_def ac_simps)
  then obtain st1 where "identity_destroy i (is_st s) = Some st1"
    "st_inv st1 (held_keys (s\<lparr>is_ids := remove1 i (is_ids s)\<rparr>)) (held_certs (s\<lparr>is_ids := remove1 i (is_ids s)\<rparr>)) {}"
    by (rule identity_destroy_ok)
  then show ?case using destroy by (auto simp: id_inv_def held_keys_def held_certs_def dest: notin_set_remove1 set_remove1_subset [THEN subsetD])
next
  case (cert_refer x s y st')
  then have inv: "st_inv (is_st s) (held_keys s) (held_certs s) {}" by (simp add: id_inv_def)
  obtain st1 where "certificate_new x (is_st s) = Some (x, st1)" "st_inv st1 (held_keys s) (add_mset x (held_certs s)) {}"
    by (rule certificate_new_ok [OF inv cert_refer(1)])
  then show ?case using cert_refer by (auto simp: id_inv_def held_keys_def held_certs_def certificate_get_reference_def)
next
  case (cert_destroy x s st')
  then have inv: "st_inv (is_st s) (held_keys s) (held_certs s) {}" by (simp add: id_inv_def)
  have x: "x \<in># held_certs s" using cert_destroy(1) by (simp add: held_certs_def)
  obtain st1 where "x509_free (Some x) (is_st s) = Some st1" "st_inv st1 (held_keys s) (held_certs s - {#x#}) {}"
    by (rule x509_free_ok [OF inv x])
  moreover have "held_certs s - {#x#} = held_certs (s\<lparr>is_certs := remove1 x (is_certs s)\<rparr>)"
    using cert_destroy(1) by (simp add: held_certs_def)
  ultimately show ?case using cert_destroy by (auto simp: id_inv_def held_keys_def held_certs_def certificate_destroy_def)
next
  case (configure api i s ok ctx st')
  then have inv: "st_inv (is_st s) (held_keys s) (held_certs s) {}" by (simp add: id_inv_def)
  have "st_inv st' (opt_mset (snd ctx) + held_keys s) (opt_mset (fst ctx) + held_certs s) {}"
    by (rule configure_identity_inv [OF inv _ _ configure(3)]) (use configure(2) in \<open>auto simp: held_keys_def held_certs_def\<close>)
  then show ?case using configure by (simp add: id_inv_def held_keys_def held_certs_def ac_simps)
next
  case (ctx_free ctx s st')
  let ?s = "s\<lparr>is_ctxs := remove1 ctx (is_ctxs s)\<rparr>"
  have "st_inv (is_st s) (opt_mset (snd ctx) + held_keys ?s) (opt_mset (fst ctx) + held_certs ?s) {}"
    using ctx_free(3) sum_list_remove1 [OF ctx_free(1), of "\<lambda>c. opt_mset (snd c)"] sum_list_remove1 [OF ctx_free(1), of "\<lambda>c. opt_mset (fst c)"]
    by (simp add: id_inv_def held_keys_def held_certs_def ac_simps)
  then obtain st1 where "ctx_free ctx (is_st s) = Some st1" "st_inv st1 (held_keys ?s) (held_certs ?s) {}" by (rule ctx_free_inv)
  then show ?case using ctx_free by (auto simp: id_inv_def held_keys_def held_certs_def)
qed

lemma id_reach_inv:
  assumes "id_reach A s" and "\<forall>api \<in> A. api_usable api"
  shows "id_inv s"
  using assms(1)
proof (induction rule: id_reach.induct)
  case (start st)
  then show ?case by (simp add: id_inv_def id_start_def held_keys_def held_certs_def st_inv_def refs_inv_def inner_inv_def inner_def [abs_def] ran_def)
qed (rule id_step_inv [OF _ assms(2)])

section \<open>Properties\<close>

text \<open>
  C29. Ownership of keys and certificates: with an OpenSSL in which every call that fails leaves an error in the queue and \<open>EC_KEY_new_by_curve_name\<close>
  does not fail, whatever a program does with identities, certificates and contexts, the reference
  counts of OpenSSL are the numbers of holders, no temporary object is left behind on any path (failures of all the other
  calls included), generation with valid parameters returns, what is held can be referred to again and destroyed without touching a dead object, and
  when nothing is held any more OpenSSL holds no object.
\<close>

theorem identity_ownership:
  assumes "\<forall>api \<in> A. api_reports api \<and> api_ok api EC_KEY_new_by_curve_name" and "id_reach A s"
  shows "(\<forall>p. (case os_pkey (is_st s) p of None \<Rightarrow> 0 | Some k \<Rightarrow> pk_refs k) = count (held_keys s) p) \<and>
    (\<forall>x. (case os_x509 (is_st s) x of None \<Rightarrow> 0 | Some c \<Rightarrow> x5_refs c) = count (held_certs s) x) \<and>
    (\<forall>api \<in> A. key_params_is_valid kp = Some True \<longrightarrow> generate_certificate api rnd now kp ms (is_st s) \<noteq> None) \<and>
    (\<forall>i \<in> set (is_ids s). identity_get_reference i (is_st s) \<noteq> None \<and> identity_destroy i (is_st s) \<noteq> None) \<and>
    (\<forall>x \<in> set (is_certs s). certificate_get_reference x (is_st s) \<noteq> None \<and> certificate_destroy x (is_st s) \<noteq> None) \<and>
    (\<forall>ctx \<in> set (is_ctxs s). ctx_free ctx (is_st s) \<noteq> None) \<and>
    (is_ids s = [] \<and> is_certs s = [] \<and> is_ctxs s = [] \<longrightarrow> id_start (is_st s))"
proof -
  have inv: "st_inv (is_st s) (held_keys s) (held_certs s) {}" using id_reach_inv [OF assms(2)] assms(1) by (simp add: id_inv_def api_usable_def)
  have 0: "generate_certificate api rnd now kp ms (is_st s) \<noteq> None" if "api \<in> A" "key_params_is_valid kp = Some True" for api
    by (rule generate_certificate_ok [OF _ inv that(2), of api rnd now ms]) (use assms(1) that(1) in auto)
  have 1: "identity_get_reference i (is_st s) \<noteq> None \<and> identity_destroy i (is_st s) \<noteq> None" if i: "i \<in> set (is_ids s)" for i
  proof
    show "identity_get_reference i (is_st s) \<noteq> None"
      by (rule identity_get_reference_ok [OF inv, of i]) (use i in \<open>auto simp: held_keys_def held_certs_def\<close>)
    have "st_inv (is_st s) (add_mset (id_key_pair i) (held_keys (s\<lparr>is_ids := remove1 i (is_ids s)\<rparr>)))
        (mset (id_cert_chain i) + held_certs (s\<lparr>is_ids := remove1 i (is_ids s)\<rparr>)) {}"
      using inv held_remove [OF i] by (simp add: held_keys_def held_certs_def ac_simps)
    then show "identity_destroy i (is_st s) \<noteq> None" by (rule identity_destroy_ok) simp
  qed
  have 2: "certificate_get_reference x (is_st s) \<noteq> None \<and> certificate_destroy x (is_st s) \<noteq> None" if "x \<in> set (is_certs s)" for x
  proof -
    have x: "x \<in># held_certs s" using that by (simp add: held_certs_def)
    show ?thesis using certificate_new_ok [OF inv x] x509_free_ok [OF inv x]
      unfolding certificate_get_reference_def certificate_destroy_def by (metis option.discI)
  qed
  have 3: "ctx_free ctx (is_st s) \<noteq> None" if c: "ctx \<in> set (is_ctxs s)" for ctx
  proof -
    let ?s = "s\<lparr>is_ctxs := remove1 ctx (is_ctxs s)\<rparr>"
    have "st_inv (is_st s) (opt_mset (snd ctx) + held_keys ?s) (opt_mset (fst ctx) + held_certs ?s) {}"
      using inv sum_list_remove1 [OF c, of "\<lambda>c. opt_mset (snd c)"] sum_list_remove1 [OF c, of "\<lambda>c. opt_mset (fst c)"]
      by (simp add: held_keys_def held_certs_def ac_simps)
    then show ?thesis by (rule ctx_free_inv) simp
  qed
  have 4: "id_start (is_st s)" if "is_ids s = []" "is_certs s = []" "is_ctxs s = []"
  proof -
    have z: "held_keys s = {#}" "held_certs s = {#}" using that by (simp_all add: held_keys_def held_certs_def)
    then have "os_pkey (is_st s) p = None" "os_x509 (is_st s) p = None" for p
      using inv refs_invD(2,3) unfolding st_inv_def by (metis count_empty less_irrefl not_None_eq)+
    then have "os_pkey (is_st s) = Map.empty" "os_x509 (is_st s) = Map.empty" by auto
    then show ?thesis using inv by (simp add: id_start_def st_inv_def inner_inv_def inner_def [abs_def] ran_def)
  qed
  show ?thesis using inv 0 1 2 3 4 unfolding st_inv_def refs_inv_def by blast
qed

text \<open>
  C31. With an OpenSSL as above, generation with valid key parameters returns, and it makes a certificate if all
  calls of OpenSSL succeed.  A certificate that is made is signed with its own key, bears the name of the library
  and is valid from a day ago on: for thirty days if no lifetime is asked for, for the lifetime that is asked for,
  rounded down to seconds, if that is at most a year, and otherwise for a year at least, two years at most and no longer than asked for.
\<close>

theorem generate_certificate_validity:
  assumes "\<forall>api \<in> A. api_reports api \<and> api_ok api EC_KEY_new_by_curve_name" and "id_reach A s" and "api \<in> A"
    and "key_params_is_valid kp = Some True"
  shows "\<exists>r st'. generate_certificate api rnd now kp ms (is_st s) = Some (r, st') \<and>
    ((\<forall>c. api_ok api c) \<longrightarrow> r \<noteq> None) \<and>
    (\<forall>i. r = Some i \<longrightarrow> (\<exists>x c lifetime_s. id_cert_chain i = [x] \<and> os_x509 st' x = Some c \<and> x5_subject c = Some k_identity_name \<and>
       x5_pubkey c = Some (id_key_pair i) \<and> x5_signed c = Some (id_key_pair i) \<and> x5_not_before c = Some (now - 60 * 60 * 24) \<and>
       x5_not_after c = Some (now + lifetime_s) \<and>
       (ms = 0 \<longrightarrow> lifetime_s = 30 * 24 * 60 * 60) \<and>
       (ms \<noteq> 0 \<and> uint ms div 1000 \<le> 365 * 24 * 60 * 60 \<longrightarrow> lifetime_s = uint ms div 1000) \<and>
       (365 * 24 * 60 * 60 < uint ms div 1000 \<longrightarrow>
          365 * 24 * 60 * 60 \<le> lifetime_s \<and> lifetime_s \<le> 2 * 365 * 24 * 60 * 60 \<and> lifetime_s \<le> uint ms div 1000)))"
proof -
  have inv: "st_inv (is_st s) (held_keys s) (held_certs s) {}" using id_reach_inv [OF assms(2)] assms(1) by (simp add: id_inv_def api_usable_def)
  have u: "api_reports api" "api_ok api EC_KEY_new_by_curve_name" using assms(1,3) by auto
  have all: "\<exists>i st'. generate_certificate api rnd now kp ms (is_st s) = Some (Some i, st')" if "\<forall>c. api_ok api c"
    by (rule generate_certificate_all_ok [OF that assms(4)])
  show ?thesis
  proof (rule generate_certificate_ok [OF u(1) inv assms(4) u(2), of rnd now ms])
    fix st' assume e: "generate_certificate api rnd now kp ms (is_st s) = Some (None, st')"
    then have "\<not> (\<forall>c. api_ok api c)" using all by auto
    then show ?thesis using e by auto
  next
    fix p x st' c assume "generate_certificate api rnd now kp ms (is_st s) = Some (Some \<lparr>id_key_pair = p, id_cert_chain = [x]\<rparr>, st')"
      "os_x509 st' x = Some c" "x5_subject c = Some k_identity_name" "x5_not_before c = Some (now - 60 * 60 * 24)"
      "x5_not_after c = Some (now + lifetime ms)" "x5_pubkey c = Some p" "x5_signed c = Some p"
    then show ?thesis by (auto simp: lifetime_def)
  qed
qed

definition sample_api :: "(ossl_call \<Rightarrow> bool) \<Rightarrow> ossl_api" where
  "sample_api ok = \<lparr>api_ok = ok, api_errors = (\<lambda>_. [1])\<rparr>"

definition empty_ossl :: ossl where
  "empty_ossl = \<lparr>os_pkey = Map.empty, os_x509 = Map.empty, os_small = {}, os_next = 0, os_errors = []\<rparr>"

lemma empty_reach: "id_reach A \<lparr>is_st = empty_ossl, is_ids = [], is_certs = [], is_ctxs = []\<rparr>"
  by (rule id_reach.start) (simp add: id_start_def empty_ossl_def)

lemma sample_api_reports: "api_reports (sample_api ok)"
  by (simp add: api_reports_def sample_api_def)

theorem identity_ownership_witness:
  "\<exists>i st. generate_certificate (sample_api (\<lambda>c. True)) [] 1500000000 (key_params_new KT_ECDSA) 0 empty_ossl = Some (Some i, st) \<and>
     identity_get_reference i st \<noteq> None \<and> identity_destroy i st \<noteq> None"
proof -
  let ?s = "\<lparr>is_st = empty_ossl, is_ids = [], is_certs = [], is_ctxs = []\<rparr>"
  have v: "key_params_is_valid (key_params_new KT_ECDSA) = Some True" by (simp add: key_params_new_def key_params_is_valid_def)
  obtain i st where g: "generate_certificate (sample_api (\<lambda>c. True)) [] 1500000000 (key_params_new KT_ECDSA) 0 (is_st ?s) = Some (Some i, st)"
    using generate_certificate_all_ok [OF _ v, of "sample_api (\<lambda>c. True)" "[]" 1500000000 0 empty_ossl] by (auto simp: sample_api_def)
  have "id_reach {sample_api (\<lambda>c. True)} (?s\<lparr>is_st := st, is_ids := i # is_ids ?s\<rparr>)"
    by (rule id_reach.step [OF empty_reach], rule id_step.made [OF _ v g]) simp
  moreover have "\<forall>api \<in> {sample_api (\<lambda>c. True)}. api_reports api \<and> api_ok api EC_KEY_new_by_curve_name"
    using sample_api_reports by (simp add: sample_api_def)
  ultimately show ?thesis using identity_ownership [of "{sample_api (\<lambda>c. True)}" "?s\<lparr>is_st := st, is_ids := i # is_ids ?s\<rparr>"] g by simp
qed

theorem generate_certificate_validity_witness:
  "\<exists>i st x c. generate_certificate (sample_api (\<lambda>c. True)) [] 1500000000 (key_params_new KT_ECDSA) 5000 empty_ossl = Some (Some i, st) \<and>
     id_cert_chain i = [x] \<and> os_x509 st x = Some c \<and> x5_not_after c = Some 1500000005"
proof -
  have v: "key_params_is_valid (key_params_new KT_ECDSA) = Some True" by (simp add: key_params_new_def key_params_is_valid_def)
  have A: "\<forall>api \<in> {sample_api (\<lambda>c. True)}. api_reports api \<and> api_ok api EC_KEY_new_by_curve_name"
    using sample_api_reports by (simp add: sample_api_def)
  show ?thesis
    using generate_certificate_validity [OF A empty_reach _ v, of "sample_api (\<lambda>c. True)" "[]" 1500000000 5000]
    by (auto simp: sample_api_def)
qed

section \<open>What the code does not do\<close>

text \<open>With an empty error queue \<open>log_ssl_errors\<close> does not return.\<close>

lemma log_ssl_errors_hangs: "log_ssl_errors_loop [] = None"
proof -
  have "log_ssl_errors_loop q = Some q' \<Longrightarrow> q \<noteq> []" for q q'
    by (rule log_ssl_errors_loop.raw_induct [of "\<lambda>q r. q \<noteq> []"]) (auto simp: ERR_get_error_def split: list.splits)
  then show ?thesis by (cases "log_ssl_errors_loop []") auto
qed

text \<open>An error in the queue ends it at once: the error is taken out but not printed, and the ones behind it stay.\<close>

lemma log_ssl_errors_keeps: "e \<noteq> 0 \<Longrightarrow> log_ssl_errors_loop (e # es) = Some es"
  by (subst log_ssl_errors_loop.simps) (simp add: ERR_get_error_def)

text \<open>An EC key that cannot be allocated is used before it is compared with null.\<close>

lemma make_key_null_ec_key:
  "\<not> api_ok api EC_KEY_new_by_curve_name \<Longrightarrow> make_key api (EC_params EC_NIST_P256) st = None"
  by (auto simp: make_key_def new_small_def ossl_call_def split: prod.split)

end
