(* ===== verification/RefCounting.thy ===== *)
theory RefCounting
  imports Prelude "HOL-Library.Multiset" "HOL-Library.Monad_Syntax"
begin

text \<open>
  Reference counting between threads (\<open>src/atomicops.h\<close>, \<open>src/ref_count.h\<close>, \<open>src/ref_counter.h\<close>, \<open>src/ref_counted_base.h\<close>,
  \<open>src/ref_counted_object.h\<close>).  The atomic operations are single steps; \<open>release\<close> is two of them, the decrement
  and the deletion, between which other threads run.
\<close>

section \<open>Atomic operations\<close>

text \<open>\<open>int\<close> is 32 bits wide; the operations wrap.  They return the value after (or, for compare and swap, before) the operation.\<close>

definition atomic_increment :: "u32 \<Rightarrow> u32 \<times> u32" where
  "atomic_increment i = (i + 1, i + 1)"

definition atomic_decrement :: "u32 \<Rightarrow> u32 \<times> u32" where
  "atomic_decrement i = (i - 1, i - 1)"

definition acquire_load :: "u32 \<Rightarrow> u32" where
  "acquire_load i = i"

definition release_store :: "u32 \<Rightarrow> u32 \<Rightarrow> u32" where
  "release_store i v = v"

definition compare_and_swap :: "'v \<Rightarrow> 'v \<Rightarrow> 'v \<Rightarrow> 'v \<times> 'v" where
  "compare_and_swap i old_value new_value = (i, if i = old_value then new_value else i)"

section \<open>Counters and objects\<close>

datatype release_status = k_dropped_last_ref | k_other_refs_remained

definition inc_ref :: "u32 \<Rightarrow> u32" where
  "inc_ref ref_count = snd (atomic_increment ref_count)"

definition dec_ref :: "u32 \<Rightarrow> release_status \<times> u32" where
  "dec_ref ref_count =
     (let (v, ref_count) = atomic_decrement ref_count
      in (if v = 0 then k_dropped_last_ref else k_other_refs_remained, ref_count))"

definition has_one_ref :: "u32 \<Rightarrow> bool" where
  "has_one_ref ref_count \<longleftrightarrow> acquire_load ref_count = 1"

text \<open>The live objects by their counters; \<open>None\<close> is an access to an object that was deleted.\<close>

type_synonym rc_mem = "nat \<Rightarrow> u32 option"

definition object_new :: "nat \<Rightarrow> rc_mem \<Rightarrow> rc_mem" where
  "object_new p mem = mem(p \<mapsto> 0)"

definition add_ref :: "nat \<Rightarrow> rc_mem \<Rightarrow> rc_mem option" where
  "add_ref p mem = do { c \<leftarrow> mem p; Some (mem(p \<mapsto> inc_ref c)) }"

definition release_dec :: "nat \<Rightarrow> rc_mem \<Rightarrow> (release_status \<times> rc_mem) option" where
  "release_dec p mem = do { c \<leftarrow> mem p; let (status, c) = dec_ref c; Some (status, mem(p \<mapsto> c)) }"

definition object_delete :: "nat \<Rightarrow> rc_mem \<Rightarrow> rc_mem option" where
  "object_delete p mem = do { c \<leftarrow> mem p; Some (mem(p := None)) }"

definition object_has_one_ref :: "nat \<Rightarrow> rc_mem \<Rightarrow> bool option" where
  "object_has_one_ref p mem = map_option has_one_ref (mem p)"

text \<open>The whole of \<open>release\<close>, as a thread that is alone runs it.\<close>

definition release :: "nat \<Rightarrow> rc_mem \<Rightarrow> (release_status \<times> rc_mem) option" where
  "release p mem = do {
     (status, mem) \<leftarrow> release_dec p mem;
     mem \<leftarrow> (if status = k_dropped_last_ref then object_delete p mem else Some mem);
     Some (status, mem) }"

section \<open>Threads\<close>

text \<open>
  The state of a program with several threads: the references that threads hold (with multiplicity), objects a thread made
  and has not referred to yet, and threads that dropped the last reference of an object and are about to delete it.
\<close>

record rc_state =
  rc_mem :: rc_mem
  rc_refs :: "(nat \<times> nat) multiset"
  rc_fresh :: "(nat \<times> nat) multiset"
  rc_pending :: "(nat \<times> nat) multiset"

definition on_object :: "nat \<Rightarrow> (nat \<times> nat) multiset \<Rightarrow> nat" where
  "on_object p M = size (filter_mset (\<lambda>x. snd x = p) M)"

text \<open>
  The conventional use: a thread only touches an object it holds a reference to (or has just made), drops each
  reference once, and may hand a reference to another thread; there are fewer than \<open>2\<^sup>3\<^sup>2\<close> references.
\<close>

inductive rc_step :: "rc_state \<Rightarrow> rc_state \<Rightarrow> bool" where
  new: "rc_mem s p = None \<Longrightarrow> rc_step s (s\<lparr>rc_mem := object_new p (rc_mem s), rc_fresh := add_mset (t, p) (rc_fresh s)\<rparr>)"
| first_ref: "(t, p) \<in># rc_fresh s \<Longrightarrow> size (rc_refs s) + 1 < 2 ^ 32 \<Longrightarrow> add_ref p (rc_mem s) = Some m \<Longrightarrow>
    rc_step s (s\<lparr>rc_mem := m, rc_fresh := rc_fresh s - {#(t, p)#}, rc_refs := add_mset (t, p) (rc_refs s)\<rparr>)"
| ref: "(t, p) \<in># rc_refs s \<Longrightarrow> size (rc_refs s) + 1 < 2 ^ 32 \<Longrightarrow> add_ref p (rc_mem s) = Some m \<Longrightarrow>
    rc_step s (s\<lparr>rc_mem := m, rc_refs := add_mset (t, p) (rc_refs s)\<rparr>)"
| hand_over: "(t, p) \<in># rc_refs s \<Longrightarrow> rc_step s (s\<lparr>rc_refs := add_mset (t', p) (rc_refs s - {#(t, p)#})\<rparr>)"
| drop_last: "(t, p) \<in># rc_refs s \<Longrightarrow> release_dec p (rc_mem s) = Some (k_dropped_last_ref, m) \<Longrightarrow>
    rc_step s (s\<lparr>rc_mem := m, rc_refs := rc_refs s - {#(t, p)#}, rc_pending := add_mset (t, p) (rc_pending s)\<rparr>)"
| drop_other: "(t, p) \<in># rc_refs s \<Longrightarrow> release_dec p (rc_mem s) = Some (k_other_refs_remained, m) \<Longrightarrow>
    rc_step s (s\<lparr>rc_mem := m, rc_refs := rc_refs s - {#(t, p)#}\<rparr>)"
| delete: "(t, p) \<in># rc_pending s \<Longrightarrow> object_delete p (rc_mem s) = Some m \<Longrightarrow>
    rc_step s (s\<lparr>rc_mem := m, rc_pending := rc_pending s - {#(t, p)#}\<rparr>)"

inductive rc_reach :: "rc_state \<Rightarrow> bool" where
  start: "rc_reach \<lparr>rc_mem = Map.empty, rc_refs = {#}, rc_fresh = {#}, rc_pending = {#}\<rparr>"
| step: "rc_reach s \<Longrightarrow> rc_step s s' \<Longrightarrow> rc_reach s'"

section \<open>The invariant\<close>

text \<open>
  A live object has as many references as its counter says; without a reference there is exactly one thread that has
  just made it or is about to delete it, and with one there is none.  A dead object is known to nobody.
\<close>

definition rc_ok :: "rc_state \<Rightarrow> nat \<Rightarrow> bool" where
  "rc_ok s p \<longleftrightarrow>
     (case rc_mem s p of
        None \<Rightarrow> on_object p (rc_refs s) = 0 \<and> on_object p (rc_fresh s) = 0 \<and> on_object p (rc_pending s) = 0
      | Some c \<Rightarrow> unat c = on_object p (rc_refs s) \<and> on_object p (rc_fresh s) + on_object p (rc_pending s) = (if on_object p (rc_refs s) = 0 then 1 else 0))"

definition rc_inv :: "rc_state \<Rightarrow> bool" where
  "rc_inv s \<longleftrightarrow> (\<forall>p. rc_ok s p) \<and> size (rc_refs s) < 2 ^ 32"

lemma on_object_add [simp]: "on_object p (add_mset (t, q) M) = on_object p M + of_bool (q = p)"
  by (simp add: on_object_def)

lemma on_object_remove: "(t, q) \<in># M \<Longrightarrow> on_object p (M - {#(t, q)#}) = on_object p M - of_bool (q = p)"
  by (auto simp: on_object_def filter_diff_mset size_Diff_singleton)

lemma on_object_pos: "(t, p) \<in># M \<Longrightarrow> 0 < on_object p M"
proof -
  assume "(t, p) \<in># M"
  then have "(t, p) \<in># filter_mset (\<lambda>x. snd x = p) M" by simp
  then show ?thesis unfolding on_object_def by (metis empty_iff nonempty_has_size set_mset_empty)
qed

lemma on_object_le: "on_object p M \<le> size M"
  by (simp add: on_object_def size_filter_mset_lesseq)

lemma on_object_empty [simp]: "on_object p {#} = 0"
  by (simp add: on_object_def)

lemma rc_ok_cong:
  "rc_mem s' q = rc_mem s q \<Longrightarrow> on_object q (rc_refs s') = on_object q (rc_refs s) \<Longrightarrow> on_object q (rc_fresh s') = on_object q (rc_fresh s) \<Longrightarrow>
   on_object q (rc_pending s') = on_object q (rc_pending s) \<Longrightarrow> rc_ok s' q = rc_ok s q"
  by (simp only: rc_ok_def)

lemma rc_live: "rc_ok s p \<Longrightarrow> 0 < on_object p (rc_refs s) + on_object p (rc_fresh s) + on_object p (rc_pending s) \<Longrightarrow> \<exists>c. rc_mem s p = Some c"
  by (cases "rc_mem s p") (auto simp: rc_ok_def)

text \<open>An operation on the object \<open>p\<close> leaves the others as they are.\<close>

lemma rc_inv_at:
  assumes "rc_inv s" and "\<And>q. q \<noteq> p \<Longrightarrow> rc_mem s' q = rc_mem s q"
    and "\<And>q. q \<noteq> p \<Longrightarrow> on_object q (rc_refs s') = on_object q (rc_refs s)" and "\<And>q. q \<noteq> p \<Longrightarrow> on_object q (rc_fresh s') = on_object q (rc_fresh s)"
    and "\<And>q. q \<noteq> p \<Longrightarrow> on_object q (rc_pending s') = on_object q (rc_pending s)" and "rc_ok s' p" and "size (rc_refs s') < 2 ^ 32"
  shows "rc_inv s'"
proof -
  have "rc_ok s' q" for q
    using assms rc_ok_cong [of s' q s] by (cases "q = p") (simp_all add: rc_inv_def)
  then show ?thesis using assms(7) by (simp add: rc_inv_def)
qed

lemma add_ref_eq: "add_ref p mem = map_option (\<lambda>c. mem(p \<mapsto> c + 1)) (mem p)"
  by (cases "mem p") (simp_all add: add_ref_def inc_ref_def atomic_increment_def)

lemma release_dec_eq:
  "release_dec p mem = map_option (\<lambda>c. (if c = 1 then k_dropped_last_ref else k_other_refs_remained, mem(p \<mapsto> c - 1))) (mem p)"
  by (cases "mem p") (simp_all add: release_dec_def dec_ref_def atomic_decrement_def)

lemma unat_inc: "Suc (unat c) < 2 ^ 32 \<Longrightarrow> unat (c + 1) = Suc (unat c)" for c :: u32
  by (simp add: unat_word_ariths(1))

lemma unat_dec: "0 < unat c \<Longrightarrow> unat (c - 1) = unat c - 1" for c :: u32
  by (cases "c = 0") (simp_all add: unat_minus_one)

lemma unat_one_iff: "c = 1 \<longleftrightarrow> unat c = 1" for c :: u32
  by (metis unsigned_1 unsigned_word_eqI)

lemma rc_step_inv:
  assumes "rc_step s s'" and "rc_inv s"
  shows "rc_inv s'"
  using assms
proof (induction rule: rc_step.induct)
  case (new s p t)
  have "rc_ok s p" using new(2) by (simp add: rc_inv_def)
  with new show ?case by (intro rc_inv_at [OF new(2), of p]) (auto simp: rc_ok_def object_new_def rc_inv_def)
next
  case (first_ref t p s m)
  have f: "0 < on_object p (rc_fresh s)" by (rule on_object_pos [OF first_ref(1)])
  have ok: "rc_ok s p" using first_ref(4) by (simp add: rc_inv_def)
  obtain c where c: "rc_mem s p = Some c" "m = (rc_mem s)(p \<mapsto> c + 1)" using first_ref(3) by (auto simp: add_ref_eq)
  then have "unat c = 0" "on_object p (rc_refs s) = 0" "on_object p (rc_fresh s) = 1" "on_object p (rc_pending s) = 0"
    using ok f by (auto simp: rc_ok_def split: if_splits)
  then show ?case using c first_ref(1,2)
    by (intro rc_inv_at [OF first_ref(4), of p]) (auto simp: rc_ok_def on_object_remove unat_inc)
next
  case (ref t p s m)
  have ok: "rc_ok s p" using ref(4) by (simp add: rc_inv_def)
  have r: "0 < on_object p (rc_refs s)" by (rule on_object_pos [OF ref(1)])
  obtain c where c: "rc_mem s p = Some c" "m = (rc_mem s)(p \<mapsto> c + 1)" using ref(3) by (auto simp: add_ref_eq)
  then have u: "unat c = on_object p (rc_refs s)" using ok by (simp add: rc_ok_def)
  have "Suc (unat c) < 2 ^ 32" using ref(2) on_object_le [of p "rc_refs s"] u by simp
  then show ?case using c ref(2) ok r u
    by (intro rc_inv_at [OF ref(4), of p]) (auto simp: rc_ok_def unat_inc)
next
  case (hand_over t p s t')
  have ok: "rc_ok s p" using hand_over(2) by (simp add: rc_inv_def)
  have r: "0 < on_object p (rc_refs s)" by (rule on_object_pos [OF hand_over(1)])
  have "size (add_mset (t', p) (rc_refs s - {#(t, p)#})) = size (rc_refs s)"
    using hand_over(1) by (simp add: size_Diff_singleton nonempty_has_size [symmetric])
      (metis Suc_pred size_eq_0_iff_empty empty_iff set_mset_empty not_gr0)
  moreover have "size (rc_refs s) < 2 ^ 32" using hand_over(2) by (simp add: rc_inv_def)
  moreover have "rc_ok (s\<lparr>rc_refs := add_mset (t', p) (rc_refs s - {#(t, p)#})\<rparr>) p = rc_ok s p"
    using hand_over(1) r by (intro rc_ok_cong) (simp_all add: on_object_remove)
  ultimately show ?case using ok hand_over(1)
    by (intro rc_inv_at [OF hand_over(2), of p]) (simp_all add: on_object_remove)
next
  case (drop_last t p s m)
  have ok: "rc_ok s p" using drop_last(3) by (simp add: rc_inv_def)
  have r: "0 < on_object p (rc_refs s)" by (rule on_object_pos [OF drop_last(1)])
  obtain c where c: "rc_mem s p = Some c" "m = (rc_mem s)(p \<mapsto> c - 1)" "c = 1" using drop_last(2) by (auto simp: release_dec_eq split: if_splits)
  then have "on_object p (rc_refs s) = 1" "on_object p (rc_fresh s) = 0" "on_object p (rc_pending s) = 0" using ok by (auto simp: rc_ok_def)
  then show ?case using c drop_last(1,3) size_Diff_singleton [OF drop_last(1)]
    by (intro rc_inv_at [OF drop_last(3), of p]) (auto simp: rc_ok_def on_object_remove rc_inv_def)
next
  case (drop_other t p s m)
  have ok: "rc_ok s p" using drop_other(3) by (simp add: rc_inv_def)
  have r: "0 < on_object p (rc_refs s)" by (rule on_object_pos [OF drop_other(1)])
  obtain c where c: "rc_mem s p = Some c" "m = (rc_mem s)(p \<mapsto> c - 1)" "c \<noteq> 1" using drop_other(2) by (auto simp: release_dec_eq split: if_splits)
  then have "unat c = on_object p (rc_refs s)" "unat c \<noteq> 1" "on_object p (rc_fresh s) + on_object p (rc_pending s) = 0"
    using ok r by (auto simp: rc_ok_def unat_one_iff)
  then show ?case using c r drop_other(1,3) size_Diff_singleton [OF drop_other(1)]
    by (intro rc_inv_at [OF drop_other(3), of p]) (auto simp: rc_ok_def on_object_remove rc_inv_def unat_dec)
next
  case (delete t p s m)
  have ok: "rc_ok s p" using delete(3) by (simp add: rc_inv_def)
  have r: "0 < on_object p (rc_pending s)" by (rule on_object_pos [OF delete(1)])
  obtain c where c: "rc_mem s p = Some c" "m = (rc_mem s)(p := None)" using delete(2) by (auto simp: object_delete_def split: Option.bind_splits)
  then have "on_object p (rc_refs s) = 0" "on_object p (rc_fresh s) = 0" "on_object p (rc_pending s) = 1"
    using ok r by (auto simp: rc_ok_def split: if_splits)
  then show ?case using c delete(1,3)
    by (intro rc_inv_at [OF delete(3), of p]) (auto simp: rc_ok_def on_object_remove rc_inv_def)
qed

lemma rc_reach_inv: "rc_reach s \<Longrightarrow> rc_inv s"
  by (induction rule: rc_reach.induct) (simp add: rc_inv_def rc_ok_def, rule rc_step_inv)

section \<open>Properties\<close>

text \<open>
  C34. Reference counting: however threads interleave, an object that somebody refers to is alive, so taking, testing and
  dropping a reference and the deletion by the thread that dropped the last one never touch a deleted object; each object is
  deleted once, by exactly one thread, after the last reference is gone; a thread that sees one reference while it
  holds one is the only holder; and when nobody holds or is about to delete anything, no object is left.
\<close>

theorem reference_counting_safe:
  assumes "rc_reach s"
  shows "((t, p) \<in># rc_refs s \<longrightarrow> add_ref p (rc_mem s) \<noteq> None \<and> release_dec p (rc_mem s) \<noteq> None \<and> object_has_one_ref p (rc_mem s) \<noteq> None) \<and>
    ((t, p) \<in># rc_fresh s \<longrightarrow> add_ref p (rc_mem s) \<noteq> None) \<and>
    ((t, p) \<in># rc_pending s \<longrightarrow> object_delete p (rc_mem s) \<noteq> None \<and> on_object p (rc_pending s) = 1 \<and> on_object p (rc_refs s) = 0) \<and>
    ((t, p) \<in># rc_refs s \<and> object_has_one_ref p (rc_mem s) = Some True \<longrightarrow> filter_mset (\<lambda>x. snd x = p) (rc_refs s) = {#(t, p)#}) \<and>
    (rc_refs s = {#} \<and> rc_fresh s = {#} \<and> rc_pending s = {#} \<longrightarrow> rc_mem s = Map.empty)"
proof -
  have ok: "rc_ok s q" for q using rc_reach_inv [OF assms] by (simp add: rc_inv_def)
  have live: "\<exists>c. rc_mem s p = Some c" if "(t, p) \<in># rc_refs s \<or> (t, p) \<in># rc_fresh s \<or> (t, p) \<in># rc_pending s"
    using that on_object_pos [of t p "rc_refs s"] on_object_pos [of t p "rc_fresh s"] on_object_pos [of t p "rc_pending s"]
    by (intro rc_live [OF ok]) auto
  have pend: "on_object p (rc_pending s) = 1 \<and> on_object p (rc_refs s) = 0" if h: "(t, p) \<in># rc_pending s"
    using ok [of p] live on_object_pos [OF h] h by (auto simp: rc_ok_def split: if_splits)
  have one: "filter_mset (\<lambda>x. snd x = p) (rc_refs s) = {#(t, p)#}" if h: "(t, p) \<in># rc_refs s" "object_has_one_ref p (rc_mem s) = Some True"
  proof -
    have "on_object p (rc_refs s) = 1" using ok [of p] h(2) by (auto simp: rc_ok_def object_has_one_ref_def has_one_ref_def acquire_load_def)
    then have "size (filter_mset (\<lambda>x. snd x = p) (rc_refs s)) = 1" by (simp add: on_object_def)
    moreover have "(t, p) \<in># filter_mset (\<lambda>x. snd x = p) (rc_refs s)" using h(1) by simp
    ultimately show ?thesis by (metis One_nat_def multi_member_split add_mset_eq_single size_1_singleton_mset)
  qed
  have none: "rc_mem s = Map.empty" if "rc_refs s = {#}" "rc_fresh s = {#}" "rc_pending s = {#}"
  proof
    fix q show "rc_mem s q = None" using ok [of q] that by (auto simp: rc_ok_def split: option.splits)
  qed
  show ?thesis using live pend one none by (auto simp: add_ref_eq release_dec_eq object_has_one_ref_def object_delete_def)
qed

theorem reference_counting_safe_witness:
  "add_ref 7 (rc_mem \<lparr>rc_mem = Map.empty(7 \<mapsto> 1), rc_refs = {#(1, 7)#}, rc_fresh = {#}, rc_pending = {#}\<rparr>) \<noteq> None"
proof -
  let ?a = "\<lparr>rc_mem = Map.empty, rc_refs = {#}, rc_fresh = {#}, rc_pending = {#}\<rparr>"
  let ?b = "\<lparr>rc_mem = Map.empty(7 \<mapsto> 0), rc_refs = {#}, rc_fresh = {#(1, 7)#}, rc_pending = {#}\<rparr>"
  let ?c = "\<lparr>rc_mem = Map.empty(7 \<mapsto> 1), rc_refs = {#(1, 7)#}, rc_fresh = {#}, rc_pending = {#}\<rparr>"
  have "rc_step ?a ?b" using rc_step.new [of ?a 7 1] by (simp add: object_new_def)
  moreover have "rc_step ?b ?c" using rc_step.first_ref [of 1 7 ?b "Map.empty(7 \<mapsto> 1)"] by (simp add: add_ref_eq)
  ultimately have "rc_reach ?c" using rc_reach.start rc_reach.step by blast
  then show ?thesis using reference_counting_safe [of ?c 1 7] by simp
qed

text \<open>
  \<open>release\<close> of a thread that is alone deletes the object with the last reference and says so.
\<close>

lemma release_last: "mem p = Some 1 \<Longrightarrow> release p mem = Some (k_dropped_last_ref, mem(p := None))"
  by (simp add: release_def release_dec_eq object_delete_def)

lemma release_other: "mem p = Some c \<Longrightarrow> c \<noteq> 1 \<Longrightarrow> release p mem = Some (k_other_refs_remained, mem(p \<mapsto> c - 1))"
  by (simp add: release_def release_dec_eq)

end
