(* ===== verification/Locks.thy ===== *)
theory Locks
  imports RefCounting "HOL-Library.Signed_Division"
begin

text \<open>
  Locks and events (\<open>src/critical_section.{h,cpp}\<close>, \<open>src/event.{h,cpp}\<close>).  The recursive mutex of POSIX is its owner and
  the number of times it is locked; what runs under the mutex of an event is one step.
\<close>

section \<open>Critical sections\<close>

record critical_section =
  cs_owner :: "nat option"
  cs_count :: nat

definition critical_section_new :: critical_section where
  "critical_section_new = \<lparr>cs_owner = None, cs_count = 0\<rparr>"

text \<open>\<open>None\<close>: the thread has to wait.\<close>

definition cs_enter :: "nat \<Rightarrow> critical_section \<Rightarrow> critical_section option" where
  "cs_enter t cs =
     (case cs_owner cs of
        None \<Rightarrow> Some \<lparr>cs_owner = Some t, cs_count = 1\<rparr>
      | Some u \<Rightarrow> if u = t then Some (cs\<lparr>cs_count := cs_count cs + 1\<rparr>) else None)"

definition cs_try_enter :: "nat \<Rightarrow> critical_section \<Rightarrow> bool \<times> critical_section" where
  "cs_try_enter t cs = (case cs_enter t cs of None \<Rightarrow> (False, cs) | Some cs' \<Rightarrow> (True, cs'))"

text \<open>The mutex refuses a thread that is not its owner; the result is ignored.\<close>

definition cs_leave :: "nat \<Rightarrow> critical_section \<Rightarrow> critical_section" where
  "cs_leave t cs =
     (if cs_owner cs \<noteq> Some t then cs
      else if cs_count cs = 1 then \<lparr>cs_owner = None, cs_count = 0\<rparr>
      else cs\<lparr>cs_count := cs_count cs - 1\<rparr>)"

lemma cs_leave_enter: "cs_enter t cs = Some cs' \<Longrightarrow> (cs_owner cs = None \<longrightarrow> cs_count cs = 0) \<Longrightarrow> (cs_owner cs \<noteq> None \<longrightarrow> 0 < cs_count cs) \<Longrightarrow> cs_leave t cs' = cs"
  by (cases cs) (auto simp: cs_enter_def cs_leave_def split: option.splits if_splits)

section \<open>The global lock\<close>

definition global_lock_new :: u32 where
  "global_lock_new = 0"

text \<open>One turn of the loop of \<open>lock\<close>: whether the lock was taken.\<close>

definition global_lock_try :: "u32 \<Rightarrow> bool \<times> u32" where
  "global_lock_try lock_acquired = (let (old, lock_acquired) = compare_and_swap lock_acquired 0 1 in (old = 0, lock_acquired))"

text \<open>Whether the lock was held, and the value; a warning is printed if it was not.\<close>

definition global_lock_unlock :: "u32 \<Rightarrow> bool \<times> u32" where
  "global_lock_unlock lock_acquired = (let (old_value, lock_acquired) = compare_and_swap lock_acquired 1 0 in (old_value = 1, lock_acquired))"

datatype lock_pc = Outside | Spinning | Inside

record lock_state =
  ls_value :: u32
  ls_pc :: "nat \<Rightarrow> lock_pc"

inductive lock_step :: "lock_state \<Rightarrow> lock_state \<Rightarrow> bool" where
  begin_lock: "ls_pc s t = Outside \<Longrightarrow> lock_step s (s\<lparr>ls_pc := (ls_pc s)(t := Spinning)\<rparr>)"
| taken: "ls_pc s t = Spinning \<Longrightarrow> global_lock_try (ls_value s) = (True, v) \<Longrightarrow> lock_step s (s\<lparr>ls_value := v, ls_pc := (ls_pc s)(t := Inside)\<rparr>)"
| busy: "ls_pc s t = Spinning \<Longrightarrow> global_lock_try (ls_value s) = (False, v) \<Longrightarrow> lock_step s (s\<lparr>ls_value := v\<rparr>)"
| unlock: "ls_pc s t = Inside \<Longrightarrow> global_lock_unlock (ls_value s) = (ok, v) \<Longrightarrow> lock_step s (s\<lparr>ls_value := v, ls_pc := (ls_pc s)(t := Outside)\<rparr>)"

inductive lock_reach :: "lock_state \<Rightarrow> bool" where
  start: "lock_reach \<lparr>ls_value = global_lock_new, ls_pc = (\<lambda>_. Outside)\<rparr>"
| step: "lock_reach s \<Longrightarrow> lock_step s s' \<Longrightarrow> lock_reach s'"

definition lock_inv :: "lock_state \<Rightarrow> bool" where
  "lock_inv s \<longleftrightarrow> ls_value s = 0 \<and> (\<forall>t. ls_pc s t \<noteq> Inside) \<or> ls_value s = 1 \<and> (\<exists>t. \<forall>u. ls_pc s u = Inside \<longleftrightarrow> u = t)"

lemma lock_step_inv: "lock_step s s' \<Longrightarrow> lock_inv s \<Longrightarrow> lock_inv s'"
proof (induction rule: lock_step.induct)
  case (begin_lock s t)
  then show ?case unfolding lock_inv_def by (auto split: if_splits) (metis lock_pc.distinct(3))
next
  case (taken s t v)
  then have "ls_value s = 0" "v = 1" by (auto simp: global_lock_try_def compare_and_swap_def split: if_splits)
  then show ?case using taken unfolding lock_inv_def by auto
next
  case (busy s t v)
  then have "v = ls_value s" by (auto simp: global_lock_try_def compare_and_swap_def split: if_splits)
  then show ?case using busy by (simp add: lock_inv_def)
next
  case (unlock s t ok v)
  then have "ls_value s = 1" "v = 0" "\<forall>u. ls_pc s u = Inside \<longleftrightarrow> u = t"
    unfolding lock_inv_def by (auto simp: global_lock_unlock_def compare_and_swap_def split: if_splits)
  then show ?case unfolding lock_inv_def by auto
qed

lemma lock_reach_inv: "lock_reach s \<Longrightarrow> lock_inv s"
  by (induction rule: lock_reach.induct) (simp add: lock_inv_def global_lock_new_def, rule lock_step_inv)

section \<open>Events\<close>

record event =
  ev_manual :: bool
  ev_status :: bool

definition event_new :: "bool \<Rightarrow> bool \<Rightarrow> event" where
  "event_new manual_reset initially_signaled = \<lparr>ev_manual = manual_reset, ev_status = initially_signaled\<rparr>"

definition event_set :: "event \<Rightarrow> event" where
  "event_set e = e\<lparr>ev_status := True\<rparr>"

definition event_reset :: "event \<Rightarrow> event" where
  "event_reset e = e\<lparr>ev_status := False\<rparr>"

text \<open>
  \<open>wait\<close> from the test of its loop on, with the error of the last wait for the condition (0 at first): \<open>None\<close> is another
  wait for the condition, otherwise the result and the event after it.
\<close>

definition event_wait_check :: "int \<Rightarrow> event \<Rightarrow> (bool \<times> event) option" where
  "event_wait_check error e =
     (if \<not> ev_status e \<and> error = 0 then None
      else
        let e = (if error = 0 \<and> \<not> ev_manual e then e\<lparr>ev_status := False\<rparr> else e)
        in Some (error = 0, e))"

definition k_forever :: int where "k_forever = - 1"

text \<open>The time until which a thread waits, from the time of day in seconds and microseconds; \<open>None\<close>: for ever.\<close>

definition event_deadline :: "int \<times> int \<Rightarrow> int \<Rightarrow> (int \<times> int) option" where
  "event_deadline tv milliseconds =
     (if milliseconds = k_forever then None
      else
        let sec = fst tv + milliseconds sdiv 1000;
            nsec = snd tv * 1000 + milliseconds smod 1000 * 1000000
        in Some (if nsec \<ge> 1000000000 then (sec + 1, nsec - 1000000000) else (sec, nsec)))"

datatype wait_pc = Idle | Sleeping

text \<open>Threads that wait, and how often the event was set and a wait succeeded.\<close>

record ev_state =
  es_event :: event
  es_pc :: "nat \<Rightarrow> wait_pc"
  es_sets :: nat
  es_wakes :: nat

inductive ev_step :: "ev_state \<Rightarrow> ev_state \<Rightarrow> bool" where
  set: "ev_step s (s\<lparr>es_event := event_set (es_event s), es_sets := es_sets s + 1\<rparr>)"
| reset: "ev_step s (s\<lparr>es_event := event_reset (es_event s)\<rparr>)"
| sleep: "event_wait_check 0 (es_event s) = None \<Longrightarrow> ev_step s (s\<lparr>es_pc := (es_pc s)(t := Sleeping)\<rparr>)"
| pass: "event_wait_check 0 (es_event s) = Some (True, e) \<Longrightarrow> ev_step s (s\<lparr>es_event := e, es_pc := (es_pc s)(t := Idle), es_wakes := es_wakes s + 1\<rparr>)"
| timeout: "es_pc s t = Sleeping \<Longrightarrow> error \<noteq> 0 \<Longrightarrow> event_wait_check error (es_event s) = Some (False, e) \<Longrightarrow>
    ev_step s (s\<lparr>es_event := e, es_pc := (es_pc s)(t := Idle)\<rparr>)"

inductive ev_reach :: "bool \<Rightarrow> bool \<Rightarrow> ev_state \<Rightarrow> bool" for manual initial where
  start: "ev_reach manual initial \<lparr>es_event = event_new manual initial, es_pc = (\<lambda>_. Idle), es_sets = 0, es_wakes = 0\<rparr>"
| step: "ev_reach manual initial s \<Longrightarrow> ev_step s s' \<Longrightarrow> ev_reach manual initial s'"

lemma event_wait_check_cases:
  "event_wait_check 0 e = (if ev_status e then Some (True, e\<lparr>ev_status := ev_manual e\<rparr>) else None)"
  "error \<noteq> 0 \<Longrightarrow> event_wait_check error e = Some (False, e)"
  by (cases e; simp add: event_wait_check_def)+

lemma ev_step_count:
  assumes "ev_step s s'" and "\<not> ev_manual (es_event s)" and "es_wakes s + of_bool (ev_status (es_event s)) \<le> es_sets s + n"
  shows "\<not> ev_manual (es_event s') \<and> es_wakes s' + of_bool (ev_status (es_event s')) \<le> es_sets s' + n"
  using assms by (induction rule: ev_step.induct)
    (auto simp: event_wait_check_cases event_set_def event_reset_def split: if_splits)

lemma ev_reach_count:
  assumes "ev_reach False initial s"
  shows "\<not> ev_manual (es_event s) \<and> es_wakes s + of_bool (ev_status (es_event s)) \<le> es_sets s + of_bool initial"
  using assms
proof (induction rule: ev_reach.induct)
  case start
  show ?case by (simp add: event_new_def)
next
  case (step s s')
  then show ?case using ev_step_count [of s s' "of_bool initial"] by simp
qed

section \<open>Properties\<close>

text \<open>
  The global lock: however threads interleave at its atomic operations, at most one of them is inside, unlocking
  never finds the lock free, and a thread that tries while nobody is inside gets in.
\<close>

theorem global_lock_mutual_exclusion:
  assumes "lock_reach s"
  shows "(ls_pc s t = Inside \<and> ls_pc s u = Inside \<longrightarrow> t = u) \<and> (ls_pc s t = Inside \<longrightarrow> fst (global_lock_unlock (ls_value s))) \<and>
    (fst (global_lock_try (ls_value s)) \<longleftrightarrow> (\<forall>v. ls_pc s v \<noteq> Inside))"
  using lock_reach_inv [OF assms] unfolding lock_inv_def
  by (auto simp: global_lock_unlock_def global_lock_try_def compare_and_swap_def)

theorem global_lock_mutual_exclusion_witness:
  "fst (global_lock_try (ls_value \<lparr>ls_value = global_lock_new, ls_pc = (\<lambda>_. Outside)\<rparr>))"
  using global_lock_mutual_exclusion [OF lock_reach.start, of 0 0] by simp

text \<open>
  C35. Events: with automatic reset every setting (and the initial state) lets at most one thread pass, whatever threads wait,
  wake up spuriously, time out or reset the event in between; a thread that tests the event while it is set passes, and
  with manual reset it leaves it set; a wait ends by a timeout without touching the event.  The time a wait ends
  is the time of day plus the time to wait, with a normalised number of nanoseconds.
\<close>

theorem event_correct:
  "(ev_reach False initial s \<longrightarrow> es_wakes s \<le> es_sets s + of_bool initial) \<and>
   event_wait_check 0 (event_set e) = Some (True, e\<lparr>ev_status := ev_manual e\<rparr>) \<and>
   (error \<noteq> 0 \<longrightarrow> event_wait_check error e = Some (False, e)) \<and>
   (0 \<le> ms \<and> 0 \<le> usec \<and> usec < 1000000 \<longrightarrow>
      (\<exists>sec' nsec'. event_deadline (sec, usec) ms = Some (sec', nsec') \<and> 0 \<le> nsec' \<and> nsec' < 1000000000 \<and>
         sec' * 1000000000 + nsec' = (sec * 1000000 + usec) * 1000 + ms * 1000000))"
proof (intro conjI impI)
  show "es_wakes s \<le> es_sets s + of_bool initial" if "ev_reach False initial s"
    using ev_reach_count [OF that] by simp
  show "event_wait_check 0 (event_set e) = Some (True, e\<lparr>ev_status := ev_manual e\<rparr>)"
    by (simp add: event_wait_check_cases event_set_def)
  show "event_wait_check error e = Some (False, e)" if "error \<noteq> 0" by (rule event_wait_check_cases(2) [OF that])
  assume a: "0 \<le> ms \<and> 0 \<le> usec \<and> usec < 1000000"
  have d: "ms sdiv 1000 = ms div 1000" "ms smod 1000 = ms mod 1000"
    using a by (cases "ms = 0"; simp add: signed_divide_int_def signed_modulo_int_def sgn_if)+
  have e: "ms div 1000 * 1000000000 + ms mod 1000 * 1000000 = ms * 1000000" using mult_div_mod_eq [of 1000 ms] by linarith
  have "0 \<le> ms mod 1000" "ms mod 1000 < 1000" by simp_all
  then show "\<exists>sec' nsec'. event_deadline (sec, usec) ms = Some (sec', nsec') \<and> 0 \<le> nsec' \<and> nsec' < 1000000000 \<and>
      sec' * 1000000000 + nsec' = (sec * 1000000 + usec) * 1000 + ms * 1000000"
    using a by (auto simp: event_deadline_def k_forever_def d e Let_def)
qed

theorem event_correct_witness:
  "\<exists>sec nsec. event_deadline (5, 999999) 2500 = Some (sec, nsec) \<and> 0 \<le> nsec \<and> nsec < 1000000000 \<and> sec * 1000000000 + nsec = 8499999000"
  using event_correct [of False "\<lparr>es_event = event_new False False, es_pc = (\<lambda>_. Idle), es_sets = 0, es_wakes = 0\<rparr>" "event_new False False" 1 2500 999999 5]
  by simp

end
