(* ===== verification/PlatformThread.thy ===== *)
theory PlatformThread
  imports Locks
begin

text \<open>
  Worker threads (\<open>src/platform_thread.{h,cpp}\<close>): priorities, the loop around the deprecated kind of function, starting and stopping.
  Creating and joining the thread itself is the system's.
\<close>

section \<open>Priorities\<close>

datatype thread_priority = k_low_priority | k_normal_priority | k_high_priority | k_highest_priority | k_realtime_priority

text \<open>The priority for the scheduler from its limits; \<open>None\<close> when \<open>set_priority\<close> returns false without setting one.\<close>

definition set_priority :: "int \<Rightarrow> int \<Rightarrow> thread_priority \<Rightarrow> int option" where
  "set_priority min_prio max_prio priority =
     (if min_prio = -1 \<or> max_prio = -1 then None
      else if max_prio - min_prio \<le> 2 then None
      else
        let top_prio = max_prio - 1;
            low_prio = min_prio + 1
        in Some (case priority of
             k_low_priority \<Rightarrow> low_prio
           | k_normal_priority \<Rightarrow> (low_prio + top_prio - 1) sdiv 2
           | k_high_priority \<Rightarrow> max (top_prio - 2) low_prio
           | k_highest_priority \<Rightarrow> max (top_prio - 1) low_prio
           | k_realtime_priority \<Rightarrow> top_prio))"

fun priority_num :: "thread_priority \<Rightarrow> nat" where
  "priority_num k_low_priority = 0"
| "priority_num k_normal_priority = 1"
| "priority_num k_high_priority = 2"
| "priority_num k_highest_priority = 3"
| "priority_num k_realtime_priority = 4"

text \<open>On a system with the priorities of a Linux scheduler the mapping is monotone and leaves out the two extremes.\<close>

lemma set_priority_monotone:
  assumes "0 \<le> min_prio" and "set_priority min_prio max_prio p = Some x" and "set_priority min_prio max_prio q = Some y"
    and "priority_num p \<le> priority_num q"
  shows "x \<le> y" and "min_prio < x \<and> x < max_prio"
proof -
  have d: "(a + b) sdiv 2 = (a + b) div 2" if "0 \<le> a" "0 \<le> b" for a b :: int
    using that by (cases "a + b = 0") (auto simp: signed_divide_int_def sgn_if)
  have g: "3 \<le> max_prio - min_prio" using assms(2) by (auto simp: set_priority_def split: if_splits)
  have n: "(min_prio + (max_prio - 1)) sdiv 2 = (min_prio + (max_prio - 1)) div 2"
    using assms(1) g by (intro d) simp_all
  show "x \<le> y" using assms(2-4) g by (cases p; cases q) (auto simp: set_priority_def n Let_def split: if_splits)
  show "min_prio < x \<and> x < max_prio" using assms(2) g by (cases p) (auto simp: set_priority_def n Let_def split: if_splits)
qed

section \<open>Threads\<close>

text \<open>A thread runs one function once, or the deprecated kind again and again; the reference is zero when it does not run.\<close>

record platform_thread =
  pt_has_run_function :: bool
  pt_priority :: thread_priority
  pt_name :: "string"
  pt_stop_flag :: u32
  pt_thread :: nat

definition platform_thread_new_deprecated :: "string option \<Rightarrow> platform_thread" where
  "platform_thread_new_deprecated thread_name =
     \<lparr>pt_has_run_function = False, pt_priority = k_normal_priority, pt_name = (case thread_name of Some n \<Rightarrow> n | None \<Rightarrow> ''webrtc''),
      pt_stop_flag = 0, pt_thread = 0\<rparr>"

text \<open>The other constructor makes a string of the name without testing the pointer.\<close>

definition platform_thread_new :: "string option \<Rightarrow> thread_priority \<Rightarrow> platform_thread option" where
  "platform_thread_new thread_name priority =
     map_option (\<lambda>n. \<lparr>pt_has_run_function = True, pt_priority = priority, pt_name = n, pt_stop_flag = 0, pt_thread = 0\<rparr>) thread_name"

definition is_running :: "platform_thread \<Rightarrow> bool" where
  "is_running t \<longleftrightarrow> pt_thread t \<noteq> 0"

text \<open>
  The loop of \<open>run\<close>: the function returns \<open>f n\<close> in its \<open>n\<close>-th call, and \<open>flag n\<close> is what the load of the flag after it sees.  The
  result is the number of calls; \<open>None\<close> when the thread never ends.
\<close>

partial_function (option) run_loop :: "(nat \<Rightarrow> bool) \<Rightarrow> (nat \<Rightarrow> u32) \<Rightarrow> nat \<Rightarrow> nat option" where
  "run_loop f flag n =
     (if \<not> f n then Some (n + 1)
      else if acquire_load (flag n) \<noteq> 0 then Some (n + 1)
      else run_loop f flag (n + 1))"

definition thread_run :: "platform_thread \<Rightarrow> (nat \<Rightarrow> bool) \<Rightarrow> (nat \<Rightarrow> u32) \<Rightarrow> nat option" where
  "thread_run t f flag = (if pt_has_run_function t then Some 1 else run_loop f flag 0)"

text \<open>Starting: the system gives a reference for the thread or an error, which is only logged.\<close>

definition thread_start :: "nat option \<Rightarrow> platform_thread \<Rightarrow> platform_thread" where
  "thread_start created t = (case created of Some ref \<Rightarrow> t\<lparr>pt_thread := ref\<rparr> | None \<Rightarrow> t)"

text \<open>Stopping, before the thread is joined and after it.\<close>

definition stop_request :: "platform_thread \<Rightarrow> platform_thread" where
  "stop_request t = (if \<not> is_running t then t
     else if \<not> pt_has_run_function t then t\<lparr>pt_stop_flag := snd (atomic_increment (pt_stop_flag t))\<rparr> else t)"

definition stop_joined :: "platform_thread \<Rightarrow> platform_thread" where
  "stop_joined t = (if \<not> is_running t then t
     else (if \<not> pt_has_run_function t then t\<lparr>pt_stop_flag := release_store (pt_stop_flag t) 0\<rparr> else t)\<lparr>pt_thread := 0\<rparr>)"

text \<open>
  The function is called at least once; the thread ends after the first call that asks for it or that is followed by a set flag, and only then.
\<close>

lemma run_loop_ends:
  assumes "m \<le> n" and "\<not> f n \<or> flag n \<noteq> 0" and "\<forall>i. m \<le> i \<and> i < n \<longrightarrow> f i \<and> flag i = 0"
  shows "run_loop f flag m = Some (n + 1)"
  using assms
proof (induction "n - m" arbitrary: m)
  case 0
  then show ?case by (subst run_loop.simps) (auto simp: acquire_load_def)
next
  case (Suc d)
  then have "run_loop f flag (m + 1) = Some (n + 1)" by (intro Suc.hyps(1)) auto
  moreover have "f m" "flag m = 0" using Suc by auto
  ultimately show ?case by (subst run_loop.simps) (simp add: acquire_load_def)
qed

text \<open>A request to stop reaches the loop: the flag is set until the thread is joined, so the loop ends, after a last call at most.\<close>

lemma stop_ends_thread:
  assumes "is_running t" and "\<not> pt_has_run_function t" and "pt_stop_flag t = 0" and "\<forall>i. m \<le> i \<longrightarrow> flag i = pt_stop_flag (stop_request t)"
  shows "\<exists>n. thread_run t f flag = Some n \<and> 1 \<le> n \<and> n \<le> m + 1"
proof -
  have set: "flag i \<noteq> 0" if "m \<le> i" for i using that assms by (simp add: stop_request_def atomic_increment_def)
  define n where "n = (LEAST n. \<not> f n \<or> flag n \<noteq> 0)"
  have "\<not> f m \<or> flag m \<noteq> 0" using set by simp
  then have n: "\<not> f n \<or> flag n \<noteq> 0" "n \<le> m" unfolding n_def by (rule LeastI, rule Least_le)
  have "\<forall>i. 0 \<le> i \<and> i < n \<longrightarrow> f i \<and> flag i = 0" unfolding n_def using not_less_Least by blast
  then have "run_loop f flag 0 = Some (n + 1)" using n(1) by (intro run_loop_ends) simp_all
  then show ?thesis using assms(2) n(2) by (simp add: thread_run_def)
qed

lemma stop_joined_reset: "is_running t \<Longrightarrow> \<not> pt_has_run_function t \<Longrightarrow> \<not> is_running (stop_joined (stop_request t)) \<and> pt_stop_flag (stop_joined (stop_request t)) = 0"
  by (simp add: stop_joined_def stop_request_def is_running_def release_store_def)

text \<open>Without a name the current constructor cannot make a thread; the deprecated one has a default.\<close>

lemma platform_thread_null_name: "platform_thread_new None p = None" "pt_name (platform_thread_new_deprecated None) = ''webrtc''"
  by (simp_all add: platform_thread_new_def platform_thread_new_deprecated_def)

end
