(* ===== verification/ZMalloc.thy ===== *)
theory ZMalloc
  imports StringToNumber Float32
begin

text \<open>
  Allocation with accounting (\<open>src/zmalloc.{h,cpp}\<close>), as it is built with the allocator of the C library: every block has
  its size in front.  The allocator is a parameter.  A pointer handed out is the address of its block (the code
  adds \<open>PREFIX_SIZE\<close>); the store holds the blocks of \<open>zmalloc\<close> with their prefix.
\<close>

section \<open>The allocator\<close>

type_synonym heap = "nat \<Rightarrow> byte list option"
type_synonym malloc_fun = "u64 \<Rightarrow> heap \<Rightarrow> (nat \<times> byte list) option"
type_synonym realloc_fun = "nat \<Rightarrow> u64 \<Rightarrow> heap \<Rightarrow> (nat \<times> byte list) option"

definition malloc_contract :: "malloc_fun \<Rightarrow> bool" where
  "malloc_contract malloc \<longleftrightarrow> (\<forall>n h p bs. malloc n h = Some (p, bs) \<longrightarrow> h p = None \<and> length bs = unat n)"

definition realloc_contract :: "realloc_fun \<Rightarrow> bool" where
  "realloc_contract realloc \<longleftrightarrow> (\<forall>p n h old q bs. h p = Some old \<longrightarrow> realloc p n h = Some (q, bs) \<longrightarrow>
     (q = p \<or> h q = None) \<and> length bs = unat n \<and> take (min (length old) (unat n)) bs = take (min (length old) (unat n)) old)"

section \<open>Operations\<close>

definition PREFIX_SIZE :: u64 where "PREFIX_SIZE = 8"

record zstate =
  z_heap :: heap
  used_memory :: u64
  zmalloc_thread_safe :: bool

text \<open>The default out-of-memory handler aborts; after a handler that returns, the null pointer is dereferenced.\<close>

datatype zerror = OutOfMemory u64 | BadAccess

definition zmalloc_oom :: "bool \<Rightarrow> u64 \<Rightarrow> zerror" where
  "zmalloc_oom handler_aborts sz = (if handler_aborts then OutOfMemory sz else BadAccess)"

definition pad_long :: "u64 \<Rightarrow> u64" where
  "pad_long n = (if n AND (8 - 1) \<noteq> 0 then n + (8 - (n AND (8 - 1))) else n)"

text \<open>
  The atomic (or locked) updates, and the two branches.  The branch that is not atomic is that of a program with one thread, whose operations
  are the steps of the model; with several threads it would be a read and a write with a race between them.
\<close>

definition update_zmalloc_stat_add :: "u64 \<Rightarrow> zstate \<Rightarrow> zstate" where
  "update_zmalloc_stat_add n st = st\<lparr>used_memory := used_memory st + n\<rparr>"

definition update_zmalloc_stat_sub :: "u64 \<Rightarrow> zstate \<Rightarrow> zstate" where
  "update_zmalloc_stat_sub n st = st\<lparr>used_memory := used_memory st - n\<rparr>"

definition update_zmalloc_stat_alloc :: "u64 \<Rightarrow> zstate \<Rightarrow> zstate" where
  "update_zmalloc_stat_alloc n st =
     (let n = pad_long n
      in if zmalloc_thread_safe st then update_zmalloc_stat_add n st else st\<lparr>used_memory := used_memory st + n\<rparr>)"

definition update_zmalloc_stat_free :: "u64 \<Rightarrow> zstate \<Rightarrow> zstate" where
  "update_zmalloc_stat_free n st =
     (let n = pad_long n
      in if zmalloc_thread_safe st then update_zmalloc_stat_sub n st else st\<lparr>used_memory := used_memory st - n\<rparr>)"

lemma update_zmalloc_stat_alloc_eq: "update_zmalloc_stat_alloc n st = st\<lparr>used_memory := used_memory st + pad_long n\<rparr>"
  by (simp add: update_zmalloc_stat_alloc_def update_zmalloc_stat_add_def Let_def)

lemma update_zmalloc_stat_free_eq: "update_zmalloc_stat_free n st = st\<lparr>used_memory := used_memory st - pad_long n\<rparr>"
  by (simp add: update_zmalloc_stat_free_def update_zmalloc_stat_sub_def Let_def)

definition write_prefix :: "endian \<Rightarrow> u64 \<Rightarrow> byte list \<Rightarrow> byte list option" where
  "write_prefix he sz bs = mem_write bs 0 (word_to_mem he 8 sz)"

definition read_prefix :: "endian \<Rightarrow> byte list \<Rightarrow> u64 option" where
  "read_prefix he bs = map_option (mem_to_word he) (mem_read bs 0 8)"

text \<open>What \<open>zmalloc\<close> and \<open>zcalloc\<close> do with the result of the allocator.\<close>

definition zmalloc_block :: "endian \<Rightarrow> bool \<Rightarrow> u64 \<Rightarrow> (nat \<times> byte list) option \<Rightarrow> zstate \<Rightarrow> zerror + nat \<times> zstate" where
  "zmalloc_block he handler_aborts sz ptr st =
     (case ptr of
        None \<Rightarrow> Inl (zmalloc_oom handler_aborts sz)
      | Some (p, bs) \<Rightarrow>
          (case write_prefix he sz bs of
             None \<Rightarrow> Inl BadAccess
           | Some bs \<Rightarrow> Inr (p, update_zmalloc_stat_alloc (sz + PREFIX_SIZE) (st\<lparr>z_heap := (z_heap st)(p \<mapsto> bs)\<rparr>))))"

definition zmalloc :: "endian \<Rightarrow> malloc_fun \<Rightarrow> bool \<Rightarrow> u64 \<Rightarrow> zstate \<Rightarrow> zerror + nat \<times> zstate" where
  "zmalloc he malloc handler_aborts sz st = zmalloc_block he handler_aborts sz (malloc (sz + PREFIX_SIZE) (z_heap st)) st"

definition zcalloc :: "endian \<Rightarrow> malloc_fun \<Rightarrow> bool \<Rightarrow> u64 \<Rightarrow> zstate \<Rightarrow> zerror + nat \<times> zstate" where
  "zcalloc he malloc handler_aborts sz st =
     zmalloc_block he handler_aborts sz (map_option (\<lambda>(p, bs). (p, replicate (length bs) 0)) (malloc (sz + PREFIX_SIZE) (z_heap st))) st"

definition zrealloc :: "endian \<Rightarrow> malloc_fun \<Rightarrow> realloc_fun \<Rightarrow> bool \<Rightarrow> nat option \<Rightarrow> u64 \<Rightarrow> zstate \<Rightarrow> zerror + nat \<times> zstate" where
  "zrealloc he malloc realloc handler_aborts ptr sz st =
     (case ptr of
        None \<Rightarrow> zmalloc he malloc handler_aborts sz st
      | Some realptr \<Rightarrow>
          (case Option.bind (z_heap st realptr) (read_prefix he) of
             None \<Rightarrow> Inl BadAccess
           | Some oldsize \<Rightarrow>
               (case realloc realptr (sz + PREFIX_SIZE) (z_heap st) of
                  None \<Rightarrow> Inl (zmalloc_oom handler_aborts sz)
                | Some (newptr, bs) \<Rightarrow>
                    (case write_prefix he sz bs of
                       None \<Rightarrow> Inl BadAccess
                     | Some bs \<Rightarrow>
                         let st = st\<lparr>z_heap := (z_heap st)(realptr := None, newptr \<mapsto> bs)\<rparr>;
                             st = update_zmalloc_stat_free oldsize st;
                             st = update_zmalloc_stat_alloc sz st
                         in Inr (newptr, st)))))"

definition zmalloc_size :: "endian \<Rightarrow> byte list \<Rightarrow> u64 option" where
  "zmalloc_size he bs = do { sz \<leftarrow> read_prefix he bs; Some (pad_long sz + PREFIX_SIZE) }"

definition zfree :: "endian \<Rightarrow> nat option \<Rightarrow> zstate \<Rightarrow> zerror + zstate" where
  "zfree he ptr st =
     (case ptr of
        None \<Rightarrow> Inr st
      | Some realptr \<Rightarrow>
          (case Option.bind (z_heap st realptr) (read_prefix he) of
             None \<Rightarrow> Inl BadAccess
           | Some oldsize \<Rightarrow> Inr ((update_zmalloc_stat_free (oldsize + PREFIX_SIZE) st)\<lparr>z_heap := (z_heap st)(realptr := None)\<rparr>)))"

text \<open>The argument of \<open>zstrdup\<close> is the characters before the terminating zero.\<close>

definition zstrdup :: "endian \<Rightarrow> malloc_fun \<Rightarrow> bool \<Rightarrow> byte list \<Rightarrow> zstate \<Rightarrow> zerror + nat \<times> zstate" where
  "zstrdup he malloc handler_aborts s st =
     (case zmalloc he malloc handler_aborts (of_nat (length s + 1)) st of
        Inl e \<Rightarrow> Inl e
      | Inr (p, st) \<Rightarrow>
          (case Option.bind (z_heap st p) (\<lambda>bs. mem_write bs 8 (s @ [0])) of
             None \<Rightarrow> Inl BadAccess
           | Some bs \<Rightarrow> Inr (p, st\<lparr>z_heap := (z_heap st)(p \<mapsto> bs)\<rparr>)))"

definition zmalloc_used_memory :: "zstate \<Rightarrow> u64" where
  "zmalloc_used_memory st = used_memory st"

definition zmalloc_enable_thread_safeness :: "zstate \<Rightarrow> zstate" where
  "zmalloc_enable_thread_safeness st = st\<lparr>zmalloc_thread_safe := True\<rparr>"

section \<open>The resident set\<close>

text \<open>
  \<open>strchr\<close> in the buffer from a position on: the outer \<open>None\<close> is a read beyond the buffer, the inner one the end of the string.
\<close>

function strchr_at :: "byte list \<Rightarrow> nat \<Rightarrow> byte \<Rightarrow> nat option option" where
  "strchr_at buf p ch =
     (if p < length buf then
        if buf ! p = ch then Some (Some p) else if buf ! p = 0 then Some None else strchr_at buf (p + 1) ch
      else None)"
  by pat_completeness auto
termination by (relation "measure (\<lambda>(buf, p, ch). length buf - p)") auto

declare strchr_at.simps [simp del]

fun skip_fields :: "nat \<Rightarrow> byte list \<Rightarrow> nat \<Rightarrow> nat option option" where
  "skip_fields 0 buf p = Some (Some p)"
| "skip_fields (Suc n) buf p =
     (case strchr_at buf p 32 of
        None \<Rightarrow> None
      | Some None \<Rightarrow> Some None
      | Some (Some q) \<Rightarrow> skip_fields n buf (q + 1))"

text \<open>
  \<open>content\<close> is the start of \<open>/proc/<pid>/stat\<close> (\<open>None\<close>: it cannot be opened), \<open>raw\<close> the buffer of 4096 bytes, not initialised.
\<close>

definition zmalloc_get_rss :: "u64 \<Rightarrow> byte list option \<Rightarrow> byte list \<Rightarrow> u64 option" where
  "zmalloc_get_rss page content raw =
     (case content of
        None \<Rightarrow> Some 0
      | Some content \<Rightarrow>
          let data = take 4096 content
          in if data = [] then Some 0
             else
               let buf = data @ drop (length data) raw
               in case skip_fields 23 buf 0 of
                    None \<Rightarrow> None
                  | Some None \<Rightarrow> Some 0
                  | Some (Some p) \<Rightarrow>
                      (case strchr_at buf p 32 of
                         None \<Rightarrow> None
                       | Some None \<Rightarrow> Some 0
                       | Some (Some x) \<Rightarrow> Some (of_int (fst (strtoll (take (x - p) (drop p buf)) 10)) * page)))"

text \<open>Without used memory the quotient is not a finite number: \<open>None\<close>.\<close>

definition zmalloc_get_fragmentation_ratio :: "u64 \<Rightarrow> zstate \<Rightarrow> f32 option" where
  "zmalloc_get_fragmentation_ratio rss st =
     (if zmalloc_used_memory st = 0 then None
      else Some (f32_div (f32_of_nat (unat rss)) (f32_of_nat (unat (zmalloc_used_memory st)))))"

section \<open>Accounting\<close>

lemma pad_long_prefix: "pad_long (n + PREFIX_SIZE) = pad_long n + PREFIX_SIZE"
proof -
  have "uint (take_bit 3 (n + 8)) = uint (n + 8) mod 8" by (simp only: unsigned_take_bit_eq) (simp add: take_bit_eq_mod)
  also have "\<dots> = (uint n + 8) mod 2 ^ 64 mod 8" by (simp only: uint_word_ariths) simp
  also have "\<dots> = uint n mod 8" by (simp add: mod_mod_cancel)
  also have "\<dots> = uint (take_bit 3 n)" by (simp only: unsigned_take_bit_eq) (simp add: take_bit_eq_mod)
  finally have "take_bit 3 (n + 8) = take_bit 3 n" by (simp only: word_uint_eq_iff)
  then have "(n + 8) AND 7 = n AND 7" by (simp add: take_bit_eq_mask mask_eq_exp_minus_1)
  then show ?thesis by (simp add: pad_long_def PREFIX_SIZE_def)
qed

lemma read_write_prefix:
  assumes "8 \<le> length bs"
  obtains bs' where "write_prefix he sz bs = Some bs'" "read_prefix he bs' = Some sz" "length bs' = length bs" "drop 8 bs' = drop 8 bs"
proof -
  obtain bs' where w: "mem_write bs 0 (word_to_mem he 8 sz) = Some bs'" using assms by (auto simp: mem_write_def)
  have "mem_read bs' 0 (length (word_to_mem he 8 sz)) = Some (word_to_mem he 8 sz)" by (rule mem_read_write_same [OF w])
  then have "read_prefix he bs' = Some sz" by (simp add: read_prefix_def mem_to_word_to_mem)
  then show thesis using w mem_write_length [OF w] mem_write_after [OF w, of 8] by (intro that [of bs']) (simp_all add: write_prefix_def)
qed

text \<open>Every block has its size in front, and the sizes add up to the used memory.\<close>

definition block_ok :: "endian \<Rightarrow> byte list \<Rightarrow> u64 \<Rightarrow> bool" where
  "block_ok he bs sz \<longleftrightarrow> read_prefix he bs = Some sz \<and> length bs = unat sz + 8"

definition block_size :: "endian \<Rightarrow> byte list \<Rightarrow> u64" where
  "block_size he bs = the (zmalloc_size he bs)"

definition z_inv :: "endian \<Rightarrow> zstate \<Rightarrow> bool" where
  "z_inv he st \<longleftrightarrow> finite (dom (z_heap st)) \<and> (\<forall>p bs. z_heap st p = Some bs \<longrightarrow> (\<exists>sz. block_ok he bs sz)) \<and>
     used_memory st = (\<Sum>p \<in> dom (z_heap st). block_size he (the (z_heap st p)))"

lemma block_size_ok: "block_ok he bs sz \<Longrightarrow> block_size he bs = pad_long sz + PREFIX_SIZE"
  by (simp add: block_size_def zmalloc_size_def block_ok_def)

lemma sum_upd_new:
  assumes "finite (dom m)" and "m p = None"
  shows "(\<Sum>q \<in> dom (m(p \<mapsto> b)). f (the ((m(p \<mapsto> b)) q))) = (\<Sum>q \<in> dom m. f (the (m q))) + (f b :: 'a::comm_monoid_add)"
proof -
  have p: "p \<notin> dom m" using assms(2) by blast
  have "(\<Sum>q \<in> dom m. f (the ((m(p \<mapsto> b)) q))) = (\<Sum>q \<in> dom m. f (the (m q)))" using p by (intro sum.cong) auto
  then show ?thesis using p assms(1) by (simp add: add.commute)
qed

lemma sum_upd_remove:
  assumes "finite (dom m)" and "m p = Some b"
  shows "(\<Sum>q \<in> dom (m(p := None)). f (the ((m(p := None)) q))) = (\<Sum>q \<in> dom m. f (the (m q))) - (f b :: 'a::ab_group_add)"
proof -
  have p: "p \<in> dom m" using assms(2) by blast
  have "(\<Sum>q \<in> dom m - {p}. f (the ((m(p := None)) q))) = (\<Sum>q \<in> dom m - {p}. f (the (m q)))" by (intro sum.cong) auto
  moreover have "(\<Sum>q \<in> dom m. f (the (m q))) = f b + (\<Sum>q \<in> dom m - {p}. f (the (m q)))"
    using sum.remove [OF assms(1) p, of "\<lambda>q. f (the (m q))"] assms(2) by simp
  ultimately show ?thesis by simp
qed

lemma unat_prefix: "unat sz + 8 < 2 ^ 64 \<Longrightarrow> unat (sz + PREFIX_SIZE) = unat sz + 8"
  by (simp add: PREFIX_SIZE_def unat_word_ariths)

lemma z_inv_add:
  assumes "z_inv he st" and "z_heap st p = None" and "block_ok he bs sz"
  shows "z_inv he (update_zmalloc_stat_alloc (sz + PREFIX_SIZE) (st\<lparr>z_heap := (z_heap st)(p \<mapsto> bs)\<rparr>))"
proof -
  have f: "finite (dom (z_heap st))" using assms(1) by (simp add: z_inv_def)
  show ?thesis unfolding z_inv_def update_zmalloc_stat_alloc_eq
    using assms f sum_upd_new [OF f assms(2), of "block_size he" bs]
    by (simp add: z_inv_def block_size_ok [OF assms(3)] pad_long_prefix del: dom_fun_upd) auto
qed

lemma z_inv_remove:
  assumes "z_inv he st" and "z_heap st p = Some bs" and "block_ok he bs sz"
  shows "z_inv he ((update_zmalloc_stat_free (sz + PREFIX_SIZE) st)\<lparr>z_heap := (z_heap st)(p := None)\<rparr>)"
proof -
  have f: "finite (dom (z_heap st))" using assms(1) by (simp add: z_inv_def)
  show ?thesis unfolding z_inv_def update_zmalloc_stat_free_eq
    using assms f sum_upd_remove [OF f assms(2), of "block_size he"]
    by (simp add: z_inv_def block_size_ok [OF assms(3)] pad_long_prefix del: dom_fun_upd) auto
qed

lemma z_inv_block:
  assumes "z_inv he st" and "z_heap st p = Some bs"
  obtains sz where "block_ok he bs sz"
  using assms by (auto simp: z_inv_def)

lemma zmalloc_block_cases:
  assumes "length bs = unat sz + 8"
  obtains bs' where "zmalloc_block he ha sz (Some (p, bs)) st =
      Inr (p, update_zmalloc_stat_alloc (sz + PREFIX_SIZE) (st\<lparr>z_heap := (z_heap st)(p \<mapsto> bs')\<rparr>))"
    "block_ok he bs' sz" "drop 8 bs' = drop 8 bs"
proof -
  have "8 \<le> length bs" using assms by simp
  then obtain bs' where "write_prefix he sz bs = Some bs'" "read_prefix he bs' = Some sz" "length bs' = length bs" "drop 8 bs' = drop 8 bs"
    by (rule read_write_prefix)
  then show thesis using assms by (intro that [of bs']) (simp_all add: zmalloc_block_def block_ok_def)
qed

text \<open>An allocation either reports that memory is short or adds one block of the size asked for.\<close>

definition allocated :: "endian \<Rightarrow> u64 \<Rightarrow> zstate \<Rightarrow> nat \<Rightarrow> byte list \<Rightarrow> zstate \<Rightarrow> bool" where
  "allocated he sz st p bs st' \<longleftrightarrow> z_heap st p = None \<and> block_ok he bs sz \<and>
     st' = update_zmalloc_stat_alloc (sz + PREFIX_SIZE) (st\<lparr>z_heap := (z_heap st)(p \<mapsto> bs)\<rparr>)"

lemma zmalloc_cases:
  assumes "malloc_contract malloc" and "unat sz + 8 < 2 ^ 64"
  obtains (oom) "malloc (sz + PREFIX_SIZE) (z_heap st) = None" "zmalloc he malloc ha sz st = Inl (zmalloc_oom ha sz)"
      "zcalloc he malloc ha sz st = Inl (zmalloc_oom ha sz)"
  | (ok) p bs st' bz stz where "zmalloc he malloc ha sz st = Inr (p, st')" "allocated he sz st p bs st'"
      "zcalloc he malloc ha sz st = Inr (p, stz)" "allocated he sz st p bz stz" "drop 8 bz = replicate (unat sz) 0"
proof (cases "malloc (sz + PREFIX_SIZE) (z_heap st)")
  case None
  then show thesis by (intro oom) (simp_all add: zmalloc_def zcalloc_def zmalloc_block_def)
next
  case (Some r)
  obtain p bs where r: "r = (p, bs)" by force
  have c: "z_heap st p = None" "length bs = unat sz + 8"
    using assms Some r by (simp_all add: malloc_contract_def unat_prefix)
  obtain bs' where b: "zmalloc_block he ha sz (Some (p, bs)) st =
      Inr (p, update_zmalloc_stat_alloc (sz + PREFIX_SIZE) (st\<lparr>z_heap := (z_heap st)(p \<mapsto> bs')\<rparr>))" "block_ok he bs' sz"
    by (rule zmalloc_block_cases [OF c(2)])
  have l: "length (replicate (length bs) (0 :: byte)) = unat sz + 8" using c by simp
  obtain bz where z: "zmalloc_block he ha sz (Some (p, replicate (length bs) 0)) st =
      Inr (p, update_zmalloc_stat_alloc (sz + PREFIX_SIZE) (st\<lparr>z_heap := (z_heap st)(p \<mapsto> bz)\<rparr>))" "block_ok he bz sz"
      "drop 8 bz = drop 8 (replicate (length bs) 0)"
    by (rule zmalloc_block_cases [OF l])
  show thesis
  proof (rule ok)
    show "zmalloc he malloc ha sz st = Inr (p, update_zmalloc_stat_alloc (sz + PREFIX_SIZE) (st\<lparr>z_heap := (z_heap st)(p \<mapsto> bs')\<rparr>))"
      using Some r b by (simp add: zmalloc_def)
    show "zcalloc he malloc ha sz st = Inr (p, update_zmalloc_stat_alloc (sz + PREFIX_SIZE) (st\<lparr>z_heap := (z_heap st)(p \<mapsto> bz)\<rparr>))"
      using Some r z by (simp add: zcalloc_def)
    show "drop 8 bz = replicate (unat sz) 0" using z c by simp
  qed (use b z c in \<open>simp_all add: allocated_def\<close>)
qed

lemma allocated_inv: "z_inv he st \<Longrightarrow> allocated he sz st p bs st' \<Longrightarrow> z_inv he st'"
  unfolding allocated_def by (blast intro: z_inv_add)

lemma zfree_live:
  assumes "z_heap st p = Some bs" and "block_ok he bs sz"
  shows "zfree he (Some p) st = Inr ((update_zmalloc_stat_free (sz + PREFIX_SIZE) st)\<lparr>z_heap := (z_heap st)(p := None)\<rparr>)"
  using assms by (simp add: zfree_def block_ok_def)

definition freed :: "u64 \<Rightarrow> zstate \<Rightarrow> nat \<Rightarrow> zstate" where
  "freed sz st p = (update_zmalloc_stat_free (sz + PREFIX_SIZE) st)\<lparr>z_heap := (z_heap st)(p := None)\<rparr>"

text \<open>A reallocation releases the block and allocates the new one with the contents that fit.\<close>

lemma zrealloc_cases:
  assumes rc: "realloc_contract realloc" and sz: "unat sz + 8 < 2 ^ 64"
    and p: "z_heap st p = Some old" "block_ok he old osz"
  obtains (oom) "realloc p (sz + PREFIX_SIZE) (z_heap st) = None"
      "zrealloc he malloc realloc ha (Some p) sz st = Inl (zmalloc_oom ha sz)"
  | (ok) q bs st' where "zrealloc he malloc realloc ha (Some p) sz st = Inr (q, st')" "allocated he sz (freed osz st p) q bs st'"
      "take (min (unat osz) (unat sz)) (drop 8 bs) = take (min (unat osz) (unat sz)) (drop 8 old)"
proof (cases "realloc p (sz + PREFIX_SIZE) (z_heap st)")
  case None
  then show thesis using p by (intro oom) (simp_all add: zrealloc_def block_ok_def)
next
  case (Some r)
  obtain q bs where r: "r = (q, bs)" by force
  let ?n = "min (unat osz) (unat sz)"
  have m: "min (length old) (unat (sz + PREFIX_SIZE)) = 8 + ?n" using p sz by (simp add: block_ok_def unat_prefix)
  have "(q = p \<or> z_heap st q = None) \<and> length bs = unat (sz + PREFIX_SIZE) \<and>
      take (min (length old) (unat (sz + PREFIX_SIZE))) bs = take (min (length old) (unat (sz + PREFIX_SIZE))) old"
    by (rule rc [unfolded realloc_contract_def, rule_format, OF p(1) Some [unfolded r]])
  then have d: "(q = p \<or> z_heap st q = None) \<and> length bs = unat (sz + PREFIX_SIZE) \<and> take (8 + ?n) bs = take (8 + ?n) old"
    by (simp only: m)
  then have c: "q = p \<or> z_heap st q = None" "length bs = unat sz + 8" "take (8 + ?n) bs = take (8 + ?n) old"
    by (simp_all only: unat_prefix [OF sz])
  have "drop 8 (take (8 + ?n) bs) = drop 8 (take (8 + ?n) old)" by (simp only: c)
  then have kept: "take ?n (drop 8 bs) = take ?n (drop 8 old)" by (simp add: drop_take)
  have "8 \<le> length bs" using c by simp
  then obtain bs' where w: "write_prefix he sz bs = Some bs'" "read_prefix he bs' = Some sz" "length bs' = length bs" "drop 8 bs' = drop 8 bs"
    by (rule read_write_prefix)
  show thesis
  proof (rule ok)
    show "zrealloc he malloc realloc ha (Some p) sz st =
        Inr (q, update_zmalloc_stat_alloc (sz + PREFIX_SIZE) ((freed osz st p)\<lparr>z_heap := (z_heap (freed osz st p))(q \<mapsto> bs')\<rparr>))"
      using p Some r w
      by (simp add: zrealloc_def block_ok_def freed_def update_zmalloc_stat_alloc_eq update_zmalloc_stat_free_eq pad_long_prefix Let_def)
    show "allocated he sz (freed osz st p) q bs'
        (update_zmalloc_stat_alloc (sz + PREFIX_SIZE) ((freed osz st p)\<lparr>z_heap := (z_heap (freed osz st p))(q \<mapsto> bs')\<rparr>))"
      using c w by (auto simp: allocated_def freed_def block_ok_def)
    show "take ?n (drop 8 bs') = take ?n (drop 8 old)" using w kept by simp
  qed
qed

lemma freed_inv: "z_inv he st \<Longrightarrow> z_heap st p = Some bs \<Longrightarrow> block_ok he bs sz \<Longrightarrow> z_inv he (freed sz st p)"
  unfolding freed_def by (rule z_inv_remove)

text \<open>A write to the payload of a block leaves the accounting alone.\<close>

lemma payload_write_inv:
  assumes inv: "z_inv he st" and p: "z_heap st p = Some bs" and w: "mem_write bs (8 + off) xs = Some bs'"
  shows "z_inv he (st\<lparr>z_heap := (z_heap st)(p \<mapsto> bs')\<rparr>)"
proof -
  obtain sz where b: "block_ok he bs sz" by (rule z_inv_block [OF inv p])
  have t: "take 8 bs' = take 8 bs" using mem_write_before [OF w] by simp
  have b': "block_ok he bs' sz" using b t mem_write_length [OF w] by (auto simp: block_ok_def read_prefix_def mem_read_def)
  let ?st = "(update_zmalloc_stat_free (sz + PREFIX_SIZE) st)\<lparr>z_heap := (z_heap st)(p := None)\<rparr>"
  have "z_inv he ?st" by (rule z_inv_remove [OF inv p b])
  then have "z_inv he (update_zmalloc_stat_alloc (sz + PREFIX_SIZE) (?st\<lparr>z_heap := (z_heap ?st)(p \<mapsto> bs')\<rparr>))"
    by (rule z_inv_add [OF _ _ b']) simp
  moreover have "update_zmalloc_stat_alloc (sz + PREFIX_SIZE) (?st\<lparr>z_heap := (z_heap ?st)(p \<mapsto> bs')\<rparr>) = st\<lparr>z_heap := (z_heap st)(p \<mapsto> bs')\<rparr>"
    by (simp add: update_zmalloc_stat_alloc_eq update_zmalloc_stat_free_eq)
  ultimately show ?thesis by simp
qed

lemma zstrdup_cases:
  assumes "malloc_contract malloc" and "length s + 9 < 2 ^ 64"
  obtains (oom) "zstrdup he malloc ha s st = Inl (zmalloc_oom ha (of_nat (length s + 1)))"
  | (ok) p st1 bs bs' where "zstrdup he malloc ha s st = Inr (p, st1\<lparr>z_heap := (z_heap st1)(p \<mapsto> bs')\<rparr>)"
      "allocated he (of_nat (length s + 1)) st p bs st1" "z_heap st1 p = Some bs" "mem_write bs (8 + 0) (s @ [0]) = Some bs'"
      "drop 8 bs' = s @ [0]"
proof -
  have u: "unat (of_nat (length s + 1) :: u64) = length s + 1" using assms(2) by (simp add: unat_of_nat take_bit_nat_eq_self del: of_nat_add of_nat_Suc)
  then have "unat (of_nat (length s + 1) :: u64) + 8 < 2 ^ 64" using assms(2) by simp
  from assms(1) this show thesis
  proof (cases rule: zmalloc_cases [where he = he and ha = ha and st = st])
    case oom
    then show thesis by (intro that(1)) (simp add: zstrdup_def)
  next
    case (ok p bs st1)
    have l: "length bs = length s + 9" using ok(2) u by (simp add: allocated_def block_ok_def)
    have h: "z_heap st1 p = Some bs" using ok(2) by (simp add: allocated_def update_zmalloc_stat_alloc_eq)
    have w: "mem_write bs (8 + 0) (s @ [0]) = Some (take 8 bs @ s @ [0])" using l by (simp add: mem_write_def)
    show thesis
      by (rule that(2) [OF _ ok(2) h w]) (use ok(1) h w l in \<open>simp_all add: zstrdup_def\<close>)
  qed
qed

section \<open>Programs of allocations\<close>

text \<open>The states a program reaches that asks for representable sizes, releases only live blocks and writes only to their payload.\<close>

inductive z_reach :: "endian \<Rightarrow> malloc_fun \<Rightarrow> realloc_fun \<Rightarrow> bool \<Rightarrow> zstate \<Rightarrow> bool"
  for he malloc realloc ha where
  z_start: "z_reach he malloc realloc ha \<lparr>z_heap = Map.empty, used_memory = 0, zmalloc_thread_safe = False\<rparr>"
| z_malloc: "z_reach he malloc realloc ha st \<Longrightarrow> unat sz + 8 < 2 ^ 64 \<Longrightarrow> zmalloc he malloc ha sz st = Inr (p, st') \<Longrightarrow>
    z_reach he malloc realloc ha st'"
| z_calloc: "z_reach he malloc realloc ha st \<Longrightarrow> unat sz + 8 < 2 ^ 64 \<Longrightarrow> zcalloc he malloc ha sz st = Inr (p, st') \<Longrightarrow>
    z_reach he malloc realloc ha st'"
| z_realloc: "z_reach he malloc realloc ha st \<Longrightarrow> unat sz + 8 < 2 ^ 64 \<Longrightarrow> z_heap st p \<noteq> None \<Longrightarrow>
    zrealloc he malloc realloc ha (Some p) sz st = Inr (q, st') \<Longrightarrow> z_reach he malloc realloc ha st'"
| z_free: "z_reach he malloc realloc ha st \<Longrightarrow> z_heap st p \<noteq> None \<Longrightarrow> zfree he (Some p) st = Inr st' \<Longrightarrow>
    z_reach he malloc realloc ha st'"
| z_strdup: "z_reach he malloc realloc ha st \<Longrightarrow> length s + 9 < 2 ^ 64 \<Longrightarrow> zstrdup he malloc ha s st = Inr (p, st') \<Longrightarrow>
    z_reach he malloc realloc ha st'"
| z_write: "z_reach he malloc realloc ha st \<Longrightarrow> z_heap st p = Some bs \<Longrightarrow> mem_write bs (8 + off) xs = Some bs' \<Longrightarrow>
    z_reach he malloc realloc ha (st\<lparr>z_heap := (z_heap st)(p \<mapsto> bs')\<rparr>)"
| z_threads: "z_reach he malloc realloc ha st \<Longrightarrow> z_reach he malloc realloc ha (zmalloc_enable_thread_safeness st)"

lemma z_reach_inv:
  assumes r: "z_reach he malloc realloc ha st" and mc: "malloc_contract malloc" and rc: "realloc_contract realloc"
  shows "z_inv he st"
  using r
proof induction
  case z_start
  then show ?case by (simp add: z_inv_def)
next
  case (z_malloc st sz p st')
  from mc z_malloc(2) show ?case
    by (cases rule: zmalloc_cases [where he = he and ha = ha and st = st]) (use z_malloc in \<open>auto intro: allocated_inv\<close>)
next
  case (z_calloc st sz p st')
  from mc z_calloc(2) show ?case
    by (cases rule: zmalloc_cases [where he = he and ha = ha and st = st]) (use z_calloc in \<open>auto intro: allocated_inv\<close>)
next
  case (z_realloc st sz p q st')
  obtain old where o: "z_heap st p = Some old" using z_realloc(3) by blast
  obtain osz where b: "block_ok he old osz" by (rule z_inv_block [OF z_realloc.IH o])
  from rc z_realloc(2) o b show ?case
    by (cases rule: zrealloc_cases [where malloc = malloc and ha = ha])
      (use z_realloc(4) freed_inv [OF z_realloc.IH o b] in \<open>auto intro: allocated_inv\<close>)
next
  case (z_free st p st')
  obtain bs where o: "z_heap st p = Some bs" using z_free(2) by blast
  obtain sz where b: "block_ok he bs sz" by (rule z_inv_block [OF z_free.IH o])
  show ?case using z_free(3) freed_inv [OF z_free.IH o b] by (simp add: zfree_live [OF o b] freed_def)
next
  case (z_strdup st s p st')
  from mc z_strdup(2) show ?case
  proof (cases rule: zstrdup_cases [where he = he and ha = ha and st = st])
    case oom
    then show ?thesis using z_strdup by simp
  next
    case (ok q st1 bs bs')
    then show ?thesis using z_strdup(3) payload_write_inv [OF allocated_inv [OF z_strdup.IH ok(2)] ok(3,4)] by simp
  qed
next
  case (z_write st p bs off xs bs')
  then show ?case by (blast intro: payload_write_inv)
next
  case (z_threads st)
  then show ?case by (simp add: z_inv_def zmalloc_enable_thread_safeness_def)
qed

text \<open>
  C36. After any program of allocations, reallocations, releases and writes to live blocks, the used memory is the sum of what
  \<open>zmalloc_size\<close> says of the live blocks (so it is zero again once everything is released), and releasing a live block
  always succeeds, takes exactly its size off the used memory and leaves every other block alone.
\<close>

theorem zmalloc_accounting:
  assumes "malloc_contract malloc" and "realloc_contract realloc" and "z_reach he malloc realloc ha st"
  shows "zmalloc_used_memory st = (\<Sum>p \<in> dom (z_heap st). the (zmalloc_size he (the (z_heap st p)))) \<and>
    (z_heap st = Map.empty \<longrightarrow> zmalloc_used_memory st = 0) \<and>
    (z_heap st p = Some bs \<longrightarrow>
      (\<exists>st' n. zmalloc_size he bs = Some n \<and> zfree he (Some p) st = Inr st' \<and> z_heap st' = (z_heap st)(p := None) \<and>
        zmalloc_used_memory st' = zmalloc_used_memory st - n))"
proof -
  have inv: "z_inv he st" by (rule z_reach_inv [OF assms(3,1,2)])
  have "\<exists>st' n. zmalloc_size he bs = Some n \<and> zfree he (Some p) st = Inr st' \<and> z_heap st' = (z_heap st)(p := None) \<and>
      zmalloc_used_memory st' = zmalloc_used_memory st - n" if p: "z_heap st p = Some bs"
  proof -
    obtain sz where b: "block_ok he bs sz" by (rule z_inv_block [OF inv p])
    show ?thesis using b
      by (simp add: zfree_live [OF p b] zmalloc_size_def block_ok_def zmalloc_used_memory_def update_zmalloc_stat_free_eq pad_long_prefix)
  qed
  then show ?thesis using inv by (simp add: z_inv_def zmalloc_used_memory_def block_size_def)
qed

text \<open>
  A reallocation of a live block in a reachable state calls the out-of-memory handler or returns a block of the new
  size whose payload starts with the payload of the old one up to the smaller of the two sizes; every other block is
  untouched, the old address is gone unless it is the new one, and the used memory changes by the two sizes.
\<close>

theorem zrealloc_correct:
  assumes "malloc_contract malloc" and "realloc_contract realloc" and "z_reach he malloc realloc ha st"
    and "z_heap st p = Some old" and "read_prefix he old = Some osz" and "unat sz + 8 < 2 ^ 64"
  shows "zrealloc he malloc realloc ha (Some p) sz st = Inl (zmalloc_oom ha sz) \<or>
    (\<exists>q st' bs. zrealloc he malloc realloc ha (Some p) sz st = Inr (q, st') \<and> z_heap st' = (z_heap st)(p := None, q \<mapsto> bs) \<and>
      (q = p \<or> z_heap st q = None) \<and> zmalloc_size he bs = Some (pad_long sz + PREFIX_SIZE) \<and> length bs = unat sz + 8 \<and>
      take (min (unat osz) (unat sz)) (drop 8 bs) = take (min (unat osz) (unat sz)) (drop 8 old) \<and>
      zmalloc_used_memory st' = zmalloc_used_memory st - pad_long osz + pad_long sz)"
proof -
  have inv: "z_inv he st" by (rule z_reach_inv [OF assms(3,1,2)])
  obtain osz' where b: "block_ok he old osz'" by (rule z_inv_block [OF inv assms(4)])
  then have [simp]: "osz' = osz" using assms(5) by (simp add: block_ok_def)
  from assms(2,6,4) b show ?thesis
  proof (cases rule: zrealloc_cases [where malloc = malloc and ha = ha])
    case oom
    then show ?thesis by simp
  next
    case (ok q bs st')
    have "z_heap st' = (z_heap st)(p := None, q \<mapsto> bs)" "q = p \<or> z_heap st q = None"
      "zmalloc_size he bs = Some (pad_long sz + PREFIX_SIZE)" "length bs = unat sz + 8"
      "zmalloc_used_memory st' = zmalloc_used_memory st - pad_long osz + pad_long sz"
      using ok(2) by (auto simp: allocated_def freed_def update_zmalloc_stat_alloc_eq update_zmalloc_stat_free_eq
          zmalloc_size_def block_ok_def zmalloc_used_memory_def pad_long_prefix split: if_splits)
    then show ?thesis using ok(1,3) by auto
  qed
qed

text \<open>An allocator with eight addresses.\<close>

definition first_fit :: malloc_fun where
  "first_fit n h = map_option (\<lambda>p. (p, replicate (unat n) 0)) (find (\<lambda>p. h p = None) [0..<8])"

definition in_place :: realloc_fun where
  "in_place p n h = map_option (\<lambda>old. (p, take (unat n) (old @ replicate (unat n) 0))) (h p)"

lemma first_fit_contract: "malloc_contract first_fit"
  by (auto simp: malloc_contract_def first_fit_def find_Some_iff)

lemma in_place_contract: "realloc_contract in_place"
  by (auto simp: realloc_contract_def in_place_def min_def)

lemma zmalloc_example:
  "zmalloc LittleEndian first_fit True 2 \<lparr>z_heap = Map.empty, used_memory = 0, zmalloc_thread_safe = False\<rparr> =
     Inr (0, \<lparr>z_heap = [0 \<mapsto> [2, 0, 0, 0, 0, 0, 0, 0, 0, 0]], used_memory = 16, zmalloc_thread_safe = False\<rparr>)"
proof -
  have w: "write_prefix LittleEndian 2 (replicate (unat (10 :: u64)) 0) = Some [2, 0, 0, 0, 0, 0, 0, 0, 0, 0]" by code_simp
  have m: "first_fit 10 Map.empty = Some (0, replicate (unat (10 :: u64)) 0)" by (simp add: first_fit_def upt_rec)
  show ?thesis using w m
    by (simp del: unat_numeral unsigned_numeral add: zmalloc_def zmalloc_block_def PREFIX_SIZE_def update_zmalloc_stat_alloc_eq pad_long_def)
qed

lemmas zmalloc_example_reach = z_malloc [OF z_start _ zmalloc_example, where realloc = in_place, simplified]

theorem zmalloc_accounting_witness:
  "zfree LittleEndian (Some 0) \<lparr>z_heap = [0 \<mapsto> [2, 0, 0, 0, 0, 0, 0, 0, 0, 0]], used_memory = 16, zmalloc_thread_safe = False\<rparr> \<noteq> Inl BadAccess"
  using zmalloc_accounting [OF first_fit_contract in_place_contract zmalloc_example_reach, of 0 "[2, 0, 0, 0, 0, 0, 0, 0, 0, 0]"]
  by auto

theorem zrealloc_correct_witness:
  "zrealloc LittleEndian first_fit in_place True (Some 0) 3
     \<lparr>z_heap = [0 \<mapsto> [2, 0, 0, 0, 0, 0, 0, 0, 0, 0]], used_memory = 16, zmalloc_thread_safe = False\<rparr> \<noteq> Inl BadAccess"
  using zrealloc_correct [OF first_fit_contract in_place_contract zmalloc_example_reach,
      of 0 "[2, 0, 0, 0, 0, 0, 0, 0, 0, 0]" 2 3]
  by (auto simp: read_prefix_def mem_read_def mem_to_word_def zmalloc_oom_def)

section \<open>Sizes that wrap\<close>

text \<open>
  A size within eight bytes of the end of the address space wraps to a tiny request, and the size is then written outside the block.
\<close>

lemma zmalloc_size_wraps:
  assumes mc: "malloc_contract malloc" and w: "2 ^ 64 \<le> unat sz + 8" and m: "malloc (sz + PREFIX_SIZE) (z_heap st) = Some r"
  shows "zmalloc he malloc ha sz st = Inl BadAccess"
proof -
  obtain p bs where r: "r = (p, bs)" by force
  have "unat sz < 2 ^ 64" using unsigned_less [of sz, where ?'a = nat] by simp
  then have "(unat sz + 8) mod 2 ^ 64 = unat sz + 8 - 2 ^ 64" using w by (subst mod_if) (simp add: le_mod_geq)
  moreover have "length bs = unat (sz + PREFIX_SIZE)" using mc m r by (auto simp: malloc_contract_def)
  ultimately have "length bs < 8" using \<open>unat sz < 2 ^ 64\<close> by (simp add: PREFIX_SIZE_def unat_word_ariths)
  then show ?thesis using m r by (simp add: zmalloc_def zmalloc_block_def write_prefix_def mem_write_def)
qed

section \<open>Reading the resident set\<close>

lemma strchr_at_found:
  assumes "buf = pre @ w @ ch # rest" and "p = length pre" and "ch \<notin> set w" and "0 \<notin> set w"
  shows "strchr_at buf p ch = Some (Some (length pre + length w))"
  using assms
proof (induction w arbitrary: pre p)
  case Nil
  then show ?case by (subst strchr_at.simps) simp
next
  case (Cons x w)
  have "strchr_at buf (p + 1) ch = Some (Some (length (pre @ [x]) + length w))" using Cons.prems by (intro Cons.IH) auto
  then show ?case using Cons.prems by (subst strchr_at.simps) (auto simp: nth_append)
qed

lemma strchr_at_beyond:
  assumes "\<And>i. p \<le> i \<Longrightarrow> i < length buf \<Longrightarrow> buf ! i \<noteq> ch \<and> buf ! i \<noteq> 0"
  shows "strchr_at buf p ch = None"
  using assms by (induction buf p ch rule: strchr_at.induct) (subst strchr_at.simps, auto)

lemma skip_fields_found:
  assumes "buf = pre @ concat (map (\<lambda>f. f @ [32]) fs) @ rest" and "p = length pre" and "\<forall>f \<in> set fs. 32 \<notin> set f \<and> 0 \<notin> set f"
  shows "skip_fields (length fs) buf p = Some (Some (length pre + length (concat (map (\<lambda>f. f @ [32]) fs))))"
  using assms
proof (induction fs arbitrary: pre p)
  case Nil
  then show ?case by simp
next
  case (Cons f fs)
  have s: "strchr_at buf p 32 = Some (Some (length pre + length f))"
    by (rule strchr_at_found [of _ pre f _ "concat (map (\<lambda>f. f @ [32]) fs) @ rest"]) (use Cons.prems in auto)
  have "skip_fields (length fs) buf (length pre + length f + 1) =
      Some (Some (length (pre @ f @ [32]) + length (concat (map (\<lambda>f. f @ [32]) fs))))"
    by (rule Cons.IH) (use Cons.prems in auto)
  then show ?case by (simp add: s)
qed

lemma rss_field:
  assumes "content = concat (map (\<lambda>f. f @ [32]) fs) @ rss @ 32 # rest" and "length fs = 23"
    and "\<forall>f \<in> set (rss # fs). 32 \<notin> set f \<and> 0 \<notin> set f" and "length (concat (map (\<lambda>f. f @ [32]) fs)) + length rss < 4096"
  shows "zmalloc_get_rss page (Some content) raw = Some (of_int (fst (strtoll rss 10)) * page)"
proof -
  let ?pre = "concat (map (\<lambda>f. f @ [32]) fs)"
  obtain tail where t: "take 4096 content @ drop (length (take 4096 content)) raw = ?pre @ rss @ 32 # tail" (is "?buf = _")
    using assms(1,4) by (auto simp: take_append take_Cons' Let_def)
  have "skip_fields (length fs) ?buf 0 = Some (Some (length ([] :: byte list) + length ?pre))"
    by (rule skip_fields_found [where rest = "rss @ 32 # tail"]) (use t assms(3) in auto)
  then have "skip_fields 23 ?buf 0 = Some (Some (length ?pre))" by (simp add: assms(2))
  moreover have "strchr_at ?buf (length ?pre) 32 = Some (Some (length ?pre + length rss))"
    by (rule strchr_at_found [of _ _ _ _ tail]) (use t assms(3) in auto)
  moreover have "take 4096 content \<noteq> []" using assms(1) by simp
  moreover have "take (length rss) (drop (length ?pre) ?buf) = rss" by (simp only: t) simp
  ultimately show ?thesis unfolding zmalloc_get_rss_def Let_def by (simp del: length_take take_append drop_append)
qed

text \<open>
  When the file starts with 23 fields and the resident set size as the 24th, each followed by one space and without
  spaces or zeros inside, and the first 4096 bytes reach that far, the result is the number in the 24th field times the page size.
\<close>

theorem zmalloc_get_rss_correct:
  assumes "content = concat (map (\<lambda>f. f @ [32]) fs) @ rss @ 32 # rest" and "length fs = 23"
    and "\<forall>f \<in> set (rss # fs). 32 \<notin> set f \<and> 0 \<notin> set f" and "length (concat (map (\<lambda>f. f @ [32]) fs)) + length rss < 4096"
  shows "zmalloc_get_rss page (Some content) raw = Some (of_int (fst (strtoll rss 10)) * page)"
  using assms by (rule rss_field)

theorem zmalloc_get_rss_correct_witness:
  "zmalloc_get_rss 4096 (Some (concat (map (\<lambda>f. f @ [32]) (replicate 23 [49])) @ [55] @ 32 # [])) [] = Some 28672"
proof -
  have n: "fst (strtoll [55] 10) = 7" by code_simp
  have l: "length (concat (map (\<lambda>f. f @ [32]) (replicate 23 [49 :: byte]))) + length [55 :: byte] < 4096"
    by (simp add: length_concat sum_list_replicate del: concat_replicate_trivial)
  have z: "\<forall>f \<in> set ([55] # replicate 23 [49 :: byte]). 32 \<notin> set f \<and> 0 \<notin> set f" by simp
  show ?thesis by (subst zmalloc_get_rss_correct [OF refl _ z l]) (simp_all add: n)
qed

text \<open>The buffer has no terminating zero of its own: a file that fills it without enough spaces is read beyond its end.\<close>

lemma zmalloc_get_rss_unterminated:
  assumes "length raw = 4096"
  shows "zmalloc_get_rss page (Some (replicate 4096 65)) raw = None"
proof -
  have "strchr_at (replicate 4096 65) 0 32 = None" by (rule strchr_at_beyond) simp
  then have "skip_fields (Suc 22) (replicate 4096 65) 0 = None" by (simp only: skip_fields.simps option.case)
  moreover have "Suc 22 = 23" by simp
  ultimately have "skip_fields 23 (replicate 4096 65) 0 = None" by (simp only:)
  then show ?thesis using assms by (simp add: zmalloc_get_rss_def)
qed

text \<open>A process whose name contains a space shifts the fields: the size of the virtual memory is read instead.\<close>

lemma zmalloc_get_rss_name_with_space:
  "zmalloc_get_rss page (Some (concat (map (\<lambda>f. f @ [32]) ([[49], [40, 97, 32, 98, 41]] @ replicate 20 [48] @ [[50], [51]])))) raw = Some (2 * page)"
proof -
  let ?fs = "[[49], [40, 97], [98, 41]] @ replicate 20 [48 :: byte]"
  have n: "fst (strtoll [50] 10) = 2" by code_simp
  have l: "length (concat (map (\<lambda>f. f @ [32]) ?fs)) + length [50 :: byte] < 4096" by (simp add: length_concat sum_list_replicate)
  have z: "\<forall>f \<in> set ([50] # ?fs). 32 \<notin> set f \<and> 0 \<notin> set f" by simp
  have c: "concat (map (\<lambda>f. f @ [32]) ([[49], [40, 97, 32, 98, 41]] @ replicate 20 [48] @ [[50], [51]])) =
      concat (map (\<lambda>f. f @ [32]) ?fs) @ [50] @ 32 # [51, 32]" by simp
  show ?thesis by (subst rss_field [OF c _ z l]) (simp_all add: n)
qed

end
