(* ===== verification/Logging.thy ===== *)
theory Logging
  imports NetworkText TimeUtils "HOL-Library.Signed_Division"
begin

text \<open>
  Logging (\<open>src/logging.{h,cpp}\<close>): thresholds, the list of streams with their severities, the text of a message and
  its delivery.  What reaches the standard error output and the streams is the result of a \<open>LOG\<close> statement.
\<close>

section \<open>Severities\<close>

datatype severity = LS_DEBUG | LS_TRACE | LS_NOTICE | LS_WARNING | LS_FATAL | LS_NONE

fun sev_num :: "severity \<Rightarrow> nat" where
  "sev_num LS_DEBUG = 0"
| "sev_num LS_TRACE = 1"
| "sev_num LS_NOTICE = 2"
| "sev_num LS_WARNING = 3"
| "sev_num LS_FATAL = 4"
| "sev_num LS_NONE = 5"

lemma sev_num_inj: "sev_num a = sev_num b \<longleftrightarrow> a = b"
  by (cases a; cases b) simp_all

instantiation severity :: linorder
begin

definition less_eq_severity :: "severity \<Rightarrow> severity \<Rightarrow> bool" where
  "less_eq_severity a b \<longleftrightarrow> sev_num a \<le> sev_num b"

definition less_severity :: "severity \<Rightarrow> severity \<Rightarrow> bool" where
  "less_severity a b \<longleftrightarrow> sev_num a < sev_num b"

instance
  by standard (auto simp: less_eq_severity_def less_severity_def sev_num_inj)

end

section \<open>The state of the log\<close>

type_synonym sink = nat

record log_state =
  min_sev :: severity
  dbg_sev :: severity
  log_to_stderr_flag :: bool
  streams :: "(sink \<times> severity) list"
  log_thread_on :: bool
  log_timestamp_on :: bool
  log_start :: "int option"
  log_wallclock :: "u32 option"

text \<open>\<open>ndebug\<close>: the library is built without debugging.\<close>

definition log_initial :: "bool \<Rightarrow> log_state" where
  "log_initial ndebug =
     \<lparr>min_sev = (if ndebug then LS_NONE else LS_NOTICE), dbg_sev = (if ndebug then LS_NONE else LS_NOTICE),
      log_to_stderr_flag = True, streams = [], log_thread_on = False, log_timestamp_on = False, log_start = None, log_wallclock = None\<rparr>"

definition loggable :: "log_state \<Rightarrow> severity \<Rightarrow> bool" where
  "loggable st sev \<longleftrightarrow> sev \<ge> min_sev st"

definition update_min_log_severity :: "log_state \<Rightarrow> log_state" where
  "update_min_log_severity st = st\<lparr>min_sev := fold (\<lambda>kv m. min (dbg_sev st) (snd kv)) (streams st) (dbg_sev st)\<rparr>"

definition log_threads :: "bool \<Rightarrow> log_state \<Rightarrow> log_state" where
  "log_threads on st = st\<lparr>log_thread_on := on\<rparr>"

definition log_timestamps :: "bool \<Rightarrow> log_state \<Rightarrow> log_state" where
  "log_timestamps on st = st\<lparr>log_timestamp_on := on\<rparr>"

definition log_to_debug :: "severity \<Rightarrow> log_state \<Rightarrow> log_state" where
  "log_to_debug sev st = update_min_log_severity (st\<lparr>dbg_sev := sev\<rparr>)"

definition get_log_to_debug :: "log_state \<Rightarrow> severity" where
  "get_log_to_debug st = dbg_sev st"

definition set_log_to_stderr :: "bool \<Rightarrow> log_state \<Rightarrow> log_state" where
  "set_log_to_stderr on st = st\<lparr>log_to_stderr_flag := on\<rparr>"

definition get_log_to_stream :: "sink option \<Rightarrow> log_state \<Rightarrow> severity" where
  "get_log_to_stream stream st =
     fold (\<lambda>kv sev. if stream = None \<or> stream = Some (fst kv) then min sev (snd kv) else sev) (streams st) LS_NONE"

definition add_log_to_stream :: "sink \<Rightarrow> severity \<Rightarrow> log_state \<Rightarrow> log_state" where
  "add_log_to_stream stream sev st = update_min_log_severity (st\<lparr>streams := streams st @ [(stream, sev)]\<rparr>)"

fun erase_stream :: "sink \<Rightarrow> (sink \<times> severity) list \<Rightarrow> (sink \<times> severity) list" where
  "erase_stream stream [] = []"
| "erase_stream stream (kv # kvs) = (if stream = fst kv then kvs else kv # erase_stream stream kvs)"

definition remove_log_to_stream :: "sink \<Rightarrow> log_state \<Rightarrow> log_state" where
  "remove_log_to_stream stream st = update_min_log_severity (st\<lparr>streams := erase_stream stream (streams st)\<rparr>)"

text \<open>One token of the parameters: the current level, the level of the debug output and the state.\<close>

definition configure_token :: "bstring \<Rightarrow> severity \<times> severity \<times> log_state \<Rightarrow> severity \<times> severity \<times> log_state" where
  "configure_token token = (\<lambda>(current_level, debug_level, st).
     if token = [] then (current_level, debug_level, st)
     else
       let (current_level, st) =
             (if token = str ''tstamp'' then (current_level, log_timestamps True st)
              else if token = str ''thread'' then (current_level, log_threads True st)
              else if token = str ''debug'' then (LS_DEBUG, st)
              else if token = str ''trace'' then (LS_TRACE, st)
              else if token = str ''notice'' then (LS_NOTICE, st)
              else if token = str ''warning'' then (LS_WARNING, st)
              else if token = str ''fatal'' then (LS_FATAL, st)
              else if token = str ''none'' then (LS_NONE, st)
              else (current_level, st));
           debug_level = (if token = str ''debug'' then current_level else debug_level)
       in (current_level, debug_level, st))"

definition configure_logging :: "bstring \<Rightarrow> log_state \<Rightarrow> log_state" where
  "configure_logging params st =
     (let tokens = snd (tokenize params 32);
          (current_level, debug_level, st) = fold configure_token tokens (LS_TRACE, get_log_to_debug st, st)
      in log_to_debug debug_level st)"

section \<open>Messages\<close>

datatype log_error_context = ERRCTX_NONE | ERRCTX_ERRNO | ERRCTX_HRESULT | ERRCTX_OSSTATUS

record log_message =
  lm_print_stream :: bstring
  lm_severity :: severity
  lm_tag :: bstring
  lm_extra :: bstring

definition log_start_time :: "int \<Rightarrow> log_state \<Rightarrow> int \<times> log_state" where
  "log_start_time now st = (case log_start st of None \<Rightarrow> (now, st\<lparr>log_start := Some now\<rparr>) | Some g_start \<Rightarrow> (g_start, st))"

definition wall_clock_start_time :: "int \<Rightarrow> log_state \<Rightarrow> u32 \<times> log_state" where
  "wall_clock_start_time time st =
     (case log_wallclock st of None \<Rightarrow> (of_int time, st\<lparr>log_wallclock := Some (of_int time)\<rparr>) | Some g \<Rightarrow> (g, st))"

definition setw :: "nat \<Rightarrow> char \<Rightarrow> bstring \<Rightarrow> bstring" where
  "setw w fill s = replicate (w - length s) (of_char fill) @ s"

text \<open>
  What a message needs from outside: the thread, the clocks and the texts of the error numbers.
\<close>

record log_env =
  le_thread :: nat
  le_now :: int
  le_time :: int
  le_strerror :: "int \<Rightarrow> bstring"

definition log_message_new ::
    "log_env \<Rightarrow> bstring option \<Rightarrow> int \<Rightarrow> severity \<Rightarrow> log_error_context \<Rightarrow> int \<Rightarrow> log_state \<Rightarrow> log_message \<times> log_state" where
  "log_message_new env file line sev err_ctx err st =
     (let thread_text = (if log_thread_on st then str ''['' @ dec_nat (le_thread env) @ str ''] '' else []);
          (time_text, st) =
            (if log_timestamp_on st then
               let (start, st) = log_start_time (le_now env) st;
                   time = time_diff (le_now env) start;
                   st = snd (wall_clock_start_time (le_time env) st)
               in (str ''['' @ setw 3 CHR ''0'' (dec_int (time sdiv 1000)) @ str '':'' @ setw 3 CHR ''0'' (dec_int (time smod 1000)) @ str ''] '', st)
             else ([], st));
          file_text = (case file of None \<Rightarrow> [] | Some file \<Rightarrow> str ''('' @ file @ str '':'' @ dec_int line @ str ''): '');
          extra =
            (if err_ctx \<noteq> ERRCTX_NONE then
               str ''[0x'' @ setw 8 CHR ''0'' (hex_nat (unat (of_int err :: u32))) @ str '']'' @
               (if err_ctx = ERRCTX_ERRNO then str '' '' @ le_strerror env err else [])
             else [])
      in (\<lparr>lm_print_stream = thread_text @ time_text @ file_text, lm_severity = sev, lm_tag = str ''ICE'', lm_extra = extra\<rparr>, st))"

definition log_message_new_tag :: "log_env \<Rightarrow> bstring option \<Rightarrow> int \<Rightarrow> severity \<Rightarrow> bstring \<Rightarrow> log_state \<Rightarrow> log_message \<times> log_state" where
  "log_message_new_tag env file line sev tag st =
     (let (m, st) = log_message_new env file line sev ERRCTX_NONE 0 st
      in (m\<lparr>lm_tag := tag, lm_print_stream := lm_print_stream m @ tag @ str '': ''\<rparr>, st))"

text \<open>What is written to the standard error output, and the calls of \<open>on_log_message\<close>.\<close>

record log_output =
  lo_stderr :: bstring
  lo_sinks :: "(sink \<times> bstring \<times> severity) list"

definition output_to_debug :: "log_state \<Rightarrow> bstring \<Rightarrow> bstring" where
  "output_to_debug st text = (if log_to_stderr_flag st then text else [])"

definition log_message_delete :: "log_state \<Rightarrow> log_message \<Rightarrow> log_output" where
  "log_message_delete st m =
     (let print_stream = lm_print_stream m @ (if lm_extra m \<noteq> [] then str '' : '' @ lm_extra m else []) @ [10]
      in \<lparr>lo_stderr = (if lm_severity m \<ge> dbg_sev st then output_to_debug st print_stream else []),
          lo_sinks = map (\<lambda>kv. (fst kv, print_stream, lm_severity m)) (filter (\<lambda>kv. lm_severity m \<ge> snd kv) (streams st))\<rparr>)"

text \<open>\<open>LOG_E(sev, ctx, err) << text\<close>; \<open>LOG(sev)\<close> is the case without an error.\<close>

definition LOG_E :: "log_env \<Rightarrow> bstring \<Rightarrow> int \<Rightarrow> severity \<Rightarrow> log_error_context \<Rightarrow> int \<Rightarrow> bstring \<Rightarrow> log_state \<Rightarrow> log_output \<times> log_state" where
  "LOG_E env file line sev ctx err text st =
     (if \<not> loggable st sev then (\<lparr>lo_stderr = [], lo_sinks = []\<rparr>, st)
      else
        let (m, st) = log_message_new env (Some file) line sev ctx err st
        in (log_message_delete st (m\<lparr>lm_print_stream := lm_print_stream m @ text\<rparr>), st))"

section \<open>Locations\<close>

record location =
  loc_function_name :: bstring
  loc_file_and_line :: bstring

definition location_new :: "bstring \<Rightarrow> bstring \<Rightarrow> location" where
  "location_new function_name file_and_line = \<lparr>loc_function_name = function_name, loc_file_and_line = file_and_line\<rparr>"

definition location_unknown :: location where
  "location_unknown = \<lparr>loc_function_name = str ''Unknown'', loc_file_and_line = str ''Unknown''\<rparr>"

definition location_assign :: "location \<Rightarrow> location \<Rightarrow> location" where
  "location_assign l other = l\<lparr>loc_function_name := loc_function_name other, loc_file_and_line := loc_file_and_line other\<rparr>"

definition location_to_string :: "location \<Rightarrow> bstring" where
  "location_to_string l = sprintfn 256 (loc_function_name l @ str ''@'' @ loc_file_and_line l)"

section \<open>Thresholds\<close>

lemma fold_min_last: "fold (\<lambda>kv m. min d (snd kv)) kvs d' = (if kvs = [] then d' else min d (snd (last kvs)))"
  by (induction kvs rule: rev_induct) simp_all

text \<open>The minimum that the code computes: of the debug level and the level of the last stream.\<close>

definition log_inv :: "log_state \<Rightarrow> bool" where
  "log_inv st \<longleftrightarrow> min_sev st = (if streams st = [] then dbg_sev st else min (dbg_sev st) (snd (last (streams st))))"

lemma update_min_log_severity_inv: "log_inv (update_min_log_severity st)"
  by (simp add: log_inv_def update_min_log_severity_def fold_min_last)

text \<open>
  Of the levels only the word for the most verbose one has an effect, and it selects that level whatever else is said.
\<close>

lemma configure_fold:
  "snd (fold configure_token tokens (current_level, debug_level, st)) =
     (if str ''debug'' \<in> set tokens then LS_DEBUG else debug_level,
      st\<lparr>log_thread_on := log_thread_on st \<or> str ''thread'' \<in> set tokens,
         log_timestamp_on := log_timestamp_on st \<or> str ''tstamp'' \<in> set tokens\<rparr>)"
proof (induction tokens arbitrary: current_level debug_level st)
  case (Cons token tokens)
  obtain c d s where t: "configure_token token (current_level, debug_level, st) = (c, d, s)" by (metis prod_cases3)
  have "d = (if str ''debug'' = token then LS_DEBUG else debug_level)"
    "s = st\<lparr>log_thread_on := log_thread_on st \<or> str ''thread'' = token, log_timestamp_on := log_timestamp_on st \<or> str ''tstamp'' = token\<rparr>"
    using t by (auto simp: configure_token_def log_threads_def log_timestamps_def str_def Let_def split: if_splits)
  then show ?case by (simp add: t Cons.IH disj_assoc)
qed simp

lemma configure_logging_eq:
  "configure_logging params st =
     (let tokens = snd (tokenize params 32)
      in log_to_debug (if str ''debug'' \<in> set tokens then LS_DEBUG else dbg_sev st)
           (st\<lparr>log_thread_on := log_thread_on st \<or> str ''thread'' \<in> set tokens,
               log_timestamp_on := log_timestamp_on st \<or> str ''tstamp'' \<in> set tokens\<rparr>))"
  using configure_fold [of "snd (tokenize params 32)" LS_TRACE "dbg_sev st" st]
  by (simp add: configure_logging_def get_log_to_debug_def Let_def split_beta)

section \<open>Delivery\<close>

lemma log_message_new_state:
  assumes "log_message_new env file line sev ctx err st = (m, st')"
  shows "streams st' = streams st" "dbg_sev st' = dbg_sev st" "min_sev st' = min_sev st" "log_to_stderr_flag st' = log_to_stderr_flag st"
    "lm_severity m = sev"
  using assms by (auto simp: log_message_new_def log_start_time_def wall_clock_start_time_def Let_def split: if_splits option.splits prod.splits)

inductive log_reach :: "bool \<Rightarrow> log_state \<Rightarrow> bool" for ndebug where
  log_start: "log_reach ndebug (log_initial ndebug)"
| log_set_threads: "log_reach ndebug st \<Longrightarrow> log_reach ndebug (log_threads on st)"
| log_set_timestamps: "log_reach ndebug st \<Longrightarrow> log_reach ndebug (log_timestamps on st)"
| log_set_debug: "log_reach ndebug st \<Longrightarrow> log_reach ndebug (log_to_debug sev st)"
| log_set_stderr: "log_reach ndebug st \<Longrightarrow> log_reach ndebug (set_log_to_stderr on st)"
| log_add: "log_reach ndebug st \<Longrightarrow> log_reach ndebug (add_log_to_stream stream sev st)"
| log_remove: "log_reach ndebug st \<Longrightarrow> log_reach ndebug (remove_log_to_stream stream st)"
| log_configure: "log_reach ndebug st \<Longrightarrow> log_reach ndebug (configure_logging params st)"
| log_log: "log_reach ndebug st \<Longrightarrow> LOG_E env file line sev ctx err text st = (out, st') \<Longrightarrow> log_reach ndebug st'"

lemma log_reach_inv: "log_reach ndebug st \<Longrightarrow> log_inv st"
proof (induction rule: log_reach.induct)
  case (log_log st env f l sev ctx err tx out st')
  then show ?case
    by (auto simp: LOG_E_def log_inv_def log_message_new_state split: if_splits prod.splits)
qed (simp_all add: log_to_debug_def add_log_to_stream_def remove_log_to_stream_def configure_logging_eq Let_def update_min_log_severity_inv,
     simp_all add: log_inv_def log_initial_def log_threads_def log_timestamps_def set_log_to_stderr_def)

text \<open>
  C40. Delivery of log messages in every reachable state.  A message is never handed to a stream whose level it does not reach.  If it reaches the
  debug level, or if no stream has a lower level than the last one of the list (as with one stream only), it is handed, in the order of the list and with
  the same text, to exactly the streams whose level it reaches.  It is written to the standard error output exactly when it reaches the debug level and
  \<open>set_log_to_stderr\<close> has not switched that output off.  Logging changes no threshold and no stream.
\<close>

theorem logging_delivery:
  assumes "log_reach ndebug st" and "LOG_E env file line sev ctx err text st = (out, st')"
  shows "\<exists>before after.
    (dbg_sev st \<le> sev \<or> (\<forall>kv \<in> set (streams st). snd (last (streams st)) \<le> snd kv) \<longrightarrow>
      map fst (lo_sinks out) = map fst (filter (\<lambda>kv. snd kv \<le> sev) (streams st))) \<and>
    (\<forall>(k, t, s) \<in> set (lo_sinks out). (\<exists>l \<le> sev. (k, l) \<in> set (streams st)) \<and> t = before @ text @ after @ [10] \<and> s = sev) \<and>
    lo_stderr out = (if dbg_sev st \<le> sev \<and> log_to_stderr_flag st then before @ text @ after @ [10] else []) \<and>
    streams st' = streams st \<and> dbg_sev st' = dbg_sev st \<and> min_sev st' = min_sev st"
proof -
  have inv: "loggable st sev \<longleftrightarrow> dbg_sev st \<le> sev \<or> (streams st \<noteq> [] \<and> snd (last (streams st)) \<le> sev)"
    using log_reach_inv [OF assms(1)] by (auto simp: loggable_def log_inv_def min_le_iff_disj)
  show ?thesis
  proof (cases "loggable st sev")
    case False
    then have "filter (\<lambda>kv. snd kv \<le> sev) (streams st) = []" if "\<forall>kv \<in> set (streams st). snd (last (streams st)) \<le> snd kv"
      using inv that order.trans by (fastforce simp: filter_empty_conv)
    then show ?thesis using False assms(2) inv by (auto simp: LOG_E_def)
  next
    case True
    obtain m st1 where m: "log_message_new env (Some file) line sev ctx err st = (m, st1)" by fastforce
    note s = log_message_new_state [OF m]
    have o: "out = log_message_delete st1 (m\<lparr>lm_print_stream := lm_print_stream m @ text\<rparr>)" "st' = st1"
      using assms(2) True m by (auto simp: LOG_E_def)
    show ?thesis
      by (rule exI [of _ "lm_print_stream m"], rule exI [of _ "if lm_extra m \<noteq> [] then str '' : '' @ lm_extra m else []"])
        (auto simp: o s log_message_delete_def output_to_debug_def Let_def comp_def)
  qed
qed

theorem logging_delivery_witness:
  "lo_sinks (fst (LOG_E \<lparr>le_thread = 1, le_now = 0, le_time = 0, le_strerror = (\<lambda>_. [])\<rparr> [97] 3 LS_WARNING ERRCTX_NONE 0 [98]
     (add_log_to_stream 7 LS_NOTICE (log_initial False)))) \<noteq> []"
proof -
  let ?st = "add_log_to_stream 7 LS_NOTICE (log_initial False)"
  let ?env = "\<lparr>le_thread = 1, le_now = 0, le_time = 0, le_strerror = (\<lambda>_. [])\<rparr>"
  obtain out st' where o: "LOG_E ?env [97] 3 LS_WARNING ERRCTX_NONE 0 [98] ?st = (out, st')" by fastforce
  have "log_reach False ?st" by (intro log_reach.intros)
  from logging_delivery [OF this o] have "map fst (lo_sinks out) = [7]"
    by (auto simp: add_log_to_stream_def log_initial_def update_min_log_severity_def less_eq_severity_def)
  then show ?thesis using o by auto
qed

text \<open>Only the stream added last counts: a more verbose one before it loses messages.\<close>

lemma log_message_lost:
  "fst (LOG_E env file line LS_DEBUG ERRCTX_NONE 0 text (add_log_to_stream 2 LS_FATAL (add_log_to_stream 1 LS_DEBUG (log_initial ndebug)))) =
     \<lparr>lo_stderr = [], lo_sinks = []\<rparr>"
  by (auto simp: LOG_E_def loggable_def add_log_to_stream_def update_min_log_severity_def log_initial_def less_eq_severity_def min_def)

text \<open>Asking for warnings on the debug output gives everything, and a level alone changes nothing.\<close>

lemma configure_logging_level_ignored:
  "dbg_sev (configure_logging (str ''warning debug'') st) = LS_DEBUG" "dbg_sev (configure_logging (str ''none'') st) = dbg_sev st"
proof -
  have "snd (tokenize (str ''warning debug'') 32) = [str ''warning'', str ''debug'']" by (simp add: tokenize_spec str_def)
  then show "dbg_sev (configure_logging (str ''warning debug'') st) = LS_DEBUG"
    by (simp add: configure_logging_eq log_to_debug_def update_min_log_severity_def)
  have "snd (tokenize (str ''none'') 32) = [str ''none'']" by (simp add: tokenize_spec str_def)
  then show "dbg_sev (configure_logging (str ''none'') st) = dbg_sev st"
    by (simp add: configure_logging_eq log_to_debug_def update_min_log_severity_def str_def)
qed

text \<open>The level of a stream is the smallest it was added with.\<close>

lemma get_log_to_stream_correct:
  "get_log_to_stream stream st = Min (insert LS_NONE (snd ` {kv \<in> set (streams st). stream = None \<or> stream = Some (fst kv)}))"
proof -
  have m: "finite A \<Longrightarrow> Min (insert (min a b) A) = Min (insert a (insert b A))" for a b :: severity and A
    by (cases "A = {}") (simp_all add: min.assoc)
  have "fold (\<lambda>kv sev. if stream = None \<or> stream = Some (fst kv) then min sev (snd kv) else sev) kvs s =
      Min (insert s (snd ` {kv \<in> set kvs. stream = None \<or> stream = Some (fst kv)}))" for kvs :: "(sink \<times> severity) list" and s
  proof (induction kvs arbitrary: s)
    case (Cons kv kvs)
    let ?A = "snd ` {kv \<in> set kvs. stream = None \<or> stream = Some (fst kv)}"
    have a: "{kv' \<in> set (kv # kvs). stream = None \<or> stream = Some (fst kv')} =
        (if stream = None \<or> stream = Some (fst kv) then {kv} else {}) \<union> {kv \<in> set kvs. stream = None \<or> stream = Some (fst kv)}" by auto
    have "Min (insert (min s (snd kv)) ?A) = Min (insert s (insert (snd kv) ?A))" by (rule m) simp
    then show ?case unfolding a by (simp add: Cons.IH image_Un)
  qed simp
  then show ?thesis by (simp add: get_log_to_stream_def)
qed

text \<open>A location that fits the buffer is printed in full, and an assignment copies it.\<close>

lemma location_text:
  "length (loc_function_name l) + length (loc_file_and_line l) < 255 \<Longrightarrow>
     location_to_string (location_assign other l) = loc_function_name l @ str ''@'' @ loc_file_and_line l"
  by (simp add: location_to_string_def location_assign_def sprintfn_def str_def)

end
