(* ===== verification/PhysicalSocket.thy ===== *)
theory PhysicalSocket
  imports SocketAddress "HOL-Library.Monad_Syntax"
begin

text \<open>
  Sockets over descriptors of the system (\<open>src/socket.h\<close>, \<open>src/physical_socket_server.{h,cpp}\<close>).  The system has a table of open
  descriptors with their status flags and the last error number; the outcome of a call, its result and the error
  number it leaves, is an argument.  \<open>None\<close> is a call on a descriptor that is not open, which may belong to somebody else by then.
\<close>

section \<open>The system\<close>

record os =
  os_fds :: "int \<Rightarrow> u32 option"
  os_errno :: int

definition INVALID_SOCKET :: int where "INVALID_SOCKET = -1"
definition EWOULDBLOCK :: int where "EWOULDBLOCK = 11"
definition EAGAIN :: int where "EAGAIN = 11"
definition EINPROGRESS :: int where "EINPROGRESS = 115"
definition O_NONBLOCK :: u32 where "O_NONBLOCK = 2048"
definition SOCK_STREAM :: int where "SOCK_STREAM = 1"
definition SOCK_DGRAM :: int where "SOCK_DGRAM = 2"

definition sys_socket :: "int \<times> int \<Rightarrow> os \<Rightarrow> int \<times> os" where
  "sys_socket out os =
     (fst out, os\<lparr>os_fds := (if fst out = INVALID_SOCKET then os_fds os else (os_fds os)(fst out \<mapsto> 0)), os_errno := snd out\<rparr>)"

text \<open>A new descriptor is a number that was not in use.\<close>

definition socket_outcome :: "os \<Rightarrow> int \<times> int \<Rightarrow> bool" where
  "socket_outcome os out \<longleftrightarrow> fst out = INVALID_SOCKET \<or> 0 \<le> fst out \<and> os_fds os (fst out) = None"

definition sys_close :: "int \<Rightarrow> int \<times> int \<Rightarrow> os \<Rightarrow> (int \<times> os) option" where
  "sys_close fd out os = do {
     flags \<leftarrow> os_fds os fd;
     Some (fst out, os\<lparr>os_fds := (os_fds os)(fd := None), os_errno := snd out\<rparr>) }"

section \<open>Sockets\<close>

definition is_blocking_error :: "int \<Rightarrow> bool" where
  "is_blocking_error e \<longleftrightarrow> e = EWOULDBLOCK \<or> e = EAGAIN \<or> e = EINPROGRESS"

text \<open>\<open>ps_udp\<close> is \<open>None\<close> as long as it is not initialised.\<close>

record physical_socket =
  ps_s :: int
  ps_udp :: "bool option"
  ps_error :: int

definition ps_get_error :: "physical_socket \<Rightarrow> int" where
  "ps_get_error ps = ps_error ps"

definition ps_set_error :: "int \<Rightarrow> physical_socket \<Rightarrow> physical_socket" where
  "ps_set_error err ps = ps\<lparr>ps_error := err\<rparr>"

definition update_last_error :: "os \<Rightarrow> physical_socket \<Rightarrow> physical_socket" where
  "update_last_error os ps = ps_set_error (os_errno os) ps"

text \<open>The outcome of \<open>getsockopt\<close> for the type of the socket: result and type.\<close>

definition physical_socket_new :: "int \<Rightarrow> int \<times> int \<Rightarrow> physical_socket" where
  "physical_socket_new s out =
     \<lparr>ps_s = s,
      ps_udp = (if s \<noteq> INVALID_SOCKET then Some (SOCK_DGRAM = (if fst out \<noteq> 0 then SOCK_STREAM else snd out)) else None),
      ps_error = 0\<rparr>"

definition ps_close :: "int \<times> int \<Rightarrow> physical_socket \<Rightarrow> os \<Rightarrow> (int \<times> physical_socket \<times> os) option" where
  "ps_close out ps os =
     (if ps_s ps = INVALID_SOCKET then Some (0, ps, os)
      else do {
        (err, os) \<leftarrow> sys_close (ps_s ps) out os;
        let ps = update_last_error os ps;
        Some (err, ps\<lparr>ps_s := INVALID_SOCKET\<rparr>, os) })"

definition physical_socket_delete :: "int \<times> int \<Rightarrow> physical_socket \<Rightarrow> os \<Rightarrow> os option" where
  "physical_socket_delete out ps os = do { (err, ps, os) \<leftarrow> ps_close out ps os; Some os }"

definition ps_create :: "int \<Rightarrow> int \<times> int \<Rightarrow> int \<times> int \<Rightarrow> physical_socket \<Rightarrow> os \<Rightarrow> (bool \<times> physical_socket \<times> os) option" where
  "ps_create type close_out socket_out ps os = do {
     (err, ps, os) \<leftarrow> ps_close close_out ps os;
     let (s, os) = sys_socket socket_out os;
     let ps = ps\<lparr>ps_s := s, ps_udp := Some (SOCK_DGRAM = type)\<rparr>;
     let ps = update_last_error os ps;
     Some (ps_s ps \<noteq> INVALID_SOCKET, ps, os) }"

definition ps_create_async :: "int \<Rightarrow> int \<times> int \<Rightarrow> int \<times> int \<Rightarrow> physical_socket \<Rightarrow> os \<Rightarrow> (bool \<times> physical_socket \<times> os) option" where
  "ps_create_async type close_out socket_out ps os = do {
     (created, ps, os) \<leftarrow> ps_create type close_out socket_out ps os;
     if \<not> created then Some (False, ps, os)
     else do {
       flags \<leftarrow> os_fds os (ps_s ps);
       Some (True, ps, os\<lparr>os_fds := (os_fds os)(ps_s ps \<mapsto> flags OR O_NONBLOCK)\<rparr>) } }"

text \<open>The factory: a new socket, or none when its descriptor cannot be created.\<close>

definition create_socket :: "int \<Rightarrow> int \<times> int \<Rightarrow> os \<Rightarrow> (physical_socket option \<times> os) option" where
  "create_socket type socket_out os = do {
     let socket = physical_socket_new INVALID_SOCKET (0, 0);
     (created, socket, os) \<leftarrow> ps_create type (0, 0) socket_out socket os;
     if created then Some (Some socket, os)
     else do { os \<leftarrow> physical_socket_delete (0, 0) socket os; Some (None, os) } }"

definition create_async_socket :: "int \<Rightarrow> int \<times> int \<Rightarrow> os \<Rightarrow> (physical_socket option \<times> os) option" where
  "create_async_socket type socket_out os = do {
     let socket = physical_socket_new INVALID_SOCKET (0, 0);
     (created, socket, os) \<leftarrow> ps_create_async type (0, 0) socket_out socket os;
     if created then Some (Some socket, os)
     else do { os \<leftarrow> physical_socket_delete (0, 0) socket os; Some (None, os) } }"

section \<open>Addresses, sending and receiving\<close>

text \<open>The address variables start with the contents \<open>raw\<close>; \<open>getsockname\<close> gives its result and an address.\<close>

definition ps_get_local_address :: "endian \<Rightarrow> socket_address \<Rightarrow> (int \<Rightarrow> int \<times> sockaddr_storage) \<Rightarrow> physical_socket \<Rightarrow> socket_address" where
  "ps_get_local_address he raw getsockname ps =
     (let (result, addr_storage) = getsockname (ps_s ps);
          address = sa_new raw
      in if result \<ge> 0
         then (case socket_address_from_sockaddr_storage he address addr_storage of None \<Rightarrow> address | Some a \<Rightarrow> a)
         else address)"

definition ps_bind :: "endian \<Rightarrow> (int \<Rightarrow> sockaddr_storage \<Rightarrow> nat \<Rightarrow> int \<times> int) \<Rightarrow> socket_address \<Rightarrow> physical_socket \<Rightarrow> os \<Rightarrow> int \<times> physical_socket \<times> os" where
  "ps_bind he sys_bind addr ps os =
     (let (len, storage) = to_sockaddr_storage he addr;
          (err, errno) = sys_bind (ps_s ps) storage len;
          os = os\<lparr>os_errno := errno\<rparr>
      in (err, update_last_error os ps, os))"

text \<open>The result of a transfer: the bytes, 0 when the call would block, -1 for an error or nothing.\<close>

definition transfer_result :: "int \<Rightarrow> int \<Rightarrow> int" where
  "transfer_result n err = (if n < 0 then if is_blocking_error err then 0 else -1 else if n = 0 then -1 else n)"

definition ps_send_to ::
    "endian \<Rightarrow> (int \<Rightarrow> byte list \<Rightarrow> int \<Rightarrow> sockaddr_storage \<Rightarrow> nat \<Rightarrow> int \<times> int) \<Rightarrow> byte list \<Rightarrow> socket_address \<Rightarrow> physical_socket \<Rightarrow> os \<Rightarrow>
     int \<times> physical_socket \<times> os" where
  "ps_send_to he sendto buffer addr ps os =
     (let (len, saddr) = to_sockaddr_storage he addr;
          (sent, errno) = sendto (ps_s ps) buffer (sint (of_nat (length buffer) :: u32)) saddr len;
          os = os\<lparr>os_errno := errno\<rparr>;
          ps = update_last_error os ps
      in (transfer_result sent (ps_get_error ps), ps, os))"

text \<open>The outcome of \<open>ioctl\<close> for the time stamp: result, seconds, microseconds and the error number it leaves.\<close>

definition get_socket_recv_timestamp :: "int \<times> int \<times> int \<times> int \<Rightarrow> os \<Rightarrow> int \<times> os" where
  "get_socket_recv_timestamp out os =
     (case out of (ret, sec, usec, errno) \<Rightarrow> (if ret \<noteq> 0 then -1 else 1000000 * sec + usec, os\<lparr>os_errno := errno\<rparr>))"

record recv_result =
  rr_received :: int
  rr_buffer :: "byte list"
  rr_addr :: socket_address
  rr_timestamp :: int

text \<open>
  \<open>recvfrom\<close> gives its result, the bytes it stored, the address of the sender and the error number.  Address and time are asked for.
\<close>

definition ps_recv_from ::
    "endian \<Rightarrow> int \<times> byte list \<times> sockaddr_storage \<times> int \<Rightarrow> int \<times> int \<times> int \<times> int \<Rightarrow> byte list \<Rightarrow> socket_address \<Rightarrow> physical_socket \<Rightarrow> os \<Rightarrow>
     recv_result \<times> physical_socket \<times> os" where
  "ps_recv_from he recvfrom ioctl buffer out_addr ps os =
     (case recvfrom of
        (received, data, addr_storage, errno) \<Rightarrow>
          let os = os\<lparr>os_errno := errno\<rparr>;
              buffer = (if received \<ge> 0 then data @ drop (length data) buffer else buffer);
              (timestamp, os) = get_socket_recv_timestamp ioctl os;
              ps = update_last_error os ps;
              out_addr = (if received \<ge> 0
                          then case socket_address_from_sockaddr_storage he out_addr addr_storage of None \<Rightarrow> out_addr | Some a \<Rightarrow> a
                          else out_addr)
          in (\<lparr>rr_received = transfer_result received (ps_get_error ps), rr_buffer = buffer, rr_addr = out_addr, rr_timestamp = timestamp\<rparr>, ps, os))"

section \<open>Options\<close>

datatype socket_option = OPT_DONTFRAGMENT | OPT_RCVBUF | OPT_SNDBUF | OPT_NODELAY | OPT_IPV6_V6ONLY | OPT_DSCP | OPT_RTP_SENDTIME_EXTN_ID

definition IP_PMTUDISC_DONT :: int where "IP_PMTUDISC_DONT = 0"
definition IP_PMTUDISC_DO :: int where "IP_PMTUDISC_DO = 2"

text \<open>Level and option of the system.\<close>

fun translate_option :: "socket_option \<Rightarrow> (int \<times> int) option" where
  "translate_option OPT_DONTFRAGMENT = Some (0, 10)"
| "translate_option OPT_RCVBUF = Some (1, 8)"
| "translate_option OPT_SNDBUF = Some (1, 7)"
| "translate_option OPT_NODELAY = Some (6, 1)"
| "translate_option OPT_DSCP = None"
| "translate_option OPT_RTP_SENDTIME_EXTN_ID = None"
| "translate_option OPT_IPV6_V6ONLY = None"

definition ps_get_option :: "(int \<Rightarrow> int \<Rightarrow> int \<Rightarrow> int \<times> int) \<Rightarrow> socket_option \<Rightarrow> int \<Rightarrow> physical_socket \<Rightarrow> int \<times> int" where
  "ps_get_option getsockopt opt value ps =
     (case translate_option opt of
        None \<Rightarrow> (-1, value)
      | Some (slevel, sopt) \<Rightarrow>
          let (ret, value) = getsockopt (ps_s ps) slevel sopt
          in (ret, if ret \<noteq> -1 \<and> opt = OPT_DONTFRAGMENT then if value \<noteq> IP_PMTUDISC_DONT then 1 else 0 else value))"

definition ps_set_option :: "(int \<Rightarrow> int \<Rightarrow> int \<Rightarrow> int \<Rightarrow> int) \<Rightarrow> socket_option \<Rightarrow> int \<Rightarrow> physical_socket \<Rightarrow> int" where
  "ps_set_option setsockopt opt value ps =
     (case translate_option opt of
        None \<Rightarrow> -1
      | Some (slevel, sopt) \<Rightarrow>
          let value = (if opt = OPT_DONTFRAGMENT then if value \<noteq> 0 then IP_PMTUDISC_DO else IP_PMTUDISC_DONT else value)
          in setsockopt (ps_s ps) slevel sopt value)"

section \<open>Descriptors\<close>

text \<open>The states of one socket that the factory made, from its creation on.\<close>

inductive ps_reach :: "os \<Rightarrow> physical_socket \<Rightarrow> os \<Rightarrow> bool" for os0 where
  ps_made: "socket_outcome os0 out \<Longrightarrow> create_socket type out os0 = Some (Some ps, os) \<Longrightarrow> ps_reach os0 ps os"
| ps_made_async: "socket_outcome os0 out \<Longrightarrow> create_async_socket type out os0 = Some (Some ps, os) \<Longrightarrow> ps_reach os0 ps os"
| ps_again: "ps_reach os0 ps os \<Longrightarrow> ps_close cout ps os = Some (err, ps1, os1) \<Longrightarrow> socket_outcome os1 sout \<Longrightarrow>
    ps_create type cout sout ps os = Some (created, ps', os') \<Longrightarrow> ps_reach os0 ps' os'"
| ps_again_async: "ps_reach os0 ps os \<Longrightarrow> ps_close cout ps os = Some (err, ps1, os1) \<Longrightarrow> socket_outcome os1 sout \<Longrightarrow>
    ps_create_async type cout sout ps os = Some (created, ps', os') \<Longrightarrow> ps_reach os0 ps' os'"
| ps_closed: "ps_reach os0 ps os \<Longrightarrow> ps_close cout ps os = Some (err, ps', os') \<Longrightarrow> ps_reach os0 ps' os'"
| ps_sent: "ps_reach os0 ps os \<Longrightarrow> ps_send_to he sendto buffer addr ps os = (n, ps', os') \<Longrightarrow> ps_reach os0 ps' os'"
| ps_received: "ps_reach os0 ps os \<Longrightarrow> ps_recv_from he recvfrom ioctl buffer addr ps os = (r, ps', os') \<Longrightarrow> ps_reach os0 ps' os'"
| ps_bound: "ps_reach os0 ps os \<Longrightarrow> ps_bind he sys_bind addr ps os = (err, ps', os') \<Longrightarrow> ps_reach os0 ps' os'"
| ps_error_set: "ps_reach os0 ps os \<Longrightarrow> ps_reach os0 (ps_set_error err ps) os"

text \<open>The socket owns the one descriptor that is open in addition to those at the start.\<close>

definition ps_inv :: "os \<Rightarrow> physical_socket \<Rightarrow> os \<Rightarrow> bool" where
  "ps_inv os0 ps os \<longleftrightarrow>
     (if ps_s ps = INVALID_SOCKET then os_fds os = os_fds os0
      else 0 \<le> ps_s ps \<and> os_fds os0 (ps_s ps) = None \<and> (\<exists>flags. os_fds os = (os_fds os0)(ps_s ps \<mapsto> flags)))"

lemma ps_inv_close:
  assumes "ps_inv os0 ps os"
  obtains err ps' os' where "ps_close out ps os = Some (err, ps', os')" "ps_s ps' = INVALID_SOCKET" "os_fds os' = os_fds os0"
    "ps_s ps \<noteq> INVALID_SOCKET \<longrightarrow> err = fst out \<and> ps_error ps' = snd out"
proof (cases "ps_s ps = INVALID_SOCKET")
  case True
  then show thesis using assms by (intro that [of 0 ps os]) (simp_all add: ps_close_def ps_inv_def)
next
  case False
  then obtain flags where f: "os_fds os0 (ps_s ps) = None" "os_fds os = (os_fds os0)(ps_s ps \<mapsto> flags)" using assms by (auto simp: ps_inv_def)
  have restored: "(os_fds os)(ps_s ps := None) = os_fds os0" using f by auto
  show thesis
    by (rule that [of "fst out" "ps\<lparr>ps_error := snd out, ps_s := INVALID_SOCKET\<rparr>" "os\<lparr>os_fds := (os_fds os)(ps_s ps := None), os_errno := snd out\<rparr>"])
      (use f False restored in \<open>simp_all add: ps_close_def sys_close_def update_last_error_def ps_set_error_def\<close>)
qed

lemma ps_inv_create:
  assumes inv: "ps_inv os0 ps os" and c: "ps_close cout ps os = Some (err, ps1, os1)" and o: "socket_outcome os1 sout"
  obtains ps' os' where "ps_create type cout sout ps os = Some (fst sout \<noteq> INVALID_SOCKET, ps', os')" "ps_inv os0 ps' os'"
    "ps_s ps' = fst sout" "ps_udp ps' = Some (type = SOCK_DGRAM)" "ps_error ps' = snd sout"
proof -
  obtain err' ps2 os2 where "ps_close cout ps os = Some (err', ps2, os2)" "ps_s ps2 = INVALID_SOCKET" "os_fds os2 = os_fds os0"
    by (rule ps_inv_close [OF inv, of cout])
  then have "ps_s ps1 = INVALID_SOCKET" "os_fds os1 = os_fds os0" using c by auto
  then show thesis using c o
    by (intro that) (auto simp: ps_create_def sys_socket_def socket_outcome_def ps_inv_def update_last_error_def ps_set_error_def)
qed

lemma ps_inv_create_async:
  assumes inv: "ps_inv os0 ps os" and c: "ps_close cout ps os = Some (err, ps1, os1)" and o: "socket_outcome os1 sout"
  obtains ps' os' where "ps_create_async type cout sout ps os = Some (fst sout \<noteq> INVALID_SOCKET, ps', os')" "ps_inv os0 ps' os'" "ps_s ps' = fst sout"
    "ps_s ps' \<noteq> INVALID_SOCKET \<longrightarrow> (\<exists>flags. os_fds os' (ps_s ps') = Some (flags OR O_NONBLOCK))"
proof -
  obtain ps2 os2 where n: "ps_create type cout sout ps os = Some (fst sout \<noteq> INVALID_SOCKET, ps2, os2)" "ps_inv os0 ps2 os2" "ps_s ps2 = fst sout"
    by (rule ps_inv_create [OF inv c o])
  show thesis
  proof (cases "fst sout = INVALID_SOCKET")
    case True
    then show thesis using n by (intro that [of ps2 os2]) (simp_all add: ps_create_async_def)
  next
    case False
    then obtain flags where f: "os_fds os2 = (os_fds os0)(ps_s ps2 \<mapsto> flags)" using n by (auto simp: ps_inv_def)
    show thesis
      by (rule that [of ps2 "os2\<lparr>os_fds := (os_fds os2)(ps_s ps2 \<mapsto> flags OR O_NONBLOCK)\<rparr>"])
        (use n f False in \<open>auto simp: ps_create_async_def ps_inv_def\<close>)
  qed
qed

lemma ps_new_inv: "ps_inv os0 (physical_socket_new INVALID_SOCKET out) os0"
  by (simp add: ps_inv_def physical_socket_new_def)

lemma ps_new_close: "ps_close out (physical_socket_new INVALID_SOCKET o') os = Some (0, physical_socket_new INVALID_SOCKET o', os)"
  by (simp add: ps_close_def physical_socket_new_def)

text \<open>The factory returns a socket that owns its descriptor, or none and the table is unchanged.\<close>

lemma create_socket_correct:
  assumes o: "socket_outcome os0 out"
  shows "(fst out = INVALID_SOCKET \<and> (\<exists>os. create_socket type out os0 = Some (None, os) \<and> os_fds os = os_fds os0)) \<or>
    (fst out \<noteq> INVALID_SOCKET \<and> (\<exists>ps os. create_socket type out os0 = Some (Some ps, os) \<and> ps_inv os0 ps os \<and> ps_s ps = fst out))"
proof -
  obtain ps' os' where n: "ps_create type (0, 0) out (physical_socket_new INVALID_SOCKET (0, 0)) os0 = Some (fst out \<noteq> INVALID_SOCKET, ps', os')"
    "ps_inv os0 ps' os'" "ps_s ps' = fst out"
    by (rule ps_inv_create [OF ps_new_inv ps_new_close o])
  then show ?thesis by (auto simp: create_socket_def physical_socket_delete_def ps_close_def ps_inv_def)
qed

lemma create_async_socket_correct:
  assumes o: "socket_outcome os0 out"
  shows "(fst out = INVALID_SOCKET \<and> (\<exists>os. create_async_socket type out os0 = Some (None, os) \<and> os_fds os = os_fds os0)) \<or>
    (fst out \<noteq> INVALID_SOCKET \<and> (\<exists>ps os. create_async_socket type out os0 = Some (Some ps, os) \<and> ps_inv os0 ps os \<and> ps_s ps = fst out))"
proof -
  obtain ps' os' where n: "ps_create_async type (0, 0) out (physical_socket_new INVALID_SOCKET (0, 0)) os0 = Some (fst out \<noteq> INVALID_SOCKET, ps', os')"
    "ps_inv os0 ps' os'" "ps_s ps' = fst out"
    by (rule ps_inv_create_async [OF ps_new_inv ps_new_close o])
  then show ?thesis by (auto simp: create_async_socket_def physical_socket_delete_def ps_close_def ps_inv_def)
qed

lemma ps_reach_inv: "ps_reach os0 ps os \<Longrightarrow> ps_inv os0 ps os"
proof (induction rule: ps_reach.induct)
  case (ps_made out type ps os)
  then show ?case using create_socket_correct [OF ps_made(1), of type] by auto
next
  case (ps_made_async out type ps os)
  then show ?case using create_async_socket_correct [OF ps_made_async(1), of type] by auto
next
  case (ps_again ps os cout err ps1 os1 sout type created ps' os')
  show ?case by (rule ps_inv_create [OF ps_again.IH ps_again.hyps(2,3), of type]) (use ps_again.hyps(4) in simp)
next
  case (ps_again_async ps os cout err ps1 os1 sout type created ps' os')
  show ?case by (rule ps_inv_create_async [OF ps_again_async.IH ps_again_async.hyps(2,3), of type]) (use ps_again_async.hyps(4) in simp)
next
  case (ps_closed ps os cout err ps' os')
  show ?case by (rule ps_inv_close [OF ps_closed.IH, of cout]) (use ps_closed.hyps(2) in \<open>simp add: ps_inv_def\<close>)
qed (auto simp: ps_inv_def ps_send_to_def ps_recv_from_def ps_bind_def update_last_error_def ps_set_error_def get_socket_recv_timestamp_def Let_def
    split: prod.splits)

text \<open>
  C39. Descriptors of sockets: in every state that a socket from the factory reaches by being created again, closed, used and
  failing in any way, the descriptors open beyond those at the start are exactly its own, so that closing it or
  creating it again never closes a descriptor of somebody else (or one twice) and destroying it leaves the table of the start.
\<close>

theorem socket_descriptors:
  assumes "ps_reach os0 ps os"
  shows "dom (os_fds os) = dom (os_fds os0) \<union> (if ps_s ps = INVALID_SOCKET then {} else {ps_s ps}) \<and>
    (ps_s ps \<noteq> INVALID_SOCKET \<longrightarrow> os_fds os0 (ps_s ps) = None) \<and>
    (\<exists>os'. physical_socket_delete out ps os = Some os' \<and> os_fds os' = os_fds os0) \<and>
    (\<exists>created ps' os'. ps_create type out sout ps os = Some (created, ps', os'))"
proof -
  have inv: "ps_inv os0 ps os" by (rule ps_reach_inv [OF assms])
  obtain err ps' os' where "ps_close out ps os = Some (err, ps', os')" "os_fds os' = os_fds os0" by (rule ps_inv_close [OF inv, of out])
  then show ?thesis using inv by (auto simp: ps_inv_def physical_socket_delete_def ps_create_def Let_def split: prod.split)
qed

theorem socket_descriptors_witness:
  "\<exists>os'. physical_socket_delete (0, 0) \<lparr>ps_s = 3, ps_udp = Some True, ps_error = 0\<rparr> \<lparr>os_fds = [3 \<mapsto> 0], os_errno = 0\<rparr> = Some os' \<and>
     os_fds os' = Map.empty"
proof -
  let ?os0 = "\<lparr>os_fds = Map.empty, os_errno = 0\<rparr>"
  have "create_socket 2 (3, 0) ?os0 = Some (Some \<lparr>ps_s = 3, ps_udp = Some True, ps_error = 0\<rparr>, \<lparr>os_fds = [3 \<mapsto> 0], os_errno = 0\<rparr>)"
    by (simp add: create_socket_def ps_create_def ps_new_close sys_socket_def INVALID_SOCKET_def physical_socket_new_def SOCK_DGRAM_def
        update_last_error_def ps_set_error_def ps_close_def)
  then have "ps_reach ?os0 \<lparr>ps_s = 3, ps_udp = Some True, ps_error = 0\<rparr> \<lparr>os_fds = [3 \<mapsto> 0], os_errno = 0\<rparr>"
    by (rule ps_made [rotated]) (simp add: socket_outcome_def)
  from socket_descriptors [OF this, of "(0, 0)"] show ?thesis by simp
qed

section \<open>Transfers\<close>

text \<open>A datagram without data is delivered but reported as an error, on both sides.\<close>

lemma transfer_result_empty: "transfer_result 0 err = -1"
  by (simp add: transfer_result_def)

text \<open>
  The time stamp is asked for before the error number is read: a call that found no data, followed by a failing \<open>ioctl\<close>,
  is an error and not the result zero.
\<close>

lemma recv_from_errno_overwritten:
  assumes "\<not> is_blocking_error errno"
  shows "rr_received (fst (ps_recv_from he (-1, data, storage, EAGAIN) (-1, sec, usec, errno) buffer addr ps os)) = -1"
  using assms by (simp add: ps_recv_from_def get_socket_recv_timestamp_def transfer_result_def update_last_error_def ps_set_error_def ps_get_error_def Let_def)

text \<open>The option against fragmentation reads back as it was set, as far as it is on or off, from a system that keeps it.\<close>

lemma dont_fragment_roundtrip:
  assumes "\<And>fd level opt value. setsockopt fd level opt value = 0 \<Longrightarrow> getsockopt fd level opt = (0, value)"
    and "ps_set_option setsockopt OPT_DONTFRAGMENT value ps = 0"
  shows "ps_get_option getsockopt OPT_DONTFRAGMENT old ps = (0, if value \<noteq> 0 then 1 else 0)"
  using assms by (auto simp: ps_set_option_def ps_get_option_def IP_PMTUDISC_DO_def IP_PMTUDISC_DONT_def Let_def split: if_splits)

end
