(* ===== verification/EventLoop.thy ===== *)
theory EventLoop
  imports Float32 "HOL-Library.Monad_Syntax"
begin

text \<open>
  The event loop (\<open>src/event_loop.{h,cpp}\<close>) over libev.  The macros of \<open>ev.h\<close> are definitions; what starts and stops a
  watcher inside libev is a parameter with the documented effect.  Watchers are objects in a store;
  \<open>None\<close> is the use of a deleted one or of a field that was never set.
\<close>

section \<open>Watchers of libev\<close>

record ev_io =
  io_active :: bool
  io_fd :: int
  io_events :: "u32 option"

record ev_timer =
  tm_active :: bool
  tm_at :: "f32 option"
  tm_repeat :: "f32 option"

definition EV_NONE :: u32 where "EV_NONE = 0"
definition EV_READ :: u32 where "EV_READ = 1"
definition EV_WRITE :: u32 where "EV_WRITE = 2"
definition EV_IOFDSET :: u32 where "EV_IOFDSET = 128"

definition ev_io_init :: ev_io where
  "ev_io_init = \<lparr>io_active = False, io_fd = 0, io_events = None\<rparr>"

definition ev_io_set :: "int \<Rightarrow> u32 \<Rightarrow> ev_io \<Rightarrow> ev_io" where
  "ev_io_set fd events io = io\<lparr>io_fd := fd, io_events := Some (events OR EV_IOFDSET)\<rparr>"

definition ev_timer_init :: ev_timer where
  "ev_timer_init = \<lparr>tm_active = False, tm_at = None, tm_repeat = None\<rparr>"

definition ev_timer_set :: "f32 \<Rightarrow> f32 \<Rightarrow> ev_timer \<Rightarrow> ev_timer" where
  "ev_timer_set after rep t = t\<lparr>tm_at := Some after, tm_repeat := Some rep\<rparr>"

record libev =
  ev_io_start :: "ev_io \<Rightarrow> ev_io"
  ev_io_stop :: "ev_io \<Rightarrow> ev_io"
  ev_timer_start :: "ev_timer \<Rightarrow> ev_timer"
  ev_timer_stop :: "ev_timer \<Rightarrow> ev_timer"
  ev_timer_again :: "ev_timer \<Rightarrow> ev_timer"

definition f32_zero :: f32 where "f32_zero = \<lparr>mant = 0, expo = 0\<rparr>"

text \<open>
  Starting a watcher makes it active for the events it was set to, stopping makes it inactive.  \<open>ev_timer_again\<close> runs a repeating
  timer for its interval and stops one without an interval.
\<close>

definition libev_ok :: "libev \<Rightarrow> bool" where
  "libev_ok ev \<longleftrightarrow>
     (\<forall>io e. 0 \<le> io_fd io \<longrightarrow> io_events io = Some e \<longrightarrow>
        (\<exists>e'. ev_io_start ev io = \<lparr>io_active = True, io_fd = io_fd io, io_events = Some e'\<rparr> \<and> e' AND 3 = e AND 3)) \<and>
     (\<forall>io. ev_io_stop ev io = io\<lparr>io_active := False\<rparr>) \<and>
     (\<forall>t. ev_timer_start ev t = t\<lparr>tm_active := True\<rparr>) \<and>
     (\<forall>t. ev_timer_stop ev t = t\<lparr>tm_active := False\<rparr>) \<and>
     (\<forall>t r. tm_repeat t = Some r \<longrightarrow>
        ev_timer_again ev t = (if mant r \<noteq> 0 then t\<lparr>tm_active := True, tm_at := Some r\<rparr> else t\<lparr>tm_active := False\<rparr>))"

section \<open>The loop\<close>

definition EL_NONE :: u32 where "EL_NONE = 0"
definition EL_READ :: u32 where "EL_READ = 1"
definition EL_WRITE :: u32 where "EL_WRITE = 2"

definition TRANS_TO_EV_MASK :: "u32 \<Rightarrow> u32" where
  "TRANS_TO_EV_MASK m = (if m AND EL_READ \<noteq> 0 then EV_READ else EV_NONE) OR (if m AND EL_WRITE \<noteq> 0 then EV_WRITE else EV_NONE)"

definition TRANS_FROM_EV_MASK :: "u32 \<Rightarrow> u32" where
  "TRANS_FROM_EV_MASK m = (if m AND EV_READ \<noteq> 0 then EL_READ else EL_NONE) OR (if m AND EV_WRITE \<noteq> 0 then EL_WRITE else EL_NONE)"

text \<open>Callbacks and their data are named by numbers.\<close>

record io_watcher =
  iw_io :: ev_io
  iw_cb :: nat
  iw_data :: nat

record timer_watcher =
  tw_timer :: ev_timer
  tw_cb :: nat
  tw_data :: nat
  tw_need_repeat :: bool

record event_loop =
  el_owner :: nat
  el_io :: "nat \<Rightarrow> io_watcher option"
  el_timers :: "nat \<Rightarrow> timer_watcher option"

definition create_io_event :: "nat \<Rightarrow> nat \<Rightarrow> nat \<Rightarrow> event_loop \<Rightarrow> event_loop" where
  "create_io_event w cb data el = el\<lparr>el_io := (el_io el)(w \<mapsto> \<lparr>iw_io = ev_io_init, iw_cb = cb, iw_data = data\<rparr>)\<rparr>"

definition start_io :: "libev \<Rightarrow> int \<Rightarrow> u32 \<Rightarrow> ev_io \<Rightarrow> ev_io option" where
  "start_io ev fd msk io =
     (if io_active io then do {
        e \<leftarrow> io_events io;
        let active_events = TRANS_FROM_EV_MASK e;
        let events = active_events OR msk;
        if active_events = events then Some io
        else Some (ev_io_start ev (ev_io_set fd (TRANS_TO_EV_MASK events) (ev_io_stop ev io)))
      }
      else Some (ev_io_start ev (ev_io_set fd (TRANS_TO_EV_MASK msk) io)))"

definition start_io_event :: "libev \<Rightarrow> nat \<Rightarrow> int \<Rightarrow> u32 \<Rightarrow> event_loop \<Rightarrow> event_loop option" where
  "start_io_event ev w fd msk el = do {
     iw \<leftarrow> el_io el w;
     io \<leftarrow> start_io ev fd msk (iw_io iw);
     Some (el\<lparr>el_io := (el_io el)(w \<mapsto> iw\<lparr>iw_io := io\<rparr>)\<rparr>) }"

definition stop_io :: "libev \<Rightarrow> int \<Rightarrow> u32 \<Rightarrow> ev_io \<Rightarrow> ev_io option" where
  "stop_io ev fd msk io = do {
     e \<leftarrow> io_events io;
     let active_events = TRANS_FROM_EV_MASK e;
     let events = active_events AND (NOT msk);
     if active_events = events then Some io
     else
       let events = TRANS_TO_EV_MASK events;
           io = ev_io_stop ev io
       in if events \<noteq> EV_NONE then Some (ev_io_start ev (ev_io_set fd events io)) else Some io }"

definition stop_io_event :: "libev \<Rightarrow> nat \<Rightarrow> int \<Rightarrow> u32 \<Rightarrow> event_loop \<Rightarrow> event_loop option" where
  "stop_io_event ev w fd msk el = do {
     iw \<leftarrow> el_io el w;
     io \<leftarrow> stop_io ev fd msk (iw_io iw);
     Some (el\<lparr>el_io := (el_io el)(w \<mapsto> iw\<lparr>iw_io := io\<rparr>)\<rparr>) }"

definition delete_io_event :: "libev \<Rightarrow> nat \<Rightarrow> event_loop \<Rightarrow> event_loop option" where
  "delete_io_event ev w el = do {
     iw \<leftarrow> el_io el w;
     let el = el\<lparr>el_io := (el_io el)(w \<mapsto> iw\<lparr>iw_io := ev_io_stop ev (iw_io iw)\<rparr>)\<rparr>;
     Some (el\<lparr>el_io := (el_io el)(w := None)\<rparr>) }"

text \<open>The call that libev makes for an event: callback, watcher, descriptor, events and data.\<close>

definition generic_io_cb :: "nat \<Rightarrow> u32 \<Rightarrow> event_loop \<Rightarrow> (nat \<times> nat \<times> int \<times> u32 \<times> nat) option" where
  "generic_io_cb w revents el = do {
     iw \<leftarrow> el_io el w;
     Some (iw_cb iw, w, io_fd (iw_io iw), TRANS_FROM_EV_MASK revents, iw_data iw) }"

definition create_timer :: "nat \<Rightarrow> nat \<Rightarrow> nat \<Rightarrow> bool \<Rightarrow> event_loop \<Rightarrow> event_loop" where
  "create_timer w cb data rep el =
     el\<lparr>el_timers := (el_timers el)(w \<mapsto> \<lparr>tw_timer = ev_timer_init, tw_cb = cb, tw_data = data, tw_need_repeat = rep\<rparr>)\<rparr>"

definition timer_seconds :: "u64 \<Rightarrow> f32" where
  "timer_seconds usec = f32_div (f32_of_nat (unat usec)) (f32_of_nat 1000000)"

definition start_timer :: "libev \<Rightarrow> nat \<Rightarrow> u64 \<Rightarrow> event_loop \<Rightarrow> event_loop option" where
  "start_timer ev w usec el = do {
     tw \<leftarrow> el_timers el w;
     let sec = timer_seconds usec;
     let t = (if \<not> tw_need_repeat tw
              then ev_timer_start ev (ev_timer_set sec f32_zero (ev_timer_stop ev (tw_timer tw)))
              else ev_timer_again ev ((tw_timer tw)\<lparr>tm_repeat := Some sec\<rparr>));
     Some (el\<lparr>el_timers := (el_timers el)(w \<mapsto> tw\<lparr>tw_timer := t\<rparr>)\<rparr>) }"

definition stop_timer :: "libev \<Rightarrow> nat \<Rightarrow> event_loop \<Rightarrow> event_loop option" where
  "stop_timer ev w el = do {
     tw \<leftarrow> el_timers el w;
     Some (el\<lparr>el_timers := (el_timers el)(w \<mapsto> tw\<lparr>tw_timer := ev_timer_stop ev (tw_timer tw)\<rparr>)\<rparr>) }"

definition delete_timer :: "libev \<Rightarrow> nat \<Rightarrow> event_loop \<Rightarrow> event_loop option" where
  "delete_timer ev w el = do { el \<leftarrow> stop_timer ev w el; Some (el\<lparr>el_timers := (el_timers el)(w := None)\<rparr>) }"

definition generic_timer_cb :: "nat \<Rightarrow> event_loop \<Rightarrow> (nat \<times> nat \<times> nat) option" where
  "generic_timer_cb w el = do { tw \<leftarrow> el_timers el w; Some (tw_cb tw, w, tw_data tw) }"

section \<open>Loops and the time\<close>

text \<open>The live loops and the static reference to the default one.\<close>

record el_world =
  els :: "nat \<Rightarrow> event_loop option"
  el_default_loop :: "nat option"

definition event_loop_new :: "nat \<Rightarrow> nat \<Rightarrow> bool \<Rightarrow> el_world \<Rightarrow> el_world" where
  "event_loop_new p owner use_default st =
     st\<lparr>els := (els st)(p \<mapsto> \<lparr>el_owner = owner, el_io = Map.empty, el_timers = Map.empty\<rparr>),
        el_default_loop := (if use_default then Some p else el_default_loop st)\<rparr>"

definition event_loop_delete :: "nat \<Rightarrow> el_world \<Rightarrow> el_world option" where
  "event_loop_delete p st = do { el \<leftarrow> els st p; Some (st\<lparr>els := (els st)(p := None)\<rparr>) }"

text \<open>\<open>ev_now\<close> is the time of a loop in microseconds, \<open>unix_time\<close> that of the system.\<close>

definition current_time :: "(nat \<Rightarrow> u64) \<Rightarrow> int \<Rightarrow> el_world \<Rightarrow> u64 option" where
  "current_time ev_now unix_time st =
     (case el_default_loop st of
        Some p \<Rightarrow> do { el \<leftarrow> els st p; Some (ev_now p) }
      | None \<Rightarrow> Some (of_int unix_time))"

section \<open>Masks\<close>

lemma and_two_iff: "m AND 2 \<noteq> 0 \<longleftrightarrow> bit (m :: u32) 1"
  using and_exp_eq_0_iff_not_bit [of m 1] by simp

lemma and_one_iff: "m AND 1 \<noteq> 0 \<longleftrightarrow> bit (m :: u32) 0"
  using and_exp_eq_0_iff_not_bit [of m 0] by simp

lemma bit_three: "bit (3 :: u32) n \<longleftrightarrow> n = 0 \<or> n = 1"
proof -
  have "(3 :: u32) = mask 2" by (simp add: mask_eq_exp_minus_1)
  then show ?thesis by (simp only: bit_mask_iff) (auto simp: less_2_cases_iff)
qed

lemma read_write_mask: "(if bit m 0 then 1 else 0) OR (if bit m 1 then 2 else 0) = m AND (3 :: u32)"
proof (rule bit_word_eqI)
  fix n assume "n < LENGTH(32)"
  have two: "bit (2 :: u32) k \<longleftrightarrow> k = 1" for k using bit_exp_iff [where 'a = u32, of 1 k] by auto
  show "bit ((if bit m 0 then 1 else 0) OR (if bit m 1 then 2 else (0 :: u32))) n = bit (m AND 3) n"
    by (cases "n = 0"; cases "n = 1") (simp_all add: bit_or_iff bit_and_iff bit_three two bit_1_iff del: bit_numeral_word_iff)
qed

lemma trans_masks [simp]: "TRANS_TO_EV_MASK m = m AND 3" "TRANS_FROM_EV_MASK m = m AND 3"
  using read_write_mask [of m]
  by (simp_all only: TRANS_TO_EV_MASK_def TRANS_FROM_EV_MASK_def EL_READ_def EL_WRITE_def EL_NONE_def EV_READ_def EV_WRITE_def EV_NONE_def
      and_one_iff and_two_iff)

section \<open>What a watcher watches\<close>

definition io_interest :: "ev_io \<Rightarrow> u32" where
  "io_interest io = (if io_active io then the (io_events io) AND 3 else 0)"

definition io_ok :: "ev_io \<Rightarrow> bool" where
  "io_ok io \<longleftrightarrow> (io_active io \<longrightarrow> io_events io \<noteq> None \<and> 0 \<le> io_fd io)"

lemma libev_start:
  "libev_ok ev \<Longrightarrow> 0 \<le> io_fd io \<Longrightarrow> io_events io = Some e \<Longrightarrow>
     \<exists>e'. ev_io_start ev io = \<lparr>io_active = True, io_fd = io_fd io, io_events = Some e'\<rparr> \<and> e' AND 3 = e AND 3"
  by (simp add: libev_ok_def)

lemma start_set:
  assumes "libev_ok ev" and "0 \<le> fd"
  obtains io' where "ev_io_start ev (ev_io_set fd events io) = io'" "io_ok io'" "io_active io'" "io_interest io' = events AND 3" "io_fd io' = fd"
proof -
  have "\<exists>e'. ev_io_start ev (ev_io_set fd events io) = \<lparr>io_active = True, io_fd = fd, io_events = Some e'\<rparr> \<and> e' AND 3 = (events OR EV_IOFDSET) AND 3"
    using libev_start [OF assms(1), of "ev_io_set fd events io" "events OR EV_IOFDSET"] assms(2) by (simp add: ev_io_set_def)
  then obtain e' where e: "ev_io_start ev (ev_io_set fd events io) = \<lparr>io_active = True, io_fd = fd, io_events = Some e'\<rparr>"
    "e' AND 3 = (events OR EV_IOFDSET) AND 3" by blast
  have "(events OR EV_IOFDSET) AND 3 = events AND 3" by (simp add: EV_IOFDSET_def bit.conj_disj_distrib2)
  then show thesis using e assms(2) by (intro that [OF e(1)]) (simp_all add: io_ok_def io_interest_def)
qed

lemma start_io_correct:
  assumes ev: "libev_ok ev" and fd: "0 \<le> fd" and ok: "io_ok io"
  obtains io' where "start_io ev fd m io = Some io'" "io_ok io'" "io_active io'" "io_interest io' = io_interest io OR (m AND 3)"
    "io_fd io' = (if io_active io \<and> io_interest io OR m = io_interest io then io_fd io else fd)"
proof (cases "io_active io")
  case False
  obtain io' where "ev_io_start ev (ev_io_set fd (m AND 3) io) = io'" "io_ok io'" "io_active io'" "io_interest io' = (m AND 3) AND 3" "io_fd io' = fd"
    by (rule start_set [OF ev fd, of "m AND 3" io])
  then show thesis using False by (intro that [of io']) (simp_all add: start_io_def io_interest_def and.assoc)
next
  case True
  obtain e where e: "io_events io = Some e" using ok True by (auto simp: io_ok_def)
  show thesis
  proof (cases "e AND 3 = e AND 3 OR m")
    case same: True
    have "(e AND 3) AND 3 = (e AND 3 OR m) AND 3" by (simp only: same [symmetric])
    then have "e AND 3 = e AND 3 OR (m AND 3)" by (simp add: bit.conj_disj_distrib2 and.assoc)
    then show thesis using True e same ok by (intro that [of io]) (simp_all add: start_io_def io_interest_def)
  next
    case new: False
    obtain io' where "ev_io_start ev (ev_io_set fd ((e AND 3 OR m) AND 3) (ev_io_stop ev io)) = io'" "io_ok io'" "io_active io'"
      "io_interest io' = ((e AND 3 OR m) AND 3) AND 3" "io_fd io' = fd"
      by (rule start_set [OF ev fd, of "(e AND 3 OR m) AND 3" "ev_io_stop ev io"])
    then show thesis using True e new
      by (intro that [of io']) (simp_all add: start_io_def io_interest_def bit.conj_disj_distrib2 and.assoc eq_commute [of "e AND 3"])
  qed
qed

lemma ev_io_stop_eq: "libev_ok ev \<Longrightarrow> ev_io_stop ev io = io\<lparr>io_active := False\<rparr>"
  by (simp add: libev_ok_def)

text \<open>Stopping some events, on a watcher that was started at least once.\<close>

lemma stop_io_correct:
  assumes ev: "libev_ok ev" and fd: "0 \<le> fd" and e: "io_events io = Some e"
  obtains io' where "stop_io ev fd m io = Some io'" "io_ok io \<longrightarrow> io_ok io'" "io_events io' \<noteq> None"
    "io_interest io' = (if (e AND 3) AND m = 0 then io_interest io else (e AND 3) AND NOT m)"
    "(e AND 3) AND m \<noteq> 0 \<longrightarrow> (io_active io' \<longleftrightarrow> (e AND 3) AND NOT m \<noteq> 0)"
proof -
  have split: "e AND 3 = ((e AND 3) AND m) OR ((e AND 3) AND NOT m)" by (simp flip: bit.conj_disj_distrib)
  have disj: "((e AND 3) AND m) AND ((e AND 3) AND NOT m) = 0"
    by (rule bit_word_eqI) (auto simp: bit_simps)
  have same: "e AND 3 = (e AND 3) AND NOT m \<longleftrightarrow> (e AND 3) AND m = 0"
  proof
    assume h: "e AND 3 = (e AND 3) AND NOT m"
    have "((e AND 3) AND NOT m) AND m = 0" by (rule bit_word_eqI) (auto simp: bit_simps)
    then show "(e AND 3) AND m = 0" using h by metis
  qed (use split in simp)
  have three: "((e AND 3) AND NOT m) AND 3 = (e AND 3) AND NOT m" by (rule bit_word_eqI) (auto simp: bit_simps)
  show thesis
  proof (cases "(e AND 3) AND m = 0")
    case True
    then show thesis using e same by (intro that [of io]) (simp_all add: stop_io_def Let_def)
  next
    case new: False
    show thesis
    proof (cases "(e AND 3) AND NOT m = 0")
      case True
      then show thesis using e same new three
        by (intro that [of "io\<lparr>io_active := False\<rparr>"]) (simp_all add: stop_io_def Let_def EV_NONE_def ev_io_stop_eq [OF ev] io_ok_def io_interest_def)
    next
      case False
      obtain io' where "ev_io_start ev (ev_io_set fd ((e AND 3) AND NOT m) (ev_io_stop ev io)) = io'" "io_ok io'" "io_active io'"
        "io_interest io' = ((e AND 3) AND NOT m) AND 3" "io_fd io' = fd"
        by (rule start_set [OF ev fd, of "(e AND 3) AND NOT m" "ev_io_stop ev io"])
      then show thesis using e same new three False
        by (intro that [of io']) (simp_all add: stop_io_def Let_def EV_NONE_def io_ok_def)
    qed
  qed
qed

section \<open>Programs over a loop\<close>

inductive el_reach :: "libev \<Rightarrow> event_loop \<Rightarrow> bool" for ev where
  el_start: "el_reach ev \<lparr>el_owner = owner, el_io = Map.empty, el_timers = Map.empty\<rparr>"
| el_create_io: "el_reach ev el \<Longrightarrow> el_io el w = None \<Longrightarrow> el_reach ev (create_io_event w cb data el)"
| el_start_io: "el_reach ev el \<Longrightarrow> 0 \<le> fd \<Longrightarrow> start_io_event ev w fd m el = Some el' \<Longrightarrow> el_reach ev el'"
| el_stop_io: "el_reach ev el \<Longrightarrow> 0 \<le> fd \<Longrightarrow> stop_io_event ev w fd m el = Some el' \<Longrightarrow> el_reach ev el'"
| el_delete_io: "el_reach ev el \<Longrightarrow> delete_io_event ev w el = Some el' \<Longrightarrow> el_reach ev el'"
| el_create_timer: "el_reach ev el \<Longrightarrow> el_timers el w = None \<Longrightarrow> el_reach ev (create_timer w cb data rep el)"
| el_start_timer: "el_reach ev el \<Longrightarrow> start_timer ev w usec el = Some el' \<Longrightarrow> el_reach ev el'"
| el_stop_timer: "el_reach ev el \<Longrightarrow> stop_timer ev w el = Some el' \<Longrightarrow> el_reach ev el'"
| el_delete_timer: "el_reach ev el \<Longrightarrow> delete_timer ev w el = Some el' \<Longrightarrow> el_reach ev el'"

definition el_inv :: "event_loop \<Rightarrow> bool" where
  "el_inv el \<longleftrightarrow> (\<forall>w iw. el_io el w = Some iw \<longrightarrow> io_ok (iw_io iw))"

lemma start_io_event_correct:
  assumes "libev_ok ev" and "0 \<le> fd" and "el_io el w = Some iw" and "io_ok (iw_io iw)"
  obtains io' where "start_io_event ev w fd m el = Some (el\<lparr>el_io := (el_io el)(w \<mapsto> iw\<lparr>iw_io := io'\<rparr>)\<rparr>)" "io_ok io'" "io_active io'"
    "io_interest io' = io_interest (iw_io iw) OR (m AND 3)"
proof -
  obtain io' where "start_io ev fd m (iw_io iw) = Some io'" "io_ok io'" "io_active io'" "io_interest io' = io_interest (iw_io iw) OR (m AND 3)"
    by (rule start_io_correct [OF assms(1,2,4), of m])
  then show thesis using assms(3) by (intro that [of io']) (simp_all add: start_io_event_def)
qed

lemma stop_io_event_correct:
  assumes "libev_ok ev" and "0 \<le> fd" and "el_io el w = Some iw" and "io_events (iw_io iw) = Some e" and "io_ok (iw_io iw)"
  obtains io' where "stop_io_event ev w fd m el = Some (el\<lparr>el_io := (el_io el)(w \<mapsto> iw\<lparr>iw_io := io'\<rparr>)\<rparr>)" "io_ok io'" "io_events io' \<noteq> None"
    "io_interest io' = (if (e AND 3) AND m = 0 then io_interest (iw_io iw) else (e AND 3) AND NOT m)"
    "(e AND 3) AND m \<noteq> 0 \<longrightarrow> (io_active io' \<longleftrightarrow> (e AND 3) AND NOT m \<noteq> 0)"
proof -
  obtain io' where "stop_io ev fd m (iw_io iw) = Some io'" "io_ok (iw_io iw) \<longrightarrow> io_ok io'" "io_events io' \<noteq> None"
    "io_interest io' = (if (e AND 3) AND m = 0 then io_interest (iw_io iw) else (e AND 3) AND NOT m)"
    "(e AND 3) AND m \<noteq> 0 \<longrightarrow> (io_active io' \<longleftrightarrow> (e AND 3) AND NOT m \<noteq> 0)"
    by (rule stop_io_correct [OF assms(1,2,4), of m])
  then show thesis using assms(3,5) by (intro that [of io']) (simp_all add: stop_io_event_def)
qed

lemma el_reach_inv:
  assumes "el_reach ev el" and ev: "libev_ok ev"
  shows "el_inv el"
  using assms(1)
proof induction
  case (el_start_io el fd w m el')
  then obtain iw where w: "el_io el w = Some iw" by (auto simp: start_io_event_def Option.bind_eq_Some_conv)
  have ok: "io_ok (iw_io iw)" using el_start_io.IH w by (auto simp: el_inv_def)
  obtain io' where "start_io_event ev w fd m el = Some (el\<lparr>el_io := (el_io el)(w \<mapsto> iw\<lparr>iw_io := io'\<rparr>)\<rparr>)" "io_ok io'"
    by (rule start_io_event_correct [OF ev el_start_io.hyps(2) w ok, of m])
  then show ?case using el_start_io by (auto simp: el_inv_def)
next
  case (el_stop_io el fd w m el')
  then obtain iw e where w: "el_io el w = Some iw" and e: "io_events (iw_io iw) = Some e"
    by (auto simp: stop_io_event_def stop_io_def Option.bind_eq_Some_conv)
  have ok: "io_ok (iw_io iw)" using el_stop_io.IH w by (auto simp: el_inv_def)
  obtain io' where "stop_io_event ev w fd m el = Some (el\<lparr>el_io := (el_io el)(w \<mapsto> iw\<lparr>iw_io := io'\<rparr>)\<rparr>)" "io_ok io'"
    by (rule stop_io_event_correct [OF ev el_stop_io.hyps(2) w e ok, of m])
  then show ?case using el_stop_io by (auto simp: el_inv_def)
qed (auto simp: el_inv_def create_io_event_def ev_io_init_def io_ok_def delete_io_event_def create_timer_def start_timer_def stop_timer_def
    delete_timer_def Let_def Option.bind_eq_Some_conv split: if_splits)

definition watched :: "event_loop \<Rightarrow> nat \<Rightarrow> u32" where
  "watched el w = (case el_io el w of None \<Rightarrow> 0 | Some iw \<Rightarrow> io_interest (iw_io iw))"

text \<open>
  In every reachable loop, starting events of a live watcher adds exactly these to what the watcher watches, stopping events of a
  running watcher removes exactly these, other watchers and the timers are not
  touched, and a callback is told exactly the read and write events that libev reports.
\<close>

theorem io_events_correct:
  assumes "libev_ok ev" and "el_reach ev el" and "el_io el w = Some iw" and "0 \<le> fd"
  shows "(\<exists>el'. start_io_event ev w fd m el = Some el' \<and> watched el' w = watched el w OR (m AND 3) \<and>
      (\<forall>v. v \<noteq> w \<longrightarrow> el_io el' v = el_io el v) \<and> el_timers el' = el_timers el) \<and>
    (io_active (iw_io iw) \<longrightarrow> (\<exists>el'. stop_io_event ev w fd m el = Some el' \<and> watched el' w = watched el w AND NOT m \<and>
      (\<forall>v. v \<noteq> w \<longrightarrow> el_io el' v = el_io el v) \<and> el_timers el' = el_timers el)) \<and>
    generic_io_cb w revents el = Some (iw_cb iw, w, io_fd (iw_io iw), revents AND 3, iw_data iw)"
proof -
  have ok: "io_ok (iw_io iw)" using el_reach_inv [OF assms(2,1)] assms(3) by (auto simp: el_inv_def)
  obtain io' where s: "start_io_event ev w fd m el = Some (el\<lparr>el_io := (el_io el)(w \<mapsto> iw\<lparr>iw_io := io'\<rparr>)\<rparr>)"
    "io_interest io' = io_interest (iw_io iw) OR (m AND 3)"
    by (rule start_io_event_correct [OF assms(1,4,3) ok, of m])
  have "\<exists>el'. stop_io_event ev w fd m el = Some el' \<and> watched el' w = watched el w AND NOT m \<and>
      (\<forall>v. v \<noteq> w \<longrightarrow> el_io el' v = el_io el v) \<and> el_timers el' = el_timers el" if a: "io_active (iw_io iw)"
  proof -
    obtain e where e: "io_events (iw_io iw) = Some e" using ok a by (auto simp: io_ok_def)
    have i: "io_interest (iw_io iw) = e AND 3" using a e by (simp add: io_interest_def)
    have none: "(e AND 3) AND NOT m = e AND 3" if "(e AND 3) AND m = 0"
    proof -
      have "e AND 3 = ((e AND 3) AND m) OR ((e AND 3) AND NOT m)" by (simp flip: bit.conj_disj_distrib)
      then show ?thesis using that by simp
    qed
    obtain io' where t: "stop_io_event ev w fd m el = Some (el\<lparr>el_io := (el_io el)(w \<mapsto> iw\<lparr>iw_io := io'\<rparr>)\<rparr>)"
      "io_interest io' = (if (e AND 3) AND m = 0 then io_interest (iw_io iw) else (e AND 3) AND NOT m)"
      by (rule stop_io_event_correct [OF assms(1,4,3) e ok, of m])
    have "io_interest io' = (e AND 3) AND NOT m" using t(2) i none by simp
    then show ?thesis using t(1) assms(3) i by (simp add: watched_def)
  qed
  then show ?thesis using s assms(3) by (auto simp: watched_def generic_io_cb_def)
qed

text \<open>A library that does what is documented.\<close>

definition simple_libev :: libev where
  "simple_libev = \<lparr>ev_io_start = (\<lambda>io. io\<lparr>io_active := True, io_events := map_option (\<lambda>e. e AND 3) (io_events io)\<rparr>),
     ev_io_stop = (\<lambda>io. io\<lparr>io_active := False\<rparr>), ev_timer_start = (\<lambda>t. t\<lparr>tm_active := True\<rparr>),
     ev_timer_stop = (\<lambda>t. t\<lparr>tm_active := False\<rparr>),
     ev_timer_again = (\<lambda>t. if mant (the (tm_repeat t)) \<noteq> 0 then t\<lparr>tm_active := True, tm_at := tm_repeat t\<rparr> else t\<lparr>tm_active := False\<rparr>)\<rparr>"

lemma simple_libev_ok: "libev_ok simple_libev"
proof -
  have h: "io\<lparr>io_active := True, io_events := Some (e AND 3)\<rparr> = \<lparr>io_active = True, io_fd = io_fd io, io_events = Some (e AND 3)\<rparr>" for io :: ev_io and e
    by (cases io) simp
  show ?thesis by (auto simp: libev_ok_def simple_libev_def and.assoc h)
qed

theorem io_events_correct_witness:
  "\<exists>el'. start_io_event simple_libev 5 3 1 (create_io_event 5 1 2 \<lparr>el_owner = 0, el_io = Map.empty, el_timers = Map.empty\<rparr>) = Some el' \<and>
     watched el' 5 = 1"
proof -
  let ?el = "create_io_event 5 1 2 \<lparr>el_owner = 0, el_io = Map.empty, el_timers = Map.empty\<rparr>"
  have "el_reach simple_libev ?el" by (rule el_create_io [OF el_start]) simp
  moreover have "el_io ?el 5 = Some \<lparr>iw_io = ev_io_init, iw_cb = 1, iw_data = 2\<rparr>" by (simp add: create_io_event_def)
  ultimately have "\<exists>el'. start_io_event simple_libev 5 3 1 ?el = Some el' \<and> watched el' 5 = watched ?el 5 OR (1 AND 3)"
    using io_events_correct [OF simple_libev_ok, of ?el 5 _ 3 1] by (metis zero_le_numeral)
  then show ?thesis by (simp add: watched_def create_io_event_def ev_io_init_def io_interest_def)
qed

text \<open>A watcher that was stopped remembers its events: stopping some of them again starts the others.\<close>

lemma stop_io_event_restarts:
  assumes "libev_ok ev" and "0 \<le> fd" and "\<not> io_active io" and "io_events io = Some 3"
  shows "\<exists>io'. stop_io ev fd EL_WRITE io = Some io' \<and> io_active io' \<and> io_interest io' = EL_READ"
proof -
  obtain io' where "stop_io ev fd EL_WRITE io = Some io'" 
    "io_interest io' = (if (3 AND 3) AND EL_WRITE = 0 then io_interest io else (3 AND 3) AND NOT EL_WRITE)"
    "(3 AND 3) AND EL_WRITE \<noteq> 0 \<longrightarrow> (io_active io' \<longleftrightarrow> (3 AND 3) AND NOT EL_WRITE \<noteq> 0)"
    by (rule stop_io_correct [OF assms(1,2,4), of EL_WRITE])
  then show ?thesis by (simp add: EL_WRITE_def EL_READ_def)
qed

text \<open>The events of a watcher that was never started are not initialised, and stopping reads them.\<close>

lemma stop_io_event_uninitialised: "stop_io_event ev w fd m (create_io_event w cb data el) = None"
  by (simp add: stop_io_event_def stop_io_def create_io_event_def ev_io_init_def)

text \<open>A started watcher keeps its descriptor when another one is given with events it already watches.\<close>

lemma start_io_event_keeps_fd:
  assumes "io_active io" and "io_events io = Some e" and "e AND 3 = (e AND 3) OR m"
  shows "start_io ev fd m io = Some io"
  using assms by (simp add: start_io_def)

text \<open>
  Starting a timer runs it once after the time given or again and again, except that a repeating timer with the time zero is stopped.
\<close>

lemma start_timer_correct:
  assumes ev: "libev_ok ev" and w: "el_timers el w = Some tw"
  obtains t where "start_timer ev w usec el = Some (el\<lparr>el_timers := (el_timers el)(w \<mapsto> tw\<lparr>tw_timer := t\<rparr>)\<rparr>)"
    "tm_repeat t = Some (if tw_need_repeat tw then timer_seconds usec else f32_zero)"
    "tm_active t \<longleftrightarrow> \<not> tw_need_repeat tw \<or> mant (timer_seconds usec) \<noteq> 0" "tm_active t \<longrightarrow> tm_at t = Some (timer_seconds usec)"
proof -
  let ?s = "timer_seconds usec" and ?t = "tw_timer tw"
  have e: "ev_timer_start ev t = t\<lparr>tm_active := True\<rparr>" "ev_timer_stop ev t = t\<lparr>tm_active := False\<rparr>" for t using ev by (simp_all add: libev_ok_def)
  have r: "tm_repeat t = Some r \<Longrightarrow> ev_timer_again ev t = (if mant r \<noteq> 0 then t\<lparr>tm_active := True, tm_at := Some r\<rparr> else t\<lparr>tm_active := False\<rparr>)" for t r
    using ev by (simp only: libev_ok_def)
  show thesis
  proof (cases "tw_need_repeat tw")
    case True
    have again: "ev_timer_again ev (?t\<lparr>tm_repeat := Some ?s\<rparr>) =
        (if mant ?s \<noteq> 0 then ?t\<lparr>tm_repeat := Some ?s, tm_active := True, tm_at := Some ?s\<rparr> else ?t\<lparr>tm_repeat := Some ?s, tm_active := False\<rparr>)"
      by (rule r) simp
    show thesis by (rule that [of "ev_timer_again ev (?t\<lparr>tm_repeat := Some ?s\<rparr>)"]) (use True w in \<open>simp_all add: start_timer_def Let_def again\<close>)
  next
    case False
    show thesis
      by (rule that [of "?t\<lparr>tm_at := Some ?s, tm_repeat := Some f32_zero, tm_active := True\<rparr>"])
        (use False w in \<open>simp_all add: start_timer_def Let_def e ev_timer_set_def\<close>)
  qed
qed

lemma start_timer_zero_stops:
  assumes "libev_ok ev" and "el_timers el w = Some tw" and "tw_need_repeat tw"
  shows "\<exists>el' tw'. start_timer ev w 0 el = Some el' \<and> el_timers el' w = Some tw' \<and> \<not> tm_active (tw_timer tw')"
proof -
  have z: "mant (timer_seconds 0) = 0" by (simp add: timer_seconds_def f32_of_nat_exact f32_div_def f32_round_def nbits.simps [of 0] Let_def)
  obtain t where "start_timer ev w 0 el = Some (el\<lparr>el_timers := (el_timers el)(w \<mapsto> tw\<lparr>tw_timer := t\<rparr>)\<rparr>)"
    "tm_active t \<longleftrightarrow> \<not> tw_need_repeat tw \<or> mant (timer_seconds 0) \<noteq> 0"
    by (rule start_timer_correct [OF assms(1,2), of 0])
  then show ?thesis using z assms(3) by simp
qed

text \<open>The static reference to the default loop outlives the loop.\<close>

lemma current_time_dangling:
  "\<exists>st. event_loop_delete p (event_loop_new p owner True st0) = Some st \<and> current_time ev_now unix_time st = None"
  by (simp add: event_loop_delete_def event_loop_new_def current_time_def)

end
