(* ===== verification/AsyncUdpSocket.thy ===== *)
theory AsyncUdpSocket
  imports PhysicalSocket EventLoop StdContainers "HOL-Library.Sublist"
begin

text \<open>
  The asynchronous UDP socket (\<open>src/async_udp_socket.{h,cpp}\<close>, \<open>src/async_packet_socket.h\<close>): packets wait in one queue per
  destination and are sent when the event loop says that the socket is writable.  The slots of its signals may send
  further packets while the queues are being served, so the maps change under the iterator.
\<close>

section \<open>The socket\<close>

record udp_packet =
  pk_data :: "byte list"
  pk_addr :: socket_address

type_synonym udp_map = "(bstring \<times> udp_packet list) list"

text \<open>
  \<open>au_total_send_data\<close> is a value of \<open>int\<close>, 32 bits wide.  The last two fields are traces: the packets accepted by \<open>send_to\<close>, and the calls of \<open>send_to\<close> of
  the socket below with their results.
\<close>

record async_udp =
  au_ps :: physical_socket
  au_os :: os
  au_el :: event_loop
  au_watcher :: nat
  au_buf :: "byte list"
  au_map :: udp_map
  au_total_send_data :: int
  au_accepted :: "udp_packet list"
  au_calls :: "(udp_packet \<times> int) list"

text \<open>
  What the socket relies on: libev, the byte order, \<open>inet_ntop\<close>, the outcome of each call of \<open>sendto\<close>, and what the slots of
  \<open>signal_sent_packet\<close> (after the packet of that call) and \<open>signal_read_packet\<close> send.
\<close>

record udp_env =
  ue_ev :: libev
  ue_he :: endian
  ue_ntop :: ntop
  ue_sendto :: "nat \<Rightarrow> int \<Rightarrow> byte list \<Rightarrow> int \<Rightarrow> sockaddr_storage \<Rightarrow> nat \<Rightarrow> int \<times> int"
  ue_sent_slot :: "nat \<Rightarrow> udp_packet list"
  ue_read_slot :: "byte list \<Rightarrow> socket_address \<Rightarrow> udp_packet list"

definition enable_events :: "udp_env \<Rightarrow> u32 \<Rightarrow> async_udp \<Rightarrow> async_udp option" where
  "enable_events env events u = do {
     el \<leftarrow> start_io_event (ue_ev env) (au_watcher u) (ps_s (au_ps u)) events (au_el u);
     Some (u\<lparr>au_el := el\<rparr>) }"

definition disable_events :: "udp_env \<Rightarrow> u32 \<Rightarrow> async_udp \<Rightarrow> async_udp option" where
  "disable_events env events u = do {
     el \<leftarrow> stop_io_event (ue_ev env) (au_watcher u) (ps_s (au_ps u)) events (au_el u);
     Some (u\<lparr>au_el := el\<rparr>) }"

definition BUF_SIZE :: nat where "BUF_SIZE = 64 * 1024"

text \<open>The callback and its data are named by \<open>cb\<close> and \<open>this\<close>; \<open>raw\<close> is the new buffer.\<close>

definition async_udp_new ::
    "udp_env \<Rightarrow> physical_socket \<Rightarrow> os \<Rightarrow> event_loop \<Rightarrow> nat \<Rightarrow> nat \<Rightarrow> nat \<Rightarrow> byte list \<Rightarrow> async_udp option" where
  "async_udp_new env ps os el w cb this raw =
     enable_events env EL_READ
       \<lparr>au_ps = ps, au_os = os, au_el = create_io_event w cb this el, au_watcher = w, au_buf = raw, au_map = [],
        au_total_send_data = 0, au_accepted = [], au_calls = []\<rparr>"

text \<open>\<open>++_total_send_data\<close>; the overflow of the signed counter is undefined.\<close>

definition incr_total_send_data :: "async_udp \<Rightarrow> async_udp option" where
  "incr_total_send_data u =
     (if au_total_send_data u \<ge> 2 ^ 31 - 1 then None else Some (u\<lparr>au_total_send_data := au_total_send_data u + 1\<rparr>))"

definition add_udp_send_data :: "udp_env \<Rightarrow> byte list \<Rightarrow> socket_address \<Rightarrow> async_udp \<Rightarrow> (int \<times> async_udp) option" where
  "add_udp_send_data env data addr u = do {
     let packet_data = \<lparr>pk_data = data, pk_addr = addr\<rparr>;
     let key = sa_to_string (ue_ntop env) addr;
     let m = (case map_of (au_map u) key of
                Some packet_list \<Rightarrow> smap_put key (packet_list @ [packet_data]) (au_map u)
              | None \<Rightarrow> smap_put key ([] @ [packet_data]) (au_map u));
     u \<leftarrow> incr_total_send_data (u\<lparr>au_map := m, au_accepted := au_accepted u @ [packet_data]\<rparr>);
     u \<leftarrow> enable_events env EL_WRITE u;
     Some (sint (of_nat (length data) :: u32), u) }"

definition udp_send_to :: "udp_env \<Rightarrow> byte list \<Rightarrow> socket_address \<Rightarrow> async_udp \<Rightarrow> (int \<times> async_udp) option" where
  "udp_send_to env data addr u = add_udp_send_data env data addr u"

text \<open>What a slot does: it sends the packets of a list.\<close>

fun slot_sends :: "udp_env \<Rightarrow> udp_packet list \<Rightarrow> async_udp \<Rightarrow> async_udp option" where
  "slot_sends env [] u = Some u"
| "slot_sends env (p # ps) u = do { (n, u) \<leftarrow> udp_send_to env (pk_data p) (pk_addr p) u; slot_sends env ps u }"

section \<open>Sending\<close>

text \<open>Iterators of the map are keys; \<open>None\<close> is the end.\<close>

definition smap_begin :: "(bstring \<times> 'v) list \<Rightarrow> bstring option" where
  "smap_begin m = (case m of [] \<Rightarrow> None | e # m \<Rightarrow> Some (fst e))"

definition smap_next :: "(bstring \<times> 'v) list \<Rightarrow> bstring \<Rightarrow> bstring option" where
  "smap_next m k = smap_begin (filter (\<lambda>e. str_less k (fst e)) m)"

text \<open>The packet at the front leaves its queue and is deleted.\<close>

definition pop_packet :: "bstring \<Rightarrow> udp_packet list \<Rightarrow> async_udp \<Rightarrow> async_udp" where
  "pop_packet k q u = u\<lparr>au_map := smap_put k q (au_map u), au_total_send_data := au_total_send_data u - 1\<rparr>"

definition call_sendto :: "udp_env \<Rightarrow> udp_packet \<Rightarrow> async_udp \<Rightarrow> int \<times> async_udp" where
  "call_sendto env p u =
     (case ps_send_to (ue_he env) (ue_sendto env (length (au_calls u))) (pk_data p) (pk_addr p) (au_ps u) (au_os u) of
        (sent, ps, os) \<Rightarrow> (sent, u\<lparr>au_ps := ps, au_os := os, au_calls := au_calls u @ [(p, sent)]\<rparr>))"

text \<open>
  The two loops of \<open>send_data\<close>, at an iterator of the map: at its end the condition of the outer loop is tested.
  The result is \<open>None\<close> when the loop does not end.
\<close>

partial_function (option) send_loop :: "udp_env \<Rightarrow> bstring option \<Rightarrow> async_udp \<Rightarrow> async_udp option" where
  "send_loop env it u =
     (case it of
        None \<Rightarrow>
          if au_total_send_data u > 0 then send_loop env (smap_begin (au_map u)) u
          else disable_events env EL_WRITE u
      | Some k \<Rightarrow>
          (case map_of (au_map u) k of
             None \<Rightarrow> None
           | Some [] \<Rightarrow> send_loop env (smap_next (au_map u) k) u
           | Some (p # q) \<Rightarrow>
               (case call_sendto env p u of
                  (sent, u1) \<Rightarrow>
                    if sent = -1 then Some (pop_packet k q u1)
                    else if sent = 0 then Some u1
                    else Option.bind (slot_sends env (ue_sent_slot env (length (au_calls u))) (pop_packet k q u1))
                           (\<lambda>u2. send_loop env (smap_next (au_map u2) k) u2))))"

definition send_data :: "udp_env \<Rightarrow> async_udp \<Rightarrow> async_udp option" where
  "send_data env u = send_loop env None u"

section \<open>Receiving and closing\<close>

record packet_time =
  pt_timestamp :: int
  pt_not_before :: int

definition create_packet_time :: "int \<Rightarrow> int \<Rightarrow> packet_time" where
  "create_packet_time now_micros not_before = \<lparr>pt_timestamp = now_micros, pt_not_before = not_before\<rparr>"

text \<open>A packet that was received is signalled with its data, the address of the sender and its time.\<close>

definition recv_data ::
    "udp_env \<Rightarrow> int \<Rightarrow> int \<times> byte list \<times> sockaddr_storage \<times> int \<Rightarrow> int \<times> int \<times> int \<times> int \<Rightarrow> int \<Rightarrow> socket_address \<Rightarrow> async_udp \<Rightarrow>
     ((byte list \<times> socket_address \<times> packet_time) option \<times> async_udp) option" where
  "recv_data env fd recvfrom ioctl now_micros raw u =
     (if ps_s (au_ps u) \<noteq> fd then None
      else
        case ps_recv_from (ue_he env) recvfrom ioctl (au_buf u) (sa_new raw) (au_ps u) (au_os u) of
          (r, ps, os) \<Rightarrow>
            let u = u\<lparr>au_ps := ps, au_os := os, au_buf := rr_buffer r\<rparr>;
                len = rr_received r
            in if len \<le> 0 then Some (None, u)
               else do {
                 data \<leftarrow> mem_read (au_buf u) 0 (nat len);
                 let time = (if rr_timestamp r > -1 then \<lparr>pt_timestamp = rr_timestamp r, pt_not_before = 0\<rparr> else create_packet_time now_micros 0);
                 u \<leftarrow> slot_sends env (ue_read_slot env data (rr_addr r)) u;
                 Some (Some (data, rr_addr r, time), u) })"

definition udp_close :: "udp_env \<Rightarrow> int \<times> int \<Rightarrow> async_udp \<Rightarrow> (int \<times> async_udp) option" where
  "udp_close env out u = do {
     u \<leftarrow> disable_events env (EL_READ OR EL_WRITE) u;
     (err, ps, os) \<leftarrow> ps_close out (au_ps u) (au_os u);
     Some (err, u\<lparr>au_ps := ps, au_os := os\<rparr>) }"

text \<open>The destructor deletes the watcher and, with the socket, closes the descriptor; what is left in the queues is deleted.\<close>

definition async_udp_delete :: "udp_env \<Rightarrow> int \<times> int \<Rightarrow> async_udp \<Rightarrow> (event_loop \<times> os) option" where
  "async_udp_delete env out u = do {
     el \<leftarrow> delete_io_event (ue_ev env) (au_watcher u) (au_el u);
     os \<leftarrow> physical_socket_delete out (au_ps u) (au_os u);
     Some (el, os) }"

definition socket_io_cb ::
    "udp_env \<Rightarrow> int \<Rightarrow> u32 \<Rightarrow> int \<times> byte list \<times> sockaddr_storage \<times> int \<Rightarrow> int \<times> int \<times> int \<times> int \<Rightarrow> int \<Rightarrow> socket_address \<Rightarrow> async_udp \<Rightarrow>
     async_udp option" where
  "socket_io_cb env fd revents recvfrom ioctl now_micros raw u = do {
     u \<leftarrow> (if revents AND EL_READ \<noteq> 0 then map_option snd (recv_data env fd recvfrom ioctl now_micros raw u) else Some u);
     if revents AND EL_WRITE \<noteq> 0 then send_data env u else Some u }"

section \<open>Queues\<close>

definition queue_of :: "udp_map \<Rightarrow> bstring \<Rightarrow> udp_packet list" where
  "queue_of m k = (case map_of m k of None \<Rightarrow> [] | Some q \<Rightarrow> q)"

definition queued :: "udp_map \<Rightarrow> nat" where
  "queued m = (\<Sum>e \<leftarrow> m. length (snd e))"

lemma str_less_asym: "str_less a b \<Longrightarrow> \<not> str_less b a"
  using str_less_irrefl str_less_trans by blast

lemma smap_notin_less: "smap_ok ((k', v) # m) \<Longrightarrow> str_less k k' \<Longrightarrow> map_of ((k', v) # m) k = None"
  by (auto simp: smap_ok_def map_of_eq_None_iff str_less_irrefl dest: str_less_trans)

lemma queued_put: "smap_ok m \<Longrightarrow> queued (smap_put k q m) + length (queue_of m k) = queued m + length q"
proof (induction m)
  case (Cons e m)
  obtain k' v where e: "e = (k', v)" by force
  have ok: "smap_ok m" using Cons.prems by (simp add: smap_ok_def)
  consider "k = k'" | "k \<noteq> k'" "str_less k k'" | "k \<noteq> k'" "\<not> str_less k k'" by blast
  then show ?case
  proof cases
    case 2
    then show ?thesis using smap_notin_less [of k' v m k] Cons.prems by (simp add: e queued_def queue_of_def)
  next
    case 3
    then show ?thesis using Cons.IH [OF ok] by (simp add: e queued_def queue_of_def)
  qed (simp add: e queued_def queue_of_def)
qed (simp add: queued_def queue_of_def)

lemma keys_put_same: "k \<in> fst ` set m \<Longrightarrow> smap_ok m \<Longrightarrow> map fst (smap_put k q m) = map fst m"
proof (induction m)
  case (Cons e m)
  obtain k' v where e: "e = (k', v)" by force
  have ok: "smap_ok m" using Cons.prems by (simp add: smap_ok_def)
  have "\<not> str_less k k'" if "k \<noteq> k'"
  proof
    assume "str_less k k'"
    then have "map_of ((k', v) # m) k = None" using Cons.prems(2) by (intro smap_notin_less) (simp add: e)
    then show False using Cons.prems(1) by (auto simp: e map_of_eq_None_iff split: if_splits)
  qed
  then show ?case using Cons ok by (auto simp: e)
qed simp

lemma queue_of_put: "queue_of (smap_put k q m) k' = (if k' = k then q else queue_of m k')"
  by (simp add: queue_of_def)

lemma queued_pos:
  assumes p: "queued m > 0" and ok: "smap_ok m"
  shows "\<exists>k \<in> fst ` set m. queue_of m k \<noteq> []"
proof -
  have "\<exists>e \<in> set m. snd e \<noteq> []" using p unfolding queued_def by (induction m) auto
  then obtain e where e: "e \<in> set m" "snd e \<noteq> []" by blast
  then have "map_of m (fst e) = Some (snd e)" using ok by (simp add: smap_map_of)
  then show ?thesis using e by (intro bexI [of _ "fst e"]) (auto simp: queue_of_def)
qed

section \<open>Watching\<close>

definition au_watch :: "async_udp \<Rightarrow> u32 \<Rightarrow> bool" where
  "au_watch u e \<longleftrightarrow> 0 \<le> ps_s (au_ps u) \<and>
     (\<exists>iw. el_io (au_el u) (au_watcher u) = Some iw \<and> io_ok (iw_io iw) \<and> io_active (iw_io iw) \<and> io_interest (iw_io iw) = e)"

lemma enable_write:
  assumes ev: "libev_ok (ue_ev env)" and w: "au_watch u EL_READ \<or> au_watch u (EL_READ OR EL_WRITE)"
  obtains el where "enable_events env EL_WRITE u = Some (u\<lparr>au_el := el\<rparr>)" "au_watch (u\<lparr>au_el := el\<rparr>) (EL_READ OR EL_WRITE)"
proof -
  obtain iw where iw: "0 \<le> ps_s (au_ps u)" "el_io (au_el u) (au_watcher u) = Some iw" "io_ok (iw_io iw)"
    "io_interest (iw_io iw) = EL_READ \<or> io_interest (iw_io iw) = EL_READ OR EL_WRITE"
    using w by (auto simp: au_watch_def)
  obtain io' where "start_io_event (ue_ev env) (au_watcher u) (ps_s (au_ps u)) EL_WRITE (au_el u) =
      Some ((au_el u)\<lparr>el_io := (el_io (au_el u))(au_watcher u \<mapsto> iw\<lparr>iw_io := io'\<rparr>)\<rparr>)" "io_ok io'" "io_active io'"
      "io_interest io' = io_interest (iw_io iw) OR (EL_WRITE AND 3)"
    by (rule start_io_event_correct [OF ev iw(1-3), of EL_WRITE])
  then show thesis using iw by (intro that) (auto simp: enable_events_def au_watch_def EL_READ_def EL_WRITE_def)
qed

lemma disable_write:
  assumes ev: "libev_ok (ue_ev env)" and w: "au_watch u EL_READ \<or> au_watch u (EL_READ OR EL_WRITE)"
  obtains el where "disable_events env EL_WRITE u = Some (u\<lparr>au_el := el\<rparr>)" "au_watch (u\<lparr>au_el := el\<rparr>) EL_READ"
proof -
  obtain iw where iw: "0 \<le> ps_s (au_ps u)" "el_io (au_el u) (au_watcher u) = Some iw" "io_ok (iw_io iw)" "io_active (iw_io iw)"
    "io_interest (iw_io iw) = EL_READ \<or> io_interest (iw_io iw) = EL_READ OR EL_WRITE"
    using w by (auto simp: au_watch_def)
  obtain e where e: "io_events (iw_io iw) = Some e" using iw by (auto simp: io_ok_def)
  have i: "e AND 3 = 1 \<or> e AND 3 = 3" using iw e by (auto simp: io_interest_def EL_READ_def EL_WRITE_def)
  obtain io' where io: "stop_io_event (ue_ev env) (au_watcher u) (ps_s (au_ps u)) EL_WRITE (au_el u) =
      Some ((au_el u)\<lparr>el_io := (el_io (au_el u))(au_watcher u \<mapsto> iw\<lparr>iw_io := io'\<rparr>)\<rparr>)" "io_ok io'"
      "io_interest io' = (if (e AND 3) AND EL_WRITE = 0 then io_interest (iw_io iw) else (e AND 3) AND NOT EL_WRITE)"
    by (rule stop_io_event_correct [OF ev iw(1,2) e iw(3), of EL_WRITE])
  have "io_interest io' = EL_READ" using io(3) i iw(4) e by (auto simp: EL_READ_def EL_WRITE_def io_interest_def)
  then have "io_active io'" by (auto simp: io_interest_def EL_READ_def split: if_splits)
  then show thesis using io iw \<open>io_interest io' = EL_READ\<close> by (intro that) (auto simp: disable_events_def au_watch_def)
qed

section \<open>The invariant\<close>

definition packet_key :: "udp_env \<Rightarrow> udp_packet \<Rightarrow> bstring" where
  "packet_key env p = sa_to_string (ue_ntop env) (pk_addr p)"

definition to_key :: "udp_env \<Rightarrow> bstring \<Rightarrow> udp_packet list \<Rightarrow> udp_packet list" where
  "to_key env k = filter (\<lambda>p. packet_key env p = k)"

text \<open>The packets of the calls that sent or failed; a call with the result 0 is made again.\<close>

definition gone :: "(udp_packet \<times> int) list \<Rightarrow> udp_packet list" where
  "gone cs = map fst (filter (\<lambda>c. snd c \<noteq> 0) cs)"

lemma gone_simps [simp]: "gone [] = []" "gone ((p, n) # cs) = (if n = 0 then gone cs else p # gone cs)" "gone (cs @ ds) = gone cs @ gone ds"
  by (simp_all add: gone_def)

lemma to_key_simps [simp]: "to_key env k [] = []" "to_key env k (xs @ ys) = to_key env k xs @ to_key env k ys"
  "to_key env k (p # ps) = (if packet_key env p = k then p # to_key env k ps else to_key env k ps)"
  by (simp_all add: to_key_def)

definition queues_inv :: "udp_env \<Rightarrow> async_udp \<Rightarrow> bool" where
  "queues_inv env u \<longleftrightarrow> length (au_buf u) = BUF_SIZE \<and> smap_ok (au_map u) \<and> au_total_send_data u = int (queued (au_map u)) \<and>
     (\<forall>k. to_key env k (au_accepted u) = to_key env k (gone (au_calls u)) @ queue_of (au_map u) k)"

text \<open>An open socket watches for reading and, while packets wait, for writing.\<close>

definition watch_inv :: "async_udp \<Rightarrow> bool" where
  "watch_inv u \<longleftrightarrow> (0 \<le> ps_s (au_ps u) \<longrightarrow> au_watch u EL_READ \<and> au_total_send_data u = 0 \<or> au_watch u (EL_READ OR EL_WRITE))"

definition au_inv :: "udp_env \<Rightarrow> async_udp \<Rightarrow> bool" where
  "au_inv env u \<longleftrightarrow> queues_inv env u \<and> watch_inv u"

lemma au_watch_cong [simp]:
  "au_watch (u\<lparr>au_map := m\<rparr>) e = au_watch u e" "au_watch (u\<lparr>au_total_send_data := t\<rparr>) e = au_watch u e"
  "au_watch (u\<lparr>au_accepted := a\<rparr>) e = au_watch u e"
  "au_watch (u\<lparr>au_calls := n\<rparr>) e = au_watch u e" "au_watch (u\<lparr>au_os := os\<rparr>) e = au_watch u e" "au_watch (u\<lparr>au_buf := b\<rparr>) e = au_watch u e"
  by (simp_all add: au_watch_def)

lemma queues_inv_cong [simp]:
  "queues_inv env (u\<lparr>au_el := el\<rparr>) = queues_inv env u" "queues_inv env (u\<lparr>au_ps := ps\<rparr>) = queues_inv env u"
  "queues_inv env (u\<lparr>au_os := os\<rparr>) = queues_inv env u"
  by (simp_all add: queues_inv_def)

lemma enable_frame: "enable_events env e u = Some u' \<Longrightarrow> \<exists>el. u' = u\<lparr>au_el := el\<rparr>"
  by (auto simp: enable_events_def Option.bind_eq_Some_conv)

lemma disable_frame: "disable_events env e u = Some u' \<Longrightarrow> \<exists>el. u' = u\<lparr>au_el := el\<rparr>"
  by (auto simp: disable_events_def Option.bind_eq_Some_conv)

text \<open>The state when the packet is in its queue and counted.\<close>

definition au_accept :: "udp_env \<Rightarrow> udp_packet \<Rightarrow> async_udp \<Rightarrow> async_udp" where
  "au_accept env p u =
     u\<lparr>au_map := smap_put (packet_key env p) (queue_of (au_map u) (packet_key env p) @ [p]) (au_map u),
       au_accepted := au_accepted u @ [p], au_total_send_data := au_total_send_data u + 1\<rparr>"

lemma add_udp_send_data_eq:
  "add_udp_send_data env (pk_data p) (pk_addr p) u =
     (if au_total_send_data u \<ge> 2 ^ 31 - 1 then None
      else map_option (Pair (sint (of_nat (length (pk_data p)) :: u32))) (enable_events env EL_WRITE (au_accept env p u)))"
proof -
  let ?k = "packet_key env p"
  have m: "(case map_of (au_map u) ?k of Some q \<Rightarrow> smap_put ?k (q @ [p]) (au_map u) | None \<Rightarrow> smap_put ?k ([] @ [p]) (au_map u)) =
      smap_put ?k (queue_of (au_map u) ?k @ [p]) (au_map u)"
    by (simp add: queue_of_def split: option.split)
  have p: "\<lparr>pk_data = pk_data p, pk_addr = pk_addr p\<rparr> = p" by simp
  show ?thesis
    unfolding add_udp_send_data_def Let_def packet_key_def [symmetric] p m
    by (simp add: incr_total_send_data_def au_accept_def map_option_case split: option.split)
qed

lemma au_accept_queues:
  assumes "queues_inv env u"
  shows "queues_inv env (au_accept env p u)"
proof -
  let ?k = "packet_key env p"
  have "queued (smap_put ?k (queue_of (au_map u) ?k @ [p]) (au_map u)) = queued (au_map u) + 1"
    using queued_put [of "au_map u" ?k "queue_of (au_map u) ?k @ [p]"] assms by (simp add: queues_inv_def)
  then show ?thesis using assms smap_put_ok [of "au_map u"] by (simp add: queues_inv_def queue_of_put au_accept_def)
qed

lemma au_accept_watch: "watch_inv u \<Longrightarrow> 0 \<le> ps_s (au_ps u) \<Longrightarrow> au_watch (au_accept env p u) EL_READ \<or> au_watch (au_accept env p u) (EL_READ OR EL_WRITE)"
  by (auto simp: watch_inv_def au_accept_def)

definition grows :: "udp_packet list \<Rightarrow> async_udp \<Rightarrow> async_udp \<Rightarrow> bool" where
  "grows ps u u' \<longleftrightarrow> au_calls u' = au_calls u \<and> ps_s (au_ps u') = ps_s (au_ps u) \<and> au_accepted u' = au_accepted u @ ps \<and>
     au_total_send_data u' = au_total_send_data u + int (length ps)"

lemma add_udp_send_data_inv:
  fixes p :: udp_packet
  assumes ev: "libev_ok (ue_ev env)" and inv: "au_inv env u" and e: "add_udp_send_data env (pk_data p) (pk_addr p) u = Some (n, u')"
  shows "au_inv env u' \<and> grows [p] u u'"
proof -
  have en: "enable_events env EL_WRITE (au_accept env p u) = Some u'" using e by (auto simp: add_udp_send_data_eq split: if_splits)
  then obtain el where el: "u' = (au_accept env p u)\<lparr>au_el := el\<rparr>" using enable_frame by blast
  have "au_watch u' (EL_READ OR EL_WRITE)" if "0 \<le> ps_s (au_ps u)"
    by (rule enable_write [OF ev au_accept_watch [OF _ that, of env p]]) (use inv en in \<open>auto simp: au_inv_def\<close>)
  then have "watch_inv u'" unfolding watch_inv_def el by (simp add: au_accept_def)
  then show ?thesis using el au_accept_queues [of env u p] inv by (simp add: au_inv_def grows_def) (simp add: au_accept_def)
qed

lemma add_udp_send_data_returns:
  fixes p :: udp_packet
  assumes ev: "libev_ok (ue_ev env)" and inv: "au_inv env u" and o: "0 \<le> ps_s (au_ps u)" and t: "au_total_send_data u + 1 < 2 ^ 31"
  shows "\<exists>u'. add_udp_send_data env (pk_data p) (pk_addr p) u = Some (sint (of_nat (length (pk_data p)) :: u32), u')"
  by (rule enable_write [OF ev au_accept_watch [OF _ o, of env p]]) (use inv t in \<open>auto simp: au_inv_def add_udp_send_data_eq\<close>)

lemma slot_sends_inv:
  assumes ev: "libev_ok (ue_ev env)"
  shows "au_inv env u \<Longrightarrow> slot_sends env ps u = Some u' \<Longrightarrow> au_inv env u' \<and> grows ps u u'"
proof (induction ps arbitrary: u)
  case Nil
  then show ?case by (simp add: grows_def)
next
  case (Cons p ps)
  then obtain n u1 where 1: "add_udp_send_data env (pk_data p) (pk_addr p) u = Some (n, u1)" "slot_sends env ps u1 = Some u'"
    by (auto simp: udp_send_to_def Option.bind_eq_Some_conv)
  from add_udp_send_data_inv [OF ev Cons.prems(1) 1(1)] Cons.IH [OF _ 1(2)] show ?case by (auto simp: grows_def)
qed

lemma slot_sends_returns:
  assumes ev: "libev_ok (ue_ev env)"
  shows "au_inv env u \<Longrightarrow> 0 \<le> ps_s (au_ps u) \<Longrightarrow> au_total_send_data u + int (length ps) < 2 ^ 31 \<Longrightarrow> \<exists>u'. slot_sends env ps u = Some u'"
proof (induction ps arbitrary: u)
  case (Cons p ps)
  have "au_total_send_data u + 1 < 2 ^ 31" using Cons.prems(3) by simp
  then obtain n u1 where 1: "add_udp_send_data env (pk_data p) (pk_addr p) u = Some (n, u1)"
    using add_udp_send_data_returns [OF ev Cons.prems(1,2)] by blast
  from add_udp_send_data_inv [OF ev Cons.prems(1) 1] have "au_inv env u1" "grows [p] u u1" by simp_all
  then obtain u' where "slot_sends env ps u1 = Some u'" using Cons.IH [of u1] Cons.prems(2,3) by (auto simp: grows_def)
  then show ?case using 1 by (simp add: udp_send_to_def)
qed simp

lemma call_sendto_frame:
  assumes "call_sendto env p u = (sent, u1)"
  shows "au_map u1 = au_map u" "au_total_send_data u1 = au_total_send_data u" "au_accepted u1 = au_accepted u" "au_buf u1 = au_buf u"
    "au_calls u1 = au_calls u @ [(p, sent)]" "au_watch u1 e = au_watch u e" "ps_s (au_ps u1) = ps_s (au_ps u)" "-1 \<le> sent"
proof -
  show m: "au_map u1 = au_map u" "au_total_send_data u1 = au_total_send_data u" "au_accepted u1 = au_accepted u" "au_buf u1 = au_buf u"
    "au_calls u1 = au_calls u @ [(p, sent)]" using assms by (auto simp: call_sendto_def split: prod.splits)
  show "au_watch u1 e = au_watch u e" "ps_s (au_ps u1) = ps_s (au_ps u)"
    using assms by (auto simp: call_sendto_def ps_send_to_def update_last_error_def ps_set_error_def au_watch_def Let_def split: prod.splits)
  show "-1 \<le> sent" using assms by (auto simp: call_sendto_def ps_send_to_def transfer_result_def Let_def split: prod.splits if_splits)
qed

text \<open>A call that sent or failed, and the removal of its packet.\<close>

lemma pop_packet_inv:
  assumes inv: "au_inv env u" and q: "map_of (au_map u) k = Some (p # q)" and c: "call_sendto env p u = (sent, u1)" and s: "sent \<noteq> 0"
  shows "au_inv env (pop_packet k q u1)"
proof -
  note f = call_sendto_frame [OF c]
  have ok: "smap_ok (au_map u)" and t: "au_total_send_data u = int (queued (au_map u))" using inv by (auto simp: au_inv_def queues_inv_def)
  have qk: "queue_of (au_map u) k = p # q" using q by (simp add: queue_of_def)
  have a: "to_key env k' (au_accepted u) = to_key env k' (gone (au_calls u)) @ queue_of (au_map u) k'" for k' using inv by (simp add: au_inv_def queues_inv_def)
  have "p \<in> set (to_key env k (au_accepted u))" using a [of k] qk by simp
  then have key: "packet_key env p = k" by (simp add: to_key_def)
  have n: "queued (smap_put k q (au_map u)) + 1 = queued (au_map u)" using queued_put [OF ok, of k q] qk by simp
  have "to_key env k' (au_accepted u) = to_key env k' (gone (au_calls u) @ [p]) @ queue_of (smap_put k q (au_map u)) k'" for k'
    using a [of k'] qk key by (simp add: queue_of_put)
  then have "queues_inv env (pop_packet k q u1)"
    using inv n t s smap_put_ok [OF ok, of k q] by (simp add: au_inv_def queues_inv_def pop_packet_def f)
  moreover have "0 \<le> ps_s (au_ps u) \<Longrightarrow> au_watch u (EL_READ OR EL_WRITE)" using inv t n by (auto simp: au_inv_def watch_inv_def)
  ultimately show ?thesis by (simp add: au_inv_def watch_inv_def pop_packet_def f)
qed

text \<open>A call that would have blocked leaves its packet where it is.\<close>

lemma blocked_inv:
  assumes "au_inv env u" and "call_sendto env p u = (0, u1)"
  shows "au_inv env u1"
  using assms(1) by (auto simp: au_inv_def queues_inv_def watch_inv_def call_sendto_frame [OF assms(2)])

section \<open>The loop ends\<close>

definition at_or_after :: "bstring option \<Rightarrow> bstring \<Rightarrow> bool" where
  "at_or_after it k \<longleftrightarrow> (case it of None \<Rightarrow> False | Some k' \<Rightarrow> \<not> str_less k k')"

lemma smap_begin_after: "smap_ok m \<Longrightarrow> k \<in> fst ` set m \<Longrightarrow> at_or_after (smap_begin m) k"
proof (cases m)
  case (Cons e m')
  assume "smap_ok m" "k \<in> fst ` set m"
  then have "k = fst e \<or> str_less (fst e) k" using Cons by (auto simp: smap_ok_def)
  then show ?thesis using Cons str_less_irrefl str_less_trans by (auto simp: at_or_after_def smap_begin_def)
qed simp

lemma smap_next_after:
  assumes ok: "smap_ok m" and k': "k' \<in> fst ` set m"
  shows "at_or_after (smap_next m k) k' \<longleftrightarrow> str_less k k'"
proof -
  let ?m = "filter (\<lambda>e. str_less k (fst e)) m"
  have ok': "smap_ok ?m" using ok by (simp add: smap_ok_def sorted_wrt_map sorted_wrt_filter)
  show ?thesis
  proof (cases "str_less k k'")
    case True
    then have "k' \<in> fst ` set ?m" using k' by force
    then show ?thesis using True smap_begin_after [OF ok'] by (simp add: smap_next_def)
  next
    case False
    have "str_less k' (fst e)" if "e \<in> set ?m" for e
    proof -
      have "str_less k (fst e)" using that by simp
      moreover have "k' = k \<or> str_less k' k" using False str_less_total by blast
      ultimately show ?thesis using str_less_trans by blast
    qed
    then show ?thesis using False by (cases ?m) (auto simp: smap_next_def smap_begin_def at_or_after_def)
  qed
qed

lemma smap_begin_key: "smap_begin m = Some k \<Longrightarrow> k \<in> fst ` set m"
  by (cases m) (auto simp: smap_begin_def)

lemma smap_next_key: "smap_next m k = Some k' \<Longrightarrow> k' \<in> fst ` set m"
  unfolding smap_next_def by (drule smap_begin_key) auto

text \<open>The entries still to come in this pass, and one pass more when none of them holds a packet.\<close>

definition phase :: "udp_map \<Rightarrow> bstring option \<Rightarrow> nat" where
  "phase m it = length (filter (\<lambda>e. at_or_after it (fst e)) m) +
     (if \<exists>k \<in> fst ` set m. at_or_after it k \<and> queue_of m k \<noteq> [] then 0 else length m + 1)"

lemma phase_begin:
  assumes "smap_ok m" and "queued m > 0"
  shows "phase m (smap_begin m) < phase m None"
proof -
  obtain k where k: "k \<in> fst ` set m" "queue_of m k \<noteq> []" using queued_pos [OF assms(2,1)] by blast
  then have "phase m (smap_begin m) \<le> length m" using smap_begin_after [OF assms(1)] by (auto simp: phase_def)
  then show ?thesis by (simp add: phase_def at_or_after_def)
qed

lemma phase_next:
  assumes ok: "smap_ok m" and k: "k \<in> fst ` set m" and e: "queue_of m k = []"
  shows "phase m (smap_next m k) < phase m (Some k)"
proof -
  have after: "at_or_after (smap_next m k) k' \<longleftrightarrow> at_or_after (Some k) k' \<and> k' \<noteq> k" if "k' \<in> fst ` set m" for k'
    using smap_next_after [OF ok that, of k] str_less_total [of k k'] str_less_irrefl [of k] str_less_asym [of k k'] by (auto simp: at_or_after_def)
  have f: "filter (\<lambda>e. at_or_after (smap_next m k) (fst e)) m = filter (\<lambda>e. fst e \<noteq> k) (filter (\<lambda>e. at_or_after (Some k) (fst e)) m)"
    using after by (auto intro: filter_cong)
  obtain v where "(k, v) \<in> set m" using k by auto
  moreover have "at_or_after (Some k) k" by (simp add: at_or_after_def str_less_irrefl)
  ultimately have "(k, v) \<in> set (filter (\<lambda>e. at_or_after (Some k) (fst e)) m)" by simp
  then have "length (filter (\<lambda>e. fst e \<noteq> k) (filter (\<lambda>e. at_or_after (Some k) (fst e)) m)) < length (filter (\<lambda>e. at_or_after (Some k) (fst e)) m)"
    by (intro length_filter_less) auto
  moreover have "(\<exists>k' \<in> fst ` set m. at_or_after (smap_next m k) k' \<and> queue_of m k' \<noteq> []) \<longleftrightarrow>
      (\<exists>k' \<in> fst ` set m. at_or_after (Some k) k' \<and> queue_of m k' \<noteq> [])" using after e by metis
  ultimately show ?thesis unfolding phase_def f by simp
qed

text \<open>The slots of \<open>signal_sent_packet\<close> stop sending at some point.\<close>

definition slots_quiet :: "udp_env \<Rightarrow> nat \<Rightarrow> bool" where
  "slots_quiet env N \<longleftrightarrow> (\<forall>n \<ge> N. ue_sent_slot env n = [])"

definition slots_to_come :: "udp_env \<Rightarrow> nat \<Rightarrow> nat \<Rightarrow> nat" where
  "slots_to_come env N n = (\<Sum>i \<in> {n..<N}. length (ue_sent_slot env i))"

lemma slots_to_come_step:
  "slots_quiet env N \<Longrightarrow> slots_to_come env N n = length (ue_sent_slot env n) + slots_to_come env N (n + 1)"
proof (cases "n < N")
  case True
  then show ?thesis by (simp add: slots_to_come_def sum.atLeast_Suc_lessThan)
next
  case False
  assume "slots_quiet env N"
  then show ?thesis using False by (simp add: slots_to_come_def slots_quiet_def)
qed

text \<open>
  What a run of \<open>send_data\<close> leaves: every call but the last one sent its packet.  After a call that would have blocked the packet is still the
  first of its queue; after one that failed it has left the queue, as the invariant says; and otherwise nothing waits.
\<close>

definition send_post :: "udp_env \<Rightarrow> async_udp \<Rightarrow> async_udp \<Rightarrow> bool" where
  "send_post env u u' \<longleftrightarrow> au_inv env u' \<and> ps_s (au_ps u') = ps_s (au_ps u) \<and>
     (\<exists>cs new. au_calls u' = au_calls u @ cs \<and> au_accepted u' = au_accepted u @ new \<and> (\<forall>c \<in> set (butlast cs). 0 < snd c) \<and>
        (if cs \<noteq> [] \<and> snd (last cs) \<le> 0
         then snd (last cs) = -1 \<or>
           snd (last cs) = 0 \<and> (\<exists>q. queue_of (au_map u') (packet_key env (fst (last cs))) = fst (last cs) # q)
         else au_total_send_data u' = 0 \<and> (0 \<le> ps_s (au_ps u') \<longrightarrow> au_watch u' EL_READ)))"

lemma send_post_step:
  assumes "send_post env u2 u'" and "ps_s (au_ps u2) = ps_s (au_ps u)" and "au_calls u2 = au_calls u @ [(p, sent)]" and "0 < sent"
    and "au_accepted u2 = au_accepted u @ new"
  shows "send_post env u u'"
proof -
  obtain cs new' where x: "au_calls u' = au_calls u2 @ cs" "au_accepted u' = au_accepted u2 @ new'" "\<forall>c \<in> set (butlast cs). 0 < snd c"
    "if cs \<noteq> [] \<and> snd (last cs) \<le> 0
     then snd (last cs) = -1 \<or> snd (last cs) = 0 \<and> (\<exists>q. queue_of (au_map u') (packet_key env (fst (last cs))) = fst (last cs) # q)
     else au_total_send_data u' = 0 \<and> (0 \<le> ps_s (au_ps u') \<longrightarrow> au_watch u' EL_READ)"
    using assms(1) unfolding send_post_def by blast
  have "au_calls u' = au_calls u @ (p, sent) # cs" "au_accepted u' = au_accepted u @ new @ new'" using x(1,2) assms(3,5) by simp_all
  moreover have "\<forall>c \<in> set (butlast ((p, sent) # cs)). 0 < snd c" using x(3) assms(4) by auto
  ultimately show ?thesis using assms(1,2,4) x(4) unfolding send_post_def
    by (intro conjI exI [of _ "(p, sent) # cs"] exI [of _ "new @ new'"]) (cases "cs = []"; simp)+
qed

lemma send_finish:
  assumes ev: "libev_ok (ue_ev env)" and inv: "au_inv env u" and t: "\<not> au_total_send_data u > 0" and d: "disable_events env EL_WRITE u = Some u'"
  shows "send_post env u u'"
proof -
  have z: "au_total_send_data u = 0" using inv t by (auto simp: au_inv_def queues_inv_def)
  obtain el where el: "u' = u\<lparr>au_el := el\<rparr>" using disable_frame [OF d] by blast
  have "au_watch u' EL_READ" if "0 \<le> ps_s (au_ps u)"
    by (rule disable_write [OF ev, of u]) (use inv that d in \<open>auto simp: au_inv_def watch_inv_def\<close>)
  then show ?thesis using inv z el unfolding send_post_def by (intro conjI exI [of _ "[]"]) (auto simp: au_inv_def watch_inv_def)
qed

lemma send_failed:
  assumes inv: "au_inv env u" and q: "map_of (au_map u) k = Some (p # q)" and c: "call_sendto env p u = (sent, u1)"
  shows "sent = -1 \<Longrightarrow> send_post env u (pop_packet k q u1)" and "sent = 0 \<Longrightarrow> send_post env u u1"
proof -
  note f = call_sendto_frame [OF c]
  have qk: "queue_of (au_map u) k = p # q" using q by (simp add: queue_of_def)
  have "to_key env k (au_accepted u) = to_key env k (gone (au_calls u)) @ p # q" using inv qk by (simp add: au_inv_def queues_inv_def)
  then have "p \<in> set (to_key env k (au_accepted u))" by simp
  then have key: "packet_key env p = k" by (simp add: to_key_def)
  show "send_post env u (pop_packet k q u1)" if "sent = -1"
    unfolding send_post_def using pop_packet_inv [OF inv q c] f that
    by (intro conjI exI [of _ "[(p, -1)]"] exI [of _ "[]"]) (simp_all add: pop_packet_def)
  show "send_post env u u1" if "sent = 0"
    unfolding send_post_def using blocked_inv [OF inv, of p u1] c f that qk key
    by (intro conjI exI [of _ "[(p, 0)]"] exI [of _ "[]"]) simp_all
qed

lemma send_succeeded:
  assumes ev: "libev_ok (ue_ev env)" and inv: "au_inv env u" and q: "map_of (au_map u) k = Some (p # q)" and c: "call_sendto env p u = (sent, u1)"
    and s: "0 < sent" and sl: "slot_sends env ps (pop_packet k q u1) = Some u2"
  shows "au_inv env u2" "ps_s (au_ps u2) = ps_s (au_ps u)" "au_calls u2 = au_calls u @ [(p, sent)]" "au_accepted u2 = au_accepted u @ ps"
    "au_total_send_data u2 = au_total_send_data u - 1 + int (length ps)"
proof -
  have "au_inv env (pop_packet k q u1)" using pop_packet_inv [OF inv q c] s by simp
  from slot_sends_inv [OF ev this sl] show "au_inv env u2" "ps_s (au_ps u2) = ps_s (au_ps u)" "au_calls u2 = au_calls u @ [(p, sent)]"
    "au_accepted u2 = au_accepted u @ ps" "au_total_send_data u2 = au_total_send_data u - 1 + int (length ps)"
    using call_sendto_frame [OF c] by (auto simp: grows_def pop_packet_def)
qed

lemma send_loop_post:
  assumes "send_loop env it u = Some u'" and "libev_ok (ue_ev env)" and "au_inv env u"
  shows "send_post env u u'"
proof -
  have "libev_ok (ue_ev env) \<longrightarrow> au_inv env u \<longrightarrow> send_post env u u'"
  proof (rule send_loop.raw_induct [OF _ assms(1), of "\<lambda>env it u u'. libev_ok (ue_ev env) \<longrightarrow> au_inv env u \<longrightarrow> send_post env u u'"], intro impI)
    fix loop env it u u'
    assume IH: "\<And>env it u u'. loop env it u = Some u' \<Longrightarrow> libev_ok (ue_ev env) \<longrightarrow> au_inv env u \<longrightarrow> send_post env u u'"
      and e: "(case it of
        None \<Rightarrow> if au_total_send_data u > 0 then loop env (smap_begin (au_map u)) u else disable_events env EL_WRITE u
      | Some k \<Rightarrow>
          (case map_of (au_map u) k of
             None \<Rightarrow> None
           | Some [] \<Rightarrow> loop env (smap_next (au_map u) k) u
           | Some (p # q) \<Rightarrow>
               (case call_sendto env p u of
                  (sent, u1) \<Rightarrow>
                    if sent = -1 then Some (pop_packet k q u1)
                    else if sent = 0 then Some u1
                    else Option.bind (slot_sends env (ue_sent_slot env (length (au_calls u))) (pop_packet k q u1))
                           (\<lambda>u2. loop env (smap_next (au_map u2) k) u2)))) = Some u'"
      and ev: "libev_ok (ue_ev env)" and inv: "au_inv env u"
    show "send_post env u u'"
    proof (cases it)
      case None
      then show ?thesis using e IH ev inv send_finish [OF ev inv] by (auto split: if_splits)
    next
      case (Some k)
      then obtain qs where qs: "map_of (au_map u) k = Some qs" using e by (auto split: option.splits)
      show ?thesis
      proof (cases qs)
        case Nil
        then show ?thesis using e IH Some qs ev inv by auto
      next
        case (Cons p q)
        obtain sent u1 where c: "call_sendto env p u = (sent, u1)" by force
        have q: "map_of (au_map u) k = Some (p # q)" using qs Cons by simp
        note e1 = e [unfolded Some q option.case list.case c prod.case]
        consider "sent = -1" | "sent = 0" | "0 < sent" using call_sendto_frame(8) [OF c] by linarith
        then show ?thesis
        proof cases
          case 3
          then obtain u2 where u2: "slot_sends env (ue_sent_slot env (length (au_calls u))) (pop_packet k q u1) = Some u2"
            "loop env (smap_next (au_map u2) k) u2 = Some u'" using e1 by (auto simp: Option.bind_eq_Some_conv)
          note s = send_succeeded [OF ev inv q c 3 u2(1)]
          show ?thesis by (rule send_post_step [OF _ s(2,3) 3 s(4)]) (use IH u2(2) ev s(1) in blast)
        qed (use e1 send_failed [OF inv q c] in auto)
      qed
    qed
  qed
  then show ?thesis using assms(2,3) by blast
qed

text \<open>The loop ends, and the counter does not overflow.\<close>

lemma send_loop_returns:
  assumes ev: "libev_ok (ue_ev env)" and quiet: "slots_quiet env N"
  shows "au_inv env u \<Longrightarrow> 0 \<le> ps_s (au_ps u) \<Longrightarrow> au_total_send_data u + int (slots_to_come env N (length (au_calls u))) < 2 ^ 31 \<Longrightarrow>
    (\<And>k. it = Some k \<Longrightarrow> k \<in> fst ` set (au_map u)) \<Longrightarrow> \<exists>u'. send_loop env it u = Some u'"
proof (induction "nat (au_total_send_data u) + slots_to_come env N (length (au_calls u))" arbitrary: u it rule: less_induct)
  case (less u)
  note outer = less.hyps and prems = less.prems
  show ?case using prems
  proof (induction "phase (au_map u) it" arbitrary: it rule: less_induct)
    case (less it)
    have ok: "smap_ok (au_map u)" and t: "au_total_send_data u = int (queued (au_map u))" using less.prems(1) by (simp_all add: au_inv_def queues_inv_def)
    show ?case
    proof (cases it)
      case None
      show ?thesis
      proof (cases "au_total_send_data u > 0")
        case True
        have "\<exists>u'. send_loop env (smap_begin (au_map u)) u = Some u'"
          by (rule less.hyps) (use None True t ok less.prems phase_begin smap_begin_key in auto)
        then show ?thesis using None True by (subst send_loop.simps) simp
      next
        case False
        have "\<exists>u'. disable_events env EL_WRITE u = Some u'"
          by (rule disable_write [OF ev, of u]) (use less.prems(1,2) in \<open>auto simp: au_inv_def watch_inv_def\<close>)
        then show ?thesis using None False by (subst send_loop.simps) simp
      qed
    next
      case (Some k)
      then have k: "k \<in> fst ` set (au_map u)" using less.prems(4) by simp
      then obtain qs where qs: "map_of (au_map u) k = Some qs" by (metis map_of_eq_None_iff not_None_eq)
      show ?thesis
      proof (cases qs)
        case Nil
        have "\<exists>u'. send_loop env (smap_next (au_map u) k) u = Some u'"
          by (rule less.hyps) (use Some Nil qs k ok less.prems phase_next smap_next_key in \<open>auto simp: queue_of_def\<close>)
        then show ?thesis using Some Nil qs by (subst send_loop.simps) simp
      next
        case (Cons p q)
        obtain sent u1 where c: "call_sendto env p u = (sent, u1)" by force
        have q: "map_of (au_map u) k = Some (p # q)" using qs Cons by simp
        let ?ps = "ue_sent_slot env (length (au_calls u))"
        have "\<exists>u2 u'. slot_sends env ?ps (pop_packet k q u1) = Some u2 \<and> send_loop env (smap_next (au_map u2) k) u2 = Some u'" if s: "0 < sent"
        proof -
          note step = slots_to_come_step [OF quiet, of "length (au_calls u)"]
          note f = call_sendto_frame [OF c]
          have pos: "au_total_send_data u > 0" using t queued_put [OF ok, of k "[]"] q by (auto simp: queue_of_def)
          obtain u2 where u2: "slot_sends env ?ps (pop_packet k q u1) = Some u2"
            using slot_sends_returns [OF ev, of "pop_packet k q u1" ?ps] pop_packet_inv [OF less.prems(1) q c] s less.prems(2,3) f step
            by (auto simp: pop_packet_def)
          note r = send_succeeded [OF ev less.prems(1) q c s u2]
          have "\<exists>u'. send_loop env (smap_next (au_map u2) k) u2 = Some u'"
            by (rule outer) (use r less.prems(2,3) step pos smap_next_key in auto)
          then show ?thesis using u2 by blast
        qed
        then show ?thesis using Some q c call_sendto_frame(8) [OF c] by (subst send_loop.simps) fastforce
      qed
    qed
  qed
qed

lemma send_data_correct:
  assumes "libev_ok (ue_ev env)" and "slots_quiet env N" and "au_inv env u" and "0 \<le> ps_s (au_ps u)"
    and "au_total_send_data u + int (slots_to_come env N (length (au_calls u))) < 2 ^ 31"
  shows "\<exists>u'. send_data env u = Some u' \<and> send_post env u u'"
  using send_loop_returns [OF assms(1-5), of None] send_loop_post [OF _ assms(1,3), of None] by (auto simp: send_data_def)

section \<open>Programs over a socket\<close>

text \<open>What \<open>recvfrom\<close> promises: as many bytes as it says and no more than the buffer holds.\<close>

definition recv_outcome :: "int \<times> byte list \<times> sockaddr_storage \<times> int \<Rightarrow> bool" where
  "recv_outcome out \<longleftrightarrow> (case out of (received, data, storage, errno) \<Rightarrow> 0 \<le> received \<longrightarrow> received = int (length data) \<and> length data \<le> BUF_SIZE)"

lemma recv_from_inv:
  assumes inv: "au_inv env u" and out: "recv_outcome (received, data, storage, errno)"
    and r: "ps_recv_from (ue_he env) (received, data, storage, errno) ioctl (au_buf u) (sa_new raw) (au_ps u) (au_os u) = (r, ps, os)"
  shows "au_inv env (u\<lparr>au_ps := ps, au_os := os, au_buf := rr_buffer r\<rparr>)" "ps_s ps = ps_s (au_ps u)"
    "0 < rr_received r \<Longrightarrow> mem_read (rr_buffer r) 0 (nat (rr_received r)) = Some data" "rr_received r \<le> 0 \<longleftrightarrow> received \<le> 0"
proof -
  have len: "length (au_buf u) = BUF_SIZE" using inv by (simp add: au_inv_def queues_inv_def)
  show s: "ps_s ps = ps_s (au_ps u)" and n: "rr_received r \<le> 0 \<longleftrightarrow> received \<le> 0"
    using r by (auto simp: ps_recv_from_def transfer_result_def update_last_error_def ps_set_error_def Let_def split: prod.splits if_splits)
  have buf: "rr_buffer r = (if received \<ge> 0 then data @ drop (length data) (au_buf u) else au_buf u)" and n': "received > 0 \<Longrightarrow> rr_received r = received"
    using r by (auto simp: ps_recv_from_def transfer_result_def update_last_error_def ps_set_error_def Let_def split: prod.splits if_splits)
  have "length (rr_buffer r) = BUF_SIZE" using buf len out by (auto simp: recv_outcome_def)
  moreover have "au_watch (u\<lparr>au_ps := ps\<rparr>) e = au_watch u e" for e using s by (simp add: au_watch_def)
  ultimately show "au_inv env (u\<lparr>au_ps := ps, au_os := os, au_buf := rr_buffer r\<rparr>)"
    using inv s by (auto simp: au_inv_def queues_inv_def watch_inv_def)
  show "mem_read (rr_buffer r) 0 (nat (rr_received r)) = Some data" if "0 < rr_received r"
    using that buf n n' out by (simp add: mem_read_def recv_outcome_def)
qed

lemma recv_data_inv:
  assumes ev: "libev_ok (ue_ev env)" and inv: "au_inv env u" and out: "recv_outcome recvfrom"
    and e: "recv_data env fd recvfrom ioctl now raw u = Some (s, u')"
  shows "au_inv env u' \<and> (\<exists>ps. grows ps u u' \<and> (ps = [] \<or> (\<exists>data addr. ps = ue_read_slot env data addr)))"
proof -
  obtain received data storage errno where o: "recvfrom = (received, data, storage, errno)" by (metis prod_cases4)
  obtain r ps os where r: "ps_recv_from (ue_he env) (received, data, storage, errno) ioctl (au_buf u) (sa_new raw) (au_ps u) (au_os u) = (r, ps, os)"
    by (metis prod_cases3)
  note i = recv_from_inv [OF inv out [unfolded o] r]
  show ?thesis
  proof (cases "rr_received r \<le> 0")
    case True
    then show ?thesis using e o r i(1,2) by (auto simp: recv_data_def grows_def split: if_splits)
  next
    case False
    then have "slot_sends env (ue_read_slot env data (rr_addr r)) (u\<lparr>au_ps := ps, au_os := os, au_buf := rr_buffer r\<rparr>) = Some u'"
      using e o r i(3) by (auto simp: recv_data_def Option.bind_eq_Some_conv split: if_splits)
    from slot_sends_inv [OF ev i(1) this] i(2) show ?thesis by (auto simp: grows_def)
  qed
qed

lemma recv_data_returns:
  assumes ev: "libev_ok (ue_ev env)" and inv: "au_inv env u" and out: "recv_outcome recvfrom" and o: "0 \<le> ps_s (au_ps u)"
    and t: "\<And>data addr. au_total_send_data u + int (length (ue_read_slot env data addr)) < 2 ^ 31"
  shows "\<exists>s u'. recv_data env (ps_s (au_ps u)) recvfrom ioctl now raw u = Some (s, u')"
proof -
  obtain received data storage errno where rf: "recvfrom = (received, data, storage, errno)" by (metis prod_cases4)
  obtain r ps os where r: "ps_recv_from (ue_he env) (received, data, storage, errno) ioctl (au_buf u) (sa_new raw) (au_ps u) (au_os u) = (r, ps, os)"
    by (metis prod_cases3)
  note i = recv_from_inv [OF inv out [unfolded rf] r]
  show ?thesis
  proof (cases "rr_received r \<le> 0")
    case True
    then show ?thesis using rf r by (simp add: recv_data_def)
  next
    case False
    then show ?thesis using slot_sends_returns [OF ev i(1), of "ue_read_slot env data (rr_addr r)"] rf r i(2,3) o t by (auto simp: recv_data_def)
  qed
qed

lemma socket_io_cb_inv:
  assumes ev: "libev_ok (ue_ev env)" and inv: "au_inv env u" and out: "recv_outcome recvfrom"
    and e: "socket_io_cb env fd revents recvfrom ioctl now raw u = Some u'"
  shows "au_inv env u'"
proof -
  obtain u1 where u1: "(if revents AND EL_READ \<noteq> 0 then map_option snd (recv_data env fd recvfrom ioctl now raw u) else Some u) = Some u1"
    "(if revents AND EL_WRITE \<noteq> 0 then send_data env u1 else Some u1) = Some u'"
    using e by (auto simp: socket_io_cb_def Option.bind_eq_Some_conv)
  have "au_inv env u1" using u1(1) recv_data_inv [OF ev inv out, of fd ioctl now raw _ u1] inv by (auto split: if_splits)
  then show ?thesis using u1(2) send_loop_post [OF _ ev, of None u1 u'] by (auto simp: send_data_def send_post_def split: if_splits)
qed

lemma socket_io_cb_returns:
  assumes ev: "libev_ok (ue_ev env)" and quiet: "slots_quiet env N" and inv: "au_inv env u" and out: "recv_outcome recvfrom"
    and o: "0 \<le> ps_s (au_ps u)"
    and t: "\<And>data addr. au_total_send_data u + int (length (ue_read_slot env data addr)) + int (slots_to_come env N (length (au_calls u))) < 2 ^ 31"
      "au_total_send_data u + int (slots_to_come env N (length (au_calls u))) < 2 ^ 31"
  shows "\<exists>u'. socket_io_cb env (ps_s (au_ps u)) revents recvfrom ioctl now raw u = Some u'"
proof -
  let ?read = "recv_data env (ps_s (au_ps u)) recvfrom ioctl now raw u"
  have lt: "au_total_send_data u + int (length (ue_read_slot env data addr)) < 2 ^ 31" for data addr using t(1) [of data addr] by linarith
  obtain u1 where u1: "(if revents AND EL_READ \<noteq> 0 then map_option snd ?read else Some u) = Some u1"
    using recv_data_returns [OF ev inv out o lt, of ioctl now raw] by (cases "revents AND EL_READ \<noteq> 0") auto
  have "au_inv env u1 \<and> ps_s (au_ps u1) = ps_s (au_ps u) \<and> au_total_send_data u1 + int (slots_to_come env N (length (au_calls u1))) < 2 ^ 31"
  proof (cases "revents AND EL_READ \<noteq> 0")
    case True
    then obtain s where "?read = Some (s, u1)" using u1 by auto
    from recv_data_inv [OF ev inv out this] show ?thesis using t by (auto simp: grows_def)
  qed (use u1 inv t(2) in simp)
  then show ?thesis using send_data_correct [OF ev quiet, of u1] o u1 by (auto simp: socket_io_cb_def)
qed

inductive au_reach :: "udp_env \<Rightarrow> async_udp \<Rightarrow> bool" for env where
  au_made: "async_udp_new env ps os el w cb this raw = Some u \<Longrightarrow> 0 \<le> ps_s ps \<Longrightarrow> length raw = BUF_SIZE \<Longrightarrow> au_reach env u"
| au_send: "au_reach env u \<Longrightarrow> udp_send_to env data addr u = Some (n, u') \<Longrightarrow> au_reach env u'"
| au_event: "au_reach env u \<Longrightarrow> recv_outcome recvfrom \<Longrightarrow>
    socket_io_cb env (ps_s (au_ps u)) revents recvfrom ioctl now raw u = Some u' \<Longrightarrow> au_reach env u'"
| au_close: "au_reach env u \<Longrightarrow> udp_close env out u = Some (err, u') \<Longrightarrow> au_reach env u'"

lemma async_udp_new_inv:
  assumes ev: "libev_ok (ue_ev env)" and s: "0 \<le> ps_s ps" and l: "length raw = BUF_SIZE"
  shows "\<exists>u. async_udp_new env ps os el w cb this raw = Some u \<and> au_inv env u"
proof -
  let ?el = "create_io_event w cb this el"
  have w: "el_io ?el w = Some \<lparr>iw_io = ev_io_init, iw_cb = cb, iw_data = this\<rparr>" by (simp add: create_io_event_def)
  have ok: "io_ok (iw_io \<lparr>iw_io = ev_io_init, iw_cb = cb, iw_data = this\<rparr>)" by (simp add: io_ok_def ev_io_init_def)
  obtain io' where "start_io_event (ue_ev env) w (ps_s ps) EL_READ ?el =
      Some (?el\<lparr>el_io := (el_io ?el)(w \<mapsto> \<lparr>iw_io = ev_io_init, iw_cb = cb, iw_data = this\<rparr>\<lparr>iw_io := io'\<rparr>)\<rparr>)"
    "io_ok io'" "io_active io'" "io_interest io' = io_interest (iw_io \<lparr>iw_io = ev_io_init, iw_cb = cb, iw_data = this\<rparr>) OR (EL_READ AND 3)"
    by (rule start_io_event_correct [OF ev s w ok, of EL_READ])
  then show ?thesis using s l
    by (simp add: async_udp_new_def enable_events_def au_inv_def queues_inv_def watch_inv_def au_watch_def smap_ok_def queued_def queue_of_def
        ev_io_init_def io_interest_def EL_READ_def)
qed

text \<open>Closing touches neither the queues nor the traces, and leaves the socket without a descriptor.\<close>

lemma udp_close_inv:
  assumes "au_inv env u" and "udp_close env out u = Some (err, u')"
  shows "au_inv env u'" "ps_s (au_ps u') = INVALID_SOCKET"
proof -
  obtain u1 ps os where 1: "disable_events env (EL_READ OR EL_WRITE) u = Some u1" "ps_close out (au_ps u1) (au_os u1) = Some (err, ps, os)"
    "u' = u1\<lparr>au_ps := ps, au_os := os\<rparr>"
    using assms(2) by (auto simp: udp_close_def Option.bind_eq_Some_conv)
  obtain el where "u1 = u\<lparr>au_el := el\<rparr>" using disable_frame [OF 1(1)] by blast
  moreover have "ps_s ps = INVALID_SOCKET" using 1(2) by (auto simp: ps_close_def Let_def Option.bind_eq_Some_conv split: if_splits)
  ultimately show "au_inv env u'" "ps_s (au_ps u') = INVALID_SOCKET"
    using assms(1) 1(3) by (simp_all add: au_inv_def watch_inv_def INVALID_SOCKET_def)
qed

lemma au_reach_inv:
  assumes r: "au_reach env u" and ev: "libev_ok (ue_ev env)"
  shows "au_inv env u"
  using r
proof induction
  case (au_made ps os el w cb this raw u)
  then show ?case using async_udp_new_inv [OF ev, of ps raw os el w cb this] by auto
next
  case (au_send u data addr n u')
  then show ?case using add_udp_send_data_inv [OF ev au_send.IH, of "\<lparr>pk_data = data, pk_addr = addr\<rparr>"] by (simp add: udp_send_to_def)
next
  case (au_event u recvfrom revents ioctl now raw u')
  then show ?case using socket_io_cb_inv [OF ev] by blast
next
  case (au_close u out err u')
  then show ?case using udp_close_inv by blast
qed

text \<open>
  C37. The UDP socket in every state that construction, \<open>send_to\<close>, events and \<open>close\<close> can bring about, with slots that send whatever they like: for each
  destination the packets whose call of \<open>sendto\<close> sent or failed are, in order, the packets accepted first, so no packet is sent
  twice or before one accepted earlier for the same destination; a socket that is not closed watches for reading; and an event of such a socket
  is handled without a failure, provided that the slots send a bounded number of packets, so that their sending ends and the counter of
  packets stays below \<open>2\<^sup>3\<^sup>1\<close>.
\<close>

theorem udp_socket_fifo:
  assumes "libev_ok (ue_ev env)" and "au_reach env u"
  shows "prefix (filter (\<lambda>p. packet_key env p = k) (map fst (filter (\<lambda>c. snd c \<noteq> 0) (au_calls u))))
      (filter (\<lambda>p. packet_key env p = k) (au_accepted u)) \<and>
    (0 \<le> ps_s (au_ps u) \<longrightarrow> watched (au_el u) (au_watcher u) AND EL_READ \<noteq> 0) \<and>
    (0 \<le> ps_s (au_ps u) \<and> slots_quiet env N \<and> (\<forall>data addr. length (ue_read_slot env data addr) \<le> r) \<and>
       au_total_send_data u + int r + int (slots_to_come env N (length (au_calls u))) < 2 ^ 31 \<and> recv_outcome recvfrom \<longrightarrow>
       (\<exists>u'. socket_io_cb env (ps_s (au_ps u)) revents recvfrom ioctl now raw u = Some u'))"
proof (intro conjI impI)
  have inv: "au_inv env u" by (rule au_reach_inv [OF assms(2,1)])
  then show "prefix (filter (\<lambda>p. packet_key env p = k) (map fst (filter (\<lambda>c. snd c \<noteq> 0) (au_calls u))))
      (filter (\<lambda>p. packet_key env p = k) (au_accepted u))"
    by (simp add: au_inv_def queues_inv_def to_key_def gone_def)
  show "watched (au_el u) (au_watcher u) AND EL_READ \<noteq> 0" if "0 \<le> ps_s (au_ps u)"
    using inv that by (auto simp: au_inv_def watch_inv_def au_watch_def watched_def EL_READ_def EL_WRITE_def)
  assume a: "0 \<le> ps_s (au_ps u) \<and> slots_quiet env N \<and> (\<forall>data addr. length (ue_read_slot env data addr) \<le> r) \<and>
       au_total_send_data u + int r + int (slots_to_come env N (length (au_calls u))) < 2 ^ 31 \<and> recv_outcome recvfrom"
  then have "au_total_send_data u + int (length (ue_read_slot env data addr)) + int (slots_to_come env N (length (au_calls u))) < 2 ^ 31" for data addr
    by (meson add_le_cancel_left add_right_mono le_less_trans of_nat_mono)
  then show "\<exists>u'. socket_io_cb env (ps_s (au_ps u)) revents recvfrom ioctl now raw u = Some u'"
    using socket_io_cb_returns [OF assms(1) _ inv, of N recvfrom revents ioctl now raw] a by auto
qed


text \<open>\<open>send_to\<close> makes no call of \<open>sendto\<close>: it puts the packet at the end of the queue of its destination.\<close>

lemma udp_send_to_queues:
  fixes p :: udp_packet
  assumes "libev_ok (ue_ev env)" and "au_reach env u" and "udp_send_to env (pk_data p) (pk_addr p) u = Some (n, u')"
  shows "au_calls u' = au_calls u" "queue_of (au_map u') (packet_key env p) = queue_of (au_map u) (packet_key env p) @ [p]"
proof -
  have "au_inv env u' \<and> grows [p] u u'"
    using add_udp_send_data_inv [OF assms(1) au_reach_inv [OF assms(2,1)]] assms(3) by (simp add: udp_send_to_def)
  then show "au_calls u' = au_calls u" by (simp add: grows_def)
  have "enable_events env EL_WRITE (au_accept env p u) = Some u'" using assms(3) by (auto simp: udp_send_to_def add_udp_send_data_eq split: if_splits)
  then show "queue_of (au_map u') (packet_key env p) = queue_of (au_map u) (packet_key env p) @ [p]"
    by (auto dest!: enable_frame simp: au_accept_def queue_of_put)
qed

text \<open>A system on which every datagram is sent, and slots that send nothing.\<close>

definition simple_env :: udp_env where
  "simple_env = \<lparr>ue_ev = simple_libev, ue_he = LittleEndian, ue_ntop = (\<lambda>_ _. Some [48]), ue_sendto = (\<lambda>n fd data len addr alen. (1, 0)),
     ue_sent_slot = (\<lambda>n. []), ue_read_slot = (\<lambda>data addr. [])\<rparr>"

definition simple_udp :: "async_udp option" where
  "simple_udp = async_udp_new simple_env \<lparr>ps_s = 3, ps_udp = Some True, ps_error = 0\<rparr> \<lparr>os_fds = [3 \<mapsto> 0], os_errno = 0\<rparr>
     \<lparr>el_owner = 0, el_io = Map.empty, el_timers = Map.empty\<rparr> 5 1 2 (replicate BUF_SIZE 0)"

lemma simple_env_ok: "libev_ok (ue_ev simple_env)" "slots_quiet simple_env 0" "slots_to_come simple_env 0 n = 0" "length (ue_read_slot simple_env d a) \<le> 0"
  by (simp_all add: simple_env_def simple_libev_ok slots_quiet_def slots_to_come_def)

text \<open>The socket, and the socket with a packet to send.\<close>

lemma simple_udp_reach:
  "\<exists>u. simple_udp = Some u \<and> au_reach simple_env u \<and> 0 \<le> ps_s (au_ps u) \<and> au_total_send_data u = 0"
proof -
  obtain u where u: "simple_udp = Some u"
    using async_udp_new_inv [OF simple_env_ok(1), of "\<lparr>ps_s = 3, ps_udp = Some True, ps_error = 0\<rparr>" "replicate BUF_SIZE 0"]
    unfolding simple_udp_def by fastforce
  moreover have "au_reach simple_env u" by (rule au_made [OF calculation [unfolded simple_udp_def]]) simp_all
  moreover have "ps_s (au_ps u) = 3 \<and> au_total_send_data u = 0"
    using u enable_frame by (fastforce simp: simple_udp_def async_udp_new_def)
  ultimately show ?thesis by auto
qed

lemma simple_udp_send:
  "\<exists>u u1 n. simple_udp = Some u \<and> udp_send_to simple_env [7] addr u = Some (n, u1) \<and> au_reach simple_env u1 \<and> 0 \<le> ps_s (au_ps u1) \<and>
     au_total_send_data u1 = 1 \<and> queue_of (au_map u1) (packet_key simple_env \<lparr>pk_data = [7], pk_addr = addr\<rparr>) \<noteq> []"
proof -
  let ?p = "\<lparr>pk_data = [7], pk_addr = addr\<rparr>"
  obtain u where u: "simple_udp = Some u" "au_reach simple_env u" "0 \<le> ps_s (au_ps u)" "au_total_send_data u = 0" using simple_udp_reach by blast
  have inv: "au_inv simple_env u" by (rule au_reach_inv [OF u(2) simple_env_ok(1)])
  obtain n u1 where s: "udp_send_to simple_env [7] addr u = Some (n, u1)"
    using add_udp_send_data_returns [OF simple_env_ok(1) inv u(3), of ?p] u(4) by (auto simp: udp_send_to_def)
  have "grows [?p] u u1" using add_udp_send_data_inv [OF simple_env_ok(1) inv, of ?p n u1] s by (simp add: udp_send_to_def)
  then show ?thesis using u s au_send [OF u(2) s] udp_send_to_queues [OF simple_env_ok(1) u(2), of ?p n u1] by (auto simp: grows_def)
qed

theorem udp_socket_fifo_witness:
  "\<forall>addr. \<exists>u u1 n u2. simple_udp = Some u \<and> udp_send_to simple_env [7] addr u = Some (n, u1) \<and>
     socket_io_cb simple_env (ps_s (au_ps u1)) (EL_READ OR EL_WRITE) (1, [9], undefined, 0) (0, 0, 0, 0) 0 undefined u1 = Some u2"
proof
  fix addr
  obtain u u1 n where u: "simple_udp = Some u" "udp_send_to simple_env [7] addr u = Some (n, u1)" "au_reach simple_env u1" "0 \<le> ps_s (au_ps u1)"
    "au_total_send_data u1 = 1" using simple_udp_send by blast
  have "recv_outcome (1, [9], undefined, 0)" by (simp add: recv_outcome_def BUF_SIZE_def)
  then have "\<exists>u2. socket_io_cb simple_env (ps_s (au_ps u1)) (EL_READ OR EL_WRITE) (1, [9], undefined, 0) (0, 0, 0, 0) 0 undefined u1 = Some u2"
    using udp_socket_fifo [OF simple_env_ok(1) u(3), of "[]" 0 0 "(1, [9], undefined, 0)" "EL_READ OR EL_WRITE" "(0, 0, 0, 0)" 0 undefined]
      simple_env_ok u(4,5) by auto
  then show "\<exists>u u1 n u2. simple_udp = Some u \<and> udp_send_to simple_env [7] addr u = Some (n, u1) \<and>
     socket_io_cb simple_env (ps_s (au_ps u1)) (EL_READ OR EL_WRITE) (1, [9], undefined, 0) (0, 0, 0, 0) 0 undefined u1 = Some u2"
    using u by blast
qed


section \<open>Closing\<close>

lemma udp_close_stops:
  assumes ev: "libev_ok (ue_ev env)" and inv: "au_inv env u" and open_socket: "0 \<le> ps_s (au_ps u)"
    and fd: "os_fds (au_os u) (ps_s (au_ps u)) = Some flags"
  shows "\<exists>u'. udp_close env out u = Some (fst out, u') \<and> ps_s (au_ps u') = INVALID_SOCKET \<and> watched (au_el u') (au_watcher u') = EL_NONE \<and>
    os_fds (au_os u') = (os_fds (au_os u))(ps_s (au_ps u) := None)"
proof -
  obtain iw where iw: "0 \<le> ps_s (au_ps u)" "el_io (au_el u) (au_watcher u) = Some iw" "io_ok (iw_io iw)" "io_active (iw_io iw)"
    "io_interest (iw_io iw) = 1 \<or> io_interest (iw_io iw) = 3"
    using inv open_socket by (auto simp: au_inv_def watch_inv_def au_watch_def EL_READ_def EL_WRITE_def)
  obtain e where e: "io_events (iw_io iw) = Some e" using iw by (auto simp: io_ok_def)
  have i: "e AND 3 = 1 \<or> e AND 3 = 3" using iw e by (simp add: io_interest_def)
  have rw: "EL_READ OR EL_WRITE = 3" by (simp add: EL_READ_def EL_WRITE_def)
  obtain io' where io: "stop_io_event (ue_ev env) (au_watcher u) (ps_s (au_ps u)) 3 (au_el u) =
      Some ((au_el u)\<lparr>el_io := (el_io (au_el u))(au_watcher u \<mapsto> iw\<lparr>iw_io := io'\<rparr>)\<rparr>)"
      "io_interest io' = (if (e AND 3) AND 3 = 0 then io_interest (iw_io iw) else (e AND 3) AND NOT 3)"
    by (rule stop_io_event_correct [OF ev iw(1,2) e iw(3), of 3])
  have "io_interest io' = 0" using io(2) i by auto
  moreover have "ps_s (au_ps u) \<noteq> INVALID_SOCKET" using iw(1) by (simp add: INVALID_SOCKET_def)
  ultimately show ?thesis using io(1) fd
    by (simp add: udp_close_def disable_events_def rw ps_close_def sys_close_def update_last_error_def ps_set_error_def watched_def EL_NONE_def)
qed

text \<open>A packet sent through a closed socket is accepted and makes the loop watch the invalid descriptor.\<close>

lemma send_after_close:
  assumes "ps_s (au_ps u) = INVALID_SOCKET" and "el_io (au_el u) (au_watcher u) = Some iw" and "\<not> io_active (iw_io iw)"
    and "au_total_send_data u < 2 ^ 31 - 1"
  shows "\<exists>u'. udp_send_to env data addr u = Some (sint (of_nat (length data) :: u32), u') \<and>
    el_io (au_el u') (au_watcher u') = Some (iw\<lparr>iw_io := ev_io_start (ue_ev env) (ev_io_set INVALID_SOCKET EV_WRITE (iw_io iw))\<rparr>)"
  using assms add_udp_send_data_eq [of env "\<lparr>pk_data = data, pk_addr = addr\<rparr>" u]
  by (simp add: udp_send_to_def au_accept_def enable_events_def start_io_event_def start_io_def EL_WRITE_def EV_WRITE_def)

text \<open>The destructor deletes the watcher and gives the descriptor back.\<close>

lemma async_udp_delete_correct:
  assumes "el_io (au_el u) (au_watcher u) = Some iw" and "ps_inv os0 (au_ps u) (au_os u)"
  shows "\<exists>el os. async_udp_delete env out u = Some (el, os) \<and> el_io el (au_watcher u) = None \<and> os_fds os = os_fds os0"
proof -
  obtain err ps' os' where "ps_close out (au_ps u) (au_os u) = Some (err, ps', os')" "os_fds os' = os_fds os0"
    by (rule ps_inv_close [OF assms(2), of out])
  then show ?thesis using assms(1) by (simp add: async_udp_delete_def delete_io_event_def physical_socket_delete_def)
qed

end
