(* ===== verification/OpenSSLInit.thy ===== *)
theory OpenSSLInit
  imports Prelude
begin

text \<open>
  Initialisation of OpenSSL and the locks it asks for (\<open>src/openssl_adapter.{h,cpp}\<close>).  Mutexes are flags (held or not) in arrays and single
  objects that are allocated here; OpenSSL calls the locking functions through the callbacks that are installed.
\<close>

section \<open>Mutexes\<close>

text \<open>The effect of an operation on a mutex: done, the thread waits, or undefined (no such mutex, released without being held, destroyed while held).\<close>

datatype 's lock_result = Done 's | Waits | Undefined

record ssl_init =
  si_arrays :: "nat \<Rightarrow> bool list option"
  si_mutex_buf :: "nat option"
  si_callbacks :: bool
  si_dyn :: "nat \<Rightarrow> bool option"
  si_custom_verify_callback :: "nat option"

definition ssl_start :: ssl_init where
  "ssl_start = \<lparr>si_arrays = Map.empty, si_mutex_buf = None, si_callbacks = False, si_dyn = Map.empty, si_custom_verify_callback = None\<rparr>"

definition CRYPTO_LOCK :: u32 where "CRYPTO_LOCK = 1"

definition locking_function :: "u32 \<Rightarrow> nat \<Rightarrow> ssl_init \<Rightarrow> ssl_init lock_result" where
  "locking_function mode n st =
     (case Option.bind (si_mutex_buf st) (\<lambda>a. map_option (Pair a) (si_arrays st a)) of
        None \<Rightarrow> Undefined
      | Some (a, ms) \<Rightarrow>
          if n \<ge> length ms then Undefined
          else if mode AND CRYPTO_LOCK \<noteq> 0 then
            if ms ! n then Waits else Done (st\<lparr>si_arrays := (si_arrays st)(a \<mapsto> ms[n := True])\<rparr>)
          else if ms ! n then Done (st\<lparr>si_arrays := (si_arrays st)(a \<mapsto> ms[n := False])\<rparr>) else Undefined)"

definition dyn_create_function :: "nat \<Rightarrow> ssl_init \<Rightarrow> ssl_init" where
  "dyn_create_function l st = st\<lparr>si_dyn := (si_dyn st)(l \<mapsto> False)\<rparr>"

definition dyn_lock_function :: "u32 \<Rightarrow> nat \<Rightarrow> ssl_init \<Rightarrow> ssl_init lock_result" where
  "dyn_lock_function mode l st =
     (case si_dyn st l of
        None \<Rightarrow> Undefined
      | Some held \<Rightarrow>
          if mode AND CRYPTO_LOCK \<noteq> 0 then if held then Waits else Done (st\<lparr>si_dyn := (si_dyn st)(l \<mapsto> True)\<rparr>)
          else if held then Done (st\<lparr>si_dyn := (si_dyn st)(l \<mapsto> False)\<rparr>) else Undefined)"

definition dyn_destroy_function :: "nat \<Rightarrow> ssl_init \<Rightarrow> ssl_init lock_result" where
  "dyn_destroy_function l st =
     (case si_dyn st l of None \<Rightarrow> Undefined | Some held \<Rightarrow> if held then Undefined else Done (st\<lparr>si_dyn := (si_dyn st)(l := None)\<rparr>))"

section \<open>Initialisation\<close>

text \<open>\<open>a\<close> is the address of the new array.\<close>

definition initialize_SSL_thread :: "nat \<Rightarrow> nat \<Rightarrow> ssl_init \<Rightarrow> bool \<times> ssl_init" where
  "initialize_SSL_thread num_locks a st =
     (True, st\<lparr>si_arrays := (si_arrays st)(a \<mapsto> replicate num_locks False), si_mutex_buf := Some a, si_callbacks := True\<rparr>)"

text \<open>\<open>library_init\<close> is the result of \<open>SSL_library_init\<close>.\<close>

definition initialize_SSL :: "nat \<Rightarrow> nat \<Rightarrow> bool \<Rightarrow> nat option \<Rightarrow> ssl_init \<Rightarrow> bool \<times> ssl_init" where
  "initialize_SSL num_locks a library_init callback st =
     (let (ok, st) = initialize_SSL_thread num_locks a st
      in if \<not> ok \<or> \<not> library_init then (False, st) else (True, st\<lparr>si_custom_verify_callback := callback\<rparr>))"

definition cleanup_SSL :: "ssl_init \<Rightarrow> (bool \<times> ssl_init) lock_result" where
  "cleanup_SSL st =
     (case si_mutex_buf st of
        None \<Rightarrow> Done (False, st)
      | Some a \<Rightarrow>
          let st = st\<lparr>si_callbacks := False\<rparr>
          in case si_arrays st a of
               None \<Rightarrow> Undefined
             | Some ms \<Rightarrow> if True \<in> set ms then Undefined else Done (True, st\<lparr>si_arrays := (si_arrays st)(a := None), si_mutex_buf := None\<rparr>))"

section \<open>Programs\<close>

text \<open>OpenSSL uses the callbacks while they are installed: it locks within its number of locks and releases what it holds.\<close>

inductive si_reach :: "nat \<Rightarrow> ssl_init \<Rightarrow> bool" for num_locks where
  ssl_none: "si_reach num_locks ssl_start"
| ssl_initialize: "si_reach num_locks st \<Longrightarrow> si_arrays st a = None \<Longrightarrow> initialize_SSL num_locks a library_init callback st = (ok, st') \<Longrightarrow>
    si_reach num_locks st'"
| ssl_locking: "si_reach num_locks st \<Longrightarrow> si_callbacks st \<Longrightarrow> n < num_locks \<Longrightarrow> locking_function mode n st = Done st' \<Longrightarrow> si_reach num_locks st'"
| ssl_dyn_create: "si_reach num_locks st \<Longrightarrow> si_callbacks st \<Longrightarrow> si_dyn st l = None \<Longrightarrow> si_reach num_locks (dyn_create_function l st)"
| ssl_dyn_lock: "si_reach num_locks st \<Longrightarrow> si_callbacks st \<Longrightarrow> dyn_lock_function mode l st = Done st' \<Longrightarrow> si_reach num_locks st'"
| ssl_dyn_destroy: "si_reach num_locks st \<Longrightarrow> si_callbacks st \<Longrightarrow> dyn_destroy_function l st = Done st' \<Longrightarrow> si_reach num_locks st'"
| ssl_cleanup: "si_reach num_locks st \<Longrightarrow> cleanup_SSL st = Done (ok, st') \<Longrightarrow> si_reach num_locks st'"

definition si_inv :: "nat \<Rightarrow> ssl_init \<Rightarrow> bool" where
  "si_inv num_locks st \<longleftrightarrow> (si_callbacks st \<longleftrightarrow> si_mutex_buf st \<noteq> None) \<and>
     (\<forall>a. si_mutex_buf st = Some a \<longrightarrow> (\<exists>ms. si_arrays st a = Some ms \<and> length ms = num_locks))"

lemma si_reach_inv: "si_reach num_locks st \<Longrightarrow> si_inv num_locks st"
proof (induction rule: si_reach.induct)
  case (ssl_locking st n mode st')
  then show ?case by (auto simp: si_inv_def locking_function_def split: option.splits if_splits)
next
  case (ssl_cleanup st ok st')
  then show ?case by (auto simp: si_inv_def cleanup_SSL_def Let_def split: option.splits if_splits)
qed (auto simp: si_inv_def ssl_start_def initialize_SSL_def initialize_SSL_thread_def dyn_create_function_def dyn_lock_function_def dyn_destroy_function_def
    split: option.splits if_splits)

text \<open>
  In every reachable state OpenSSL can take a free lock while the callbacks are installed and give back one it took, and cleaning up when no
  lock is held removes the callbacks and the array, exactly when there is one.
\<close>

theorem ssl_locks_safe:
  assumes "si_reach num_locks st"
  shows "(si_callbacks st \<and> n < num_locks \<longrightarrow> locking_function CRYPTO_LOCK n st \<noteq> Undefined) \<and>
    (locking_function CRYPTO_LOCK n st = Done st' \<longrightarrow> locking_function 0 n st' = Done st) \<and>
    (si_mutex_buf st = None \<longrightarrow> cleanup_SSL st = Done (False, st)) \<and>
    (si_mutex_buf st = Some a \<and> si_arrays st a = Some (replicate num_locks False) \<longrightarrow>
      (\<exists>st'. cleanup_SSL st = Done (True, st') \<and> si_arrays st' = (si_arrays st)(a := None) \<and> \<not> si_callbacks st'))"
proof -
  have inv: "si_inv num_locks st" by (rule si_reach_inv [OF assms])
  have "locking_function 0 n st' = Done st" if l: "locking_function CRYPTO_LOCK n st = Done st'"
  proof -
    obtain b ms where b: "si_mutex_buf st = Some b" "si_arrays st b = Some ms" "n < length ms" "\<not> ms ! n"
      "st' = st\<lparr>si_arrays := (si_arrays st)(b \<mapsto> ms[n := True])\<rparr>"
      using l by (auto simp: locking_function_def CRYPTO_LOCK_def Option.bind_eq_Some_conv split: option.splits if_splits)
    have "ms[n := False] = ms" using b(3,4) list_update_id [of ms n] by simp
    moreover have "(si_arrays st)(b \<mapsto> ms) = si_arrays st" using b(2) by auto
    ultimately show ?thesis using b by (simp add: locking_function_def)
  qed
  then show ?thesis using inv
    by (auto simp: si_inv_def locking_function_def cleanup_SSL_def CRYPTO_LOCK_def Let_def split: option.splits)
qed

theorem ssl_locks_safe_witness: "cleanup_SSL ssl_start = Done (False, ssl_start)"
  using ssl_locks_safe [OF ssl_none, where n = 0 and st' = ssl_start and a = 0] by (simp add: ssl_start_def)

text \<open>A second initialisation forgets the array of the first, which no cleanup releases.\<close>

lemma initialize_SSL_twice_leaks:
  assumes "a \<noteq> b"
  shows "\<exists>st. cleanup_SSL (snd (initialize_SSL n b True cb' (snd (initialize_SSL n a True cb ssl_start)))) = Done (True, st) \<and>
    si_mutex_buf st = None \<and> si_arrays st a \<noteq> None"
  using assms by (simp add: initialize_SSL_def initialize_SSL_thread_def cleanup_SSL_def ssl_start_def Let_def)

text \<open>A failed initialisation leaves the callbacks installed.\<close>

lemma initialize_SSL_failed: "\<exists>st. initialize_SSL n a False cb ssl_start = (False, st) \<and> si_callbacks st"
  by (simp add: initialize_SSL_def initialize_SSL_thread_def)

end
