(* ===== verification/FunctionView.thy ===== *)
theory FunctionView
  imports Prelude
begin

text \<open>
  References to callables (\<open>src/function_view.h\<close>): a pointer with its type erased and the function that knows how to call it.  Objects that can
  be called live in a store, functions exist for ever; \<open>None\<close> is a call of an empty view, of an object that is gone or
  through the wrong member of the union.
\<close>

datatype void_union = Void_ptr nat | Fun_ptr "nat option" | Uninitialised

datatype dispatcher = Call_void_ptr | Call_fun_ptr

record function_view =
  fv_f :: void_union
  fv_call :: "dispatcher option"

definition fv_of_callable :: "nat \<Rightarrow> function_view" where
  "fv_of_callable p = \<lparr>fv_f = Void_ptr p, fv_call = Some Call_void_ptr\<rparr>"

definition fv_of_function :: "nat option \<Rightarrow> function_view" where
  "fv_of_function f = \<lparr>fv_f = Fun_ptr f, fv_call = (if f \<noteq> None then Some Call_fun_ptr else None)\<rparr>"

definition fv_of_nullptr :: function_view where
  "fv_of_nullptr = \<lparr>fv_f = Uninitialised, fv_call = None\<rparr>"

definition fv_new :: function_view where
  "fv_new = \<lparr>fv_f = Uninitialised, fv_call = None\<rparr>"

definition call_void_ptr :: "(nat \<Rightarrow> ('a \<Rightarrow> 'r) option) \<Rightarrow> void_union \<Rightarrow> 'a \<Rightarrow> 'r option" where
  "call_void_ptr objects vu args =
     (case vu of Void_ptr p \<Rightarrow> (case objects p of None \<Rightarrow> None | Some g \<Rightarrow> Some (g args)) | _ \<Rightarrow> None)"

definition call_fun_ptr :: "(nat \<Rightarrow> 'a \<Rightarrow> 'r) \<Rightarrow> void_union \<Rightarrow> 'a \<Rightarrow> 'r option" where
  "call_fun_ptr functions vu args = (case vu of Fun_ptr (Some f) \<Rightarrow> Some (functions f args) | _ \<Rightarrow> None)"

definition fv_apply :: "(nat \<Rightarrow> ('a \<Rightarrow> 'r) option) \<Rightarrow> (nat \<Rightarrow> 'a \<Rightarrow> 'r) \<Rightarrow> function_view \<Rightarrow> 'a \<Rightarrow> 'r option" where
  "fv_apply objects functions fv args =
     (case fv_call fv of
        None \<Rightarrow> None
      | Some Call_void_ptr \<Rightarrow> call_void_ptr objects (fv_f fv) args
      | Some Call_fun_ptr \<Rightarrow> call_fun_ptr functions (fv_f fv) args)"

definition fv_bool :: "function_view \<Rightarrow> bool" where
  "fv_bool fv \<longleftrightarrow> fv_call fv \<noteq> None"

inductive fv_made :: "function_view \<Rightarrow> bool" where
  "fv_made (fv_of_callable p)"
| "fv_made (fv_of_function f)"
| "fv_made fv_of_nullptr"
| "fv_made fv_new"

text \<open>
  A call through a view is a call of its callable, and a view is true exactly when it can be called while the callable lives.
\<close>

lemma fv_apply_callable [simp]: "fv_apply objs funs (fv_of_callable p) args = map_option (\<lambda>g. g args) (objs p)"
  by (simp add: fv_apply_def fv_of_callable_def call_void_ptr_def split: option.split)

lemma fv_apply_function [simp]: "fv_apply objs funs (fv_of_function f) args = map_option (\<lambda>f. funs f args) f"
  by (cases f) (simp_all add: fv_apply_def fv_of_function_def call_fun_ptr_def)

lemma fv_apply_empty [simp]: "fv_apply objs funs fv_of_nullptr args = None" "fv_apply objs funs fv_new args = None"
  by (simp_all add: fv_apply_def fv_of_nullptr_def fv_new_def)

lemma function_view_bool:
  assumes "fv_made fv"
  shows "fv_bool fv \<longleftrightarrow> (\<exists>objs. fv_apply objs (\<lambda>_ _. ()) fv args \<noteq> None)"
  using assms
proof cases
  case (1 p)
  have "fv_bool (fv_of_callable p)" by (simp add: fv_bool_def fv_of_callable_def)
  moreover have "fv_apply (\<lambda>_. Some (\<lambda>_. ())) (\<lambda>_ _. ()) (fv_of_callable p) args \<noteq> None" by simp
  ultimately show ?thesis unfolding 1 by blast
qed (auto simp: fv_bool_def fv_of_function_def fv_of_nullptr_def fv_new_def fv_apply_def call_fun_ptr_def)

end
