(* ===== verification/Spec2Isabelle.thy ===== *)
theory Spec2Isabelle
  imports ByteBuffer BufferQueue Base64 StringEncode StringToNumber Crc32 SafeNum OptionalT IPAddress SocketAddress
    PercentileFilter RateStatistics Sigslot TimeUtils MessageDigest NetworkUpdate NetworkText OpenSSLHandshake IdentityOwnership
    PlatformThread ZMalloc Logging AsyncUdpSocket OpenSSLInit FunctionView
begin

text \<open>
  Verification of \<open>librtcbase\<close>, the base library of a real-time communication stack (\<open>src/src\<close>): byte
  order and buffers, text codecs, checked arithmetic, addresses, statistics, signals and slots, time,
  digests, networks, streams over OpenSSL, locks, sockets and the event loop.

  \<^bold>\<open>Parts and theories.\<close>
  \<^item> \<open>Prelude\<close>: the machine types as words, memory blocks as lists with partial reads and writes, the two
    object representations of an integer, an interface of growing stores.
  \<^item> \<open>ByteOrder\<close> (\<open>byte_order.h\<close>): accessors and host/network conversions for both host byte orders; the
    contract of a pair of accessors is the locale \<open>wire_int\<close>, interpreted for the six pairs.
  \<^item> \<open>ByteBuffer\<close> (\<open>byte_buffer.{h,cpp}\<close>): writer and reader with every typed field; safety of the writer,
    atomic failure of the reads, the round trip of every sequence of fields.
  \<^item> \<open>ArrayView\<close>, \<open>BufferT\<close>, \<open>BufferQueue\<close> (\<open>array_view.h\<close>, \<open>buffer.h\<close>, \<open>buffer_queue.{h,cpp}\<close>): views,
    the growing buffer with uninitialised elements, and the bounded queue of buffers as a refinement of a
    FIFO of byte strings.
  \<^item> \<open>Base64\<close>, \<open>StringEncode\<close>, \<open>StringToNumber\<close> (\<open>base64\<close>, \<open>string_encode\<close>, \<open>string_utils\<close>, \<open>string_to_number\<close>):
    codecs with their round trips and exact domains, splitting and tokenising, numeric parsing.
  \<^item> \<open>Crc32\<close> (\<open>crc32.{h,cpp}\<close>): the table-driven checksum against the polynomial division of ISO 3309.
  \<^item> \<open>HashStream\<close>, \<open>Md5\<close>, \<open>Sha1\<close>, \<open>MessageDigest\<close> (\<open>md5\<close>, \<open>sha1\<close>, \<open>md5_digest\<close>, \<open>sha1_digest\<close>, \<open>message_digest\<close>):
    the block structure shared by the digests, MD5 against RFC 1321, SHA-1 with its expansion in place
    against FIPS 180-4, and HMAC against RFC 2104.  The locales \<open>stream_hash\<close> and \<open>digest_object\<close> state
    what a context and a digest object promise; the client \<open>compute_hmac\<close> is proved in the latter.
  \<^item> \<open>SafeNum\<close> (\<open>safe_compare.h\<close>, \<open>safe_conversions.h\<close>, \<open>safe_conversions_impl.h\<close>, \<open>safe_minmax.h\<close>): comparison, casts
    and clamping of mixed integer types, as functions of the types.
  \<^item> \<open>OptionalT\<close> (\<open>optional.h\<close>): construction and destruction of the contained object as explicit lifetimes.
  \<^item> \<open>IPAddress\<close>, \<open>SocketAddress\<close> (\<open>ipaddress\<close>, \<open>socket_address\<close>): classification, order, masks, mapped
    addresses, text and \<open>sockaddr_storage\<close>.
  \<^item> \<open>Float32\<close>: the part of binary32 arithmetic that the statistics use.  \<open>NodeList\<close>: containers whose
    iterators are node identities.
  \<^item> \<open>PercentileFilter\<close>, \<open>RateStatistics\<close> (\<open>percentile_filter.h\<close>, \<open>moving_median_filter.h\<close>, \<open>rate_statistics\<close>):
    refinements of a multiset with a rank (for at most \<open>2\<^sup>2\<^sup>4\<close> operations) and of a list of timed samples, in which queries change nothing.
  \<^item> \<open>Sigslot\<close> (\<open>sigslot.h\<close>, \<open>sigslot_repeater.h\<close>): signals and objects in a store, emission as a machine whose
    slots may connect, disconnect and destroy; reachable states keep an invariant that excludes dangling
    pointers and stale iterators, for clients that do not connect a pair twice or destroy a signal during its emission.
  \<^item> \<open>StdContainers\<close>, \<open>Network\<close>, \<open>NetworkManager\<close>, \<open>NetworkUpdate\<close>, \<open>NetworkText\<close> (\<open>network.{h,cpp}\<close>, \<open>network_constants.h\<close>,
    \<open>ifaddrs_converter\<close>): \<open>Network\<close> objects in a store, the manager that enumerates the interfaces, merges the
    result into its map of known networks and owns the objects; its reachable states are an inductive
    relation, \<open>std::sort\<close> is any function that sorts by a strict weak order (which the comparison of the code is for interfaces with
    unambiguous prefixes only).  The anonymised texts.
  \<^item> \<open>StreamAdapter\<close>, \<open>OpenSSLStream\<close>, \<open>OpenSSLHandshake\<close> (\<open>stream\<close>, \<open>ssl_stream_adapter\<close>, \<open>openssl_stream_adapter\<close>, \<open>openssl_digest\<close>):
    streams with \<open>write_all\<close> as a loop that need not end, SRTP suites, the adapter with every operation over a store
    of OpenSSL objects; its steps are an inductive relation, reachable adapters own exactly the live objects and
    signal that they are open when the certificate is verified (or need not be); a further open event of the stream below is passed on.
  \<^item> \<open>SslIdentity\<close> (\<open>ssl_identity\<close>, \<open>openssl_identity.cpp\<close>, \<open>ssl_fingerprint\<close>, \<open>rtccertificate\<close>, \<open>rtccertificate_generator\<close>):
    times in certificates, key parameters, fingerprints and their exchange.
  \<^item> \<open>IdentityObjects\<close>, \<open>IdentityOwnership\<close> (\<open>openssl_identity\<close>, certificate chains, \<open>rtccertificate_generator\<close>): keys, certificates
    and identities as holders of reference counted OpenSSL objects; every failing call is a branch, the counts agree with
    the holders in every reachable state of a program whose OpenSSL reports its errors and makes EC keys.
  \<^item> \<open>RandomNumbers\<close> (\<open>random\<close>): the generator xorshift64* as a permutation of its states, intervals and their preimages, strings and UUIDs.
  \<^item> \<open>RefCounting\<close>, \<open>Locks\<close> (\<open>atomicops.h\<close>, \<open>ref_count\<close>, \<open>ref_counter\<close>, \<open>ref_counted_base\<close>, \<open>ref_counted_object\<close>, \<open>critical_section\<close>, \<open>event\<close>):
    counters, the spinning lock, the recursive lock and events as steps of interleaved threads at their atomic operations.
  \<^item> \<open>PlatformThread\<close> (\<open>platform_thread\<close>): priorities, the loop of a worker thread as a partial function, starting and stopping.
  \<^item> \<open>EventLoop\<close> (\<open>event_loop\<close>): masks, watchers and timers in a store over libev, whose functions are a parameter with their documented
    effect; what a watcher watches after every operation.
  \<^item> \<open>PhysicalSocket\<close>, \<open>AsyncUdpSocket\<close> (\<open>socket.h\<close>, \<open>physical_socket_server\<close>, \<open>async_udp_socket\<close>, \<open>async_packet_socket.h\<close>): sockets over the table of
    open descriptors, and the queues of the UDP socket served from the event loop while slots add packets, with the calls of
    \<open>sendto\<close> as a trace; per destination packets are sent or dropped in the order in which they were accepted, also around \<open>close\<close>.
  \<^item> \<open>Logging\<close> (\<open>logging\<close>, \<open>location\<close>): thresholds and streams, texts, and which message reaches which stream.
  \<^item> \<open>OpenSSLInit\<close>, \<open>FunctionView\<close> (\<open>openssl_adapter\<close>, \<open>function_view.h\<close>): the locks that OpenSSL asks for, initialisation and cleanup;
    references to callables.
  \<^item> \<open>ZMalloc\<close> (\<open>zmalloc.{h,cpp}\<close>): allocation with the size in front of each block; the used memory is the sum of the sizes of
    the live blocks in every reachable state.  The allocator is a parameter with its documented contract.
  \<^item> \<open>TimeUtils\<close> (\<open>time_utils\<close>): clocks, calendar time, timestamp extension.

  \<^bold>\<open>How code becomes definitions.\<close>  A function of the source is a definition of the same name (with a
  prefix of its class where names clash); members are record fields; an out-of-bounds access, a use of a
  dead object or an exception is \<open>None\<close> or a constructor of a result type, so that a theorem that gives
  \<open>Some\<close> also says that the code is free of it.  The byte order of the host is the parameter \<open>he\<close>.
  Operating system and C library services whose code is not in the repository (\<open>inet_ntop\<close>, \<open>inet_pton\<close>,
  clocks, the allocator, OpenSSL) are parameters.  Loops are recursive functions with termination proofs (\<open>write_all\<close>,
  the loops of \<open>send_data\<close> and of worker threads, which need not end, are partial functions into options); no definition uses fuel.  Counts of elements of existing objects are natural numbers; counters that wrap
  (bit lengths, timestamps, checksums) are words.

  \<^bold>\<open>Not modelled.\<close>  The creation of threads (pthread; components that lock
  are atomic steps), log output inside the other components, OpenSSL itself and everything that only forwards to OpenSSL, libev or system
  calls, iostream formatting, floating-point variants of the checked arithmetic.  What only forwards to
  libev (running, suspending and breaking the loop) and accessors that only store a value are left out, as are the
  compile-time helpers.
\<close>

end
